(* ===== verification/Damacy_Prelude.thy ===== *)
theory Damacy_Prelude
  imports Main "HOL-Library.Word" "HOL-Library.Multiset" "HOL-Library.Code_Target_Nat"
begin

text \<open>
  Shared vocabulary of the damacy development: the status codes of the public API, the
  machine-integer conventions, and the generic facts on lists and masks that the component
  theories use.

  Unsigned C integers that only ever index, count or measure are modelled as \<^typ>\<open>nat\<close>, with the
  wrap-around of the C operator written out by the functions below wherever the source
  computes with them; values that the source manipulates bit by bit (hashes, checksums, floating
  point bit patterns) are modelled as fixed-width words.
\<close>

named_theorems u_arith \<open>unfolding rules of the wrap-around operators\<close>

unbundle bit_operations_syntax

section \<open>Status codes (src/src/damacy.h)\<close>

datatype damacy_status =
    DAMACY_OK
  | DAMACY_AGAIN
  | DAMACY_INVAL
  | DAMACY_NOTFOUND
  | DAMACY_DTYPE
  | DAMACY_RANK
  | DAMACY_IO
  | DAMACY_DECODE
  | DAMACY_CUDA
  | DAMACY_OOM
  | DAMACY_BUDGET
  | DAMACY_SHUTDOWN
  | DAMACY_UNSUPPORTED

section \<open>Compile-time limits (src/src/damacy\_limits.h)\<close>

abbreviation UINT8_MAX :: nat where "UINT8_MAX \<equiv> 2 ^ 8 - 1"
abbreviation UINT16_MAX :: nat where "UINT16_MAX \<equiv> 2 ^ 16 - 1"
abbreviation UINT32_MAX :: nat where "UINT32_MAX \<equiv> 2 ^ 32 - 1"
abbreviation UINT64_MAX :: nat where "UINT64_MAX \<equiv> 2 ^ 64 - 1"
abbreviation SIZE_MAX :: nat where "SIZE_MAX \<equiv> 2 ^ 64 - 1"
abbreviation INT64_MAX :: int where "INT64_MAX \<equiv> 2 ^ 63 - 1"

definition DAMACY_MAX_RANK :: nat where "DAMACY_MAX_RANK = 31"
definition DAMACY_N_BATCH_SLOTS :: nat where "DAMACY_N_BATCH_SLOTS = 2"
definition DAMACY_MAX_CHUNKS_PER_BATCH :: nat where "DAMACY_MAX_CHUNKS_PER_BATCH = 16384"
definition DAMACY_BLOSC_MAX_CHUNK_UNCOMPRESSED_BYTES :: nat where
  "DAMACY_BLOSC_MAX_CHUNK_UNCOMPRESSED_BYTES = 16 * 2 ^ 20"

section \<open>Wrap-around arithmetic\<close>

definition u32_add :: "nat \<Rightarrow> nat \<Rightarrow> nat" where [u_arith]: "u32_add a b = (a + b) mod 2 ^ 32"
definition u32_sub :: "nat \<Rightarrow> nat \<Rightarrow> nat" where [u_arith]: "u32_sub a b = (a + (2 ^ 32 - b mod 2 ^ 32)) mod 2 ^ 32"
definition u32_mul :: "nat \<Rightarrow> nat \<Rightarrow> nat" where [u_arith]: "u32_mul a b = (a * b) mod 2 ^ 32"
definition u64_add :: "nat \<Rightarrow> nat \<Rightarrow> nat" where [u_arith]: "u64_add a b = (a + b) mod 2 ^ 64"
definition u64_sub :: "nat \<Rightarrow> nat \<Rightarrow> nat" where [u_arith]: "u64_sub a b = (a + (2 ^ 64 - b mod 2 ^ 64)) mod 2 ^ 64"
definition u64_mul :: "nat \<Rightarrow> nat \<Rightarrow> nat" where [u_arith]: "u64_mul a b = (a * b) mod 2 ^ 64"

lemma u32_add_exact: "a + b < 2 ^ 32 \<Longrightarrow> u32_add a b = a + b"
  by (simp add: u_arith)

lemma wrap_sub_exact:
  assumes "b \<le> a" and "a < m"
  shows "(a + (m - b mod m)) mod m = a - (b :: nat)"
proof -
  from assms have "a + (m - b mod m) = (a - b) + m" by simp
  then show ?thesis using assms by (simp del: add_diff_assoc2)
qed

lemma u32_sub_exact: "b \<le> a \<Longrightarrow> a < 2 ^ 32 \<Longrightarrow> u32_sub a b = a - b"
  unfolding u32_sub_def by (rule wrap_sub_exact)

lemma u32_mul_exact: "a * b < 2 ^ 32 \<Longrightarrow> u32_mul a b = a * b"
  by (simp add: u_arith)

lemma u64_add_exact: "a + b < 2 ^ 64 \<Longrightarrow> u64_add a b = a + b"
  by (simp add: u_arith)

lemma u64_sub_exact: "b \<le> a \<Longrightarrow> a < 2 ^ 64 \<Longrightarrow> u64_sub a b = a - b"
  unfolding u64_sub_def by (rule wrap_sub_exact)

lemma u64_mul_exact: "a * b < 2 ^ 64 \<Longrightarrow> u64_mul a b = a * b"
  by (simp add: u_arith)

lemmas u_exact = u32_add_exact u32_sub_exact u32_mul_exact u64_add_exact u64_sub_exact u64_mul_exact

lemma and_mask_mod: "(a :: nat) AND (2 ^ k - 1) = a mod 2 ^ k"
  unfolding mask_eq_exp_minus_1 [symmetric] take_bit_eq_mask [symmetric] by (rule take_bit_eq_mod)

section \<open>Cyclic index arithmetic\<close>

text \<open>Distance from \<open>i\<close> forward to \<open>c\<close> on a ring of \<open>n\<close> cells: what \<open>(c - i) & (n - 1)\<close> computes when
  \<open>n\<close> is a power of two.\<close>

definition cdist :: "nat \<Rightarrow> nat \<Rightarrow> nat \<Rightarrow> nat" where
  "cdist n i c = (c + (n - i)) mod n"

lemma cdist_cases:
  assumes "i < n" and "c < n"
  shows "cdist n i c = (if i \<le> c then c - i else c + n - i)"
  using assms by (auto simp: cdist_def mod_if)

lemma cdist_less: "0 < n \<Longrightarrow> cdist n i c < n"
  by (simp add: cdist_def)

lemma cdist_self [simp]: "i < n \<Longrightarrow> cdist n i i = 0"
  by (simp add: cdist_def)

lemma add_cdist: "i < n \<Longrightarrow> c < n \<Longrightarrow> (i + cdist n i c) mod n = c"
  by (auto simp: cdist_cases mod_if)

lemma cdist_step_le:
  assumes "i < n" and "c < n"
  shows "cdist n i (Suc c mod n) \<le> Suc (cdist n i c)"
  using assms by (auto simp: cdist_cases mod_if)

lemma cdist_step_back:
  assumes "i < n" and "c < n" and "cdist n i (Suc c mod n) \<noteq> 0"
  shows "cdist n i c < cdist n i (Suc c mod n)"
  using assms by (auto simp: cdist_cases mod_if split: if_splits)

lemma ring_add_mod: "((c + u) mod n + v) mod n = (c + (u + v)) mod (n :: nat)"
  by (simp add: mod_add_left_eq add.assoc)

lemma ring_add_inj:
  assumes "u < n" and "v < n" and "(c + u) mod n = (c + v) mod (n :: nat)"
  shows "u = v"
  using assms
proof (induction u v rule: linorder_wlog)
  case (le u v)
  then have "n dvd (c + v) - (c + u)"
    by (metis mod_eq_dvd_iff_nat add_le_cancel_left)
  with le have "n dvd v - u" by simp
  with le show ?case by (auto dest: dvd_imp_le)
qed simp

lemma wrap_sub_and_mask:
  assumes "k \<le> w" and "i < 2 ^ k" and "c < 2 ^ k"
  shows "(c + (2 ^ w - i)) mod 2 ^ w AND (2 ^ k - 1) = cdist (2 ^ k) i c"
proof -
  have le: "(2 :: nat) ^ k \<le> 2 ^ w" using assms(1) by (rule power_increasing) simp
  have dvd: "(2 :: nat) ^ k dvd 2 ^ w" using assms(1) by (rule le_imp_power_dvd)
  then obtain q where q: "(2 :: nat) ^ w = 2 ^ k * q" by (rule dvdE)
  have "(c + (2 ^ w - i)) mod 2 ^ w AND (2 ^ k - 1) = (c + (2 ^ w - i)) mod 2 ^ k"
    unfolding and_mask_mod using dvd by (rule mod_mod_cancel)
  also have "\<dots> = ((c + (2 ^ k - i)) + 2 ^ k * (q - 1)) mod 2 ^ k"
  proof -
    have "c + (2 ^ w - i) = (c + (2 ^ k - i)) + (2 ^ w - 2 ^ k)" using assms le by linarith
    also have "(2 :: nat) ^ w - 2 ^ k = 2 ^ k * (q - 1)" unfolding q by (simp add: diff_mult_distrib2)
    finally show ?thesis by (rule arg_cong)
  qed
  finally show ?thesis by (simp add: cdist_def)
qed

lemma u32_sub_and_mask:
  assumes "k \<le> 32" and "i < 2 ^ k" and "c < 2 ^ k"
  shows "u32_sub c i AND (2 ^ k - 1) = cdist (2 ^ k) i c"
proof -
  have "(2 :: nat) ^ k \<le> 2 ^ 32" using assms(1) by (rule power_increasing) simp
  then show ?thesis using wrap_sub_and_mask [OF assms] assms(2,3) by (simp add: u32_sub_def)
qed

lemma u64_sub_and_mask:
  assumes "k \<le> 64" and "i < 2 ^ k" and "c < 2 ^ k"
  shows "u64_sub c i AND (2 ^ k - 1) = cdist (2 ^ k) i c"
proof -
  have "(2 :: nat) ^ k \<le> 2 ^ 64" using assms(1) by (rule power_increasing) simp
  then show ?thesis using wrap_sub_and_mask [OF assms] assms(2,3) by (simp add: u64_sub_def)
qed

lemma u32_incr_and_mask:
  assumes "k \<le> 32" and "c < 2 ^ k"
  shows "u32_add c 1 AND (2 ^ k - 1) = Suc c mod 2 ^ k"
proof -
  have "(2 :: nat) ^ k dvd 2 ^ 32" using assms(1) by (rule le_imp_power_dvd)
  then have "(c + 1) mod 2 ^ 32 mod 2 ^ k = Suc c mod 2 ^ k"
    by (simp add: mod_mod_cancel)
  then show ?thesis unfolding and_mask_mod u32_add_def by simp
qed

section \<open>Rounding up to a power of two\<close>

text \<open>One step \<open>v |= v >> n\<close> of the bit-smearing idiom. \<open>smeared k n v\<close>: no bit of \<open>v\<close> at or above \<open>k\<close>
  is set and the top \<open>n\<close> bits below \<open>k\<close> are.\<close>

definition smeared :: "nat \<Rightarrow> nat \<Rightarrow> nat \<Rightarrow> bool" where
  "smeared k n v \<longleftrightarrow> (\<forall>j. j < k \<and> k \<le> j + n \<longrightarrow> bit v j) \<and> (\<forall>j\<ge>k. \<not> bit v j)"

lemma smeared_step: "smeared k n v \<Longrightarrow> smeared k (2 * n) (v OR drop_bit n v)"
  unfolding smeared_def bit_or_iff bit_drop_bit_eq comp_def
  by (metis add.assoc add.commute le_add1 le_trans mult_2 not_le)

lemma smeared_start: "2 ^ k \<le> v \<Longrightarrow> v < 2 ^ Suc k \<Longrightarrow> smeared (Suc k) 1 v"
proof -
  assume v: "2 ^ k \<le> v" "v < 2 ^ Suc k"
  have "\<not> bit v j" if "Suc k \<le> j" for j
  proof -
    have "v < 2 ^ j" using v(2) power_increasing [OF that, of "2 :: nat"] by linarith
    then show ?thesis by (simp add: bit_iff_odd)
  qed
  moreover have "v div 2 ^ k = 1"
    using v by (intro div_nat_eqI) auto
  then have "bit v k" by (simp add: bit_iff_odd)
  ultimately show ?thesis unfolding smeared_def by (auto simp: less_Suc_eq)
qed

lemma smeared_full: "smeared k n v \<Longrightarrow> k \<le> n \<Longrightarrow> v = 2 ^ k - 1"
  unfolding smeared_def mask_eq_exp_minus_1 [symmetric]
  by (rule bit_eqI) (auto simp: bit_mask_iff not_le [symmetric])

lemma pow2_bracket:
  assumes "0 < (v :: nat)"
  obtains k where "2 ^ k \<le> v" and "v < 2 ^ Suc k"
  using assms by (metis ex_power_ivl1 le_refl Suc_leI One_nat_def numeral_2_eq_2 Suc_eq_plus1)

section \<open>Loops that may fail\<close>

text \<open>A loop whose body may leave it with an error.\<close>

fun loop_res :: "('a \<Rightarrow> 's \<Rightarrow> 'e + 's) \<Rightarrow> 'a list \<Rightarrow> 's \<Rightarrow> 'e + 's" where
  "loop_res f [] s = Inr s"
| "loop_res f (x # xs) s = (case f x s of Inl e \<Rightarrow> Inl e | Inr s \<Rightarrow> loop_res f xs s)"

lemma loop_res_inv:
  assumes "\<And>x s s'. x \<in> set xs \<Longrightarrow> P s \<Longrightarrow> f x s = Inr s' \<Longrightarrow> P s'" and "P s" and "loop_res f xs s = Inr s'"
  shows "P s'"
  using assms by (induction xs arbitrary: s) (auto split: sum.splits)

lemma loop_res_err: "loop_res f xs s = Inl e \<Longrightarrow> \<exists>x s. f x s = Inl e"
  by (induction xs arbitrary: s) (auto split: sum.splits)

section \<open>Sums and lists\<close>

lemma map_sum_eq_Inr: "map_sum f g x = Inr y \<longleftrightarrow> (\<exists>z. x = Inr z \<and> y = g z)"
  by (cases x) auto

lemma dropWhile_less_Suc [simp]: "length (dropWhile P xs) < Suc (length xs)"
  by (simp add: le_imp_less_Suc length_dropWhile_le)

section \<open>Characters\<close>

definition is_digit :: "char \<Rightarrow> bool" where
  "is_digit c \<longleftrightarrow> of_char c \<in> {48 .. (57 :: nat)}"

section \<open>Evaluation\<close>

text \<open>The widths of machine words are cut by a mask that is a numeral.\<close>

lemma take_bit_int_code [code]:
  "take_bit n (k :: int) =
     (if n = 64 then k AND 0xFFFFFFFFFFFFFFFF else if n = 32 then k AND 0xFFFFFFFF else if n = 8 then k AND 0xFF else k AND mask n)"
  by (simp add: take_bit_eq_mask mask_eq_exp_minus_1)

end
