(* ===== verification/Lru_List.thy ===== *)
theory Lru_List
  imports Damacy_Prelude
begin

text \<open>
  The intrusive, sentinel-anchored, doubly linked list of src/src/util/lru.c. A node is the
  \<open>link\<close> field of a slot or one of the two sentinels owned by \<open>struct lru\<close>; the pointers are two
  maps from nodes to nodes, and each list primitive performs the source's assignments in the
  source's order. \<open>is_list lk s xs\<close> says that the nodes reachable from the sentinel \<open>s\<close> are the
  slots \<open>xs\<close>, front first, linked both ways. The lemmas show that the primitives implement the
  obvious operations on \<open>xs\<close> and leave every list that does not share a node alone.
\<close>

section \<open>Nodes and pointers\<close>

datatype lru_node = Lru_Order | Free_List | Slot_Link nat

record lru_list =
  prev :: "lru_node \<Rightarrow> lru_node"
  nxt :: "lru_node \<Rightarrow> lru_node"

definition list_init :: "lru_list \<Rightarrow> lru_node \<Rightarrow> lru_list" where
  "list_init lk node =
     (let lk = lk\<lparr>prev := (prev lk)(node := node)\<rparr>
      in lk\<lparr>nxt := (nxt lk)(node := node)\<rparr>)"

definition list_empty :: "lru_list \<Rightarrow> lru_node \<Rightarrow> bool" where
  "list_empty lk sentinel \<longleftrightarrow> nxt lk sentinel = sentinel"

definition list_unlink :: "lru_list \<Rightarrow> lru_node \<Rightarrow> lru_list" where
  "list_unlink lk node =
     (let lk = lk\<lparr>nxt := (nxt lk)(prev lk node := nxt lk node)\<rparr>;
          lk = lk\<lparr>prev := (prev lk)(nxt lk node := prev lk node)\<rparr>;
          lk = lk\<lparr>prev := (prev lk)(node := node)\<rparr>
      in lk\<lparr>nxt := (nxt lk)(node := node)\<rparr>)"

definition list_push_front :: "lru_list \<Rightarrow> lru_node \<Rightarrow> lru_node \<Rightarrow> lru_list" where
  "list_push_front lk sentinel node =
     (let lk = lk\<lparr>prev := (prev lk)(node := sentinel)\<rparr>;
          lk = lk\<lparr>nxt := (nxt lk)(node := nxt lk sentinel)\<rparr>;
          lk = lk\<lparr>prev := (prev lk)(nxt lk sentinel := node)\<rparr>
      in lk\<lparr>nxt := (nxt lk)(sentinel := node)\<rparr>)"

definition list_promote :: "lru_list \<Rightarrow> lru_node \<Rightarrow> lru_node \<Rightarrow> lru_list" where
  "list_promote lk sentinel node =
     (if nxt lk sentinel = node then lk
      else list_push_front (list_unlink lk node) sentinel node)"

section \<open>Segments and lists\<close>

fun lseg :: "lru_list \<Rightarrow> lru_node \<Rightarrow> lru_node list \<Rightarrow> lru_node \<Rightarrow> bool" where
  "lseg lk a [] b \<longleftrightarrow> nxt lk a = b \<and> prev lk b = a"
| "lseg lk a (x # xs) b \<longleftrightarrow> nxt lk a = x \<and> prev lk x = a \<and> lseg lk x xs b"

definition sentinel :: "lru_node \<Rightarrow> bool" where
  "sentinel s \<longleftrightarrow> (\<forall>i. s \<noteq> Slot_Link i)"

definition is_list :: "lru_list \<Rightarrow> lru_node \<Rightarrow> nat list \<Rightarrow> bool" where
  "is_list lk s xs \<longleftrightarrow> sentinel s \<and> distinct xs \<and> lseg lk s (map Slot_Link xs) s"

lemma sentinel_simps [simp]:
  "sentinel Lru_Order" "sentinel Free_List" "\<not> sentinel (Slot_Link i)"
  by (auto simp: sentinel_def)

lemma sentinel_neq [simp]: "sentinel s \<Longrightarrow> s \<noteq> Slot_Link i" "sentinel s \<Longrightarrow> Slot_Link i \<noteq> s"
  by (auto simp: sentinel_def)

lemma lseg_append:
  "lseg lk a (xs @ y # ys) b \<longleftrightarrow> lseg lk a xs y \<and> lseg lk y ys b"
  by (induction xs arbitrary: a) auto

text \<open>Only the \<open>nxt\<close> of the nodes before the end and the \<open>prev\<close> of the nodes after the start matter.\<close>

lemma lseg_frame:
  assumes "lseg lk a xs b"
    and "\<And>x. x \<in> set (a # xs) \<Longrightarrow> nxt lk' x = nxt lk x"
    and "\<And>x. x \<in> set (xs @ [b]) \<Longrightarrow> prev lk' x = prev lk x"
  shows "lseg lk' a xs b"
  using assms
proof (induction xs arbitrary: a)
  case (Cons x xs)
  have "lseg lk' x xs b"
    by (rule Cons.IH) (use Cons.prems in simp_all)
  with Cons.prems show ?case by simp
qed simp

lemma is_list_frame:
  assumes "is_list lk s xs"
    and "\<And>x. x = s \<or> x \<in> Slot_Link ` set xs \<Longrightarrow> nxt lk' x = nxt lk x \<and> prev lk' x = prev lk x"
  shows "is_list lk' s xs"
proof -
  have "lseg lk' s (map Slot_Link xs) s"
  proof (rule lseg_frame)
    show "lseg lk s (map Slot_Link xs) s" using assms(1) by (simp add: is_list_def)
    show "nxt lk' x = nxt lk x" if "x \<in> set (s # map Slot_Link xs)" for x
      using assms(2) [of x] that by simp
    show "prev lk' x = prev lk x" if "x \<in> set (map Slot_Link xs @ [s])" for x
      using assms(2) [of x] that by auto
  qed
  with assms(1) show ?thesis by (simp add: is_list_def)
qed

lemma lseg_prev_end: "lseg lk a xs b \<Longrightarrow> prev lk b = last (a # xs)"
proof (induction xs arbitrary: a)
  case (Cons x xs)
  from Cons.prems have "lseg lk x xs b" by simp
  from Cons.IH [OF this] show ?case by simp
qed simp

lemma lseg_nxt_start: "lseg lk a xs b \<Longrightarrow> nxt lk a = hd (xs @ [b])"
  by (cases xs) auto

lemma is_list_sentinel: "is_list lk s xs \<Longrightarrow> sentinel s"
  by (simp add: is_list_def)

lemma is_list_distinct: "is_list lk s xs \<Longrightarrow> distinct xs"
  by (simp add: is_list_def)

lemma list_empty_iff: "is_list lk s xs \<Longrightarrow> list_empty lk s \<longleftrightarrow> xs = []"
  by (cases xs) (auto simp: is_list_def list_empty_def)

lemma is_list_first: "is_list lk s (x # xs) \<Longrightarrow> nxt lk s = Slot_Link x"
  by (simp add: is_list_def)

lemma is_list_init: "sentinel s \<Longrightarrow> is_list (list_init lk s) s []"
  by (simp add: is_list_def list_init_def)

section \<open>Unlink\<close>

lemma list_unlink_simps:
  assumes "prev lk x = a" and "nxt lk x = b" and "x \<noteq> a" and "x \<noteq> b"
  shows "nxt (list_unlink lk x) = (nxt lk)(a := b, x := x)"
    and "prev (list_unlink lk x) = (prev lk)(b := a, x := x)"
  using assms by (simp_all add: list_unlink_def Let_def)

lemma lseg_unlink:
  assumes seg: "lseg lk s (xs @ x # ys) s"
    and dist: "distinct (s # xs @ x # ys)"
  shows "lseg (list_unlink lk x) s (xs @ ys) s"
proof -
  define a where "a = last (s # xs)"
  define b where "b = hd (ys @ [s])"
  from seg have l: "lseg lk s xs x" and r: "lseg lk x ys s" by (auto simp: lseg_append)
  from l have pa: "prev lk x = a" unfolding a_def by (rule lseg_prev_end)
  from r have nb: "nxt lk x = b" unfolding b_def by (rule lseg_nxt_start)
  have ax: "x \<noteq> a" using dist unfolding a_def by (cases xs rule: rev_cases) auto
  have bx: "x \<noteq> b" using dist unfolding b_def by (cases ys) auto
  note un = list_unlink_simps [OF pa nb ax bx]
  show ?thesis
  proof (cases xs rule: rev_cases)
    case Nil
    then have "a = s" by (simp add: a_def)
    show ?thesis
    proof (cases ys)
      case Nil
      with \<open>xs = []\<close> \<open>a = s\<close> show ?thesis by (simp add: un b_def)
    next
      case (Cons y zs)
      then have "b = y" by (simp add: b_def)
      with r Cons have "lseg lk y zs s" by simp
      then have "lseg (list_unlink lk x) y zs s"
        by (rule lseg_frame) (use dist Cons \<open>a = s\<close> \<open>b = y\<close> \<open>xs = []\<close> in \<open>auto simp: un\<close>)
      with Cons Nil \<open>a = s\<close> \<open>b = y\<close> ax bx show ?thesis by (auto simp: un)
    qed
  next
    case (snoc zs z)
    then have "a = z" by (simp add: a_def)
    from l snoc have lz: "lseg lk s zs z" by (simp add: lseg_append)
    then have L: "lseg (list_unlink lk x) s zs z"
      by (rule lseg_frame)
        (use dist snoc \<open>a = z\<close> in \<open>auto simp: un b_def hd_append split: list.splits\<close>)
    show ?thesis
    proof (cases ys)
      case Nil
      then have "b = s" by (simp add: b_def)
      with L snoc Nil \<open>a = z\<close> ax bx show ?thesis by (simp add: lseg_append un)
    next
      case (Cons y ws)
      then have "b = y" by (simp add: b_def)
      with r Cons have "lseg lk y ws s" by simp
      then have "lseg (list_unlink lk x) y ws s"
        by (rule lseg_frame) (use dist Cons snoc \<open>a = z\<close> \<open>b = y\<close> in \<open>auto simp: un\<close>)
      with L snoc Cons \<open>a = z\<close> \<open>b = y\<close> ax bx show ?thesis by (simp add: lseg_append un)
    qed
  qed
qed

lemma remove1_split:
  assumes "i \<in> set xs" and "distinct xs"
  obtains ys zs where "xs = ys @ i # zs" and "remove1 i xs = ys @ zs"
proof -
  from assms(1) obtain ys zs where "xs = ys @ i # zs" by (meson split_list)
  moreover with assms(2) have "remove1 i xs = ys @ zs" by (simp add: remove1_append)
  ultimately show thesis by (rule that)
qed

lemma is_list_unlink:
  assumes "is_list lk s xs" and "i \<in> set xs"
  shows "is_list (list_unlink lk (Slot_Link i)) s (remove1 i xs)"
proof -
  from assms obtain ys zs where xs: "xs = ys @ i # zs" and rm: "remove1 i xs = ys @ zs"
    using is_list_distinct remove1_split by metis
  from assms have d: "distinct (s # map Slot_Link ys @ Slot_Link i # map Slot_Link zs)"
    by (auto simp: is_list_def xs sentinel_def distinct_map inj_on_def)
  from assms have "lseg lk s (map Slot_Link ys @ Slot_Link i # map Slot_Link zs) s"
    by (simp add: is_list_def xs)
  from lseg_unlink [OF this d] assms show ?thesis
    unfolding is_list_def rm by (auto simp: xs)
qed

lemma is_list_nodes:
  assumes "is_list lk s xs" and "i \<in> set xs"
  shows "prev lk (Slot_Link i) \<in> insert s (Slot_Link ` set xs)"
    and "nxt lk (Slot_Link i) \<in> insert s (Slot_Link ` set xs)"
proof -
  from assms(2) obtain ys zs where xs: "xs = ys @ i # zs" by (meson split_list)
  with assms(1) have l: "lseg lk s (map Slot_Link ys) (Slot_Link i)"
    and r: "lseg lk (Slot_Link i) (map Slot_Link zs) s"
    by (auto simp: is_list_def lseg_append)
  have "prev lk (Slot_Link i) \<in> set (s # map Slot_Link ys)"
    unfolding lseg_prev_end [OF l] by (rule last_in_set) simp
  then show "prev lk (Slot_Link i) \<in> insert s (Slot_Link ` set xs)" by (auto simp: xs)
  have "nxt lk (Slot_Link i) \<in> set (map Slot_Link zs @ [s])"
    unfolding lseg_nxt_start [OF r] by (rule hd_in_set) simp
  then show "nxt lk (Slot_Link i) \<in> insert s (Slot_Link ` set xs)" by (auto simp: xs)
qed

text \<open>Unlinking a node of one list leaves a disjoint list alone.\<close>

lemma is_list_unlink_other:
  assumes l: "is_list lk s xs" "i \<in> set xs"
    and o: "is_list lk t ys" "s \<noteq> t" "set xs \<inter> set ys = {}"
  shows "is_list (list_unlink lk (Slot_Link i)) t ys"
proof (rule is_list_frame [OF o(1)])
  fix x assume x: "x = t \<or> x \<in> Slot_Link ` set ys"
  let ?a = "prev lk (Slot_Link i)" and ?b = "nxt lk (Slot_Link i)"
  from is_list_sentinel [OF l(1)] is_list_sentinel [OF o(1)] x o l(2)
  have "x \<noteq> s" and "x \<notin> Slot_Link ` set xs" by (auto simp: sentinel_def)
  with is_list_nodes [OF l] l(2) have "x \<noteq> ?a" "x \<noteq> ?b" "x \<noteq> Slot_Link i" by auto
  then show "nxt (list_unlink lk (Slot_Link i)) x = nxt lk x \<and> prev (list_unlink lk (Slot_Link i)) x = prev lk x"
    by (auto simp: list_unlink_def Let_def)
qed

section \<open>Push and promote\<close>

lemma is_list_push_front:
  assumes l: "is_list lk s xs" and i: "i \<notin> set xs"
  shows "is_list (list_push_front lk s (Slot_Link i)) s (i # xs)"
proof -
  have s: "sentinel s" using is_list_sentinel [OF l] .
  show ?thesis
  proof (cases xs)
    case Nil
    with l s show ?thesis by (auto simp: is_list_def list_push_front_def Let_def)
  next
    case (Cons y ys)
    with l have n: "nxt lk s = Slot_Link y" and seg: "lseg lk (Slot_Link y) (map Slot_Link ys) s"
      by (auto simp: is_list_def)
    have "lseg (list_push_front lk s (Slot_Link i)) (Slot_Link y) (map Slot_Link ys) s"
      by (rule lseg_frame [OF seg])
        (use l i Cons n s in \<open>auto simp: list_push_front_def Let_def is_list_def\<close>)
    with Cons l i n s show ?thesis
      by (auto simp: is_list_def list_push_front_def Let_def)
  qed
qed

lemma is_list_push_front_other:
  assumes l: "is_list lk s xs" and i: "i \<notin> set ys"
    and o: "is_list lk t ys" "s \<noteq> t" "set xs \<inter> set ys = {}"
  shows "is_list (list_push_front lk s (Slot_Link i)) t ys"
proof (rule is_list_frame [OF o(1)])
  fix x assume x: "x = t \<or> x \<in> Slot_Link ` set ys"
  have s: "sentinel s" and t: "sentinel t"
    using is_list_sentinel [OF l] is_list_sentinel [OF o(1)] .
  have "nxt lk s \<in> insert s (Slot_Link ` set xs)"
    using l by (cases xs) (auto simp: is_list_def)
  then have "x \<noteq> nxt lk s" "x \<noteq> s" "x \<noteq> Slot_Link i" using x o s t i by auto
  then show "nxt (list_push_front lk s (Slot_Link i)) x = nxt lk x \<and>
             prev (list_push_front lk s (Slot_Link i)) x = prev lk x"
    using s by (auto simp: list_push_front_def Let_def)
qed

lemma is_list_promote:
  assumes l: "is_list lk s xs" and i: "i \<in> set xs"
  shows "is_list (list_promote lk s (Slot_Link i)) s (i # remove1 i xs)"
proof (cases "nxt lk s = Slot_Link i")
  case True
  with l i obtain ys where "xs = i # ys"
    by (cases xs) (auto simp: is_list_def)
  with True l show ?thesis by (simp add: list_promote_def)
next
  case False
  from is_list_unlink [OF l i] is_list_distinct [OF l] False show ?thesis
    by (auto simp: list_promote_def intro!: is_list_push_front)
qed

lemma is_list_promote_other:
  assumes l: "is_list lk s xs" "i \<in> set xs"
    and o: "is_list lk t ys" "s \<noteq> t" "set xs \<inter> set ys = {}"
  shows "is_list (list_promote lk s (Slot_Link i)) t ys"
proof (cases "nxt lk s = Slot_Link i")
  case True
  with o show ?thesis by (simp add: list_promote_def)
next
  case False
  have "is_list (list_push_front (list_unlink lk (Slot_Link i)) s (Slot_Link i)) t ys"
    by (rule is_list_push_front_other [OF is_list_unlink [OF l] _ is_list_unlink_other [OF l o] o(2)])
      (use l o is_list_distinct [OF l(1)] in auto)
  with False show ?thesis by (simp add: list_promote_def)
qed

lemmas is_list_ops =
  is_list_unlink is_list_unlink_other is_list_push_front is_list_push_front_other
  is_list_promote is_list_promote_other

end
