(* ===== verification/Lru.thy ===== *)
theory Lru
  imports Lru_List
begin

text \<open>
  The refcount-pinning LRU cache of src/src/util/lru.c: a fixed array of slots, a robin-hood hash
  index of slot numbers, and two intrusive lists (recency order and free slots). The operations
  are the C functions with the state passed explicitly. \<open>ops.eq\<close> is the parameter \<open>eq\<close>;
  the calls of \<open>ops.destroy\<close> are recorded, in order, in the field \<open>lru_destroyed\<close>. Atomic loads and
  the compare-and-swap of the release are single steps, which the mutex that guards the other
  operations justifies. A loop whose end is not visible from its counter takes fuel and returns
  \<open>None\<close> when the fuel runs out; Lru\_Correct proves that it never does in a reachable state.
\<close>

section \<open>State\<close>

definition LRU_NIL :: nat where "LRU_NIL = UINT32_MAX"

record 'v lru_entry =
  e_hash :: nat
  e_value :: "'v option"
  e_refcount :: nat

record lru_index =
  ix_cells :: "nat list"
  ix_n_cells :: nat
  ix_mask :: nat
  ix_max_probe :: nat
  ix_max_probe_observed :: nat

record lru_counters =
  c_hits :: nat
  c_misses :: nat
  c_insertions :: nat
  c_evictions :: nat
  c_replacements :: nat
  c_put_failures :: nat

record 'v lru =
  lru_slots :: "'v lru_entry list"
  lru_capacity :: nat
  lru_size :: nat
  lru_index :: lru_index
  lru_links :: lru_list
  lru_counters :: lru_counters
  lru_destroyed :: "'v list"

record lru_stats =
  st_counters :: lru_counters
  st_size :: nat
  st_capacity :: nat
  st_pinned :: nat
  st_max_probe_observed :: nat

definition counters0 :: lru_counters where
  "counters0 = \<lparr>c_hits = 0, c_misses = 0, c_insertions = 0, c_evictions = 0, c_replacements = 0, c_put_failures = 0\<rparr>"

definition lru_call_destroy :: "'v lru \<Rightarrow> 'v option \<Rightarrow> 'v lru" where
  "lru_call_destroy self v =
     (case v of None \<Rightarrow> self | Some x \<Rightarrow> self\<lparr>lru_destroyed := lru_destroyed self @ [x]\<rparr>)"

section \<open>Small helpers\<close>

fun link_to_entry :: "lru_node \<Rightarrow> nat" where
  "link_to_entry (Slot_Link i) = i"
| "link_to_entry _ = LRU_NIL"

definition next_pow2_ge :: "nat \<Rightarrow> nat" where
  "next_pow2_ge v =
     (if v < 2 then 2
      else let v = v - 1;
               v = v OR drop_bit 1 v;
               v = v OR drop_bit 2 v;
               v = v OR drop_bit 4 v;
               v = v OR drop_bit 8 v;
               v = v OR drop_bit 16 v
           in u32_add v 1)"

definition ideal_cell :: "'v lru \<Rightarrow> nat \<Rightarrow> nat" where
  "ideal_cell self hash = (hash AND ix_mask (lru_index self)) mod 2 ^ 32"

definition probe_dist :: "'v lru \<Rightarrow> nat \<Rightarrow> nat \<Rightarrow> nat" where
  "probe_dist self cell_idx ideal = u32_sub cell_idx ideal AND ix_mask (lru_index self)"

definition next_cell :: "'v lru \<Rightarrow> nat \<Rightarrow> nat" where
  "next_cell self cell_idx = u32_add cell_idx 1 AND ix_mask (lru_index self)"

definition set_cell :: "'v lru \<Rightarrow> nat \<Rightarrow> nat \<Rightarrow> 'v lru" where
  "set_cell self c v = self\<lparr>lru_index := (lru_index self)\<lparr>ix_cells := (ix_cells (lru_index self))[c := v]\<rparr>\<rparr>"

definition observe_probe :: "'v lru \<Rightarrow> nat \<Rightarrow> 'v lru" where
  "observe_probe self probe =
     (if probe > ix_max_probe_observed (lru_index self)
      then self\<lparr>lru_index := (lru_index self)\<lparr>ix_max_probe_observed := probe\<rparr>\<rparr>
      else self)"

abbreviation cells_of :: "'v lru \<Rightarrow> nat list" where
  "cells_of self \<equiv> ix_cells (lru_index self)"

abbreviation slot_of :: "'v lru \<Rightarrow> nat \<Rightarrow> 'v lru_entry" where
  "slot_of self i \<equiv> lru_slots self ! i"

section \<open>Free list\<close>

definition freelist_pop :: "'v lru \<Rightarrow> 'v lru \<times> nat" where
  "freelist_pop self =
     (if list_empty (lru_links self) Free_List then (self, LRU_NIL)
      else let node = nxt (lru_links self) Free_List
           in (self\<lparr>lru_links := list_unlink (lru_links self) node\<rparr>, link_to_entry node))"

definition freelist_push :: "'v lru \<Rightarrow> nat \<Rightarrow> 'v lru" where
  "freelist_push self slot_idx =
     self\<lparr>lru_links := list_push_front (lru_links self) Free_List (Slot_Link slot_idx)\<rparr>"

definition slot_clear :: "'v lru \<Rightarrow> nat \<Rightarrow> 'v lru" where
  "slot_clear self slot_idx =
     self\<lparr>lru_slots := (lru_slots self)[slot_idx := \<lparr>e_hash = 0, e_value = None, e_refcount = 0\<rparr>]\<rparr>"

section \<open>Robin-hood index\<close>

fun index_insert_robin_loop :: "nat \<Rightarrow> 'v lru \<Rightarrow> nat \<Rightarrow> nat \<Rightarrow> nat \<Rightarrow> ('v lru \<times> nat) option" where
  "index_insert_robin_loop 0 self carry_slot cell_idx probe = None"
| "index_insert_robin_loop (Suc fuel) self carry_slot cell_idx probe =
     (if probe \<le> ix_max_probe (lru_index self) then
        let incumbent = cells_of self ! cell_idx in
        if incumbent = LRU_NIL then
          Some (observe_probe (set_cell self cell_idx carry_slot) probe, LRU_NIL)
        else if e_refcount (slot_of self incumbent) = 0 then
          let incumbent_ideal = ideal_cell self (e_hash (slot_of self incumbent));
              incumbent_probe = probe_dist self cell_idx incumbent_ideal
          in if probe > incumbent_probe then
               let self = observe_probe (set_cell self cell_idx carry_slot) probe
               in index_insert_robin_loop fuel self incumbent (next_cell self cell_idx) (incumbent_probe + 1)
             else index_insert_robin_loop fuel self carry_slot (next_cell self cell_idx) (probe + 1)
        else index_insert_robin_loop fuel self carry_slot (next_cell self cell_idx) (probe + 1)
      else Some (self, carry_slot))"

definition index_insert_robin :: "'v lru \<Rightarrow> nat \<Rightarrow> ('v lru \<times> nat) option" where
  "index_insert_robin self slot_to_insert =
     index_insert_robin_loop (Suc (ix_n_cells (lru_index self))) self slot_to_insert
       (ideal_cell self (e_hash (slot_of self slot_to_insert))) 0"

fun index_erase_loop :: "nat \<Rightarrow> 'v lru \<Rightarrow> nat \<Rightarrow> 'v lru option" where
  "index_erase_loop 0 self cell_idx = None"
| "index_erase_loop (Suc fuel) self cell_idx =
     (let nc = next_cell self cell_idx;
          next_slot = cells_of self ! nc
      in if next_slot = LRU_NIL then Some (set_cell self cell_idx LRU_NIL)
         else if e_refcount (slot_of self next_slot) > 0 then Some (set_cell self cell_idx LRU_NIL)
         else if probe_dist self nc (ideal_cell self (e_hash (slot_of self next_slot))) = 0
           then Some (set_cell self cell_idx LRU_NIL)
         else index_erase_loop fuel (set_cell self cell_idx (cells_of self ! nc)) nc)"

definition index_erase :: "'v lru \<Rightarrow> nat \<Rightarrow> 'v lru option" where
  "index_erase self cell_idx = index_erase_loop (Suc (ix_n_cells (lru_index self))) self cell_idx"

fun index_locate_loop :: "nat \<Rightarrow> 'v lru \<Rightarrow> nat \<Rightarrow> nat \<Rightarrow> nat" where
  "index_locate_loop 0 self slot_idx cell_idx = LRU_NIL"
| "index_locate_loop (Suc left) self slot_idx cell_idx =
     (if cells_of self ! cell_idx = slot_idx then cell_idx
      else index_locate_loop left self slot_idx (next_cell self cell_idx))"

definition index_locate :: "'v lru \<Rightarrow> nat \<Rightarrow> nat" where
  "index_locate self slot_idx =
     index_locate_loop (Suc (ix_max_probe (lru_index self))) self slot_idx
       (ideal_cell self (e_hash (slot_of self slot_idx)))"

definition entry_matches :: "('v \<Rightarrow> 'k \<Rightarrow> bool) \<Rightarrow> 'v lru_entry \<Rightarrow> nat \<Rightarrow> 'k \<Rightarrow> bool" where
  "entry_matches eq e hash probe_key \<longleftrightarrow>
     e_hash e = hash \<and> (case e_value e of None \<Rightarrow> False | Some v \<Rightarrow> eq v probe_key)"

fun index_lookup_loop :: "('v \<Rightarrow> 'k \<Rightarrow> bool) \<Rightarrow> nat \<Rightarrow> 'v lru \<Rightarrow> nat \<Rightarrow> 'k \<Rightarrow> nat \<Rightarrow> nat" where
  "index_lookup_loop eq 0 self hash probe_key cell_idx = LRU_NIL"
| "index_lookup_loop eq (Suc left) self hash probe_key cell_idx =
     (let slot_idx = cells_of self ! cell_idx
      in if slot_idx \<noteq> LRU_NIL \<and> entry_matches eq (slot_of self slot_idx) hash probe_key then cell_idx
         else index_lookup_loop eq left self hash probe_key (next_cell self cell_idx))"

definition index_lookup :: "('v \<Rightarrow> 'k \<Rightarrow> bool) \<Rightarrow> 'v lru \<Rightarrow> nat \<Rightarrow> 'k \<Rightarrow> nat" where
  "index_lookup eq self hash probe_key =
     index_lookup_loop eq (Suc (ix_max_probe (lru_index self))) self hash probe_key (ideal_cell self hash)"

section \<open>Eviction\<close>

definition evict_slot :: "'v lru \<Rightarrow> nat \<Rightarrow> 'v lru option" where
  "evict_slot self slot_idx =
     (let cell_idx = index_locate self slot_idx
      in case (if cell_idx \<noteq> LRU_NIL then index_erase self cell_idx else Some self) of
           None \<Rightarrow> None
         | Some self \<Rightarrow>
             let evicted_value = e_value (slot_of self slot_idx);
                 self = self\<lparr>lru_links := list_unlink (lru_links self) (Slot_Link slot_idx)\<rparr>;
                 self = slot_clear self slot_idx;
                 self = freelist_push self slot_idx;
                 self = self\<lparr>lru_size := lru_size self - 1\<rparr>;
                 self = self\<lparr>lru_counters := (lru_counters self)\<lparr>c_evictions := c_evictions (lru_counters self) + 1\<rparr>\<rparr>
             in Some (lru_call_destroy self evicted_value))"

fun evict_lru_tail_loop :: "nat \<Rightarrow> 'v lru \<Rightarrow> lru_node \<Rightarrow> ('v lru \<times> int) option" where
  "evict_lru_tail_loop 0 self node = None"
| "evict_lru_tail_loop (Suc fuel) self node =
     (if node = Lru_Order then Some (self, -1)
      else if e_refcount (slot_of self (link_to_entry node)) = 0 then
        (case evict_slot self (link_to_entry node) of
           None \<Rightarrow> None
         | Some self \<Rightarrow> Some (self, 0))
      else evict_lru_tail_loop fuel self (prev (lru_links self) node))"

definition evict_lru_tail :: "'v lru \<Rightarrow> ('v lru \<times> int) option" where
  "evict_lru_tail self =
     evict_lru_tail_loop (Suc (lru_capacity self)) self (prev (lru_links self) Lru_Order)"

section \<open>Public API\<close>

fun seed_freelist :: "nat \<Rightarrow> nat \<Rightarrow> lru_list \<Rightarrow> lru_list" where
  "seed_freelist 0 i lk = lk"
| "seed_freelist (Suc left) i lk =
     seed_freelist left (i + 1)
       (list_push_front (list_init lk (Slot_Link i)) Free_List (Slot_Link i))"

text \<open>\<open>alloc_ok\<close> is the outcome of the three allocations.\<close>

definition lru_create :: "bool \<Rightarrow> nat \<Rightarrow> nat \<Rightarrow> 'v lru option" where
  "lru_create alloc_ok capacity max_probe =
     (if capacity > 0 \<and> max_probe > 0 \<and> alloc_ok then
        let n_cells = next_pow2_ge (u32_mul 2 capacity);
            lk = \<lparr>prev = (\<lambda>n. n), nxt = (\<lambda>n. n)\<rparr>;
            lk = list_init (list_init lk Lru_Order) Free_List
        in Some \<lparr>lru_slots = replicate capacity \<lparr>e_hash = 0, e_value = None, e_refcount = 0\<rparr>,
                 lru_capacity = capacity, lru_size = 0,
                 lru_index = \<lparr>ix_cells = replicate n_cells LRU_NIL, ix_n_cells = n_cells,
                              ix_mask = u32_sub n_cells 1, ix_max_probe = max_probe,
                              ix_max_probe_observed = 0\<rparr>,
                 lru_links = seed_freelist capacity 0 lk,
                 lru_counters = counters0, lru_destroyed = []\<rparr>
      else None)"

fun nodes_from :: "(lru_node \<Rightarrow> lru_node) \<Rightarrow> nat \<Rightarrow> lru_node \<Rightarrow> lru_node \<Rightarrow> lru_node list option" where
  "nodes_from step 0 node stop = None"
| "nodes_from step (Suc fuel) node stop =
     (if node = stop then Some []
      else map_option (\<lambda>ns. node # ns) (nodes_from step fuel (step node) stop))"

definition lru_walk :: "'v lru \<Rightarrow> lru_node list option" where
  "lru_walk self =
     nodes_from (nxt (lru_links self)) (Suc (lru_capacity self)) (nxt (lru_links self) Lru_Order) Lru_Order"

definition count_pinned :: "'v lru \<Rightarrow> lru_node list \<Rightarrow> nat" where
  "count_pinned self ns = length (filter (\<lambda>n. e_refcount (slot_of self (link_to_entry n)) > 0) ns)"

text \<open>\<open>Inl ()\<close>: pins are outstanding and everything is leaked; \<open>Inr vs\<close>: the memory is freed and \<open>vs\<close>
  is the whole sequence of \<open>ops.destroy\<close> calls.\<close>

definition lru_destroy :: "'v lru \<Rightarrow> (unit + 'v list) option" where
  "lru_destroy self =
     (case lru_walk self of
        None \<Rightarrow> None
      | Some ns \<Rightarrow>
          if count_pinned self ns = 0
          then Some (Inr (lru_destroyed
                 (fold (\<lambda>n s. lru_call_destroy s (e_value (slot_of self (link_to_entry n)))) ns self)))
          else Some (Inl ()))"

definition lru_get :: "('v \<Rightarrow> 'k \<Rightarrow> bool) \<Rightarrow> 'v lru \<Rightarrow> nat \<Rightarrow> 'k \<Rightarrow> 'v lru \<times> nat option" where
  "lru_get eq self hash probe_key =
     (let cell_idx = index_lookup eq self hash probe_key
      in if cell_idx \<noteq> LRU_NIL then
           let slot_idx = cells_of self ! cell_idx;
               self = self\<lparr>lru_links := list_promote (lru_links self) Lru_Order (Slot_Link slot_idx)\<rparr>;
               self = self\<lparr>lru_counters := (lru_counters self)\<lparr>c_hits := c_hits (lru_counters self) + 1\<rparr>\<rparr>
           in (self, Some slot_idx)
         else (self\<lparr>lru_counters := (lru_counters self)\<lparr>c_misses := c_misses (lru_counters self) + 1\<rparr>\<rparr>, None))"

definition lru_peek :: "('v \<Rightarrow> 'k \<Rightarrow> bool) \<Rightarrow> 'v lru \<Rightarrow> nat \<Rightarrow> 'k \<Rightarrow> nat option" where
  "lru_peek eq self hash probe_key =
     (let cell_idx = index_lookup eq self hash probe_key
      in if cell_idx = LRU_NIL then None else Some (cells_of self ! cell_idx))"

definition put_failed :: "'v lru \<Rightarrow> 'v option \<Rightarrow> 'v lru" where
  "put_failed self v =
     lru_call_destroy
       (self\<lparr>lru_counters := (lru_counters self)\<lparr>c_put_failures := c_put_failures (lru_counters self) + 1\<rparr>\<rparr>) v"

text \<open>Step 2 of \<open>lru_put\<close>: a slot from the free list, evicting the LRU tail while the list is empty.\<close>

fun put_alloc_loop :: "nat \<Rightarrow> 'v lru \<Rightarrow> ('v lru \<times> nat option) option" where
  "put_alloc_loop 0 self = None"
| "put_alloc_loop (Suc fuel) self =
     (let (self, new_slot) = freelist_pop self
      in if new_slot \<noteq> LRU_NIL then Some (self, Some new_slot)
         else case evict_lru_tail self of
                None \<Rightarrow> None
              | Some (self, rc) \<Rightarrow> if rc \<noteq> 0 then Some (self, None) else put_alloc_loop fuel self)"

text \<open>Step 3 of \<open>lru_put\<close>: insert into the index, evicting and retrying when the probe cap is exceeded.\<close>

fun put_insert_loop :: "nat \<Rightarrow> 'v lru \<Rightarrow> nat \<Rightarrow> ('v lru \<times> bool) option" where
  "put_insert_loop 0 self new_slot = None"
| "put_insert_loop (Suc fuel) self new_slot =
     (case index_insert_robin self new_slot of
        None \<Rightarrow> None
      | Some (self, orphan_slot) \<Rightarrow>
          if orphan_slot = LRU_NIL then Some (self, True)
          else if orphan_slot = new_slot then
            (case evict_lru_tail self of
               None \<Rightarrow> None
             | Some (self, rc) \<Rightarrow>
                 if rc \<noteq> 0 then
                   let orphan_value = e_value (slot_of self new_slot);
                       self = slot_clear self new_slot;
                       self = freelist_push self new_slot
                   in Some (put_failed self orphan_value, False)
                 else put_insert_loop fuel self new_slot)
          else
            let orphan_value = e_value (slot_of self orphan_slot);
                self = self\<lparr>lru_links := list_unlink (lru_links self) (Slot_Link orphan_slot)\<rparr>;
                self = slot_clear self orphan_slot;
                self = freelist_push self orphan_slot;
                self = self\<lparr>lru_size := lru_size self - 1\<rparr>;
                self = self\<lparr>lru_counters := (lru_counters self)\<lparr>c_evictions := c_evictions (lru_counters self) + 1\<rparr>\<rparr>
            in Some (lru_call_destroy self orphan_value, True))"

text \<open>Outer \<open>None\<close>: the call does not return; inner \<open>None\<close>: it returns \<open>NULL\<close>.\<close>

definition lru_put :: "('v \<Rightarrow> 'k \<Rightarrow> bool) \<Rightarrow> 'v lru \<Rightarrow> nat \<Rightarrow> 'k \<Rightarrow> 'v option \<Rightarrow> ('v lru \<times> nat option) option" where
  "lru_put eq self hash probe_key value =
     (if value = None then Some (self, None)
      else
        let cell_idx = index_lookup eq self hash probe_key in
        if cell_idx \<noteq> LRU_NIL then
          let slot_idx = cells_of self ! cell_idx in
          if e_refcount (slot_of self slot_idx) > 0 then Some (put_failed self value, None)
          else
            let old_value = e_value (slot_of self slot_idx);
                self = self\<lparr>lru_slots := (lru_slots self)[slot_idx := (slot_of self slot_idx)\<lparr>e_value := value\<rparr>]\<rparr>;
                self = self\<lparr>lru_links := list_promote (lru_links self) Lru_Order (Slot_Link slot_idx)\<rparr>;
                self = self\<lparr>lru_counters := (lru_counters self)\<lparr>c_replacements := c_replacements (lru_counters self) + 1\<rparr>\<rparr>
            in Some (lru_call_destroy self old_value, Some slot_idx)
        else
          case put_alloc_loop (Suc (Suc (lru_capacity self))) self of
            None \<Rightarrow> None
          | Some (self, None) \<Rightarrow> Some (put_failed self value, None)
          | Some (self, Some new_slot) \<Rightarrow>
              let self = self\<lparr>lru_slots := (lru_slots self)[new_slot := \<lparr>e_hash = hash, e_value = value, e_refcount = 0\<rparr>]\<rparr>
              in case put_insert_loop (Suc (lru_capacity self)) self new_slot of
                   None \<Rightarrow> None
                 | Some (self, False) \<Rightarrow> Some (self, None)
                 | Some (self, True) \<Rightarrow>
                     let self = self\<lparr>lru_links := list_push_front (lru_links self) Lru_Order (Slot_Link new_slot)\<rparr>;
                         self = self\<lparr>lru_size := lru_size self + 1\<rparr>;
                         self = self\<lparr>lru_counters := (lru_counters self)\<lparr>c_insertions := c_insertions (lru_counters self) + 1\<rparr>\<rparr>
                     in Some (self, Some new_slot))"

definition lru_entry_value :: "'v lru \<Rightarrow> nat option \<Rightarrow> 'v option" where
  "lru_entry_value self entry = (case entry of None \<Rightarrow> None | Some i \<Rightarrow> e_value (slot_of self i))"

definition lru_entry_acquire_locked :: "'v lru \<Rightarrow> nat option \<Rightarrow> 'v lru" where
  "lru_entry_acquire_locked self entry =
     (case entry of None \<Rightarrow> self
      | Some i \<Rightarrow> self\<lparr>lru_slots := (lru_slots self)
                    [i := (slot_of self i)\<lparr>e_refcount := u32_add (e_refcount (slot_of self i)) 1\<rparr>]\<rparr>)"

definition lru_entry_release :: "'v lru \<Rightarrow> nat option \<Rightarrow> 'v lru" where
  "lru_entry_release self entry =
     (case entry of None \<Rightarrow> self
      | Some i \<Rightarrow>
          let cur = e_refcount (slot_of self i)
          in if cur = 0 then self
             else self\<lparr>lru_slots := (lru_slots self)[i := (slot_of self i)\<lparr>e_refcount := cur - 1\<rparr>]\<rparr>)"

definition lru_stats_get :: "'v lru \<Rightarrow> lru_stats option" where
  "lru_stats_get self =
     (case lru_walk self of
        None \<Rightarrow> None
      | Some ns \<Rightarrow>
          Some \<lparr>st_counters = lru_counters self, st_size = lru_size self, st_capacity = lru_capacity self,
                st_pinned = count_pinned self ns,
                st_max_probe_observed = ix_max_probe_observed (lru_index self)\<rparr>)"

end
