(* ===== verification/Lru_Index.thy ===== *)
theory Lru_Index
  imports Lru
begin

text \<open>
  The robin-hood index of src/src/util/lru.c as a data structure of its own: \<open>index_ok s L\<close> says that
  the cells hold exactly the slots of \<open>L\<close>, each once, and each within \<open>max_probe\<close> cells of the
  cell its hash selects. The lemmas show that the lookup loops are complete under this invariant
  although they do not stop at empty cells, that insertion returns with every slot indexed but at most
  one unpinned orphan, that backshift deletion removes exactly its victim, and that neither moves
  a pinned entry.
\<close>

section \<open>Geometry\<close>

definition geom :: "'v lru \<Rightarrow> bool" where
  "geom s \<longleftrightarrow>
     (\<exists>k\<le>31. ix_n_cells (lru_index s) = 2 ^ k \<and> ix_mask (lru_index s) = 2 ^ k - 1) \<and>
     length (cells_of s) = ix_n_cells (lru_index s) \<and>
     0 < lru_capacity s \<and> 2 * lru_capacity s \<le> ix_n_cells (lru_index s) \<and>
     length (lru_slots s) = lru_capacity s"

abbreviation ncells :: "'v lru \<Rightarrow> nat" where
  "ncells s \<equiv> ix_n_cells (lru_index s)"

abbreviation home :: "'v lru \<Rightarrow> nat \<Rightarrow> nat" where
  "home s i \<equiv> ideal_cell s (e_hash (slot_of s i))"

lemma geom_bounds:
  assumes "geom s"
  shows "0 < ncells s" and "ncells s < LRU_NIL" and "lru_capacity s < LRU_NIL"
proof -
  from assms obtain k where k: "k \<le> 31" "ncells s = 2 ^ k" by (auto simp: geom_def)
  have "(2 :: nat) ^ k \<le> 2 ^ 31" using k(1) by (rule power_increasing) simp
  then show "ncells s < LRU_NIL" using k by (simp add: LRU_NIL_def)
  show "0 < ncells s" using k by simp
  show "lru_capacity s < LRU_NIL"
    using assms \<open>(2 :: nat) ^ k \<le> 2 ^ 31\<close> k by (simp add: geom_def LRU_NIL_def)
qed

lemma geom_cells: "geom s \<Longrightarrow> length (cells_of s) = ncells s"
  by (simp add: geom_def)

lemma geom_next_cell: "geom s \<Longrightarrow> c < ncells s \<Longrightarrow> next_cell s c = Suc c mod ncells s"
  unfolding geom_def next_cell_def using u32_incr_and_mask by auto

lemma geom_probe_dist:
  "geom s \<Longrightarrow> c < ncells s \<Longrightarrow> i < ncells s \<Longrightarrow> probe_dist s c i = cdist (ncells s) i c"
  unfolding geom_def probe_dist_def using u32_sub_and_mask by auto

lemma geom_ideal_cell: "geom s \<Longrightarrow> ideal_cell s h = h mod ncells s"
proof -
  assume g: "geom s"
  then obtain k where k: "k \<le> 31" "ncells s = 2 ^ k" "ix_mask (lru_index s) = 2 ^ k - 1"
    by (auto simp: geom_def)
  have le: "(2 :: nat) ^ k \<le> 2 ^ 31" using k(1) by (rule power_increasing) simp
  have "h mod 2 ^ k < 2 ^ k" by simp
  from this le have "h mod 2 ^ k < 2 ^ 31" by (rule less_le_trans)
  then have "h mod 2 ^ k < 2 ^ 32" by simp
  then show ?thesis unfolding ideal_cell_def k(2,3) and_mask_mod by simp
qed

lemma geom_ideal_less: "geom s \<Longrightarrow> ideal_cell s h < ncells s"
  by (simp add: geom_ideal_cell geom_bounds)

lemmas geom_simps = geom_next_cell geom_probe_dist geom_ideal_less geom_cells

section \<open>States that differ in the index only\<close>

definition same_rest :: "'v lru \<Rightarrow> 'v lru \<Rightarrow> bool" where
  "same_rest s t \<longleftrightarrow>
     lru_slots t = lru_slots s \<and> lru_capacity t = lru_capacity s \<and> lru_size t = lru_size s \<and>
     lru_links t = lru_links s \<and> lru_counters t = lru_counters s \<and> lru_destroyed t = lru_destroyed s \<and>
     ncells t = ncells s \<and> ix_mask (lru_index t) = ix_mask (lru_index s) \<and>
     ix_max_probe (lru_index t) = ix_max_probe (lru_index s) \<and> length (cells_of t) = length (cells_of s)"

lemma same_rest_refl [simp, intro]: "same_rest s s"
  by (simp add: same_rest_def)

lemma same_rest_trans: "same_rest s t \<Longrightarrow> same_rest t u \<Longrightarrow> same_rest s u"
  by (simp add: same_rest_def)

lemma same_rest_set_cell [simp, intro]: "same_rest s (set_cell s c v)"
  by (simp add: same_rest_def set_cell_def)

lemma same_rest_observe [simp, intro]: "same_rest s (observe_probe s p)"
  by (simp add: same_rest_def observe_probe_def)

lemma same_rest_geom: "same_rest s t \<Longrightarrow> geom t = geom s"
  unfolding same_rest_def geom_def by simp

lemma same_rest_ideal: "same_rest s t \<Longrightarrow> ideal_cell t h = ideal_cell s h"
  unfolding same_rest_def ideal_cell_def by simp

lemma set_cell_cells [simp]: "cells_of (set_cell s c v) = (cells_of s)[c := v]"
  by (simp add: set_cell_def)

lemma observe_cells [simp]: "cells_of (observe_probe s p) = cells_of s"
  by (simp add: observe_probe_def)

section \<open>The index invariant\<close>

definition index_ok :: "'v lru \<Rightarrow> nat set \<Rightarrow> bool" where
  "index_ok s L \<longleftrightarrow>
     (\<forall>i\<in>L. \<exists>c<ncells s. cells_of s ! c = i) \<and>
     (\<forall>c<ncells s. cells_of s ! c \<noteq> LRU_NIL \<longrightarrow>
        cells_of s ! c \<in> L \<and>
        cdist (ncells s) (home s (cells_of s ! c)) c \<le> ix_max_probe (lru_index s) \<and>
        (\<forall>d<ncells s. cells_of s ! d = cells_of s ! c \<longrightarrow> d = c))"

text \<open>The same with one cell excepted: the hole that backshift deletion carries along.\<close>

definition index_ok_hole :: "'v lru \<Rightarrow> nat set \<Rightarrow> nat \<Rightarrow> bool" where
  "index_ok_hole s L h \<longleftrightarrow>
     (\<forall>i\<in>L. \<exists>c<ncells s. c \<noteq> h \<and> cells_of s ! c = i) \<and>
     (\<forall>c<ncells s. c \<noteq> h \<and> cells_of s ! c \<noteq> LRU_NIL \<longrightarrow>
        cells_of s ! c \<in> L \<and>
        cdist (ncells s) (home s (cells_of s ! c)) c \<le> ix_max_probe (lru_index s) \<and>
        (\<forall>d<ncells s. d \<noteq> h \<and> cells_of s ! d = cells_of s ! c \<longrightarrow> d = c))"

lemma index_okD:
  assumes "index_ok s L" and "c < ncells s" and "cells_of s ! c \<noteq> LRU_NIL"
  shows "cells_of s ! c \<in> L"
    and "cdist (ncells s) (home s (cells_of s ! c)) c \<le> ix_max_probe (lru_index s)"
    and "d < ncells s \<Longrightarrow> cells_of s ! d = cells_of s ! c \<Longrightarrow> d = c"
  using assms unfolding index_ok_def by blast+

lemma index_ok_observe [simp]: "index_ok (observe_probe s p) L = index_ok s L"
  by (simp add: index_ok_def observe_probe_def ideal_cell_def)

lemma home_set_cell [simp]: "home (set_cell s c v) i = home s i"
  by (simp add: set_cell_def ideal_cell_def)

lemma ncells_set_cell [simp]: "ncells (set_cell s c v) = ncells s"
  by (simp add: set_cell_def)

lemma max_probe_set_cell [simp]: "ix_max_probe (lru_index (set_cell s c v)) = ix_max_probe (lru_index s)"
  by (simp add: set_cell_def)

lemma slot_of_set_cell [simp]: "lru_slots (set_cell s c v) = lru_slots s"
  by (simp add: set_cell_def)

text \<open>An index of fewer slots than cells has an empty cell, ahead of any starting point.\<close>

lemma index_ok_empty_cell:
  assumes g: "geom s" and ok: "index_ok s L" and L: "L \<subseteq> {..<lru_capacity s}"
    and c: "c < ncells s"
  obtains e where "e < ncells s" and "cells_of s ! ((c + e) mod ncells s) = LRU_NIL"
proof -
  have "\<exists>d<ncells s. cells_of s ! d = LRU_NIL"
  proof (rule ccontr)
    assume "\<not> ?thesis"
    then have all: "\<forall>d<ncells s. cells_of s ! d \<noteq> LRU_NIL" by auto
    then have "inj_on (\<lambda>d. cells_of s ! d) {..<ncells s}"
      by (intro inj_onI) (metis index_okD(3) [OF ok] lessThan_iff)
    moreover have "(\<lambda>d. cells_of s ! d) ` {..<ncells s} \<subseteq> {..<lru_capacity s}"
      using all index_okD(1) [OF ok] L by blast
    ultimately have "ncells s \<le> lru_capacity s"
      using card_inj_on_le [of "\<lambda>d. cells_of s ! d" "{..<ncells s}" "{..<lru_capacity s}"] by simp
    with g show False by (simp add: geom_def)
  qed
  then obtain d where d: "d < ncells s" "cells_of s ! d = LRU_NIL" by auto
  show thesis
  proof (rule that)
    show "cdist (ncells s) c d < ncells s" using g by (intro cdist_less geom_bounds)
    show "cells_of s ! ((c + cdist (ncells s) c d) mod ncells s) = LRU_NIL"
      using d c by (simp add: add_cdist)
  qed
qed

section \<open>Lookup loops\<close>

lemma next_cell_add:
  "geom s \<Longrightarrow> c < ncells s \<Longrightarrow> (next_cell s c + u) mod ncells s = (c + Suc u) mod ncells s"
  by (simp add: geom_next_cell mod_add_left_eq)

lemma next_cell_less: "geom s \<Longrightarrow> c < ncells s \<Longrightarrow> next_cell s c < ncells s"
  by (simp add: geom_next_cell geom_bounds)

lemma index_lookup_loop_result:
  assumes "geom s" and "c < ncells s" and "index_lookup_loop eq left s h k c = d" and "d \<noteq> LRU_NIL"
  shows "d < ncells s \<and> cells_of s ! d \<noteq> LRU_NIL \<and> entry_matches eq (slot_of s (cells_of s ! d)) h k"
  using assms
proof (induction left arbitrary: c)
  case (Suc left)
  show ?case
  proof (cases "cells_of s ! c \<noteq> LRU_NIL \<and> entry_matches eq (slot_of s (cells_of s ! c)) h k")
    case True
    with Suc.prems show ?thesis by (auto simp: Let_def)
  next
    case False
    with Suc.prems have "index_lookup_loop eq left s h k (next_cell s c) = d" by (auto simp: Let_def)
    with Suc.IH [of "next_cell s c"] Suc.prems show ?thesis by (simp add: next_cell_less)
  qed
qed simp

lemma index_lookup_loop_miss:
  assumes "geom s" and "c < ncells s" and "index_lookup_loop eq left s h k c = LRU_NIL" and "u < left"
    and "cells_of s ! ((c + u) mod ncells s) \<noteq> LRU_NIL"
  shows "\<not> entry_matches eq (slot_of s (cells_of s ! ((c + u) mod ncells s))) h k"
  using assms
proof (induction left arbitrary: c u)
  case (Suc left)
  let ?hit = "cells_of s ! c \<noteq> LRU_NIL \<and> entry_matches eq (slot_of s (cells_of s ! c)) h k"
  have "\<not> ?hit" using Suc.prems geom_bounds(2) [OF Suc.prems(1)] by (auto simp: Let_def split: if_splits)
  with Suc.prems have rest: "index_lookup_loop eq left s h k (next_cell s c) = LRU_NIL"
    by (auto simp: Let_def)
  show ?case
  proof (cases u)
    case 0
    with \<open>\<not> ?hit\<close> Suc.prems show ?thesis by auto
  next
    case (Suc v)
    with Suc.IH [OF Suc.prems(1) next_cell_less rest, of v] Suc.prems show ?thesis
      by (simp add: next_cell_add)
  qed
qed simp

lemma index_lookup_hit:
  assumes "geom s" and "index_ok s L" and "index_lookup eq s h k \<noteq> LRU_NIL"
  shows "index_lookup eq s h k < ncells s"
    and "cells_of s ! index_lookup eq s h k \<in> L"
    and "entry_matches eq (slot_of s (cells_of s ! index_lookup eq s h k)) h k"
proof -
  note r = index_lookup_loop_result [OF assms(1) geom_ideal_less [OF assms(1)]
      index_lookup_def [symmetric] assms(3)]
  then show "index_lookup eq s h k < ncells s"
    and "entry_matches eq (slot_of s (cells_of s ! index_lookup eq s h k)) h k" by auto
  from r show "cells_of s ! index_lookup eq s h k \<in> L"
    using index_okD(1) [OF assms(2)] by simp
qed

text \<open>Completeness: the probe bound of the invariant makes every indexed entry reachable from its home cell.\<close>

lemma index_lookup_miss:
  assumes g: "geom s" and ok: "index_ok s L" and miss: "index_lookup eq s h k = LRU_NIL"
    and i: "i \<in> L" "i \<noteq> LRU_NIL"
  shows "\<not> entry_matches eq (slot_of s i) h k"
proof
  assume m: "entry_matches eq (slot_of s i) h k"
  from ok i obtain c where c: "c < ncells s" "cells_of s ! c = i" by (auto simp: index_ok_def)
  have hm: "home s i = ideal_cell s h" using m by (simp add: entry_matches_def)
  let ?u = "cdist (ncells s) (ideal_cell s h) c"
  have u: "?u < Suc (ix_max_probe (lru_index s))"
    using index_okD(2) [OF ok c(1)] c(2) i(2) hm by simp
  have at: "(ideal_cell s h + ?u) mod ncells s = c"
    using geom_ideal_less [OF g] c(1) by (rule add_cdist)
  from index_lookup_loop_miss [OF g geom_ideal_less [OF g] miss [unfolded index_lookup_def] u] at c i m
  show False by simp
qed

lemma index_locate_loop_finds:
  assumes g: "geom s" and "c < ncells s" and "u < left"
    and "cells_of s ! ((c + u) mod ncells s) = i"
  shows "index_locate_loop left s i c < ncells s \<and> cells_of s ! index_locate_loop left s i c = i"
  using assms(2-)
proof (induction left arbitrary: c u)
  case (Suc left)
  show ?case
  proof (cases "cells_of s ! c = i")
    case True
    with Suc.prems show ?thesis by simp
  next
    case False
    with Suc.prems obtain v where v: "u = Suc v" by (cases u) auto
    with Suc.IH [OF next_cell_less [OF g], of c v] Suc.prems False g show ?thesis
      by (simp add: next_cell_add)
  qed
qed simp

lemma index_locate_finds:
  assumes g: "geom s" and ok: "index_ok s L" and i: "i \<in> L" "i \<noteq> LRU_NIL"
  shows "index_locate s i < ncells s" and "cells_of s ! index_locate s i = i"
proof -
  from ok i obtain c where c: "c < ncells s" "cells_of s ! c = i" by (auto simp: index_ok_def)
  let ?u = "cdist (ncells s) (home s i) c"
  have "?u < Suc (ix_max_probe (lru_index s))"
    using index_okD(2) [OF ok c(1)] c(2) i(2) by simp
  moreover have "cells_of s ! ((home s i + ?u) mod ncells s) = i"
    using c geom_ideal_less [OF g] by (simp add: add_cdist)
  ultimately have "index_locate s i < ncells s \<and> cells_of s ! index_locate s i = i"
    unfolding index_locate_def using g by (intro index_locate_loop_finds) (auto simp: geom_ideal_less)
  then show "index_locate s i < ncells s" and "cells_of s ! index_locate s i = i" by auto
qed

section \<open>Robin-hood insertion\<close>

definition pinned_kept :: "'v lru \<Rightarrow> 'v lru \<Rightarrow> bool" where
  "pinned_kept s t \<longleftrightarrow>
     (\<forall>c<ncells s. cells_of s ! c \<noteq> LRU_NIL \<and> e_refcount (slot_of s (cells_of s ! c)) > 0 \<longrightarrow>
        cells_of t ! c = cells_of s ! c)"

lemma pinned_kept_refl [simp, intro]: "pinned_kept s s"
  by (simp add: pinned_kept_def)

lemma pinned_kept_trans:
  "pinned_kept s t \<Longrightarrow> pinned_kept t u \<Longrightarrow> same_rest s t \<Longrightarrow> pinned_kept s u"
  unfolding pinned_kept_def same_rest_def by simp

lemma pinned_kept_set_cell:
  assumes "geom s" and "c < ncells s"
    and "cells_of s ! c = LRU_NIL \<or> e_refcount (slot_of s (cells_of s ! c)) = 0"
  shows "pinned_kept s (observe_probe (set_cell s c x) p)" and "pinned_kept s (set_cell s c x)"
  using assms by (auto simp: pinned_kept_def nth_list_update geom_cells)

text \<open>Writing a new slot into a cell replaces whatever the cell held.\<close>

lemma index_ok_set_cell:
  assumes g: "geom s" and ok: "index_ok s L" and c: "c < ncells s"
    and x: "x \<notin> L" "x \<noteq> LRU_NIL" "cdist (ncells s) (home s x) c \<le> ix_max_probe (lru_index s)"
  shows "index_ok (set_cell s c x) (insert x (L - {cells_of s ! c}))"
  unfolding index_ok_def
proof (intro conjI ballI allI impI)
  let ?t = "set_cell s c x"
  have at: "cells_of ?t ! d = (if d = c then x else cells_of s ! d)" if "d < ncells s" for d
    using g that by (simp add: geom_cells nth_list_update)
  fix i assume "i \<in> insert x (L - {cells_of s ! c})"
  then show "\<exists>d<ncells ?t. cells_of ?t ! d = i"
    using ok c at unfolding index_ok_def by (metis Diff_iff insert_iff ncells_set_cell)
next
  let ?t = "set_cell s c x"
  have at: "cells_of ?t ! d = (if d = c then x else cells_of s ! d)" if "d < ncells s" for d
    using g that by (simp add: geom_cells nth_list_update)
  fix d assume d: "d < ncells ?t" "cells_of ?t ! d \<noteq> LRU_NIL"
  have other: "cells_of s ! d \<in> L \<and> cells_of s ! d \<noteq> cells_of s ! c \<and> cells_of s ! d \<noteq> LRU_NIL" if "d \<noteq> c"
    using that d at index_okD(1) [OF ok, of d] index_okD(3) [OF ok, of d c] c by auto
  show "cells_of ?t ! d \<in> insert x (L - {cells_of s ! c})"
    using other d at by (cases "d = c") auto
  show "cdist (ncells ?t) (home ?t (cells_of ?t ! d)) d \<le> ix_max_probe (lru_index ?t)"
    using other d at x(3) index_okD(2) [OF ok, of d] unfolding home_set_cell by (cases "d = c") auto
  fix d' assume d': "d' < ncells ?t" "cells_of ?t ! d' = cells_of ?t ! d"
  show "d' = d"
    using other d d' at x index_okD(1) [OF ok, of d'] index_okD(3) [OF ok, of d d']
    by (cases "d = c"; cases "d' = c") auto
qed

definition ahead :: "'v lru \<Rightarrow> nat \<Rightarrow> nat \<Rightarrow> nat set" where
  "ahead s c e = (\<lambda>u. cells_of s ! ((c + u) mod ncells s)) ` {..<e}"

lemma aheadI: "u < e \<Longrightarrow> cells_of s ! ((c + u) mod ncells s) \<in> ahead s c e"
  by (simp add: ahead_def)

lemma ahead_Suc:
  "geom s \<Longrightarrow> c < ncells s \<Longrightarrow> ahead s (next_cell s c) e \<subseteq> ahead s c (Suc e)"
  using aheadI [of "Suc _" "Suc e" s c] unfolding ahead_def [of s "next_cell s c"]
  by (auto simp: next_cell_add)

lemma ahead_set_cell:
  assumes "geom s" and "c < ncells s" and "e < ncells s"
  shows "ahead (observe_probe (set_cell s c x) p) (next_cell s c) e \<subseteq> ahead s c (Suc e)"
proof
  fix y assume "y \<in> ahead (observe_probe (set_cell s c x) p) (next_cell s c) e"
  then obtain u where u: "u < e" and y: "y = (cells_of s)[c := x] ! ((c + Suc u) mod ncells s)"
    unfolding ahead_def using assms by (auto simp: observe_probe_def next_cell_add)
  have "(c + Suc u) mod ncells s \<noteq> c"
    using ring_add_inj [of "Suc u" "ncells s" 0 c] u assms by auto
  with y have "y = cells_of s ! ((c + Suc u) mod ncells s)" by simp
  with aheadI [of "Suc u" "Suc e" s c] u show "y \<in> ahead s c (Suc e)" by simp
qed

definition robin_result :: "'v lru \<Rightarrow> nat set \<Rightarrow> nat \<Rightarrow> nat set \<Rightarrow> 'v lru \<Rightarrow> nat \<Rightarrow> bool" where
  "robin_result s L carry A t r \<longleftrightarrow>
     same_rest s t \<and> pinned_kept s t \<and>
     (r = LRU_NIL \<and> index_ok t (insert carry L) \<or>
      r = carry \<and> t = s \<or>
      r \<in> L \<and> r \<in> A \<and> e_refcount (slot_of s r) = 0 \<and> index_ok t (insert carry L - {r}))"

lemma index_ok_same_rest:
  "same_rest s t \<Longrightarrow> cells_of t = cells_of s \<Longrightarrow> index_ok t L = index_ok s L"
  unfolding index_ok_def same_rest_def ideal_cell_def by simp

text \<open>Handing the carry over to an incumbent: the result for the incumbent is one for the original carry.\<close>

lemma robin_result_swap:
  assumes g: "geom s" and ok: "index_ok s L" and c: "c < ncells s"
    and carry: "carry \<notin> L" "carry \<noteq> LRU_NIL" "LRU_NIL \<notin> L"
    and inc: "cells_of s ! c \<noteq> LRU_NIL" "e_refcount (slot_of s (cells_of s ! c)) = 0"
    and res: "robin_result (observe_probe (set_cell s c carry) p) (insert carry (L - {cells_of s ! c}))
                (cells_of s ! c) (ahead (observe_probe (set_cell s c carry) p) (next_cell s c) e) t r"
    and put: "index_ok (observe_probe (set_cell s c carry) p) (insert carry (L - {cells_of s ! c}))"
    and e: "Suc e < ncells s"
  shows "robin_result s L carry (ahead s c (Suc e)) t r"
proof -
  let ?s = "observe_probe (set_cell s c carry) p" and ?inc = "cells_of s ! c"
  have same: "same_rest s ?s" by (blast intro: same_rest_trans)
  have incL: "?inc \<in> L" using index_okD(1) [OF ok c inc(1)] .
  have A: "ahead ?s (next_cell s c) e \<subseteq> ahead s c (Suc e)"
    using ahead_set_cell [OF g c, of e] e by simp
  have kept: "pinned_kept s t"
    using pinned_kept_trans [OF pinned_kept_set_cell(1) [OF g c] _ same] inc res
    by (simp add: robin_result_def)
  have sr: "same_rest s t" using res same by (auto simp: robin_result_def intro: same_rest_trans)
  have rc: "e_refcount (slot_of ?s i) = e_refcount (slot_of s i)" for i
    using same by (simp add: same_rest_def)
  have inA: "?inc \<in> ahead s c (Suc e)" using aheadI [of 0 "Suc e" s c] c by simp
  have "\<forall>u<Suc e. cells_of s ! ((c + u) mod ncells s) \<in> L \<or> cells_of s ! ((c + u) mod ncells s) = LRU_NIL"
    using index_okD(1) [OF ok] geom_bounds(1) [OF g] by force
  then have notA: "carry \<notin> ahead s c (Suc e)" using carry unfolding ahead_def by auto
  show ?thesis
    using res sr kept rc incL inA notA A inc put unfolding robin_result_def
    by (auto simp: insert_absorb insert_Diff_if insert_commute)
qed

lemma robin_loop:
  assumes "geom s" and "index_ok s L" and "L \<subseteq> {..<lru_capacity s}"
    and "carry \<notin> L" and "carry < lru_capacity s" and "c < ncells s"
    and "cdist (ncells s) (home s carry) c \<le> probe"
    and "e < ncells s" and "cells_of s ! ((c + e) mod ncells s) = LRU_NIL" and "e < fuel"
  shows "\<exists>t r. index_insert_robin_loop fuel s carry c probe = Some (t, r) \<and>
               robin_result s L carry (ahead s c e) t r"
  using assms
proof (induction fuel arbitrary: s L carry c probe e)
  case (Suc fuel)
  note g = Suc.prems(1) and ok = Suc.prems(2)
  have nil: "carry \<noteq> LRU_NIL" "LRU_NIL \<notin> L"
    using Suc.prems geom_bounds(3) [OF g] by auto
  let ?inc = "cells_of s ! c"
  show ?case
  proof (cases "probe \<le> ix_max_probe (lru_index s)")
    case False
    then show ?thesis by (auto simp: robin_result_def)
  next
    case True
    note pm = this
    have put: "index_ok (observe_probe (set_cell s c carry) probe) (insert carry (L - {?inc}))"
      using index_ok_set_cell [OF g ok Suc.prems(6,4) nil(1)] Suc.prems(7) pm by simp
    show ?thesis
    proof (cases "?inc = LRU_NIL")
      case True
      with pm put nil pinned_kept_set_cell [OF g Suc.prems(6)] show ?thesis
        by (auto simp: robin_result_def intro: same_rest_trans)
    next
      case inc: False
      then obtain e' where e': "e = Suc e'" using Suc.prems by (cases e) auto
      have step: "\<exists>t r. index_insert_robin_loop fuel s carry (next_cell s c) (probe + 1) = Some (t, r) \<and>
                 robin_result s L carry (ahead s (next_cell s c) e') t r"
      proof (rule Suc.IH)
        show "cdist (ncells s) (home s carry) (next_cell s c) \<le> probe + 1"
          using cdist_step_le [OF geom_ideal_less [OF g] Suc.prems(6), of "e_hash (slot_of s carry)"]
            Suc.prems(7) by (simp add: geom_next_cell [OF g Suc.prems(6)])
      qed (use Suc.prems e' in \<open>auto simp: next_cell_add next_cell_less\<close>)
      have weaken: "robin_result s L carry (ahead s (next_cell s c) e') t r \<Longrightarrow>
          robin_result s L carry (ahead s c e) t r" for t r
        using ahead_Suc [OF g Suc.prems(6), of e'] e' unfolding robin_result_def by blast
      let ?ip = "probe_dist s c (home s ?inc)"
      show ?thesis
      proof (cases "e_refcount (slot_of s ?inc) = 0 \<and> probe > ?ip")
        case False
        with step weaken pm inc show ?thesis by (auto simp: Let_def)
      next
        case True
        let ?s = "observe_probe (set_cell s c carry) probe"
        let ?L = "insert carry (L - {?inc})"
        have same: "same_rest s ?s" by (blast intro: same_rest_trans)
        have nc: "next_cell ?s c = next_cell s c" "ncells ?s = ncells s"
          using same by (auto simp: next_cell_def same_rest_def)
        have incL: "?inc \<in> L" using index_okD(1) [OF ok Suc.prems(6) inc] .
        have "\<exists>t r. index_insert_robin_loop fuel ?s ?inc (next_cell s c) (?ip + 1) = Some (t, r) \<and>
                 robin_result ?s ?L ?inc (ahead ?s (next_cell s c) e') t r"
        proof (rule Suc.IH [OF _ put])
          show "geom ?s" using g same_rest_geom [OF same] by simp
          have "home ?s ?inc = home s ?inc"
            using same_rest_ideal [OF same] same by (simp add: same_rest_def)
          then show "cdist (ncells ?s) (home ?s ?inc) (next_cell s c) \<le> ?ip + 1"
            using cdist_step_le [OF geom_ideal_less [OF g] Suc.prems(6)] g Suc.prems(6)
            by (simp add: nc geom_simps)
          have "(c + Suc e') mod ncells s \<noteq> c"
            using ring_add_inj [of "Suc e'" "ncells s" 0 c] Suc.prems e' by auto
          then show "cells_of ?s ! ((next_cell s c + e') mod ncells ?s) = LRU_NIL"
            using Suc.prems e' g by (simp add: nc next_cell_add nth_list_update)
        qed (use Suc.prems e' incL same in \<open>auto simp: nc next_cell_less same_rest_def\<close>)
        then obtain t r where run: "index_insert_robin_loop fuel ?s ?inc (next_cell s c) (?ip + 1) = Some (t, r)"
          and res: "robin_result ?s ?L ?inc (ahead ?s (next_cell s c) e') t r" by blast
        have lhs: "index_insert_robin_loop (Suc fuel) s carry c probe = Some (t, r)"
          using run pm inc True nc by (simp add: Let_def)
        have "robin_result s L carry (ahead s c e) t r"
          using robin_result_swap [OF g ok Suc.prems(6,4) nil inc _ res put] True Suc.prems(8) e' by simp
        with lhs show ?thesis by blast
      qed
    qed
  qed
qed simp

lemma index_insert_robin_result:
  assumes g: "geom s" and ok: "index_ok s L" and L: "L \<subseteq> {..<lru_capacity s}"
    and x: "x \<notin> L" "x < lru_capacity s"
  obtains t r A where "index_insert_robin s x = Some (t, r)" and "robin_result s L x A t r"
proof -
  obtain e where e: "e < ncells s" "cells_of s ! ((home s x + e) mod ncells s) = LRU_NIL"
    using index_ok_empty_cell [OF g ok L geom_ideal_less [OF g]] by blast
  from robin_loop [OF g ok L x geom_ideal_less [OF g] _ e, of 0 "Suc (ncells s)"] e g that
  show thesis by (auto simp: index_insert_robin_def geom_ideal_less)
qed

section \<open>Backshift deletion\<close>

lemma index_ok_hole_start:
  assumes "index_ok s L" and "c < ncells s" and "cells_of s ! c = x" and "x \<noteq> LRU_NIL"
  shows "index_ok_hole s (L - {x}) c"
  using assms unfolding index_ok_def index_ok_hole_def by (metis Diff_iff insert_iff empty_iff)

lemma index_ok_hole_close:
  assumes "geom s" and "index_ok_hole s L h" and "h < ncells s" and "LRU_NIL \<notin> L"
  shows "index_ok (set_cell s h LRU_NIL) L"
  unfolding index_ok_def
proof (intro conjI ballI allI impI)
  let ?t = "set_cell s h LRU_NIL"
  have at: "cells_of ?t ! d = (if d = h then LRU_NIL else cells_of s ! d)" if "d < ncells s" for d
    using assms(1) that by (simp add: geom_cells nth_list_update)
  fix i assume "i \<in> L"
  then show "\<exists>d<ncells ?t. cells_of ?t ! d = i"
    using assms(2) at unfolding index_ok_hole_def by (metis ncells_set_cell)
next
  let ?t = "set_cell s h LRU_NIL"
  have at: "cells_of ?t ! d = (if d = h then LRU_NIL else cells_of s ! d)" if "d < ncells s" for d
    using assms(1) that by (simp add: geom_cells nth_list_update)
  fix c assume c: "c < ncells ?t" "cells_of ?t ! c \<noteq> LRU_NIL"
  then have old: "c < ncells s" "c \<noteq> h" "cells_of s ! c \<noteq> LRU_NIL" "cells_of ?t ! c = cells_of s ! c"
    using at [of c] by (auto split: if_splits)
  then show "cells_of ?t ! c \<in> L"
    and "cdist (ncells ?t) (home ?t (cells_of ?t ! c)) c \<le> ix_max_probe (lru_index ?t)"
    using assms(2) unfolding index_ok_hole_def home_set_cell by auto
  fix d assume "d < ncells ?t" "cells_of ?t ! d = cells_of ?t ! c"
  then show "d = c" using old assms(2) at [of d] unfolding index_ok_hole_def by (auto split: if_splits)
qed

lemma index_ok_hole_shift:
  assumes g: "geom s" and ok: "index_ok_hole s L h" and h: "h < ncells s" and n: "Suc h mod ncells s \<noteq> h"
    and w: "cells_of s ! (Suc h mod ncells s) = w" "w \<noteq> LRU_NIL"
    and d: "cdist (ncells s) (home s w) (Suc h mod ncells s) \<noteq> 0"
  shows "index_ok_hole (set_cell s h w) L (Suc h mod ncells s)"
proof -
  let ?t = "set_cell s h w" and ?n = "Suc h mod ncells s"
  have n': "?n < ncells s" using geom_bounds [OF g] by simp
  have at: "cells_of ?t ! c = (if c = h then w else cells_of s ! c)" if "c < ncells s" for c
    using g that by (simp add: geom_cells nth_list_update)
  have wL: "w \<in> L" and wd: "cdist (ncells s) (home s w) ?n \<le> ix_max_probe (lru_index s)"
    and wu: "\<And>c. c < ncells s \<Longrightarrow> c \<noteq> h \<Longrightarrow> cells_of s ! c = w \<Longrightarrow> c = ?n"
    using ok n n' w unfolding index_ok_hole_def by blast+
  have uniq: "\<And>c b. c < ncells s \<Longrightarrow> c \<noteq> h \<Longrightarrow> cells_of s ! c \<noteq> LRU_NIL \<Longrightarrow> b < ncells s \<Longrightarrow> b \<noteq> h \<Longrightarrow>
      cells_of s ! b = cells_of s ! c \<Longrightarrow> b = c"
    using ok unfolding index_ok_hole_def by blast
  have wd': "cdist (ncells s) (home s w) h \<le> ix_max_probe (lru_index s)"
    using cdist_step_back [OF geom_ideal_less [OF g] h d] wd by simp
  show ?thesis
    unfolding index_ok_hole_def
  proof (intro conjI ballI allI impI)
    fix i assume "i \<in> L"
    then obtain c where c: "c < ncells s" "c \<noteq> h" "cells_of s ! c = i"
      using ok unfolding index_ok_hole_def by blast
    show "\<exists>c<ncells ?t. c \<noteq> ?n \<and> cells_of ?t ! c = i"
    proof (cases "c = ?n")
      case True
      with w c h n at show ?thesis by (intro exI [of _ h]) auto
    next
      case False
      with c at show ?thesis by (intro exI [of _ c]) auto
    qed
  next
    fix c assume c: "c < ncells ?t" "c \<noteq> ?n \<and> cells_of ?t ! c \<noteq> LRU_NIL"
    show "cells_of ?t ! c \<in> L" using c ok wL at [of c] unfolding index_ok_hole_def by (cases "c = h") auto
    show "cdist (ncells ?t) (home ?t (cells_of ?t ! c)) c \<le> ix_max_probe (lru_index ?t)"
      using c ok wd' at [of c] unfolding index_ok_hole_def home_set_cell by (cases "c = h") auto
    fix b assume b: "b < ncells ?t" "b \<noteq> ?n \<and> cells_of ?t ! b = cells_of ?t ! c"
    show "b = c"
      using b c uniq [of c b] wu [of b] wu [of c] at [of b] at [of c]
      by (cases "b = h"; cases "c = h") simp_all
  qed
qed

lemma geom_next_neq: "geom s \<Longrightarrow> h < ncells s \<Longrightarrow> Suc h mod ncells s \<noteq> h"
  by (auto simp: geom_def mod_if)

lemma index_erase_loop_result:
  assumes "geom s" and "index_ok_hole s L h" and "h < ncells s" and "LRU_NIL \<notin> L"
    and "0 < e" and "e < ncells s" and "cells_of s ! ((h + e) mod ncells s) = LRU_NIL" and "e \<le> fuel"
    and "e_refcount (slot_of s (cells_of s ! h)) = 0"
  shows "\<exists>t. index_erase_loop fuel s h = Some t \<and> same_rest s t \<and> index_ok t L \<and> pinned_kept s t"
  using assms
proof (induction fuel arbitrary: s h e)
  case (Suc fuel)
  note g = Suc.prems(1) and ok = Suc.prems(2) and h = Suc.prems(3)
  let ?n = "Suc h mod ncells s" let ?w = "cells_of s ! ?n"
  have n: "next_cell s h = ?n" using geom_next_cell [OF g h] .
  have close: "same_rest s (set_cell s h LRU_NIL) \<and> index_ok (set_cell s h LRU_NIL) L \<and>
      pinned_kept s (set_cell s h LRU_NIL)"
    using index_ok_hole_close [OF g ok h Suc.prems(4)] pinned_kept_set_cell(2) [OF g h] Suc.prems(9) by simp
  show ?case
  proof (cases "?w = LRU_NIL \<or> e_refcount (slot_of s ?w) > 0 \<or> probe_dist s ?n (home s ?w) = 0")
    case True
    with close n show ?thesis by (auto simp: Let_def)
  next
    case False
    then have w: "?w \<noteq> LRU_NIL" "e_refcount (slot_of s ?w) = 0" by auto
    have "cdist (ncells s) (home s ?w) ?n \<noteq> 0"
      using False geom_probe_dist [OF g _ geom_ideal_less [OF g]] geom_bounds [OF g] by simp
    from index_ok_hole_shift [OF g ok h geom_next_neq [OF g h] refl w(1) this]
    have ok': "index_ok_hole (set_cell s h ?w) L ?n" .
    have "e \<noteq> Suc 0" using Suc.prems(7) w(1) by auto
    with Suc.prems(5) obtain e' where e': "e = Suc e'" "0 < e'" by (cases e) auto
    have neq: "(h + e) mod ncells s \<noteq> h" "?n \<noteq> h"
      using ring_add_inj [of e "ncells s" 0 h] Suc.prems geom_next_neq [OF g h] by auto
    have "\<exists>t. index_erase_loop fuel (set_cell s h ?w) ?n = Some t \<and> same_rest (set_cell s h ?w) t \<and>
              index_ok t L \<and> pinned_kept (set_cell s h ?w) t"
    proof (rule Suc.IH [OF _ ok'])
      show "geom (set_cell s h ?w)" using g by (simp add: same_rest_geom [OF same_rest_set_cell])
      show "cells_of (set_cell s h ?w) ! ((?n + e') mod ncells (set_cell s h ?w)) = LRU_NIL"
        using Suc.prems(7) e' neq by (simp add: mod_add_left_eq)
      show "e_refcount (slot_of (set_cell s h ?w) (cells_of (set_cell s h ?w) ! ?n)) = 0"
        using w neq by simp
    qed (use Suc.prems e' geom_bounds [OF g] in auto)
    moreover have "index_erase_loop (Suc fuel) s h = index_erase_loop fuel (set_cell s h ?w) ?n"
      using False n by (simp add: Let_def)
    ultimately show ?thesis
      using pinned_kept_trans [OF pinned_kept_set_cell(2) [OF g h] _ same_rest_set_cell] Suc.prems(9)
        same_rest_trans [OF same_rest_set_cell] by metis
  qed
qed simp

lemma index_erase_result:
  assumes g: "geom s" and ok: "index_ok s L" and L: "L \<subseteq> {..<lru_capacity s}"
    and x: "x \<in> L" "e_refcount (slot_of s x) = 0"
  obtains t where "index_erase s (index_locate s x) = Some t" and "same_rest s t"
    and "index_ok t (L - {x})" and "pinned_kept s t"
proof -
  have nil: "x \<noteq> LRU_NIL" "LRU_NIL \<notin> L" using x L geom_bounds(3) [OF g] by auto
  let ?c = "index_locate s x"
  have c: "?c < ncells s" "cells_of s ! ?c = x" using index_locate_finds [OF g ok x(1) nil(1)] by auto
  obtain e where e: "e < ncells s" "cells_of s ! ((?c + e) mod ncells s) = LRU_NIL"
    using index_ok_empty_cell [OF g ok L c(1)] by blast
  then have "0 < e" using c nil by (cases e) auto
  with index_erase_loop_result [OF g index_ok_hole_start [OF ok c nil(1)] c(1) _ _ e, of "Suc (ncells s)"]
    nil e c x that show thesis by (auto simp: index_erase_def)
qed

end
