(* ===== verification/Lru_Correct.thy ===== *)
theory Lru_Correct
  imports Lru_Index
begin

text \<open>
  Correctness of the LRU cache of src/src/util/lru.c. The abstract state is the list of live entries
  in recency order, most recent first; \<open>aevict\<close> and \<open>aput\<close> say what evictions and a put may do to
  it. \<open>lru_inv\<close> is the invariant of the concrete state. The lemmas show that every operation returns,
  keeps the invariant and implements its abstract counterpart; the locale \<open>lru_store\<close> states the
  contract on which the prefetch cache relies.
\<close>

section \<open>Abstract specification\<close>

type_synonym 'v alru = "(nat \<times> 'v lru_entry) list"

definition amatch :: "('v \<Rightarrow> 'k \<Rightarrow> bool) \<Rightarrow> nat \<Rightarrow> 'k \<Rightarrow> nat \<times> 'v lru_entry \<Rightarrow> bool" where
  "amatch eq h k ie \<longleftrightarrow> entry_matches eq (snd ie) h k"

text \<open>\<open>aevict as as' ds\<close>: unpinned entries are evicted one by one; \<open>ds\<close> are their values in that order.\<close>

inductive aevict :: "'v alru \<Rightarrow> 'v alru \<Rightarrow> 'v list \<Rightarrow> bool" where
  none: "aevict as as []"
| one: "e_refcount e = 0 \<Longrightarrow> e_value e = Some v \<Longrightarrow> aevict (xs @ ys) as' ds \<Longrightarrow>
    aevict (xs @ (i, e) # ys) as' (v # ds)"

text \<open>\<open>aput eq as h k v as' r ds\<close>: the put of \<open>v\<close> under \<open>(h, k)\<close> turns \<open>as\<close> into \<open>as'\<close>, returns \<open>r\<close> and
  destroys \<open>ds\<close>.\<close>

inductive aput :: "('v \<Rightarrow> 'k \<Rightarrow> bool) \<Rightarrow> 'v alru \<Rightarrow> nat \<Rightarrow> 'k \<Rightarrow> 'v \<Rightarrow> 'v alru \<Rightarrow> nat option \<Rightarrow> 'v list \<Rightarrow> bool"
  for eq where
  refuse: "ie \<in> set as \<Longrightarrow> amatch eq h k ie \<Longrightarrow> e_refcount (snd ie) > 0 \<Longrightarrow>
    aput eq as h k v as None [v]"
| replace: "amatch eq h k (i, e) \<Longrightarrow> e_refcount e = 0 \<Longrightarrow> e_value e = Some w \<Longrightarrow>
    aput eq (xs @ (i, e) # ys) h k v ((i, e\<lparr>e_value := Some v\<rparr>) # xs @ ys) (Some i) [w]"
| insert: "\<forall>ie\<in>set as. \<not> amatch eq h k ie \<Longrightarrow> aevict as as' ds \<Longrightarrow> n \<notin> fst ` set as' \<Longrightarrow>
    aput eq as h k v ((n, \<lparr>e_hash = h, e_value = Some v, e_refcount = 0\<rparr>) # as') (Some n) ds"
| full: "\<forall>ie\<in>set as. \<not> amatch eq h k ie \<Longrightarrow> aevict as as' ds \<Longrightarrow>
    \<forall>ie\<in>set as'. e_refcount (snd ie) > 0 \<Longrightarrow>
    aput eq as h k v as' None (ds @ [v])"

lemma aevict_trans: "aevict as bs ds \<Longrightarrow> aevict bs cs es \<Longrightarrow> aevict as cs (ds @ es)"
  by (induction rule: aevict.induct) (auto intro: aevict.intros)

lemma aevict_single:
  "e_refcount e = 0 \<Longrightarrow> e_value e = Some v \<Longrightarrow> aevict (xs @ (i, e) # ys) (xs @ ys) [v]"
  by (auto intro: aevict.intros)

lemma aevict_subset: "aevict as bs ds \<Longrightarrow> set bs \<subseteq> set as"
  by (induction rule: aevict.induct) auto

lemma aevict_keeps_pinned:
  "aevict as bs ds \<Longrightarrow> ie \<in> set as \<Longrightarrow> e_refcount (snd ie) > 0 \<Longrightarrow> ie \<in> set bs"
  by (induction rule: aevict.induct) auto

definition live_values :: "'v alru \<Rightarrow> 'v multiset" where
  "live_values as = mset (map (\<lambda>ie. the (e_value (snd ie))) as)"

lemma aevict_values: "aevict as bs ds \<Longrightarrow> live_values as = live_values bs + mset ds"
  by (induction rule: aevict.induct) (auto simp: live_values_def)

section \<open>Invariant\<close>

text \<open>\<open>order\<close> and \<open>free\<close> are the two lists; the slots of \<open>X\<close> are in neither, as the slot of a put under way.\<close>

definition lru_shape :: "'v lru \<Rightarrow> nat list \<Rightarrow> nat list \<Rightarrow> nat set \<Rightarrow> bool" where
  "lru_shape s order free X \<longleftrightarrow>
     geom s \<and> is_list (lru_links s) Lru_Order order \<and> is_list (lru_links s) Free_List free \<and>
     set order \<inter> set free = {} \<and> X \<inter> (set order \<union> set free) = {} \<and>
     set order \<union> set free \<union> X = {..<lru_capacity s} \<and>
     lru_size s = length order \<and> (\<forall>i\<in>set order. e_value (slot_of s i) \<noteq> None)"

definition lru_rep :: "'v lru \<Rightarrow> nat list \<Rightarrow> nat list \<Rightarrow> nat set \<Rightarrow> bool" where
  "lru_rep s order free X \<longleftrightarrow> lru_shape s order free X \<and> index_ok s (set order)"

lemmas lru_rep_defs = lru_rep_def lru_shape_def

definition lru_inv :: "'v lru \<Rightarrow> bool" where
  "lru_inv s \<longleftrightarrow> (\<exists>order free. lru_rep s order free {})"

definition view :: "'v lru \<Rightarrow> nat list \<Rightarrow> 'v alru" where
  "view s order = map (\<lambda>i. (i, slot_of s i)) order"

text \<open>The recency order, read off the list by walking it as the source does.\<close>

definition recency :: "'v lru \<Rightarrow> 'v alru" where
  "recency s = (case lru_walk s of None \<Rightarrow> [] | Some ns \<Rightarrow> view s (map link_to_entry ns))"

lemma lru_repD:
  assumes "lru_rep s order free X"
  shows "geom s" and "is_list (lru_links s) Lru_Order order" and "is_list (lru_links s) Free_List free"
    and "index_ok s (set order)" and "set order \<subseteq> {..<lru_capacity s}" and "set free \<subseteq> {..<lru_capacity s}"
    and "distinct order" and "distinct free" and "lru_size s = length order"
  using assms unfolding lru_rep_defs by (auto intro: is_list_distinct)

lemma lru_rep_nil: "lru_rep s order free X \<Longrightarrow> LRU_NIL \<notin> set order \<union> set free"
  using lru_repD(1,5,6) geom_bounds(3) by fastforce

lemma nodes_from_is_list:
  assumes "lseg lk a (map Slot_Link xs) b" and "sentinel b" and "length xs < fuel"
  shows "nodes_from (nxt lk) fuel (nxt lk a) b = Some (map Slot_Link xs)"
  using assms
proof (induction xs arbitrary: a fuel)
  case Nil
  then show ?case by (cases fuel) auto
next
  case (Cons x xs)
  from Cons.prems(3) obtain f where f: "fuel = Suc f" "length xs < f" by (cases fuel) auto
  from Cons.prems(1) have "nxt lk a = Slot_Link x" "lseg lk (Slot_Link x) (map Slot_Link xs) b" by auto
  with Cons.IH [of "Slot_Link x" f] Cons.prems(2) f show ?case by simp
qed

lemma lru_rep_walk: "lru_rep s order free X \<Longrightarrow> lru_walk s = Some (map Slot_Link order)"
proof -
  assume r: "lru_rep s order free X"
  from lru_repD(5,7) [OF r] have "length order \<le> lru_capacity s"
    by (metis card_lessThan card_mono distinct_card finite_lessThan)
  with lru_repD(2) [OF r] show ?thesis
    unfolding lru_walk_def by (intro nodes_from_is_list) (auto simp: is_list_def)
qed

lemma map_link_to_entry [simp]: "map link_to_entry (map Slot_Link xs) = xs"
  by (induction xs) auto

lemma lru_rep_recency: "lru_rep s order free X \<Longrightarrow> recency s = view s order"
  unfolding recency_def by (simp add: lru_rep_walk comp_def)

lemma index_ok_cong:
  assumes "index_ok s L" and "cells_of t = cells_of s" and "ncells t = ncells s"
    and "ix_mask (lru_index t) = ix_mask (lru_index s)"
    and "ix_max_probe (lru_index t) = ix_max_probe (lru_index s)"
    and "\<And>i. i \<in> L \<Longrightarrow> e_hash (slot_of t i) = e_hash (slot_of s i)"
  shows "index_ok t L"
  using assms unfolding index_ok_def ideal_cell_def by simp

lemma geom_cong:
  assumes "geom s" and "lru_index t = lru_index s" and "lru_capacity t = lru_capacity s"
    and "length (lru_slots t) = length (lru_slots s)"
  shows "geom t"
  using assms unfolding geom_def by simp

section \<open>Eviction\<close>

definition cleared :: "'v lru_entry" where
  "cleared = \<lparr>e_hash = 0, e_value = None, e_refcount = 0\<rparr>"

text \<open>Everything an eviction of slot \<open>i\<close> does besides the lists and the index.\<close>

definition evicts :: "'v lru \<Rightarrow> nat \<Rightarrow> 'v lru \<Rightarrow> bool" where
  "evicts s i t \<longleftrightarrow>
     lru_slots t = (lru_slots s)[i := cleared] \<and> lru_capacity t = lru_capacity s \<and>
     lru_destroyed t = lru_destroyed s @ [the (e_value (slot_of s i))] \<and>
     ncells t = ncells s \<and> pinned_kept s t"

text \<open>The tail of \<open>evict_slot\<close> and of the orphan branch of \<open>lru_put\<close>: drop a slot that is no longer indexed.\<close>

definition drop_slot :: "'v lru \<Rightarrow> nat \<Rightarrow> 'v lru" where
  "drop_slot s i =
     (let v = e_value (slot_of s i);
          s = s\<lparr>lru_links := list_unlink (lru_links s) (Slot_Link i)\<rparr>;
          s = slot_clear s i;
          s = freelist_push s i;
          s = s\<lparr>lru_size := lru_size s - 1\<rparr>;
          s = s\<lparr>lru_counters := (lru_counters s)\<lparr>c_evictions := c_evictions (lru_counters s) + 1\<rparr>\<rparr>
      in lru_call_destroy s v)"

lemma drop_slot_fields:
  assumes "e_value (slot_of s i) = Some v"
  shows "lru_slots (drop_slot s i) = (lru_slots s)[i := cleared]"
    and "lru_capacity (drop_slot s i) = lru_capacity s" and "lru_index (drop_slot s i) = lru_index s"
    and "lru_size (drop_slot s i) = lru_size s - 1"
    and "lru_destroyed (drop_slot s i) = lru_destroyed s @ [v]"
    and "lru_links (drop_slot s i) =
           list_push_front (list_unlink (lru_links s) (Slot_Link i)) Free_List (Slot_Link i)"
  using assms
  by (simp_all add: drop_slot_def Let_def slot_clear_def freelist_push_def lru_call_destroy_def cleared_def)

lemma drop_slot_shape:
  assumes sh: "lru_shape s order free X" and i: "i \<in> set order"
  shows "lru_shape (drop_slot s i) (remove1 i order) (i # free) X"
proof -
  from sh have g: "geom s" and l: "is_list (lru_links s) Lru_Order order" "is_list (lru_links s) Free_List free"
    and disj: "set order \<inter> set free = {}" "X \<inter> (set order \<union> set free) = {}"
    and vals: "\<forall>j\<in>set order. e_value (slot_of s j) \<noteq> None" by (auto simp: lru_shape_def)
  from vals i obtain v where v: "e_value (slot_of s i) = Some v" by auto
  note f = drop_slot_fields [OF v]
  have d: "distinct order" "i \<notin> set free" using l i disj by (auto simp: is_list_def)
  then have so: "set (remove1 i order) = set order - {i}" by simp
  note l' = is_list_unlink [OF l(1) i] is_list_unlink_other [OF l(1) i l(2) _ disj(1)]
  have "is_list (lru_links (drop_slot s i)) Free_List (i # free)"
    unfolding f using l'(2) d by (intro is_list_push_front) auto
  moreover have "is_list (lru_links (drop_slot s i)) Lru_Order (remove1 i order)"
    unfolding f using l' so d disj by (intro is_list_push_front_other [where xs = free]) auto
  moreover have "geom (drop_slot s i)" by (rule geom_cong [OF g]) (simp_all add: f)
  ultimately show ?thesis
    using d sh i unfolding lru_shape_def by (auto simp: f so length_remove1)
qed

lemma drop_slot_index:
  assumes "index_ok s L" and "i \<notin> L" and "e_value (slot_of s i) = Some v"
  shows "index_ok (drop_slot s i) L"
proof (rule index_ok_cong [OF assms(1)])
  fix j assume "j \<in> L"
  with assms(2) have "i \<noteq> j" by auto
  then show "e_hash (slot_of (drop_slot s i) j) = e_hash (slot_of s j)"
    by (simp add: drop_slot_fields [OF assms(3)])
qed (simp_all add: drop_slot_fields [OF assms(3)])

lemma drop_slot_evicts:
  assumes "geom s" and "e_value (slot_of s i) = Some v" and "e_refcount (slot_of s i) = 0"
  shows "evicts s i (drop_slot s i)"
  using assms unfolding evicts_def pinned_kept_def by (simp add: drop_slot_fields)

lemma evict_slot_result:
  assumes r: "lru_rep s order free X" and i: "i \<in> set order" "e_refcount (slot_of s i) = 0"
  obtains t where "evict_slot s i = Some t" and "lru_rep t (remove1 i order) (i # free) X" and "evicts s i t"
proof -
  note R = lru_repD [OF r]
  from r i obtain v where v: "e_value (slot_of s i) = Some v" unfolding lru_rep_defs by auto
  have nil: "i \<noteq> LRU_NIL" using lru_rep_nil [OF r] i by auto
  obtain u where u: "index_erase s (index_locate s i) = Some u" "same_rest s u"
      "index_ok u (set order - {i})" "pinned_kept s u"
    using index_erase_result [OF R(1,4,5) i] by blast
  have loc: "index_locate s i \<noteq> LRU_NIL"
    using index_locate_finds(1) [OF R(1,4) i(1) nil] geom_bounds(2) [OF R(1)] by simp
  have "evict_slot s i = Some (drop_slot u i)"
    using u(1) loc by (simp add: evict_slot_def drop_slot_def Let_def)
  moreover have "lru_rep (drop_slot u i) (remove1 i order) (i # free) X"
  proof -
    have "lru_shape u order free X"
      using u(2) r same_rest_geom [OF u(2)] by (auto simp: lru_rep_defs same_rest_def)
    from drop_slot_shape [OF this i(1)] drop_slot_index [OF u(3), of i v] u(2) v R(7)
    show ?thesis by (simp add: lru_rep_def same_rest_def)
  qed
  moreover have "evicts s i (drop_slot u i)"
  proof -
    have "evicts u i (drop_slot u i)"
      using u(2) v i R(1) same_rest_geom [OF u(2)]
      by (intro drop_slot_evicts) (auto simp: same_rest_def)
    with u(2,4) pinned_kept_trans [OF u(4) _ u(2)] show ?thesis
      unfolding evicts_def same_rest_def by auto
  qed
  ultimately show thesis by (rule that)
qed

text \<open>The victim of \<open>evict_lru_tail\<close> is the unpinned entry that was used the longest ago.\<close>

lemma is_list_prev:
  assumes "is_list lk s (xs @ x # ys)"
  shows "prev lk (Slot_Link x) = last (s # map Slot_Link xs)"
proof -
  from assms have "lseg lk s (map Slot_Link xs) (Slot_Link x)" by (simp add: is_list_def lseg_append)
  then show ?thesis by (rule lseg_prev_end)
qed

lemma evict_lru_tail_loop_result:
  assumes r: "lru_rep s (xs @ ys) free X" and "length xs < fuel"
    and pinned: "\<forall>i\<in>set ys. e_refcount (slot_of s i) > 0"
  shows "(\<forall>i\<in>set xs. e_refcount (slot_of s i) > 0) \<and>
           evict_lru_tail_loop fuel s (last (Lru_Order # map Slot_Link xs)) = Some (s, -1) \<or>
         (\<exists>us i ws t. xs = us @ i # ws \<and> (\<forall>j\<in>set ws. e_refcount (slot_of s j) > 0) \<and>
            e_refcount (slot_of s i) = 0 \<and>
            evict_lru_tail_loop fuel s (last (Lru_Order # map Slot_Link xs)) = Some (t, 0) \<and>
            lru_rep t (remove1 i (xs @ ys)) (i # free) X \<and> evicts s i t)"
  using assms
proof (induction xs arbitrary: ys fuel rule: rev_induct)
  case Nil
  then show ?case by (cases fuel) auto
next
  case (snoc x xs)
  then obtain f where f: "fuel = Suc f" "length xs < f" by (cases fuel) auto
  show ?case
  proof (cases "e_refcount (slot_of s x) = 0")
    case True
    have "x \<in> set ((xs @ [x]) @ ys)" by simp
    from evict_slot_result [OF snoc.prems(1) this True] obtain t where
      t: "evict_slot s x = Some t" "lru_rep t (remove1 x ((xs @ [x]) @ ys)) (x # free) X" "evicts s x t" .
    have "evict_lru_tail_loop fuel s (last (Lru_Order # map Slot_Link (xs @ [x]))) = Some (t, 0)"
      using True t(1) f by simp
    with True t(2,3) show ?thesis
      by (intro disjI2 exI [of _ xs] exI [of _ x] exI [of _ "[]"] exI [of _ t]) simp
  next
    case False
    have step: "evict_lru_tail_loop fuel s (last (Lru_Order # map Slot_Link (xs @ [x]))) =
        evict_lru_tail_loop f s (last (Lru_Order # map Slot_Link xs))"
      using False f is_list_prev [of "lru_links s" Lru_Order xs x ys] lru_repD(2) [OF snoc.prems(1)]
      by simp
    have "lru_rep s (xs @ (x # ys)) free X" using snoc.prems(1) by simp
    moreover have "\<forall>i\<in>set (x # ys). e_refcount (slot_of s i) > 0" using False snoc.prems(3) by simp
    ultimately consider
        "\<forall>i\<in>set xs. e_refcount (slot_of s i) > 0"
        "evict_lru_tail_loop f s (last (Lru_Order # map Slot_Link xs)) = Some (s, -1)"
      | us i ws t where "xs = us @ i # ws" "\<forall>j\<in>set ws. e_refcount (slot_of s j) > 0"
        "e_refcount (slot_of s i) = 0"
        "evict_lru_tail_loop f s (last (Lru_Order # map Slot_Link xs)) = Some (t, 0)"
        "lru_rep t (remove1 i (xs @ x # ys)) (i # free) X" "evicts s i t"
      using snoc.IH [of "x # ys" f] f(2) by blast
    then show ?thesis
    proof cases
      case 1
      with False show ?thesis unfolding step by simp
    next
      case (2 us i ws t)
      with False show ?thesis unfolding step
        by (intro disjI2 exI [of _ us] exI [of _ i] exI [of _ "ws @ [x]"] exI [of _ t]) simp
    qed
  qed
qed

lemma evict_lru_tail_result:
  assumes r: "lru_rep s order free X"
  obtains (pinned) "\<forall>i\<in>set order. e_refcount (slot_of s i) > 0" and "evict_lru_tail s = Some (s, -1)"
  | (evicted) us i ws t where "order = us @ i # ws" and "\<forall>j\<in>set ws. e_refcount (slot_of s j) > 0"
      and "e_refcount (slot_of s i) = 0" and "evict_lru_tail s = Some (t, 0)"
      and "lru_rep t (us @ ws) (i # free) X" and "evicts s i t"
proof -
  note R = lru_repD [OF r]
  have len: "length order < Suc (lru_capacity s)"
    using R(5,7) by (metis card_lessThan card_mono distinct_card finite_lessThan less_Suc_eq_le)
  have start: "prev (lru_links s) Lru_Order = last (Lru_Order # map Slot_Link order)"
    using R(2) unfolding is_list_def by (blast intro: lseg_prev_end)
  have r': "lru_rep s (order @ []) free X" using r by simp
  have "\<forall>i\<in>set []. e_refcount (slot_of s i) > 0" by simp
  from evict_lru_tail_loop_result [OF r' len this] show thesis
  proof (elim disjE exE conjE)
    assume "\<forall>i\<in>set order. e_refcount (slot_of s i) > 0"
      and "evict_lru_tail_loop (Suc (lru_capacity s)) s (last (Lru_Order # map Slot_Link order)) = Some (s, -1)"
    then show thesis by (intro pinned) (simp_all add: evict_lru_tail_def start)
  next
    fix us i ws t
    assume o: "order = us @ i # ws" and h: "\<forall>j\<in>set ws. e_refcount (slot_of s j) > 0"
      "e_refcount (slot_of s i) = 0"
      "evict_lru_tail_loop (Suc (lru_capacity s)) s (last (Lru_Order # map Slot_Link order)) = Some (t, 0)"
      "lru_rep t (remove1 i (order @ [])) (i # free) X" "evicts s i t"
    have "remove1 i (order @ []) = us @ ws" using R(7) o by (simp add: remove1_append)
    with o h show thesis by (intro evicted) (simp_all add: evict_lru_tail_def start)
  qed
qed

lemma evicts_view:
  assumes "evicts s i t" and "i \<notin> set xs"
  shows "view t xs = view s xs"
proof -
  have "slot_of t j = slot_of s j" if "j \<in> set xs" for j
    using assms that unfolding evicts_def by (metis nth_list_update_neq)
  then show ?thesis by (simp add: view_def)
qed

lemma evicts_aevict:
  assumes r: "lru_rep s (us @ i # ws) free X" and e: "evicts s i t" and z: "e_refcount (slot_of s i) = 0"
  shows "aevict (view s (us @ i # ws)) (view t (us @ ws)) [the (e_value (slot_of s i))]"
proof -
  have "i \<notin> set (us @ ws)" using lru_repD(7) [OF r] by auto
  from evicts_view [OF e this] have t: "view t (us @ ws) = view s us @ view s ws" by (simp add: view_def)
  obtain v where "e_value (slot_of s i) = Some v" using r by (auto simp: lru_rep_defs)
  with aevict_single [OF z this, of "view s us" i "view s ws"] show ?thesis
    unfolding t by (simp add: view_def)
qed

section \<open>Slot allocation\<close>

lemma lru_rep_links:
  assumes "lru_rep s order free X" and "is_list lk Lru_Order order'" and "is_list lk Free_List free'"
    and "set order' = set order" and "set free' \<inter> set order = {}" and "X' \<inter> (set order \<union> set free') = {}"
    and "set order \<union> set free' \<union> X' = {..<lru_capacity s}"
  shows "lru_rep (s\<lparr>lru_links := lk\<rparr>) order' free' X'"
proof -
  have "length order' = length order"
    using assms(1,2,4) by (metis distinct_card is_list_distinct lru_repD(7))
  moreover have "geom (s\<lparr>lru_links := lk\<rparr>)" by (rule geom_cong [of s]) (use lru_repD(1) [OF assms(1)] in auto)
  moreover have "index_ok (s\<lparr>lru_links := lk\<rparr>) (set order)"
    by (rule index_ok_cong [of s]) (use lru_repD(4) [OF assms(1)] in auto)
  ultimately show ?thesis using assms unfolding lru_rep_defs by auto
qed

lemma freelist_pop_result:
  assumes r: "lru_rep s order (x # free) {}"
  shows "\<exists>lk. freelist_pop s = (s\<lparr>lru_links := lk\<rparr>, x) \<and> lru_rep (s\<lparr>lru_links := lk\<rparr>) order free {x}"
proof -
  note R = lru_repD [OF r]
  let ?lk = "list_unlink (lru_links s) (Slot_Link x)"
  have disj: "set (x # free) \<inter> set order = {}" using r by (auto simp: lru_rep_defs)
  have "is_list ?lk Free_List free" using is_list_unlink [OF R(3), of x] by simp
  moreover have "is_list ?lk Lru_Order order"
    by (rule is_list_unlink_other [OF R(3) _ R(2)]) (use disj in auto)
  ultimately have "lru_rep (s\<lparr>lru_links := ?lk\<rparr>) order free {x}"
    using r R(8) by (intro lru_rep_links [OF r]) (auto simp: lru_rep_defs)
  moreover have "freelist_pop s = (s\<lparr>lru_links := ?lk\<rparr>, x)"
    using list_empty_iff [OF R(3)] is_list_first [OF R(3)] by (simp add: freelist_pop_def)
  ultimately show ?thesis by blast
qed

text \<open>What the evictions inside a put may change: the entries they remove, and nothing else.\<close>

definition put_frame :: "'v lru \<Rightarrow> 'v lru \<Rightarrow> bool" where
  "put_frame s t \<longleftrightarrow> lru_capacity t = lru_capacity s \<and> ncells t = ncells s \<and> pinned_kept s t \<and>
     (\<forall>c<ncells s. cells_of s ! c \<noteq> LRU_NIL \<and> e_refcount (slot_of s (cells_of s ! c)) > 0 \<longrightarrow>
        slot_of t (cells_of s ! c) = slot_of s (cells_of s ! c))"

lemma put_frame_refl [simp, intro]: "put_frame s s"
  by (simp add: put_frame_def)

lemma put_frame_trans:
  assumes "put_frame s t" and "put_frame t u"
  shows "put_frame s u"
  using assms unfolding put_frame_def pinned_kept_def by metis

lemma put_frame_links: "put_frame s (s\<lparr>lru_links := lk\<rparr>)"
  by (simp add: put_frame_def pinned_kept_def)

lemma evicts_put_frame: "evicts s i t \<Longrightarrow> e_refcount (slot_of s i) = 0 \<Longrightarrow> put_frame s t"
  unfolding evicts_def put_frame_def by (metis nth_list_update_neq less_numeral_extra(3))

lemma put_alloc_result:
  assumes r: "lru_rep s order free {}" and fuel: "2 \<le> fuel"
  obtains (full) "\<forall>i\<in>set order. e_refcount (slot_of s i) > 0" and "put_alloc_loop fuel s = Some (s, None)"
  | (slot) t x order' free' ds where "put_alloc_loop fuel s = Some (t, Some x)" and "lru_rep t order' free' {x}"
      and "aevict (view s order) (view t order') ds" and "lru_destroyed t = lru_destroyed s @ ds"
      and "put_frame s t"
proof -
  obtain f where f: "fuel = Suc (Suc f)" using fuel by (metis add_2_eq_Suc le_Suc_ex)
  have pop: "\<exists>lk. put_alloc_loop (Suc m) u = Some (u\<lparr>lru_links := lk\<rparr>, Some x) \<and>
      lru_rep (u\<lparr>lru_links := lk\<rparr>) o' fs {x}" if ru: "lru_rep u o' (x # fs) {}" for u o' x fs m
    using freelist_pop_result [OF ru] lru_rep_nil [OF ru] by (auto split: prod.splits)
  show thesis
  proof (cases free)
    case (Cons x fs)
    with pop [of s order x fs "Suc f"] r obtain lk where
      "put_alloc_loop fuel s = Some (s\<lparr>lru_links := lk\<rparr>, Some x)" "lru_rep (s\<lparr>lru_links := lk\<rparr>) order fs {x}"
      unfolding f by auto
    then show thesis
      by (rule slot) (auto simp: view_def put_frame_links intro: aevict.none)
  next
    case Nil
    have e: "freelist_pop s = (s, LRU_NIL)"
      using list_empty_iff [OF lru_repD(3) [OF r]] Nil by (simp add: freelist_pop_def)
    from r show thesis
    proof (cases rule: evict_lru_tail_result)
      case pinned
      then show thesis by (intro full) (simp_all add: f e)
    next
      case (evicted us i ws t)
      from pop [OF evicted(5) [unfolded Nil], of f] obtain lk where
        p: "put_alloc_loop (Suc f) t = Some (t\<lparr>lru_links := lk\<rparr>, Some i)"
        "lru_rep (t\<lparr>lru_links := lk\<rparr>) (us @ ws) [] {i}" by auto
      show thesis
      proof (rule slot [OF _ p(2)])
        show "put_alloc_loop fuel s = Some (t\<lparr>lru_links := lk\<rparr>, Some i)"
          using evicted(4) p(1) by (simp add: f e)
        show "aevict (view s order) (view (t\<lparr>lru_links := lk\<rparr>) (us @ ws)) [the (e_value (slot_of s i))]"
          using evicts_aevict [OF r [unfolded evicted(1)] evicted(6,3)] evicted(1) by (simp add: view_def)
        show "put_frame s (t\<lparr>lru_links := lk\<rparr>)"
          using evicts_put_frame [OF evicted(6,3)] put_frame_links by (rule put_frame_trans)
      qed (use evicted(6) in \<open>simp add: evicts_def\<close>)
    qed
  qed
qed

section \<open>Insertion\<close>

text \<open>The state in which \<open>lru_put\<close> leaves its index loop: slot \<open>x\<close> is indexed, but in neither list.\<close>

definition lru_ready :: "'v lru \<Rightarrow> nat list \<Rightarrow> nat list \<Rightarrow> nat \<Rightarrow> bool" where
  "lru_ready s order free x \<longleftrightarrow> lru_shape s order free {x} \<and> index_ok s (insert x (set order))"

text \<open>How a state before the loop relates to one after it, \<open>ds\<close> being the destroyed values.\<close>

definition put_trace :: "'v lru \<Rightarrow> nat list \<Rightarrow> nat \<Rightarrow> 'v lru \<Rightarrow> nat list \<Rightarrow> 'v list \<Rightarrow> bool" where
  "put_trace s order x t order' ds \<longleftrightarrow>
     aevict (view s order) (view t order') ds \<and> lru_destroyed t = lru_destroyed s @ ds \<and>
     put_frame s t \<and> slot_of t x = slot_of s x"

lemma put_trace_refl: "view t order = view s order \<Longrightarrow> lru_destroyed t = lru_destroyed s \<Longrightarrow> put_frame s t \<Longrightarrow>
    slot_of t x = slot_of s x \<Longrightarrow> put_trace s order x t order []"
  by (auto simp: put_trace_def intro: aevict.none)

lemma put_trace_trans:
  "put_trace s order x t order' ds \<Longrightarrow> put_trace t order' x u order'' es \<Longrightarrow> put_trace s order x u order'' (ds @ es)"
  unfolding put_trace_def by (auto intro: aevict_trans put_frame_trans)

lemma evicts_put_trace:
  assumes r: "lru_rep s (us @ i # ws) free {x}" and e: "evicts s i t" and z: "e_refcount (slot_of s i) = 0"
  shows "put_trace s (us @ i # ws) x t (us @ ws) [the (e_value (slot_of s i))]"
proof -
  have "i \<noteq> x" using r by (auto simp: lru_rep_defs)
  then have "slot_of t x = slot_of s x" using e by (simp add: evicts_def)
  with evicts_aevict [OF assms] evicts_put_frame [OF e z] e show ?thesis
    by (simp add: put_trace_def evicts_def)
qed

lemma same_rest_shape:
  assumes "same_rest s t" and "lru_shape s order free X"
  shows "lru_shape t order free X"
  using assms same_rest_geom [OF assms(1)] by (auto simp: lru_shape_def same_rest_def)

lemma same_rest_frame: "same_rest s t \<Longrightarrow> pinned_kept s t \<Longrightarrow> put_frame s t"
  by (simp add: same_rest_def put_frame_def)

lemma same_rest_trace: "same_rest s t \<Longrightarrow> pinned_kept s t \<Longrightarrow> put_trace s order x t order []"
  by (rule put_trace_refl) (simp_all add: same_rest_frame, simp_all add: same_rest_def view_def)

text \<open>The robin-hood pass pushed another, unpinned entry out of the index: it is dropped.\<close>

lemma drop_orphan:
  assumes sh: "lru_shape s order free {x}" and ix: "index_ok s (insert x (set order) - {r})"
    and r: "r \<in> set order" and z: "e_refcount (slot_of s r) = 0"
  shows "lru_ready (drop_slot s r) (remove1 r order) (r # free) x"
    and "put_trace s order x (drop_slot s r) (remove1 r order) [the (e_value (slot_of s r))]"
proof -
  from sh r obtain v where v: "e_value (slot_of s r) = Some v" by (auto simp: lru_shape_def)
  have d: "distinct order" "r \<noteq> x" and g: "geom s" using sh r by (auto simp: lru_shape_def is_list_def)
  then have "insert x (set order) - {r} = insert x (set (remove1 r order))" by auto
  moreover have "index_ok (drop_slot s r) (insert x (set order) - {r})" by (rule drop_slot_index [OF ix _ v]) simp
  ultimately show "lru_ready (drop_slot s r) (remove1 r order) (r # free) x"
    using drop_slot_shape [OF sh r] by (simp add: lru_ready_def)
  note e = drop_slot_evicts [OF g v z]
  obtain us ws where o: "order = us @ r # ws" "remove1 r order = us @ ws" using remove1_split [OF r d(1)] .
  then have "r \<notin> set (us @ ws)" using d(1) by auto
  from evicts_view [OF e this] have t: "view (drop_slot s r) (us @ ws) = view s us @ view s ws" by (simp add: view_def)
  have "aevict (view s order) (view (drop_slot s r) (us @ ws)) [v]"
    unfolding t o(1) using aevict_single [OF z v, of "view s us" r "view s ws"] by (simp add: view_def)
  with evicts_put_frame [OF e z] d(2) v o(2)
  show "put_trace s order x (drop_slot s r) (remove1 r order) [the (e_value (slot_of s r))]"
    by (simp add: put_trace_def drop_slot_fields [OF v])
qed

text \<open>A put that could not be placed gives its slot back.\<close>

lemma give_back:
  assumes r: "lru_rep s order free {x}" and v: "e_value (slot_of s x) = Some v"
  shows "lru_rep (put_failed (freelist_push (slot_clear s x) x) (Some v)) order (x # free) {}"
proof -
  let ?t = "put_failed (freelist_push (slot_clear s x) x) (Some v)"
  have f: "lru_links ?t = list_push_front (lru_links s) Free_List (Slot_Link x)"
    "lru_index ?t = lru_index s" "lru_capacity ?t = lru_capacity s" "lru_slots ?t = (lru_slots s)[x := cleared]"
    "lru_size ?t = lru_size s"
    by (simp_all add: put_failed_def slot_clear_def freelist_push_def lru_call_destroy_def cleared_def)
  from r have x: "x \<notin> set order" "x \<notin> set free" by (auto simp: lru_rep_defs)
  have "slot_of ?t i = slot_of s i" if "i \<in> set order" for i
    using that x by (metis f(4) nth_list_update_neq)
  note sl = this
  have "geom ?t" by (rule geom_cong [OF lru_repD(1) [OF r]]) (simp_all add: f)
  moreover have "index_ok ?t (set order)"
  proof (rule index_ok_cong [OF lru_repD(4) [OF r]])
    fix i assume "i \<in> set order"
    then show "e_hash (slot_of ?t i) = e_hash (slot_of s i)" by (simp only: sl)
  qed (simp_all add: f)
  moreover have "is_list (lru_links ?t) Free_List (x # free)"
    unfolding f using lru_repD(3) [OF r] x by (intro is_list_push_front) auto
  moreover have "is_list (lru_links ?t) Lru_Order order"
    unfolding f using lru_repD(2,3) [OF r] x r
    by (intro is_list_push_front_other [where xs = free]) (auto simp: lru_rep_defs)
  ultimately show ?thesis using r x sl unfolding lru_rep_defs by (auto simp: f(3,5))
qed

lemma put_insert_loop_result:
  assumes "lru_rep s order free {x}" and "length order < fuel"
    and "e_refcount (slot_of s x) = 0" and "e_value (slot_of s x) = Some v"
  shows "(\<exists>t order' free' ds. put_insert_loop fuel s x = Some (t, True) \<and> lru_ready t order' free' x \<and>
            put_trace s order x t order' ds) \<or>
         (\<exists>u order' free' ds. let t = put_failed (freelist_push (slot_clear u x) x) (Some v) in
            put_insert_loop fuel s x = Some (t, False) \<and> lru_rep u order' free' {x} \<and>
            put_trace s order x u order' ds \<and> (\<forall>i\<in>set order'. e_refcount (slot_of u i) > 0))"
  using assms
proof (induction fuel arbitrary: s order free)
  case (Suc fuel)
  note r = Suc.prems(1)
  note R = lru_repD [OF r]
  from r have sh: "lru_shape s order free {x}" and x: "x \<notin> set order" "x < lru_capacity s"
    by (auto simp: lru_rep_defs)
  have nil: "x \<noteq> LRU_NIL" using x(2) geom_bounds(3) [OF R(1)] by simp
  obtain t a A where ins: "index_insert_robin s x = Some (t, a)" and res: "robin_result s (set order) x A t a"
    using index_insert_robin_result [OF R(1,4,5) x] .
  from res have same: "same_rest s t" "pinned_kept s t" by (auto simp: robin_result_def)
  note sht = same_rest_shape [OF same(1) sh]
  from res consider (placed) "a = LRU_NIL" "index_ok t (insert x (set order))" | (self) "a = x" "t = s"
    | (orphan) "a \<in> set order" "e_refcount (slot_of s a) = 0" "index_ok t (insert x (set order) - {a})"
    unfolding robin_result_def by auto
  then show ?case
  proof cases
    case placed
    then have "lru_ready t order free x" using sht by (simp add: lru_ready_def)
    moreover have "put_insert_loop (Suc fuel) s x = Some (t, True)" using placed ins by simp
    ultimately show ?thesis using same_rest_trace [OF same] by blast
  next
    case orphan
    have sl: "lru_slots t = lru_slots s" using same(1) by (simp add: same_rest_def)
    have ne: "a \<noteq> LRU_NIL" "a \<noteq> x" using orphan(1) x(1) lru_rep_nil [OF r] by auto
    then have "put_insert_loop (Suc fuel) s x = Some (drop_slot t a, True)"
      using ins by (simp add: drop_slot_def Let_def)
    moreover have "e_refcount (slot_of t a) = 0" using orphan(2) sl by simp
    note drop_orphan [OF sht orphan(3,1) this]
    ultimately show ?thesis using put_trace_trans [OF same_rest_trace [OF same]] by blast
  next
    case self
    from r show ?thesis
    proof (cases rule: evict_lru_tail_result)
      case pinned
      then have "put_insert_loop (Suc fuel) s x = Some (put_failed (freelist_push (slot_clear s x) x) (Some v), False)"
        using self ins nil Suc.prems(4) by (simp add: Let_def)
      with pinned(1) r put_trace_refl [of s order s x] show ?thesis by (auto simp: Let_def)
    next
      case (evicted us i ws w)
      note tr = evicts_put_trace [OF r [unfolded evicted(1)] evicted(6,3)]
      then have "slot_of w x = slot_of s x" by (simp add: put_trace_def)
      moreover have "length (us @ ws) < fuel" using Suc.prems(2) evicted(1) by simp
      moreover have "put_insert_loop (Suc fuel) s x = put_insert_loop fuel w x"
        using self ins nil evicted(4) by simp
      ultimately show ?thesis
        using Suc.IH [OF evicted(5)] Suc.prems(3,4) put_trace_trans [OF tr] unfolding evicted(1) Let_def
        by (metis (no_types, lifting))
    qed
  qed
qed simp

section \<open>The refinement of put\<close>

lemma lru_ready_finish:
  assumes rd: "lru_ready s order free x" and t: "t = s\<lparr>lru_links := list_push_front (lru_links s) Lru_Order (Slot_Link x),
      lru_size := lru_size s + 1, lru_counters := c\<rparr>" and v: "e_value (slot_of s x) \<noteq> None"
  shows "lru_rep t (x # order) free {}"
proof -
  from rd have sh: "lru_shape s order free {x}" and ix: "index_ok s (insert x (set order))"
    by (auto simp: lru_ready_def)
  then have x: "x \<notin> set order" "x \<notin> set free" and l: "is_list (lru_links s) Lru_Order order"
    "is_list (lru_links s) Free_List free" and "geom s" by (auto simp: lru_shape_def)
  have "is_list (lru_links t) Lru_Order (x # order)"
    unfolding t using l x by (simp add: is_list_push_front)
  moreover have "is_list (lru_links t) Free_List free"
    unfolding t using is_list_push_front_other [OF l(1) _ l(2)] x sh by (simp add: lru_shape_def Int_commute)
  moreover have "geom t" by (rule geom_cong [OF \<open>geom s\<close>]) (simp_all add: t)
  moreover have "index_ok t (insert x (set order))" by (rule index_ok_cong [OF ix]) (simp_all add: t)
  ultimately show ?thesis using sh v unfolding lru_rep_defs by (auto simp: t)
qed

lemma write_new_slot:
  assumes r: "lru_rep s order free {x}"
  shows "lru_rep (s\<lparr>lru_slots := (lru_slots s)[x := e]\<rparr>) order free {x}"
    and "view (s\<lparr>lru_slots := (lru_slots s)[x := e]\<rparr>) order = view s order"
    and "(lru_slots s)[x := e] ! x = e"
proof -
  let ?t = "s\<lparr>lru_slots := (lru_slots s)[x := e]\<rparr>"
  from r have x: "x \<notin> set order" "x < lru_capacity s" by (auto simp: lru_rep_defs)
  have sl: "slot_of ?t i = slot_of s i" if "i \<in> set order" for i using that x(1) by (cases "i = x") simp_all
  then show "view ?t order = view s order" by (simp add: view_def)
  have "geom ?t" by (rule geom_cong [OF lru_repD(1) [OF r]]) simp_all
  moreover have "index_ok ?t (set order)"
  proof (rule index_ok_cong [OF lru_repD(4) [OF r]])
    fix i assume "i \<in> set order"
    then show "e_hash (slot_of ?t i) = e_hash (slot_of s i)" by (simp only: sl)
  qed simp_all
  moreover have "\<forall>i\<in>set order. e_value (slot_of ?t i) \<noteq> None"
  proof
    fix i assume i: "i \<in> set order"
    with r have "e_value (slot_of s i) \<noteq> None" by (simp add: lru_rep_defs)
    then show "e_value (slot_of ?t i) \<noteq> None" unfolding sl [OF i] .
  qed
  ultimately show "lru_rep ?t order free {x}" using r unfolding lru_rep_defs by simp
  show "(lru_slots s)[x := e] ! x = e" using x(2) lru_repD(1) [OF r] by (simp add: geom_def)
qed

text \<open>The lookup finds a matching live entry if there is one.\<close>

lemma lookup_cases:
  assumes r: "lru_rep s order free X"
  obtains (hit) i where "i \<in> set order" and "entry_matches eq (slot_of s i) h k"
      and "index_lookup eq s h k \<noteq> LRU_NIL" and "cells_of s ! index_lookup eq s h k = i"
  | (miss) "index_lookup eq s h k = LRU_NIL" and "\<forall>i\<in>set order. \<not> entry_matches eq (slot_of s i) h k"
proof (cases "index_lookup eq s h k = LRU_NIL")
  case True
  have "\<not> entry_matches eq (slot_of s i) h k" if "i \<in> set order" for i
    using index_lookup_miss [OF lru_repD(1,4) [OF r] True that] lru_rep_nil [OF r] that by auto
  with True show thesis by (intro miss) auto
next
  case False
  from index_lookup_hit(2,3) [OF lru_repD(1,4) [OF r] False] False show thesis by (intro hit) auto
qed

lemma lru_rep_cong:
  assumes "lru_rep s order free X" and "lru_slots t = lru_slots s" and "lru_capacity t = lru_capacity s"
    and "lru_size t = lru_size s" and "lru_index t = lru_index s" and "lru_links t = lru_links s"
  shows "lru_rep t order free X"
  using assms index_ok_cong [of s "set order" t] geom_cong [of s t] unfolding lru_rep_defs by simp

lemma lru_rep_update_slot:
  assumes r: "lru_rep s order free X" and e: "e_hash e = e_hash (slot_of s i)" "i \<in> set order \<Longrightarrow> e_value e \<noteq> None"
  shows "lru_rep (s\<lparr>lru_slots := (lru_slots s)[i := e]\<rparr>) order free X"
proof -
  let ?t = "s\<lparr>lru_slots := (lru_slots s)[i := e]\<rparr>"
  have sl: "slot_of ?t j = (if j = i then e else slot_of s j)" if "j \<in> set order" for j
    using that lru_repD(1,5) [OF r] by (auto simp: geom_def nth_list_update)
  have "geom ?t" by (rule geom_cong [OF lru_repD(1) [OF r]]) simp_all
  moreover have "index_ok ?t (set order)"
  proof (rule index_ok_cong [OF lru_repD(4) [OF r]])
    fix j assume "j \<in> set order"
    from sl [OF this] e(1) show "e_hash (slot_of ?t j) = e_hash (slot_of s j)" by presburger
  qed simp_all
  moreover have "\<forall>j\<in>set order. e_value (slot_of ?t j) \<noteq> None"
  proof
    fix j assume j: "j \<in> set order"
    with r have "e_value (slot_of s j) \<noteq> None" by (simp add: lru_rep_defs)
    with sl [OF j] e(2) j show "e_value (slot_of ?t j) \<noteq> None" by presburger
  qed
  ultimately show ?thesis using r unfolding lru_rep_defs by simp
qed

lemma lru_rep_promote:
  assumes r: "lru_rep s order free X" and i: "i \<in> set order"
  shows "lru_rep (s\<lparr>lru_links := list_promote (lru_links s) Lru_Order (Slot_Link i)\<rparr>) (i # remove1 i order) free X"
proof (rule lru_rep_links [OF r])
  note R = lru_repD [OF r]
  show "is_list (list_promote (lru_links s) Lru_Order (Slot_Link i)) Lru_Order (i # remove1 i order)"
    using R(2) i by (rule is_list_promote)
  show "is_list (list_promote (lru_links s) Lru_Order (Slot_Link i)) Free_List free"
    using R(2) i R(3) by (rule is_list_promote_other) (use r in \<open>auto simp: lru_rep_defs\<close>)
qed (use r i in \<open>auto simp: lru_rep_defs is_list_def\<close>)

text \<open>One call of \<open>lru_put\<close>: the state and result it returns, against the abstract put.\<close>

definition put_result :: "('v \<Rightarrow> 'k \<Rightarrow> bool) \<Rightarrow> 'v lru \<Rightarrow> nat list \<Rightarrow> nat \<Rightarrow> 'k \<Rightarrow> 'v \<Rightarrow> 'v lru \<Rightarrow> nat option \<Rightarrow> bool" where
  "put_result eq s order h k v t r \<longleftrightarrow>
     (\<exists>order' free' ds. lru_rep t order' free' {} \<and> aput eq (view s order) h k v (view t order') r ds \<and>
        lru_destroyed t = lru_destroyed s @ ds \<and> put_frame s t)"

lemma put_failed_simps [simp]:
  "lru_slots (put_failed s (Some v)) = lru_slots s" "lru_capacity (put_failed s (Some v)) = lru_capacity s"
  "lru_size (put_failed s (Some v)) = lru_size s" "lru_index (put_failed s (Some v)) = lru_index s"
  "lru_links (put_failed s (Some v)) = lru_links s"
  "lru_destroyed (put_failed s (Some v)) = lru_destroyed s @ [v]"
  by (simp_all add: put_failed_def lru_call_destroy_def)

lemma view_cong: "\<forall>i\<in>set order. slot_of t i = slot_of s i \<Longrightarrow> view t order = view s order"
  by (simp add: view_def)

lemma put_failed_view [simp]: "view (put_failed s (Some v)) order = view s order"
  by (simp add: view_cong)

lemma put_failed_frame: "put_frame s t \<Longrightarrow> put_frame s (put_failed t (Some v))"
  by (simp add: put_frame_def pinned_kept_def)

lemma put_refused_result:
  assumes r: "lru_rep s order free {}" and i: "i \<in> set order" "entry_matches eq (slot_of s i) h k"
    and pin: "e_refcount (slot_of s i) > 0"
  shows "put_result eq s order h k v (put_failed s (Some v)) None"
proof -
  have "lru_rep (put_failed s (Some v)) order free {}" by (rule lru_rep_cong [OF r]) simp_all
  moreover have "aput eq (view s order) h k v (view s order) None [v]"
    using i pin by (intro aput.refuse [of "(i, slot_of s i)"]) (auto simp: view_def amatch_def)
  ultimately show ?thesis unfolding put_result_def
    by (intro exI [of _ order] exI [of _ free] exI [of _ "[v]"]) (simp add: put_failed_frame)
qed

definition replaced :: "'v lru \<Rightarrow> nat \<Rightarrow> 'v \<Rightarrow> lru_counters \<Rightarrow> 'v list \<Rightarrow> 'v lru" where
  "replaced s i v c ds = s\<lparr>lru_slots := (lru_slots s)[i := (slot_of s i)\<lparr>e_value := Some v\<rparr>],
     lru_links := list_promote (lru_links s) Lru_Order (Slot_Link i), lru_counters := c,
     lru_destroyed := ds\<rparr>"

lemma put_replaced_result:
  assumes r: "lru_rep s order free {}" and i: "i \<in> set order" "entry_matches eq (slot_of s i) h k"
    and z: "e_refcount (slot_of s i) = 0" and w: "e_value (slot_of s i) = Some w"
  shows "put_result eq s order h k v (replaced s i v c (lru_destroyed s @ [w])) (Some i)"
proof -
  let ?t = "replaced s i v c (lru_destroyed s @ [w])"
  let ?e = "(slot_of s i)\<lparr>e_value := Some v\<rparr>"
  obtain us ws where o: "order = us @ i # ws" "remove1 i order = us @ ws" using remove1_split [OF i(1) lru_repD(7) [OF r]] .
  have ilen: "i < length (lru_slots s)" using i(1) lru_repD(1,5) [OF r] by (auto simp: geom_def)
  have "lru_rep (s\<lparr>lru_slots := (lru_slots s)[i := ?e]\<rparr>) order free {}" by (rule lru_rep_update_slot [OF r]) simp_all
  from lru_rep_promote [OF this i(1)] have rep: "lru_rep ?t (i # remove1 i order) free {}"
    by (rule lru_rep_cong) (simp_all add: replaced_def)
  have "slot_of ?t j = slot_of s j" if "j \<in> set (us @ ws)" for j
    using that o(1) lru_repD(7) [OF r] by (cases "j = i") (auto simp: replaced_def)
  then have "view ?t (us @ ws) = view s (us @ ws)" by (intro view_cong) blast
  then have vt: "view ?t (i # remove1 i order) = (i, ?e) # view s us @ view s ws"
    unfolding o(2) using ilen by (simp add: view_def replaced_def)
  have vs: "view s order = view s us @ (i, slot_of s i) # view s ws" by (simp add: o(1) view_def)
  have "aput eq (view s order) h k v (view ?t (i # remove1 i order)) (Some i) [w]"
    unfolding vt vs using z w i(2) by (intro aput.replace) (simp_all add: amatch_def)
  moreover have "put_frame s ?t"
    using z by (auto simp: put_frame_def pinned_kept_def replaced_def) (metis nth_list_update_neq less_numeral_extra(3))
  ultimately show ?thesis using rep unfolding put_result_def
    by (intro exI [of _ "i # remove1 i order"] exI [of _ free] exI [of _ "[w]"]) (simp add: replaced_def)
qed

lemma view_all_iff: "(\<forall>ie\<in>set (view s order). P ie) \<longleftrightarrow> (\<forall>i\<in>set order. P (i, slot_of s i))"
  by (simp add: view_def)

lemma put_frame_slot:
  assumes r: "lru_rep s order free {x}" and t: "lru_slots t = (lru_slots s)[x := e]" "lru_capacity t = lru_capacity s"
    "lru_index t = lru_index s"
  shows "put_frame s t"
proof -
  have "slot_of t (cells_of s ! c) = slot_of s (cells_of s ! c)" if c: "c < ncells s" "cells_of s ! c \<noteq> LRU_NIL" for c
  proof -
    have "cells_of s ! c \<in> set order" using index_okD(1) [OF lru_repD(4) [OF r] c] .
    then have "cells_of s ! c \<noteq> x" using r by (auto simp: lru_rep_defs)
    then show ?thesis by (simp add: t)
  qed
  then show ?thesis by (simp add: put_frame_def pinned_kept_def t)
qed

lemma put_full_result:
  assumes r: "lru_rep u order' free' {}" and none: "\<forall>i\<in>set order. \<not> entry_matches eq (slot_of s i) h k"
    and ev: "aevict (view s order) (view u order') ds" and d: "lru_destroyed u = lru_destroyed s @ ds @ [v]"
    and f: "put_frame s u" and full: "\<forall>i\<in>set order'. e_refcount (slot_of u i) > 0"
  shows "put_result eq s order h k v u None"
proof -
  have "aput eq (view s order) h k v (view u order') None (ds @ [v])"
    using ev none full by (intro aput.full) (simp_all add: view_all_iff amatch_def)
  then show ?thesis unfolding put_result_def using r d f
    by (intro exI [of _ order'] exI [of _ free'] exI [of _ "ds @ [v]"]) simp
qed

lemma put_placed_result:
  assumes rd: "lru_ready u order' free' x" and none: "\<forall>i\<in>set order. \<not> entry_matches eq (slot_of s i) h k"
    and ev: "aevict (view s order) (view u order') ds" and d: "lru_destroyed u = lru_destroyed s @ ds"
    and f: "put_frame s u" and e: "slot_of u x = \<lparr>e_hash = h, e_value = Some v, e_refcount = 0\<rparr>"
    and t: "t = u\<lparr>lru_links := list_push_front (lru_links u) Lru_Order (Slot_Link x),
      lru_size := lru_size u + 1, lru_counters := c\<rparr>"
  shows "put_result eq s order h k v t (Some x)"
proof -
  have rep: "lru_rep t (x # order') free' {}" by (rule lru_ready_finish [OF rd t]) (simp add: e)
  have vt: "view t (x # order') = (x, \<lparr>e_hash = h, e_value = Some v, e_refcount = 0\<rparr>) # view u order'"
    using e by (simp add: t view_def)
  have "aput eq (view s order) h k v (view t (x # order')) (Some x) ds"
    unfolding vt using ev none rd
    by (intro aput.insert) (auto simp: view_def amatch_def lru_ready_def lru_shape_def)
  moreover have "put_frame s t" using f by (simp add: put_frame_def pinned_kept_def t)
  ultimately show ?thesis unfolding put_result_def using rep d
    by (intro exI [of _ "x # order'"] exI [of _ free'] exI [of _ ds]) (simp add: t)
qed

lemma put_given_back_result:
  assumes r: "lru_rep u order' free' {x}" and none: "\<forall>i\<in>set order. \<not> entry_matches eq (slot_of s i) h k"
    and ev: "aevict (view s order) (view u order') ds" and d: "lru_destroyed u = lru_destroyed s @ ds"
    and f: "put_frame s u" and full: "\<forall>i\<in>set order'. e_refcount (slot_of u i) > 0"
    and v: "e_value (slot_of u x) = Some v"
  shows "put_result eq s order h k v (put_failed (freelist_push (slot_clear u x) x) (Some v)) None"
proof -
  let ?w = "put_failed (freelist_push (slot_clear u x) x) (Some v)"
  have sl: "lru_slots ?w = (lru_slots u)[x := cleared]" "lru_destroyed ?w = lru_destroyed u @ [v]"
    "lru_capacity ?w = lru_capacity u" "lru_index ?w = lru_index u"
    by (simp_all add: slot_clear_def freelist_push_def cleared_def)
  have same: "slot_of ?w i = slot_of u i" if "i \<in> set order'" for i
  proof -
    have "i \<noteq> x" using that r by (auto simp: lru_rep_defs)
    then show ?thesis by (simp add: sl(1) del: put_failed_simps)
  qed
  then have vw: "view ?w order' = view u order'" by (intro view_cong) blast
  show ?thesis
  proof (rule put_full_result [OF give_back [OF r v] none])
    show "aevict (view s order) (view ?w order') ds" using ev by (simp only: vw)
    show "lru_destroyed ?w = lru_destroyed s @ ds @ [v]" using d by (simp only: sl(2)) simp
    show "put_frame s ?w" using f put_frame_slot [OF r sl(1,3,4)] by (rule put_frame_trans)
    show "\<forall>i\<in>set order'. 0 < e_refcount (slot_of ?w i)" using full same by (simp del: put_failed_simps)
  qed
qed

lemma lru_rep_length: "lru_rep s order free X \<Longrightarrow> length order \<le> lru_capacity s"
  using lru_repD(5,7) by (metis card_lessThan card_mono distinct_card finite_lessThan)

lemma put_new_result:
  assumes r: "lru_rep s order free {}" and none: "\<forall>i\<in>set order. \<not> entry_matches eq (slot_of s i) h k"
    and miss: "index_lookup eq s h k = LRU_NIL"
  shows "\<exists>t r. lru_put eq s h k (Some v) = Some (t, r) \<and> put_result eq s order h k v t r"
proof -
  have "2 \<le> Suc (Suc (lru_capacity s))" by simp
  with r show ?thesis
  proof (cases rule: put_alloc_result)
    case full
    have rep: "lru_rep (put_failed s (Some v)) order free {}" by (rule lru_rep_cong [OF r]) simp_all
    have ev: "aevict (view s order) (view (put_failed s (Some v)) order) []" by (simp add: aevict.none)
    have "put_result eq s order h k v (put_failed s (Some v)) None"
      by (rule put_full_result [OF rep none ev]) (use full(1) in \<open>simp_all add: put_failed_frame\<close>)
    with miss full(2) show ?thesis by (simp add: lru_put_def)
  next
    case (slot t x order' free' ds)
    let ?e = "\<lparr>e_hash = h, e_value = Some v, e_refcount = 0\<rparr>"
    let ?u = "t\<lparr>lru_slots := (lru_slots t)[x := ?e]\<rparr>"
    note w = write_new_slot [OF slot(2), of ?e]
    have fu: "put_frame s ?u" using slot(5) put_frame_slot [OF slot(2)] by (rule put_frame_trans) simp_all
    have len: "length order' < Suc (lru_capacity ?u)" using lru_rep_length [OF slot(2)] by simp
    have put: "lru_put eq s h k (Some v) = (case put_insert_loop (Suc (lru_capacity ?u)) ?u x of
         None \<Rightarrow> None | Some (self, False) \<Rightarrow> Some (self, None)
       | Some (self, True) \<Rightarrow> Some (self\<lparr>lru_links := list_push_front (lru_links self) Lru_Order (Slot_Link x),
           lru_size := lru_size self + 1, lru_counters := (lru_counters self)\<lparr>c_insertions := c_insertions (lru_counters self) + 1\<rparr>\<rparr>, Some x))"
      using miss slot(1) by (simp add: lru_put_def Let_def del: put_insert_loop.simps put_alloc_loop.simps
          split: option.split prod.split bool.split)
    have xu: "slot_of ?u x = ?e" using w(3) by simp
    from put_insert_loop_result [OF w(1) len, of v] xu consider
        (placed) t' o' f' ds' where "put_insert_loop (Suc (lru_capacity ?u)) ?u x = Some (t', True)"
          "lru_ready t' o' f' x" "put_trace ?u order' x t' o' ds'"
      | (failed) u' o' f' ds' where "put_insert_loop (Suc (lru_capacity ?u)) ?u x =
            Some (put_failed (freelist_push (slot_clear u' x) x) (Some v), False)"
          "lru_rep u' o' f' {x}" "put_trace ?u order' x u' o' ds'" "\<forall>i\<in>set o'. e_refcount (slot_of u' i) > 0"
      unfolding Let_def by auto
    then show ?thesis
    proof cases
      case placed
      note P = placed(3) [unfolded put_trace_def w(2)]
      have ev: "aevict (view s order) (view t' o') (ds @ ds')" using slot(3) P by (blast intro: aevict_trans)
      have "put_result eq s order h k v (t'\<lparr>lru_links := list_push_front (lru_links t') Lru_Order (Slot_Link x),
           lru_size := lru_size t' + 1, lru_counters := (lru_counters t')\<lparr>c_insertions := c_insertions (lru_counters t') + 1\<rparr>\<rparr>) (Some x)"
        by (rule put_placed_result [OF placed(2) none ev _ _ _ refl])
          (use P slot(4) xu put_frame_trans [OF fu] in auto)
      then show ?thesis using put placed(1) by simp
    next
      case failed
      note P = failed(3) [unfolded put_trace_def w(2)]
      have "put_result eq s order h k v (put_failed (freelist_push (slot_clear u' x) x) (Some v)) None"
      proof (rule put_given_back_result [OF failed(2) none _ _ _ failed(4)])
        show "aevict (view s order) (view u' o') (ds @ ds')" using slot(3) P by (blast intro: aevict_trans)
        show "put_frame s u'" using fu P by (blast intro: put_frame_trans)
      qed (use P xu slot(4) in auto)
      then show ?thesis using put failed(1) by simp
    qed
  qed
qed

lemma lru_put_result:
  assumes r: "lru_rep s order free {}"
  shows "\<exists>t r. lru_put eq s h k (Some v) = Some (t, r) \<and> put_result eq s order h k v t r"
  using r
proof (cases rule: lookup_cases [where eq = eq and h = h and k = k])
  case (hit i)
  from r hit(1) obtain w where w: "e_value (slot_of s i) = Some w" by (auto simp: lru_rep_defs)
  show ?thesis
  proof (cases "e_refcount (slot_of s i) = 0")
    case True
    have "lru_put eq s h k (Some v) = Some (replaced s i v ((lru_counters s)\<lparr>c_replacements := c_replacements (lru_counters s) + 1\<rparr>)
        (lru_destroyed s @ [w]), Some i)"
      using hit True w by (simp add: lru_put_def Let_def lru_call_destroy_def replaced_def)
    then show ?thesis using put_replaced_result [OF r hit(1,2) True w] by simp
  next
    case False
    then have "lru_put eq s h k (Some v) = Some (put_failed s (Some v), None)"
      using hit by (simp add: lru_put_def)
    then show ?thesis using put_refused_result [OF r hit(1,2)] False by simp
  qed
next
  case miss
  then show ?thesis by (intro put_new_result [OF r])
qed

end
