(* ===== verification/Lru_Api.thy ===== *)
theory Lru_Api
  imports Lru_Correct
begin

text \<open>
  The public operations of the LRU cache of src/src/util/lru.c against their specification: creation,
  get, peek, put, pinning, destruction and statistics. \<open>lru_run\<close> is any sequence of calls on a fresh
  cache; its invariants say that every call returns, that each value handed over is either live or has
  been destroyed exactly once, and that a pinned entry is never evicted, replaced or moved. The locale
  \<open>entry_store\<close> is the contract on which the prefetch cache relies; the LRU cache interprets it.
\<close>

section \<open>Facts about the abstract put\<close>

lemma aput_values: "aput eq as h k v as' r ds \<Longrightarrow> live_values as + {#v#} = live_values as' + mset ds"
  by (induction rule: aput.induct) (auto simp: live_values_def dest: aevict_values)

lemma aput_keeps_pinned:
  "aput eq as h k v as' r ds \<Longrightarrow> ie \<in> set as \<Longrightarrow> e_refcount (snd ie) > 0 \<Longrightarrow> ie \<in> set as'"
  by (induction rule: aput.induct) (auto dest: aevict_keeps_pinned)

lemma aput_new:
  assumes "aput eq as h k v as' (Some i) ds"
  shows "hd as' = (i, \<lparr>e_hash = h, e_value = Some v, e_refcount = 0\<rparr>)" and "as' \<noteq> []"
proof -
  have *: "hd as' = (i, \<lparr>e_hash = h, e_value = Some v, e_refcount = 0\<rparr>) \<and> as' \<noteq> []"
    if "aput eq as h k v as' r ds" "r = Some i" for r
    using that by (induction rule: aput.induct) (auto simp: amatch_def entry_matches_def)
  from * [OF assms] show "hd as' = (i, \<lparr>e_hash = h, e_value = Some v, e_refcount = 0\<rparr>)" and "as' \<noteq> []" by auto
qed

lemma aput_old:
  assumes "aput eq as h k v as' r ds" and "ie \<in> set as'" and "r \<noteq> Some (fst ie)"
  shows "ie \<in> set as"
  using assms by (induction rule: aput.induct) (auto dest: aevict_subset)

lemma aput_none:
  assumes "aput eq as h k v as' None ds"
  shows "(\<exists>ie\<in>set as. amatch eq h k ie \<and> e_refcount (snd ie) > 0) \<or> (\<forall>ie\<in>set as'. e_refcount (snd ie) > 0)"
proof -
  have "(\<exists>ie\<in>set as. amatch eq h k ie \<and> e_refcount (snd ie) > 0) \<or> (\<forall>ie\<in>set as'. e_refcount (snd ie) > 0)"
    if "aput eq as h k v as' r ds" "r = None" for r
    using that by (induction rule: aput.induct) auto
  with assms show ?thesis by blast
qed

section \<open>Creation\<close>

lemma next_pow2_ge_correct:
  assumes "0 < v" and "v \<le> 2 ^ 31"
  obtains k where "next_pow2_ge v = 2 ^ k" and "v \<le> 2 ^ k" and "1 \<le> k" and "k \<le> 31"
    and "2 < v \<Longrightarrow> 2 ^ k < 2 * v"
proof (cases "v < 3")
  case True
  with assms have "v = 1 \<or> v = 2" by auto
  then have "next_pow2_ge v = 2 ^ 1" by (auto simp: next_pow2_ge_def u32_add_def)
  with True show thesis by (intro that [of 1]) auto
next
  case False
  obtain k where k: "2 ^ k \<le> v - 1" "v - 1 < 2 ^ Suc k" using pow2_bracket [of "v - 1"] False by auto
  have "k < 31"
  proof (rule ccontr)
    assume "\<not> k < 31"
    then have "(2 :: nat) ^ 31 \<le> 2 ^ k" by (intro power_increasing) auto
    with k(1) assms False show False by linarith
  qed
  then have k31: "Suc k \<le> 31" by simp
  have s: "smeared (Suc k) (2 * (2 * (2 * (2 * (2 * 1))))) w" if
    "w = (let v = v - 1; v = v OR drop_bit 1 v; v = v OR drop_bit (2 * 1) v;
             v = v OR drop_bit (2 * (2 * 1)) v; v = v OR drop_bit (2 * (2 * (2 * 1))) v
         in v OR drop_bit (2 * (2 * (2 * (2 * 1)))) v)" for w
    unfolding that Let_def by (intro smeared_step smeared_start k)
  have "next_pow2_ge v = u32_add (2 ^ Suc k - 1) 1"
    using smeared_full [OF s [OF refl]] k31 False by (simp add: next_pow2_ge_def Let_def)
  moreover have "(2 :: nat) ^ Suc k \<le> 2 ^ 31" using k31 by (intro power_increasing) auto
  ultimately have "next_pow2_ge v = 2 ^ Suc k" by (simp add: u32_add_def)
  then show thesis using k k31 by (intro that [of "Suc k"]) auto
qed

lemma is_list_list_init:
  assumes "is_list lk s xs" and "i \<notin> set xs"
  shows "is_list (list_init lk (Slot_Link i)) s xs"
  by (rule is_list_frame [OF assms(1)])
    (use assms in \<open>auto simp: list_init_def Let_def dest: is_list_sentinel\<close>)

lemma seed_freelist_lists:
  assumes "is_list lk Free_List xs" and "is_list lk Lru_Order []" and "set xs = {..<i}"
  shows "is_list (seed_freelist n i lk) Free_List (rev [i..<i + n] @ xs) \<and>
         is_list (seed_freelist n i lk) Lru_Order []"
  using assms
proof (induction n arbitrary: i lk xs)
  case (Suc n)
  let ?lk = "list_push_front (list_init lk (Slot_Link i)) Free_List (Slot_Link i)"
  have l: "is_list (list_init lk (Slot_Link i)) Free_List xs" "is_list (list_init lk (Slot_Link i)) Lru_Order []"
    by (rule is_list_list_init; simp add: Suc.prems)+
  have "is_list ?lk Free_List (i # xs)" by (rule is_list_push_front [OF l(1)]) (simp add: Suc.prems(3))
  moreover have "is_list ?lk Lru_Order []" by (rule is_list_push_front_other [OF l(1) _ l(2)]) simp_all
  moreover have "set (i # xs) = {..<i + 1}" by (simp add: Suc.prems(3) lessThan_Suc)
  ultimately have "is_list (seed_freelist (Suc n) i lk) Free_List (rev [i + 1..<i + 1 + n] @ i # xs) \<and>
      is_list (seed_freelist (Suc n) i lk) Lru_Order []"
    using Suc.IH [of ?lk "i # xs" "i + 1"] by simp
  moreover have "[i..<i + Suc n] = i # [i + 1..<i + 1 + n]" by (simp add: upt_rec)
  ultimately show ?case by simp
qed simp

lemma lru_create_rep:
  assumes "lru_create True cap max_probe = Some s" and "cap \<le> 2 ^ 30"
  shows "lru_rep s [] (rev [0..<cap]) {}" and "lru_destroyed s = []"
proof -
  from assms(1) have cap: "0 < cap" by (auto simp: lru_create_def split: if_splits)
  have "u32_mul 2 cap = 2 * cap" using assms(2) by (simp add: u32_mul_def)
  moreover obtain k where k: "next_pow2_ge (2 * cap) = 2 ^ k" "2 * cap \<le> 2 ^ k" "1 \<le> k" "k \<le> 31"
    using next_pow2_ge_correct [of "2 * cap"] cap assms(2) by auto
  moreover have "u32_sub (2 ^ k) 1 = 2 ^ k - 1"
  proof -
    have "(2 :: nat) ^ k \<le> 2 ^ 31" using k(4) by (intro power_increasing) auto
    then show ?thesis by (intro u32_sub_exact) (auto simp: one_le_power)
  qed
  moreover define lk where "lk = list_init (list_init \<lparr>prev = (\<lambda>n. n), nxt = (\<lambda>n. n)\<rparr> Lru_Order) Free_List"
  ultimately have s: "lru_slots s = replicate cap \<lparr>e_hash = 0, e_value = None, e_refcount = 0\<rparr>"
    "lru_capacity s = cap" "lru_size s = 0" "cells_of s = replicate (2 ^ k) LRU_NIL" "ncells s = 2 ^ k"
    "ix_mask (lru_index s) = 2 ^ k - 1" "lru_links s = seed_freelist cap 0 lk" "lru_destroyed s = []"
    using assms(1) by (auto simp: lru_create_def Let_def split: if_splits)
  then show "lru_destroyed s = []" by simp
  have "geom s" unfolding geom_def using k cap by (auto simp: s)
  moreover have "is_list lk Free_List []" "is_list lk Lru_Order []"
    by (auto simp: is_list_def lk_def list_init_def Let_def)
  from seed_freelist_lists [OF this, of 0 cap] have
    "is_list (lru_links s) Free_List (rev [0..<cap])" "is_list (lru_links s) Lru_Order []"
    by (simp_all add: s)
  moreover have "index_ok s {}" unfolding index_ok_def by (simp add: s)
  ultimately show "lru_rep s [] (rev [0..<cap]) {}" unfolding lru_rep_defs by (auto simp: s)
qed

lemma lru_create_inv: "lru_create True cap max_probe = Some s \<Longrightarrow> cap \<le> 2 ^ 30 \<Longrightarrow> lru_inv s"
  unfolding lru_inv_def by (blast dest: lru_create_rep(1))

section \<open>Get and peek\<close>

lemma lru_get_hit:
  assumes r: "lru_rep s order free {}" and i: "i \<in> set order" "index_lookup eq s h k \<noteq> LRU_NIL"
    "cells_of s ! index_lookup eq s h k = i"
  obtains t us ws where "lru_get eq s h k = (t, Some i)" and "lru_rep t (i # us @ ws) free {}"
    and "order = us @ i # ws" and "lru_slots t = lru_slots s" and "lru_destroyed t = lru_destroyed s"
proof -
  obtain us ws where o: "order = us @ i # ws" "remove1 i order = us @ ws"
    using remove1_split [OF i(1) lru_repD(7) [OF r]] .
  let ?t = "s\<lparr>lru_links := list_promote (lru_links s) Lru_Order (Slot_Link i),
    lru_counters := (lru_counters s)\<lparr>c_hits := c_hits (lru_counters s) + 1\<rparr>\<rparr>"
  have "lru_rep ?t (i # us @ ws) free {}"
    using lru_rep_promote [OF r i(1)] unfolding o(2) by (rule lru_rep_cong) simp_all
  moreover have "lru_get eq s h k = (?t, Some i)" using i by (simp add: lru_get_def Let_def)
  ultimately show thesis using o by (intro that [of ?t us ws]) simp_all
qed

lemma lru_get_miss:
  assumes r: "lru_rep s order free {}" and m: "index_lookup eq s h k = LRU_NIL"
  obtains t where "lru_get eq s h k = (t, None)" and "lru_rep t order free {}"
    and "lru_slots t = lru_slots s" and "lru_destroyed t = lru_destroyed s"
proof -
  let ?t = "s\<lparr>lru_counters := (lru_counters s)\<lparr>c_misses := c_misses (lru_counters s) + 1\<rparr>\<rparr>"
  have "lru_rep ?t order free {}" by (rule lru_rep_cong [OF r]) simp_all
  with m show thesis by (intro that [of ?t]) (simp_all add: lru_get_def)
qed

text \<open>What \<open>lru_get\<close> promises of the recency order.\<close>

definition aget :: "('v \<Rightarrow> 'k \<Rightarrow> bool) \<Rightarrow> 'v alru \<Rightarrow> nat \<Rightarrow> 'k \<Rightarrow> 'v alru \<Rightarrow> nat option \<Rightarrow> bool" where
  "aget eq as h k as' r \<longleftrightarrow>
     (case r of
        None \<Rightarrow> as' = as \<and> (\<forall>ie\<in>set as. \<not> amatch eq h k ie)
      | Some i \<Rightarrow> \<exists>xs e ys. as = xs @ (i, e) # ys \<and> amatch eq h k (i, e) \<and> as' = (i, e) # xs @ ys)"

lemma aget_hit:
  assumes "aget eq as h k as' r" and "ie \<in> set as" and "amatch eq h k ie"
  shows "\<exists>j e. r = Some j \<and> (j, e) \<in> set as \<and> amatch eq h k (j, e) \<and> (j, e) \<in> set as'"
proof (cases r)
  case None
  with assms show ?thesis by (auto simp: aget_def)
next
  case (Some j)
  with assms(1) obtain xs e ys where "as = xs @ (j, e) # ys" "amatch eq h k (j, e)" "as' = (j, e) # xs @ ys"
    by (auto simp: aget_def)
  with Some show ?thesis by (intro exI [of _ j] exI [of _ e]) simp
qed

lemma view_append [simp]: "view s (xs @ ys) = view s xs @ view s ys"
  by (simp add: view_def)

lemma view_simps [simp]: "view s [] = []" "view s (i # xs) = (i, slot_of s i) # view s xs"
  by (simp_all add: view_def)

lemma lru_get_result:
  assumes "lru_inv s"
  obtains t r where "lru_get eq s h k = (t, r)" and "lru_inv t" and "lru_destroyed t = lru_destroyed s"
    and "aget eq (recency s) h k (recency t) r"
proof -
  from assms obtain order free where r: "lru_rep s order free {}" by (auto simp: lru_inv_def)
  have slots: "view t xs = view s xs" if "lru_slots t = lru_slots s" for t xs
    using that by (simp add: view_def)
  from r show thesis
  proof (cases rule: lookup_cases [where eq = eq and h = h and k = k])
    case (hit i)
    obtain t us ws where t: "lru_get eq s h k = (t, Some i)" "lru_rep t (i # us @ ws) free {}"
      "order = us @ i # ws" "lru_slots t = lru_slots s" "lru_destroyed t = lru_destroyed s"
      using lru_get_hit [OF r hit(1,3,4)] .
    have "aget eq (recency s) h k (recency t) (Some i)"
      unfolding lru_rep_recency [OF r] lru_rep_recency [OF t(2)] slots [OF t(4)] t(3) aget_def
      unfolding option.case by (intro exI [of _ "view s us"] exI [of _ "slot_of s i"] exI [of _ "view s ws"])
        (use hit(2) in \<open>simp add: amatch_def\<close>)
    with t show thesis by (intro that) (auto simp: lru_inv_def)
  next
    case miss
    obtain t where t: "lru_get eq s h k = (t, None)" "lru_rep t order free {}"
      "lru_slots t = lru_slots s" "lru_destroyed t = lru_destroyed s"
      using lru_get_miss [OF r miss(1)] .
    have "aget eq (recency s) h k (recency t) None"
      unfolding lru_rep_recency [OF r] lru_rep_recency [OF t(2)] slots [OF t(3)] aget_def
      using miss(2) by (simp add: view_all_iff amatch_def)
    with t show thesis by (intro that) (auto simp: lru_inv_def)
  qed
qed

section \<open>Pinning\<close>

text \<open>The pin count of entry \<open>i\<close> changes by \<open>f\<close>, nothing else.\<close>

definition apin :: "nat \<Rightarrow> (nat \<Rightarrow> nat) \<Rightarrow> 'v alru \<Rightarrow> 'v alru" where
  "apin i f as = map (\<lambda>(j, e). (j, if j = i then e\<lparr>e_refcount := f (e_refcount e)\<rparr> else e)) as"

lemma apin_live_values [simp]: "live_values (apin i f as) = live_values as"
  unfolding live_values_def apin_def by (simp add: comp_def case_prod_unfold if_distrib cong: if_cong)

lemma set_refcount_result:
  assumes "lru_inv s" and t: "t = s\<lparr>lru_slots := (lru_slots s)[i := (slot_of s i)\<lparr>e_refcount := f (e_refcount (slot_of s i))\<rparr>]\<rparr>"
  shows "lru_inv t" and "recency t = apin i f (recency s)" and "lru_destroyed t = lru_destroyed s"
proof -
  from assms(1) obtain order free where r: "lru_rep s order free {}" by (auto simp: lru_inv_def)
  have r': "lru_rep t order free {}"
    unfolding t by (rule lru_rep_update_slot [OF r]) (use r in \<open>auto simp: lru_rep_defs\<close>)
  then show "lru_inv t" by (auto simp: lru_inv_def)
  have "slot_of t j = (if j = i then (slot_of s j)\<lparr>e_refcount := f (e_refcount (slot_of s j))\<rparr> else slot_of s j)"
    if "j \<in> set order" for j
    using that lru_repD(1,5) [OF r] by (auto simp: t geom_def nth_list_update)
  then show "recency t = apin i f (recency s)"
    unfolding lru_rep_recency [OF r] lru_rep_recency [OF r'] view_def apin_def by simp
  show "lru_destroyed t = lru_destroyed s" by (simp add: t)
qed

lemma lru_entry_acquire_result:
  assumes "lru_inv s"
  shows "lru_inv (lru_entry_acquire_locked s (Some i))"
    and "recency (lru_entry_acquire_locked s (Some i)) = apin i (\<lambda>n. u32_add n 1) (recency s)"
    and "lru_destroyed (lru_entry_acquire_locked s (Some i)) = lru_destroyed s"
  using set_refcount_result [OF assms refl, of i "\<lambda>n. u32_add n 1"]
  by (simp_all add: lru_entry_acquire_locked_def)

lemma lru_entry_release_result:
  assumes "lru_inv s"
  shows "lru_inv (lru_entry_release s (Some i))"
    and "recency (lru_entry_release s (Some i)) = apin i (\<lambda>n. n - 1) (recency s)"
    and "lru_destroyed (lru_entry_release s (Some i)) = lru_destroyed s"
proof -
  have "(lru_slots s)[i := (slot_of s i)\<lparr>e_refcount := 0\<rparr>] = lru_slots s" if "e_refcount (slot_of s i) = 0"
    using that by (metis list_update_id lru_entry.surjective lru_entry.update_convs(3))
  then have "lru_entry_release s (Some i) =
      s\<lparr>lru_slots := (lru_slots s)[i := (slot_of s i)\<lparr>e_refcount := e_refcount (slot_of s i) - 1\<rparr>]\<rparr>"
    by (simp add: lru_entry_release_def Let_def)
  from set_refcount_result [OF assms, of _ i "\<lambda>n. n - 1", OF this] show "lru_inv (lru_entry_release s (Some i))"
    "recency (lru_entry_release s (Some i)) = apin i (\<lambda>n. n - 1) (recency s)"
    "lru_destroyed (lru_entry_release s (Some i)) = lru_destroyed s" by simp_all
qed

section \<open>Put\<close>

lemma lru_put_refined:
  assumes "lru_inv s"
  obtains t r ds where "lru_put eq s h k (Some v) = Some (t, r)" and "lru_inv t"
    and "aput eq (recency s) h k v (recency t) r ds" and "lru_destroyed t = lru_destroyed s @ ds"
    and "put_frame s t"
proof -
  from assms obtain order free where r: "lru_rep s order free {}" by (auto simp: lru_inv_def)
  from lru_put_result [OF r, of eq h k v] obtain t res where
    p: "lru_put eq s h k (Some v) = Some (t, res)" "put_result eq s order h k v t res" by blast
  from p(2) obtain order' free' ds where t: "lru_put eq s h k (Some v) = Some (t, res)" "lru_rep t order' free' {}"
    "aput eq (view s order) h k v (view t order') res ds" "lru_destroyed t = lru_destroyed s @ ds" "put_frame s t"
    unfolding put_result_def using p(1) by (elim exE conjE) (rule that)
  have "lru_inv t" unfolding lru_inv_def using t(2) by blast
  with t show thesis by (intro that) (simp_all only: lru_rep_recency [OF r] lru_rep_recency [OF t(2)])
qed

lemma recency_indexed:
  assumes "lru_inv s" and "(i, e) \<in> set (recency s)"
  obtains c where "c < ncells s" and "cells_of s ! c = i" and "slot_of s i = e" and "i \<noteq> LRU_NIL"
    and "i < lru_capacity s" and "e_value e \<noteq> None"
proof -
  from assms(1) obtain order free where r: "lru_rep s order free {}" by (auto simp: lru_inv_def)
  from assms(2) have i: "i \<in> set order" "slot_of s i = e" unfolding lru_rep_recency [OF r] by (auto simp: view_def)
  from lru_repD(4) [OF r] i obtain c where "c < ncells s" "cells_of s ! c = i" by (auto simp: index_ok_def)
  with i lru_rep_nil [OF r] lru_repD(5) [OF r] r show thesis by (intro that [of c]) (auto simp: lru_rep_defs)
qed

lemma recency_distinct: "lru_inv s \<Longrightarrow> distinct (map fst (recency s))"
proof -
  assume "lru_inv s"
  then obtain order free where r: "lru_rep s order free {}" by (auto simp: lru_inv_def)
  from lru_repD(7) [OF r] show ?thesis by (simp add: lru_rep_recency [OF r] view_def comp_def)
qed

section \<open>Destruction and statistics\<close>

lemma fold_call_destroy:
  assumes "\<forall>n\<in>set ns. f n \<noteq> None"
  shows "lru_destroyed (fold (\<lambda>n s. lru_call_destroy s (f n)) ns s) = lru_destroyed s @ map (the \<circ> f) ns"
  using assms by (induction ns arbitrary: s) (auto simp: lru_call_destroy_def)

lemma count_pinned_view:
  "count_pinned s (map Slot_Link order) = length (filter (\<lambda>ie. e_refcount (snd ie) > 0) (view s order))"
  by (induction order) (auto simp: count_pinned_def)

definition pinned :: "'v alru \<Rightarrow> 'v alru" where
  "pinned as = filter (\<lambda>ie. e_refcount (snd ie) > 0) as"

lemma lru_destroy_result:
  assumes "lru_inv s"
  shows "lru_destroy s = Some (if pinned (recency s) = []
           then Inr (lru_destroyed s @ map (\<lambda>ie. the (e_value (snd ie))) (recency s)) else Inl ())"
proof -
  from assms obtain order free where r: "lru_rep s order free {}" by (auto simp: lru_inv_def)
  have "\<forall>n\<in>set (map Slot_Link order). e_value (slot_of s (link_to_entry n)) \<noteq> None" using r by (auto simp: lru_rep_defs)
  note * = fold_call_destroy [OF this, of s]
  show ?thesis unfolding lru_destroy_def lru_rep_walk [OF r] lru_rep_recency [OF r]
    using * by (simp add: count_pinned_view pinned_def) (simp add: view_def comp_def)
qed

lemma lru_stats_result:
  assumes "lru_inv s"
  shows "lru_stats_get s = Some \<lparr>st_counters = lru_counters s, st_size = length (recency s),
           st_capacity = lru_capacity s, st_pinned = length (pinned (recency s)),
           st_max_probe_observed = ix_max_probe_observed (lru_index s)\<rparr>"
proof -
  from assms obtain order free where r: "lru_rep s order free {}" by (auto simp: lru_inv_def)
  from lru_repD(9) [OF r] show ?thesis unfolding lru_stats_get_def lru_rep_walk [OF r] lru_rep_recency [OF r]
    by (simp add: count_pinned_view pinned_def) (simp add: view_def)
qed

section \<open>Runs\<close>

text \<open>\<open>lru_run eq s vs\<close>: a sequence of calls on a fresh cache leads to \<open>s\<close>, and \<open>vs\<close> are the values handed to
  \<open>lru_put\<close> on the way.\<close>

inductive lru_run :: "('v \<Rightarrow> 'k \<Rightarrow> bool) \<Rightarrow> 'v lru \<Rightarrow> 'v list \<Rightarrow> bool" for eq where
  create: "lru_create True cap max_probe = Some s \<Longrightarrow> cap \<le> 2 ^ 30 \<Longrightarrow> lru_run eq s []"
| get: "lru_run eq s vs \<Longrightarrow> lru_get eq s h k = (t, r) \<Longrightarrow> lru_run eq t vs"
| put: "lru_run eq s vs \<Longrightarrow> lru_put eq s h k (Some v) = Some (t, r) \<Longrightarrow> lru_run eq t (vs @ [v])"
| acquire: "lru_run eq s vs \<Longrightarrow> lru_run eq (lru_entry_acquire_locked s (Some i)) vs"
| release: "lru_run eq s vs \<Longrightarrow> lru_run eq (lru_entry_release s (Some i)) vs"

definition lru_owned :: "'v lru \<Rightarrow> 'v multiset" where
  "lru_owned s = live_values (recency s)"

lemma aget_live_values: "aget eq as h k as' r \<Longrightarrow> live_values as' = live_values as"
  by (auto simp: aget_def live_values_def split: option.splits)

lemma lru_run_step_values:
  assumes "lru_run eq s vs"
  shows "lru_inv s \<and> mset vs = lru_owned s + mset (lru_destroyed s)"
  using assms
proof induction
  case (create cap max_probe s)
  then have r: "lru_rep s [] (rev [0..<cap]) {}" "lru_destroyed s = []" by (rule lru_create_rep)+
  then have "recency s = []" using lru_rep_recency by fastforce
  with r create show ?case by (simp add: lru_owned_def live_values_def lru_create_inv)
next
  case (get s vs h k t r)
  then have i: "lru_inv s" by simp
  obtain t' r' where "lru_get eq s h k = (t', r')" "lru_inv t'" "lru_destroyed t' = lru_destroyed s"
    "aget eq (recency s) h k (recency t') r'" using lru_get_result [OF i] .
  with get show ?case by (simp add: lru_owned_def aget_live_values)
next
  case (put s vs h k v t r)
  then have i: "lru_inv s" by simp
  obtain t' r' ds where "lru_put eq s h k (Some v) = Some (t', r')" "lru_inv t'"
    "aput eq (recency s) h k v (recency t') r' ds" "lru_destroyed t' = lru_destroyed s @ ds"
    using lru_put_refined [OF i] .
  with put show ?case by (auto simp: lru_owned_def dest!: aput_values)
next
  case (acquire s vs i)
  then show ?case by (simp add: lru_owned_def lru_entry_acquire_result)
next
  case (release s vs i)
  then show ?case by (simp add: lru_owned_def lru_entry_release_result)
qed

section \<open>Keys\<close>

text \<open>At most one live entry matches any hash and key.\<close>

definition keys_unique :: "('v \<Rightarrow> 'k \<Rightarrow> bool) \<Rightarrow> 'v alru \<Rightarrow> bool" where
  "keys_unique eq as \<longleftrightarrow>
     (\<forall>h k. \<forall>ie\<in>set as. \<forall>je\<in>set as. amatch eq h k ie \<longrightarrow> amatch eq h k je \<longrightarrow> fst ie = fst je)"

lemma keys_unique_subset: "keys_unique eq as \<Longrightarrow> set bs \<subseteq> set as \<Longrightarrow> keys_unique eq bs"
  unfolding keys_unique_def by blast

lemma keys_unique_cons:
  assumes "keys_unique eq as" and "\<And>h' k' je. amatch eq h' k' (i, e) \<Longrightarrow> je \<in> set as \<Longrightarrow> amatch eq h' k' je \<Longrightarrow> i = fst je"
  shows "keys_unique eq ((i, e) # as)"
  unfolding keys_unique_def
proof (intro allI ballI impI)
  fix h k ie je
  assume "ie \<in> set ((i, e) # as)" "je \<in> set ((i, e) # as)" and m: "amatch eq h k ie" "amatch eq h k je"
  then consider "ie = je" | "ie = (i, e)" "je \<in> set as" | "je = (i, e)" "ie \<in> set as" | "ie \<in> set as" "je \<in> set as"
    by auto
  then show "fst ie = fst je"
  proof cases
    case 2
    with m assms(2) [of h k je] show ?thesis by simp
  next
    case 3
    with m assms(2) [of h k ie] show ?thesis by simp
  next
    case 4
    with m assms(1) show ?thesis unfolding keys_unique_def by blast
  qed simp
qed

lemma keys_uniqueD:
  assumes "keys_unique eq as" and "(i, e) \<in> set as" and "(j, e') \<in> set as" and "amatch eq h k (i, e)"
    and "amatch eq h k (j, e')"
  shows "i = j"
  using assms unfolding keys_unique_def by (metis fst_conv)

lemma amatch_key:
  assumes eq: "\<And>w k. eq w k \<longleftrightarrow> key_of w = k" and v: "key_of v = k"
    and m: "amatch eq h' k' (i, \<lparr>e_hash = h, e_value = Some v, e_refcount = 0\<rparr>)"
  shows "h' = h \<and> k' = k"
  using m v by (auto simp: amatch_def entry_matches_def eq)

lemma aput_keys_unique:
  assumes eq: "\<And>w k. eq w k \<longleftrightarrow> key_of w = k" and v: "key_of v = k"
    and p: "aput eq as h k v as' r ds" and u: "keys_unique eq as"
  shows "keys_unique eq as'"
  using p
proof cases
  case (replace i e w xs ys)
  let ?e = "\<lparr>e_hash = h, e_value = Some v, e_refcount = 0\<rparr>"
  have e: "e\<lparr>e_value := Some v\<rparr> = ?e" using replace by (auto simp: amatch_def entry_matches_def)
  have "keys_unique eq (xs @ ys)" by (rule keys_unique_subset [OF u]) (auto simp: replace)
  moreover have "i = fst je" if "amatch eq h' k' (i, ?e)" "je \<in> set (xs @ ys)" "amatch eq h' k' je" for h' k' je
  proof -
    from amatch_key [where eq = eq, OF eq v that(1)] have "h' = h" "k' = k" by auto
    with u that(2,3) replace show ?thesis unfolding keys_unique_def by (metis fst_conv in_set_conv_decomp set_append Un_iff list.set_intros)
  qed
  ultimately show ?thesis unfolding replace e by (intro keys_unique_cons)
next
  case (insert bs n)
  note sub = aevict_subset [OF insert(4)]
  have "i = fst je" if "amatch eq h' k' (i, \<lparr>e_hash = h, e_value = Some v, e_refcount = 0\<rparr>)" "je \<in> set bs"
    "amatch eq h' k' je" for h' k' je i
    using amatch_key [where eq = eq, OF eq v that(1)] that(2,3) insert(3) sub by blast
  then show ?thesis unfolding insert(1) by (intro keys_unique_cons keys_unique_subset [OF u sub])
next
  case full
  then show ?thesis by (auto intro: keys_unique_subset [OF u] dest: aevict_subset)
qed (simp add: u)

section \<open>The contract of the cache for its clients\<close>

text \<open>\<open>live s i\<close> is the hash, value and pin count of entry \<open>i\<close>; \<open>owned s\<close> are the values the store is responsible
  for and \<open>destroyed s\<close> those it has handed to the destroy callback.\<close>

locale entry_store =
  fixes inv :: "'s \<Rightarrow> bool" and live :: "'s \<Rightarrow> nat \<Rightarrow> (nat \<times> 'v \<times> nat) option"
    and owned :: "'s \<Rightarrow> 'v multiset" and destroyed :: "'s \<Rightarrow> 'v list"
    and get :: "('v \<Rightarrow> 'k \<Rightarrow> bool) \<Rightarrow> 's \<Rightarrow> nat \<Rightarrow> 'k \<Rightarrow> 's \<times> nat option"
    and put :: "('v \<Rightarrow> 'k \<Rightarrow> bool) \<Rightarrow> 's \<Rightarrow> nat \<Rightarrow> 'k \<Rightarrow> 'v \<Rightarrow> ('s \<times> nat option) option"
    and acquire :: "'s \<Rightarrow> nat \<Rightarrow> 's" and release :: "'s \<Rightarrow> nat \<Rightarrow> 's"
  assumes live_owned: "inv s \<Longrightarrow> set_mset (owned s) = {v. \<exists>i h n. live s i = Some (h, v, n)}"
    and live_inj: "inv s \<Longrightarrow> live s i = Some (h, v, n) \<Longrightarrow> live s j = Some (h', v, n') \<Longrightarrow> count (owned s) v \<le> 1 \<Longrightarrow> i = j"
    and get_ok: "inv s \<Longrightarrow> get eq s h k = (t, r) \<Longrightarrow>
      inv t \<and> live t = live s \<and> owned t = owned s \<and> destroyed t = destroyed s \<and>
      (case r of None \<Rightarrow> \<forall>i v n. live s i = Some (h, v, n) \<longrightarrow> \<not> eq v k
       | Some i \<Rightarrow> \<exists>v n. live s i = Some (h, v, n) \<and> eq v k)"
    and put_ok: "inv s \<Longrightarrow> \<exists>t r ds. put eq s h k v = Some (t, r) \<and> inv t \<and> destroyed t = destroyed s @ ds \<and>
      owned s + {#v#} = owned t + mset ds \<and>
      (\<forall>i e. live s i = Some e \<and> snd (snd e) > 0 \<longrightarrow> live t i = Some e) \<and>
      (\<forall>j e. live t j = Some e \<and> r \<noteq> Some j \<longrightarrow> live s j = Some e) \<and>
      (\<forall>i. r = Some i \<longrightarrow> live t i = Some (h, v, 0))"
    and put_none: "inv s \<Longrightarrow> put eq s h k v = Some (t, None) \<Longrightarrow>
      \<forall>i w n. live s i = Some (h, w, n) \<longrightarrow> \<not> eq w k \<Longrightarrow> \<forall>i e. live t i = Some e \<longrightarrow> snd (snd e) > 0"
    and acquire_ok: "inv s \<Longrightarrow> live s i = Some (h, v, n) \<Longrightarrow> n < UINT32_MAX \<Longrightarrow>
      inv (acquire s i) \<and> live (acquire s i) = (live s)(i \<mapsto> (h, v, Suc n)) \<and> owned (acquire s i) = owned s \<and>
      destroyed (acquire s i) = destroyed s"
    and release_ok: "inv s \<Longrightarrow> live s i = Some (h, v, Suc n) \<Longrightarrow>
      inv (release s i) \<and> live (release s i) = (live s)(i \<mapsto> (h, v, n)) \<and> owned (release s i) = owned s \<and>
      destroyed (release s i) = destroyed s"
begin

text \<open>A put of a fresh value into a store without duplicates: what is destroyed leaves the store.\<close>

lemma put_fresh:
  assumes i: "inv s" and p: "put eq s h k v = Some (t, r)" and nodup: "\<forall>w. count (owned s) w \<le> 1" and new: "v \<notin># owned s"
  obtains ds where "destroyed t = destroyed s @ ds" and "distinct ds" and "set ds \<inter> set_mset (owned t) = {}"
    and "set ds \<union> set_mset (owned t) = insert v (set_mset (owned s))" and "\<forall>w. count (owned t) w \<le> 1"
proof -
  from put_ok [OF i, of eq h k v] p obtain ds where d: "destroyed t = destroyed s @ ds"
    and m: "owned s + {#v#} = owned t + mset ds" by auto
  have c: "count (owned t) w + count (mset ds) w \<le> 1" for w
  proof -
    have "count (owned t) w + count (mset ds) w = count (owned s) w + (if v = w then 1 else 0)"
      using arg_cong [OF m, of "\<lambda>M. count M w"] by (simp split: if_splits)
    then show ?thesis using nodup new by (auto simp: not_in_iff split: if_splits)
  qed
  have pos: "count (mset ds) w = 1 \<and> count (owned t) w = 0" if "w \<in> set ds" for w
  proof -
    have "count (mset ds) w > 0" using that by simp
    with c [of w] show ?thesis by linarith
  qed
  then have "distinct ds" unfolding distinct_count_atmost_1 by (simp add: count_eq_zero_iff)
  moreover have "w \<notin># owned t" if "w \<in> set ds" for w using pos [OF that] by (simp add: not_in_iff)
  moreover have "set ds \<union> set_mset (owned t) = insert v (set_mset (owned s))"
    using arg_cong [OF m, of set_mset] by auto
  moreover have "\<forall>w. count (owned t) w \<le> 1" using c le_add1 le_trans by blast
  ultimately show thesis using d by (intro that) auto
qed

lemma put_keeps_pinned:
  assumes "inv s" and "put eq s h k v = Some (t, r)" and "live s i = Some (h', w, Suc n)"
  shows "live t i = live s i" and "w \<in># owned t"
proof -
  from put_ok [OF assms(1), of eq h k v] assms(2) have "inv t"
    and p: "\<forall>i e. live s i = Some e \<and> snd (snd e) > 0 \<longrightarrow> live t i = Some e" by auto
  with assms(3) have "live t i = Some (h', w, Suc n)" by force
  with assms(3) show "live t i = live s i" by simp
  from live_owned [OF \<open>inv t\<close>] \<open>live t i = Some (h', w, Suc n)\<close> show "w \<in># owned t" by auto
qed

end

text \<open>A store with a bounded number of entries.\<close>

locale bounded_entry_store = entry_store +
  fixes room :: "'a \<Rightarrow> nat"
  assumes owned_room: "inv s \<Longrightarrow> size (owned s) \<le> room s"
    and get_room: "room (fst (get eq s h k)) = room s"
    and put_room: "inv s \<Longrightarrow> put eq s h k v = Some (t, r) \<Longrightarrow> room t = room s"
    and acquire_room: "room (acquire s i) = room s"
    and release_room: "room (release s i) = room s"
begin

lemma put_space:
  assumes "inv s" and "put eq s h k v = Some (t, Some i)"
  shows "card (set_mset (owned t) - {v}) < room s"
proof -
  from put_ok [OF assms(1), of eq h k v] assms(2) have t: "inv t" "live t i = Some (h, v, 0)" by auto
  have v: "v \<in># owned t" using live_owned [OF t(1)] t(2) by blast
  have "card (set_mset (owned t) - {v}) < card (set_mset (owned t))" using v by (intro psubset_card_mono) auto
  also have "\<dots> \<le> size (owned t)" by (simp add: size_multiset_overloaded_eq sum_mono [where g = "count (owned t)", of "set_mset (owned t)" "\<lambda>_. 1", simplified])
  also have "\<dots> \<le> room s" using owned_room [OF t(1)] put_room [OF assms(1,2)] by simp
  finally show ?thesis .
qed

end

definition lru_live :: "'v lru \<Rightarrow> nat \<Rightarrow> (nat \<times> 'v \<times> nat) option" where
  "lru_live s i = map_option (\<lambda>e. (e_hash e, the (e_value e), e_refcount e)) (map_of (recency s) i)"

abbreviation lru_put_value :: "('v \<Rightarrow> 'k \<Rightarrow> bool) \<Rightarrow> 'v lru \<Rightarrow> nat \<Rightarrow> 'k \<Rightarrow> 'v \<Rightarrow> ('v lru \<times> nat option) option" where
  "lru_put_value eq s h k v \<equiv> lru_put eq s h k (Some v)"

abbreviation lru_acquire :: "'v lru \<Rightarrow> nat \<Rightarrow> 'v lru" where
  "lru_acquire s i \<equiv> lru_entry_acquire_locked s (Some i)"

abbreviation lru_release :: "'v lru \<Rightarrow> nat \<Rightarrow> 'v lru" where
  "lru_release s i \<equiv> lru_entry_release s (Some i)"

lemma lru_live_iff:
  assumes "lru_inv s"
  shows "lru_live s i = Some (h, v, n) \<longleftrightarrow> (i, \<lparr>e_hash = h, e_value = Some v, e_refcount = n\<rparr>) \<in> set (recency s)"
proof
  assume "lru_live s i = Some (h, v, n)"
  then obtain e where e: "map_of (recency s) i = Some e" "e_hash e = h" "the (e_value e) = v" "e_refcount e = n"
    by (auto simp: lru_live_def)
  then have "(i, e) \<in> set (recency s)" by (simp add: map_of_SomeD)
  moreover from recency_indexed [OF assms this] e have "e = \<lparr>e_hash = h, e_value = Some v, e_refcount = n\<rparr>" by fastforce
  ultimately show "(i, \<lparr>e_hash = h, e_value = Some v, e_refcount = n\<rparr>) \<in> set (recency s)" by simp
next
  assume "(i, \<lparr>e_hash = h, e_value = Some v, e_refcount = n\<rparr>) \<in> set (recency s)"
  then show "lru_live s i = Some (h, v, n)"
    using recency_distinct [OF assms] by (simp add: lru_live_def)
qed

lemma recency_entry:
  assumes "lru_inv s" and "(i, e) \<in> set (recency s)"
  obtains v where "e = \<lparr>e_hash = e_hash e, e_value = Some v, e_refcount = e_refcount e\<rparr>"
    and "lru_live s i = Some (e_hash e, v, e_refcount e)"
proof -
  from recency_indexed [OF assms] obtain v where "e_value e = Some v" by auto
  then have e: "e = \<lparr>e_hash = e_hash e, e_value = Some v, e_refcount = e_refcount e\<rparr>" by simp
  then have "lru_live s i = Some (e_hash e, v, e_refcount e)"
    unfolding lru_live_iff [OF assms(1)] using assms(2) by metis
  with e show thesis by (rule that)
qed

lemma lru_live_SomeE:
  assumes "lru_inv s" and "lru_live s i = Some e"
  shows "(i, \<lparr>e_hash = fst e, e_value = Some (fst (snd e)), e_refcount = snd (snd e)\<rparr>) \<in> set (recency s)"
  using assms lru_live_iff [of s i "fst e" "fst (snd e)" "snd (snd e)"] by simp

lemma lru_live_owned:
  assumes "lru_inv s"
  shows "set_mset (lru_owned s) = {v. \<exists>i h n. lru_live s i = Some (h, v, n)}"
proof (intro set_eqI iffI)
  fix v assume "v \<in># lru_owned s"
  then obtain i e where ie: "(i, e) \<in> set (recency s)" "v = the (e_value e)"
    by (auto simp: lru_owned_def live_values_def)
  obtain w where w: "e = \<lparr>e_hash = e_hash e, e_value = Some w, e_refcount = e_refcount e\<rparr>" "lru_live s i = Some (e_hash e, w, e_refcount e)"
    by (rule recency_entry [OF assms ie(1)])
  have "e_value e = Some w" using arg_cong [OF w(1), of e_value] by simp
  then show "v \<in> {v. \<exists>i h n. lru_live s i = Some (h, v, n)}" using w(2) ie(2) by auto
next
  fix v assume "v \<in> {v. \<exists>i h n. lru_live s i = Some (h, v, n)}"
  then obtain i h n where "(i, \<lparr>e_hash = h, e_value = Some v, e_refcount = n\<rparr>) \<in> set (recency s)"
    using lru_live_iff [OF assms] by blast
  then show "v \<in># lru_owned s" by (force simp: lru_owned_def live_values_def)
qed

lemma lru_live_inj:
  assumes s: "lru_inv s" and ij: "lru_live s i = Some (h, v, n)" "lru_live s j = Some (h', v, n')"
    and c: "count (lru_owned s) v \<le> 1"
  shows "i = j"
proof (rule ccontr)
  assume ne: "i \<noteq> j"
  from ij lru_live_iff [OF s] have i: "(i, \<lparr>e_hash = h, e_value = Some v, e_refcount = n\<rparr>) \<in> set (recency s)"
    and j: "(j, \<lparr>e_hash = h', e_value = Some v, e_refcount = n'\<rparr>) \<in> set (recency s)" by auto
  from split_list [OF i] obtain xs ys where r: "recency s = xs @ (i, \<lparr>e_hash = h, e_value = Some v, e_refcount = n\<rparr>) # ys"
    by blast
  with j ne have "(j, \<lparr>e_hash = h', e_value = Some v, e_refcount = n'\<rparr>) \<in> set (xs @ ys)" by auto
  then have "v \<in># live_values (xs @ ys)" by (force simp: live_values_def)
  then have "count (live_values (xs @ ys)) v > 0" by (simp only: count_greater_zero_iff)
  moreover have "count (lru_owned s) v = Suc (count (live_values (xs @ ys)) v)"
    by (simp add: lru_owned_def live_values_def r)
  ultimately show False using c by linarith
qed

lemma map_of_apin:
  "map_of (apin i f as) j = map_option (\<lambda>e. if j = i then e\<lparr>e_refcount := f (e_refcount e)\<rparr> else e) (map_of as j)"
  unfolding apin_def by (induction as) auto

lemma lru_live_apin:
  assumes "recency t = apin i f (recency s)" and "lru_live s i = Some (h, v, n)"
  shows "lru_live t = (lru_live s)(i \<mapsto> (h, v, f n))"
proof
  fix j
  from assms(2) obtain e where "map_of (recency s) i = Some e" "h = e_hash e" "v = the (e_value e)" "n = e_refcount e"
    by (auto simp: lru_live_def)
  then show "lru_live t j = ((lru_live s)(i \<mapsto> (h, v, f n))) j"
    by (cases "map_of (recency s) j") (auto simp: lru_live_def assms(1) map_of_apin)
qed

lemma lru_get_contract:
  assumes s: "lru_inv s" and g: "lru_get eq s h k = (t, r)"
  shows "lru_inv t \<and> lru_live t = lru_live s \<and> lru_owned t = lru_owned s \<and> lru_destroyed t = lru_destroyed s \<and>
      (case r of None \<Rightarrow> \<forall>i v n. lru_live s i = Some (h, v, n) \<longrightarrow> \<not> eq v k
       | Some i \<Rightarrow> \<exists>v n. lru_live s i = Some (h, v, n) \<and> eq v k)"
proof -
  from lru_get_result [OF s, of eq h k] g have t: "lru_inv t" "lru_destroyed t = lru_destroyed s"
    and a: "aget eq (recency s) h k (recency t) r" by (metis prod.inject)+
  have set: "set (recency t) = set (recency s)" using a by (auto simp: aget_def split: option.splits)
  have "lru_live t i = lru_live s i" for i
    using lru_live_iff [OF t(1)] lru_live_iff [OF s] set by (metis option.exhaust prod_cases3)
  moreover have "case r of None \<Rightarrow> \<forall>i v n. lru_live s i = Some (h, v, n) \<longrightarrow> \<not> eq v k
       | Some i \<Rightarrow> \<exists>v n. lru_live s i = Some (h, v, n) \<and> eq v k"
  proof (cases r)
    case None
    with a show ?thesis by (force simp: aget_def lru_live_iff [OF s] amatch_def entry_matches_def)
  next
    case (Some i)
    with a obtain xs e ys where "recency s = xs @ (i, e) # ys" and m: "amatch eq h k (i, e)" by (auto simp: aget_def)
    then have e: "(i, e) \<in> set (recency s)" "amatch eq h k (i, e)" by simp_all
    from recency_entry [OF s e(1)] obtain v where "e = \<lparr>e_hash = e_hash e, e_value = Some v, e_refcount = e_refcount e\<rparr>"
      "lru_live s i = Some (e_hash e, v, e_refcount e)" .
    then show ?thesis using Some e(2) by (cases e) (auto simp: amatch_def entry_matches_def)
  qed
  ultimately show ?thesis using t a by (auto simp: lru_owned_def aget_live_values)
qed

lemma lru_put_contract:
  assumes s: "lru_inv s"
  shows "\<exists>t r ds. lru_put_value eq s h k v = Some (t, r) \<and> lru_inv t \<and> lru_destroyed t = lru_destroyed s @ ds \<and>
      lru_owned s + {#v#} = lru_owned t + mset ds \<and>
      (\<forall>i e. lru_live s i = Some e \<and> snd (snd e) > 0 \<longrightarrow> lru_live t i = Some e) \<and>
      (\<forall>j e. lru_live t j = Some e \<and> r \<noteq> Some j \<longrightarrow> lru_live s j = Some e) \<and>
      (\<forall>i. r = Some i \<longrightarrow> lru_live t i = Some (h, v, 0))"
proof -
  obtain t r ds where p: "lru_put_value eq s h k v = Some (t, r)" "lru_inv t"
    "aput eq (recency s) h k v (recency t) r ds" "lru_destroyed t = lru_destroyed s @ ds" using lru_put_refined [OF s] .
  have "lru_live t i = Some e" if e: "lru_live s i = Some e" "snd (snd e) > 0" for i e
  proof -
    have "(i, \<lparr>e_hash = fst e, e_value = Some (fst (snd e)), e_refcount = snd (snd e)\<rparr>) \<in> set (recency t)"
      by (rule aput_keeps_pinned [OF p(3) lru_live_SomeE [OF s e(1)]]) (simp add: e(2))
    then show ?thesis using lru_live_iff [OF p(2), of i "fst e" "fst (snd e)" "snd (snd e)"] by simp
  qed
  moreover have "lru_live s j = Some e" if e: "lru_live t j = Some e" "r \<noteq> Some j" for j e
  proof -
    have "(j, \<lparr>e_hash = fst e, e_value = Some (fst (snd e)), e_refcount = snd (snd e)\<rparr>) \<in> set (recency s)"
      by (rule aput_old [OF p(3) lru_live_SomeE [OF p(2) e(1)]]) (simp add: e(2))
    then show ?thesis using lru_live_iff [OF s, of j "fst e" "fst (snd e)" "snd (snd e)"] by simp
  qed
  moreover have "lru_live t i = Some (h, v, 0)" if "r = Some i" for i
    using aput_new [OF p(3) [unfolded that]] lru_live_iff [OF p(2)] by (metis list.set_sel(1))
  ultimately show ?thesis using p aput_values [OF p(3)] unfolding lru_owned_def by blast
qed

lemma lru_put_none_contract:
  assumes s: "lru_inv s" and p: "lru_put_value eq s h k v = Some (t, None)"
    and none: "\<forall>i w n. lru_live s i = Some (h, w, n) \<longrightarrow> \<not> eq w k"
  shows "\<forall>i e. lru_live t i = Some e \<longrightarrow> snd (snd e) > 0"
proof (intro allI impI)
  fix i e assume l: "lru_live t i = Some e"
  obtain t' r ds where "lru_put_value eq s h k v = Some (t', r)" "lru_inv t'"
    "aput eq (recency s) h k v (recency t') r ds" using lru_put_refined [OF s] .
  with p have t: "lru_inv t" "aput eq (recency s) h k v (recency t) None ds" by auto
  have "\<not> amatch eq h k (j, f)" if jf: "(j, f) \<in> set (recency s)" for j f
  proof -
    obtain w where "f = \<lparr>e_hash = e_hash f, e_value = Some w, e_refcount = e_refcount f\<rparr>"
      "lru_live s j = Some (e_hash f, w, e_refcount f)" using recency_entry [OF s jf] .
    with none show ?thesis unfolding amatch_def entry_matches_def
      by (metis lru_entry.select_convs(2) option.simps(5) snd_conv)
  qed
  with aput_none [OF t(2)] have "\<forall>ie\<in>set (recency t). e_refcount (snd ie) > 0" by fastforce
  with lru_live_SomeE [OF t(1) l] show "snd (snd e) > 0" by fastforce
qed

interpretation lru_entries: entry_store lru_inv lru_live lru_owned lru_destroyed lru_get lru_put_value lru_acquire lru_release
proof
  fix s :: "'a lru" and i h n and v :: 'a
  assume s: "lru_inv s" and l: "lru_live s i = Some (h, v, n)" and n: "n < UINT32_MAX"
  have "u32_add n 1 = Suc n" using n by (simp add: u32_add_def)
  with lru_live_apin [OF lru_entry_acquire_result(2) [OF s] l]
  show "lru_inv (lru_acquire s i) \<and> lru_live (lru_acquire s i) = (lru_live s)(i \<mapsto> (h, v, Suc n)) \<and>
      lru_owned (lru_acquire s i) = lru_owned s \<and> lru_destroyed (lru_acquire s i) = lru_destroyed s"
    by (simp add: lru_entry_acquire_result [OF s] lru_owned_def)
next
  fix s :: "'a lru" and i h n and v :: 'a
  assume s: "lru_inv s" and l: "lru_live s i = Some (h, v, Suc n)"
  from lru_live_apin [OF lru_entry_release_result(2) [OF s] l]
  show "lru_inv (lru_release s i) \<and> lru_live (lru_release s i) = (lru_live s)(i \<mapsto> (h, v, n)) \<and>
      lru_owned (lru_release s i) = lru_owned s \<and> lru_destroyed (lru_release s i) = lru_destroyed s"
    by (simp add: lru_entry_release_result [OF s] lru_owned_def)
qed (fact lru_live_owned lru_live_inj lru_get_contract lru_put_contract lru_put_none_contract)+

lemma lru_owned_room:
  assumes "lru_inv s"
  shows "size (lru_owned s) \<le> lru_capacity s"
proof -
  from assms obtain order free where r: "lru_rep s order free {}" by (auto simp: lru_inv_def)
  have "size (lru_owned s) \<le> length (recency s)" by (simp add: lru_owned_def live_values_def size_filter_mset_lesseq)
  also have "\<dots> \<le> lru_capacity s" using lru_rep_length [OF r] by (simp add: lru_rep_recency [OF r] view_def)
  finally show ?thesis .
qed

interpretation lru_store: bounded_entry_store lru_inv lru_live lru_owned lru_destroyed lru_get lru_put_value lru_acquire lru_release lru_capacity
proof
  fix s t :: "'a lru" and eq :: "'a \<Rightarrow> 'b \<Rightarrow> bool" and h k v r
  assume "lru_inv s" and p: "lru_put_value eq s h k v = Some (t, r)"
  then show "lru_capacity t = lru_capacity s" by (elim lru_put_refined [of s eq h k v]) (auto simp: put_frame_def)
qed (auto simp: lru_owned_room lru_get_def lru_entry_acquire_locked_def lru_entry_release_def Let_def)

section \<open>Properties\<close>

text \<open>C17. Any sequence of calls on a fresh cache keeps the invariant, never holds more entries than its capacity,
  and neither loses nor doubles a value: the values handed to \<open>lru_put\<close> are exactly those still live and those
  passed to \<open>ops.destroy\<close>, each as often as it was handed over.\<close>

theorem lru_run_conserves:
  assumes "lru_run eq s vs"
  shows "lru_inv s \<and> length (recency s) \<le> lru_capacity s \<and>
    mset vs = live_values (recency s) + mset (lru_destroyed s)"
proof -
  from lru_run_step_values [OF assms] have i: "lru_inv s" and m: "mset vs = lru_owned s + mset (lru_destroyed s)" by auto
  from i obtain order free where r: "lru_rep s order free {}" by (auto simp: lru_inv_def)
  from lru_rep_length [OF r] have "length (recency s) \<le> lru_capacity s"
    unfolding lru_rep_recency [OF r] by (simp add: view_def)
  with i m show ?thesis by (simp add: lru_owned_def)
qed

text \<open>A cache of two entries, probed at most one cell beyond the ideal one, with one entry under hash 5.\<close>

definition lru_demo0 :: "nat lru" where
  "lru_demo0 = the (lru_create True 2 1)"

definition lru_demo1 :: "nat lru" where
  "lru_demo1 = fst (the (lru_put (=) lru_demo0 5 7 (Some 7)))"

lemma lru_demo_run: "lru_run (=) lru_demo0 []" "lru_run (=) lru_demo1 [7]"
proof -
  have c: "lru_create True 2 1 = Some lru_demo0" by (simp add: lru_demo0_def lru_create_def Let_def)
  then show 0: "lru_run (=) lru_demo0 []" by (rule lru_run.create) simp
  have "lru_put (=) lru_demo0 5 7 (Some 7) = Some (lru_demo1, snd (the (lru_put (=) lru_demo0 5 7 (Some 7))))"
    using lru_put_refined [of lru_demo0 "(=)" 5 7 7] lru_create_inv [OF c] by (force simp: lru_demo1_def)
  from lru_run.put [OF 0 this] show "lru_run (=) lru_demo1 [7]" by simp
qed

lemma lru_demo_inv: "lru_inv lru_demo0" "lru_inv lru_demo1"
  using lru_demo_run [THEN lru_run_step_values] by auto

lemma lru_demo1_recency: "recency lru_demo1 = [(1, \<lparr>e_hash = 5, e_value = Some 7, e_refcount = 0\<rparr>)]"
  unfolding lru_demo1_def lru_demo0_def by code_simp

theorem lru_run_conserves_witness:
  "lru_run (=) lru_demo1 [7] \<and> mset [7] = live_values (recency lru_demo1) + mset (lru_destroyed lru_demo1)"
  using lru_run_conserves [OF lru_demo_run(2)] lru_demo_run(2) by simp



text \<open>C20. A put neither evicts, replaces nor changes a pinned entry, and does not move its cell in the hash index,
  so a pointer to a pinned entry stays good whatever else is inserted.\<close>

theorem lru_put_pinned_stable:
  assumes "lru_inv s" and "lru_put eq s h k (Some v) = Some (t, r)"
    and "(i, e) \<in> set (recency s)" and "e_refcount e > 0"
  shows "(i, e) \<in> set (recency t) \<and> slot_of t i = e \<and>
    (\<exists>c<ix_n_cells (lru_index s). cells_of s ! c = i \<and> cells_of t ! c = i)"
proof -
  obtain t' r' ds where p: "lru_put eq s h k (Some v) = Some (t', r')" "lru_inv t'"
    "aput eq (recency s) h k v (recency t') r' ds" "put_frame s t'" using lru_put_refined [OF assms(1)] .
  then have t: "t' = t" using assms(2) by simp
  from recency_indexed [OF assms(1,3)] obtain c where c: "c < ncells s" "cells_of s ! c = i" "slot_of s i = e" "i \<noteq> LRU_NIL" .
  then have "cells_of t ! c = i \<and> slot_of t i = e"
    using p(4) assms(4) unfolding t put_frame_def pinned_kept_def by auto
  moreover have "(i, e) \<in> set (recency t)" using aput_keeps_pinned [OF p(3) assms(3)] assms(4) t by simp
  ultimately show ?thesis using c by blast
qed

definition lru_demo2 :: "nat lru" where
  "lru_demo2 = lru_entry_acquire_locked lru_demo1 (Some 1)"

lemma lru_demo2_facts:
  "lru_inv lru_demo2" "recency lru_demo2 = [(1, \<lparr>e_hash = 5, e_value = Some 7, e_refcount = 1\<rparr>)]"
  using lru_entry_acquire_result(1,2) [OF lru_demo_inv(2), of 1] unfolding lru_demo2_def
  by (simp_all add: lru_demo1_recency apin_def u32_add_def)

theorem lru_put_pinned_stable_witness:
  "\<exists>t r. lru_put (=) lru_demo2 13 9 (Some 9) = Some (t, r) \<and>
     (1, \<lparr>e_hash = 5, e_value = Some 7, e_refcount = 1\<rparr>) \<in> set (recency t)"
proof -
  obtain t r where p: "lru_put (=) lru_demo2 13 9 (Some 9) = Some (t, r)"
    using lru_put_refined [OF lru_demo2_facts(1)] by metis
  from lru_put_pinned_stable [OF lru_demo2_facts(1) p, of 1 "\<lparr>e_hash = 5, e_value = Some 7, e_refcount = 1\<rparr>"] p
  show ?thesis by (simp add: lru_demo2_facts(2))
qed

text \<open>\<open>lru_get\<close> keeps the invariant and destroys nothing; on a miss no live entry has this hash and matches the
  key, and the order is unchanged; on a hit the entry returned matches and moves to the front, the others keep
  their order.\<close>

theorem lru_get_refines:
  assumes "lru_inv s"
  shows "\<exists>t r. lru_get eq s h k = (t, r) \<and> lru_inv t \<and> lru_destroyed t = lru_destroyed s \<and>
    aget eq (recency s) h k (recency t) r"
  using lru_get_result [OF assms] by metis

theorem lru_get_refines_witness:
  "lru_inv lru_demo1 \<and> (\<exists>t r. lru_get (=) lru_demo1 5 7 = (t, r) \<and> aget (=) (recency lru_demo1) 5 7 (recency t) r)"
  using lru_get_refines [OF lru_demo_inv(2), of "(=)" 5 7] lru_demo_inv(2) by blast

text \<open>Eviction takes the unpinned entry that was used the longest ago: every entry behind it in the recency order
  is pinned, the rest keeps its order, and its value is the one destroyed. It fails, changing nothing, exactly when
  every entry is pinned.\<close>

theorem evict_lru_tail_least_recent:
  assumes "lru_inv s"
  shows "(pinned (recency s) = recency s \<and> evict_lru_tail s = Some (s, -1)) \<or>
    (\<exists>xs i e ys t. recency s = xs @ (i, e) # ys \<and> e_refcount e = 0 \<and> pinned ys = ys \<and>
       evict_lru_tail s = Some (t, 0) \<and> lru_inv t \<and> recency t = xs @ ys \<and>
       lru_destroyed t = lru_destroyed s @ [the (e_value e)])"
proof -
  from assms obtain order free where r: "lru_rep s order free {}" by (auto simp: lru_inv_def)
  from r show ?thesis
  proof (cases rule: evict_lru_tail_result)
    case pinned
    then show ?thesis by (simp add: lru_rep_recency [OF r] pinned_def view_all_iff filter_id_conv)
  next
    case (evicted us i ws t)
    have "i \<notin> set (us @ ws)" using lru_repD(7) [OF r] evicted(1) by auto
    from evicts_view [OF evicted(6) this] have "recency t = view s us @ view s ws"
      by (simp add: lru_rep_recency [OF evicted(5)])
    moreover have "pinned (view s ws) = view s ws" using evicted(2) by (simp add: pinned_def filter_id_conv view_all_iff)
    moreover have "lru_inv t" using evicted(5) by (auto simp: lru_inv_def)
    moreover have "recency s = view s us @ (i, slot_of s i) # view s ws" by (simp add: lru_rep_recency [OF r] evicted(1))
    ultimately show ?thesis using evicted(3,4,6) unfolding evicts_def by blast
  qed
qed

theorem evict_lru_tail_least_recent_witness:
  "lru_inv lru_demo1 \<and> (\<exists>t. evict_lru_tail lru_demo1 = Some (t, 0) \<and> recency t = [] \<and> lru_destroyed t = lru_destroyed lru_demo1 @ [7])"
  using evict_lru_tail_least_recent [OF lru_demo_inv(2)] lru_demo_inv(2)
  by (auto simp: lru_demo1_recency pinned_def Cons_eq_append_conv)

text \<open>When \<open>ops.eq\<close> compares a value's key with the probe key and no two live entries share hash and key, a
  put that succeeds keeps it so, and the next get with the same hash and key finds the entry it returned, holding
  the value just put.\<close>

theorem lru_put_then_get:
  assumes "lru_inv s" and "keys_unique eq (recency s)" and "\<And>w k. eq w k \<longleftrightarrow> key_of w = k" and "key_of v = k"
    and "lru_put eq s h k (Some v) = Some (t, Some i)"
  shows "keys_unique eq (recency t) \<and> (\<exists>u. lru_get eq t h k = (u, Some i) \<and> lru_entry_value u (Some i) = Some v)"
proof -
  obtain t' r ds where "lru_put eq s h k (Some v) = Some (t', r)" "lru_inv t'"
    "aput eq (recency s) h k v (recency t') r ds" using lru_put_refined [OF assms(1)] .
  then have p: "lru_inv t" "aput eq (recency s) h k v (recency t) (Some i) ds" using assms(5) by auto
  have u: "keys_unique eq (recency t)" using aput_keys_unique [where eq = eq, OF assms(3,4) p(2) assms(2)] .
  have new: "(i, \<lparr>e_hash = h, e_value = Some v, e_refcount = 0\<rparr>) \<in> set (recency t)"
    using aput_new [OF p(2)] by (metis list.set_sel(1))
  have m: "amatch eq h k (i, \<lparr>e_hash = h, e_value = Some v, e_refcount = 0\<rparr>)"
    using assms(3,4) by (simp add: amatch_def entry_matches_def)
  obtain w q where g: "lru_get eq t h k = (w, q)" "lru_inv w" "aget eq (recency t) h k (recency w) q"
    using lru_get_result [OF p(1)] .
  from g(3) new m obtain j e where j: "q = Some j" "(j, e) \<in> set (recency t)" "amatch eq h k (j, e)" "(j, e) \<in> set (recency w)"
    using aget_hit [OF g(3) new m] by blast
  note ji = keys_uniqueD [OF u j(2) new j(3) m]
  have "e = \<lparr>e_hash = h, e_value = Some v, e_refcount = 0\<rparr>"
    using j(2) new recency_distinct [OF p(1)] ji by (metis map_of_eq_Some_iff option.inject)
  moreover from recency_indexed [OF g(2) j(4)] have "slot_of w i = e" unfolding ji by blast
  ultimately have "lru_entry_value w (Some i) = Some v" by (simp add: lru_entry_value_def)
  moreover have "lru_get eq t h k = (w, Some i)" using g(1) j(1) ji by simp
  ultimately show ?thesis using u by (intro conjI exI [of _ w])
qed

theorem lru_put_then_get_witness:
  "\<exists>u. lru_get (=) lru_demo1 5 7 = (u, Some 1) \<and> lru_entry_value u (Some 1) = Some 7"
proof -
  have p: "lru_put (=) lru_demo0 5 7 (Some 7) = Some (lru_demo1, Some 1)"
  proof -
    obtain t r where t: "lru_put (=) lru_demo0 5 7 (Some 7) = Some (t, r)" using lru_put_refined [OF lru_demo_inv(1)] by metis
    moreover have "snd (the (lru_put (=) lru_demo0 5 7 (Some 7))) = Some 1" by code_simp
    ultimately show ?thesis by (simp add: lru_demo1_def)
  qed
  have "keys_unique (=) (recency lru_demo0)"
  proof -
    have "recency lru_demo0 = []" by code_simp
    then show ?thesis by (simp add: keys_unique_def)
  qed
  from lru_put_then_get [OF lru_demo_inv(1) this _ _ p, of "\<lambda>v. v"] show ?thesis by simp
qed

text \<open>With no pins outstanding \<open>lru_destroy\<close> passes every value still live to \<open>ops.destroy\<close>, so over the life of
  the cache each value put is destroyed exactly once; with a pin outstanding it destroys nothing.\<close>

theorem lru_destroy_complete:
  assumes "lru_run eq s vs"
  shows "\<exists>out. lru_destroy s = Some out \<and>
    (case out of Inr ds \<Rightarrow> pinned (recency s) = [] \<and> mset ds = mset vs | Inl u \<Rightarrow> pinned (recency s) \<noteq> [])"
proof -
  from lru_run_step_values [OF assms] have i: "lru_inv s" and m: "mset vs = lru_owned s + mset (lru_destroyed s)" by auto
  then show ?thesis unfolding lru_destroy_result [OF i] by (simp add: lru_owned_def live_values_def)
qed

theorem lru_destroy_complete_witness:
  "lru_run (=) lru_demo1 [7] \<and> (\<exists>out. lru_destroy lru_demo1 = Some out \<and>
     (case out of Inr ds \<Rightarrow> pinned (recency lru_demo1) = [] \<and> mset ds = mset [7] | Inl u \<Rightarrow> pinned (recency lru_demo1) \<noteq> []))"
  using lru_destroy_complete [OF lru_demo_run(2)] lru_demo_run(2) by blast

end
