(* ===== verification/Damacy_Types.thy ===== *)
theory Damacy_Types
  imports Damacy_Prelude
begin

text \<open>
  The public data of src/src/damacy.h and src/src/damacy\_pipeline.h that several components share
  (element types, intervals, boxes, samples, batch shapes), and the element types of
  src/src/dtype/dtype.c.
\<close>

section \<open>Public types\<close>

fun damacy_status_str :: "damacy_status \<Rightarrow> string" where
  "damacy_status_str DAMACY_OK = ''ok''"
| "damacy_status_str DAMACY_AGAIN = ''again''"
| "damacy_status_str DAMACY_INVAL = ''invalid argument''"
| "damacy_status_str DAMACY_NOTFOUND = ''not found''"
| "damacy_status_str DAMACY_DTYPE = ''dtype mismatch''"
| "damacy_status_str DAMACY_RANK = ''rank mismatch''"
| "damacy_status_str DAMACY_IO = ''io error''"
| "damacy_status_str DAMACY_DECODE = ''decode error''"
| "damacy_status_str DAMACY_CUDA = ''cuda error''"
| "damacy_status_str DAMACY_OOM = ''out of memory''"
| "damacy_status_str DAMACY_BUDGET = ''configured budget too small''"
| "damacy_status_str DAMACY_SHUTDOWN = ''shutdown''"
| "damacy_status_str DAMACY_UNSUPPORTED = ''unsupported operation''"

datatype damacy_dtype =
    DAMACY_F32
  | DAMACY_BF16
  | DAMACY_U8
  | DAMACY_U16
  | DAMACY_U32
  | DAMACY_U64
  | DAMACY_I8
  | DAMACY_I16
  | DAMACY_I32
  | DAMACY_I64

record damacy_interval =
  iv_beg :: int
  iv_end :: int

record damacy_aabb =
  aabb_dims :: "damacy_interval list"
  aabb_rank :: nat

text \<open>The tagged union; \<open>Axis_Other\<close> stands for any other value of the kind field.\<close>

datatype damacy_axis_selection =
    Axis_Interval damacy_interval
  | Axis_Indices "int list option" nat
  | Axis_Other

record damacy_sample =
  sample_uri :: "string option"
  sample_rank :: nat
  sample_axes :: "damacy_axis_selection list"

record damacy_batch_spec =
  spec_dtype :: damacy_dtype
  spec_sample_shape :: "int list"
  spec_sample_rank :: nat
  spec_samples_per_batch :: nat

record damacy_plan_limits =
  pl_max_chunks :: nat
  pl_max_chunk_bytes :: nat
  pl_max_shards_per_sample :: nat
  pl_max_plan_bytes :: nat

text \<open>The conversion \<open>(uint64_t)x\<close> of a signed value.\<close>

definition u64_of_int :: "int \<Rightarrow> nat" where
  "u64_of_int x = nat (x mod 2 ^ 64)"

lemma u64_of_int_nat: "0 \<le> x \<Longrightarrow> x \<le> INT64_MAX \<Longrightarrow> u64_of_int x = nat x"
  by (simp add: u64_of_int_def)

section \<open>Handles of the metadata caches\<close>

record prefetch_handle =
  ph_slot :: nat
  ph_generation :: nat

datatype prefetch_state = PREFETCH_STATE_PENDING | PREFETCH_STATE_READY | PREFETCH_STATE_ERROR

section \<open>Element types\<close>

datatype dtype =
    dtype_u8
  | dtype_u16
  | dtype_u32
  | dtype_u64
  | dtype_i8
  | dtype_i16
  | dtype_i32
  | dtype_i64
  | dtype_f16
  | dtype_f32
  | dtype_f64

fun dtype_bpe :: "dtype \<Rightarrow> nat" where
  "dtype_bpe dtype_u8 = 1"
| "dtype_bpe dtype_i8 = 1"
| "dtype_bpe dtype_u16 = 2"
| "dtype_bpe dtype_i16 = 2"
| "dtype_bpe dtype_f16 = 2"
| "dtype_bpe dtype_u32 = 4"
| "dtype_bpe dtype_i32 = 4"
| "dtype_bpe dtype_f32 = 4"
| "dtype_bpe dtype_u64 = 8"
| "dtype_bpe dtype_i64 = 8"
| "dtype_bpe dtype_f64 = 8"

definition dtype_table :: "(string \<times> dtype) list" where
  "dtype_table =
     [(''uint8'', dtype_u8), (''uint16'', dtype_u16), (''uint32'', dtype_u32), (''uint64'', dtype_u64),
      (''int8'', dtype_i8), (''int16'', dtype_i16), (''int32'', dtype_i32), (''int64'', dtype_i64),
      (''float16'', dtype_f16), (''float32'', dtype_f32), (''float64'', dtype_f64)]"

definition dtype_from_zarr_string :: "string \<Rightarrow> dtype option" where
  "dtype_from_zarr_string s = map_option snd (find (\<lambda>(name, dt). name = s) dtype_table)"

lemma dtype_bpe_cases: "dtype_bpe dt \<in> {1, 2, 4, 8}"
  by (cases dt) auto

end
