(* ===== verification/Odometer.thy ===== *)
theory Odometer
  imports Damacy_Prelude
begin

text \<open>
  The row-major odometer that selection_grid_next (src/src/query/selection.c) and
  sample_shard_iterator_next (src/src/zarr/sample_shard_iterator.c) both run: emit the current cell of
  every axis, then advance the last axis and carry into the one before it while axes wrap around.
  The locale \<open>odometer\<close> states what one axis promises and proves, once, that the calls enumerate the
  product of the axes in row-major order; both iterators interpret it.
\<close>

text \<open>The loop of both sources from axis \<open>d - 1\<close> down to axis \<open>0\<close>; the flag says that an axis advanced.\<close>

fun carry_loop :: "('a \<Rightarrow> 'a \<times> bool) \<Rightarrow> nat \<Rightarrow> 'a list \<Rightarrow> 'a list \<times> bool" where
  "carry_loop step 0 axes = (axes, False)"
| "carry_loop step (Suc d) axes =
     (let (axis, more) = step (axes ! d);
          axes = axes[d := axis]
      in if more then (axes, True) else carry_loop step d axes)"

definition odo_next :: "('a \<Rightarrow> 'a \<times> bool) \<Rightarrow> ('a \<Rightarrow> 'c) \<Rightarrow> 'a list \<times> bool \<Rightarrow> ('a list \<times> bool) \<times> 'c list option" where
  "odo_next step cur st =
     (case st of (axes, finished) \<Rightarrow>
        if finished then (st, None)
        else let out = map cur axes;
                 (axes, more) = carry_loop step (length axes) axes
             in ((axes, \<not> more), Some out))"

lemma odo_next_simps [simp]:
  "odo_next step cur (axes, True) = ((axes, True), None)"
  "odo_next step cur (axes, False) =
     (let (bs, more) = carry_loop step (length axes) axes in ((bs, \<not> more), Some (map cur axes)))"
  by (simp_all add: odo_next_def Let_def)

text \<open>What \<open>n\<close> calls emit.\<close>

fun odo_collect :: "('s \<Rightarrow> 's \<times> 'c option) \<Rightarrow> nat \<Rightarrow> 's \<Rightarrow> 'c list" where
  "odo_collect next 0 st = []"
| "odo_collect next (Suc n) st =
     (case next st of
        (st, None) \<Rightarrow> []
      | (st, Some c) \<Rightarrow> c # odo_collect next n st)"

definition prod_snoc :: "'c list list \<Rightarrow> 'c list \<Rightarrow> 'c list list" where
  "prod_snoc xss ys = concat (map (\<lambda>xs. map (\<lambda>y. xs @ [y]) ys) xss)"

lemma prod_snoc_simps [simp]:
  "prod_snoc [] ys = []" "prod_snoc (xs # xss) ys = map (\<lambda>y. xs @ [y]) ys @ prod_snoc xss ys"
  by (simp_all add: prod_snoc_def)

lemma length_prod_snoc [simp]: "length (prod_snoc xss ys) = length xss * length ys"
  by (induction xss) auto

lemma prod_snoc_append: "prod_snoc (xss @ xss') ys = prod_snoc xss ys @ prod_snoc xss' ys"
  by (simp add: prod_snoc_def)

lemma prod_snoc_map_Cons: "prod_snoc (map ((#) x) xss) ys = map ((#) x) (prod_snoc xss ys)"
  by (induction xss) auto

lemma product_lists_snoc: "product_lists (xss @ [ys]) = prod_snoc (product_lists xss) ys"
proof (induction xss)
  case Nil
  then show ?case by (induction ys) auto
next
  case (Cons xs xss)
  have "concat (map (\<lambda>x. map ((#) x) (prod_snoc Y ys)) xs) = prod_snoc (concat (map (\<lambda>x. map ((#) x) Y) xs)) ys" for Y
    by (induction xs) (simp_all add: prod_snoc_append prod_snoc_map_Cons)
  with Cons show ?case by simp
qed

lemma length_product_lists': "length (product_lists xss) = prod_list (map length xss)"
  by (induction xss) (auto simp: length_concat comp_def sum_list_triv)

locale odometer =
  fixes ok :: "'a \<Rightarrow> bool" and step :: "'a \<Rightarrow> 'a \<times> bool" and cur :: "'a \<Rightarrow> 'c"
    and rest :: "'a \<Rightarrow> 'c list" and every :: "'a \<Rightarrow> 'c list"
  assumes rest_cur: "ok a \<Longrightarrow> rest a = cur a # tl (rest a)"
    and step_more: "ok a \<Longrightarrow> tl (rest a) \<noteq> [] \<Longrightarrow>
      \<exists>b. step a = (b, True) \<and> ok b \<and> rest b = tl (rest a) \<and> every b = every a"
    and step_wrap: "ok a \<Longrightarrow> tl (rest a) = [] \<Longrightarrow>
      \<exists>b. step a = (b, False) \<and> ok b \<and> rest b = every a \<and> every b = every a"
begin

text \<open>The coordinates still to be emitted, for the axes in reverse order.\<close>

fun rem_rev :: "'a list \<Rightarrow> 'c list list" where
  "rem_rev [] = [[]]"
| "rem_rev (a # ras) =
     map (\<lambda>v. map cur (rev ras) @ [v]) (rest a) @ prod_snoc (tl (rem_rev ras)) (every a)"

definition remaining :: "'a list \<Rightarrow> 'c list list" where
  "remaining as = rem_rev (rev as)"

lemma remaining_simps:
  "remaining [] = [[]]"
  "remaining (us @ [a]) =
     map (\<lambda>v. map cur us @ [v]) (rest a) @ prod_snoc (tl (remaining us)) (every a)"
  by (simp_all add: remaining_def)

lemma remaining_hd: "list_all ok as \<Longrightarrow> remaining as = map cur as # tl (remaining as)"
proof (induction as rule: rev_induct)
  case (snoc a us)
  then obtain r where "rest a = cur a # r" using rest_cur [of a] by auto
  then show ?case by (simp add: remaining_simps)
qed (simp add: remaining_simps)

lemma remaining_fresh:
  assumes "list_all ok as" and "\<forall>a\<in>set as. rest a = every a"
  shows "remaining as = product_lists (map every as)"
  using assms
proof (induction as rule: rev_induct)
  case (snoc a us)
  then have "remaining us = product_lists (map every us)" by simp
  moreover have "remaining us = map cur us # tl (remaining us)" using snoc.prems by (intro remaining_hd) simp
  moreover have "rest a = every a" using snoc.prems by simp
  ultimately show ?case
    by (simp add: remaining_simps product_lists_snoc) (metis prod_snoc_simps(2))
qed (simp add: remaining_simps)

lemma carry_loop_remaining:
  assumes "list_all ok as"
  shows "\<exists>bs more. carry_loop step (length as) (as @ zs) = (bs @ zs, more) \<and> length bs = length as \<and>
     list_all ok bs \<and> map every bs = map every as \<and>
     (if more then remaining bs = tl (remaining as) \<and> remaining bs \<noteq> []
      else tl (remaining as) = [] \<and> remaining bs = product_lists (map every as))"
  using assms
proof (induction as arbitrary: zs rule: rev_induct)
  case Nil
  then show ?case by (intro exI [of _ "[]"] exI [of _ False]) (simp add: remaining_simps)
next
  case (snoc a us)
  then have oks: "ok a" "list_all ok us" by simp_all
  note ra = rest_cur [OF oks(1)]
  show ?case
  proof (cases "tl (rest a) = []")
    case False
    then obtain b where b: "step a = (b, True)" "ok b" "rest b = tl (rest a)" "every b = every a"
      using step_more [OF oks(1)] by blast
    have "remaining (us @ [b]) = tl (remaining (us @ [a]))"
    proof -
      from ra obtain r where "rest a = cur a # r" by auto
      with b(3,4) show ?thesis by (simp add: remaining_simps)
    qed
    moreover have "remaining (us @ [b]) \<noteq> []" using False b(3) by (simp add: remaining_simps)
    ultimately show ?thesis
      using b oks by (intro exI [of _ "us @ [b]"] exI [of _ True]) (simp add: nth_append list_update_append)
  next
    case True
    then obtain b where b: "step a = (b, False)" "ok b" "rest b = every a" "every b = every a"
      using step_wrap [OF oks(1)] by blast
    obtain vs more where v: "carry_loop step (length us) (us @ b # zs) = (vs @ b # zs, more)" "length vs = length us"
      "list_all ok vs" "map every vs = map every us"
      "if more then remaining vs = tl (remaining us) \<and> remaining vs \<noteq> []
       else tl (remaining us) = [] \<and> remaining vs = product_lists (map every us)"
      using snoc.IH [OF oks(2), of "b # zs"] by blast
    have "rest a = [cur a]" using ra True by simp
    then have tl: "tl (remaining (us @ [a])) = prod_snoc (tl (remaining us)) (every a)" by (simp add: remaining_simps)
    have vs: "remaining (vs @ [b]) = prod_snoc (remaining vs) (every a)"
      using remaining_hd [OF v(3)] b(3,4) by (simp add: remaining_simps) (metis prod_snoc_simps(2))
    have "every a \<noteq> []" using rest_cur [OF b(2)] b(3) by (metis list.distinct(1))
    then have "prod_snoc (remaining vs) (every a) \<noteq> []" using remaining_hd [OF v(3)] by (metis append_is_Nil_conv list.map_disc_iff prod_snoc_simps(2))
    then have "if more then remaining (vs @ [b]) = tl (remaining (us @ [a])) \<and> remaining (vs @ [b]) \<noteq> []
        else tl (remaining (us @ [a])) = [] \<and> remaining (vs @ [b]) = product_lists (map every (us @ [a]))"
      using v(5) by (simp add: tl vs product_lists_snoc split: if_splits)
    with b v(1-4) show ?thesis
      by (intro exI [of _ "vs @ [b]"] exI [of _ more]) (simp add: nth_append list_update_append)
  qed
qed

lemma collect_remaining:
  assumes "list_all ok as"
  shows "odo_collect (odo_next step cur) n (as, False) = take n (remaining as)"
  using assms
proof (induction n arbitrary: as)
  case (Suc n)
  obtain bs more where b: "carry_loop step (length as) as = (bs, more)" "list_all ok bs"
    "more \<Longrightarrow> remaining bs = tl (remaining as)" "\<not> more \<Longrightarrow> tl (remaining as) = []"
    using carry_loop_remaining [OF Suc.prems, of "[]"] by (auto split: if_splits)
  obtain r where r: "remaining as = map cur as # r" using remaining_hd [OF Suc.prems] by auto
  show ?case
  proof (cases more)
    case True
    with b Suc.IH [OF b(2)] r show ?thesis by simp
  next
    case False
    have "odo_collect (odo_next step cur) n (bs, True) = []" by (cases n) simp_all
    with b False r show ?thesis by simp
  qed
qed simp

text \<open>Fresh axes: the calls emit the product of the axes in row-major order, each coordinate once.\<close>

lemma collect_product:
  assumes "list_all ok as" and "\<forall>a\<in>set as. rest a = every a"
  shows "odo_collect (odo_next step cur) n (as, False) = take n (product_lists (map every as))"
  using collect_remaining [OF assms(1)] remaining_fresh [OF assms] by simp

end

end
