(* ===== verification/Selection.thy ===== *)
theory Selection
  imports Damacy_Types Odometer "HOL-Library.Sublist"
begin

text \<open>
  Sample selections of src/src/query/selection.c: validation of a sample against the batch shape, the
  copy that sorts every index list, the binary search over sorted indices, the span of indices that
  falls into a chunk, and the grid iterator that enumerates the cells a selection touches.
\<close>

section \<open>Data\<close>

datatype query_index = Query_Index (qi_source: int) (qi_output: nat)

record query_axis =
  qa_indices :: "query_index list"
  qa_count :: nat

text \<open>The anonymous structs of the source are flattened.\<close>

record selection_grid_axis =
  ga_indices :: "query_index list option"
  ga_cell_size_index :: nat
  ga_cell_beg :: nat
  ga_cell_end :: nat
  ga_current_cell :: nat
  ga_entry_beg :: nat
  ga_entry_end :: nat
  ga_current_entry :: nat

record selection_grid =
  grid_axes :: "selection_grid_axis list"
  grid_count :: nat
  grid_rank :: nat
  grid_finished :: bool

record selection_span =
  span_begin :: nat
  span_count :: nat

definition sizeof_query_index :: nat where "sizeof_query_index = 16"
definition alignof_query_index :: nat where "alignof_query_index = 8"

text \<open>\<open>compare_indices\<close>: the C comparison, and the linear order it induces.\<close>

definition compare_indices :: "query_index \<Rightarrow> query_index \<Rightarrow> int" where
  "compare_indices a b =
     (if qi_source a \<noteq> qi_source b then of_bool (qi_source a > qi_source b) - of_bool (qi_source a < qi_source b)
      else of_bool (qi_output a > qi_output b) - of_bool (qi_output a < qi_output b))"

instantiation query_index :: linorder
begin

definition less_eq_query_index :: "query_index \<Rightarrow> query_index \<Rightarrow> bool" where
  "less_eq_query_index a b \<longleftrightarrow> compare_indices a b \<le> 0"

definition less_query_index :: "query_index \<Rightarrow> query_index \<Rightarrow> bool" where
  "less_query_index a b \<longleftrightarrow> compare_indices a b < 0"

instance
  by standard
    (auto simp: less_eq_query_index_def less_query_index_def compare_indices_def query_index.expand of_bool_def split: if_splits)

end

section \<open>Validation\<close>

definition axis_length :: "damacy_axis_selection \<Rightarrow> damacy_status + nat" where
  "axis_length axis =
     (case axis of
        Axis_Interval iv \<Rightarrow>
          if iv_beg iv < 0 \<or> iv_end iv \<le> iv_beg iv then Inl DAMACY_INVAL
          else Inr (u64_of_int (iv_end iv - iv_beg iv))
      | Axis_Indices values n \<Rightarrow>
          if values = None \<or> n = 0 then Inl DAMACY_INVAL else Inr n
      | Axis_Other \<Rightarrow> Inl DAMACY_INVAL)"

definition bad_index :: "int \<Rightarrow> bool" where
  "bad_index v \<longleftrightarrow> v < 0 \<or> v = INT64_MAX"

text \<open>The loop over the axes; \<open>bytes\<close> is the index storage of the axes before this one.\<close>

fun query_validate_loop :: "nat \<Rightarrow> (damacy_axis_selection \<times> int) list \<Rightarrow> nat \<Rightarrow> damacy_status" where
  "query_validate_loop max_plan_bytes [] bytes = DAMACY_OK"
| "query_validate_loop max_plan_bytes ((axis, shape) # axes) bytes =
     (case axis_length axis of
        Inl status \<Rightarrow> status
      | Inr length' \<Rightarrow>
          if length' \<noteq> u64_of_int shape then DAMACY_INVAL
          else
            (case axis of
               Axis_Indices values n \<Rightarrow>
                 let size' = u64_mul n sizeof_query_index
                 in if size' > max_plan_bytes \<or> bytes > max_plan_bytes - size' then DAMACY_BUDGET
                    else if list_ex bad_index (take n (the values)) then DAMACY_INVAL
                    else query_validate_loop max_plan_bytes axes (bytes + size')
             | _ \<Rightarrow> query_validate_loop max_plan_bytes axes bytes))"

definition query_validate :: "damacy_sample option \<Rightarrow> damacy_batch_spec option \<Rightarrow> nat \<Rightarrow> damacy_status" where
  "query_validate sample out max_plan_bytes =
     (case (sample, out) of
        (Some sample, Some out) \<Rightarrow>
          if sample_uri sample = None then DAMACY_INVAL
          else if sample_rank sample = 0 \<or> sample_rank sample > DAMACY_MAX_RANK \<or>
                  sample_rank sample \<noteq> spec_sample_rank out then DAMACY_RANK
          else query_validate_loop max_plan_bytes
                 (take (sample_rank sample) (zip (sample_axes sample) (spec_sample_shape out))) 0
      | _ \<Rightarrow> DAMACY_INVAL)"

definition is_indices :: "damacy_axis_selection \<Rightarrow> bool" where
  "is_indices axis \<longleftrightarrow> (case axis of Axis_Indices _ _ \<Rightarrow> True | _ \<Rightarrow> False)"

definition query_has_indices :: "damacy_sample \<Rightarrow> bool" where
  "query_has_indices sample \<longleftrightarrow>
     list_ex is_indices (take (min (sample_rank sample) DAMACY_MAX_RANK) (sample_axes sample))"

section \<open>Copy\<close>

text \<open>\<open>qsort\<close> with \<open>compare_indices\<close>, which is a n_indices order, so that the sorted array is unique.\<close>

definition copy_axis :: "damacy_axis_selection \<Rightarrow> (damacy_interval \<times> query_axis) option" where
  "copy_axis axis =
     (case axis of
        Axis_Indices values n \<Rightarrow>
          let vs = take n (the values)
          in if list_ex bad_index vs then None
             else let cursor = sort (map (\<lambda>i. Query_Index (vs ! i) i) [0..<length vs])
                  in Some (\<lparr>iv_beg = qi_source (cursor ! 0), iv_end = qi_source (cursor ! (n - 1)) + 1\<rparr>,
                           \<lparr>qa_indices = cursor, qa_count = n\<rparr>)
      | Axis_Interval iv \<Rightarrow> Some (iv, \<lparr>qa_indices = [], qa_count = 0\<rparr>)
      | Axis_Other \<Rightarrow> None)"

fun copy_axes :: "damacy_axis_selection list \<Rightarrow> (damacy_interval \<times> query_axis) list option" where
  "copy_axes [] = Some []"
| "copy_axes (axis # axes) =
     (case copy_axis axis of
        None \<Rightarrow> None
      | Some c \<Rightarrow> map_option (\<lambda>cs. c # cs) (copy_axes axes))"

fun count_indices :: "damacy_axis_selection list \<Rightarrow> nat \<Rightarrow> damacy_status + nat" where
  "count_indices [] n_indices = Inr n_indices"
| "count_indices (axis # axes) n_indices =
     (case axis_length axis of
        Inl status \<Rightarrow> Inl status
      | Inr length' \<Rightarrow> count_indices axes (if is_indices axis then u64_add n_indices length' else n_indices))"

text \<open>\<open>alloc_ok\<close> is the outcome of \<open>malloc\<close> for the number of bytes it is given.\<close>

definition query_copy ::
    "(nat \<Rightarrow> bool) \<Rightarrow> damacy_sample option \<Rightarrow> damacy_status + (string \<times> damacy_aabb \<times> query_axis list)" where
  "query_copy alloc_ok sample =
     (case sample of
        None \<Rightarrow> Inl DAMACY_INVAL
      | Some sample \<Rightarrow>
          (case sample_uri sample of
             None \<Rightarrow> Inl DAMACY_INVAL
           | Some uri \<Rightarrow>
               if sample_rank sample = 0 \<or> sample_rank sample > DAMACY_MAX_RANK then Inl DAMACY_INVAL
               else
                 let uri_bytes = length uri + 1;
                     axes = take (sample_rank sample) (sample_axes sample)
                 in if uri_bytes > SIZE_MAX - alignof_query_index + 1 then Inl DAMACY_BUDGET
                    else
                      let offset = (uri_bytes + alignof_query_index - 1) div alignof_query_index * alignof_query_index
                      in case count_indices axes 0 of
                           Inl status \<Rightarrow> Inl status
                         | Inr n_indices \<Rightarrow>
                             if n_indices > (SIZE_MAX - offset) div sizeof_query_index then Inl DAMACY_BUDGET
                             else if \<not> alloc_ok (offset + n_indices * sizeof_query_index) then Inl DAMACY_OOM
                             else (case copy_axes axes of
                                     None \<Rightarrow> Inl DAMACY_INVAL
                                   | Some cs \<Rightarrow>
                                       Inr (uri, \<lparr>aabb_dims = map fst cs, aabb_rank = sample_rank sample\<rparr>,
                                            map snd cs @
                                            replicate (DAMACY_MAX_RANK - sample_rank sample) \<lparr>qa_indices = [], qa_count = 0\<rparr>))))"

section \<open>Binary search\<close>

function query_lower_bound_loop :: "query_index list \<Rightarrow> nat \<Rightarrow> nat \<Rightarrow> nat \<Rightarrow> nat" where
  "query_lower_bound_loop indices src lo hi =
     (if lo < hi then
        let mid = lo + (hi - lo) div 2
        in if u64_of_int (qi_source (indices ! mid)) < src
           then query_lower_bound_loop indices src (mid + 1) hi
           else query_lower_bound_loop indices src lo mid
      else lo)"
  by auto
termination
  by (relation "measure (\<lambda>(indices, src, lo, hi). hi - lo)") auto

declare query_lower_bound_loop.simps [simp del]

definition query_lower_bound :: "query_axis \<Rightarrow> nat \<Rightarrow> nat" where
  "query_lower_bound axis src = query_lower_bound_loop (qa_indices axis) src 0 (qa_count axis)"

definition query_chunk_span :: "query_axis \<Rightarrow> damacy_interval \<Rightarrow> nat \<Rightarrow> nat \<Rightarrow> selection_span" where
  "query_chunk_span axis bounds origin extent =
     (let end' = (if origin > UINT64_MAX - extent then UINT64_MAX else origin + extent)
      in if qa_count axis \<noteq> 0 then
           let begin' = query_lower_bound axis origin
           in \<lparr>span_begin = begin', span_count = u32_sub (query_lower_bound axis end') begin'\<rparr>
         else
           let begin' = (if origin > u64_of_int (iv_beg bounds) then origin else u64_of_int (iv_beg bounds));
               end' = (if end' > u64_of_int (iv_end bounds) then u64_of_int (iv_end bounds) else end')
           in \<lparr>span_begin = begin', span_count = (if end' > begin' then end' - begin' else 0)\<rparr>)"

section \<open>Grid iterator\<close>

definition cell_start_index :: "nat \<Rightarrow> nat \<Rightarrow> nat" where
  "cell_start_index cell cell_size_index =
     (if cell > UINT64_MAX div cell_size_index then UINT64_MAX else cell * cell_size_index)"

definition entry_cell :: "query_index list \<Rightarrow> nat \<Rightarrow> nat \<Rightarrow> nat" where
  "entry_cell indices cell_size entry = u64_of_int (qi_source (indices ! entry)) div cell_size"

text \<open>The loop that counts the distinct cells among the entries \<open>entry, entry + 1, \<dots>\<close>.\<close>

fun count_cells :: "query_index list \<Rightarrow> nat \<Rightarrow> nat \<Rightarrow> nat \<Rightarrow> nat \<Rightarrow> nat \<Rightarrow> nat" where
  "count_cells indices cell_size 0 entry previous_cell cell_count = cell_count"
| "count_cells indices cell_size (Suc left) entry previous_cell cell_count =
     (let cell = entry_cell indices cell_size entry
      in count_cells indices cell_size left (entry + 1) cell (cell_count + of_bool (cell \<noteq> previous_cell)))"

text \<open>The body of the loop of \<open>selection_grid_init\<close> for one axis: the axis and its number of cells.\<close>

definition grid_axis_init ::
    "damacy_interval \<Rightarrow> query_axis \<Rightarrow> nat \<Rightarrow> nat option \<Rightarrow> nat option \<Rightarrow> selection_grid_axis \<times> nat" where
  "grid_axis_init bounds qaxis cell_size clip_beg clip_end =
     (let beg_cell = u64_of_int (iv_beg bounds) div cell_size;
          end_cell = (u64_of_int (iv_end bounds) - 1) div cell_size + 1;
          beg_cell = (case clip_beg of None \<Rightarrow> beg_cell | Some c \<Rightarrow> if beg_cell < c then c else beg_cell);
          end_cell = (case clip_end of None \<Rightarrow> end_cell | Some c \<Rightarrow> if end_cell > c then c else end_cell);
          cell_count = (if end_cell > beg_cell then end_cell - beg_cell else 0);
          axis = \<lparr>ga_indices = None, ga_cell_size_index = cell_size, ga_cell_beg = beg_cell, ga_cell_end = end_cell,
                  ga_current_cell = beg_cell, ga_entry_beg = 0, ga_entry_end = 0, ga_current_entry = 0\<rparr>
      in if qa_count qaxis \<noteq> 0 \<and> cell_count \<noteq> 0 then
           let entry_beg = query_lower_bound qaxis (cell_start_index beg_cell cell_size);
               entry_end = query_lower_bound qaxis (cell_start_index end_cell cell_size);
               axis = axis\<lparr>ga_indices := Some (qa_indices qaxis), ga_entry_beg := entry_beg,
                           ga_entry_end := entry_end, ga_current_entry := entry_beg\<rparr>;
               cell_count = count_cells (qa_indices qaxis) cell_size (entry_end - entry_beg) entry_beg UINT64_MAX 0;
               axis = (if cell_count \<noteq> 0
                       then axis\<lparr>ga_current_cell := entry_cell (qa_indices qaxis) cell_size entry_beg\<rparr> else axis)
           in (axis, cell_count)
         else (axis, cell_count))"

fun selection_grid_init_loop ::
    "nat \<Rightarrow> (damacy_interval \<times> query_axis \<times> nat \<times> nat option \<times> nat option) list \<Rightarrow> selection_grid \<Rightarrow>
     damacy_status + selection_grid" where
  "selection_grid_init_loop max_cells [] grid = Inr grid"
| "selection_grid_init_loop max_cells ((bounds, qaxis, cell_size, clip_beg, clip_end) # ds) grid =
     (if iv_beg bounds < 0 \<or> iv_end bounds \<le> iv_beg bounds \<or> cell_size = 0 then Inl DAMACY_INVAL
      else
        let (axis, cell_count) = grid_axis_init bounds qaxis cell_size clip_beg clip_end;
            grid = grid\<lparr>grid_axes := grid_axes grid @ [axis]\<rparr>
        in if cell_count = 0 then
             selection_grid_init_loop max_cells ds (grid\<lparr>grid_count := 0, grid_finished := True\<rparr>)
           else if grid_count grid > max_cells div cell_count then Inl DAMACY_BUDGET
           else selection_grid_init_loop max_cells ds (grid\<lparr>grid_count := grid_count grid * cell_count\<rparr>))"

text \<open>The clip arrays are optional; the axes of the grid are those below the rank.\<close>

definition clip_at :: "nat list option \<Rightarrow> nat \<Rightarrow> nat option" where
  "clip_at clip d = map_option (\<lambda>cs. cs ! d) clip"

definition selection_grid_init ::
    "damacy_aabb \<Rightarrow> query_axis list \<Rightarrow> nat list \<Rightarrow> nat list option \<Rightarrow> nat list option \<Rightarrow> nat \<Rightarrow>
     damacy_status + selection_grid" where
  "selection_grid_init bounds axes cell_shape clip_beg clip_end max_cells =
     (let rank = aabb_rank bounds;
          grid = \<lparr>grid_axes = [], grid_count = 1, grid_rank = rank, grid_finished = False\<rparr>
      in if rank = 0 \<or> rank > DAMACY_MAX_RANK then Inl DAMACY_RANK
         else selection_grid_init_loop max_cells
                (map (\<lambda>d. (aabb_dims bounds ! d, axes ! d, cell_shape ! d, clip_at clip_beg d, clip_at clip_end d))
                  [0..<rank])
                grid)"

text \<open>The inner \<open>while\<close> loop of \<open>selection_grid_next\<close> over the entries of an index axis.\<close>

function scan_entries :: "query_index list \<Rightarrow> selection_grid_axis \<Rightarrow> selection_grid_axis \<times> bool" where
  "scan_entries indices axis =
     (let entry = ga_current_entry axis + 1;
          axis' = axis\<lparr>ga_current_entry := entry\<rparr>
      in if entry < ga_entry_end axis then
           let cell = entry_cell indices (ga_cell_size_index axis) entry
           in if cell \<noteq> ga_current_cell axis then (axis'\<lparr>ga_current_cell := cell\<rparr>, True)
              else scan_entries indices axis'
         else (axis', False))"
  by auto
termination
  by (relation "measure (\<lambda>(indices, axis). ga_entry_end axis - ga_current_entry axis)") auto

declare scan_entries.simps [simp del]

definition grid_axis_step :: "selection_grid_axis \<Rightarrow> selection_grid_axis \<times> bool" where
  "grid_axis_step axis =
     (case ga_indices axis of
        Some indices \<Rightarrow>
          let (axis, more) = scan_entries indices axis
          in if more then (axis, True)
             else (axis\<lparr>ga_current_entry := ga_entry_beg axis,
                        ga_current_cell := entry_cell indices (ga_cell_size_index axis) (ga_entry_beg axis)\<rparr>, False)
      | None \<Rightarrow>
          let cell = u64_add (ga_current_cell axis) 1
          in if cell < ga_cell_end axis then (axis\<lparr>ga_current_cell := cell\<rparr>, True)
             else (axis\<lparr>ga_current_cell := ga_cell_beg axis\<rparr>, False))"

definition selection_grid_next :: "selection_grid \<Rightarrow> selection_grid \<times> nat list option" where
  "selection_grid_next grid =
     (if grid_finished grid then (grid, None)
      else let coordinate_cell = map ga_current_cell (take (grid_rank grid) (grid_axes grid));
               (axes, more) = carry_loop grid_axis_step (grid_rank grid) (grid_axes grid)
           in (grid\<lparr>grid_axes := axes, grid_finished := \<not> more\<rparr>, Some coordinate_cell))"

end
