(* ===== verification/Selection_Correct.thy ===== *)
theory Selection_Correct
  imports Selection
begin

text \<open>
  Correctness of src/src/query/selection.c: the binary search returns the number of smaller indices,
  a chunk span holds exactly the selected positions inside the chunk, the copy sorts each index list
  and bounds it tightly, and the grid iterator enumerates in row-major order exactly the cells that
  hold a selected position, its \<open>count\<close> being their number.
\<close>

section \<open>Sorted axes\<close>

abbreviation ekey :: "query_index list \<Rightarrow> nat \<Rightarrow> nat" where
  "ekey indices i \<equiv> u64_of_int (qi_source (indices ! i))"

text \<open>An index axis as \<open>query_copy\<close> leaves it; an interval axis has no indices.\<close>

definition axis_ok :: "query_axis \<Rightarrow> bool" where
  "axis_ok axis \<longleftrightarrow> qa_count axis = length (qa_indices axis) \<and> sorted (qa_indices axis) \<and>
     (\<forall>q\<in>set (qa_indices axis). 0 \<le> qi_source q \<and> qi_source q < INT64_MAX) \<and> length (qa_indices axis) < 2 ^ 32"

lemma query_index_le: "a \<le> b \<Longrightarrow> qi_source a \<le> qi_source b"
  by (auto simp: less_eq_query_index_def compare_indices_def split: if_splits)

lemma axis_ok_ekey:
  assumes "axis_ok axis" and "i < qa_count axis"
  shows "ekey (qa_indices axis) i = nat (qi_source (qa_indices axis ! i))" and "ekey (qa_indices axis) i < 2 ^ 63"
proof -
  have "0 \<le> qi_source (qa_indices axis ! i) \<and> qi_source (qa_indices axis ! i) < INT64_MAX"
    using assms unfolding axis_ok_def by (metis nth_mem)
  then show "ekey (qa_indices axis) i = nat (qi_source (qa_indices axis ! i))"
    and "ekey (qa_indices axis) i < 2 ^ 63" by (auto simp: u64_of_int_nat)
qed

lemma axis_ok_mono:
  assumes "axis_ok axis" and "i \<le> j" and "j < qa_count axis"
  shows "ekey (qa_indices axis) i \<le> ekey (qa_indices axis) j"
proof -
  have "qa_indices axis ! i \<le> qa_indices axis ! j" using assms unfolding axis_ok_def by (intro sorted_nth_mono) auto
  from query_index_le [OF this] axis_ok_ekey(1) [OF assms(1), of i] axis_ok_ekey(1) [OF assms(1), of j] assms
  show ?thesis by simp
qed

section \<open>Binary search\<close>

lemma query_lower_bound_loop_result:
  assumes "lo \<le> hi" and "hi \<le> n" and "\<And>i j. i \<le> j \<Longrightarrow> j < n \<Longrightarrow> ekey indices i \<le> ekey indices j"
    and "\<forall>i<lo. ekey indices i < src" and "\<forall>i. hi \<le> i \<and> i < n \<longrightarrow> src \<le> ekey indices i"
  shows "query_lower_bound_loop indices src lo hi \<le> n \<and>
    (\<forall>i<n. i < query_lower_bound_loop indices src lo hi \<longleftrightarrow> ekey indices i < src)"
  using assms
proof (induction indices src lo hi rule: query_lower_bound_loop.induct)
  case (1 indices src lo hi)
  show ?case
  proof (cases "lo < hi")
    case False
    with 1(3-) have "lo = hi" by simp
    with 1(3-) have "\<forall>i<n. i < lo \<longleftrightarrow> ekey indices i < src" by (metis linorder_not_le)
    with 1(3-) \<open>lo = hi\<close> show ?thesis by (simp add: query_lower_bound_loop.simps [of indices src hi hi])
  next
    case True
    define mid where "mid = lo + (hi - lo) div 2"
    have mid: "lo \<le> mid" "mid < hi" using True by (auto simp: mid_def)
    show ?thesis
    proof (cases "ekey indices mid < src")
      case lt: True
      have "\<forall>i<mid + 1. ekey indices i < src"
        using 1(5) mid 1(4) lt by (metis Suc_eq_plus1 less_Suc_eq_le order_le_less_trans order_less_le_trans)
      with 1(1) [OF True mid_def lt] 1(3-) mid show ?thesis
        by (simp add: query_lower_bound_loop.simps [of indices src lo hi] True mid_def [symmetric] lt)
    next
      case ge: False
      have "\<forall>i. mid \<le> i \<and> i < n \<longrightarrow> src \<le> ekey indices i"
        using 1(5) ge by (meson linorder_not_le order_trans)
      with 1(2) [OF True mid_def ge] 1(3-) mid show ?thesis
        by (simp add: query_lower_bound_loop.simps [of indices src lo hi] True mid_def [symmetric] ge)
    qed
  qed
qed

lemma query_lower_bound_result:
  assumes "axis_ok axis"
  shows "query_lower_bound axis src \<le> qa_count axis"
    and "i < qa_count axis \<Longrightarrow> i < query_lower_bound axis src \<longleftrightarrow> ekey (qa_indices axis) i < src"
  using query_lower_bound_loop_result [of 0 "qa_count axis" "qa_count axis" "qa_indices axis" src]
    axis_ok_mono [OF assms] unfolding query_lower_bound_def by auto

lemma query_lower_bound_mono:
  assumes "axis_ok axis" and "a \<le> b"
  shows "query_lower_bound axis a \<le> query_lower_bound axis b"
proof (rule ccontr)
  assume n: "\<not> ?thesis"
  then have lt: "query_lower_bound axis b < qa_count axis"
    using query_lower_bound_result(1) [OF assms(1), of a] by simp
  with n query_lower_bound_result(2) [OF assms(1) lt, of a] query_lower_bound_result(2) [OF assms(1) lt, of b] assms(2)
  show False by simp
qed

lemma query_chunk_span_indices:
  assumes ok: "axis_ok axis" and "qa_count axis \<noteq> 0" and "origin \<le> UINT64_MAX" and "extent \<le> UINT64_MAX"
    and sp_def: "sp = query_chunk_span axis bounds origin extent"
  shows "span_begin sp + span_count sp \<le> qa_count axis \<and>
    (\<forall>i<qa_count axis. (span_begin sp \<le> i \<and> i < span_begin sp + span_count sp) \<longleftrightarrow>
       origin \<le> ekey (qa_indices axis) i \<and> ekey (qa_indices axis) i < origin + extent)"
proof -
  define e where "e = (if origin > UINT64_MAX - extent then UINT64_MAX else origin + extent)"
  have e: "origin \<le> e" using assms(3) by (simp add: e_def)
  note r = query_lower_bound_result [OF ok] and m = query_lower_bound_mono [OF ok e]
  have "qa_count axis < 2 ^ 32" using ok by (simp add: axis_ok_def)
  then have sub: "u32_sub (query_lower_bound axis e) (query_lower_bound axis origin) =
      query_lower_bound axis e - query_lower_bound axis origin"
    using m r(1) [of e] by (intro u32_sub_exact) auto
  have sp: "span_begin sp = query_lower_bound axis origin"
    "span_begin sp + span_count sp = query_lower_bound axis e"
  proof -
    have "sp = \<lparr>span_begin = query_lower_bound axis origin,
        span_count = u32_sub (query_lower_bound axis e) (query_lower_bound axis origin)\<rparr>"
      unfolding sp_def query_chunk_span_def Let_def e_def using assms(2) by simp
    with sub m show "span_begin sp = query_lower_bound axis origin"
      "span_begin sp + span_count sp = query_lower_bound axis e" by simp_all
  qed
  have "ekey (qa_indices axis) i < e \<longleftrightarrow> ekey (qa_indices axis) i < origin + extent" if "i < qa_count axis" for i
    using axis_ok_ekey(2) [OF ok that] assms(4) by (auto simp: e_def)
  with r sp show ?thesis by (metis linorder_not_le)
qed

lemma query_chunk_span_interval:
  assumes "qa_count axis = 0" and "0 \<le> iv_beg bounds" "iv_beg bounds \<le> INT64_MAX" "0 \<le> iv_end bounds" "iv_end bounds \<le> INT64_MAX"
    and "origin \<le> UINT64_MAX" and "extent \<le> UINT64_MAX"
    and sp_def: "sp = query_chunk_span axis bounds origin extent"
  shows "{span_begin sp..<span_begin sp + span_count sp} =
    {origin..<origin + extent} \<inter> {nat (iv_beg bounds)..<nat (iv_end bounds)}"
proof -
  define b where "b = nat (iv_beg bounds)"
  define f where "f = nat (iv_end bounds)"
  have u: "u64_of_int (iv_beg bounds) = b" "u64_of_int (iv_end bounds) = f"
    using assms by (auto simp: u64_of_int_nat b_def f_def)
  have f: "f < 2 ^ 63" using assms(4,5) by (simp add: f_def nat_less_iff)
  show ?thesis
    unfolding b_def [symmetric] f_def [symmetric] using f assms(1,6,7)
    by (auto simp: sp_def query_chunk_span_def Let_def u split: if_splits)
qed

section \<open>Distinct cells of sorted entries\<close>

lemma distinct_remdups_adj_sorted: "sorted (xs :: nat list) \<Longrightarrow> distinct (remdups_adj xs)"
proof (induction xs rule: remdups_adj.induct)
  case (3 x y xs)
  then show ?case by auto
qed auto

lemma remdups_adj_sorted_list_of_set:
  assumes "sorted (xs :: nat list)" and "set xs = S"
  shows "remdups_adj xs = sorted_list_of_set S"
  using assms distinct_remdups_adj_sorted [OF assms(1)] sorted_remdups_adj [OF assms(1)]
  by (metis List.finite_set remdups_adj_set set_sorted_list_of_set sorted_distinct_set_unique distinct_sorted_list_of_set sorted_sorted_list_of_set)

lemma count_cells_result:
  "Suc (count_cells indices cs left e previous n) =
     n + length (remdups_adj (previous # map (entry_cell indices cs) [e..<e + left]))"
proof (induction left arbitrary: e previous n)
  case (Suc left)
  have "[e..<e + Suc left] = e # [Suc e..<Suc e + left]" by (simp add: upt_rec)
  with Suc [of "Suc e" "entry_cell indices cs e"] show ?case by (auto simp: Let_def)
qed simp

section \<open>One axis of the grid\<close>

definition ga_ok :: "selection_grid_axis \<Rightarrow> bool" where
  "ga_ok axis \<longleftrightarrow>
     (case ga_indices axis of
        None \<Rightarrow> ga_cell_beg axis \<le> ga_current_cell axis \<and> ga_current_cell axis < ga_cell_end axis \<and>
                ga_cell_end axis \<le> UINT64_MAX
      | Some indices \<Rightarrow> ga_entry_beg axis \<le> ga_current_entry axis \<and> ga_current_entry axis < ga_entry_end axis \<and>
                ga_current_cell axis = entry_cell indices (ga_cell_size_index axis) (ga_current_entry axis))"

definition ga_cells_from :: "selection_grid_axis \<Rightarrow> nat \<Rightarrow> nat list" where
  "ga_cells_from axis e =
     (case ga_indices axis of
        None \<Rightarrow> [e..<ga_cell_end axis]
      | Some indices \<Rightarrow> remdups_adj (map (entry_cell indices (ga_cell_size_index axis)) [e..<ga_entry_end axis]))"

definition ga_rest :: "selection_grid_axis \<Rightarrow> nat list" where
  "ga_rest axis = ga_cells_from axis (case ga_indices axis of None \<Rightarrow> ga_current_cell axis | Some _ \<Rightarrow> ga_current_entry axis)"

definition ga_every :: "selection_grid_axis \<Rightarrow> nat list" where
  "ga_every axis = ga_cells_from axis (case ga_indices axis of None \<Rightarrow> ga_cell_beg axis | Some _ \<Rightarrow> ga_entry_beg axis)"

lemma scan_entries_result:
  fixes axis :: selection_grid_axis
  assumes "ga_current_entry axis < ga_entry_end axis"
    and "ga_current_cell axis = entry_cell indices (ga_cell_size_index axis) (ga_current_entry axis)"
  shows "let c = entry_cell indices (ga_cell_size_index axis); e = ga_current_entry axis; f = ga_entry_end axis in
    (\<exists>e'. scan_entries indices axis = (axis\<lparr>ga_current_entry := e', ga_current_cell := c e'\<rparr>, True) \<and> e < e' \<and> e' < f \<and>
       remdups_adj (map c [e..<f]) = c e # remdups_adj (map c [e'..<f])) \<or>
    (\<exists>e'. scan_entries indices axis = (axis\<lparr>ga_current_entry := e'\<rparr>, False) \<and> remdups_adj (map c [e..<f]) = [c e])"
  using assms
proof (induction indices axis rule: scan_entries.induct)
  case (1 indices axis)
  define c where "c = entry_cell indices (ga_cell_size_index axis)"
  define e where "e = ga_current_entry axis"
  define f where "f = ga_entry_end axis"
  note u = scan_entries.simps [of indices axis]
  have up: "[e..<f] = e # [Suc e..<f]" using 1(2) by (simp add: e_def f_def upt_rec)
  show ?case
  proof (cases "Suc e < f")
    case False
    then have "[Suc e..<f] = []" by simp
    with False show ?thesis unfolding u Let_def
      by (intro disjI2 exI [of _ "Suc e"]) (simp add: up c_def [symmetric] e_def [symmetric] f_def [symmetric])
  next
    case True
    then have up': "[Suc e..<f] = Suc e # [Suc (Suc e)..<f]" by (simp add: upt_rec)
    show ?thesis
    proof (cases "c (Suc e) = c e")
      case False
      with True show ?thesis unfolding u Let_def
        by (intro disjI1 exI [of _ "Suc e"])
          (use 1(3) in \<open>simp add: up up' c_def [symmetric] e_def [symmetric] f_def [symmetric]\<close>)
    next
      case same: True
      let ?b = "axis\<lparr>ga_current_entry := Suc e\<rparr>"
      have s: "scan_entries indices axis = scan_entries indices ?b"
        using True same 1(3) unfolding u by (simp add: Let_def c_def [symmetric] e_def [symmetric] f_def [symmetric])
      have r: "remdups_adj (map c [e..<f]) = remdups_adj (map c [Suc e..<f])" using same by (simp add: up up')
      have IH: "(\<exists>e'. scan_entries indices ?b = (?b\<lparr>ga_current_entry := e', ga_current_cell := c e'\<rparr>, True) \<and> Suc e < e' \<and> e' < f \<and>
          remdups_adj (map c [Suc e..<f]) = c (Suc e) # remdups_adj (map c [e'..<f])) \<or>
        (\<exists>e'. scan_entries indices ?b = (?b\<lparr>ga_current_entry := e'\<rparr>, False) \<and> remdups_adj (map c [Suc e..<f]) = [c (Suc e)])"
        using 1(1) [of "Suc e" ?b "c (Suc e)"] True same 1(3)
        by (simp add: Let_def c_def [symmetric] e_def [symmetric] f_def [symmetric])
      show ?thesis
        unfolding Let_def c_def [symmetric] e_def [symmetric] f_def [symmetric] s r
        using IH same by (auto simp: selection_grid_axis.defs)
    qed
  qed
qed

lemma ga_rest_Some: "ga_indices axis = Some indices \<Longrightarrow>
    ga_rest axis = remdups_adj (map (entry_cell indices (ga_cell_size_index axis)) [ga_current_entry axis..<ga_entry_end axis])"
  by (simp add: ga_rest_def ga_cells_from_def)

interpretation grid_axes_odo: odometer ga_ok grid_axis_step ga_current_cell ga_rest ga_every
proof
  fix a assume ok: "ga_ok a"
  show "ga_rest a = ga_current_cell a # tl (ga_rest a)"
  proof (cases "ga_indices a")
    case None
    with ok show ?thesis by (simp add: ga_ok_def ga_rest_def ga_cells_from_def upt_rec)
  next
    case (Some indices)
    with ok have "[ga_current_entry a..<ga_entry_end a] = ga_current_entry a # [Suc (ga_current_entry a)..<ga_entry_end a]"
      by (simp add: ga_ok_def upt_rec)
    with Some ok show ?thesis by (simp add: ga_rest_Some ga_ok_def remdups_adj_Cons split: list.splits)
  qed
  {
    assume more: "tl (ga_rest a) \<noteq> []"
    show "\<exists>b. grid_axis_step a = (b, True) \<and> ga_ok b \<and> ga_rest b = tl (ga_rest a) \<and> ga_every b = ga_every a"
    proof (cases "ga_indices a")
      case None
      then have "tl (ga_rest a) = [Suc (ga_current_cell a)..<ga_cell_end a]" by (simp add: ga_rest_def ga_cells_from_def)
      with more have lt: "Suc (ga_current_cell a) < ga_cell_end a" by simp
      then have "u64_add (ga_current_cell a) 1 = Suc (ga_current_cell a)"
        using ok None by (subst u64_add_exact) (auto simp: ga_ok_def)
      with None ok lt show ?thesis
        by (simp add: grid_axis_step_def ga_ok_def ga_rest_def ga_every_def ga_cells_from_def)
    next
      case (Some indices)
      from scan_entries_result [of a indices] ok Some more ga_rest_Some [OF Some] show ?thesis
        by (auto simp: Let_def grid_axis_step_def ga_ok_def ga_every_def ga_rest_def ga_cells_from_def)
    qed
  next
    assume last: "tl (ga_rest a) = []"
    show "\<exists>b. grid_axis_step a = (b, False) \<and> ga_ok b \<and> ga_rest b = ga_every a \<and> ga_every b = ga_every a"
    proof (cases "ga_indices a")
      case None
      then have "tl (ga_rest a) = [Suc (ga_current_cell a)..<ga_cell_end a]" by (simp add: ga_rest_def ga_cells_from_def)
      with last have ge: "\<not> Suc (ga_current_cell a) < ga_cell_end a" by auto
      have "u64_add (ga_current_cell a) 1 = Suc (ga_current_cell a)"
        using ok None by (subst u64_add_exact) (auto simp: ga_ok_def)
      with None ok ge show ?thesis
        by (simp add: grid_axis_step_def ga_ok_def ga_rest_def ga_every_def ga_cells_from_def)
    next
      case (Some indices)
      have ne: "remdups_adj (map c [e'..<f]) \<noteq> []" if "e' < f" for c :: "nat \<Rightarrow> nat" and e' f using that by simp
      from scan_entries_result [of a indices] ok Some last ga_rest_Some [OF Some] show ?thesis
        by (auto simp: Let_def grid_axis_step_def ga_ok_def ga_every_def ga_rest_def ga_cells_from_def ne)
    qed
  }
qed

text \<open>The grid runs the odometer on its axes.\<close>

definition grid_pair :: "selection_grid \<Rightarrow> selection_grid_axis list \<times> bool" where
  "grid_pair grid = (grid_axes grid, grid_finished grid)"

lemma carry_loop_length: "length (fst (carry_loop step d as)) = length as"
  by (induction d arbitrary: as) (auto simp: Let_def split: prod.splits)

lemma selection_grid_collect:
  assumes "length (grid_axes grid) = grid_rank grid"
  shows "odo_collect selection_grid_next n grid = odo_collect (odo_next grid_axis_step ga_current_cell) n (grid_pair grid)"
  using assms
proof (induction n arbitrary: grid)
  case (Suc n)
  show ?case
  proof (cases "grid_finished grid")
    case True
    then show ?thesis by (simp add: selection_grid_next_def grid_pair_def)
  next
    case False
    obtain as more where c: "carry_loop grid_axis_step (grid_rank grid) (grid_axes grid) = (as, more)" by fastforce
    let ?g = "grid\<lparr>grid_axes := as, grid_finished := \<not> more\<rparr>"
    have "length as = grid_rank grid" using carry_loop_length [of grid_axis_step "grid_rank grid" "grid_axes grid"] c Suc.prems by simp
    then have "odo_collect selection_grid_next n ?g = odo_collect (odo_next grid_axis_step ga_current_cell) n (as, \<not> more)"
      using Suc.IH [of ?g] by (simp add: grid_pair_def)
    then show ?thesis using False c Suc.prems by (simp add: selection_grid_next_def [of grid] grid_pair_def)
  qed
qed simp

section \<open>The cells of a selection\<close>

definition axis_positions :: "damacy_interval \<Rightarrow> query_axis \<Rightarrow> nat set" where
  "axis_positions bounds qaxis =
     (if qa_count qaxis = 0 then {nat (iv_beg bounds)..<nat (iv_end bounds)}
      else (\<lambda>q. nat (qi_source q)) ` set (qa_indices qaxis))"

definition in_clip :: "nat option \<Rightarrow> nat option \<Rightarrow> nat \<Rightarrow> bool" where
  "in_clip clip_beg clip_end c \<longleftrightarrow>
     (case clip_beg of None \<Rightarrow> True | Some b \<Rightarrow> b \<le> c) \<and> (case clip_end of None \<Rightarrow> True | Some e \<Rightarrow> c < e)"

text \<open>The cells of one axis, in ascending order, that hold a selected position and lie inside the clip.\<close>

definition axis_cells :: "damacy_interval \<Rightarrow> query_axis \<Rightarrow> nat \<Rightarrow> nat option \<Rightarrow> nat option \<Rightarrow> nat list" where
  "axis_cells bounds qaxis cell_size clip_beg clip_end =
     sorted_list_of_set {c \<in> (\<lambda>x. x div cell_size) ` axis_positions bounds qaxis. in_clip clip_beg clip_end c}"

text \<open>What \<open>query_copy\<close> guarantees of one axis: sorted indices inside the bounds.\<close>

definition axis_fits :: "damacy_interval \<Rightarrow> query_axis \<Rightarrow> bool" where
  "axis_fits bounds qaxis \<longleftrightarrow> axis_ok qaxis \<and> iv_end bounds \<le> INT64_MAX \<and>
     (\<forall>q\<in>set (qa_indices qaxis). iv_beg bounds \<le> qi_source q \<and> qi_source q < iv_end bounds)"

lemma div_image_interval:
  assumes "(b :: nat) < e" and "0 < k"
  shows "(\<lambda>x. x div k) ` {b..<e} = {b div k..<(e - 1) div k + 1}"
proof (intro set_eqI iffI)
  fix c assume "c \<in> (\<lambda>x. x div k) ` {b..<e}"
  then obtain x where x: "b \<le> x" "x \<le> e - 1" "c = x div k" using assms by auto
  then show "c \<in> {b div k..<(e - 1) div k + 1}" using div_le_mono [OF x(1)] div_le_mono [OF x(2)] by (simp add: less_Suc_eq_le)
next
  fix c assume c: "c \<in> {b div k..<(e - 1) div k + 1}"
  define x where "x = max b (c * k)"
  have "x div k = c"
  proof (cases "b \<le> c * k")
    case True
    then show ?thesis using assms(2) by (simp add: x_def max_def)
  next
    case False
    then have "c \<le> b div k" using assms(2) by (simp add: less_eq_div_iff_mult_less_eq)
    with c False show ?thesis by (simp add: x_def)
  qed
  moreover have "c * k \<le> e - 1" using c assms(2) by (simp add: less_eq_div_iff_mult_less_eq less_Suc_eq_le)
  then have "x \<in> {b..<e}" using assms(1) by (auto simp: x_def)
  ultimately show "c \<in> (\<lambda>x. x div k) ` {b..<e}" by blast
qed

lemma clip_interval:
  "{c \<in> {b..<e}. in_clip cb ce c} =
     {(case cb of None \<Rightarrow> b | Some c \<Rightarrow> if b < c then c else b)..<(case ce of None \<Rightarrow> e | Some c \<Rightarrow> if e > c then c else e)}"
  by (auto simp: in_clip_def split: option.splits if_splits)

lemma cell_start_index_less:
  assumes "x < 2 ^ 63" and "0 < cs"
  shows "x < cell_start_index c cs \<longleftrightarrow> x div cs < c"
proof (cases "c > UINT64_MAX div cs")
  case True
  have "x div cs \<le> UINT64_MAX div cs" using assms(1) by (intro div_le_mono) simp
  with True assms show ?thesis by (simp add: cell_start_index_def)
next
  case False
  then show ?thesis using assms(2) by (simp add: cell_start_index_def div_less_iff_less_mult)
qed

lemma axis_entries_cells:
  assumes fits: "axis_fits bounds qaxis" and cs: "0 < cs" and n: "qa_count qaxis \<noteq> 0"
    and eb_def: "eb = query_lower_bound qaxis (cell_start_index b cs)"
    and ee_def: "ee = query_lower_bound qaxis (cell_start_index e cs)"
  shows "remdups_adj (map (entry_cell (qa_indices qaxis) cs) [eb..<ee]) =
    sorted_list_of_set {c \<in> (\<lambda>x. x div cs) ` axis_positions bounds qaxis. b \<le> c \<and> c < e}"
proof (rule remdups_adj_sorted_list_of_set)
  from fits have ok: "axis_ok qaxis" by (simp add: axis_fits_def)
  note r = query_lower_bound_result [OF ok]
  have le: "ee \<le> qa_count qaxis" using r(1) by (simp add: ee_def)
  have mono: "entry_cell (qa_indices qaxis) cs i \<le> entry_cell (qa_indices qaxis) cs j" if "i \<le> j" "j < qa_count qaxis" for i j
    unfolding entry_cell_def using axis_ok_mono [OF ok that] by (rule div_le_mono)
  show "sorted (map (entry_cell (qa_indices qaxis) cs) [eb..<ee])"
    unfolding sorted_iff_nth_mono using le by (auto intro!: mono)
  have mem: "eb \<le> i \<and> i < ee \<longleftrightarrow> b \<le> entry_cell (qa_indices qaxis) cs i \<and> entry_cell (qa_indices qaxis) cs i < e"
    if "i < qa_count qaxis" for i
    using r(2) [OF that] axis_ok_ekey(2) [OF ok that] cs cell_start_index_less [of "ekey (qa_indices qaxis) i" cs]
    unfolding eb_def ee_def entry_cell_def by (metis linorder_not_le)
  have cell: "entry_cell (qa_indices qaxis) cs i = nat (qi_source (qa_indices qaxis ! i)) div cs" if "i < qa_count qaxis" for i
    using axis_ok_ekey(1) [OF ok that] by (simp add: entry_cell_def)
  have len: "qa_count qaxis = length (qa_indices qaxis)" using ok by (simp add: axis_ok_def)
  have "set (map (entry_cell (qa_indices qaxis) cs) [eb..<ee]) =
      entry_cell (qa_indices qaxis) cs ` {i. i < qa_count qaxis \<and> eb \<le> i \<and> i < ee}" using le by auto
  also have "\<dots> = {c \<in> (\<lambda>i. nat (qi_source (qa_indices qaxis ! i)) div cs) ` {..<qa_count qaxis}. b \<le> c \<and> c < e}"
    using mem cell by auto
  also have "(\<lambda>i. nat (qi_source (qa_indices qaxis ! i)) div cs) ` {..<qa_count qaxis} = (\<lambda>x. x div cs) ` axis_positions bounds qaxis"
  proof -
    have "set (qa_indices qaxis) = (!) (qa_indices qaxis) ` {..<qa_count qaxis}" unfolding len by (auto simp: set_conv_nth)
    then show ?thesis using n by (simp add: axis_positions_def image_image)
  qed
  finally show "set (map (entry_cell (qa_indices qaxis) cs) [eb..<ee]) =
      {c \<in> (\<lambda>x. x div cs) ` axis_positions bounds qaxis. b \<le> c \<and> c < e}" .
qed

text \<open>A selected position is inside the bounds, so its cell is inside the unclipped cell span.\<close>

lemma axis_positions_span:
  assumes fits: "axis_fits bounds qaxis" and iv: "0 \<le> iv_beg bounds" "iv_beg bounds < iv_end bounds" and cs: "0 < cs"
  shows "(\<lambda>x. x div cs) ` axis_positions bounds qaxis \<subseteq>
    {nat (iv_beg bounds) div cs..<(nat (iv_end bounds) - 1) div cs + 1}"
proof -
  have lt: "nat (iv_beg bounds) < nat (iv_end bounds)" using iv by simp
  have "axis_positions bounds qaxis \<subseteq> {nat (iv_beg bounds)..<nat (iv_end bounds)}"
    using fits iv by (auto simp: axis_positions_def axis_fits_def nat_less_iff)
  with div_image_interval [OF lt cs] show ?thesis by blast
qed

lemma clip_bounds:
  assumes "X \<subseteq> {b..<e}"
  shows "{c \<in> X. in_clip cb ce c} =
    {c \<in> X. (case cb of None \<Rightarrow> b | Some c \<Rightarrow> if b < c then c else b) \<le> c \<and> c < (case ce of None \<Rightarrow> e | Some c \<Rightarrow> if e > c then c else e)}"
  using clip_interval [of b e cb ce] assms by fastforce

lemma grid_axis_init_result:
  assumes fits: "axis_fits bounds qaxis" and iv: "0 \<le> iv_beg bounds" "iv_beg bounds < iv_end bounds" and cs: "0 < cs"
    and i: "grid_axis_init bounds qaxis cs cb ce = (axis, n)"
  shows "n = length (axis_cells bounds qaxis cs cb ce) \<and>
    (n \<noteq> 0 \<longrightarrow> ga_ok axis \<and> ga_rest axis = ga_every axis \<and> ga_every axis = axis_cells bounds qaxis cs cb ce)"
proof -
  define b where "b = nat (iv_beg bounds) div cs"
  define e where "e = (nat (iv_end bounds) - 1) div cs + 1"
  define b' where "b' = (case cb of None \<Rightarrow> b | Some c \<Rightarrow> if b < c then c else b)"
  define e' where "e' = (case ce of None \<Rightarrow> e | Some c \<Rightarrow> if e > c then c else e)"
  define X where "X = (\<lambda>x. x div cs) ` axis_positions bounds qaxis"
  have X: "X \<subseteq> {b..<e}" using axis_positions_span [OF fits iv cs] by (simp add: X_def b_def e_def)
  have cells: "axis_cells bounds qaxis cs cb ce = sorted_list_of_set {c \<in> X. b' \<le> c \<and> c < e'}"
    using clip_bounds [OF X, of cb ce] by (simp add: axis_cells_def X_def [symmetric] b'_def e'_def)
  have u: "u64_of_int (iv_beg bounds) = nat (iv_beg bounds)" "u64_of_int (iv_end bounds) = nat (iv_end bounds)"
    using fits iv by (auto simp: axis_fits_def intro!: u64_of_int_nat)
  have e64: "e' \<le> UINT64_MAX"
  proof -
    have "nat (iv_end bounds) - 1 < 2 ^ 63" using fits by (auto simp: axis_fits_def)
    then have "(nat (iv_end bounds) - 1) div cs < 2 ^ 63" using div_le_dividend le_less_trans by blast
    then have "e \<le> 2 ^ 63" by (simp add: e_def)
    then show ?thesis by (auto simp: e'_def split: option.splits)
  qed
  note init = i [unfolded grid_axis_init_def u Let_def, folded b_def e_def, folded b'_def e'_def]
  show ?thesis
  proof (cases "qa_count qaxis \<noteq> 0 \<and> b' < e'")
    case False
    have "{c \<in> X. b' \<le> c \<and> c < e'} = {b'..<e'}"
    proof (cases "b' < e'")
      case True
      with False have "X = {b..<e}" using div_image_interval [of "nat (iv_beg bounds)" "nat (iv_end bounds)" cs] iv cs
        by (simp add: X_def axis_positions_def b_def e_def)
      moreover have "b \<le> b'" "e' \<le> e" by (auto simp: b'_def e'_def split: option.splits)
      ultimately show ?thesis by auto
    qed auto
    then have cells': "axis_cells bounds qaxis cs cb ce = [b'..<e']" by (simp add: cells)
    from False init have n: "n = e' - b'" and ax: "axis = \<lparr>ga_indices = None, ga_cell_size_index = cs, ga_cell_beg = b', ga_cell_end = e',
        ga_current_cell = b', ga_entry_beg = 0, ga_entry_end = 0, ga_current_entry = 0\<rparr>" by (auto split: if_splits)
    show ?thesis using e64 by (auto simp: n ax cells' ga_ok_def ga_rest_def ga_every_def ga_cells_from_def)
  next
    case True
    define eb where "eb = query_lower_bound qaxis (cell_start_index b' cs)"
    define ee where "ee = query_lower_bound qaxis (cell_start_index e' cs)"
    let ?c = "entry_cell (qa_indices qaxis) cs"
    let ?L = "map ?c [eb..<ee]"
    have L: "remdups_adj ?L = axis_cells bounds qaxis cs cb ce"
      unfolding cells X_def using True by (intro axis_entries_cells [OF fits cs _ eb_def ee_def]) simp
    have "[eb..<eb + (ee - eb)] = [eb..<ee]" by (cases "eb \<le> ee") simp_all
    then have cc: "Suc (count_cells (qa_indices qaxis) cs (ee - eb) eb UINT64_MAX 0) = length (remdups_adj (UINT64_MAX # ?L))"
      using count_cells_result [of "qa_indices qaxis" cs "ee - eb" eb UINT64_MAX 0] by simp
    have len: "length (remdups_adj (UINT64_MAX # ?L)) = Suc (length (remdups_adj ?L))"
    proof (cases "eb < ee")
      case lt: True
      have ok: "axis_ok qaxis" using fits by (simp add: axis_fits_def)
      have "eb < qa_count qaxis" using lt query_lower_bound_result(1) [OF ok] by (metis ee_def less_le_trans)
      from axis_ok_ekey(2) [OF ok this] have "?c eb < 2 ^ 63"
        unfolding entry_cell_def using div_le_dividend le_less_trans by blast
      moreover have "[eb..<ee] = eb # [Suc eb..<ee]" using lt by (simp add: upt_rec)
      ultimately show ?thesis by simp
    qed simp
    from True init have n: "n = count_cells (qa_indices qaxis) cs (ee - eb) eb UINT64_MAX 0"
      and ax: "n \<noteq> 0 \<Longrightarrow> axis = \<lparr>ga_indices = Some (qa_indices qaxis), ga_cell_size_index = cs, ga_cell_beg = b', ga_cell_end = e',
        ga_current_cell = ?c eb, ga_entry_beg = eb, ga_entry_end = ee, ga_current_entry = eb\<rparr>"
      by (auto simp: eb_def [symmetric] ee_def [symmetric] split: if_splits)
    have nl: "n = length (remdups_adj ?L)" using cc len n by simp
    have "eb < ee" if "n \<noteq> 0" using that nl by (cases "eb < ee") simp_all
    with nl ax L show ?thesis
      by (auto simp: ga_ok_def ga_rest_def ga_every_def ga_cells_from_def)
  qed
qed

section \<open>The whole grid\<close>

fun dim_cells :: "damacy_interval \<times> query_axis \<times> nat \<times> nat option \<times> nat option \<Rightarrow> nat list" where
  "dim_cells (bounds, qaxis, cs, cb, ce) = axis_cells bounds qaxis cs cb ce"

definition dim_fits :: "damacy_interval \<times> query_axis \<times> nat \<times> nat option \<times> nat option \<Rightarrow> bool" where
  "dim_fits d \<longleftrightarrow> axis_fits (fst d) (fst (snd d))"

definition dim_axis :: "damacy_interval \<times> query_axis \<times> nat \<times> nat option \<times> nat option \<Rightarrow> selection_grid_axis \<Rightarrow> bool" where
  "dim_axis d a \<longleftrightarrow> (dim_cells d \<noteq> [] \<longrightarrow> ga_ok a \<and> ga_rest a = ga_every a \<and> ga_every a = dim_cells d)"

lemma selection_grid_init_loop_result:
  assumes "selection_grid_init_loop max_cells ds g0 = Inr g" and "\<forall>d\<in>set ds. dim_fits d"
  shows "\<exists>axes. grid_axes g = grid_axes g0 @ axes \<and> list_all2 dim_axis ds axes \<and> grid_rank g = grid_rank g0 \<and>
    grid_count g = grid_count g0 * prod_list (map (\<lambda>d. length (dim_cells d)) ds) \<and>
    (grid_finished g \<longleftrightarrow> grid_finished g0 \<or> [] \<in> dim_cells ` set ds)"
  using assms
proof (induction ds arbitrary: g0)
  case (Cons d ds)
  obtain bounds qaxis cs cb ce where d: "d = (bounds, qaxis, cs, cb, ce)" by (cases d)
  obtain axis n where i: "grid_axis_init bounds qaxis cs cb ce = (axis, n)" by fastforce
  from Cons.prems(1) have v: "0 \<le> iv_beg bounds" "iv_beg bounds < iv_end bounds" "0 < cs"
    by (auto simp: d split: if_splits)
  have "axis_fits bounds qaxis" using Cons.prems(2) by (simp add: d dim_fits_def)
  from grid_axis_init_result [OF this v i] have n: "n = length (dim_cells d)" and da: "dim_axis d axis"
    by (auto simp: d dim_axis_def)
  let ?g = "g0\<lparr>grid_axes := grid_axes g0 @ [axis]\<rparr>"
  let ?h = "if n = 0 then ?g\<lparr>grid_count := 0, grid_finished := True\<rparr> else ?g\<lparr>grid_count := grid_count g0 * n\<rparr>"
  have "selection_grid_init_loop max_cells ds ?h = Inr g"
    using Cons.prems(1) v i by (auto simp: d Let_def split: if_splits)
  from Cons.IH [OF this] Cons.prems(2) obtain axes where a: "grid_axes g = grid_axes ?h @ axes" "list_all2 dim_axis ds axes"
    "grid_rank g = grid_rank ?h" "grid_count g = grid_count ?h * prod_list (map (\<lambda>d. length (dim_cells d)) ds)"
    "grid_finished g \<longleftrightarrow> grid_finished ?h \<or> [] \<in> dim_cells ` set ds" by auto
  show ?case
    using a da n by (intro exI [of _ "axis # axes"]) (auto split: if_splits)
qed simp

lemma product_lists_eq_Nil: "[] \<in> set xss \<Longrightarrow> product_lists xss = []"
proof -
  assume "[] \<in> set xss"
  then have "length (product_lists xss) = 0" unfolding length_product_lists' by (auto simp: prod_list_zero_iff)
  then show ?thesis by simp
qed

lemma selection_grid_init_loop_enumerates:
  assumes "selection_grid_init_loop max_cells ds \<lparr>grid_axes = [], grid_count = 1, grid_rank = length ds, grid_finished = False\<rparr> = Inr g"
    and "\<forall>d\<in>set ds. dim_fits d"
  shows "odo_collect selection_grid_next n g = take n (product_lists (map dim_cells ds))"
    and "grid_count g = length (product_lists (map dim_cells ds))"
proof -
  from selection_grid_init_loop_result [OF assms] have l: "list_all2 dim_axis ds (grid_axes g)" "grid_rank g = length ds"
    "grid_count g = prod_list (map (\<lambda>d. length (dim_cells d)) ds)" "grid_finished g \<longleftrightarrow> [] \<in> dim_cells ` set ds" by auto
  then show "grid_count g = length (product_lists (map dim_cells ds))" by (simp add: length_product_lists' comp_def)
  have len: "length (grid_axes g) = grid_rank g" using l(1,2) by (simp add: list_all2_lengthD)
  show "odo_collect selection_grid_next n g = take n (product_lists (map dim_cells ds))"
  proof (cases "grid_finished g")
    case True
    then have "product_lists (map dim_cells ds) = []" using l(4) by (intro product_lists_eq_Nil) auto
    moreover have "odo_collect selection_grid_next n g = []" using True by (cases n) (simp_all add: selection_grid_next_def)
    ultimately show ?thesis by simp
  next
    case False
    with l(4) have ne: "\<forall>d\<in>set ds. dim_cells d \<noteq> []" by force
    have "list_all2 (\<lambda>d a. ga_ok a \<and> ga_rest a = ga_every a \<and> ga_every a = dim_cells d) ds (grid_axes g)"
      using l(1) ne by (auto simp: list_all2_conv_all_nth dim_axis_def)
    then have "list_all ga_ok (grid_axes g)" "\<forall>a\<in>set (grid_axes g). ga_rest a = ga_every a"
      "map ga_every (grid_axes g) = map dim_cells ds"
      by (auto simp: list_all2_conv_all_nth list_all_length in_set_conv_nth intro: nth_equalityI)
    then show ?thesis
      using grid_axes_odo.collect_product [of "grid_axes g" n] selection_grid_collect [OF len] False
      by (simp add: grid_pair_def)
  qed
qed

section \<open>The copy\<close>

text \<open>A sample in memory: the arrays hold as many values as they claim, and every number fits its C type.\<close>

definition sel_wf :: "damacy_axis_selection \<Rightarrow> bool" where
  "sel_wf axis \<longleftrightarrow>
     (case axis of
        Axis_Interval iv \<Rightarrow> iv_beg iv \<le> INT64_MAX \<and> iv_end iv \<le> INT64_MAX
      | Axis_Indices values n \<Rightarrow> n < 2 ^ 32 \<and> (\<forall>vs. values = Some vs \<longrightarrow> length vs = n \<and> (\<forall>v\<in>set vs. v \<le> INT64_MAX))
      | Axis_Other \<Rightarrow> True)"

text \<open>What a copied axis has to be: tight bounds, and the (value, position) pairs in ascending order.\<close>

definition axis_copied :: "damacy_axis_selection \<Rightarrow> damacy_interval \<Rightarrow> query_axis \<Rightarrow> bool" where
  "axis_copied axis bounds qaxis \<longleftrightarrow> axis_fits bounds qaxis \<and> 0 \<le> iv_beg bounds \<and> iv_beg bounds < iv_end bounds \<and>
     (case axis of
        Axis_Interval iv \<Rightarrow> bounds = iv \<and> qa_count qaxis = 0
      | Axis_Indices values n \<Rightarrow> qa_count qaxis = n \<and>
          mset (qa_indices qaxis) = mset (map (\<lambda>i. Query_Index (the values ! i) i) [0..<n]) \<and>
          iv_beg bounds = Min (set (the values)) \<and> iv_end bounds = Max (set (the values)) + 1
      | Axis_Other \<Rightarrow> False)"

lemma sorted_source_bounds:
  assumes "sorted qs" and "qs \<noteq> []"
  shows "qi_source (qs ! 0) = Min (qi_source ` set qs)" and "qi_source (qs ! (length qs - 1)) = Max (qi_source ` set qs)"
proof -
  have "qi_source (qs ! 0) \<le> y" if "y \<in> qi_source ` set qs" for y
    using that assms by (auto simp: in_set_conv_nth intro!: query_index_le sorted_nth_mono)
  moreover have "y \<le> qi_source (qs ! (length qs - 1))" if "y \<in> qi_source ` set qs" for y
    using that assms by (auto simp: in_set_conv_nth intro!: query_index_le sorted_nth_mono)
  ultimately show "qi_source (qs ! 0) = Min (qi_source ` set qs)" and "qi_source (qs ! (length qs - 1)) = Max (qi_source ` set qs)"
    using assms(2) by (auto intro!: Min_eqI [symmetric] Max_eqI [symmetric])
qed

lemma copy_axis_indices:
  assumes n: "length vs = n" "0 < n" "n < 2 ^ 32" and good: "\<forall>v\<in>set vs. 0 \<le> v \<and> v < INT64_MAX"
    and c: "copy_axis (Axis_Indices (Some vs) n) = Some (bounds, qaxis)"
  shows "axis_copied (Axis_Indices (Some vs) n) bounds qaxis"
proof -
  define qs where "qs = map (\<lambda>i. Query_Index (vs ! i) i) [0..<n]"
  have src: "qi_source ` set qs = set vs" using n(1) by (force simp: qs_def set_conv_nth)
  have ne: "sort qs \<noteq> []" using n(2) by (metis length_map length_sort length_upt list.size(3) minus_nat.diff_0 not_less_zero qs_def)
  have len: "length (sort qs) = n" "length qs = n" by (simp_all add: qs_def)
  have "\<not> list_ex bad_index vs" using good by (auto simp: list_ex_iff bad_index_def)
  then have b: "bounds = \<lparr>iv_beg = qi_source (sort qs ! 0), iv_end = qi_source (sort qs ! (n - 1)) + 1\<rparr>"
    and q: "qaxis = \<lparr>qa_indices = sort qs, qa_count = n\<rparr>"
    using c n(1) by (auto simp: copy_axis_def Let_def qs_def)
  have mm: "iv_beg bounds = Min (set vs)" "iv_end bounds = Max (set vs) + 1"
    using sorted_source_bounds [OF sorted_sort ne] by (simp_all add: b src len)
  have vne: "set vs \<noteq> {}" using n by auto
  have fits: "axis_fits bounds qaxis"
  proof -
    have r: "\<forall>q\<in>set qs. Min (set vs) \<le> qi_source q \<and> qi_source q < Max (set vs) + 1"
      using src by (auto simp: zle_add1_eq_le intro!: Min_le Max_ge)
    have "\<forall>q\<in>set qs. 0 \<le> qi_source q \<and> qi_source q < INT64_MAX" using good src by blast
    moreover have "Max (set vs) < INT64_MAX" using good vne by (simp add: Max_less_iff)
    ultimately show ?thesis using r mm n(3) by (simp add: axis_fits_def axis_ok_def q len)
  qed
  have "0 \<le> Min (set vs)" "Min (set vs) \<le> Max (set vs)" using good vne by auto
  with fits mm show ?thesis by (simp add: axis_copied_def q qs_def)
qed

lemma axis_length_ok: "axis_length axis = Inr m \<Longrightarrow> sel_wf axis \<Longrightarrow>
    (case axis of Axis_Interval iv \<Rightarrow> 0 \<le> iv_beg iv \<and> iv_beg iv < iv_end iv
     | Axis_Indices values n \<Rightarrow> m = n \<and> 0 < n \<and> values \<noteq> None | Axis_Other \<Rightarrow> False)"
  by (auto simp: axis_length_def split: damacy_axis_selection.splits if_splits)

lemma copy_axis_ok:
  assumes "axis_length axis = Inr m" and "sel_wf axis" and "copy_axis axis = Some (bounds, qaxis)"
  shows "axis_copied axis bounds qaxis"
proof (cases axis)
  case (Axis_Interval iv)
  with assms axis_length_ok [OF assms(1,2)] show ?thesis
    by (auto simp: axis_copied_def axis_fits_def axis_ok_def copy_axis_def sel_wf_def)
next
  case (Axis_Indices arr n)
  with axis_length_ok [OF assms(1,2)] obtain vs where v: "arr = Some vs" "0 < n" by auto
  with Axis_Indices assms(2,3) have l: "length vs = n" "n < 2 ^ 32" "\<forall>v\<in>set vs. v \<le> INT64_MAX" "\<not> list_ex bad_index vs"
    by (auto simp: sel_wf_def copy_axis_def split: if_splits)
  then have "\<forall>v\<in>set vs. 0 \<le> v \<and> v < INT64_MAX" by (fastforce simp: list_ex_iff bad_index_def)
  from copy_axis_indices [OF l(1) v(2) l(2) this] assms(3) Axis_Indices v show ?thesis by simp
next
  case Axis_Other
  with assms show ?thesis by (simp add: copy_axis_def)
qed

lemma copy_axes_ok:
  assumes "copy_axes axes = Some cs" and "\<forall>a\<in>set axes. sel_wf a \<and> (\<exists>m. axis_length a = Inr m)"
  shows "list_all2 (\<lambda>a c. axis_copied a (fst c) (snd c)) axes cs"
  using assms
proof (induction axes arbitrary: cs)
  case (Cons a axes)
  then show ?case using copy_axis_ok [of a] by (auto split: option.splits)
qed simp

lemma count_indices_ok: "count_indices axes c = Inr t \<Longrightarrow> \<forall>a\<in>set axes. \<exists>m. axis_length a = Inr m"
  by (induction axes arbitrary: c) (auto split: sum.splits)

text \<open>Whatever validation accepts, the copy accepts, up to its own allocation.\<close>

lemma axis_length_Inl: "axis_length axis = Inl st \<Longrightarrow> st = DAMACY_INVAL"
  by (auto simp: axis_length_def split: damacy_axis_selection.splits if_splits)

lemma query_validate_loop_ok:
  assumes "query_validate_loop mx axs bytes = DAMACY_OK"
  shows "\<forall>a\<in>set axs. axis_length (fst a) = Inr (u64_of_int (snd a)) \<and> copy_axis (fst a) \<noteq> None"
  using assms
proof (induction axs arbitrary: bytes)
  case (Cons ax axs)
  obtain axis shape where ax: "ax = (axis, shape)" by (cases ax)
  have m: "axis_length axis = Inr (u64_of_int shape)"
    using Cons.prems by (auto simp: ax dest: axis_length_Inl split: sum.splits if_splits)
  have "copy_axis axis \<noteq> None \<and> (\<exists>b. query_validate_loop mx axs b = DAMACY_OK)"
    using Cons.prems m
    by (auto simp: ax copy_axis_def axis_length_def Let_def split: damacy_axis_selection.splits if_splits)
  with Cons.IH m show ?case by (auto simp: ax)
qed simp

lemma copy_axes_some: "\<forall>a\<in>set axes. copy_axis a \<noteq> None \<Longrightarrow> copy_axes axes \<noteq> None"
  by (induction axes) auto

lemma count_indices_some: "\<forall>a\<in>set axes. \<exists>m. axis_length a = Inr m \<Longrightarrow> \<exists>t. count_indices axes c = Inr t"
  by (induction axes arbitrary: c) auto

section \<open>Properties\<close>

text \<open>Copying a well-formed sample succeeds with, for every axis, the (value, output position) pairs sorted by
  value and then position, each exactly once, and with bounds that run from the smallest value to one past the
  largest (for an interval axis: the interval itself); all values and bounds fit a non-negative int64.\<close>

theorem query_copy_sorts:
  assumes "query_copy alloc_ok (Some s) = Inr (uri, bounds, axes)"
    and "sample_rank s \<le> length (sample_axes s)" and "\<forall>a\<in>set (sample_axes s). sel_wf a"
  shows "sample_uri s = Some uri \<and> aabb_rank bounds = sample_rank s \<and> length (aabb_dims bounds) = sample_rank s \<and>
    length axes = DAMACY_MAX_RANK \<and>
    (\<forall>d < sample_rank s. axis_copied (sample_axes s ! d) (aabb_dims bounds ! d) (axes ! d))"
proof -
  let ?axs = "take (sample_rank s) (sample_axes s)"
  from assms(1) obtain t cs where c: "sample_uri s = Some uri" "count_indices ?axs 0 = Inr t" "copy_axes ?axs = Some cs"
    "sample_rank s \<le> DAMACY_MAX_RANK"
    "bounds = \<lparr>aabb_dims = map fst cs, aabb_rank = sample_rank s\<rparr>"
    "axes = map snd cs @ replicate (DAMACY_MAX_RANK - sample_rank s) \<lparr>qa_indices = [], qa_count = 0\<rparr>"
    by (auto simp: query_copy_def Let_def split: option.splits sum.splits if_splits)
  have "list_all2 (\<lambda>a c. axis_copied a (fst c) (snd c)) ?axs cs"
    using copy_axes_ok [OF c(3)] count_indices_ok [OF c(2)] assms(3) by (meson in_set_takeD)
  then have "length cs = sample_rank s" "\<forall>d < sample_rank s. axis_copied (?axs ! d) (fst (cs ! d)) (snd (cs ! d))"
    using assms(2) by (auto simp: list_all2_conv_all_nth)
  then show ?thesis using c by (simp add: nth_append)
qed

definition sel_demo :: damacy_sample where
  "sel_demo = \<lparr>sample_uri = Some ''a'', sample_rank = 2,
     sample_axes = [Axis_Interval \<lparr>iv_beg = 0, iv_end = 10\<rparr>, Axis_Indices (Some [30, 9, 1, 9]) 4]\<rparr>"

theorem query_copy_sorts_witness:
  "\<exists>bounds axes. query_copy (\<lambda>_. True) (Some sel_demo) = Inr (''a'', bounds, axes) \<and>
     axis_copied (sample_axes sel_demo ! 1) (aabb_dims bounds ! 1) (axes ! 1)"
proof -
  have "map_sum id fst (query_copy (\<lambda>_. True) (Some sel_demo)) = Inr ''a''" by code_simp
  then obtain bounds axes where q: "query_copy (\<lambda>_. True) (Some sel_demo) = Inr (''a'', bounds, axes)"
    by (cases "query_copy (\<lambda>_. True) (Some sel_demo)") auto
  have "\<forall>a\<in>set (sample_axes sel_demo). sel_wf a" "sample_rank sel_demo = 2" "length (sample_axes sel_demo) = 2"
    by (simp_all add: sel_demo_def sel_wf_def)
  with query_copy_sorts [OF q] q show ?thesis by simp
qed

text \<open>A sample that validation accepts selects on every axis as many positions as the output shape asks for, and
  copying it afterwards can only fail for lack of memory or because the URI and the indices do not fit the address
  space, never as invalid.\<close>

theorem query_validate_sound:
  assumes "query_validate (Some s) (Some out) max_plan_bytes = DAMACY_OK"
    and "sample_rank s \<le> length (sample_axes s)" and "sample_rank s \<le> length (spec_sample_shape out)"
  shows "sample_rank s = spec_sample_rank out \<and>
    (\<forall>d < sample_rank s. axis_length (sample_axes s ! d) = Inr (u64_of_int (spec_sample_shape out ! d))) \<and>
    (\<forall>st. query_copy alloc_ok (Some s) = Inl st \<longrightarrow> st \<in> {DAMACY_OOM, DAMACY_BUDGET})"
proof -
  let ?z = "take (sample_rank s) (zip (sample_axes s) (spec_sample_shape out))"
  from assms(1) obtain uri where u: "sample_uri s = Some uri" "sample_rank s = spec_sample_rank out" "0 < sample_rank s"
    "sample_rank s \<le> DAMACY_MAX_RANK" and v: "query_validate_loop max_plan_bytes ?z 0 = DAMACY_OK"
    by (auto simp: query_validate_def split: if_splits)
  note ok = query_validate_loop_ok [OF v]
  have z: "?z ! d = (sample_axes s ! d, spec_sample_shape out ! d)" "?z ! d \<in> set ?z" if "d < sample_rank s" for d
    using that assms(2,3) by (auto simp: in_set_conv_nth)
  have ax: "axis_length (sample_axes s ! d) = Inr (u64_of_int (spec_sample_shape out ! d)) \<and> copy_axis (sample_axes s ! d) \<noteq> None"
    if "d < sample_rank s" for d using ok z [OF that] by fastforce
  have all: "\<forall>a\<in>set (take (sample_rank s) (sample_axes s)). (\<exists>m. axis_length a = Inr m) \<and> copy_axis a \<noteq> None"
    using ax by (auto simp: in_set_conv_nth)
  obtain t where t: "count_indices (take (sample_rank s) (sample_axes s)) 0 = Inr t"
    using count_indices_some [of "take (sample_rank s) (sample_axes s)" 0] all by blast
  obtain cs where c: "copy_axes (take (sample_rank s) (sample_axes s)) = Some cs"
    using copy_axes_some [of "take (sample_rank s) (sample_axes s)"] all by blast
  have "st \<in> {DAMACY_OOM, DAMACY_BUDGET}" if "query_copy alloc_ok (Some s) = Inl st" for st
    using that u(1,3,4) by (simp add: query_copy_def Let_def t c split: if_splits)
  with u(2) ax show ?thesis by blast
qed

definition sel_demo_spec :: damacy_batch_spec where
  "sel_demo_spec = \<lparr>spec_dtype = DAMACY_F32, spec_sample_shape = [10, 4], spec_sample_rank = 2, spec_samples_per_batch = 1\<rparr>"

theorem query_validate_sound_witness:
  "axis_length (sample_axes sel_demo ! 1) = Inr (u64_of_int (spec_sample_shape sel_demo_spec ! 1))"
proof -
  have v: "query_validate (Some sel_demo) (Some sel_demo_spec) 1000 = DAMACY_OK" by code_simp
  have r: "sample_rank sel_demo \<le> length (sample_axes sel_demo)" "sample_rank sel_demo \<le> length (spec_sample_shape sel_demo_spec)"
    "1 < sample_rank sel_demo" by (simp_all add: sel_demo_def sel_demo_spec_def)
  from query_validate_sound [OF v r(1,2)] r(3) show ?thesis by blast
qed

text \<open>\<open>query_chunk_span\<close> is exact: for an index axis the span of entries it returns holds precisely the entries whose
  source lies in \<open>[origin, origin + extent)\<close>; for an interval axis the span of positions is precisely the
  intersection of the chunk with the interval. Overflow of \<open>origin + extent\<close> included.\<close>

theorem query_chunk_span_exact:
  assumes "axis_fits bounds axis" and "0 \<le> iv_beg bounds" and "iv_beg bounds < iv_end bounds"
    and "origin \<le> UINT64_MAX" and "extent \<le> UINT64_MAX" and "sp = query_chunk_span axis bounds origin extent"
  shows "if qa_count axis \<noteq> 0
    then span_begin sp + span_count sp \<le> qa_count axis \<and>
      (\<forall>i < qa_count axis. (span_begin sp \<le> i \<and> i < span_begin sp + span_count sp) \<longleftrightarrow>
         int origin \<le> qi_source (qa_indices axis ! i) \<and> qi_source (qa_indices axis ! i) < int (origin + extent))
    else {span_begin sp..<span_begin sp + span_count sp} =
      {origin..<origin + extent} \<inter> {nat (iv_beg bounds)..<nat (iv_end bounds)}"
proof (cases "qa_count axis = 0")
  case True
  have b: "iv_beg bounds \<le> INT64_MAX" "0 \<le> iv_end bounds" "iv_end bounds \<le> INT64_MAX"
    using assms(1-3) by (auto simp: axis_fits_def)
  from query_chunk_span_interval [OF True assms(2) b assms(4-6)] True show ?thesis by simp
next
  case False
  from assms(1) have ok: "axis_ok axis" by (simp add: axis_fits_def)
  have "(int origin \<le> qi_source (qa_indices axis ! i) \<and> qi_source (qa_indices axis ! i) < int (origin + extent)) \<longleftrightarrow>
      (origin \<le> ekey (qa_indices axis) i \<and> ekey (qa_indices axis) i < origin + extent)" if i: "i < qa_count axis" for i
  proof -
    have "0 \<le> qi_source (qa_indices axis ! i)" using ok i unfolding axis_ok_def by (metis nth_mem)
    then show ?thesis unfolding axis_ok_ekey(1) [OF ok i] by linarith
  qed
  with query_chunk_span_indices [OF ok False assms(4-6)] False show ?thesis by simp
qed

definition sel_demo_axis :: query_axis where
  "sel_demo_axis = \<lparr>qa_indices = [Query_Index 1 2, Query_Index 9 1, Query_Index 9 3, Query_Index 30 0], qa_count = 4\<rparr>"

lemma sel_demo_fits: "axis_fits \<lparr>iv_beg = 1, iv_end = 31\<rparr> sel_demo_axis"
  by (simp add: axis_fits_def axis_ok_def sel_demo_axis_def less_eq_query_index_def compare_indices_def)

theorem query_chunk_span_exact_witness:
  "query_chunk_span sel_demo_axis \<lparr>iv_beg = 1, iv_end = 31\<rparr> 8 8 = \<lparr>span_begin = 1, span_count = 2\<rparr> \<and>
   8 \<le> qi_source (qa_indices sel_demo_axis ! 2) \<and> qi_source (qa_indices sel_demo_axis ! 2) < 16"
proof -
  have e: "query_chunk_span sel_demo_axis \<lparr>iv_beg = 1, iv_end = 31\<rparr> 8 8 = \<lparr>span_begin = 1, span_count = 2\<rparr>" by code_simp
  have c: "qa_count sel_demo_axis = 4" by (simp add: sel_demo_axis_def)
  have "\<forall>i < 4. (1 \<le> i \<and> i < 3) \<longleftrightarrow>
      8 \<le> qi_source (qa_indices sel_demo_axis ! i) \<and> qi_source (qa_indices sel_demo_axis ! i) < 16"
    using query_chunk_span_exact [OF sel_demo_fits _ _ _ _ e [symmetric]] c by (simp add: numeral_3_eq_3)
  from spec [OF this, of 2] show ?thesis using e by simp
qed

lemma selection_grid_cells:
  assumes "selection_grid_init bounds axes cell_shape clip_beg clip_end max_cells = Inr grid"
    and "\<forall>d < aabb_rank bounds. axis_fits (aabb_dims bounds ! d) (axes ! d)"
  shows "odo_collect selection_grid_next n grid =
      take n (product_lists (map (\<lambda>d. axis_cells (aabb_dims bounds ! d) (axes ! d) (cell_shape ! d)
        (clip_at clip_beg d) (clip_at clip_end d)) [0..<aabb_rank bounds])) \<and>
    grid_count grid = length (product_lists (map (\<lambda>d. axis_cells (aabb_dims bounds ! d) (axes ! d) (cell_shape ! d)
        (clip_at clip_beg d) (clip_at clip_end d)) [0..<aabb_rank bounds]))"
proof -
  let ?ds = "map (\<lambda>d. (aabb_dims bounds ! d, axes ! d, cell_shape ! d, clip_at clip_beg d, clip_at clip_end d)) [0..<aabb_rank bounds]"
  have l: "selection_grid_init_loop max_cells ?ds
      \<lparr>grid_axes = [], grid_count = 1, grid_rank = length ?ds, grid_finished = False\<rparr> = Inr grid"
    using assms(1) by (auto simp: selection_grid_init_def Let_def split: if_splits)
  have "\<forall>d\<in>set ?ds. dim_fits d" using assms(2) by (auto simp: dim_fits_def)
  from selection_grid_init_loop_enumerates [OF l this] show ?thesis by (simp add: comp_def)
qed

text \<open>C26. The grid iterator enumerates, in row-major order and each exactly once, the cells of the grid that hold a
  selected position and lie inside the clip: the \<open>n\<close>-th call returns the \<open>n\<close>-th element of the product of the
  per-axis cell lists, and afterwards none. \<open>count\<close> is the number of those cells.\<close>

theorem selection_grid_enumerates:
  assumes "selection_grid_init bounds axes cell_shape clip_beg clip_end max_cells = Inr grid"
    and "\<forall>d < aabb_rank bounds. axis_fits (aabb_dims bounds ! d) (axes ! d)"
  shows "odo_collect selection_grid_next n grid =
      take n (product_lists (map (\<lambda>d. axis_cells (aabb_dims bounds ! d) (axes ! d) (cell_shape ! d)
        (clip_at clip_beg d) (clip_at clip_end d)) [0..<aabb_rank bounds])) \<and>
    grid_count grid = length (product_lists (map (\<lambda>d. axis_cells (aabb_dims bounds ! d) (axes ! d) (cell_shape ! d)
        (clip_at clip_beg d) (clip_at clip_end d)) [0..<aabb_rank bounds]))"
  by (rule selection_grid_cells [OF assms])

theorem selection_grid_enumerates_witness:
  "\<exists>grid. selection_grid_init \<lparr>aabb_dims = [\<lparr>iv_beg = 1, iv_end = 31\<rparr>], aabb_rank = 1\<rparr> [sel_demo_axis] [8] None None 100 = Inr grid \<and>
     odo_collect selection_grid_next 5 grid = take 5 (product_lists [[0, 1, 3]])"
proof -
  let ?b = "\<lparr>aabb_dims = [\<lparr>iv_beg = 1, iv_end = 31\<rparr>], aabb_rank = 1\<rparr> :: damacy_aabb"
  have "isl (selection_grid_init ?b [sel_demo_axis] [8] None None 100) = False" by code_simp
  then obtain grid where g: "selection_grid_init ?b [sel_demo_axis] [8] None None 100 = Inr grid"
    by (cases "selection_grid_init ?b [sel_demo_axis] [8] None None 100") auto
  have "\<forall>d < aabb_rank ?b. axis_fits (aabb_dims ?b ! d) ([sel_demo_axis] ! d)" by (simp add: sel_demo_fits)
  note e = selection_grid_enumerates [OF g this, of 5]
  have "axis_cells \<lparr>iv_beg = 1, iv_end = 31\<rparr> sel_demo_axis 8 None None = [0, 1, 3]" by code_simp
  with e g show ?thesis by (simp add: clip_at_def)
qed

end
