(* ===== verification/Zarr_Shards.thy ===== *)
theory Zarr_Shards
  imports Selection_Correct
begin

text \<open>
  The metadata of a zarr array (struct zarr\_metadata of src/src/zarr/zarr\_metadata.h), the number of
  inner chunks per shard (zarr\_metadata\_inner\_per\_shard) and the iterator over the shards a sample
  touches (src/src/zarr/sample\_shard\_iterator.c), which interprets the \<open>odometer\<close> contract.
\<close>

section \<open>Metadata\<close>

datatype compression_codec =
    CODEC_NONE
  | CODEC_ZSTD
  | CODEC_BLOSC_LZ4
  | CODEC_BLOSC_ZSTD
  | CODEC_FILL

definition DAMACY_MAX_DTYPE_BYTES :: nat where "DAMACY_MAX_DTYPE_BYTES = 8"

record zarr_metadata =
  zm_dtype :: dtype
  zm_rank :: nat
  zm_shape :: "nat list"
  zm_inner_chunk_shape :: "nat list"
  zm_shard_shape :: "nat list"
  zm_sharded :: bool
  zm_inner_codec :: compression_codec
  zm_index_location_end :: bool
  zm_fill_value :: "8 word list"

text \<open>The loop of \<open>zarr_metadata_inner_per_shard\<close>: \<open>None\<close> is the non-zero return.\<close>

fun inner_per_shard_loop :: "(nat \<times> nat) list \<Rightarrow> nat \<Rightarrow> (nat list \<times> nat) option" where
  "inner_per_shard_loop [] n_total = Some ([], n_total)"
| "inner_per_shard_loop ((inner, shard) # ds) n_total =
     (if inner = 0 \<or> shard mod inner \<noteq> 0 then None
      else let per = shard div inner
           in if per \<noteq> 0 \<and> n_total > UINT64_MAX div per then None
              else map_option (\<lambda>(pers, t). (per # pers, t)) (inner_per_shard_loop ds (u64_mul n_total per)))"

definition zarr_metadata_inner_per_shard :: "zarr_metadata \<Rightarrow> (nat list \<times> nat) option" where
  "zarr_metadata_inner_per_shard meta =
     inner_per_shard_loop (take (zm_rank meta) (zip (zm_inner_chunk_shape meta) (zm_shard_shape meta))) 1"

section \<open>Shard iterator\<close>

record sample_shard_iterator =
  ssi_rank :: nat
  ssi_shard_beg :: "nat list"
  ssi_shard_end :: "nat list"
  ssi_cursor :: "nat list"
  ssi_finished :: bool

text \<open>One turn of the loop of \<open>sample_shard_iterator_init\<close>: the shard span of one axis.\<close>

definition shard_span :: "nat \<Rightarrow> nat \<Rightarrow> nat \<Rightarrow> damacy_interval \<Rightarrow> (nat \<times> nat) option" where
  "shard_span chunk_extent shard_extent shape iv =
     (if chunk_extent > 0 \<and> shard_extent > 0 \<and> shard_extent mod chunk_extent = 0 \<and>
         iv_beg iv \<ge> 0 \<and> iv_end iv > iv_beg iv \<and> u64_of_int (iv_end iv) \<le> shape then
        let inner_per_shard = shard_extent div chunk_extent;
            chunk_beg = u64_of_int (iv_beg iv) div chunk_extent;
            chunk_end = (u64_of_int (iv_end iv) - 1) div chunk_extent + 1
        in Some (chunk_beg div inner_per_shard, (chunk_end - 1) div inner_per_shard + 1)
      else None)"

fun shard_spans :: "(nat \<times> nat \<times> nat \<times> damacy_interval) list \<Rightarrow> (nat \<times> nat) list option" where
  "shard_spans [] = Some []"
| "shard_spans ((chunk_extent, shard_extent, shape, iv) # ds) =
     (case shard_span chunk_extent shard_extent shape iv of
        None \<Rightarrow> None
      | Some p \<Rightarrow> map_option (\<lambda>ps. p # ps) (shard_spans ds))"

text \<open>\<open>None\<close> is the non-zero return. Axes from the rank on stay zero and are not represented.\<close>

definition sample_shard_iterator_init :: "zarr_metadata \<Rightarrow> damacy_aabb \<Rightarrow> sample_shard_iterator option" where
  "sample_shard_iterator_init meta aabb =
     (if aabb_rank aabb = zm_rank meta \<and> zm_rank meta > 0 \<and> zm_rank meta \<le> DAMACY_MAX_RANK then
        map_option
          (\<lambda>ps. \<lparr>ssi_rank = zm_rank meta, ssi_shard_beg = map fst ps, ssi_shard_end = map snd ps,
                 ssi_cursor = map fst ps, ssi_finished = False\<rparr>)
          (shard_spans
            (map (\<lambda>d. (zm_inner_chunk_shape meta ! d, zm_shard_shape meta ! d, zm_shape meta ! d, aabb_dims aabb ! d))
              [0..<zm_rank meta]))
      else None)"

fun shard_carry :: "nat \<Rightarrow> sample_shard_iterator \<Rightarrow> sample_shard_iterator" where
  "shard_carry 0 it = it\<lparr>ssi_finished := True\<rparr>"
| "shard_carry (Suc d) it =
     (let it = it\<lparr>ssi_cursor := (ssi_cursor it)[d := u64_add (ssi_cursor it ! d) 1]\<rparr>
      in if ssi_cursor it ! d < ssi_shard_end it ! d then it
         else shard_carry d (it\<lparr>ssi_cursor := (ssi_cursor it)[d := ssi_shard_beg it ! d]\<rparr>))"

definition sample_shard_iterator_next :: "sample_shard_iterator \<Rightarrow> sample_shard_iterator \<times> nat list option" where
  "sample_shard_iterator_next it =
     (if ssi_finished it then (it, None)
      else (shard_carry (ssi_rank it) it, Some (take (ssi_rank it) (ssi_cursor it))))"

section \<open>One axis\<close>

type_synonym shard_axis = "nat \<times> nat \<times> nat"

fun shard_step :: "shard_axis \<Rightarrow> shard_axis \<times> bool" where
  "shard_step (b, e, c) = (let c = u64_add c 1 in if c < e then ((b, e, c), True) else ((b, e, b), False))"

fun shard_ok :: "shard_axis \<Rightarrow> bool" where
  "shard_ok (b, e, c) \<longleftrightarrow> b \<le> c \<and> c < e \<and> e \<le> UINT64_MAX"

fun shard_cur :: "shard_axis \<Rightarrow> nat" where "shard_cur (b, e, c) = c"
fun shard_rest :: "shard_axis \<Rightarrow> nat list" where "shard_rest (b, e, c) = [c..<e]"
fun shard_every :: "shard_axis \<Rightarrow> nat list" where "shard_every (b, e, c) = [b..<e]"

interpretation shard_odo: odometer shard_ok shard_step shard_cur shard_rest shard_every
proof
  fix a assume ok: "shard_ok a"
  obtain b e c where a: "a = (b, e, c)" by (cases a)
  have inc: "u64_add c 1 = Suc c" using ok a by (subst u64_add_exact) auto
  show "shard_rest a = shard_cur a # tl (shard_rest a)" using ok by (simp add: a upt_rec)
  {
    assume "tl (shard_rest a) \<noteq> []"
    then have "Suc c < e" by (simp add: a)
    with ok inc show "\<exists>x. shard_step a = (x, True) \<and> shard_ok x \<and> shard_rest x = tl (shard_rest a) \<and> shard_every x = shard_every a"
      by (simp add: a)
  next
    assume "tl (shard_rest a) = []"
    then have "\<not> Suc c < e" by (auto simp: a)
    with ok inc show "\<exists>x. shard_step a = (x, False) \<and> shard_ok x \<and> shard_rest x = shard_every a \<and> shard_every x = shard_every a"
      by (simp add: a)
  }
qed

text \<open>The structure of arrays as an array of axes.\<close>

definition ssi_axes :: "sample_shard_iterator \<Rightarrow> shard_axis list" where
  "ssi_axes it = zip (ssi_shard_beg it) (zip (ssi_shard_end it) (ssi_cursor it))"

definition ssi_wf :: "sample_shard_iterator \<Rightarrow> bool" where
  "ssi_wf it \<longleftrightarrow> length (ssi_shard_beg it) = ssi_rank it \<and> length (ssi_shard_end it) = ssi_rank it \<and>
     length (ssi_cursor it) = ssi_rank it"

lemma shard_carry_axes:
  assumes "ssi_wf it" and "d \<le> ssi_rank it" and "\<not> ssi_finished it"
  shows "ssi_wf (shard_carry d it) \<and> ssi_rank (shard_carry d it) = ssi_rank it \<and>
    (ssi_axes (shard_carry d it), \<not> ssi_finished (shard_carry d it)) = carry_loop shard_step d (ssi_axes it)"
  using assms
proof (induction d arbitrary: it)
  case (Suc d)
  have d: "d < ssi_rank it" using Suc.prems by simp
  let ?c = "u64_add (ssi_cursor it ! d) 1"
  have nth: "ssi_axes it ! d = (ssi_shard_beg it ! d, ssi_shard_end it ! d, ssi_cursor it ! d)"
    using d Suc.prems by (simp add: ssi_axes_def ssi_wf_def)
  have upd: "ssi_axes (it\<lparr>ssi_cursor := (ssi_cursor it)[d := v]\<rparr>) = (ssi_axes it)[d := (ssi_shard_beg it ! d, ssi_shard_end it ! d, v)]" for v
    using d Suc.prems by (simp add: ssi_axes_def ssi_wf_def list_eq_iff_nth_eq nth_list_update)
  have wf: "ssi_wf (it\<lparr>ssi_cursor := (ssi_cursor it)[d := v]\<rparr>)" for v using Suc.prems by (simp add: ssi_wf_def)
  have at: "(ssi_cursor it)[d := v] ! d = v" for v using d Suc.prems by (simp add: ssi_wf_def)
  show ?case
  proof (cases "?c < ssi_shard_end it ! d")
    case True
    with Suc.prems wf show ?thesis by (simp add: Let_def at nth upd)
  next
    case False
    with Suc.IH [of "it\<lparr>ssi_cursor := (ssi_cursor it)[d := ssi_shard_beg it ! d]\<rparr>"] Suc.prems wf
    show ?thesis by (simp add: Let_def at nth upd)
  qed
qed (simp add: ssi_wf_def ssi_axes_def)

lemma sample_shard_collect:
  assumes "ssi_wf it"
  shows "odo_collect sample_shard_iterator_next n it = odo_collect (odo_next shard_step shard_cur) n (ssi_axes it, ssi_finished it)"
  using assms
proof (induction n arbitrary: it)
  case (Suc n)
  show ?case
  proof (cases "ssi_finished it")
    case True
    then show ?thesis by (simp add: sample_shard_iterator_next_def)
  next
    case False
    let ?t = "shard_carry (ssi_rank it) it"
    from shard_carry_axes [OF Suc.prems _ False, of "ssi_rank it"] have t: "ssi_wf ?t"
      "carry_loop shard_step (ssi_rank it) (ssi_axes it) = (ssi_axes ?t, \<not> ssi_finished ?t)" by simp_all
    have len: "length (ssi_axes it) = ssi_rank it" using Suc.prems by (simp add: ssi_axes_def ssi_wf_def)
    have out: "map shard_cur (ssi_axes it) = take (ssi_rank it) (ssi_cursor it)"
      using Suc.prems by (intro nth_equalityI) (simp_all add: ssi_axes_def ssi_wf_def)
    show ?thesis using False Suc.IH [OF t(1)] by (simp add: sample_shard_iterator_next_def [of it] t(2) len out)
  qed
qed simp

section \<open>Which shards\<close>

lemma shard_span_cells:
  assumes "shard_span chunk shard shape iv = Some (b, e)" and "shape \<le> UINT64_MAX" and "iv_end iv \<le> INT64_MAX"
  shows "b < e \<and> e \<le> UINT64_MAX \<and> [b..<e] = sorted_list_of_set ((\<lambda>x. x div shard) ` {nat (iv_beg iv)..<nat (iv_end iv)})"
proof -
  from assms have v: "0 < chunk" "0 < shard" "shard mod chunk = 0" "0 \<le> iv_beg iv" "iv_beg iv < iv_end iv"
    by (auto simp: shard_span_def split: if_splits)
  have u: "u64_of_int (iv_beg iv) = nat (iv_beg iv)" "u64_of_int (iv_end iv) = nat (iv_end iv)"
    using v assms(3) by (auto intro!: u64_of_int_nat)
  have sh: "chunk * (shard div chunk) = shard" using v(3) by (simp add: mod_0_imp_dvd)
  have b: "b = nat (iv_beg iv) div shard" and e: "e = (nat (iv_end iv) - 1) div shard + 1"
    using assms(1) v by (auto simp: shard_span_def Let_def u div_mult2_eq [symmetric] sh split: if_splits)
  have lt: "nat (iv_beg iv) < nat (iv_end iv)" using v by simp
  have "nat (iv_end iv) - 1 < 2 ^ 63" using assms(3) by simp
  then have "(nat (iv_end iv) - 1) div shard < 2 ^ 63" using div_le_dividend le_less_trans by blast
  then have "e \<le> UINT64_MAX" by (simp add: e)
  moreover have "nat (iv_beg iv) div shard \<le> (nat (iv_end iv) - 1) div shard" by (intro div_le_mono) (use lt in linarith)
  then have "b < e" by (simp add: b e)
  moreover have "(\<lambda>x. x div shard) ` {nat (iv_beg iv)..<nat (iv_end iv)} = {b..<e}"
    using div_image_interval [OF lt v(2)] by (simp add: b e)
  ultimately show ?thesis by simp
qed

lemma shard_spans_length: "shard_spans ds = Some ps \<Longrightarrow> length ps = length ds"
  by (induction ds arbitrary: ps rule: shard_spans.induct) (auto split: option.splits)

lemma shard_spans_nth:
  "shard_spans ds = Some ps \<Longrightarrow> i < length ds \<Longrightarrow> ds ! i = (c, s, sh, iv) \<Longrightarrow> shard_span c s sh iv = Some (ps ! i)"
proof (induction ds arbitrary: ps i)
  case (Cons d ds)
  obtain c' s' sh' iv' where d: "d = (c', s', sh', iv')" by (cases d)
  from Cons.prems(1) obtain p qs where p: "shard_span c' s' sh' iv' = Some p" "shard_spans ds = Some qs" "ps = p # qs"
    by (auto simp: d split: option.splits)
  show ?case
  proof (cases i)
    case 0
    with Cons.prems(3) p show ?thesis by (simp add: d)
  next
    case (Suc j)
    with Cons.IH [OF p(2), of j] Cons.prems(2,3) p(3) show ?thesis by simp
  qed
qed simp

section \<open>Properties\<close>

text \<open>The shard iterator enumerates, in row-major order and each exactly once, the shards that intersect the box:
  the \<open>n\<close>-th call returns the \<open>n\<close>-th coordinate of the product, over the axes, of the shard indices
  \<open>x div shard_shape\<close> of the positions \<open>x\<close> of the box, and afterwards it returns none.\<close>

theorem sample_shard_iterator_enumerates:
  assumes "sample_shard_iterator_init meta aabb = Some it"
    and "\<forall>d < zm_rank meta. zm_shape meta ! d \<le> UINT64_MAX \<and> iv_end (aabb_dims aabb ! d) \<le> INT64_MAX"
  shows "odo_collect sample_shard_iterator_next n it =
    take n (product_lists (map (\<lambda>d. sorted_list_of_set
      ((\<lambda>x. x div (zm_shard_shape meta ! d)) ` {nat (iv_beg (aabb_dims aabb ! d))..<nat (iv_end (aabb_dims aabb ! d))}))
      [0..<zm_rank meta]))"
proof -
  let ?ds = "map (\<lambda>d. (zm_inner_chunk_shape meta ! d, zm_shard_shape meta ! d, zm_shape meta ! d, aabb_dims aabb ! d)) [0..<zm_rank meta]"
  from assms(1) obtain ps where ps: "shard_spans ?ds = Some ps" and it: "it = \<lparr>ssi_rank = zm_rank meta, ssi_shard_beg = map fst ps,
      ssi_shard_end = map snd ps, ssi_cursor = map fst ps, ssi_finished = False\<rparr>"
    by (auto simp: sample_shard_iterator_init_def split: if_splits)
  have len: "length ps = zm_rank meta" using shard_spans_length [OF ps] by simp
  have wf: "ssi_wf it" by (simp add: ssi_wf_def it len)
  have sp: "fst (ps ! d) < snd (ps ! d) \<and> snd (ps ! d) \<le> UINT64_MAX \<and> [fst (ps ! d)..<snd (ps ! d)] = sorted_list_of_set
      ((\<lambda>x. x div (zm_shard_shape meta ! d)) ` {nat (iv_beg (aabb_dims aabb ! d))..<nat (iv_end (aabb_dims aabb ! d))})"
    if "d < zm_rank meta" for d
    using shard_spans_nth [OF ps, of d "zm_inner_chunk_shape meta ! d" "zm_shard_shape meta ! d" "zm_shape meta ! d" "aabb_dims aabb ! d"] that assms(2)
      shard_span_cells [of "zm_inner_chunk_shape meta ! d" "zm_shard_shape meta ! d" "zm_shape meta ! d" "aabb_dims aabb ! d" "fst (ps ! d)" "snd (ps ! d)"]
    by simp
  have ax: "ssi_axes it ! d = (fst (ps ! d), snd (ps ! d), fst (ps ! d))" if "d < zm_rank meta" for d
    using that len by (simp add: ssi_axes_def it)
  have la: "length (ssi_axes it) = zm_rank meta" by (simp add: ssi_axes_def it len)
  have "list_all shard_ok (ssi_axes it)" using sp ax la by (simp add: list_all_length)
  moreover have "\<forall>a\<in>set (ssi_axes it). shard_rest a = shard_every a" using ax la by (auto simp: in_set_conv_nth)
  moreover have "map shard_every (ssi_axes it) = map (\<lambda>d. sorted_list_of_set
      ((\<lambda>x. x div (zm_shard_shape meta ! d)) ` {nat (iv_beg (aabb_dims aabb ! d))..<nat (iv_end (aabb_dims aabb ! d))})) [0..<zm_rank meta]"
    using la ax sp by (intro nth_equalityI) simp_all
  ultimately show ?thesis
    using shard_odo.collect_product [of "ssi_axes it" n] sample_shard_collect [OF wf, of n] by (simp add: it)
qed

definition zarr_demo :: zarr_metadata where
  "zarr_demo = \<lparr>zm_dtype = dtype_u16, zm_rank = 2, zm_shape = [100, 64], zm_inner_chunk_shape = [5, 8], zm_shard_shape = [20, 32],
     zm_sharded = True, zm_inner_codec = CODEC_ZSTD, zm_index_location_end = True, zm_fill_value = [0, 0]\<rparr>"

definition zarr_demo_box :: damacy_aabb where
  "zarr_demo_box = \<lparr>aabb_dims = [\<lparr>iv_beg = 19, iv_end = 41\<rparr>, \<lparr>iv_beg = 30, iv_end = 33\<rparr>], aabb_rank = 2\<rparr>"

theorem sample_shard_iterator_enumerates_witness:
  "\<exists>it. sample_shard_iterator_init zarr_demo zarr_demo_box = Some it \<and>
     odo_collect sample_shard_iterator_next 9 it = [[0, 0], [0, 1], [1, 0], [1, 1], [2, 0], [2, 1]]"
proof -
  have "sample_shard_iterator_init zarr_demo zarr_demo_box \<noteq> None" by code_simp
  then obtain it where it: "sample_shard_iterator_init zarr_demo zarr_demo_box = Some it" by blast
  have "\<forall>d < zm_rank zarr_demo. zm_shape zarr_demo ! d \<le> UINT64_MAX \<and> iv_end (aabb_dims zarr_demo_box ! d) \<le> INT64_MAX"
    by (auto simp: zarr_demo_def zarr_demo_box_def less_2_cases_iff)
  from sample_shard_iterator_enumerates [OF it this, of 9] have
    "odo_collect sample_shard_iterator_next 9 it =
      take 9 (product_lists (map (\<lambda>d. sorted_list_of_set ((\<lambda>x. x div (zm_shard_shape zarr_demo ! d)) `
        {nat (iv_beg (aabb_dims zarr_demo_box ! d))..<nat (iv_end (aabb_dims zarr_demo_box ! d))})) [0..<zm_rank zarr_demo]))" .
  also have "\<dots> = [[0, 0], [0, 1], [1, 0], [1, 1], [2, 0], [2, 1]]" by code_simp
  finally show ?thesis using it by blast
qed

section \<open>Chunks per shard\<close>

lemma inner_per_shard_loop_some:
  "inner_per_shard_loop ds t = Some (pers, m) \<Longrightarrow> t \<le> UINT64_MAX \<Longrightarrow>
     pers = map (\<lambda>(inner, shard). shard div inner) ds \<and> m = t * prod_list pers \<and> m \<le> UINT64_MAX \<and>
     (\<forall>(inner, shard)\<in>set ds. inner \<noteq> 0 \<and> inner dvd shard)"
proof (induction ds t arbitrary: pers m rule: inner_per_shard_loop.induct)
  case (2 inner shard ds t)
  from 2(2) have v: "inner \<noteq> 0" "shard mod inner = 0" "shard div inner = 0 \<or> t \<le> UINT64_MAX div (shard div inner)"
    by (auto simp: Let_def split: if_splits)
  have le: "t * (shard div inner) \<le> UINT64_MAX"
  proof (cases "shard div inner = 0")
    case False
    with v(3) have "t \<le> UINT64_MAX div (shard div inner)" by simp
    then show ?thesis using False by (simp add: less_eq_div_iff_mult_less_eq)
  qed simp
  then have mul: "u64_mul t (shard div inner) = t * (shard div inner)" by (subst u64_mul_exact) simp_all
  from 2(2) v obtain ps where p: "inner_per_shard_loop ds (t * (shard div inner)) = Some (ps, m)" "pers = (shard div inner) # ps"
    by (auto simp: Let_def mul split: if_splits)
  have "\<not> (inner = 0 \<or> shard mod inner \<noteq> 0)" "\<not> (shard div inner \<noteq> 0 \<and> t > UINT64_MAX div (shard div inner))" using v by auto
  from 2(1) [OF this(1) refl this(2), unfolded mul, OF p(1) le] p(2) v show ?case by (auto simp: mod_0_imp_dvd)
qed auto

lemma zarr_metadata_inner_per_shard_ok:
  assumes "zarr_metadata_inner_per_shard meta = Some (pers, t)"
    and "zm_rank meta \<le> length (zm_inner_chunk_shape meta)" and "zm_rank meta \<le> length (zm_shard_shape meta)"
  shows "t = prod_list pers" and "t \<le> UINT64_MAX" and "length pers = zm_rank meta"
    and "d < zm_rank meta \<Longrightarrow> pers ! d * zm_inner_chunk_shape meta ! d = zm_shard_shape meta ! d"
    and "d < zm_rank meta \<Longrightarrow> zm_inner_chunk_shape meta ! d \<noteq> 0"
proof -
  let ?z = "take (zm_rank meta) (zip (zm_inner_chunk_shape meta) (zm_shard_shape meta))"
  have r: "pers = map (\<lambda>(inner, shard). shard div inner) ?z" "t = prod_list pers" "t \<le> UINT64_MAX"
    "\<forall>(inner, shard)\<in>set ?z. inner \<noteq> 0 \<and> inner dvd shard"
    using inner_per_shard_loop_some [OF assms(1) [unfolded zarr_metadata_inner_per_shard_def]] by auto
  then show "t = prod_list pers" "t \<le> UINT64_MAX" by auto
  show "length pers = zm_rank meta" using assms(2,3) by (simp add: r(1))
  assume d: "d < zm_rank meta"
  then have z: "?z ! d = (zm_inner_chunk_shape meta ! d, zm_shard_shape meta ! d)" "?z ! d \<in> set ?z"
    using assms(2,3) by (auto simp: in_set_conv_nth)
  with r(4) show "zm_inner_chunk_shape meta ! d \<noteq> 0" by fastforce
  from r(4) z have "zm_inner_chunk_shape meta ! d dvd zm_shard_shape meta ! d" by fastforce
  moreover have "pers ! d = zm_shard_shape meta ! d div zm_inner_chunk_shape meta ! d" using z d assms(2,3) by (simp add: r(1))
  ultimately show "pers ! d * zm_inner_chunk_shape meta ! d = zm_shard_shape meta ! d" by simp
qed

end
