(* ===== verification/Zarr_Index.thy ===== *)
theory Zarr_Index
  imports Zarr_Shards
begin

text \<open>
  The shard index of src/src/zarr/zarr\_shard\_index.c with its CRC-32C (src/src/util/crc32c.c), and the
  blosc1 chunk header of src/src/zarr/zarr\_chunk\_layout.c. The table-driven checksum equals the bit-by-bit
  one, a buffer parses exactly when it is the encoding of the entries returned, every corruption of a
  single byte is rejected, and an accepted chunk header describes a consistent block layout.
\<close>

section \<open>CRC-32C\<close>

text \<open>One turn of the inner loop of \<open>crc32c_init\<close>.\<close>

definition crc32c_bit :: "32 word \<Rightarrow> 32 word" where
  "crc32c_bit crc = drop_bit 1 crc XOR (0x82F63B78 AND (0 - (crc AND 1)))"

definition crc32c_table :: "32 word list" where
  "crc32c_table = map (\<lambda>i. (crc32c_bit ^^ 8) (of_nat i)) [0..<256]"

definition crc32c_step :: "8 word \<Rightarrow> 32 word \<Rightarrow> 32 word" where
  "crc32c_step byte crc = crc32c_table ! unat ((crc XOR ucast byte) AND 0xFF) XOR drop_bit 8 crc"

definition crc32c :: "8 word list \<Rightarrow> 32 word" where
  "crc32c data = fold crc32c_step data 0xFFFFFFFF XOR 0xFFFFFFFF"

section \<open>Shard index\<close>

record zarr_shard_entry =
  se_offset :: "64 word"
  se_nbytes :: "64 word"

definition zarr_shard_index_size :: "nat \<Rightarrow> nat" where
  "zarr_shard_index_size n_entries = u64_add (u64_mul n_entries 16) 4"

fun load_le_u64_loop :: "8 word list \<Rightarrow> nat \<Rightarrow> nat \<Rightarrow> 64 word \<Rightarrow> 64 word" where
  "load_le_u64_loop p 0 i v = v"
| "load_le_u64_loop p (Suc left) i v = load_le_u64_loop p left (i + 1) (v OR push_bit (8 * i) (ucast (p ! i)))"

definition load_le_u64 :: "8 word list \<Rightarrow> 64 word" where
  "load_le_u64 p = load_le_u64_loop p 8 0 0"

definition load_le_u32 :: "8 word list \<Rightarrow> 32 word" where
  "load_le_u32 p = ucast (p ! 0) OR push_bit 8 (ucast (p ! 1)) OR push_bit 16 (ucast (p ! 2)) OR push_bit 24 (ucast (p ! 3))"

text \<open>\<open>None\<close> is the non-zero return.\<close>

definition zarr_shard_index_parse :: "8 word list \<Rightarrow> nat \<Rightarrow> zarr_shard_entry list option" where
  "zarr_shard_index_parse buf n_entries =
     (if length buf \<noteq> zarr_shard_index_size n_entries then None
      else let got = load_le_u32 (drop (n_entries * 16) buf);
               expected = crc32c (take (n_entries * 16) buf)
           in if got \<noteq> expected then None
              else Some (map (\<lambda>i. \<lparr>se_offset = load_le_u64 (drop (i * 16) buf),
                                   se_nbytes = load_le_u64 (drop (i * 16 + 8) buf)\<rparr>) [0..<n_entries]))"

section \<open>Chunk header\<close>

record chunk_layout =
  cl_codec_id :: compression_codec
  cl_typesize :: nat
  cl_shuffle :: nat
  cl_bitshuffle :: nat
  cl_dont_split :: nat
  cl_memcpyed :: nat
  cl_blocksize :: nat
  cl_nbytes :: nat
  cl_nblocks :: nat
  cl_nsubstreams :: nat

definition BLOSC1_HEADER_BYTES :: nat where "BLOSC1_HEADER_BYTES = 16"

definition read_u32_le :: "8 word list \<Rightarrow> nat" where
  "read_u32_le p =
     unat ((ucast (p ! 0) OR push_bit 8 (ucast (p ! 1)) OR push_bit 16 (ucast (p ! 2)) OR push_bit 24 (ucast (p ! 3))) :: 32 word)"

definition zarr_chunk_layout_parse_header ::
    "8 word list option \<Rightarrow> nat \<Rightarrow> compression_codec \<Rightarrow> nat \<Rightarrow> chunk_layout option" where
  "zarr_chunk_layout_parse_header header first_chunk_cbytes codec_id max_substreams_per_chunk =
     (case header of
        None \<Rightarrow> None
      | Some p \<Rightarrow>
          if codec_id \<noteq> CODEC_BLOSC_ZSTD \<and> codec_id \<noteq> CODEC_BLOSC_LZ4 then None
          else if first_chunk_cbytes < BLOSC1_HEADER_BYTES then None
          else
            let flags = p ! 2;
                typesize = unat (p ! 3);
                nbytes = read_u32_le (drop 4 p);
                blocksize = read_u32_le (drop 8 p)
            in if unat (p ! 0) < 1 \<or> unat (p ! 0) > 2 \<or> read_u32_le (drop 12 p) \<noteq> first_chunk_cbytes then None
               else if nbytes = 0 \<or> nbytes > DAMACY_BLOSC_MAX_CHUNK_UNCOMPRESSED_BYTES \<or>
                       blocksize = 0 \<or> blocksize > nbytes \<or> typesize = 0 \<or> typesize > 8 \<or>
                       nbytes mod typesize \<noteq> 0 \<or> blocksize mod typesize \<noteq> 0 then None
               else
                 let memcpyed = unat (drop_bit 1 flags AND 1);
                     compformat = (if codec_id = CODEC_BLOSC_LZ4 then 1 else 4)
                 in if (if memcpyed \<noteq> 0 then first_chunk_cbytes - BLOSC1_HEADER_BYTES \<noteq> nbytes
                        else p ! 1 \<noteq> 1 \<or> drop_bit 5 flags \<noteq> compformat \<or> flags AND 8 \<noteq> 0) then None
                    else
                      let nblocks = u32_add (nbytes div blocksize) (of_bool (nbytes mod blocksize \<noteq> 0));
                          nsplits = (if flags AND 0x10 = 0 \<and> blocksize div typesize \<ge> 128 then typesize else 1);
                          nsubstreams = u32_add (u32_mul (nbytes div blocksize) nsplits) (of_bool (nbytes mod blocksize \<noteq> 0))
                      in if nsubstreams > max_substreams_per_chunk \<or>
                            memcpyed = 0 \<and> nblocks > (first_chunk_cbytes - BLOSC1_HEADER_BYTES) div 4 then None
                         else Some \<lparr>cl_codec_id = codec_id, cl_typesize = typesize, cl_shuffle = unat (flags AND 1),
                                    cl_bitshuffle = unat (drop_bit 2 flags AND 1), cl_dont_split = unat (drop_bit 4 flags AND 1),
                                    cl_memcpyed = memcpyed, cl_blocksize = blocksize, cl_nbytes = nbytes,
                                    cl_nblocks = nblocks, cl_nsubstreams = nsubstreams\<rparr>)"

text \<open>\<open>store_read\<close> is what \<open>store_read_many\<close> delivers for the 16 header bytes, \<open>None\<close> on failure.\<close>

definition zarr_chunk_layout_probe ::
    "(string \<Rightarrow> nat \<Rightarrow> nat \<Rightarrow> 8 word list option) \<Rightarrow> string \<Rightarrow> nat \<Rightarrow> nat \<Rightarrow> compression_codec \<Rightarrow> nat \<Rightarrow> chunk_layout option" where
  "zarr_chunk_layout_probe store_read shard_path first_chunk_off first_chunk_cbytes codec_id max_substreams_per_chunk =
     (if codec_id \<noteq> CODEC_BLOSC_ZSTD \<and> codec_id \<noteq> CODEC_BLOSC_LZ4 then None
      else if first_chunk_cbytes < BLOSC1_HEADER_BYTES then None
      else case store_read shard_path first_chunk_off BLOSC1_HEADER_BYTES of
             None \<Rightarrow> None
           | Some header \<Rightarrow>
               zarr_chunk_layout_parse_header (Some header) first_chunk_cbytes codec_id max_substreams_per_chunk)"

section \<open>The table computes the bitwise checksum\<close>

definition crc32c_byte :: "8 word \<Rightarrow> 32 word \<Rightarrow> 32 word" where
  "crc32c_byte byte crc = (crc32c_bit ^^ 8) (crc XOR ucast byte)"

lemma crc32c_bit_alt: "crc32c_bit x = drop_bit 1 x XOR (if odd x then 0x82F63B78 else 0)"
proof -
  have "x AND 1 = of_bool (odd x)" by (simp add: and_one_eq mod_2_eq_odd)
  then show ?thesis by (simp add: crc32c_bit_def)
qed

lemma crc32c_bit_xor: "crc32c_bit (x XOR y) = crc32c_bit x XOR crc32c_bit y"
proof -
  have "odd (x XOR y) \<longleftrightarrow> (odd x \<noteq> odd y)" by (simp add: even_xor_iff)
  then show ?thesis by (auto simp: crc32c_bit_alt ac_simps xor.assoc)
qed

lemma crc32c_bits_xor: "(crc32c_bit ^^ n) (x XOR y) = (crc32c_bit ^^ n) x XOR (crc32c_bit ^^ n) y"
  by (induction n) (simp_all add: crc32c_bit_xor)

lemma crc32c_bits_shift: "\<forall>i<n. \<not> bit x i \<Longrightarrow> (crc32c_bit ^^ n) x = drop_bit n x"
proof (induction n)
  case (Suc n)
  then have "(crc32c_bit ^^ n) x = drop_bit n x" by simp
  moreover have "even (drop_bit n x)" using Suc.prems by (simp add: even_drop_bit_iff_not_bit)
  ultimately show ?case by (simp add: crc32c_bit_alt [of "drop_bit n x"])
qed simp

lemma crc32c_step_byte: "crc32c_step byte crc = crc32c_byte byte crc"
proof -
  define x where "x = crc XOR ucast byte"
  have FF: "(0xFF :: 32 word) = mask 8" by (simp add: mask_eq_exp_minus_1)
  have split: "x = (x AND 0xFF) XOR (x AND NOT 0xFF)" unfolding FF by (rule bit_word_eqI) (auto simp: bit_simps)
  have "x AND 0xFF \<le> 0xFF" by (rule word_and_le1)
  then have low: "unat (x AND 0xFF) < 256" by (simp add: word_le_nat_alt)
  have "(crc32c_bit ^^ 8) (x AND NOT 0xFF) = drop_bit 8 (x AND NOT 0xFF)"
    unfolding FF by (rule crc32c_bits_shift) (auto simp: bit_simps)
  also have "\<dots> = drop_bit 8 crc" unfolding x_def FF by (rule bit_word_eqI) (auto simp: bit_simps dest: bit_imp_le_length)
  finally have "(crc32c_bit ^^ 8) x = (crc32c_bit ^^ 8) (x AND 0xFF) XOR drop_bit 8 crc"
    using crc32c_bits_xor [of 8 "x AND 0xFF" "x AND NOT 0xFF"] split by simp
  moreover have "crc32c_table ! unat (x AND 0xFF) = (crc32c_bit ^^ 8) (x AND 0xFF)"
    using low by (simp add: crc32c_table_def)
  ultimately show ?thesis by (simp add: crc32c_step_def crc32c_byte_def x_def)
qed

lemma crc32c_bitwise: "crc32c data = fold crc32c_byte data 0xFFFFFFFF XOR 0xFFFFFFFF"
proof -
  have "crc32c_step = crc32c_byte" by (intro ext) (rule crc32c_step_byte)
  then show ?thesis by (simp add: crc32c_def)
qed

lemma xor_eq_zero_iff: "(a :: 'a :: len word) XOR b = 0 \<longleftrightarrow> a = b"
  by (auto simp: bit_eq_iff bit_xor_iff)

lemma xor_cancel_left: "(a :: 'a :: len word) XOR b = a XOR c \<longleftrightarrow> b = c"
  by (auto simp: bit_eq_iff bit_xor_iff)

lemma xor_cancel_right: "(b :: 'a :: len word) XOR a = c XOR a \<longleftrightarrow> b = c"
  by (auto simp: bit_eq_iff bit_xor_iff)

text \<open>Every step is injective in the state and in the byte, so a single changed byte changes the checksum.\<close>

lemma crc32c_bit_zero: "crc32c_bit x = 0 \<Longrightarrow> x = 0"
proof -
  assume z: "crc32c_bit x = 0"
  show "x = 0"
  proof (cases "odd x")
    case True
    with z have "drop_bit 1 x = 0x82F63B78" by (simp add: crc32c_bit_alt xor_eq_zero_iff)
    then have "bit (drop_bit 1 x) 31" by simp
    then have "bit x 32" by (simp add: bit_simps)
    then show ?thesis using bit_imp_le_length by fastforce
  next
    case False
    with z have d: "drop_bit 1 x = 0" by (simp add: crc32c_bit_alt)
    have "\<not> bit x (Suc n)" for n
    proof -
      have "bit (drop_bit 1 x) n \<longleftrightarrow> bit x (Suc n)" by (simp add: bit_simps)
      then show ?thesis unfolding d by simp
    qed
    with False have "\<not> bit x n" for n by (cases n) (auto simp: bit_0)
    then show ?thesis by (simp add: bit_eq_iff)
  qed
qed

lemma crc32c_bits_inj: "(crc32c_bit ^^ n) x = (crc32c_bit ^^ n) y \<Longrightarrow> x = y"
proof (induction n)
  case (Suc n)
  then have "crc32c_bit ((crc32c_bit ^^ n) x XOR (crc32c_bit ^^ n) y) = 0" by (simp add: crc32c_bit_xor)
  from crc32c_bit_zero [OF this] have "(crc32c_bit ^^ n) x = (crc32c_bit ^^ n) y" by (simp add: xor_eq_zero_iff)
  then show ?case by (rule Suc.IH)
qed simp

lemma crc32c_byte_inj: "crc32c_byte b x = crc32c_byte b y \<Longrightarrow> x = y" "crc32c_byte a x = crc32c_byte b x \<Longrightarrow> a = b"
proof -
  assume "crc32c_byte b x = crc32c_byte b y"
  from crc32c_bits_inj [OF this [unfolded crc32c_byte_def]] show "x = y"
    by (simp add: xor_cancel_right)
next
  assume "crc32c_byte a x = crc32c_byte b x"
  from crc32c_bits_inj [OF this [unfolded crc32c_byte_def]] have "(ucast a :: 32 word) = ucast b" by (simp add: xor_cancel_left)
  then have e: "bit (ucast a :: 32 word) n \<longleftrightarrow> bit (ucast b :: 32 word) n" for n by simp
  show "a = b"
  proof (rule bit_word_eqI)
    fix n assume "n < LENGTH(8)"
    then show "bit a n \<longleftrightarrow> bit b n" using e [of n] by (simp add: bit_simps)
  qed
qed

lemma crc32c_fold_inj: "fold crc32c_byte bs x = fold crc32c_byte bs y \<Longrightarrow> x = y"
  by (induction bs arbitrary: x y) (auto dest: crc32c_byte_inj(1))

lemma crc32c_single_byte:
  assumes "i < length bs" and "bs ! i \<noteq> b"
  shows "crc32c (bs[i := b]) \<noteq> crc32c bs"
proof
  assume "crc32c (bs[i := b]) = crc32c bs"
  then have "fold crc32c_byte (bs[i := b]) 0xFFFFFFFF = fold crc32c_byte bs 0xFFFFFFFF"
    unfolding crc32c_bitwise by (simp only: xor_cancel_right)
  moreover have "fold crc32c_byte bs s = fold crc32c_byte (drop (Suc i) bs) (crc32c_byte (bs ! i) (fold crc32c_byte (take i bs) s))" for s
    by (subst id_take_nth_drop [OF assms(1)]) (simp only: fold_append comp_apply fold_simps(2))
  moreover have "fold crc32c_byte (bs[i := b]) s = fold crc32c_byte (drop (Suc i) bs) (crc32c_byte b (fold crc32c_byte (take i bs) s))" for s
    unfolding upd_conv_take_nth_drop [OF assms(1)] by (simp only: fold_append comp_apply fold_simps(2))
  ultimately have "fold crc32c_byte (drop (Suc i) bs) (crc32c_byte b (fold crc32c_byte (take i bs) 0xFFFFFFFF)) =
      fold crc32c_byte (drop (Suc i) bs) (crc32c_byte (bs ! i) (fold crc32c_byte (take i bs) 0xFFFFFFFF))"
    by simp
  from crc32c_byte_inj(2) [OF crc32c_fold_inj [OF this]] assms(2) show False by simp
qed

section \<open>Little-endian words\<close>

definition le_bytes :: "nat \<Rightarrow> 'a :: len word \<Rightarrow> 8 word list" where
  "le_bytes n w = map (\<lambda>i. ucast (drop_bit (8 * i) w)) [0..<n]"

text \<open>Bit \<open>n\<close> of a loaded word is bit \<open>n mod 8\<close> of byte \<open>n div 8\<close>.\<close>

lemma push_ucast_bit:
  fixes b :: "8 word"
  shows "bit (push_bit (8 * i) (ucast b :: 'a :: len word)) n \<longleftrightarrow> n < LENGTH('a) \<and> n div 8 = i \<and> bit b (n mod 8)"
proof (cases "8 * i \<le> n \<and> n < 8 * i + 8")
  case True
  then have "n div 8 = i" "n mod 8 = n - 8 * i" by (auto simp: div_nat_eqI modulo_nat_def)
  with True show ?thesis by (auto simp: bit_simps)
next
  case False
  then have "n div 8 \<noteq> i" by (metis div_mult_mod_eq less_add_same_cancel1 linorder_not_le mod_less_divisor mult.commute le_add1 nat_add_left_cancel_less zero_less_numeral)
  moreover have "\<not> bit (push_bit (8 * i) (ucast b :: 'a word)) n"
    using False bit_imp_le_length [of b "n - 8 * i"] by (auto simp: bit_simps)
  ultimately show ?thesis by simp
qed

lemma load_le_u64_loop_bit:
  "bit (load_le_u64_loop p left i v) n \<longleftrightarrow>
     bit v n \<or> (n < 64 \<and> i \<le> n div 8 \<and> n div 8 < i + left \<and> bit (p ! (n div 8)) (n mod 8))"
proof (induction left arbitrary: i v)
  case (Suc left)
  show ?case unfolding load_le_u64_loop.simps Suc.IH
    by (cases "n div 8 = i") (auto simp: bit_or_iff push_ucast_bit)
qed auto

lemma load_le_u32_bit: "bit (load_le_u32 p) n \<longleftrightarrow> n < 32 \<and> bit (p ! (n div 8)) (n mod 8)"
proof -
  have b: "bit (load_le_u32 p) n \<longleftrightarrow> n < 32 \<and>
      ((n div 8 = 0 \<and> bit (p ! 0) (n mod 8)) \<or> (n div 8 = 1 \<and> bit (p ! 1) (n mod 8)) \<or>
       (n div 8 = 2 \<and> bit (p ! 2) (n mod 8)) \<or> (n div 8 = 3 \<and> bit (p ! 3) (n mod 8)))"
  proof -
    have s0: "bit (ucast (p ! 0) :: 32 word) n \<longleftrightarrow> n < 32 \<and> n div 8 = 0 \<and> bit (p ! 0) (n mod 8)"
      using push_ucast_bit [of 0 "p ! 0" n, where 'a = 32] by simp
    have s1: "bit (push_bit 8 (ucast (p ! 1)) :: 32 word) n \<longleftrightarrow> n < 32 \<and> n div 8 = 1 \<and> bit (p ! 1) (n mod 8)"
      using push_ucast_bit [of 1 "p ! 1" n, where 'a = 32] by simp
    have s2: "bit (push_bit 16 (ucast (p ! 2)) :: 32 word) n \<longleftrightarrow> n < 32 \<and> n div 8 = 2 \<and> bit (p ! 2) (n mod 8)"
      using push_ucast_bit [of 2 "p ! 2" n, where 'a = 32] by simp
    have s3: "bit (push_bit 24 (ucast (p ! 3)) :: 32 word) n \<longleftrightarrow> n < 32 \<and> n div 8 = 3 \<and> bit (p ! 3) (n mod 8)"
      using push_ucast_bit [of 3 "p ! 3" n, where 'a = 32] by simp
    show ?thesis unfolding load_le_u32_def bit_or_iff s0 s1 s2 s3 by blast
  qed
  show ?thesis
  proof (cases "n < 32")
    case True
    then consider "n div 8 = 0" | "n div 8 = 1" | "n div 8 = 2" | "n div 8 = 3" by linarith
    then show ?thesis by cases (simp_all only: b True, simp_all)
  next
    case False
    with b show ?thesis by simp
  qed
qed

lemma load_le_u64_bit: "bit (load_le_u64 p) n \<longleftrightarrow> n < 64 \<and> bit (p ! (n div 8)) (n mod 8)"
  unfolding load_le_u64_def load_le_u64_loop_bit by auto

lemma load_le_u64_bytes: "take 8 p = le_bytes 8 w \<Longrightarrow> load_le_u64 p = (w :: 64 word)"
proof (rule bit_word_eqI)
  fix n assume p: "take 8 p = le_bytes 8 w" and n: "n < LENGTH(64)"
  then have "n div 8 < 8" by simp
  then have "p ! (n div 8) = take 8 p ! (n div 8)" by simp
  also have "\<dots> = ucast (drop_bit (8 * (n div 8)) w)" using \<open>n div 8 < 8\<close> unfolding p le_bytes_def by (subst nth_map) simp_all
  finally show "bit (load_le_u64 p) n \<longleftrightarrow> bit w n" using n by (simp add: load_le_u64_bit bit_simps)
qed

lemma le_bytes_load_le_u64: "8 \<le> length p \<Longrightarrow> le_bytes 8 (load_le_u64 p) = take 8 p"
proof (rule nth_equalityI)
  fix i assume l: "8 \<le> length p" and "i < length (le_bytes 8 (load_le_u64 p))"
  then have i: "i < 8" by (simp add: le_bytes_def)
  have "bit (ucast (drop_bit (8 * i) (load_le_u64 p)) :: 8 word) j \<longleftrightarrow> bit (p ! i) j" if "j < 8" for j
    using i that by (simp add: bit_simps load_le_u64_bit)
  then have "(ucast (drop_bit (8 * i) (load_le_u64 p)) :: 8 word) = p ! i" by (intro bit_word_eqI) simp
  with i l show "le_bytes 8 (load_le_u64 p) ! i = take 8 p ! i" by (simp add: le_bytes_def)
qed (simp add: le_bytes_def)

lemma load_le_u32_bytes: "take 4 p = le_bytes 4 w \<Longrightarrow> load_le_u32 p = (w :: 32 word)"
proof (rule bit_word_eqI)
  fix n assume p: "take 4 p = le_bytes 4 w" and n: "n < LENGTH(32)"
  then have "n div 8 < 4" by simp
  then have "p ! (n div 8) = take 4 p ! (n div 8)" by simp
  also have "\<dots> = ucast (drop_bit (8 * (n div 8)) w)" using \<open>n div 8 < 4\<close> unfolding p le_bytes_def by (subst nth_map) simp_all
  finally show "bit (load_le_u32 p) n \<longleftrightarrow> bit w n" using n by (simp add: load_le_u32_bit bit_simps)
qed

lemma le_bytes_load_le_u32: "4 \<le> length p \<Longrightarrow> le_bytes 4 (load_le_u32 p) = take 4 p"
proof (rule nth_equalityI)
  fix i assume l: "4 \<le> length p" and "i < length (le_bytes 4 (load_le_u32 p))"
  then have i: "i < 4" by (simp add: le_bytes_def)
  have "bit (ucast (drop_bit (8 * i) (load_le_u32 p)) :: 8 word) j \<longleftrightarrow> bit (p ! i) j" if "j < 8" for j
    using i that by (simp add: bit_simps load_le_u32_bit)
  then have "(ucast (drop_bit (8 * i) (load_le_u32 p)) :: 8 word) = p ! i" by (intro bit_word_eqI) simp
  with i l show "le_bytes 4 (load_le_u32 p) ! i = take 4 p ! i" by (simp add: le_bytes_def)
qed (simp add: le_bytes_def)

lemma length_le_bytes [simp]: "length (le_bytes n w) = n"
  by (simp add: le_bytes_def)

section \<open>The index format\<close>

text \<open>The encoding of src/src/zarr/zarr\_shard\_index.h: little-endian pairs, then their checksum.\<close>

definition shard_entry_bytes :: "zarr_shard_entry \<Rightarrow> 8 word list" where
  "shard_entry_bytes e = le_bytes 8 (se_offset e) @ le_bytes 8 (se_nbytes e)"

definition shard_index_encode :: "zarr_shard_entry list \<Rightarrow> 8 word list" where
  "shard_index_encode es = (let body = concat (map shard_entry_bytes es) in body @ le_bytes 4 (crc32c body))"

definition shard_entry_at :: "8 word list \<Rightarrow> nat \<Rightarrow> zarr_shard_entry" where
  "shard_entry_at buf i =
     \<lparr>se_offset = load_le_u64 (drop (i * 16) buf), se_nbytes = load_le_u64 (drop (i * 16 + 8) buf)\<rparr>"

lemma shard_entries_bytes:
  "n * 16 \<le> length buf \<Longrightarrow> concat (map (\<lambda>i. shard_entry_bytes (shard_entry_at buf i)) [0..<n]) = take (n * 16) buf"
proof (induction n)
  case (Suc n)
  have "shard_entry_bytes (shard_entry_at buf n) = take 8 (drop (n * 16) buf) @ take 8 (drop (n * 16 + 8) buf)"
    using Suc.prems by (simp add: shard_entry_bytes_def shard_entry_at_def le_bytes_load_le_u64)
  also have "\<dots> = take 16 (drop (n * 16) buf)"
    using take_add [of 8 8 "drop (n * 16) buf"] by (simp add: add.commute)
  finally show ?case using Suc take_add [of "n * 16" 16 buf] by (simp add: add.commute)
qed simp

lemma shard_index_parse_alt:
  assumes "n * 16 + 4 < 2 ^ 64"
  shows "zarr_shard_index_parse buf n =
    (if length buf = n * 16 + 4 \<and> load_le_u32 (drop (n * 16) buf) = crc32c (take (n * 16) buf)
     then Some (map (shard_entry_at buf) [0..<n]) else None)"
  using assms by (simp add: zarr_shard_index_parse_def zarr_shard_index_size_def u_exact shard_entry_at_def [abs_def] Let_def)

lemma shard_entry_bytes_inj: "shard_entry_bytes a = shard_entry_bytes b \<Longrightarrow> a = b"
proof -
  assume "shard_entry_bytes a = shard_entry_bytes b"
  then have "le_bytes 8 (se_offset a) = le_bytes 8 (se_offset b)" "le_bytes 8 (se_nbytes a) = le_bytes 8 (se_nbytes b)"
    by (simp_all add: shard_entry_bytes_def)
  moreover have "load_le_u64 (le_bytes 8 w) = w" for w by (rule load_le_u64_bytes) simp
  ultimately have "se_offset a = se_offset b" "se_nbytes a = se_nbytes b" by metis+
  then show ?thesis by simp
qed

lemma concat_entry_bytes_inj:
  "length as = length bs \<Longrightarrow> concat (map shard_entry_bytes as) = concat (map shard_entry_bytes bs) \<Longrightarrow> as = bs"
proof (induction as bs rule: list_induct2)
  case (Cons a as b bs)
  have "length (shard_entry_bytes a) = length (shard_entry_bytes b)" by (simp add: shard_entry_bytes_def)
  with Cons.prems have "shard_entry_bytes a = shard_entry_bytes b" "concat (map shard_entry_bytes as) = concat (map shard_entry_bytes bs)"
    by simp_all
  with Cons.IH show ?case by (auto dest: shard_entry_bytes_inj)
qed simp

lemma length_entry_bytes: "length (concat (map shard_entry_bytes es)) = length es * 16"
  by (induction es) (simp_all add: shard_entry_bytes_def)

lemma shard_index_parse_encodes:
  assumes "n * 16 + 4 < 2 ^ 64" and "zarr_shard_index_parse buf n = Some es"
  shows "length es = n \<and> buf = shard_index_encode es"
proof -
  from assms have l: "length buf = n * 16 + 4" and c: "load_le_u32 (drop (n * 16) buf) = crc32c (take (n * 16) buf)"
    and es: "es = map (shard_entry_at buf) [0..<n]" by (auto simp: shard_index_parse_alt split: if_splits)
  have body: "concat (map shard_entry_bytes es) = take (n * 16) buf"
    using shard_entries_bytes [of n buf] l by (simp add: es comp_def)
  have "le_bytes 4 (crc32c (take (n * 16) buf)) = take 4 (drop (n * 16) buf)" unfolding c [symmetric] by (rule le_bytes_load_le_u32) (simp add: l)
  then have "shard_index_encode es = buf" unfolding shard_index_encode_def body Let_def using l by (simp add: take_all)
  then show ?thesis by (simp add: es)
qed

lemma shard_index_encode_parses:
  assumes "length es * 16 + 4 < 2 ^ 64"
  shows "zarr_shard_index_parse (shard_index_encode es) (length es) = Some es"
proof -
  let ?b = "shard_index_encode es" and ?body = "concat (map shard_entry_bytes es)" and ?n = "length es"
  have t: "take (?n * 16) ?b = ?body" "drop (?n * 16) ?b = le_bytes 4 (crc32c ?body)"
    by (simp_all add: shard_index_encode_def Let_def length_entry_bytes)
  have "load_le_u32 (drop (?n * 16) ?b) = crc32c (take (?n * 16) ?b)" unfolding t by (rule load_le_u32_bytes) simp
  moreover have "length ?b = ?n * 16 + 4" by (simp add: shard_index_encode_def Let_def length_entry_bytes)
  ultimately obtain es' where p: "zarr_shard_index_parse ?b ?n = Some es'" by (simp add: shard_index_parse_alt [OF assms])
  from shard_index_parse_encodes [OF assms p] have l: "length es' = ?n" and e: "?b = shard_index_encode es'" by auto
  have "concat (map shard_entry_bytes es') = take (?n * 16) (shard_index_encode es')"
    using l by (simp add: shard_index_encode_def Let_def length_entry_bytes)
  then have "concat (map shard_entry_bytes es') = ?body" using t e by simp
  then show ?thesis using p concat_entry_bytes_inj [OF l] by simp
qed

section \<open>Properties\<close>

text \<open>C29. A buffer parses as a shard index of \<open>n\<close> entries exactly when it is the encoding of the entries returned:
  little-endian (offset, size) pairs in order followed by the CRC-32C of those bytes, and nothing else.\<close>

theorem zarr_shard_index_parse_iff:
  assumes "n * 16 + 4 < 2 ^ 64"
  shows "zarr_shard_index_parse buf n = Some es \<longleftrightarrow> length es = n \<and> buf = shard_index_encode es"
  using shard_index_parse_encodes [OF assms] shard_index_encode_parses assms by auto

definition shard_demo :: "zarr_shard_entry list" where
  "shard_demo = [\<lparr>se_offset = 0, se_nbytes = 513\<rparr>, \<lparr>se_offset = 0xFFFFFFFFFFFFFFFF, se_nbytes = 0xFFFFFFFFFFFFFFFF\<rparr>]"

theorem zarr_shard_index_parse_iff_witness:
  "zarr_shard_index_parse (shard_index_encode shard_demo) 2 = Some shard_demo"
proof -
  have "(2 :: nat) * 16 + 4 < 2 ^ 64" "length shard_demo = 2" by (simp_all add: shard_demo_def)
  with zarr_shard_index_parse_iff [of 2 "shard_index_encode shard_demo" shard_demo] show ?thesis by simp
qed

text \<open>C30. The table-driven \<open>crc32c\<close> computes the bit-by-bit CRC, and any change of a single byte of an accepted index,
  in the table or in the checksum itself, is rejected.\<close>

theorem zarr_shard_index_detects_byte:
  assumes "n * 16 + 4 < 2 ^ 64" and "zarr_shard_index_parse buf n = Some es" and "i < length buf" and "buf ! i \<noteq> b"
  shows "zarr_shard_index_parse (buf[i := b]) n = None \<and>
    crc32c (take (n * 16) buf) = fold crc32c_byte (take (n * 16) buf) 0xFFFFFFFF XOR 0xFFFFFFFF"
proof -
  from assms(1,2) have l: "length buf = n * 16 + 4" and c: "load_le_u32 (drop (n * 16) buf) = crc32c (take (n * 16) buf)"
    by (auto simp: shard_index_parse_alt split: if_splits)
  have "load_le_u32 (drop (n * 16) (buf[i := b])) \<noteq> crc32c (take (n * 16) (buf[i := b]))"
  proof (cases "i < n * 16")
    case True
    then have "take (n * 16) (buf[i := b]) = (take (n * 16) buf)[i := b]" "drop (n * 16) (buf[i := b]) = drop (n * 16) buf"
      by (simp_all add: take_update_swap)
    with True c l assms(4) crc32c_single_byte [of i "take (n * 16) buf" b] show ?thesis by simp
  next
    case False
    let ?d = "drop (n * 16) buf" and ?j = "i - n * 16"
    have t: "take (n * 16) (buf[i := b]) = take (n * 16) buf" "drop (n * 16) (buf[i := b]) = ?d[?j := b]"
      using False by (simp_all add: drop_update_swap)
    have j: "?j < length ?d" "?d ! ?j \<noteq> b" "length ?d = 4" using False l assms(3,4) by auto
    have "load_le_u32 (?d[?j := b]) \<noteq> load_le_u32 ?d"
    proof
      assume "load_le_u32 (?d[?j := b]) = load_le_u32 ?d"
      then have "take 4 (?d[?j := b]) = take 4 ?d" using le_bytes_load_le_u32 [of "?d[?j := b]"] le_bytes_load_le_u32 [of ?d] j(3) by simp
      then have "?d[?j := b] = ?d" using j(3) by simp
      then show False using j by (metis nth_list_update_eq)
    qed
    with t c show ?thesis by simp
  qed
  then show ?thesis by (simp add: shard_index_parse_alt [OF assms(1)] crc32c_bitwise)
qed

theorem zarr_shard_index_detects_byte_witness:
  "zarr_shard_index_parse ((shard_index_encode shard_demo)[8 := 2]) 2 = None"
proof -
  have p: "zarr_shard_index_parse (shard_index_encode shard_demo) 2 = Some shard_demo"
  proof -
    have "length shard_demo = 2" by (simp add: shard_demo_def)
    with shard_index_encode_parses [of shard_demo] show ?thesis by simp
  qed
  have n: "(2 :: nat) * 16 + 4 < 2 ^ 64" by simp
  have "8 < length (shard_index_encode shard_demo)"
    by (simp add: shard_index_encode_def shard_demo_def shard_entry_bytes_def)
  moreover have "shard_index_encode shard_demo ! 8 \<noteq> 2"
    by (simp add: shard_index_encode_def shard_demo_def shard_entry_bytes_def nth_append le_bytes_def)
  ultimately show ?thesis using zarr_shard_index_detects_byte [OF n p] by blast
qed

text \<open>Blocks of \<open>bs\<close> bytes, the last one possibly short, cover \<open>nb\<close> bytes exactly.\<close>

lemma block_cover:
  assumes v5: "0 < bs" and v6: "bs \<le> nb" and nk_def: "nk = nb div bs + of_bool (nb mod bs \<noteq> (0 :: nat))"
  shows "nb \<le> nk * bs" and "(nk - 1) * bs < nb"
proof -
  have dm: "nb = nb div bs * bs + nb mod bs" by simp
  have lt: "nb mod bs < bs" using v5 by simp
  have "nb \<le> nb div bs * bs + of_bool (nb mod bs \<noteq> 0) * bs"
  proof (cases "nb mod bs = 0")
    case True
    with dm show ?thesis by simp
  next
    case False
    have "nb \<le> nb div bs * bs + bs" using dm lt by linarith
    with False show ?thesis by simp
  qed
  then show "nb \<le> nk * bs" by (simp only: nk_def add_mult_distrib)
  show "(nk - 1) * bs < nb"
  proof (cases "nb mod bs = 0")
    case True
    have "nb div bs \<ge> 1" using v5 v6 by (simp add: less_eq_div_iff_mult_less_eq)
    then have "(nb div bs - 1) * bs < nb div bs * bs" using v5 by (intro mult_less_mono1) simp_all
    moreover have "nk = nb div bs" using True by (simp add: nk_def)
    moreover have "nb div bs * bs = nb" using dm True by linarith
    ultimately show ?thesis by presburger
  next
    case False
    then have "nb div bs * bs < nb" using dm by linarith
    with False show ?thesis by (simp add: nk_def)
  qed
qed

text \<open>A chunk header that \<open>zarr_chunk_layout_parse_header\<close> accepts describes a consistent layout: a supported blosc
  codec, at most 16 MiB, element-aligned sizes, \<open>nblocks\<close> blocks that cover the data exactly, a substream count within
  the cap that is computed without overflow, and a compressed size that holds the block offset table (or, for a
  stored chunk, exactly the data).\<close>

theorem zarr_chunk_layout_parse_header_sound:
  assumes "zarr_chunk_layout_parse_header (Some p) cbytes codec max_sub = Some l"
  shows "(codec = CODEC_BLOSC_LZ4 \<or> codec = CODEC_BLOSC_ZSTD) \<and> cl_codec_id l = codec \<and>
    0 < cl_nbytes l \<and> cl_nbytes l \<le> 16 * 2 ^ 20 \<and> 1 \<le> cl_typesize l \<and> cl_typesize l \<le> 8 \<and>
    cl_typesize l dvd cl_nbytes l \<and> cl_typesize l dvd cl_blocksize l \<and>
    (cl_nblocks l - 1) * cl_blocksize l < cl_nbytes l \<and> cl_nbytes l \<le> cl_nblocks l * cl_blocksize l \<and>
    cl_nblocks l \<le> cl_nsubstreams l \<and> cl_nsubstreams l \<le> max_sub \<and>
    (\<exists>splits \<in> {1, cl_typesize l}. cl_nsubstreams l =
       cl_nbytes l div cl_blocksize l * splits + (if cl_blocksize l dvd cl_nbytes l then 0 else 1)) \<and>
    (if cl_memcpyed l = 0 then 16 + 4 * cl_nblocks l \<le> cbytes else cbytes = 16 + cl_nbytes l)"
proof -
  define flags where "flags = p ! 2"
  define ts where "ts = unat (p ! 3)"
  define nb where "nb = read_u32_le (drop 4 p)"
  define bs where "bs = read_u32_le (drop 8 p)"
  define splits where "splits = (if flags AND 0x10 = 0 \<and> bs div ts \<ge> 128 then ts else 1)"
  note h = assms [unfolded zarr_chunk_layout_parse_header_def option.case Let_def,
      folded flags_def ts_def nb_def bs_def, folded splits_def]
  from h have v: "codec = CODEC_BLOSC_LZ4 \<or> codec = CODEC_BLOSC_ZSTD" "16 \<le> cbytes" "0 < nb" "nb \<le> 16 * 2 ^ 20"
    "0 < bs" "bs \<le> nb" "0 < ts" "ts \<le> 8" "ts dvd nb" "ts dvd bs"
    by (auto simp: BLOSC1_HEADER_BYTES_def DAMACY_BLOSC_MAX_CHUNK_UNCOMPRESSED_BYTES_def split: if_splits)
  have le: "nb div bs * splits \<le> nb"
  proof -
    have "splits \<le> bs" using v dvd_imp_le [OF v(10,5)] by (auto simp: splits_def)
    then have "nb div bs * splits \<le> nb div bs * bs" by (rule mult_le_mono2)
    then show ?thesis using div_times_less_eq_dividend order_trans by blast
  qed
  have small: "nb + 1 < 2 ^ 32" using v(4) by simp
  have ob: "of_bool (nb mod bs \<noteq> 0) \<le> (1 :: nat)" by simp
  have ex1: "u32_mul (nb div bs) splits = nb div bs * splits" by (rule u32_mul_exact) (use le small in linarith)
  have ex2: "u32_add (nb div bs * splits) (of_bool (nb mod bs \<noteq> 0)) = nb div bs * splits + of_bool (nb mod bs \<noteq> 0)"
    by (rule u32_add_exact) (use le small ob in linarith)
  have ex3: "u32_add (nb div bs) (of_bool (nb mod bs \<noteq> 0)) = nb div bs + of_bool (nb mod bs \<noteq> 0)"
    by (rule u32_add_exact) (use div_le_dividend [of nb bs] small ob in linarith)
  note ex = ex1 ex2 ex3
  define ns where "ns = nb div bs * splits + of_bool (nb mod bs \<noteq> 0)"
  define nk where "nk = nb div bs + of_bool (nb mod bs \<noteq> 0)"
  define mc where "mc = unat (drop_bit 1 flags AND 1)"
  note h' = h [unfolded ex, folded ns_def nk_def mc_def]
  from h' have l: "l = \<lparr>cl_codec_id = codec, cl_typesize = ts, cl_shuffle = unat (flags AND 1),
      cl_bitshuffle = unat (drop_bit 2 flags AND 1), cl_dont_split = unat (drop_bit 4 flags AND 1),
      cl_memcpyed = mc, cl_blocksize = bs, cl_nbytes = nb, cl_nblocks = nk, cl_nsubstreams = ns\<rparr>"
    by (simp split: if_split_asm)
  from h' have cap: "ns \<le> max_sub" and m0: "mc = 0 \<Longrightarrow> nk \<le> (cbytes - 16) div 4"
    by (simp_all add: BLOSC1_HEADER_BYTES_def not_less split: if_split_asm)
  from h' have m1: "mc \<noteq> 0 \<Longrightarrow> cbytes - 16 = nb" by (simp add: BLOSC1_HEADER_BYTES_def split: if_split_asm)
  have cover: "(nk - 1) * bs < nb" "nb \<le> nk * bs" using block_cover [OF v(5,6) nk_def] by auto
  have "1 \<le> splits" using v(7) by (simp add: splits_def)
  then have sub: "nk \<le> ns" by (simp add: nk_def ns_def)
  have sp: "\<exists>s\<in>{1, ts}. ns = nb div bs * s + (if bs dvd nb then 0 else 1)"
    by (rule bexI [of _ splits]) (simp_all add: ns_def dvd_eq_mod_eq_0 splits_def)
  have "if mc = 0 then 16 + 4 * nk \<le> cbytes else cbytes = 16 + nb" using m0 m1 v(2) by auto
  with v cover cap sub sp show ?thesis unfolding l by (simp add: Suc_le_eq)
qed

definition layout_demo :: "8 word list" where
  "layout_demo = [2, 1, 0x81, 2, 0, 4, 0, 0, 0, 1, 0, 0, 120, 0, 0, 0]"

theorem zarr_chunk_layout_parse_header_sound_witness:
  "\<exists>l. zarr_chunk_layout_parse_header (Some layout_demo) 120 CODEC_BLOSC_ZSTD 64 = Some l \<and>
     cl_nblocks l \<le> cl_nsubstreams l \<and> cl_nsubstreams l \<le> 64"
proof -
  have "zarr_chunk_layout_parse_header (Some layout_demo) 120 CODEC_BLOSC_ZSTD 64 \<noteq> None"
    by (simp add: zarr_chunk_layout_parse_header_def layout_demo_def read_u32_le_def BLOSC1_HEADER_BYTES_def
        DAMACY_BLOSC_MAX_CHUNK_UNCOMPRESSED_BYTES_def u32_add_def u32_mul_def Let_def)
  then obtain l where l: "zarr_chunk_layout_parse_header (Some layout_demo) 120 CODEC_BLOSC_ZSTD 64 = Some l" by blast
  with zarr_chunk_layout_parse_header_sound [OF l] show ?thesis by blast
qed

end
