(* ===== verification/Dispatch_Types.thy ===== *)
theory Dispatch_Types
  imports Selection Zarr_Index
begin

text \<open>
  The plan of a batch (src/src/planner/plan.h) and the read and chunk work the executors run
  (src/src/executor/dispatch.h). An array of the C structs is the list of its contents; the pointers the
  code compares with NULL are options.
\<close>

section \<open>Prepared plans\<close>

record plan_array =
  pa_uri :: string
  pa_metadata :: zarr_metadata

record plan_chunk =
  pc_path :: "string option"
  pc_offset :: nat
  pc_coordinate :: "nat list"
  pc_array :: nat
  pc_encoded_bytes :: nat
  pc_decoded_bytes :: nat
  pc_first_use :: nat
  pc_missing :: bool

datatype plan_operation = PLAN_COPY | PLAN_GATHER

record plan_region =
  pr_operation :: plan_operation
  pr_array :: nat
  pr_sample :: nat
  pr_source :: damacy_aabb
  pr_axes :: "query_axis list"

record plan_use =
  pu_chunk :: nat
  pu_region :: nat
  pu_next :: nat

record prepared_plan =
  pp_output :: damacy_batch_spec
  pp_arrays :: "plan_array list"
  pp_chunks :: "plan_chunk list"
  pp_regions :: "plan_region list"
  pp_uses :: "plan_use list"
  pp_n_arrays :: nat
  pp_n_chunks :: nat
  pp_n_regions :: nat
  pp_n_uses :: nat
  pp_allocated_bytes :: nat

section \<open>Dispatch work\<close>

record read_op =
  ro_shard_path :: "string option"
  ro_file_offset :: nat
  ro_host_buf_offset :: nat
  ro_nbytes :: nat

definition read_op0 :: read_op where
  "read_op0 = \<lparr>ro_shard_path = None, ro_file_offset = 0, ro_host_buf_offset = 0, ro_nbytes = 0\<rparr>"

record gather_index =
  gi_source :: nat
  gi_output :: nat

record gather_dim =
  gd_begin :: nat
  gd_count :: nat
  gd_output_begin :: nat

record sample_dim =
  sd_chunk_shape :: nat
  sd_chunk_grid_extent :: nat
  sd_index_offset :: nat
  sd_index_count :: nat
  sd_aabb_lo_relative :: int
  sd_aabb_extent :: int
  sd_dst_stride :: int
  sd_src_stride :: int

record sample_plan =
  sp_batch_pool_slot :: nat
  sp_sample_idx_in_batch :: nat
  sp_rank :: nat
  sp_src_dtype :: dtype
  sp_indexed :: bool
  sp_dims :: "sample_dim list"
  sp_sample_dst_off_elems :: int
  sp_fill_value :: "8 word list"

record chunk_plan =
  cp_read_op_idx :: nat
  cp_offset_in_read :: nat
  cp_compressed_nbytes :: nat
  cp_decompressed_nbytes :: nat
  cp_host_buf_offset :: nat
  cp_dev_decompressed_offset :: nat
  cp_gather_offset :: nat
  cp_batch_pool_slot :: nat
  cp_sample_idx_in_batch :: nat
  cp_codec_id :: compression_codec
  cp_is_fill :: bool
  cp_chunk_d :: "nat list"

record read_op_group =
  rg_read_op_idx :: nat
  rg_first_chunk :: nat
  rg_n_chunks :: nat
  rg_total_decompressed :: nat

record dispatch_output =
  do_read_ops :: "read_op list option"
  do_read_ops_cap :: nat
  do_n_read_ops :: nat
  do_chunk_plans :: "chunk_plan list option"
  do_chunk_plans_cap :: nat
  do_n_chunk_plans :: nat
  do_sample_plans :: "sample_plan list"
  do_sample_plans_cap :: nat
  do_n_sample_plans :: nat
  do_read_op_groups :: "read_op_group list option"
  do_read_op_groups_cap :: nat
  do_n_read_op_groups :: nat
  do_indices :: "gather_index list option"
  do_indices_cap :: nat
  do_n_indices :: nat
  do_gather_dims :: "gather_dim list"
  do_gather_dims_cap :: nat
  do_n_gather_dims :: nat
  do_n_chunks_to_load :: nat
  do_n_loads_issued :: nat

end
