(* ===== verification/Read_Sort.thy ===== *)
theory Read_Sort
  imports Dispatch_Types
begin

text \<open>
  The in-place sort of a permutation of the read operations of src/src/executor/read\_op\_sort.c: quicksort with the median of three as the pivot, insertion sort below
  16 elements, recursion into the smaller part. The locale \<open>index_order\<close> is what the sort relies on, a
  strict linear order on the indices; \<open>perm_lt\<close> interprets it. The loops carry fuel; the lemmas show that
  the fuel the definitions supply is enough, that is, that the sort returns.
\<close>

section \<open>The order\<close>

text \<open>\<open>strcmp\<close> on the bytes of two strings.\<close>

fun strcmp :: "string \<Rightarrow> string \<Rightarrow> int" where
  "strcmp [] [] = 0"
| "strcmp [] (b # bs) = -1"
| "strcmp (a # as) [] = 1"
| "strcmp (a # as) (b # bs) =
     (if a = b then strcmp as bs else if (of_char a :: nat) < of_char b then -1 else 1)"

definition perm_lt :: "read_op list \<Rightarrow> nat \<Rightarrow> nat \<Rightarrow> bool" where
  "perm_lt ops a b \<longleftrightarrow>
     (let pa = ro_shard_path (ops ! a);
          pb = ro_shard_path (ops ! b);
          cmp = (if pa \<noteq> pb then strcmp (the pa) (the pb) else 0)
      in if cmp \<noteq> 0 then cmp < 0
         else if ro_file_offset (ops ! a) \<noteq> ro_file_offset (ops ! b)
           then ro_file_offset (ops ! a) < ro_file_offset (ops ! b)
         else a < b)"

section \<open>The sort\<close>

abbreviation swap :: "nat \<Rightarrow> nat \<Rightarrow> nat list \<Rightarrow> nat list" where
  "swap i j perm \<equiv> perm[i := perm ! j, j := perm ! i]"

text \<open>The inner \<open>while\<close> of the insertion sort: shift until the place of \<open>key\<close> is found.\<close>

fun insertion_shift :: "(nat \<Rightarrow> nat \<Rightarrow> bool) \<Rightarrow> nat \<Rightarrow> nat \<Rightarrow> nat list \<Rightarrow> nat \<Rightarrow> nat list" where
  "insertion_shift lt lo key perm 0 = perm[0 := key]"
| "insertion_shift lt lo key perm (Suc j) =
     (if Suc j > lo \<and> \<not> lt (perm ! j) key
      then insertion_shift lt lo key (perm[Suc j := perm ! j]) j
      else perm[Suc j := key])"

fun perm_insertion_sort_loop :: "(nat \<Rightarrow> nat \<Rightarrow> bool) \<Rightarrow> nat \<Rightarrow> nat \<Rightarrow> nat \<Rightarrow> nat list \<Rightarrow> nat list" where
  "perm_insertion_sort_loop lt lo 0 i perm = perm"
| "perm_insertion_sort_loop lt lo (Suc left) i perm =
     perm_insertion_sort_loop lt lo left (i + 1) (insertion_shift lt lo (perm ! i) perm i)"

definition perm_insertion_sort :: "(nat \<Rightarrow> nat \<Rightarrow> bool) \<Rightarrow> nat list \<Rightarrow> nat \<Rightarrow> nat \<Rightarrow> nat list" where
  "perm_insertion_sort lt perm lo hi = perm_insertion_sort_loop lt lo (hi - lo) (lo + 1) perm"

definition READ_OP_SORT_INSERTION_CUTOFF :: nat where "READ_OP_SORT_INSERTION_CUTOFF = 16"

fun scan_up :: "nat \<Rightarrow> (nat \<Rightarrow> nat \<Rightarrow> bool) \<Rightarrow> nat list \<Rightarrow> nat \<Rightarrow> nat \<Rightarrow> nat option" where
  "scan_up 0 lt perm pivot i = None"
| "scan_up (Suc fuel) lt perm pivot i =
     (let i = i + 1 in if lt (perm ! i) pivot then scan_up fuel lt perm pivot i else Some i)"

fun scan_down :: "nat \<Rightarrow> (nat \<Rightarrow> nat \<Rightarrow> bool) \<Rightarrow> nat list \<Rightarrow> nat \<Rightarrow> nat \<Rightarrow> nat option" where
  "scan_down 0 lt perm pivot j = None"
| "scan_down (Suc fuel) lt perm pivot j =
     (let j = j - 1 in if lt pivot (perm ! j) then scan_down fuel lt perm pivot j else Some j)"

fun partition_loop :: "nat \<Rightarrow> (nat \<Rightarrow> nat \<Rightarrow> bool) \<Rightarrow> nat \<Rightarrow> nat list \<Rightarrow> nat \<Rightarrow> nat \<Rightarrow> (nat list \<times> nat) option" where
  "partition_loop 0 lt pivot perm i j = None"
| "partition_loop (Suc fuel) lt pivot perm i j =
     (case scan_up (length perm) lt perm pivot i of
        None \<Rightarrow> None
      | Some i \<Rightarrow>
          (case scan_down (length perm) lt perm pivot j of
             None \<Rightarrow> None
           | Some j \<Rightarrow>
               if i \<ge> j then Some (perm, i)
               else partition_loop fuel lt pivot (swap i j perm) i j))"

definition median3 :: "(nat \<Rightarrow> nat \<Rightarrow> bool) \<Rightarrow> nat list \<Rightarrow> nat \<Rightarrow> nat \<Rightarrow> nat \<Rightarrow> nat list" where
  "median3 lt perm lo mid hi =
     (let perm = (if lt (perm ! mid) (perm ! lo) then swap lo mid perm else perm);
          perm = (if lt (perm ! hi) (perm ! lo) then swap lo hi perm else perm);
          perm = (if lt (perm ! hi) (perm ! mid) then swap mid hi perm else perm)
      in swap mid (hi - 1) perm)"

text \<open>One turn of the loop of \<open>perm_quicksort\<close> up to the final swap: the partitioned array and the pivot's place.\<close>

definition quicksort_partition :: "(nat \<Rightarrow> nat \<Rightarrow> bool) \<Rightarrow> nat list \<Rightarrow> nat \<Rightarrow> nat \<Rightarrow> (nat list \<times> nat) option" where
  "quicksort_partition lt perm lo hi =
     (let perm = median3 lt perm lo (lo + (hi - lo) div 2) hi;
          pivot_idx = hi - 1
      in map_option (\<lambda>(perm, i). (swap i pivot_idx perm, i))
           (partition_loop (length perm) lt (perm ! pivot_idx) perm lo pivot_idx))"

fun perm_quicksort :: "nat \<Rightarrow> (nat \<Rightarrow> nat \<Rightarrow> bool) \<Rightarrow> nat list \<Rightarrow> nat \<Rightarrow> nat \<Rightarrow> nat list option" where
  "perm_quicksort 0 lt perm lo hi = None"
| "perm_quicksort (Suc fuel) lt perm lo hi =
     (if hi > lo then
        if hi - lo < READ_OP_SORT_INSERTION_CUTOFF then Some (perm_insertion_sort lt perm lo hi)
        else
          (case quicksort_partition lt perm lo hi of
             None \<Rightarrow> None
           | Some (perm, i) \<Rightarrow>
               if i > 0 \<and> (i - 1) - lo < hi - (i + 1) then
                 (case (if i > lo + 1 then perm_quicksort fuel lt perm lo (i - 1) else Some perm) of
                    None \<Rightarrow> None
                  | Some perm \<Rightarrow> perm_quicksort fuel lt perm (i + 1) hi)
               else
                 (case (if i + 1 < hi then perm_quicksort fuel lt perm (i + 1) hi else Some perm) of
                    None \<Rightarrow> None
                  | Some perm \<Rightarrow> if i = 0 then Some perm else perm_quicksort fuel lt perm lo (i - 1)))
      else Some perm)"

definition read_op_perm_sort :: "read_op list \<Rightarrow> nat list \<Rightarrow> nat \<Rightarrow> nat list option" where
  "read_op_perm_sort ops perm n = (if n > 1 then perm_quicksort (Suc n) (perm_lt ops) perm 0 (n - 1) else Some perm)"

section \<open>Ranges\<close>

text \<open>\<open>ys\<close> is \<open>xs\<close> with the positions \<open>lo..hi\<close> rearranged.\<close>

definition rearranged :: "nat \<Rightarrow> nat \<Rightarrow> 'a list \<Rightarrow> 'a list \<Rightarrow> bool" where
  "rearranged lo hi xs ys \<longleftrightarrow> mset ys = mset xs \<and> (\<forall>k < length xs. k < lo \<or> hi < k \<longrightarrow> ys ! k = xs ! k)"

lemma rearranged_length: "rearranged lo hi xs ys \<Longrightarrow> length ys = length xs"
  unfolding rearranged_def by (metis size_mset)

lemma rearranged_refl [simp, intro]: "rearranged lo hi xs xs"
  by (simp add: rearranged_def)

lemma rearranged_trans: "rearranged lo hi xs ys \<Longrightarrow> rearranged lo hi ys zs \<Longrightarrow> rearranged lo hi xs zs"
  using rearranged_length unfolding rearranged_def by metis

lemma rearranged_mono: "rearranged lo hi xs ys \<Longrightarrow> lo' \<le> lo \<Longrightarrow> hi \<le> hi' \<Longrightarrow> rearranged lo' hi' xs ys"
  unfolding rearranged_def by auto

lemma rearranged_swap:
  assumes "i < length xs" and "j < length xs" and "lo \<le> i" "i \<le> hi" "lo \<le> j" "j \<le> hi"
  shows "rearranged lo hi xs (xs[i := xs ! j, j := xs ! i])"
  using assms unfolding rearranged_def by (auto simp: mset_swap nth_list_update)

lemma rearranged_in:
  assumes r: "rearranged lo hi xs ys" and hi: "hi < length xs" and k: "lo \<le> k" "k \<le> hi"
  obtains m where "lo \<le> m" and "m \<le> hi" and "ys ! k = xs ! m"
proof -
  have len: "length ys = length xs" using rearranged_length [OF r] .
  have A: "take lo ys = take lo xs" using r len k hi by (intro nth_equalityI) (auto simp: rearranged_def)
  have C: "drop (Suc hi) ys = drop (Suc hi) xs" using r len hi by (intro nth_equalityI) (auto simp: rearranged_def)
  have split: "zs = take lo zs @ take (Suc hi - lo) (drop lo zs) @ drop (Suc hi) zs" if "length zs = length xs" for zs :: "'a list"
    using that k hi by (metis append_take_drop_id drop_drop le_Suc_eq le_add_diff_inverse2 le_trans)
  have "mset (take lo ys) + mset (take (Suc hi - lo) (drop lo ys)) + mset (drop (Suc hi) ys) =
        mset (take lo xs) + mset (take (Suc hi - lo) (drop lo xs)) + mset (drop (Suc hi) xs)"
    using r split [OF len] split [OF refl] unfolding rearranged_def by (metis mset_append add.assoc)
  then have "mset (take (Suc hi - lo) (drop lo ys)) = mset (take (Suc hi - lo) (drop lo xs))" using A C by simp
  moreover have "ys ! k \<in> set (take (Suc hi - lo) (drop lo ys))"
    using k hi len by (auto simp: in_set_conv_nth intro!: exI [of _ "k - lo"])
  ultimately have "ys ! k \<in> set (take (Suc hi - lo) (drop lo xs))" by (metis set_mset_mset)
  then obtain j where "j < Suc hi - lo" "ys ! k = xs ! (lo + j)" using hi by (auto simp: in_set_conv_nth)
  then show thesis by (intro that [of "lo + j"]) auto
qed


section \<open>The order the sort relies on\<close>

definition sorted_on :: "(nat \<Rightarrow> nat \<Rightarrow> bool) \<Rightarrow> nat \<Rightarrow> nat \<Rightarrow> nat list \<Rightarrow> bool" where
  "sorted_on lt lo hi perm \<longleftrightarrow> (\<forall>a b. lo \<le> a \<and> a < b \<and> b \<le> hi \<longrightarrow> \<not> lt (perm ! b) (perm ! a))"

definition sorts :: "(nat \<Rightarrow> nat \<Rightarrow> bool) \<Rightarrow> nat \<Rightarrow> nat \<Rightarrow> nat list \<Rightarrow> nat list \<Rightarrow> bool" where
  "sorts lt lo hi perm q \<longleftrightarrow> rearranged lo hi perm q \<and> sorted_on lt lo hi q"

definition partitioned :: "(nat \<Rightarrow> nat \<Rightarrow> bool) \<Rightarrow> nat \<Rightarrow> nat \<Rightarrow> nat \<Rightarrow> nat list \<Rightarrow> bool" where
  "partitioned lt lo i hi perm \<longleftrightarrow>
     (\<forall>x. lo \<le> x \<and> x < i \<longrightarrow> \<not> lt (perm ! i) (perm ! x)) \<and> (\<forall>x. i < x \<and> x \<le> hi \<longrightarrow> \<not> lt (perm ! x) (perm ! i))"

lemma sorts_trivial: "hi \<le> lo \<Longrightarrow> sorts lt lo hi perm perm"
  by (auto simp: sorts_def sorted_on_def)

locale index_order =
  fixes lt :: "nat \<Rightarrow> nat \<Rightarrow> bool"
  assumes lt_asym: "lt a b \<Longrightarrow> \<not> lt b a"
    and lt_trans: "lt a b \<Longrightarrow> lt b c \<Longrightarrow> lt a c"
    and lt_total: "a \<noteq> b \<Longrightarrow> lt a b \<or> lt b a"
begin

lemma irrefl [simp]: "\<not> lt a a"
  using lt_asym by blast

lemma le_trans: "\<not> lt b a \<Longrightarrow> \<not> lt c b \<Longrightarrow> \<not> lt c a"
  using lt_total lt_trans lt_asym by metis

lemma less_le: "lt a b \<Longrightarrow> \<not> lt b a"
  by (rule lt_asym)

lemma insertion_shift_sorts:
  assumes "lo \<le> j" and "j \<le> i" and "i < length perm"
    and "\<And>a b. lo \<le> a \<Longrightarrow> a < b \<Longrightarrow> b \<le> i \<Longrightarrow> a \<noteq> j \<Longrightarrow> b \<noteq> j \<Longrightarrow> \<not> lt (perm ! b) (perm ! a)"
    and "\<And>b. j < b \<Longrightarrow> b \<le> i \<Longrightarrow> \<not> lt (perm ! b) key"
  shows "sorts lt lo i (perm[j := key]) (insertion_shift lt lo key perm j)"
  using assms
proof (induction j arbitrary: perm)
  case 0
  have "\<not> lt (perm[0 := key] ! b) (perm[0 := key] ! a)" if "a < b" "b \<le> i" for a b
    using that 0 le_less_trans [of 0 i "length perm"] by (cases "a = 0") auto
  then show ?case by (simp add: sorts_def sorted_on_def)
next
  case (Suc j)
  show ?case
  proof (cases "Suc j > lo \<and> \<not> lt (perm ! j) key")
    case True
    let ?p = "perm[Suc j := perm ! j]"
    have "sorts lt lo i (?p[j := key]) (insertion_shift lt lo key ?p j)"
      using True Suc.prems by (intro Suc.IH) (auto simp: nth_list_update)
    moreover have "rearranged lo i (perm[Suc j := key]) (?p[j := key])"
      using True Suc.prems rearranged_swap [of j "perm[Suc j := key]" "Suc j" lo i]
      by (simp add: list_update_swap)
    ultimately show ?thesis using True by (auto simp: sorts_def intro: rearranged_trans)
  next
    case False
    have "\<not> lt key (perm ! a)" if a: "lo \<le> a" "a < Suc j" for a
    proof -
      have "lt (perm ! j) key" using False a by auto
      moreover have "a = j \<or> \<not> lt (perm ! j) (perm ! a)" using Suc.prems(4) [of a j] Suc.prems(2) a by auto
      ultimately show ?thesis using le_trans lt_asym by metis
    qed
    then have "sorted_on lt lo i (perm[Suc j := key])"
      using Suc.prems unfolding sorted_on_def by (auto simp: nth_list_update)
    then show ?thesis using False by (auto simp: sorts_def)
  qed
qed

lemma perm_insertion_sort_loop_sorts:
  assumes "lo < i" and "i + left = hi + 1" and "hi < length perm" and "sorted_on lt lo (i - 1) perm"
  shows "sorts lt lo hi perm (perm_insertion_sort_loop lt lo left i perm)"
  using assms
proof (induction left arbitrary: i perm)
  case 0
  then show ?case by (simp add: sorts_def)
next
  case (Suc left)
  let ?q = "insertion_shift lt lo (perm ! i) perm i"
  have "sorts lt lo i (perm[i := perm ! i]) ?q"
    using Suc.prems by (intro insertion_shift_sorts) (auto simp: sorted_on_def)
  then have q: "rearranged lo hi perm ?q" "sorted_on lt lo i ?q"
    using Suc.prems by (auto simp: sorts_def intro: rearranged_mono)
  have "sorts lt lo hi ?q (perm_insertion_sort_loop lt lo left (i + 1) ?q)"
    using Suc.prems q rearranged_length [OF q(1)] by (intro Suc.IH) auto
  then show ?case using q(1) by (auto simp: sorts_def intro: rearranged_trans)
qed

lemma perm_insertion_sort_sorts:
  assumes "lo < hi" and "hi < length perm"
  shows "sorts lt lo hi perm (perm_insertion_sort lt perm lo hi)"
  unfolding perm_insertion_sort_def
  using assms by (intro perm_insertion_sort_loop_sorts) (auto simp: sorted_on_def)

lemma scan_up_stops:
  assumes "i < m" and "m - i \<le> fuel" and "\<not> lt (perm ! m) pivot"
  obtains k where "scan_up fuel lt perm pivot i = Some k" and "i < k" and "k \<le> m"
    and "\<not> lt (perm ! k) pivot" and "\<And>x. i < x \<Longrightarrow> x < k \<Longrightarrow> lt (perm ! x) pivot"
  using assms
proof (induction fuel arbitrary: i thesis)
  case (Suc fuel)
  show ?case
  proof (cases "lt (perm ! Suc i) pivot")
    case True
    then have "Suc i < m" using Suc.prems by (metis Suc_lessI)
    then obtain k where k: "scan_up fuel lt perm pivot (Suc i) = Some k" "Suc i < k" "k \<le> m"
      "\<not> lt (perm ! k) pivot" "\<And>x. Suc i < x \<Longrightarrow> x < k \<Longrightarrow> lt (perm ! x) pivot"
      using Suc.prems by (elim Suc.IH [of "Suc i", rotated]) auto
    have "lt (perm ! x) pivot" if "i < x" "x < k" for x using that True k(5) by (cases "x = Suc i") auto
    then show ?thesis using True k by (intro Suc.prems(1) [of k]) auto
  next
    case False
    then show ?thesis using Suc.prems by (intro Suc.prems(1) [of "Suc i"]) auto
  qed
qed simp

lemma scan_down_stops:
  assumes "m < j" and "j - m \<le> fuel" and "\<not> lt pivot (perm ! m)"
  obtains k where "scan_down fuel lt perm pivot j = Some k" and "k < j" and "m \<le> k"
    and "\<not> lt pivot (perm ! k)" and "\<And>x. k < x \<Longrightarrow> x < j \<Longrightarrow> lt pivot (perm ! x)"
  using assms
proof (induction fuel arbitrary: j thesis)
  case (Suc fuel)
  show ?case
  proof (cases "lt pivot (perm ! (j - 1))")
    case True
    then have "m \<noteq> j - 1" using Suc.prems by metis
    then have "m < j - 1" using Suc.prems by simp
    then obtain k where k: "scan_down fuel lt perm pivot (j - 1) = Some k" "k < j - 1" "m \<le> k"
      "\<not> lt pivot (perm ! k)" "\<And>x. k < x \<Longrightarrow> x < j - 1 \<Longrightarrow> lt pivot (perm ! x)"
      using Suc.prems by (elim Suc.IH [of "j - 1", rotated]) auto
    have "lt pivot (perm ! x)" if "k < x" "x < j" for x using that True k(5) by (cases "x = j - 1") auto
    then show ?thesis using True k by (intro Suc.prems(1) [of k]) auto
  next
    case False
    then show ?thesis using Suc.prems by (intro Suc.prems(1) [of "j - 1"]) (auto simp: Let_def)
  qed
qed simp

lemma partition_loop_splits:
  assumes "lo \<le> i" and "i < j" and "j \<le> hi - 1" and "hi < length perm" and "j - i \<le> fuel"
    and "\<And>x. lo \<le> x \<Longrightarrow> x \<le> i \<Longrightarrow> \<not> lt pivot (perm ! x)"
    and "\<And>x. j \<le> x \<Longrightarrow> x \<le> hi \<Longrightarrow> \<not> lt (perm ! x) pivot"
    and "perm ! (hi - 1) = pivot"
  obtains q k where "partition_loop fuel lt pivot perm i j = Some (q, k)" and "rearranged lo hi perm q"
    and "i < k" and "k \<le> hi - 1" and "q ! (hi - 1) = pivot"
    and "\<And>x. lo \<le> x \<Longrightarrow> x < k \<Longrightarrow> \<not> lt pivot (q ! x)" and "\<And>x. k \<le> x \<Longrightarrow> x \<le> hi \<Longrightarrow> \<not> lt (q ! x) pivot"
  using assms
proof (induction fuel arbitrary: perm i j thesis)
  case (Suc fuel)
  obtain i' where i': "scan_up (length perm) lt perm pivot i = Some i'" "i < i'" "i' \<le> j"
    "\<not> lt (perm ! i') pivot" "\<And>x. i < x \<Longrightarrow> x < i' \<Longrightarrow> lt (perm ! x) pivot"
    using Suc.prems by (elim scan_up_stops [of i j "length perm" perm pivot, rotated 3]) auto
  obtain j' where j': "scan_down (length perm) lt perm pivot j = Some j'" "j' < j" "i \<le> j'"
    "\<not> lt pivot (perm ! j')" "\<And>x. j' < x \<Longrightarrow> x < j \<Longrightarrow> lt pivot (perm ! x)"
    using Suc.prems by (elim scan_down_stops [of i j "length perm" pivot perm, rotated 3]) auto
  have low: "\<not> lt pivot (perm ! x)" if "lo \<le> x" "x < i'" for x
    using that Suc.prems(7) [of x] less_le [OF i'(5) [of x]] by (cases "x \<le> i") auto
  have high: "\<not> lt (perm ! x) pivot" if "j' < x" "x \<le> hi" for x
    using that Suc.prems(8) [of x] less_le [OF j'(5) [of x]] by (cases "j \<le> x") auto
  show ?case
  proof (cases "i' \<ge> j'")
    case True
    have "\<not> lt (perm ! x) pivot" if "i' \<le> x" "x \<le> hi" for x
      using that high [of x] i'(4) True by (cases "x = i'") auto
    then show ?thesis using True i' j' Suc.prems low by (intro Suc.prems(1) [of perm i']) auto
  next
    case False
    let ?p = "swap i' j' perm"
    have b: "i' < length perm" "j' < length perm" "lo \<le> i'" "j' < hi - 1" using False i' j' Suc.prems by auto
    have "\<not> lt pivot (?p ! x)" if "lo \<le> x" "x \<le> i'" for x
      using that low [of x] j'(4) False b by (cases "x = i'") auto
    moreover have "\<not> lt (?p ! x) pivot" if "j' \<le> x" "x \<le> hi" for x
      using that high [of x] i'(4) False b by (cases "x = j'") auto
    moreover have "?p ! (hi - 1) = pivot" using False b Suc.prems(9) by simp
    ultimately obtain q k where q: "partition_loop fuel lt pivot ?p i' j' = Some (q, k)" "rearranged lo hi ?p q"
      "i' < k" "k \<le> hi - 1" "q ! (hi - 1) = pivot"
      "\<And>x. lo \<le> x \<Longrightarrow> x < k \<Longrightarrow> \<not> lt pivot (q ! x)" "\<And>x. k \<le> x \<Longrightarrow> x \<le> hi \<Longrightarrow> \<not> lt (q ! x) pivot"
      using False i'(2,3) j'(2,3) b Suc.prems(3-6) by (elim Suc.IH [where i = i' and j = j' and perm = ?p, rotated]) auto
    have "rearranged lo hi perm ?p" using False b by (intro rearranged_swap) auto
    then have "rearranged lo hi perm q" using q(2) by (rule rearranged_trans)
    then show ?thesis using False i'(1,2) j'(1) q by (intro Suc.prems(1) [of q k]) auto
  qed
qed simp

lemma median3_places:
  assumes "lo < mid" and "mid < hi - 1" and "hi < length perm"
  defines "q \<equiv> median3 lt perm lo mid hi"
  shows "rearranged lo hi perm q" and "\<not> lt (q ! (hi - 1)) (q ! lo)" and "\<not> lt (q ! hi) (q ! (hi - 1))"
proof -
  define p1 where "p1 = (if lt (perm ! mid) (perm ! lo) then swap lo mid perm else perm)"
  define p2 where "p2 = (if lt (p1 ! hi) (p1 ! lo) then swap lo hi p1 else p1)"
  define p3 where "p3 = (if lt (p2 ! hi) (p2 ! mid) then swap mid hi p2 else p2)"
  have q: "q = swap mid (hi - 1) p3" by (simp add: q_def median3_def p1_def p2_def p3_def Let_def)
  have len: "length p1 = length perm" "length p2 = length perm" "length p3 = length perm"
    by (simp_all add: p1_def p2_def p3_def)
  have r1: "rearranged lo hi perm p1" using assms by (auto simp: p1_def intro: rearranged_swap)
  have r2: "rearranged lo hi p1 p2" using assms len by (auto simp: p2_def intro: rearranged_swap)
  have r3: "rearranged lo hi p2 p3" using assms len by (auto simp: p3_def intro: rearranged_swap)
  have "rearranged lo hi p3 q" using assms(1-3) len unfolding q by (intro rearranged_swap) auto
  then show "rearranged lo hi perm q" using r1 r2 r3 by (blast intro: rearranged_trans)
  have a1: "\<not> lt (p1 ! mid) (p1 ! lo)" using assms(1-3) by (auto simp: p1_def less_le)
  have a2: "\<not> lt (p2 ! hi) (p2 ! lo)" using assms(1-3) len by (auto simp: p2_def less_le)
  have b2: "\<not> lt (p2 ! mid) (p2 ! lo)"
    using a1 assms(1-3) len le_trans [of "p1 ! lo" "p1 ! hi" "p1 ! mid"] by (auto simp: p2_def less_le)
  have a3: "\<not> lt (p3 ! hi) (p3 ! mid)" using assms(1-3) len by (auto simp: p3_def less_le)
  have b3: "\<not> lt (p3 ! mid) (p3 ! lo)" using a2 b2 assms(1-3) len by (auto simp: p3_def)
  show "\<not> lt (q ! (hi - 1)) (q ! lo)" using b3 assms(1-3) len by (simp add: q)
  show "\<not> lt (q ! hi) (q ! (hi - 1))" using a3 assms(1-3) len by (simp add: q)
qed

lemma quicksort_partition_splits:
  assumes "16 \<le> hi - lo" and "hi < length perm"
  obtains q i where "quicksort_partition lt perm lo hi = Some (q, i)" and "rearranged lo hi perm q"
    and "lo < i" and "i < hi" and "partitioned lt lo i hi q"
proof -
  let ?mid = "lo + (hi - lo) div 2"
  define p where "p = median3 lt perm lo ?mid hi"
  have mid: "lo < ?mid" "?mid < hi - 1" using assms(1) by auto
  note m = median3_places [OF mid assms(2), folded p_def]
  have len: "length p = length perm" using rearranged_length [OF m(1)] .
  have up: "\<not> lt (p ! x) (p ! (hi - 1))" if "hi - 1 \<le> x" "x \<le> hi" for x
    using that m(3) by (cases "x = hi") (auto dest: le_antisym)
  obtain q k where q: "partition_loop (length p) lt (p ! (hi - 1)) p lo (hi - 1) = Some (q, k)"
    "rearranged lo hi p q" "lo < k" "k \<le> hi - 1" "q ! (hi - 1) = p ! (hi - 1)"
    "\<And>x. lo \<le> x \<Longrightarrow> x < k \<Longrightarrow> \<not> lt (p ! (hi - 1)) (q ! x)"
    "\<And>x. k \<le> x \<Longrightarrow> x \<le> hi \<Longrightarrow> \<not> lt (q ! x) (p ! (hi - 1))"
    using assms len m(2) up
    by (elim partition_loop_splits [of lo lo "hi - 1" hi p "length p" "p ! (hi - 1)", rotated 8])
       (auto dest: le_antisym)
  let ?r = "swap k (hi - 1) q"
  have lq: "length q = length perm" using rearranged_length [OF q(2)] len by simp
  have "rearranged lo hi q ?r" using assms q(3,4) lq by (intro rearranged_swap) auto
  then have r: "rearranged lo hi perm ?r" using m(1) q(2) by (blast intro: rearranged_trans)
  have "\<not> lt (?r ! x) (p ! (hi - 1))" if "k < x" "x \<le> hi" for x
    using that q(4,5,7) assms lq by (cases "x = hi - 1") auto
  moreover have "?r ! k = p ! (hi - 1)" using q(4,5) assms lq by (cases "k = hi - 1") auto
  ultimately have "partitioned lt lo k hi ?r"
    using q(3,4,6) assms lq by (auto simp: partitioned_def)
  moreover have "quicksort_partition lt perm lo hi = Some (?r, k)"
    using q(1) by (simp add: quicksort_partition_def p_def Let_def)
  ultimately show thesis using r q(3,4) assms by (intro that [of ?r k]) auto
qed

lemma partitioned_rearranged:
  assumes p: "partitioned lt lo i hi q" and i: "lo < i" "i < hi" "hi < length q"
    and r: "rearranged lo (i - 1) q r \<or> rearranged (i + 1) hi q r"
  shows "partitioned lt lo i hi r"
  using r
proof
  assume r: "rearranged lo (i - 1) q r"
  have "\<not> lt (q ! i) (r ! x)" if x: "lo \<le> x" "x < i" for x
  proof -
    obtain m where "lo \<le> m" "m \<le> i - 1" "r ! x = q ! m" by (rule rearranged_in [OF r, of x]) (use x i in auto)
    then show ?thesis using p i by (auto simp: partitioned_def)
  qed
  moreover have "r ! x = q ! x" if "i \<le> x" "x \<le> hi" for x using that r i by (auto simp: rearranged_def)
  ultimately show ?thesis using p i by (auto simp: partitioned_def)
next
  assume r: "rearranged (i + 1) hi q r"
  have "\<not> lt (r ! x) (q ! i)" if x: "i < x" "x \<le> hi" for x
  proof -
    obtain m where "i + 1 \<le> m" "m \<le> hi" "r ! x = q ! m" by (rule rearranged_in [OF r, of x]) (use x i in auto)
    then show ?thesis using p i by (auto simp: partitioned_def)
  qed
  moreover have "r ! x = q ! x" if "x \<le> i" for x using that r i by (auto simp: rearranged_def)
  ultimately show ?thesis using p i by (auto simp: partitioned_def)
qed

lemma partitioned_sorted:
  assumes p: "partitioned lt lo i hi q" and l: "sorted_on lt lo (i - 1) q" and h: "sorted_on lt (i + 1) hi q"
  shows "sorted_on lt lo hi q"
  unfolding sorted_on_def
proof (intro allI impI, elim conjE)
  fix a b assume ab: "lo \<le> a" "a < b" "b \<le> hi"
  consider "b < i" | "i < a" | "a \<le> i" "i \<le> b" by linarith
  then show "\<not> lt (q ! b) (q ! a)"
  proof cases
    case 3
    then have "\<not> lt (q ! i) (q ! a)" "\<not> lt (q ! b) (q ! i)" using ab p by (auto simp: partitioned_def le_less)
    then show ?thesis by (rule le_trans)
  qed (use ab l h in \<open>auto simp: sorted_on_def\<close>)
qed

lemma perm_quicksort_sorts:
  assumes "hi - lo < fuel" and "hi < length perm"
  shows "\<exists>q. perm_quicksort fuel lt perm lo hi = Some q \<and> sorts lt lo hi perm q"
  using assms
proof (induction fuel arbitrary: perm lo hi)
  case (Suc fuel)
  consider "hi \<le> lo" | "lo < hi" "hi - lo < 16" | "16 \<le> hi - lo" by linarith
  then show ?case
  proof cases
    case 1
    then show ?thesis using sorts_trivial by auto
  next
    case 2
    then show ?thesis using Suc.prems perm_insertion_sort_sorts [of lo hi perm]
      by (auto simp: READ_OP_SORT_INSERTION_CUTOFF_def)
  next
    case 3
    obtain q i where q: "quicksort_partition lt perm lo hi = Some (q, i)" "rearranged lo hi perm q"
      "lo < i" "i < hi" "partitioned lt lo i hi q"
      using quicksort_partition_splits [OF 3 Suc.prems(2)] .
    have lq: "length q = length perm" using rearranged_length [OF q(2)] .
    have left: "\<exists>r. perm_quicksort fuel lt p lo (i - 1) = Some r \<and> sorts lt lo (i - 1) p r"
      if "length p = length perm" for p
      using that q(3,4) Suc.prems by (intro Suc.IH) auto
    have right: "\<exists>r. perm_quicksort fuel lt p (i + 1) hi = Some r \<and> sorts lt (i + 1) hi p r"
      if "length p = length perm" for p
      using that q(3,4) Suc.prems by (intro Suc.IH) auto
    have join: "sorts lt lo hi perm s"
      if "sorts lt lo (i - 1) q r \<and> sorts lt (i + 1) hi r s \<or> sorts lt (i + 1) hi q r \<and> sorts lt lo (i - 1) r s" for r s
    proof -
      have rs: "rearranged lo hi q r" "rearranged lo hi r s"
        using that q(3,4) by (auto simp: sorts_def intro: rearranged_mono)
      have lr: "length r = length perm" "length s = length perm"
        using rearranged_length [OF rs(1)] rearranged_length [OF rs(2)] lq by simp_all
      have "partitioned lt lo i hi r"
        using that q(3-5) Suc.prems lq partitioned_rearranged [of lo i hi q r] by (auto simp: sorts_def)
      then have "partitioned lt lo i hi s"
        using that q(3,4) Suc.prems lr partitioned_rearranged [of lo i hi r s] by (auto simp: sorts_def)
      moreover have "sorted_on lt lo (i - 1) s" "sorted_on lt (i + 1) hi s"
        using that q(3,4) Suc.prems lr unfolding sorts_def rearranged_def sorted_on_def by auto
      ultimately show ?thesis
        using partitioned_sorted q(2) rs by (auto simp: sorts_def intro: rearranged_trans)
    qed
    have skip: "sorts lt lo (i - 1) q q" if "\<not> i > lo + 1" using that by (intro sorts_trivial) simp
    have skip': "sorts lt (i + 1) hi q q" if "\<not> i + 1 < hi" using that by (intro sorts_trivial) simp
    show ?thesis
    proof (cases "i - 1 - lo < hi - (i + 1)")
      case True
      obtain r where r: "(if i > lo + 1 then perm_quicksort fuel lt q lo (i - 1) else Some q) = Some r"
        "sorts lt lo (i - 1) q r" using left [OF lq] skip by (cases "i > lo + 1") auto
      then have "length r = length perm" using rearranged_length lq unfolding sorts_def by metis
      from right [OF this] obtain s where "perm_quicksort fuel lt r (i + 1) hi = Some s" "sorts lt (i + 1) hi r s"
        by blast
      then show ?thesis
        using r join [of r s] True 3 q by (simp add: READ_OP_SORT_INSERTION_CUTOFF_def)
    next
      case False
      obtain r where r: "(if i + 1 < hi then perm_quicksort fuel lt q (i + 1) hi else Some q) = Some r"
        "sorts lt (i + 1) hi q r" using right [OF lq] skip' by (cases "i + 1 < hi") auto
      then have "length r = length perm" using rearranged_length lq unfolding sorts_def by metis
      from left [OF this] obtain s where "perm_quicksort fuel lt r lo (i - 1) = Some s" "sorts lt lo (i - 1) r s"
        by blast
      then show ?thesis
        using r join [of r s] False 3 q by (simp add: READ_OP_SORT_INSERTION_CUTOFF_def)
    qed
  qed
qed simp

end

section \<open>The order of the read operations\<close>

lemma strcmp_zero_iff: "strcmp as bs = 0 \<longleftrightarrow> as = bs"
  by (induction as bs rule: strcmp.induct) auto

lemma strcmp_neg_iff: "strcmp as bs < 0 \<longleftrightarrow> strcmp bs as > 0"
  by (induction as bs rule: strcmp.induct) (auto split: if_splits)

lemma strcmp_self [simp]: "strcmp as as = 0"
  by (simp add: strcmp_zero_iff)

lemma strcmp_asym: "strcmp as bs < 0 \<Longrightarrow> \<not> strcmp bs as < 0"
  using strcmp_neg_iff [of as bs] by simp

lemma strcmp_total: "as \<noteq> bs \<Longrightarrow> strcmp as bs < 0 \<or> strcmp bs as < 0"
  using strcmp_neg_iff [of bs as] strcmp_zero_iff [of as bs] by linarith

lemma strcmp_trans: "strcmp as bs < 0 \<Longrightarrow> strcmp bs cs < 0 \<Longrightarrow> strcmp as cs < 0"
proof (induction as bs arbitrary: cs rule: strcmp.induct)
  case (2 b bs)
  then show ?case by (cases cs) auto
next
  case (4 a as b bs)
  then show ?case by (cases cs) (auto split: if_splits)
qed auto

lemma perm_lt_iff:
  "perm_lt ops a b \<longleftrightarrow>
     (let pa = the (ro_shard_path (ops ! a)); pb = the (ro_shard_path (ops ! b));
          oa = ro_file_offset (ops ! a); ob = ro_file_offset (ops ! b)
      in strcmp pa pb < 0 \<or> pa = pb \<and> (oa < ob \<or> oa = ob \<and> a < b))"
  by (auto simp: perm_lt_def Let_def strcmp_zero_iff)

interpretation read_order: index_order "perm_lt ops" for ops
proof
  fix a b c
  show "perm_lt ops a b \<Longrightarrow> \<not> perm_lt ops b a"
    by (auto simp: perm_lt_iff Let_def dest: strcmp_asym)
  show "perm_lt ops a b \<Longrightarrow> perm_lt ops b c \<Longrightarrow> perm_lt ops a c"
    by (auto simp: perm_lt_iff Let_def intro: strcmp_trans)
  show "a \<noteq> b \<Longrightarrow> perm_lt ops a b \<or> perm_lt ops b a"
    by (auto simp: perm_lt_iff Let_def dest: strcmp_total)
qed

lemma read_op_perm_sort_result:
  assumes "n \<le> length perm"
  obtains q where "read_op_perm_sort ops perm n = Some q" and "length q = length perm"
    and "mset (take n q) = mset (take n perm)" and "drop n q = drop n perm"
    and "sorted_wrt (\<lambda>a b. \<not> perm_lt ops b a) (take n q)"
proof -
  obtain q where q: "read_op_perm_sort ops perm n = Some q" "sorts (perm_lt ops) 0 (n - 1) perm q"
  proof (cases "n > 1")
    case True
    then have "n - 1 - 0 < Suc n" "n - 1 < length perm" using assms by auto
    from read_order.perm_quicksort_sorts [OF this] show thesis using that True
      by (auto simp: read_op_perm_sort_def simp del: perm_quicksort.simps)
  qed (use that sorts_trivial in \<open>auto simp: read_op_perm_sort_def\<close>)
  then have r: "rearranged 0 (n - 1) perm q" by (simp add: sorts_def)
  have len: "length q = length perm" using rearranged_length [OF r] .
  have d: "drop n q = drop n perm"
  proof (cases "n = 0")
    case False
    then show ?thesis using r len by (intro nth_equalityI) (auto simp: rearranged_def)
  qed (use q(1) in \<open>simp add: read_op_perm_sort_def\<close>)
  have "mset (take n q) + mset (drop n q) = mset (take n perm) + mset (drop n perm)"
    using r unfolding rearranged_def by (metis append_take_drop_id mset_append)
  then have "mset (take n q) = mset (take n perm)" using d by simp
  moreover have "sorted_wrt (\<lambda>a b. \<not> perm_lt ops b a) (take n q)"
    using q(2) by (auto simp: sorts_def sorted_on_def sorted_wrt_iff_nth_less)
  ultimately show thesis using that q(1) len d by blast
qed

text \<open>C31. Sorting the first \<open>n\<close> entries of a permutation returns, keeps the entries (as a multiset) and
  everything beyond \<open>n\<close>, and leaves them in ascending order of path, then file offset, then index.\<close>

theorem read_op_perm_sort_sorts:
  assumes "n \<le> length perm"
  shows "\<exists>q. read_op_perm_sort ops perm n = Some q \<and> mset (take n q) = mset (take n perm) \<and>
             drop n q = drop n perm \<and> sorted_wrt (\<lambda>a b. \<not> perm_lt ops b a) (take n q)"
  by (rule read_op_perm_sort_result [OF assms]) blast

definition sort_demo_ops :: "read_op list" where
  "sort_demo_ops = map (\<lambda>k. read_op0 \<lparr>ro_shard_path := Some ''s'', ro_file_offset := (7 * k) mod 20\<rparr>) [0 ..< 20]"

theorem read_op_perm_sort_sorts_witness:
  "20 \<le> length [0 ..< (20::nat)] \<and>
   (\<exists>q. read_op_perm_sort sort_demo_ops [0 ..< 20] 20 = Some q \<and> mset (take 20 q) = mset (take 20 [0 ..< 20]) \<and>
        drop 20 q = drop 20 [0 ..< 20] \<and> sorted_wrt (\<lambda>a b. \<not> perm_lt sort_demo_ops b a) (take 20 q))"
  using read_op_perm_sort_sorts [of 20 "[0 ..< 20]" sort_demo_ops] by simp

end
