(* ===== verification/Coalesce.thy ===== *)
theory Coalesce
  imports Read_Sort
begin

text \<open>
  Read coalescing, src/src/executor/coalesce.c: the windows of a batch are sorted, adjacent windows of a
  shard are fused up to the caps, the fused reads are interleaved across shards, and the fill placeholders
  are appended. An array with a write cursor (\<open>perm\<close>, \<open>tmp\<close>, \<open>starts\<close>) is the list of the entries written
  so far; \<open>pos\<close>, \<open>read_index\<close> and \<open>offset_in_read\<close> are written at arbitrary positions and keep whatever the
  scratch memory held elsewhere.
\<close>

section \<open>The fuse loop\<close>

definition same_path :: "string option \<Rightarrow> string option \<Rightarrow> bool" where
  "same_path a b \<longleftrightarrow> a = b \<or> strcmp (the a) (the b) = 0"

record fuse_state =
  fs_tmp :: "read_op list"
  fs_read_index :: "nat list"
  fs_offset_in_read :: "nat list"
  fs_leader_old :: nat
  fs_leader_end :: nat
  fs_leader_chunks :: nat

definition fusable :: "read_op list \<Rightarrow> nat \<Rightarrow> nat \<Rightarrow> fuse_state \<Rightarrow> nat \<Rightarrow> bool" where
  "fusable reads read_op_max_bytes max_chunks_per_wave s e \<longleftrightarrow>
     (let curr = reads ! e;
          curr_end = u64_add (ro_file_offset curr) (ro_nbytes curr);
          leader = reads ! fs_leader_old s
      in fs_leader_old s \<noteq> UINT32_MAX \<and>
         same_path (ro_shard_path curr) (ro_shard_path leader) \<and>
         ro_file_offset curr \<ge> ro_file_offset leader \<and>
         ro_file_offset curr \<le> fs_leader_end s \<and>
         fs_leader_chunks s < max_chunks_per_wave \<and>
         (let fused_end = (if curr_end > fs_leader_end s then curr_end else fs_leader_end s);
              fused_size = u64_sub fused_end (ro_file_offset leader)
          in fused_size \<le> read_op_max_bytes \<and> fused_size \<le> UINT32_MAX))"

definition fuse_step :: "read_op list \<Rightarrow> nat \<Rightarrow> nat \<Rightarrow> fuse_state \<Rightarrow> nat \<Rightarrow> fuse_state" where
  "fuse_step reads read_op_max_bytes max_chunks_per_wave s e =
     (let curr = reads ! e;
          curr_end = u64_add (ro_file_offset curr) (ro_nbytes curr)
      in if fusable reads read_op_max_bytes max_chunks_per_wave s e
         then let new_idx = fs_read_index s ! fs_leader_old s;
                  fused_end = (if curr_end > fs_leader_end s then curr_end else fs_leader_end s);
                  start = ro_file_offset (fs_tmp s ! new_idx)
              in s \<lparr>fs_tmp := (fs_tmp s)[new_idx := (fs_tmp s ! new_idx) \<lparr>ro_nbytes := u64_sub fused_end start mod 2 ^ 32\<rparr>],
                    fs_read_index := (fs_read_index s)[e := new_idx],
                    fs_offset_in_read := (fs_offset_in_read s)[e := u64_sub (ro_file_offset curr) start mod 2 ^ 32],
                    fs_leader_end := fused_end,
                    fs_leader_chunks := u32_add (fs_leader_chunks s) 1\<rparr>
         else s \<lparr>fs_tmp := fs_tmp s @ [curr],
                 fs_read_index := (fs_read_index s)[e := length (fs_tmp s)],
                 fs_offset_in_read := (fs_offset_in_read s)[e := 0],
                 fs_leader_old := e,
                 fs_leader_end := curr_end,
                 fs_leader_chunks := 1\<rparr>)"

section \<open>Interleaving across shards\<close>

definition run_starts :: "read_op list \<Rightarrow> nat list" where
  "run_starts tmp =
     filter (\<lambda>k. k = 0 \<or> \<not> same_path (ro_shard_path (tmp ! k)) (ro_shard_path (tmp ! (k - 1)))) [0 ..< length tmp]"

definition interleave_slot :: "nat list \<Rightarrow> nat \<Rightarrow> nat \<Rightarrow> nat \<Rightarrow> nat list \<times> nat \<Rightarrow> nat list \<times> nat" where
  "interleave_slot starts n_real rnd ri = (\<lambda>(pos, outk).
     let k = u32_add (starts ! ri) rnd;
         end = (if ri + 1 < length starts then starts ! (ri + 1) else n_real)
     in if k < end then (pos[k := outk], outk + 1) else (pos, outk))"

fun interleave_loop :: "nat \<Rightarrow> nat list \<Rightarrow> nat \<Rightarrow> nat \<Rightarrow> nat list \<times> nat \<Rightarrow> nat list option" where
  "interleave_loop 0 starts n_real rnd st = None"
| "interleave_loop (Suc fuel) starts n_real rnd st =
     (if snd st < n_real
      then interleave_loop fuel starts n_real (rnd + 1)
             (fold (interleave_slot starts n_real rnd) [0 ..< length starts] st)
      else Some (fst st))"

section \<open>Coalescing reads\<close>

text \<open>The placeholder loop, for one \<open>i\<close>: \<open>(tmp, read_index, offset_in_read, pos)\<close>.\<close>

definition append_fill ::
    "read_op list \<Rightarrow> nat \<Rightarrow> read_op list \<times> nat list \<times> nat list \<times> nat list \<Rightarrow>
     read_op list \<times> nat list \<times> nat list \<times> nat list" where
  "append_fill reads i = (\<lambda>(tmp, read_index, offset_in_read, pos).
     if read_index ! i \<noteq> UINT32_MAX then (tmp, read_index, offset_in_read, pos)
     else let write = length tmp
          in (tmp @ [reads ! i], read_index[i := write], offset_in_read[i := 0], pos[write := write]))"

definition is_io :: "read_op \<Rightarrow> bool" where
  "is_io r \<longleftrightarrow> ro_nbytes r \<noteq> 0 \<and> ro_shard_path r \<noteq> None"

text \<open>The work on non-NULL arguments; the result is \<open>(reads, *n_reads, read_index, offset_in_read)\<close>, or
  \<open>None\<close> when a loop does not end.\<close>

definition coalesce_reads_body ::
    "read_op list \<Rightarrow> nat \<Rightarrow> nat \<Rightarrow> nat \<Rightarrow> nat list \<Rightarrow> nat list \<Rightarrow> (read_op list \<times> nat \<times> nat list \<times> nat list) option" where
  "coalesce_reads_body reads n read_op_max_bytes max_chunks_per_wave offset_in_read u32_scratch =
     (let perm = filter (\<lambda>i. is_io (reads ! i)) [0 ..< n]
      in case read_op_perm_sort reads perm (length perm) of
           None \<Rightarrow> None
         | Some perm \<Rightarrow>
             let s = foldl (fuse_step reads read_op_max_bytes max_chunks_per_wave)
                       \<lparr>fs_tmp = [], fs_read_index = replicate n UINT32_MAX, fs_offset_in_read = offset_in_read,
                        fs_leader_old = UINT32_MAX, fs_leader_end = 0, fs_leader_chunks = 0\<rparr> perm;
                 n_real = length (fs_tmp s)
             in case interleave_loop (Suc n_real) (run_starts (fs_tmp s)) n_real 0 (drop n u32_scratch, 0) of
                  None \<Rightarrow> None
                | Some pos \<Rightarrow>
                    let (tmp, read_index, offset_in_read, pos) =
                          fold (append_fill reads) [0 ..< n] (fs_tmp s, fs_read_index s, fs_offset_in_read s, pos);
                        write = length tmp
                    in Some (fold (\<lambda>k rs. rs[pos ! k := tmp ! k]) [0 ..< write] reads, write,
                             map (\<lambda>k. pos ! k) read_index, offset_in_read))"

text \<open>The arrays \<open>read_index\<close> and \<open>read_op_scratch\<close> enter only by whether they are NULL: their contents are
  overwritten before they are read.\<close>

definition coalesce_reads ::
    "read_op list option \<Rightarrow> nat option \<Rightarrow> nat \<Rightarrow> nat \<Rightarrow> bool \<Rightarrow> nat list option \<Rightarrow> nat list option \<Rightarrow> bool \<Rightarrow>
     (damacy_status \<times> (read_op list \<times> nat \<times> nat list \<times> nat list) option) option" where
  "coalesce_reads reads n_reads read_op_max_bytes max_chunks_per_wave has_read_index offset_in_read u32_scratch has_scratch =
     (case (reads, n_reads) of
        (Some reads, Some n) \<Rightarrow>
          if n = 0 then Some (DAMACY_OK, Some (reads, 0, [], []))
          else (case (offset_in_read, u32_scratch) of
                  (Some offs, Some us) \<Rightarrow>
                    if \<not> has_read_index \<or> \<not> has_scratch then Some (DAMACY_INVAL, None)
                    else map_option (\<lambda>r. (DAMACY_OK, Some r))
                           (coalesce_reads_body reads n read_op_max_bytes max_chunks_per_wave offs us)
                | _ \<Rightarrow> Some (DAMACY_INVAL, None))
      | _ \<Rightarrow> Some (DAMACY_INVAL, None))"

section \<open>Rewriting the chunk plans\<close>

text \<open>The chunk loop of \<open>coalesce_chunks\<close>; the first component is true when it ran to the end.\<close>

fun rewrite_chunks :: "nat list \<Rightarrow> nat list \<Rightarrow> chunk_plan list \<Rightarrow> bool \<times> chunk_plan list" where
  "rewrite_chunks read_index offset_in_read [] = (True, [])"
| "rewrite_chunks read_index offset_in_read (cp # cps) =
     (let old = cp_read_op_idx cp;
          cp' = cp \<lparr>cp_read_op_idx := read_index ! old\<rparr>
      in if cp_is_fill cp then map_prod id (Cons cp') (rewrite_chunks read_index offset_in_read cps)
         else let sum = cp_offset_in_read cp + offset_in_read ! old
              in if sum > UINT32_MAX then (False, cp' # cps)
                 else map_prod id (Cons (cp' \<lparr>cp_offset_in_read := sum\<rparr>)) (rewrite_chunks read_index offset_in_read cps))"

definition coalesce_chunks ::
    "dispatch_output \<Rightarrow> nat \<Rightarrow> nat \<Rightarrow> nat list option \<Rightarrow> bool \<Rightarrow> (damacy_status \<times> dispatch_output) option" where
  "coalesce_chunks out read_op_max_bytes max_chunks_per_wave u32_scratch has_scratch =
     (if do_read_ops out = None \<or> do_chunk_plans out = None then Some (DAMACY_INVAL, out)
      else
        let out = out \<lparr>do_n_chunks_to_load := 0, do_n_loads_issued := 0\<rparr>;
            n = do_n_read_ops out
        in if n = 0 then Some (DAMACY_OK, out)
           else if u32_scratch = None \<or> \<not> has_scratch then Some (DAMACY_INVAL, out)
           else
             (case coalesce_reads (do_read_ops out) (Some n) read_op_max_bytes max_chunks_per_wave True
                     (map_option (drop (3 * n)) u32_scratch) u32_scratch has_scratch of
                None \<Rightarrow> None
              | Some (status, None) \<Rightarrow> Some (status, out)
              | Some (status, Some (reads, n_reads, read_index, offset_in_read)) \<Rightarrow>
                  let out = out \<lparr>do_read_ops := Some reads, do_n_read_ops := n_reads\<rparr>
                  in if status \<noteq> DAMACY_OK then Some (status, out)
                     else
                       let cps = the (do_chunk_plans out);
                           n_cp = do_n_chunk_plans out;
                           (ok, done_cps) = rewrite_chunks read_index offset_in_read (take n_cp cps);
                           cps = done_cps @ drop n_cp cps;
                           out = out \<lparr>do_chunk_plans := Some cps\<rparr>
                       in if \<not> ok then Some (DAMACY_INVAL, out)
                          else Some (DAMACY_OK,
                                 out \<lparr>do_n_chunks_to_load := length (filter (\<lambda>cp. \<not> cp_is_fill cp) (take n_cp cps)),
                                      do_n_loads_issued := length (filter is_io (take n_reads reads))\<rparr>)))"

end
