(* ===== verification/Coalesce_Correct.thy ===== *)
theory Coalesce_Correct
  imports Coalesce
begin

text \<open>
  Correctness of the coalescing. The fuse loop keeps an invariant that ties every window to its read; the
  interleaving is a permutation of the fused reads that keeps each shard's order; the two together give the
  contract of \<open>coalesce_reads\<close>.
\<close>

section \<open>Interleaving\<close>

fun assign :: "nat list \<Rightarrow> nat \<Rightarrow> nat list \<Rightarrow> nat list" where
  "assign pos i [] = pos"
| "assign pos i (k # ks) = assign (pos[k := i]) (Suc i) ks"

lemma assign_append: "assign pos i (ks @ ls) = assign (assign pos i ks) (i + length ks) ls"
  by (induction pos i ks rule: assign.induct) auto

lemma length_assign [simp]: "length (assign pos i ks) = length pos"
  by (induction pos i ks rule: assign.induct) auto

lemma assign_other: "k \<notin> set ks \<Longrightarrow> assign pos i ks ! k = pos ! k"
  by (induction pos i ks rule: assign.induct) auto

lemma assign_nth:
  "distinct ks \<Longrightarrow> set ks \<subseteq> {..< length pos} \<Longrightarrow> j < length ks \<Longrightarrow> assign pos i ks ! (ks ! j) = i + j"
proof (induction pos i ks arbitrary: j rule: assign.induct)
  case (2 pos i k ks)
  then show ?case by (cases j) (auto simp: assign_other)
qed simp

text \<open>A division of \<open>0..<N\<close> into consecutive runs, given by their starts.\<close>

definition run_stop :: "nat list \<Rightarrow> nat \<Rightarrow> nat \<Rightarrow> nat" where
  "run_stop starts N ri = (if ri + 1 < length starts then starts ! (ri + 1) else N)"

definition run_division :: "nat list \<Rightarrow> nat \<Rightarrow> bool" where
  "run_division starts N \<longleftrightarrow>
     sorted_wrt (<) starts \<and> set starts \<subseteq> {..< N} \<and> (0 < N \<longrightarrow> starts \<noteq> [] \<and> starts ! 0 = 0)"

definition round_slots :: "nat list \<Rightarrow> nat \<Rightarrow> nat \<Rightarrow> nat list" where
  "round_slots starts N r =
     map (\<lambda>ri. starts ! ri + r) (filter (\<lambda>ri. starts ! ri + r < run_stop starts N ri) [0 ..< length starts])"

definition slots_upto :: "nat list \<Rightarrow> nat \<Rightarrow> nat \<Rightarrow> nat list" where
  "slots_upto starts N r = concat (map (round_slots starts N) [0 ..< r])"

lemma slots_upto_0 [simp]: "slots_upto starts N 0 = []"
  by (simp add: slots_upto_def)

lemma slots_upto_Suc: "slots_upto starts N (Suc r) = slots_upto starts N r @ round_slots starts N r"
  by (simp add: slots_upto_def)

lemma in_slots_upto:
  "k \<in> set (slots_upto starts N r) \<longleftrightarrow>
     (\<exists>ri < length starts. starts ! ri \<le> k \<and> k < starts ! ri + r \<and> k < run_stop starts N ri)"
  (is "?L \<longleftrightarrow> ?R")
proof
  assume ?L then show ?R by (fastforce simp: slots_upto_def round_slots_def)
next
  assume ?R
  then obtain ri where "ri < length starts" "starts ! ri \<le> k" "k < starts ! ri + r" "k < run_stop starts N ri" by blast
  then show ?L
    by (auto simp: slots_upto_def round_slots_def intro!: bexI [of _ "k - starts ! ri"] image_eqI [of _ _ ri])
qed

lemma run_stop_le:
  assumes "run_division starts N" and "ri < rj" and "rj < length starts"
  shows "run_stop starts N ri \<le> starts ! rj"
proof (cases "ri + 1 = rj")
  case False
  then show ?thesis using assms sorted_wrt_nth_less [of "(<)" starts "ri + 1" rj]
    by (auto simp: run_stop_def run_division_def)
qed (use assms in \<open>simp add: run_stop_def\<close>)

lemma run_stop_bound: "run_division starts N \<Longrightarrow> ri < length starts \<Longrightarrow> run_stop starts N ri \<le> N"
  by (auto simp: run_stop_def run_division_def subset_iff less_imp_le)

lemma run_unique:
  assumes d: "run_division starts N" and i: "ri < length starts" "starts ! ri \<le> k" "k < run_stop starts N ri"
    and j: "rj < length starts" "starts ! rj \<le> k" "k < run_stop starts N rj"
  shows "ri = rj"
  using run_stop_le [OF d, of ri rj] run_stop_le [OF d, of rj ri] i j by (cases ri rj rule: linorder_cases) auto

lemma run_exists:
  assumes d: "run_division starts N" and k: "k < N"
  shows "\<exists>ri < length starts. starts ! ri \<le> k \<and> k < run_stop starts N ri"
proof -
  let ?P = "\<lambda>ri. ri < length starts \<and> starts ! ri \<le> k"
  have P0: "?P 0" using d k by (auto simp: run_division_def)
  define ri where "ri = (GREATEST ri. ?P ri)"
  have P: "?P ri" unfolding ri_def by (rule GreatestI_nat [where P = ?P and b = "length starts"]) (use P0 in auto)
  have "k < run_stop starts N ri"
  proof (rule ccontr)
    assume c: "\<not> k < run_stop starts N ri"
    then have "?P (ri + 1)" using k by (auto simp: run_stop_def split: if_splits)
    then have "ri + 1 \<le> ri" unfolding ri_def by (rule Greatest_le_nat [where b = "length starts"]) auto
    then show False by simp
  qed
  then show ?thesis using P by blast
qed

lemma distinct_round_slots: "run_division starts N \<Longrightarrow> distinct (round_slots starts N r)"
  unfolding round_slots_def distinct_map run_division_def
  by (auto simp: inj_on_def sorted_wrt_iff_nth_less) (metis less_irrefl_nat linorder_neqE_nat)

lemma distinct_slots_upto: "run_division starts N \<Longrightarrow> distinct (slots_upto starts N r)"
proof (induction r)
  case (Suc r)
  have "k \<notin> set (slots_upto starts N r)" if k: "k \<in> set (round_slots starts N r)" for k
  proof
    assume "k \<in> set (slots_upto starts N r)"
    then obtain rj where j: "rj < length starts" "starts ! rj \<le> k" "k < starts ! rj + r" "k < run_stop starts N rj"
      unfolding in_slots_upto by blast
    from k obtain ri where i: "ri < length starts" "k = starts ! ri + r" "k < run_stop starts N ri"
      by (auto simp: round_slots_def)
    have "ri = rj" using run_unique [OF Suc.prems, of ri k rj] i j by simp
    then show False using i j by simp
  qed
  then show ?case using Suc distinct_round_slots [OF Suc.prems] by (auto simp: slots_upto_Suc)
qed simp

lemma set_slots_upto: "run_division starts N \<Longrightarrow> set (slots_upto starts N r) \<subseteq> {..< N}"
  using run_stop_bound [of starts N] by (fastforce simp: in_slots_upto)

lemma set_slots_all: "run_division starts N \<Longrightarrow> set (slots_upto starts N N) = {..< N}"
  using set_slots_upto [of starts N N] run_exists [of starts N] by (force simp: in_slots_upto)

lemma interleave_round_assigns:
  assumes "\<And>ri. ri \<in> set ris \<Longrightarrow> starts ! ri + r < 2 ^ 32"
  shows "fold (interleave_slot starts N r) ris (pos, i) =
     (let ks = map (\<lambda>ri. starts ! ri + r) (filter (\<lambda>ri. starts ! ri + r < run_stop starts N ri) ris)
      in (assign pos i ks, i + length ks))"
  using assms
proof (induction ris arbitrary: pos i)
  case (Cons ri ris)
  have "u32_add (starts ! ri) r = starts ! ri + r" using Cons.prems [of ri] by (simp add: u32_add_exact)
  then show ?case using Cons by (simp add: interleave_slot_def run_stop_def Let_def)
qed simp

lemma interleave_loop_result:
  assumes d: "run_division starts N" and N: "N < 2 ^ 31"
    and "r \<le> N" and "N - r < fuel"
  shows "\<exists>R \<le> N. N \<le> length (slots_upto starts N R) \<and>
           interleave_loop fuel starts N r (assign pos 0 (slots_upto starts N r), length (slots_upto starts N r)) =
             Some (assign pos 0 (slots_upto starts N R))"
  using assms(3-)
proof (induction fuel arbitrary: r)
  case (Suc fuel)
  let ?A = "slots_upto starts N"
  show ?case
  proof (cases "length (?A r) < N")
    case True
    have "length (?A N) = N" using set_slots_all [OF d] distinct_slots_upto [OF d, of N] distinct_card by fastforce
    then have rN: "r < N" using True Suc.prems by (cases "r = N") auto
    have b: "starts ! ri + r < 2 ^ 32" if "ri \<in> set [0 ..< length starts]" for ri
    proof -
      have "starts ! ri \<in> set starts" using that by simp
      then have "starts ! ri < N" using d by (auto simp: run_division_def)
      then show ?thesis using N rN by simp
    qed
    have "fold (interleave_slot starts N r) [0 ..< length starts] (assign pos 0 (?A r), length (?A r)) =
       (assign pos 0 (?A (Suc r)), length (?A (Suc r)))"
      using interleave_round_assigns [of "[0 ..< length starts]" starts r N "assign pos 0 (?A r)" "length (?A r)", OF b]
      by (simp add: slots_upto_Suc assign_append Let_def round_slots_def)
    then show ?thesis using True Suc.IH [of "Suc r"] Suc.prems rN by simp
  next
    case False
    then show ?thesis using Suc.prems by (auto intro!: exI [of _ r])
  qed
qed simp

lemma assign_order:
  assumes d: "run_division starts N" and len: "N \<le> length pos"
    and full: "N \<le> length (slots_upto starts N R)"
    and k: "ri < length starts" "starts ! ri \<le> k" "k < k'" "k' < run_stop starts N ri"
  defines "q \<equiv> assign pos 0 (slots_upto starts N R)"
  shows "q ! k < q ! k'"
proof -
  let ?A = "slots_upto starts N"
  define b where "b = k' - starts ! ri"
  have all: "set (?A R) = {..< N}"
    using distinct_card [OF distinct_slots_upto [OF d, of R]] set_slots_upto [OF d, of R] full
    by (intro card_seteq) auto
  have k'N: "k' < N" using k run_stop_bound [OF d, of ri] by simp
  then have "k' \<in> set (?A R)" using all by simp
  then obtain rj where "rj < length starts" "starts ! rj \<le> k'" "k' < starts ! rj + R" "k' < run_stop starts N rj"
    unfolding in_slots_upto by blast
  then have bR: "b < R" using run_unique [OF d, of ri k' rj] k by (simp add: b_def)
  then obtain rest where split: "?A R = ?A b @ rest"
    unfolding slots_upto_def by (metis concat_append le_add_diff_inverse less_imp_le map_append upt_add_eq_append zero_le)
  have kb: "k \<in> set (?A b)" using k unfolding in_slots_upto b_def by (intro exI [of _ ri]) auto
  have "k' \<notin> set (?A b)"
  proof
    assume "k' \<in> set (?A b)"
    then obtain rj where "rj < length starts" "starts ! rj \<le> k'" "k' < starts ! rj + b" "k' < run_stop starts N rj"
      unfolding in_slots_upto by blast
    then show False using run_unique [OF d, of ri k' rj] k by (simp add: b_def)
  qed
  then have k'r: "k' \<in> set rest" using \<open>k' \<in> set (?A R)\<close> split by simp
  from kb obtain i where i: "i < length (?A b)" "?A b ! i = k" by (auto simp: in_set_conv_nth)
  from k'r obtain j where j: "j < length rest" "rest ! j = k'" by (auto simp: in_set_conv_nth)
  have nth: "q ! (?A R ! m) = m" if "m < length (?A R)" for m
    using assign_nth [OF distinct_slots_upto [OF d, of R], of pos m 0] that set_slots_upto [OF d, of R] len
    by (force simp: q_def)
  have "q ! k = i" using nth [of i] i split by (simp add: nth_append)
  moreover have "q ! k' = length (?A b) + j" using nth [of "length (?A b) + j"] j split by (simp add: nth_append)
  ultimately show ?thesis using i by simp
qed

lemma interleave_permutes:
  assumes d: "run_division starts N" and N: "N < 2 ^ 31" and len: "N \<le> length pos"
  obtains q where "interleave_loop (Suc N) starts N 0 (pos, 0) = Some q" and "length q = length pos"
    and "bij_betw (\<lambda>k. q ! k) {..< N} {..< N}"
    and "\<And>ri k k'. ri < length starts \<Longrightarrow> starts ! ri \<le> k \<Longrightarrow> k < k' \<Longrightarrow> k' < run_stop starts N ri \<Longrightarrow> q ! k < q ! k'"
proof -
  let ?A = "slots_upto starts N"
  from interleave_loop_result [OF d N, of 0 "Suc N" pos] obtain R where
    R: "N \<le> length (?A R)" "interleave_loop (Suc N) starts N 0 (pos, 0) = Some (assign pos 0 (?A R))" by auto
  define q where "q = assign pos 0 (?A R)"
  have dist: "distinct (?A R)" by (rule distinct_slots_upto [OF d])
  have all: "set (?A R) = {..< N}"
    using distinct_card [OF dist] set_slots_upto [OF d, of R] R(1) by (intro card_seteq) auto
  then have lenA: "length (?A R) = N" using distinct_card [OF dist] by simp
  have nth: "q ! (?A R ! m) = m" if "m < N" for m
    using assign_nth [OF dist, of pos m 0] that all len lenA by (force simp: q_def)
  have "bij_betw (\<lambda>k. q ! k) {..< N} {..< N}"
  proof (rule bij_betw_byWitness [where f' = "\<lambda>m. ?A R ! m"])
    show "\<forall>k \<in> {..< N}. ?A R ! (q ! k) = k" using nth all lenA by (metis in_set_conv_nth)
    show "\<forall>m \<in> {..< N}. q ! (?A R ! m) = m" using nth by simp
    show "(\<lambda>k. q ! k) ` {..< N} \<subseteq> {..< N}"
    proof
      fix y assume "y \<in> (\<lambda>k. q ! k) ` {..< N}"
      then obtain k where "k \<in> set (?A R)" "y = q ! k" using all by blast
      then show "y \<in> {..< N}" using nth lenA by (auto simp: in_set_conv_nth)
    qed
    show "(\<lambda>m. ?A R ! m) ` {..< N} \<subseteq> {..< N}" using all lenA by (metis image_subsetI lessThan_iff nth_mem)
  qed
  then show thesis using that [of q] R assign_order [OF d len R(1)] by (simp add: q_def)
qed

section \<open>Runs of equal paths\<close>

lemma same_path_iff: "a \<noteq> None \<Longrightarrow> b \<noteq> None \<Longrightarrow> same_path a b \<longleftrightarrow> a = b"
  by (auto simp: same_path_def strcmp_zero_iff)

lemma run_starts_division: "run_division (run_starts tmp) (length tmp)"
proof -
  have "run_starts tmp \<noteq> [] \<and> run_starts tmp ! 0 = 0" if "0 < length tmp"
    using that unfolding run_starts_def by (simp add: upt_conv_Cons)
  moreover have "sorted_wrt (<) (run_starts tmp)" unfolding run_starts_def by (intro sorted_wrt_filter) simp
  ultimately show ?thesis by (auto simp: run_division_def run_starts_def)
qed

lemma same_run:
  assumes k: "k < k'" "k' < length tmp"
    and same: "\<And>m. k < m \<Longrightarrow> m \<le> k' \<Longrightarrow> same_path (ro_shard_path (tmp ! m)) (ro_shard_path (tmp ! (m - 1)))"
  obtains ri where "ri < length (run_starts tmp)" and "run_starts tmp ! ri \<le> k"
    and "k' < run_stop (run_starts tmp) (length tmp) ri"
proof -
  let ?s = "run_starts tmp"
  have "k < length tmp" using k by simp
  with run_exists [OF run_starts_division] obtain ri where
    ri: "ri < length ?s" "?s ! ri \<le> k" "k < run_stop ?s (length tmp) ri" by blast
  have "k' < run_stop ?s (length tmp) ri"
  proof (rule ccontr)
    assume c: "\<not> k' < run_stop ?s (length tmp) ri"
    then have "ri + 1 < length ?s" "run_stop ?s (length tmp) ri = ?s ! (ri + 1)"
      using k by (auto simp: run_stop_def split: if_splits)
    moreover from this(1) have "?s ! (ri + 1) \<in> set ?s" by simp
    ultimately have "?s ! (ri + 1) = 0 \<or>
        \<not> same_path (ro_shard_path (tmp ! (?s ! (ri + 1)))) (ro_shard_path (tmp ! (?s ! (ri + 1) - 1)))"
      by (simp add: run_starts_def)
    then show False using same [of "?s ! (ri + 1)"] c ri \<open>run_stop ?s (length tmp) ri = ?s ! (ri + 1)\<close> by auto
  qed
  then show thesis using that ri by blast
qed

section \<open>The fuse loop\<close>

definition window :: "read_op \<Rightarrow> nat set" where
  "window r = {ro_file_offset r ..< ro_file_offset r + ro_nbytes r}"

definition op_ok :: "read_op \<Rightarrow> bool" where
  "op_ok r \<longleftrightarrow> ro_nbytes r < 2 ^ 32 \<and> ro_file_offset r + ro_nbytes r < 2 ^ 64"

text \<open>The window of \<open>r\<close> is the part of the read \<open>m\<close> that starts at byte \<open>off\<close>.\<close>

definition located :: "read_op \<Rightarrow> read_op \<Rightarrow> nat \<Rightarrow> bool" where
  "located m r off \<longleftrightarrow> ro_shard_path m = ro_shard_path r \<and> ro_file_offset r = ro_file_offset m + off \<and>
     off + ro_nbytes r \<le> ro_nbytes m"

text \<open>What a merged read \<open>m\<close> of the windows of \<open>M\<close> may be.\<close>

definition merged :: "read_op list \<Rightarrow> nat \<Rightarrow> nat \<Rightarrow> nat set \<Rightarrow> read_op \<Rightarrow> bool" where
  "merged reads max_bytes max_chunks M m \<longleftrightarrow>
     (\<exists>e. M = {e} \<and> m = reads ! e) \<or>
     (card M \<le> max_chunks \<and> ro_nbytes m \<le> max_bytes \<and> (\<forall>e \<in> M. is_io (reads ! e)) \<and>
      window m = (\<Union>e \<in> M. window (reads ! e)))"

abbreviation members :: "nat list \<Rightarrow> nat list \<Rightarrow> nat \<Rightarrow> nat set" where
  "members D ri k \<equiv> {e \<in> set D. ri ! e = k}"

definition fuse_ok ::
    "read_op list \<Rightarrow> nat \<Rightarrow> nat \<Rightarrow> nat \<Rightarrow> nat list \<Rightarrow> read_op list \<Rightarrow> nat list \<Rightarrow> nat list \<Rightarrow> nat \<Rightarrow> nat \<Rightarrow> nat \<Rightarrow> bool" where
  "fuse_ok reads n max_bytes max_chunks D tmp ri off leader_old leader_end leader_chunks \<longleftrightarrow>
     length ri = n \<and> n \<le> length off \<and> set D \<subseteq> {..< n} \<and> distinct D \<and>
     (\<forall>e \<in> set D. ri ! e < length tmp) \<and>
     (\<forall>e < n. e \<notin> set D \<longrightarrow> ri ! e = UINT32_MAX) \<and>
     (\<forall>e \<in> set D. located (tmp ! (ri ! e)) (reads ! e) (off ! e)) \<and>
     (\<forall>k < length tmp. members D ri k \<noteq> {} \<and> merged reads max_bytes max_chunks (members D ri k) (tmp ! k) \<and>
        op_ok (tmp ! k) \<and> is_io (tmp ! k)) \<and>
     (if D = [] then tmp = [] \<and> leader_old = UINT32_MAX
      else tmp \<noteq> [] \<and> leader_old \<in> set D \<and> ri ! leader_old = length tmp - 1 \<and>
        ro_file_offset (last tmp) = ro_file_offset (reads ! leader_old) \<and>
        leader_end = ro_file_offset (last tmp) + ro_nbytes (last tmp) \<and>
        leader_chunks = card (members D ri (length tmp - 1)))"

definition fuse_inv :: "read_op list \<Rightarrow> nat \<Rightarrow> nat \<Rightarrow> nat \<Rightarrow> nat list \<Rightarrow> fuse_state \<Rightarrow> bool" where
  "fuse_inv reads n max_bytes max_chunks D s \<longleftrightarrow>
     fuse_ok reads n max_bytes max_chunks D (fs_tmp s) (fs_read_index s) (fs_offset_in_read s)
       (fs_leader_old s) (fs_leader_end s) (fs_leader_chunks s)"

lemma fuse_okI:
  assumes "length ri = n" and "n \<le> length off" and "set D \<subseteq> {..< n}" and "distinct D" and "D \<noteq> []"
    and "\<And>e. e \<in> set D \<Longrightarrow> ri ! e < length tmp"
    and "\<And>e. e < n \<Longrightarrow> e \<notin> set D \<Longrightarrow> ri ! e = UINT32_MAX"
    and "\<And>e. e \<in> set D \<Longrightarrow> located (tmp ! (ri ! e)) (reads ! e) (off ! e)"
    and "\<And>k. k < length tmp \<Longrightarrow> members D ri k \<noteq> {} \<and> merged reads mb mc (members D ri k) (tmp ! k) \<and>
           op_ok (tmp ! k) \<and> is_io (tmp ! k)"
    and "tmp \<noteq> []" and "leader_old \<in> set D" and "ri ! leader_old = length tmp - 1"
    and "ro_file_offset (last tmp) = ro_file_offset (reads ! leader_old)"
    and "leader_end = ro_file_offset (last tmp) + ro_nbytes (last tmp)"
    and "leader_chunks = card (members D ri (length tmp - 1))"
  shows "fuse_ok reads n mb mc D tmp ri off leader_old leader_end leader_chunks"
  unfolding fuse_ok_def by (simp only: assms if_False simp_thms) (use assms in blast)

lemma fuse_okD:
  assumes "fuse_ok reads n mb mc D tmp ri off leader_old leader_end leader_chunks"
  shows "length ri = n" and "n \<le> length off" and "set D \<subseteq> {..< n}" and "distinct D"
    and "\<And>e. e \<in> set D \<Longrightarrow> ri ! e < length tmp"
    and "\<And>e. e < n \<Longrightarrow> e \<notin> set D \<Longrightarrow> ri ! e = UINT32_MAX"
    and "\<And>e. e \<in> set D \<Longrightarrow> located (tmp ! (ri ! e)) (reads ! e) (off ! e)"
    and "\<And>k. k < length tmp \<Longrightarrow> members D ri k \<noteq> {} \<and> merged reads mb mc (members D ri k) (tmp ! k) \<and>
           op_ok (tmp ! k) \<and> is_io (tmp ! k)"
  using assms unfolding fuse_ok_def by blast+

lemma fuse_inv_new:
  assumes inv: "fuse_inv reads n mb mc D s" and e: "e < n" "e \<notin> set D" and ok: "op_ok (reads ! e)" "is_io (reads ! e)"
    and f: "\<not> fusable reads mb mc s e"
  shows "fuse_inv reads n mb mc (D @ [e]) (fuse_step reads mb mc s e)"
proof -
  let ?ri = "fs_read_index s" and ?t = "fs_tmp s"
  let ?ri' = "?ri[e := length ?t]" and ?off' = "(fs_offset_in_read s)[e := 0]" and ?t' = "?t @ [reads ! e]"
  note F = fuse_okD [OF inv [unfolded fuse_inv_def]]
  have st: "fuse_step reads mb mc s e =
      s \<lparr>fs_tmp := ?t', fs_read_index := ?ri', fs_offset_in_read := ?off', fs_leader_old := e,
         fs_leader_end := ro_file_offset (reads ! e) + ro_nbytes (reads ! e), fs_leader_chunks := 1\<rparr>"
    using f ok by (simp add: fuse_step_def Let_def u64_add_exact op_ok_def)
  have ne: "d \<noteq> e" if "d \<in> set D" for d using that e by auto
  have M: "members (D @ [e]) ?ri' k = (if k = length ?t then {e} else members D ?ri k)" for k
    using e F(1) by (auto simp: nth_list_update dest: F(5))
  have "fuse_ok reads n mb mc (D @ [e]) ?t' ?ri' ?off' e (ro_file_offset (reads ! e) + ro_nbytes (reads ! e)) 1"
  proof (rule fuse_okI)
    fix d assume d: "d \<in> set (D @ [e])"
    show "?ri' ! d < length ?t'" using d F(1) F(5) [of d] e by (cases "d = e") auto
    show "located (?t' ! (?ri' ! d)) (reads ! d) (?off' ! d)"
      using d F(1,2) F(5) [of d] F(7) [of d] e by (cases "d = e") (auto simp: nth_append located_def)
  next
    fix k assume k: "k < length ?t'"
    show "members (D @ [e]) ?ri' k \<noteq> {} \<and> merged reads mb mc (members (D @ [e]) ?ri' k) (?t' ! k) \<and>
           op_ok (?t' ! k) \<and> is_io (?t' ! k)"
      unfolding M using k ok F(8) [of k] by (cases "k = length ?t") (auto simp: nth_append merged_def)
  next
    show "1 = card (members (D @ [e]) ?ri' (length ?t' - 1))" unfolding M by simp
  qed (use F(1-4,6) e in \<open>auto simp: nth_list_update\<close>)
  then show ?thesis by (simp add: fuse_inv_def st)
qed

lemma merged_exact:
  assumes m: "merged reads mb mc M m" and io: "\<And>e. e \<in> M \<Longrightarrow> is_io (reads ! e)"
  shows "window m = (\<Union>e \<in> M. window (reads ! e))"
  using m by (auto simp: merged_def)

lemma fuse_inv_join:
  assumes inv: "fuse_inv reads n mb mc D s" and e: "e < n" "e \<notin> set D" and ok: "op_ok (reads ! e)" "is_io (reads ! e)"
    and io: "\<And>d. d \<in> set D \<Longrightarrow> is_io (reads ! d)" and n: "n < 2 ^ 32"
    and f: "fusable reads mb mc s e"
  shows "fuse_inv reads n mb mc (D @ [e]) (fuse_step reads mb mc s e)"
proof -
  let ?ri = "fs_read_index s" and ?t = "fs_tmp s" and ?r = "reads ! e" and ?lo = "fs_leader_old s"
  define K where "K = length ?t - 1"
  define m where "m = last ?t"
  let ?fin = "ro_file_offset ?r + ro_nbytes ?r"
  define fe where "fe = max ?fin (fs_leader_end s)"
  define m' where "m' = m \<lparr>ro_nbytes := fe - ro_file_offset m\<rparr>"
  define o' where "o' = ro_file_offset ?r - ro_file_offset m"
  let ?ri' = "?ri[e := K]" and ?off' = "(fs_offset_in_read s)[e := o']" and ?t' = "?t[K := m']"
  note F = fuse_okD [OF inv [unfolded fuse_inv_def]]
  have "D \<noteq> []" using inv f by (auto simp: fuse_inv_def fuse_ok_def fusable_def Let_def)
  then have L: "?t \<noteq> []" "?lo \<in> set D" "?ri ! ?lo = K" "ro_file_offset m = ro_file_offset (reads ! ?lo)"
    "fs_leader_end s = ro_file_offset m + ro_nbytes m" "fs_leader_chunks s = card (members D ?ri K)"
    using inv by (simp_all add: fuse_inv_def fuse_ok_def K_def m_def)
  have K: "K < length ?t" "?t ! K = m" using L(1) by (simp_all add: K_def m_def last_conv_nth)
  have mo: "op_ok m" "is_io m" "merged reads mb mc (members D ?ri K) m" using F(8) [OF K(1)] by (simp_all add: K(2))
  have path: "ro_shard_path m = ro_shard_path (reads ! ?lo)" using F(7) [OF L(2)] by (simp add: located_def L(3) K(2))
  have ce: "u64_add (ro_file_offset ?r) (ro_nbytes ?r) = ?fin" using ok by (simp add: op_ok_def u64_add_exact)
  have feb: "ro_file_offset m \<le> fe" "fe < 2 ^ 64" using L(5) ok mo by (auto simp: fe_def op_ok_def)
  have fe: "(if ?fin > fs_leader_end s then ?fin else fs_leader_end s) = fe" by (simp add: fe_def)
  have g: "ro_shard_path ?r = ro_shard_path m" "ro_file_offset m \<le> ro_file_offset ?r"
      "ro_file_offset ?r \<le> ro_file_offset m + ro_nbytes m" "card (members D ?ri K) < mc"
      "fe - ro_file_offset m \<le> mb" "fe - ro_file_offset m \<le> UINT32_MAX"
    using f [unfolded fusable_def Let_def ce fe] ok(2) mo(2) feb path
    by (auto simp: L(4-6) [symmetric] u64_sub_exact is_io_def same_path_iff)
  have "members D ?ri K \<subseteq> {..< n} - {e}" using F(3) e by auto
  then have cardD: "card (members D ?ri K) < n"
    using card_mono [of "{..< n} - {e}" "members D ?ri K"] e by auto
  have ob: "o' < 2 ^ 32" "u64_sub (ro_file_offset ?r) (ro_file_offset m) = o'"
    using g mo(1) ok(1) by (auto simp: o'_def op_ok_def u64_sub_exact)
  have st: "fuse_step reads mb mc s e = s \<lparr>fs_tmp := ?t', fs_read_index := ?ri', fs_offset_in_read := ?off',
      fs_leader_end := fe, fs_leader_chunks := Suc (card (members D ?ri K))\<rparr>"
    unfolding fuse_step_def Let_def ce fe using f g ob feb n cardD by (simp add: L(3) L(6) K(2) m'_def u64_sub_exact u32_add_exact)
  have M: "members (D @ [e]) ?ri' k = (if k = K then insert e (members D ?ri K) else members D ?ri k)" for k
    using e F(1) by (auto simp: nth_list_update)
  have w: "window m' = window ?r \<union> window m"
    using g(2,3) L(5) by (auto simp: window_def m'_def fe_def)
  have m'ok: "op_ok m'" "is_io m'" "ro_nbytes m \<le> ro_nbytes m'" "ro_shard_path m' = ro_shard_path m"
      "ro_file_offset m' = ro_file_offset m" "ro_file_offset m + ro_nbytes m' = fe"
    using g mo feb L(5) by (auto simp: m'_def op_ok_def is_io_def fe_def)
  have mer: "merged reads mb mc (insert e (members D ?ri K)) m'"
    unfolding merged_def
  proof (intro disjI2 conjI)
    show "card (insert e (members D ?ri K)) \<le> mc" using g(4) e by simp
    show "ro_nbytes m' \<le> mb" using g(5) by (simp add: m'_def)
    show "\<forall>d \<in> insert e (members D ?ri K). is_io (reads ! d)" using ok io by auto
    show "window m' = (\<Union>d \<in> insert e (members D ?ri K). window (reads ! d))"
      using w merged_exact [OF mo(3)] io by auto
  qed
  have "fuse_ok reads n mb mc (D @ [e]) ?t' ?ri' ?off' ?lo fe (Suc (card (members D ?ri K)))"
  proof (rule fuse_okI)
    fix d assume d: "d \<in> set (D @ [e])"
    show "?ri' ! d < length ?t'" using d F(1) F(5) [of d] e K by (cases "d = e") auto
    show "located (?t' ! (?ri' ! d)) (reads ! d) (?off' ! d)"
    proof (cases "d = e")
      case True
      then show ?thesis using e F(1,2) K g m'ok L(5) by (auto simp: located_def o'_def fe_def)
    next
      case False
      then show ?thesis using d F(7) [of d] m'ok K by (cases "?ri ! d = K") (auto simp: located_def)
    qed
  next
    fix k assume k: "k < length ?t'"
    show "members (D @ [e]) ?ri' k \<noteq> {} \<and> merged reads mb mc (members (D @ [e]) ?ri' k) (?t' ! k) \<and>
           op_ok (?t' ! k) \<and> is_io (?t' ! k)"
      unfolding M using k mer m'ok F(8) [of k] by (cases "k = K") auto
  next
    show "Suc (card (members D ?ri K)) = card (members (D @ [e]) ?ri' (length ?t' - 1))"
      unfolding M using e by (simp add: K_def)
    have "last ?t' = m'" using L(1) K by (simp add: last_list_update K_def)
    then show "ro_file_offset (last ?t') = ro_file_offset (reads ! ?lo)" "fe = ro_file_offset (last ?t') + ro_nbytes (last ?t')"
      using m'ok L(4) by simp_all
    show "?ri' ! ?lo = length ?t' - 1" using L(2,3) e by (cases "?lo = e") (auto simp: K_def)
  qed (use F(1-4,6) e L in \<open>auto simp: nth_list_update\<close>)
  then show ?thesis by (simp add: fuse_inv_def st)
qed

lemma fuse_loop_inv:
  assumes "fuse_inv reads n mb mc D s" and "distinct (D @ xs)" and "set (D @ xs) \<subseteq> {..< n}" and "n < 2 ^ 32"
    and "\<And>d. d \<in> set (D @ xs) \<Longrightarrow> op_ok (reads ! d) \<and> is_io (reads ! d)"
  shows "fuse_inv reads n mb mc (D @ xs) (foldl (fuse_step reads mb mc) s xs)"
  using assms
proof (induction xs arbitrary: D s)
  case (Cons e xs)
  have e: "e < n" "e \<notin> set D" "op_ok (reads ! e)" "is_io (reads ! e)" "\<And>d. d \<in> set D \<Longrightarrow> is_io (reads ! d)"
    using Cons.prems by auto
  have "fuse_inv reads n mb mc (D @ [e]) (fuse_step reads mb mc s e)"
    using fuse_inv_join [OF Cons.prems(1) e(1-5) Cons.prems(4)] fuse_inv_new [OF Cons.prems(1) e(1-4)] by blast
  from Cons.IH [OF this] Cons.prems show ?case by simp
qed simp

text \<open>The fused reads keep the order of the sorted windows.\<close>

definition op_key :: "read_op \<Rightarrow> string \<times> nat" where
  "op_key r = (the (ro_shard_path r), ro_file_offset r)"

definition key_le :: "string \<times> nat \<Rightarrow> string \<times> nat \<Rightarrow> bool" where
  "key_le a b \<longleftrightarrow> strcmp (fst a) (fst b) < 0 \<or> fst a = fst b \<and> snd a \<le> snd b"

lemma not_perm_lt_key_le: "\<not> perm_lt ops b a \<Longrightarrow> key_le (op_key (ops ! a)) (op_key (ops ! b))"
  unfolding perm_lt_iff key_le_def op_key_def Let_def using strcmp_total by fastforce

lemma fuse_step_keys:
  "map op_key (fs_tmp (fuse_step reads mb mc s e)) =
     map op_key (fs_tmp s) @ (if fusable reads mb mc s e then [] else [op_key (reads ! e)])"
proof -
  have "op_key (r \<lparr>ro_nbytes := v\<rparr>) = op_key r" for r v by (simp add: op_key_def)
  then show ?thesis
    by (auto simp: fuse_step_def Let_def map_update intro: list_update_same_conv [THEN iffD2])
       (metis list_update_beyond list_update_id linorder_not_le nth_map length_map)
qed

lemma fuse_loop_sorted:
  assumes "sorted_wrt key_le (map op_key (fs_tmp s) @ map (\<lambda>e. op_key (reads ! e)) xs)"
  shows "sorted_wrt key_le (map op_key (fs_tmp (foldl (fuse_step reads mb mc) s xs)))"
  using assms
proof (induction xs arbitrary: s)
  case (Cons e xs)
  have "sorted_wrt key_le (map op_key (fs_tmp (fuse_step reads mb mc s e)) @ map (\<lambda>e. op_key (reads ! e)) xs)"
    using Cons.prems by (auto simp: fuse_step_keys sorted_wrt_append)
  then show ?case using Cons.IH by simp
qed simp

lemma sorted_paths_contiguous:
  assumes sorted: "sorted_wrt key_le (map op_key tmp)" and io: "\<And>k. k < length tmp \<Longrightarrow> is_io (tmp ! k)"
    and k: "k < k'" "k' < length tmp" and path: "ro_shard_path (tmp ! k) = ro_shard_path (tmp ! k')"
    and m: "k \<le> m" "m \<le> k'"
  shows "ro_shard_path (tmp ! m) = ro_shard_path (tmp ! k)"
proof -
  have le: "key_le (op_key (tmp ! a)) (op_key (tmp ! b))" if "a < b" "b < length tmp" for a b
    using sorted that by (auto simp: sorted_wrt_iff_nth_less)
  have "the (ro_shard_path (tmp ! m)) = the (ro_shard_path (tmp ! k))"
  proof (cases "m = k \<or> m = k'")
    case False
    then show ?thesis using le [of k m] le [of m k'] k m path
      by (auto simp: key_le_def op_key_def dest: strcmp_asym)
  qed (use path in auto)
  then show ?thesis using io [of m] io [of k] k m by (auto simp: is_io_def)
qed

section \<open>Placeholders and the final scatter\<close>

lemma append_fill_loop:
  assumes len: "length ri = n" "n \<le> length off" and D: "\<And>e. e < n \<Longrightarrow> (ri ! e = UINT32_MAX) \<longleftrightarrow> e \<notin> D"
    and room: "length tmp + length (filter (\<lambda>j. j \<notin> D) [0 ..< i]) \<le> length pos" and i: "i \<le> n"
  shows "\<exists>ri' off' pos'. fold (append_fill reads) [0 ..< i] (tmp, ri, off, pos) =
           (tmp @ map (\<lambda>j. reads ! j) (filter (\<lambda>j. j \<notin> D) [0 ..< i]), ri', off', pos') \<and>
         length ri' = n \<and> length off' = length off \<and> length pos' = length pos \<and>
         (\<forall>m < length (filter (\<lambda>j. j \<notin> D) [0 ..< i]).
            ri' ! (filter (\<lambda>j. j \<notin> D) [0 ..< i] ! m) = length tmp + m \<and>
            off' ! (filter (\<lambda>j. j \<notin> D) [0 ..< i] ! m) = 0 \<and> pos' ! (length tmp + m) = length tmp + m) \<and>
         (\<forall>j. j \<in> D \<or> i \<le> j \<longrightarrow> ri' ! j = ri ! j \<and> off' ! j = off ! j) \<and>
         (\<forall>k < length tmp. pos' ! k = pos ! k)"
  using room i
proof (induction i)
  case (Suc i)
  let ?fs = "filter (\<lambda>j. j \<notin> D) [0 ..< i]"
  have r: "length tmp + length ?fs \<le> length pos" "i \<le> n" using Suc.prems by auto
  from Suc.IH [OF r] obtain ri' off' pos' where IH: "fold (append_fill reads) [0 ..< i] (tmp, ri, off, pos) =
           (tmp @ map (\<lambda>j. reads ! j) ?fs, ri', off', pos')"
    "length ri' = n" "length off' = length off" "length pos' = length pos"
    "\<And>m. m < length ?fs \<Longrightarrow> ri' ! (?fs ! m) = length tmp + m \<and> off' ! (?fs ! m) = 0 \<and> pos' ! (length tmp + m) = length tmp + m"
    "\<And>j. j \<in> D \<or> i \<le> j \<Longrightarrow> ri' ! j = ri ! j \<and> off' ! j = off ! j" "\<And>k. k < length tmp \<Longrightarrow> pos' ! k = pos ! k"
    by blast
  have fs: "?fs ! m < i" "i \<noteq> ?fs ! m" if "m < length ?fs" for m using nth_mem [OF that] by auto
  show ?case
  proof (cases "i \<in> D")
    case True
    then have a: "ri' ! i \<noteq> UINT32_MAX" using D [of i] IH(6) [of i] Suc.prems by simp
    show ?thesis
      by (rule exI [of _ ri'], rule exI [of _ off'], rule exI [of _ pos'])
         (use IH True a in \<open>simp add: append_fill_def [of reads i]\<close>)
  next
    case False
    then have a: "ri' ! i = UINT32_MAX" using D [of i] IH(6) [of i] Suc.prems by simp
    have b: "i < n" "length tmp + length ?fs < length pos" using Suc.prems False by simp_all
    let ?w = "length tmp + length ?fs"
    show ?thesis
      by (rule exI [of _ "ri'[i := ?w]"], rule exI [of _ "off'[i := 0]"], rule exI [of _ "pos'[?w := ?w]"])
         (use IH False fs len a b in
           \<open>auto simp: append_fill_def [of reads i] nth_append nth_list_update less_Suc_eq Let_def\<close>)
  qed
qed (simp add: len)

lemma scatter_nth:
  assumes "inj_on (\<lambda>k. pos ! k) {..< w}" and "\<And>k. k < w \<Longrightarrow> pos ! k < length rs" and "k < w"
  shows "fold (\<lambda>k rs. rs[pos ! k := tmp ! k]) [0 ..< w] rs ! (pos ! k) = tmp ! k"
  using assms
proof (induction w)
  case (Suc w)
  have "length (fold (\<lambda>k rs. rs[pos ! k := tmp ! k]) xs rs) = length rs" for xs :: "nat list"
    by (induction xs arbitrary: rs) auto
  moreover have "pos ! k \<noteq> pos ! w" if "k \<noteq> w" using Suc.prems that by (auto simp: inj_on_def)
  ultimately show ?case
    using Suc by (cases "k = w") (auto simp: inj_on_def)
qed simp

lemma scatter_length [simp]: "length (fold (\<lambda>k rs. rs[f k := g k]) xs rs) = length rs"
  by (induction xs arbitrary: rs) auto

section \<open>The contract of \<open>coalesce_reads\<close>\<close>

text \<open>Every window lies in its merged read, and every merged read is one original read or the exact union of
  windows within the caps.\<close>

definition coalesced ::
    "read_op list \<Rightarrow> nat \<Rightarrow> nat \<Rightarrow> nat \<Rightarrow> read_op list \<Rightarrow> nat \<Rightarrow> nat list \<Rightarrow> nat list \<Rightarrow> bool" where
  "coalesced reads n max_bytes max_chunks reads' n' ri off \<longleftrightarrow>
     n' \<le> n \<and> length reads' = length reads \<and> length ri = n \<and> n \<le> length off \<and>
     (\<forall>i < n. ri ! i < n' \<and> located (reads' ! (ri ! i)) (reads ! i) (off ! i)) \<and>
     (\<forall>k < n'. {i. i < n \<and> ri ! i = k} \<noteq> {} \<and>
        merged reads max_bytes max_chunks {i. i < n \<and> ri ! i = k} (reads' ! k) \<and> op_ok (reads' ! k))"

text \<open>The reads of one shard keep the order of their offsets.\<close>

definition shard_order :: "read_op list \<Rightarrow> nat \<Rightarrow> bool" where
  "shard_order reads' n' \<longleftrightarrow>
     (\<forall>k k'. k < k' \<and> k' < n' \<and> is_io (reads' ! k) \<and> is_io (reads' ! k') \<and>
        ro_shard_path (reads' ! k) = ro_shard_path (reads' ! k') \<longrightarrow>
        ro_file_offset (reads' ! k) \<le> ro_file_offset (reads' ! k'))"

text \<open>The state after the fuse, interleave and placeholder loops: \<open>tmp\<close> in fuse order, \<open>pos\<close> its permutation.\<close>

definition placed ::
    "read_op list \<Rightarrow> nat \<Rightarrow> nat \<Rightarrow> nat \<Rightarrow> read_op list \<Rightarrow> nat list \<Rightarrow> nat list \<Rightarrow> nat list \<Rightarrow> bool" where
  "placed reads n max_bytes max_chunks tmp ri off pos \<longleftrightarrow>
     bij_betw (\<lambda>k. pos ! k) {..< length tmp} {..< length tmp} \<and> length ri = n \<and> n \<le> length off \<and>
     (\<forall>i < n. ri ! i < length tmp \<and> located (tmp ! (ri ! i)) (reads ! i) (off ! i)) \<and>
     (\<forall>k < length tmp. {i. i < n \<and> ri ! i = k} \<noteq> {} \<and>
        merged reads max_bytes max_chunks {i. i < n \<and> ri ! i = k} (tmp ! k) \<and> op_ok (tmp ! k)) \<and>
     (\<forall>k k'. k < k' \<and> k' < length tmp \<and> is_io (tmp ! k) \<and> is_io (tmp ! k') \<and>
        ro_shard_path (tmp ! k) = ro_shard_path (tmp ! k') \<longrightarrow>
        pos ! k < pos ! k' \<and> ro_file_offset (tmp ! k) \<le> ro_file_offset (tmp ! k'))"

lemma placed_count:
  assumes "placed reads n mb mc tmp ri off pos"
  shows "length tmp \<le> n"
proof -
  have "{..< length tmp} \<subseteq> (\<lambda>i. ri ! i) ` {..< n}" using assms by (force simp: placed_def)
  from card_mono [OF _ this] show ?thesis using card_image_le [of "{..< n}" "\<lambda>i. ri ! i"] by simp
qed

lemma scatter_placed:
  assumes p: "placed reads n mb mc tmp ri off pos" and n: "n \<le> length reads"
  defines "out \<equiv> fold (\<lambda>k rs. rs[pos ! k := tmp ! k]) [0 ..< length tmp] reads"
  shows "coalesced reads n mb mc out (length tmp) (map (\<lambda>k. pos ! k) ri) off" and "shard_order out (length tmp)"
proof -
  let ?W = "length tmp" and ?f = "\<lambda>k. pos ! k"
  have bij: "bij_betw ?f {..< ?W} {..< ?W}" and len: "length ri = n" "n \<le> length off"
    and loc: "\<And>i. i < n \<Longrightarrow> ri ! i < ?W \<and> located (tmp ! (ri ! i)) (reads ! i) (off ! i)"
    and mem: "\<And>k. k < ?W \<Longrightarrow> {i. i < n \<and> ri ! i = k} \<noteq> {} \<and> merged reads mb mc {i. i < n \<and> ri ! i = k} (tmp ! k) \<and> op_ok (tmp ! k)"
    using p by (simp_all add: placed_def)
  have W: "?W \<le> n" using placed_count [OF p] .
  have inj: "inj_on ?f {..< ?W}" and rng: "\<And>k. k < ?W \<Longrightarrow> ?f k < ?W" and sur: "\<And>y. y < ?W \<Longrightarrow> \<exists>k < ?W. y = ?f k"
    using bij by (auto simp: bij_betw_def)
  have out: "out ! (?f k) = tmp ! k" if "k < ?W" for k
    unfolding out_def using scatter_nth [OF inj _ that, of reads tmp] rng W n by (meson less_le_trans)
  have group: "{i. i < n \<and> map ?f ri ! i = ?f k} = {i. i < n \<and> ri ! i = k}" if "k < ?W" for k
    using loc len inj that by (auto simp: inj_on_def)
  show "coalesced reads n mb mc out ?W (map ?f ri) off"
    unfolding coalesced_def
  proof (intro conjI allI impI)
    fix i assume i: "i < n"
    then show "map ?f ri ! i < ?W" using loc len rng by simp
    show "located (out ! (map ?f ri ! i)) (reads ! i) (off ! i)" using i loc [OF i] len out by simp
  next
    fix y assume "y < ?W"
    then obtain k where k: "k < ?W" "y = ?f k" using sur by blast
    show "{i. i < n \<and> map ?f ri ! i = y} \<noteq> {}" "merged reads mb mc {i. i < n \<and> map ?f ri ! i = y} (out ! y)" "op_ok (out ! y)"
      unfolding k(2) group [OF k(1)] out [OF k(1)] using mem [OF k(1)] by simp_all
  qed (use W len in \<open>simp_all add: out_def\<close>)
  show "shard_order out ?W"
    unfolding shard_order_def
  proof (intro allI impI, elim conjE)
    fix y y' assume y: "y < y'" "y' < ?W" "is_io (out ! y)" "is_io (out ! y')"
      "ro_shard_path (out ! y) = ro_shard_path (out ! y')"
    obtain k k' where k: "k < ?W" "y = ?f k" "k' < ?W" "y' = ?f k'" using sur y by (metis less_trans)
    have ord: "?f a < ?f b \<and> ro_file_offset (tmp ! a) \<le> ro_file_offset (tmp ! b)"
      if "a < b" "b < ?W" "{a, b} = {k, k'}" for a b
      using p that y(3-5) k out unfolding placed_def by (auto simp: doubleton_eq_iff)
    have "\<not> k' < k" using ord [of k' k] k y(1) by auto
    moreover have "k \<noteq> k'" using k y(1) by auto
    ultimately have "k < k'" by simp
    then show "ro_file_offset (out ! y) \<le> ro_file_offset (out ! y')"
      using ord [of k k'] k out by simp
  qed
qed

lemma pos_bij_extend:
  assumes bij: "bij_betw (\<lambda>k. q ! k) {..< N} {..< (N :: nat)}"
    and old: "\<And>k. k < N \<Longrightarrow> pos ! k = q ! k" and new: "\<And>m. m < F \<Longrightarrow> pos ! (N + m) = N + m"
  shows "bij_betw (\<lambda>k. pos ! k) {..< N + F} {..< N + F}"
proof -
  have "bij_betw (\<lambda>k. pos ! k) {..< N} {..< N}" using bij old by (subst bij_betw_cong [of _ _ "\<lambda>k. q ! k"]) auto
  moreover have "pos ! k = k" if "k \<in> {N ..< N + F}" for k using that new [of "k - N"] by auto
  then have "bij_betw (\<lambda>k. pos ! k) {N ..< N + F} {N ..< N + F}"
    by (subst bij_betw_cong [of _ _ id]) auto
  ultimately have "bij_betw (\<lambda>k. pos ! k) ({..< N} \<union> {N ..< N + F}) ({..< N} \<union> {N ..< N + F})"
    by (rule bij_betw_combine) auto
  moreover have "{..< N} \<union> {N ..< N + F} = {..< N + F}" by auto
  ultimately show ?thesis by simp
qed

lemma fused_count:
  assumes "fuse_ok reads n mb mc D tmp ri off lo le lc"
  shows "length tmp + length (filter (\<lambda>j. j \<notin> set D) [0 ..< n]) \<le> n"
proof -
  note F = fuse_okD [OF assms]
  have "{..< length tmp} \<subseteq> (\<lambda>e. ri ! e) ` set D" using F(8) by fastforce
  from card_mono [OF _ this] have "length tmp \<le> length D"
    using card_image_le [of "set D" "\<lambda>e. ri ! e"] distinct_card [OF F(4)] by simp
  moreover have "length (filter (\<lambda>j. j \<notin> set D) [0 ..< n]) = card ({..< n} - set D)"
    by (subst distinct_card [symmetric]) (auto intro: arg_cong [of _ _ card])
  moreover have "card ({..< n} - set D) = n - length D" using F(3,4) by (simp add: card_Diff_subset distinct_card)
  moreover have "length D \<le> n" using card_mono [OF _ F(3)] distinct_card [OF F(4)] by simp
  ultimately show ?thesis by simp
qed

text \<open>The fused reads followed by the placeholders, all located by the extended index.\<close>

lemma fused_placed:
  assumes inv: "fuse_ok reads n mb mc D tmp ri off lo le lc"
    and sorted: "sorted_wrt key_le (map op_key tmp)"
    and fills: "\<And>i. i < n \<Longrightarrow> i \<notin> set D \<Longrightarrow> \<not> is_io (reads ! i)"
    and ok: "\<And>i. i < n \<Longrightarrow> op_ok (reads ! i)"
    and bij: "bij_betw (\<lambda>k. q ! k) {..< length tmp} {..< length tmp}" and q: "n \<le> length q" and n: "n < 2 ^ 32"
    and mono: "\<And>x k k'. x < length (run_starts tmp) \<Longrightarrow> run_starts tmp ! x \<le> k \<Longrightarrow> k < k' \<Longrightarrow>
                 k' < run_stop (run_starts tmp) (length tmp) x \<Longrightarrow> q ! k < q ! k'"
  shows "\<exists>tmp' ri' off' pos'. fold (append_fill reads) [0 ..< n] (tmp, ri, off, q) = (tmp', ri', off', pos') \<and>
           placed reads n mb mc tmp' ri' off' pos'"
proof -
  note F = fuse_okD [OF inv]
  let ?N = "length tmp"
  define fs where "fs = filter (\<lambda>j. j \<notin> set D) [0 ..< n]"
  have count: "?N + length fs \<le> n" using fused_count [OF inv] by (simp add: fs_def)
  have idx: "(ri ! e = UINT32_MAX) \<longleftrightarrow> e \<notin> set D" if "e < n" for e
    using F(5) [of e] F(6) [of e] that count n by auto
  have room: "length tmp + length (filter (\<lambda>j. j \<notin> set D) [0 ..< n]) \<le> length q" using count q by (simp add: fs_def)
  from append_fill_loop [where D = "set D" and i = n, OF F(1,2) idx room order_refl]
  obtain ri' off' pos' where L: "fold (append_fill reads) [0 ..< n] (tmp, ri, off, q) = (tmp @ map (\<lambda>j. reads ! j) fs, ri', off', pos')"
    "length ri' = n" "length off' = length off"
    "\<And>m. m < length fs \<Longrightarrow> ri' ! (fs ! m) = ?N + m \<and> off' ! (fs ! m) = 0 \<and> pos' ! (?N + m) = ?N + m"
    "\<And>j. j \<in> set D \<Longrightarrow> ri' ! j = ri ! j \<and> off' ! j = off ! j" "\<And>k. k < ?N \<Longrightarrow> pos' ! k = q ! k"
    unfolding fs_def [symmetric] by blast
  let ?t = "tmp @ map (\<lambda>j. reads ! j) fs"
  have fsD: "\<exists>m < length fs. i = fs ! m" if "i < n" "i \<notin> set D" for i
  proof -
    have "i \<in> set fs" using that by (simp add: fs_def)
    then show ?thesis by (auto simp: in_set_conv_nth)
  qed
  have fsn: "fs ! m < n \<and> fs ! m \<notin> set D" if "m < length fs" for m
    using nth_mem [OF that] by (simp add: fs_def)
  have dist: "distinct fs" by (simp add: fs_def)
  have low: "{i. i < n \<and> ri' ! i = k} = members D ri k" if "k < ?N" for k
  proof -
    have "i \<in> set D" if "i < n" "ri' ! i = k" for i
      using that fsD [of i] L(4) \<open>k < ?N\<close> by (cases "i \<in> set D") auto
    then have "{i. i < n \<and> ri' ! i = k} = {i \<in> set D. ri' ! i = k}" using F(3) by blast
    also have "\<dots> = members D ri k" using L(5) by (intro Collect_cong) auto
    finally show ?thesis .
  qed
  have high: "{i. i < n \<and> ri' ! i = ?N + m} = {fs ! m}" if "m < length fs" for m
  proof -
    have "i = fs ! m" if i: "i < n" "ri' ! i = ?N + m" for i
      using i fsD [of i] L(4) L(5) [of i] F(5) [of i] by (cases "i \<in> set D") auto
    then show ?thesis using that fsn L(4) by auto
  qed
  have loc: "ri' ! i < length ?t" "located (?t ! (ri' ! i)) (reads ! i) (off' ! i)" if i: "i < n" for i
  proof -
    have "ri' ! i < length ?t \<and> located (?t ! (ri' ! i)) (reads ! i) (off' ! i)"
    proof (cases "i \<in> set D")
      case True
      then show ?thesis using L(5) [OF True] F(5) [OF True] F(7) [OF True] by (simp add: nth_append)
    next
      case False
      then obtain m where "m < length fs" "i = fs ! m" using fsD i by blast
      then show ?thesis using L(4) [of m] by (simp add: nth_append located_def)
    qed
    then show "ri' ! i < length ?t" "located (?t ! (ri' ! i)) (reads ! i) (off' ! i)" by blast+
  qed
  have mem: "{i. i < n \<and> ri' ! i = k} \<noteq> {}" "merged reads mb mc {i. i < n \<and> ri' ! i = k} (?t ! k)" "op_ok (?t ! k)" if k: "k < length ?t" for k
  proof -
    have "{i. i < n \<and> ri' ! i = k} \<noteq> {} \<and> merged reads mb mc {i. i < n \<and> ri' ! i = k} (?t ! k) \<and> op_ok (?t ! k)"
    proof (cases "k < ?N")
      case True
      show ?thesis unfolding low [OF True] using F(8) [OF True] True by (simp add: nth_append)
    next
      case False
      then obtain m where m: "k = ?N + m" "m < length fs" using k by (metis add_diff_inverse_nat length_append length_map nat_add_left_cancel_less)
      show ?thesis unfolding m(1) high [OF m(2)] using m(2) fsn [OF m(2)] ok by (simp add: nth_append merged_def)
    qed
    then show "{i. i < n \<and> ri' ! i = k} \<noteq> {}" "merged reads mb mc {i. i < n \<and> ri' ! i = k} (?t ! k)" "op_ok (?t ! k)" by blast+
  qed
  have "placed reads n mb mc ?t ri' off' pos'"
    unfolding placed_def
  proof (intro conjI allI impI; (elim conjE)?)
    show "bij_betw (\<lambda>k. pos' ! k) {..< length ?t} {..< length ?t}"
      using pos_bij_extend [OF bij, of pos' "length fs"] L(4,6) by simp
  next
    fix i assume i: "i < n"
    then show "ri' ! i < length ?t" by (rule loc)
    show "located (?t ! (ri' ! i)) (reads ! i) (off' ! i)" using i by (rule loc)
  next
    fix k assume k: "k < length ?t"
    then show "{i. i < n \<and> ri' ! i = k} \<noteq> {}" by (rule mem)
    show "merged reads mb mc {i. i < n \<and> ri' ! i = k} (?t ! k)" "op_ok (?t ! k)" using k by (rule mem)+
  next
    fix k k' assume k: "k < k'" "k' < length ?t" "is_io (?t ! k)" "is_io (?t ! k')"
      "ro_shard_path (?t ! k) = ro_shard_path (?t ! k')"
    have "x < ?N" if "x < length ?t" "is_io (?t ! x)" for x
      using that fills fsn [of "x - ?N"] by (cases "x < ?N") (auto simp: nth_append)
    then have kN: "k' < ?N" "k < ?N" using k by auto
    then have path: "ro_shard_path (tmp ! k) = ro_shard_path (tmp ! k')" using k(5) by (simp add: nth_append)
    have io: "is_io (tmp ! x)" if "x < ?N" for x using F(8) [OF that] by simp
    have same: "ro_shard_path (tmp ! x) = ro_shard_path (tmp ! k)" if "k \<le> x" "x \<le> k'" for x
      using sorted_paths_contiguous [OF sorted io k(1) kN(1) path that] .
    have sp: "same_path (ro_shard_path (tmp ! m)) (ro_shard_path (tmp ! (m - 1)))" if "k < m" "m \<le> k'" for m
      using same [of m] same [of "m - 1"] that by (simp add: same_path_def)
    obtain x where "x < length (run_starts tmp)" "run_starts tmp ! x \<le> k" "k' < run_stop (run_starts tmp) ?N x"
      using same_run [OF k(1) kN(1) sp] by blast
    then show "pos' ! k < pos' ! k'" using mono k(1) L(6) kN by simp
    have "key_le (op_key (tmp ! k)) (op_key (tmp ! k'))" using sorted k(1) kN by (simp add: sorted_wrt_iff_nth_less)
    then show "ro_file_offset (?t ! k) \<le> ro_file_offset (?t ! k')"
      using path kN by (simp add: key_le_def op_key_def nth_append)
  qed (use L(2,3) F(1,2) in simp_all)
  then show ?thesis using L(1) by blast
qed

lemma coalesce_reads_body_result:
  assumes n: "n < 2 ^ 31" "n \<le> length reads" "n \<le> length offs" "2 * n \<le> length us"
    and ok: "\<And>i. i < n \<Longrightarrow> op_ok (reads ! i)"
  obtains out n' ri off where "coalesce_reads_body reads n mb mc offs us = Some (out, n', ri, off)"
    and "coalesced reads n mb mc out n' ri off" and "shard_order out n'"
proof -
  define perm where "perm = filter (\<lambda>i. is_io (reads ! i)) [0 ..< n]"
  obtain D where D: "read_op_perm_sort reads perm (length perm) = Some D" "mset D = mset perm" "length D = length perm"
      "sorted_wrt (\<lambda>a b. \<not> perm_lt reads b a) D"
    by (rule read_op_perm_sort_result [of "length perm" perm reads]) auto
  have setD: "set D = {i. i < n \<and> is_io (reads ! i)}"
    using mset_eq_setD [OF D(2)] by (auto simp: perm_def)
  have dD: "distinct D" using D(2) mset_eq_imp_distinct_iff [of D perm] by (simp add: perm_def)
  define s0 where "s0 = \<lparr>fs_tmp = [], fs_read_index = replicate n UINT32_MAX, fs_offset_in_read = offs,
                        fs_leader_old = UINT32_MAX, fs_leader_end = 0, fs_leader_chunks = 0\<rparr>"
  define s where "s = foldl (fuse_step reads mb mc) s0 D"
  have "fuse_inv reads n mb mc [] s0" using n by (simp add: fuse_inv_def fuse_ok_def s0_def)
  then have "fuse_inv reads n mb mc ([] @ D) s"
    unfolding s_def
  proof (rule fuse_loop_inv)
    show "op_ok (reads ! d) \<and> is_io (reads ! d)" if "d \<in> set ([] @ D)" for d using that setD ok by simp
  qed (use dD setD n(1) in auto)
  then have inv: "fuse_ok reads n mb mc D (fs_tmp s) (fs_read_index s) (fs_offset_in_read s)
      (fs_leader_old s) (fs_leader_end s) (fs_leader_chunks s)" by (simp add: fuse_inv_def)
  have "sorted_wrt key_le (map (\<lambda>e. op_key (reads ! e)) D)"
    unfolding sorted_wrt_map by (rule sorted_wrt_mono_rel [OF _ D(4)]) (rule not_perm_lt_key_le)
  then have sorted: "sorted_wrt key_le (map op_key (fs_tmp s))"
    unfolding s_def by (intro fuse_loop_sorted) (simp add: s0_def)
  have N: "length (fs_tmp s) \<le> n" using fused_count [OF inv] by simp
  obtain q where q: "interleave_loop (Suc (length (fs_tmp s))) (run_starts (fs_tmp s)) (length (fs_tmp s)) 0 (drop n us, 0) = Some q"
    "length q = length (drop n us)" "bij_betw (\<lambda>k. q ! k) {..< length (fs_tmp s)} {..< length (fs_tmp s)}"
    "\<And>x k k'. x < length (run_starts (fs_tmp s)) \<Longrightarrow> run_starts (fs_tmp s) ! x \<le> k \<Longrightarrow> k < k' \<Longrightarrow>
       k' < run_stop (run_starts (fs_tmp s)) (length (fs_tmp s)) x \<Longrightarrow> q ! k < q ! k'"
    by (rule interleave_permutes [OF run_starts_division, of "fs_tmp s" "drop n us"]) (use n N in auto)
  have lq: "n \<le> length q" "n < 2 ^ 32" using q(2) n by simp_all
  have fills: "\<not> is_io (reads ! i)" if "i < n" "i \<notin> set D" for i using that setD by simp
  have "\<exists>tmp' ri' off' pos'. fold (append_fill reads) [0 ..< n] (fs_tmp s, fs_read_index s, fs_offset_in_read s, q) =
      (tmp', ri', off', pos') \<and> placed reads n mb mc tmp' ri' off' pos'"
    by (rule fused_placed [OF inv sorted _ _ q(3) lq]) (erule fills, assumption, erule ok, erule q(4), assumption+)
  then obtain tmp' ri' off' pos' where
    P: "fold (append_fill reads) [0 ..< n] (fs_tmp s, fs_read_index s, fs_offset_in_read s, q) = (tmp', ri', off', pos')"
    "placed reads n mb mc tmp' ri' off' pos'" by blast
  have "coalesce_reads_body reads n mb mc offs us =
      Some (fold (\<lambda>k rs. rs[pos' ! k := tmp' ! k]) [0 ..< length tmp'] reads, length tmp', map (\<lambda>k. pos' ! k) ri', off')"
    using D(1) q(1) P(1) by (simp add: coalesce_reads_body_def perm_def s_def s0_def Let_def)
  then show thesis using that scatter_placed [OF P(2) n(2)] by blast
qed

lemma coalesce_reads_result:
  assumes n: "n < 2 ^ 31" "n \<le> length reads" "n \<le> length offs" "2 * n \<le> length us" "0 < n"
    and ok: "\<And>i. i < n \<Longrightarrow> op_ok (reads ! i)"
  obtains out n' ri off where
    "coalesce_reads (Some reads) (Some n) mb mc True (Some offs) (Some us) True = Some (DAMACY_OK, Some (out, n', ri, off))"
    and "coalesced reads n mb mc out n' ri off" and "shard_order out n'"
proof (rule coalesce_reads_body_result [OF n(1-4) ok, of mb mc])
  fix out n' ri off
  assume "coalesce_reads_body reads n mb mc offs us = Some (out, n', ri, off)"
    "coalesced reads n mb mc out n' ri off" "shard_order out n'"
  then show thesis using n that [of out n' ri off] by (simp add: coalesce_reads_def)
qed

text \<open>C7. Coalescing returns DAMACY\_OK. Every original window has the same path as the merged read its
  \<open>read_index\<close> names and lies inside it at its \<open>offset_in_read\<close>; every merged read is one original read
  unchanged, or the exact union of the windows mapped to it, within the byte cap and the chunk cap; and the
  reads of one shard are emitted in the order of their offsets.\<close>

theorem coalesce_reads_correct:
  assumes "n < 2 ^ 31" and "n \<le> length reads" and "n \<le> length offs" and "2 * n \<le> length us" and "0 < n"
    and "\<forall>i < n. op_ok (reads ! i)"
  shows "\<exists>out n' ri off.
      coalesce_reads (Some reads) (Some n) mb mc True (Some offs) (Some us) True = Some (DAMACY_OK, Some (out, n', ri, off)) \<and>
      coalesced reads n mb mc out n' ri off \<and> shard_order out n'"
proof -
  have ok: "op_ok (reads ! i)" if "i < n" for i using assms(6) that by blast
  show ?thesis
    by (rule coalesce_reads_result [OF assms(1-5) ok, where mb = mb and mc = mc]; (intro exI conjI)?)
qed

definition coalesce_demo :: "read_op list" where
  "coalesce_demo =
     [read_op0 \<lparr>ro_shard_path := Some ''s'', ro_file_offset := 16, ro_nbytes := 16\<rparr>,
      read_op0,
      read_op0 \<lparr>ro_shard_path := Some ''t'', ro_file_offset := 0, ro_nbytes := 8\<rparr>,
      read_op0 \<lparr>ro_shard_path := Some ''s'', ro_file_offset := 0, ro_nbytes := 16\<rparr>]"

lemma coalesce_demo_ok: "\<forall>i < 4. op_ok (coalesce_demo ! i)"
proof -
  have "i < 4 \<longleftrightarrow> i = 0 \<or> i = 1 \<or> i = 2 \<or> i = 3" for i :: nat by auto
  then show ?thesis by (auto simp: coalesce_demo_def op_ok_def read_op0_def)
qed

theorem coalesce_reads_correct_witness:
  "\<exists>out n' ri off.
      coalesce_reads (Some coalesce_demo) (Some 4) 64 8 True (Some (replicate 4 0)) (Some (replicate 8 0)) True =
        Some (DAMACY_OK, Some (out, n', ri, off)) \<and>
      coalesced coalesce_demo 4 64 8 out n' ri off \<and> shard_order out n'"
  using coalesce_reads_correct [of 4 coalesce_demo "replicate 4 0" "replicate 8 0" 64 8] coalesce_demo_ok
  by (simp add: coalesce_demo_def)

section \<open>The chunk plans\<close>

text \<open>Where the bytes of a chunk are: the path and the absolute file offset.\<close>

definition chunk_source :: "read_op list \<Rightarrow> chunk_plan \<Rightarrow> string option \<times> nat" where
  "chunk_source reads cp =
     (ro_shard_path (reads ! cp_read_op_idx cp), ro_file_offset (reads ! cp_read_op_idx cp) + cp_offset_in_read cp)"

definition chunk_fits :: "read_op list \<Rightarrow> nat \<Rightarrow> chunk_plan \<Rightarrow> bool" where
  "chunk_fits reads n cp \<longleftrightarrow> cp_read_op_idx cp < n \<and>
     (\<not> cp_is_fill cp \<longrightarrow> cp_offset_in_read cp + cp_compressed_nbytes cp \<le> ro_nbytes (reads ! cp_read_op_idx cp))"

text \<open>A rewritten chunk: same chunk, same bytes, new read.\<close>

definition rehomed :: "read_op list \<Rightarrow> read_op list \<Rightarrow> nat \<Rightarrow> chunk_plan \<Rightarrow> chunk_plan \<Rightarrow> bool" where
  "rehomed reads reads' n' cp cp' \<longleftrightarrow>
     cp' \<lparr>cp_read_op_idx := cp_read_op_idx cp, cp_offset_in_read := cp_offset_in_read cp\<rparr> = cp \<and>
     chunk_fits reads' n' cp' \<and> (\<not> cp_is_fill cp \<longrightarrow> chunk_source reads' cp' = chunk_source reads cp)"

lemma rewrite_chunks_rehomed:
  assumes c: "coalesced reads n mb mc reads' n' ri off" and "\<forall>cp \<in> set cps. chunk_fits reads n cp"
  shows "\<exists>cps'. rewrite_chunks ri off cps = (True, cps') \<and> list_all2 (rehomed reads reads' n') cps cps'"
  using assms(2)
proof (induction cps)
  case (Cons cp cps)
  let ?old = "cp_read_op_idx cp"
  from Cons obtain cps' where IH: "rewrite_chunks ri off cps = (True, cps')" "list_all2 (rehomed reads reads' n') cps cps'"
    by auto
  have fit: "chunk_fits reads n cp" and old: "?old < n" using Cons.prems by (auto simp: chunk_fits_def)
  have m: "ri ! ?old < n'" "located (reads' ! (ri ! ?old)) (reads ! ?old) (off ! ?old)" "op_ok (reads' ! (ri ! ?old))"
    using c old by (auto simp: coalesced_def)
  show ?case
  proof (cases "cp_is_fill cp")
    case True
    then have "rehomed reads reads' n' cp (cp \<lparr>cp_read_op_idx := ri ! ?old\<rparr>)"
      using m by (simp add: rehomed_def chunk_fits_def)
    then show ?thesis using IH True by simp
  next
    case False
    have b: "cp_offset_in_read cp + off ! ?old + cp_compressed_nbytes cp \<le> ro_nbytes (reads' ! (ri ! ?old))"
      using False fit m(2) by (simp add: chunk_fits_def located_def)
    then have "cp_offset_in_read cp + off ! ?old \<le> UINT32_MAX" using m(3) by (simp add: op_ok_def)
    moreover have "rehomed reads reads' n' cp
        (cp \<lparr>cp_read_op_idx := ri ! ?old, cp_offset_in_read := cp_offset_in_read cp + off ! ?old\<rparr>)"
      using m b False by (simp add: rehomed_def chunk_fits_def chunk_source_def located_def)
    ultimately show ?thesis using IH False by (simp add: Let_def)
  qed
qed simp

lemma coalesce_chunks_result:
  assumes o: "do_read_ops out = Some reads" "do_chunk_plans out = Some (cps @ rest)" "do_n_read_ops out = n" "do_n_chunk_plans out = length cps"
    and n: "0 < n" "n < 2 ^ 31" "n \<le> length reads" "4 * n \<le> length us"
    and ok: "\<forall>i < n. op_ok (reads ! i)" and fit: "\<forall>cp \<in> set cps. chunk_fits reads n cp"
  obtains out' reads' n' cps' ri off where "coalesce_chunks out mb mc (Some us) True = Some (DAMACY_OK, out')"
    and "do_read_ops out' = Some reads'" and "do_n_read_ops out' = n'" and "do_chunk_plans out' = Some (cps' @ rest)"
    and "coalesced reads n mb mc reads' n' ri off" and "list_all2 (rehomed reads reads' n') cps cps'"
    and "out' = out \<lparr>do_read_ops := Some reads', do_n_read_ops := n', do_chunk_plans := Some (cps' @ rest),
                      do_n_chunks_to_load := length (filter (\<lambda>cp. \<not> cp_is_fill cp) cps'),
                      do_n_loads_issued := length (filter is_io (take n' reads'))\<rparr>"
proof -
  have s: "n \<le> length (drop (3 * n) us)" "2 * n \<le> length us" using n by simp_all
  have ok': "op_ok (reads ! i)" if "i < n" for i using ok that by blast
  obtain reads' n' ri off where
    C: "coalesce_reads (Some reads) (Some n) mb mc True (Some (drop (3 * n) us)) (Some us) True =
          Some (DAMACY_OK, Some (reads', n', ri, off))" "coalesced reads n mb mc reads' n' ri off"
    by (rule coalesce_reads_result [OF n(2,3) s n(1) ok', where mb = mb and mc = mc]) blast
  from rewrite_chunks_rehomed [OF C(2) fit] obtain cps' where
    R: "rewrite_chunks ri off cps = (True, cps')" "list_all2 (rehomed reads reads' n') cps cps'" by blast
  have "length cps' = length cps" using list_all2_lengthD [OF R(2)] by simp
  then have E: "coalesce_chunks out mb mc (Some us) True = Some (DAMACY_OK,
      out \<lparr>do_read_ops := Some reads', do_n_read_ops := n', do_chunk_plans := Some (cps' @ rest),
           do_n_chunks_to_load := length (filter (\<lambda>cp. \<not> cp_is_fill cp) cps'),
           do_n_loads_issued := length (filter is_io (take n' reads'))\<rparr>)"
    using o n(1) C(1) R(1) by (simp add: coalesce_chunks_def Let_def)
  show thesis by (rule that [OF E _ _ _ C(2) R(2) refl]) simp_all
qed

text \<open>C8. When every chunk lies inside its window, coalescing a batch's chunk plans succeeds, and every
  chunk still names the same bytes: the path and the absolute file offset of a chunk that is not a fill are
  unchanged, it lies inside its new read, and nothing else of it changes.\<close>

theorem coalesce_chunks_keeps_bytes:
  assumes "do_read_ops out = Some reads" and "do_chunk_plans out = Some (cps @ rest)" and "do_n_read_ops out = n"
    and "do_n_chunk_plans out = length cps"
    and "0 < n" and "n < 2 ^ 31" and "n \<le> length reads" and "4 * n \<le> length us"
    and "\<forall>i < n. op_ok (reads ! i)" and "\<forall>cp \<in> set cps. chunk_fits reads n cp"
  shows "\<exists>out' reads' cps'. coalesce_chunks out mb mc (Some us) True = Some (DAMACY_OK, out') \<and>
           do_read_ops out' = Some reads' \<and> do_chunk_plans out' = Some (cps' @ rest) \<and> do_n_read_ops out' \<le> n \<and>
           list_all2 (rehomed reads reads' (do_n_read_ops out')) cps cps'"
proof (rule coalesce_chunks_result [OF assms])
  fix out' reads' n' cps' ri off
  assume "coalesce_chunks out mb mc (Some us) True = Some (DAMACY_OK, out')" "do_read_ops out' = Some reads'"
    "do_n_read_ops out' = n'" "do_chunk_plans out' = Some (cps' @ rest)" "coalesced reads n mb mc reads' n' ri off"
    "list_all2 (rehomed reads reads' n') cps cps'"
  then show ?thesis by (auto simp: coalesced_def)
qed

definition coalesce_demo_out :: dispatch_output where
  "coalesce_demo_out =
     \<lparr>do_read_ops = Some coalesce_demo, do_read_ops_cap = 4, do_n_read_ops = 4,
      do_chunk_plans = Some
        [\<lparr>cp_read_op_idx = 0, cp_offset_in_read = 4, cp_compressed_nbytes = 8, cp_decompressed_nbytes = 32,
          cp_host_buf_offset = 0, cp_dev_decompressed_offset = 0, cp_gather_offset = 0, cp_batch_pool_slot = 0,
          cp_sample_idx_in_batch = 0, cp_codec_id = CODEC_ZSTD, cp_is_fill = False, cp_chunk_d = []\<rparr>,
         \<lparr>cp_read_op_idx = 1, cp_offset_in_read = 0, cp_compressed_nbytes = 0, cp_decompressed_nbytes = 32,
          cp_host_buf_offset = 0, cp_dev_decompressed_offset = 0, cp_gather_offset = 0, cp_batch_pool_slot = 0,
          cp_sample_idx_in_batch = 0, cp_codec_id = CODEC_FILL, cp_is_fill = True, cp_chunk_d = []\<rparr>],
      do_chunk_plans_cap = 4, do_n_chunk_plans = 2, do_sample_plans = [], do_sample_plans_cap = 0, do_n_sample_plans = 0,
      do_read_op_groups = None, do_read_op_groups_cap = 0, do_n_read_op_groups = 0, do_indices = None, do_indices_cap = 0,
      do_n_indices = 0, do_gather_dims = [], do_gather_dims_cap = 0, do_n_gather_dims = 0, do_n_chunks_to_load = 0,
      do_n_loads_issued = 0\<rparr>"

theorem coalesce_chunks_keeps_bytes_witness:
  "\<exists>out' reads' cps'. coalesce_chunks coalesce_demo_out 64 8 (Some (replicate 16 0)) True = Some (DAMACY_OK, out') \<and>
     do_read_ops out' = Some reads' \<and> do_chunk_plans out' = Some cps' \<and> do_n_read_ops out' \<le> 4 \<and>
     list_all2 (rehomed coalesce_demo reads' (do_n_read_ops out')) (the (do_chunk_plans coalesce_demo_out)) cps'"
  using coalesce_chunks_keeps_bytes [of coalesce_demo_out coalesce_demo "the (do_chunk_plans coalesce_demo_out)" "[]" 4 "replicate 16 0" 64 8]
    coalesce_demo_ok
  by (simp add: coalesce_demo_out_def coalesce_demo_def chunk_fits_def read_op0_def)

end
