(* ===== verification/Group_Chunks.thy ===== *)
theory Group_Chunks
  imports Dispatch_Types
begin

text \<open>
  Grouping of chunk plans by read, src/src/executor/group\_chunks.c: a stable counting sort over the read
  index, the list of groups, and the iterator over them. The counting sort is shown equal to the stable
  \<open>sort_key\<close> of the library, and every group to hold exactly the chunks of its read.
\<close>

section \<open>The counting sort\<close>

text \<open>The counts fit: no counter passes the number of chunks, a \<open>uint32_t\<close>. \<open>None\<close> is an index out of range.\<close>

fun count_heads :: "nat \<Rightarrow> chunk_plan list \<Rightarrow> nat list \<Rightarrow> nat list option" where
  "count_heads R [] head = Some head"
| "count_heads R (cp # cps) head =
     (let r = cp_read_op_idx cp
      in if r \<ge> R then None else count_heads R cps (head[r + 1 := head ! (r + 1) + 1]))"

definition prefix_heads :: "nat \<Rightarrow> nat list \<Rightarrow> nat list" where
  "prefix_heads R head = fold (\<lambda>r h. h[r := h ! r + h ! (r - 1)]) [1 ..< R + 1] head"

definition make_groups :: "nat \<Rightarrow> nat list \<Rightarrow> read_op_group list" where
  "make_groups R head =
     map (\<lambda>r. \<lparr>rg_read_op_idx = r, rg_first_chunk = head ! r, rg_n_chunks = head ! (r + 1) - head ! r,
               rg_total_decompressed = 0\<rparr>)
       (filter (\<lambda>r. head ! r \<noteq> head ! (r + 1)) [0 ..< R])"

definition scatter_chunk :: "chunk_plan \<Rightarrow> nat list \<times> chunk_plan list \<Rightarrow> nat list \<times> chunk_plan list" where
  "scatter_chunk cp = (\<lambda>(head, scratch).
     let r = cp_read_op_idx cp in (head[r := head ! r + 1], scratch[head ! r := cp]))"

definition group_total :: "chunk_plan list \<Rightarrow> read_op_group \<Rightarrow> read_op_group" where
  "group_total cps grp =
     grp \<lparr>rg_total_decompressed :=
        fold (\<lambda>i sum. u64_add sum (cp_decompressed_nbytes (cps ! (rg_first_chunk grp + i)))) [0 ..< rg_n_chunks grp] 0\<rparr>"

definition group_chunks_by_read ::
    "dispatch_output \<Rightarrow> bool \<Rightarrow> chunk_plan list option \<Rightarrow> damacy_status \<times> dispatch_output" where
  "group_chunks_by_read out has_scratch chunk_plan_scratch =
     (case do_chunk_plans out of
        None \<Rightarrow> (DAMACY_INVAL, out)
      | Some cps \<Rightarrow>
          let n = do_n_chunk_plans out;
              R = do_n_read_ops out;
              out = out \<lparr>do_n_read_op_groups := 0\<rparr>
          in if n = 0 \<or> R = 0 then (DAMACY_OK, out)
             else (case (has_scratch, chunk_plan_scratch) of
                (True, Some scratch) \<Rightarrow>
                  (case do_read_op_groups out of
                     None \<Rightarrow> (DAMACY_BUDGET, out)
                   | Some groups \<Rightarrow>
                       if do_read_op_groups_cap out < R then (DAMACY_BUDGET, out)
                       else (case count_heads R (take n cps) (replicate (R + 1) 0) of
                          None \<Rightarrow> (DAMACY_INVAL, out)
                        | Some head \<Rightarrow>
                            let head = prefix_heads R head;
                                gs = make_groups R head;
                                cps = (if n \<ge> 2
                                       then take n (snd (fold scatter_chunk (take n cps) (head, scratch))) @ drop n cps
                                       else cps)
                            in (DAMACY_OK,
                                out \<lparr>do_n_read_op_groups := length gs,
                                     do_chunk_plans := Some cps,
                                     do_read_op_groups := Some (map (group_total cps) gs @ drop (length gs) groups)\<rparr>)))
              | _ \<Rightarrow> (DAMACY_INVAL, out)))"

section \<open>The group iterator\<close>

record read_op_group_iterator =
  gri_groups :: "read_op_group list"
  gri_n_groups :: nat
  gri_cursor :: nat

definition read_op_group_iterator_init :: "read_op_group list \<Rightarrow> nat \<Rightarrow> nat \<Rightarrow> read_op_group_iterator" where
  "read_op_group_iterator_init groups n_groups start_group =
     \<lparr>gri_groups = groups, gri_n_groups = n_groups, gri_cursor = start_group\<rparr>"

definition read_op_group_iterator_next :: "read_op_group_iterator \<Rightarrow> (read_op_group \<times> read_op_group_iterator) option" where
  "read_op_group_iterator_next it =
     (if gri_cursor it \<ge> gri_n_groups it then None
      else Some (gri_groups it ! gri_cursor it, it \<lparr>gri_cursor := gri_cursor it + 1\<rparr>))"

section \<open>Buckets\<close>

abbreviation bucket :: "nat \<Rightarrow> chunk_plan list \<Rightarrow> chunk_plan list" where
  "bucket r cps \<equiv> filter (\<lambda>cp. cp_read_op_idx cp = r) cps"

definition base :: "nat \<Rightarrow> chunk_plan list \<Rightarrow> nat" where
  "base r cps = length (filter (\<lambda>cp. cp_read_op_idx cp < r) cps)"

lemma base_0 [simp]: "base 0 cps = 0"
  by (simp add: base_def)

lemma base_Suc: "base (Suc r) cps = base r cps + length (bucket r cps)"
  by (induction cps) (auto simp: base_def less_Suc_eq)

lemma base_all: "\<forall>cp \<in> set cps. cp_read_op_idx cp < R \<Longrightarrow> base R cps = length cps"
  by (simp add: base_def)

lemma base_le: "base r cps \<le> length cps"
  by (simp add: base_def)

lemma base_mono: "r \<le> s \<Longrightarrow> base r cps \<le> base s cps"
  by (induction s) (auto simp: base_Suc le_Suc_eq)

lemma map_bucket: "map cp_read_op_idx (bucket r cps) = replicate (length (bucket r cps)) r"
  by (induction cps) auto

text \<open>The buckets in order are the stable sort.\<close>

lemma sort_key_buckets:
  assumes "\<forall>cp \<in> set cps. cp_read_op_idx cp < R"
  shows "concat (map (\<lambda>r. bucket r cps) [0 ..< R]) = sort_key cp_read_op_idx cps"
proof (rule properties_for_sort_key [symmetric])
  have "mset (concat (map (\<lambda>r. bucket r cps) [0 ..< S])) = filter_mset (\<lambda>cp. cp_read_op_idx cp < S) (mset cps)" for S
  proof (induction S)
    case (Suc S)
    have "mset (filter (\<lambda>cp. cp_read_op_idx cp < S) cps) + mset (bucket S cps) =
        mset (filter (\<lambda>cp. cp_read_op_idx cp < Suc S) cps)"
      by (induction cps) (auto simp: less_Suc_eq)
    then show ?case using Suc by simp
  qed simp
  then show "mset (concat (map (\<lambda>r. bucket r cps) [0 ..< R])) = mset cps"
    using assms by (metis (no_types, lifting) filter_True mset_filter)
next
  fix k assume k: "k \<in> set (concat (map (\<lambda>r. bucket r cps) [0 ..< R]))"
  have "filter (\<lambda>x. cp_read_op_idx k = cp_read_op_idx x) (concat (map (\<lambda>r. bucket r cps) [0 ..< S])) =
      (if cp_read_op_idx k < S then filter (\<lambda>x. cp_read_op_idx k = cp_read_op_idx x) cps else [])" for S
    by (induction S) (auto simp: less_Suc_eq filter_empty_conv intro: filter_cong)
  then show "filter (\<lambda>x. cp_read_op_idx k = cp_read_op_idx x) (concat (map (\<lambda>r. bucket r cps) [0 ..< R])) =
      filter (\<lambda>x. cp_read_op_idx k = cp_read_op_idx x) cps" using k by auto
next
  have "sorted (map cp_read_op_idx (concat (map (\<lambda>r. bucket r cps) [0 ..< S])))" for S
    by (induction S) (auto simp: sorted_append map_bucket sorted_replicate)
  then show "sorted (map cp_read_op_idx (concat (map (\<lambda>r. bucket r cps) [0 ..< R])))" .
qed

section \<open>The counting sort is the stable sort\<close>

lemma count_heads_result:
  assumes "\<forall>cp \<in> set cps. cp_read_op_idx cp < R" and "length head = R + 1"
  shows "\<exists>head'. count_heads R cps head = Some head' \<and> length head' = R + 1 \<and> head' ! 0 = head ! 0 \<and>
           (\<forall>r < R. head' ! (r + 1) = head ! (r + 1) + length (bucket r cps))"
  using assms
proof (induction cps arbitrary: head)
  case (Cons cp cps)
  let ?r = "cp_read_op_idx cp"
  let ?h = "head[?r + 1 := head ! (?r + 1) + 1]"
  have r: "?r < R" using Cons.prems by simp
  have "length ?h = R + 1" "\<forall>cp \<in> set cps. cp_read_op_idx cp < R" using Cons.prems by simp_all
  from Cons.IH [OF this(2,1)] obtain head' where h: "count_heads R cps ?h = Some head'" "length head' = R + 1"
    "head' ! 0 = ?h ! 0" "\<And>r. r < R \<Longrightarrow> head' ! (r + 1) = ?h ! (r + 1) + length (bucket r cps)" by blast
  have "head' ! (q + 1) = head ! (q + 1) + length (bucket q (cp # cps))" if "q < R" for q
    using h(4) [OF that] Cons.prems(2) r that by (cases "q = ?r") auto
  then show ?case using h(1-3) r by (intro exI [of _ head']) (simp add: Let_def)
qed simp

lemma count_heads_out_of_range: "\<exists>cp \<in> set cps. R \<le> cp_read_op_idx cp \<Longrightarrow> count_heads R cps head = None"
  by (induction R cps head rule: count_heads.induct) (auto simp: Let_def)

lemma prefix_heads_result:
  assumes len: "length head = R + 1" and z: "head ! 0 = 0"
    and cnt: "\<And>r. r < R \<Longrightarrow> head ! (r + 1) = length (bucket r cps)"
  shows "length (prefix_heads R head) = R + 1" and "r \<le> R \<Longrightarrow> prefix_heads R head ! r = base r cps"
proof -
  define f where "f k = fold (\<lambda>r h. h[r := h ! r + h ! (r - 1)]) [1 ..< k + 1] head" for k
  have f: "f 0 = head" "\<And>k. f (Suc k) = (f k)[Suc k := f k ! Suc k + f k ! k]" by (simp_all add: f_def)
  have "length (f k) = R + 1 \<and> (\<forall>r \<le> R. f k ! r = (if r \<le> k then base r cps else head ! r))" if "k \<le> R" for k
    using that
  proof (induction k)
    case 0
    then show ?case using len z by (auto simp: f)
  next
    case (Suc k)
    then have "f k ! Suc k = length (bucket k cps)" "f k ! k = base k cps" using cnt [of k] by auto
    then show ?case using Suc by (auto simp: f base_Suc nth_list_update le_Suc_eq)
  qed
  from this [of R] show "length (prefix_heads R head) = R + 1" "r \<le> R \<Longrightarrow> prefix_heads R head ! r = base r cps"
    by (simp_all add: prefix_heads_def f_def)
qed

text \<open>After a prefix \<open>ys\<close> every bucket holds its chunks of \<open>ys\<close> from its base on.\<close>

definition scattered :: "nat \<Rightarrow> chunk_plan list \<Rightarrow> chunk_plan list \<Rightarrow> nat list \<Rightarrow> chunk_plan list \<Rightarrow> bool" where
  "scattered R cps ys head scratch \<longleftrightarrow> length head = R + 1 \<and> length cps \<le> length scratch \<and>
     (\<forall>r < R. head ! r = base r cps + length (bucket r ys) \<and>
        (\<forall>j < length (bucket r ys). scratch ! (base r cps + j) = bucket r ys ! j))"

lemma bucket_slots_disjoint:
  assumes "r < s" and "j < length (bucket r cps)"
  shows "base r cps + j < base s cps"
  using base_mono [of "Suc r" s cps] assms by (simp add: base_Suc)

lemma scatter_step:
  assumes s: "scattered R cps ys head scratch" and cps: "cps = ys @ cp # zs" and R: "cp_read_op_idx cp < R"
    and res: "scatter_chunk cp (head, scratch) = (head', scratch')"
  shows "scattered R cps (ys @ [cp]) head' scratch'"
proof -
  let ?r = "cp_read_op_idx cp"
  let ?slot = "base ?r cps + length (bucket ?r ys)"
  have head': "head' = head[?r := ?slot + 1]" and scratch': "scratch' = scratch[?slot := cp]"
    using s R res by (auto simp: scattered_def scatter_chunk_def Let_def)
  have lt: "length (bucket ?r ys) < length (bucket ?r cps)" using cps by simp
  have slot: "?slot < length scratch"
    using bucket_slots_disjoint [OF lessI lt] s base_le [of "Suc ?r" cps] by (simp add: scattered_def)
  have other: "?slot \<noteq> base q cps + j" if "q \<noteq> ?r" "j < length (bucket q ys)" for q j
  proof -
    have "j < length (bucket q cps)" using that(2) cps by simp
    then show ?thesis
      using bucket_slots_disjoint [of q ?r j cps] bucket_slots_disjoint [of ?r q "length (bucket ?r ys)" cps] lt that(1)
      by (cases q ?r rule: linorder_cases) auto
  qed
  have "head' ! q = base q cps + length (bucket q (ys @ [cp])) \<and>
      (\<forall>j < length (bucket q (ys @ [cp])). scratch' ! (base q cps + j) = bucket q (ys @ [cp]) ! j)" if "q < R" for q
  proof (cases "q = ?r")
    case True
    then show ?thesis using s that R slot
      by (auto simp: scattered_def head' scratch' nth_list_update nth_append less_Suc_eq)
  next
    case False
    then show ?thesis using s that other [of q] by (auto simp: scattered_def head' scratch')
  qed
  then show ?thesis using s by (simp add: scattered_def head' scratch')
qed

lemma scatter_all:
  assumes "scattered R cps ys head scratch" and "cps = ys @ zs" and "\<forall>cp \<in> set cps. cp_read_op_idx cp < R"
  shows "\<exists>head' scratch'. fold scatter_chunk zs (head, scratch) = (head', scratch') \<and> scattered R cps cps head' scratch'"
  using assms
proof (induction zs arbitrary: ys head scratch)
  case (Cons cp zs)
  obtain h' s' where st: "scatter_chunk cp (head, scratch) = (h', s')" by fastforce
  have "scattered R cps (ys @ [cp]) h' s'" using scatter_step [OF Cons.prems(1,2) _ st] Cons.prems by simp
  then show ?case using Cons.IH [of "ys @ [cp]"] Cons.prems st by simp
qed auto

lemma scattered_sorts:
  assumes s: "scattered R cps cps head scratch" and R: "\<forall>cp \<in> set cps. cp_read_op_idx cp < R"
  shows "take (length cps) scratch = sort_key cp_read_op_idx cps"
proof -
  have "take (base r cps) scratch = concat (map (\<lambda>r. bucket r cps) [0 ..< r])" if "r \<le> R" for r
    using that
  proof (induction r)
    case (Suc r)
    have b: "base (Suc r) cps \<le> length scratch"
      using s base_le [of "Suc r" cps] by (simp add: scattered_def)
    have "take (length (bucket r cps)) (drop (base r cps) scratch) = bucket r cps"
      using s Suc.prems b by (intro nth_equalityI) (auto simp: scattered_def base_Suc)
    then have "take (base (Suc r) cps) scratch = take (base r cps) scratch @ bucket r cps"
      by (simp add: base_Suc take_add)
    then show ?case using Suc by simp
  qed simp
  from this [of R] show ?thesis using sort_key_buckets [OF R] base_all [OF R] by simp
qed

section \<open>The groups\<close>

text \<open>What the function must produce for the reads \<open>0..<R\<close>: one group per read that has chunks, with the
  place, the number and the decompressed size of its chunks in the sorted list.\<close>

definition read_group :: "chunk_plan list \<Rightarrow> nat \<Rightarrow> read_op_group" where
  "read_group cps r =
     \<lparr>rg_read_op_idx = r, rg_first_chunk = base r cps, rg_n_chunks = length (bucket r cps),
      rg_total_decompressed = sum_list (map cp_decompressed_nbytes (bucket r cps))\<rparr>"

lemma sort_key_slice:
  assumes R: "\<forall>cp \<in> set cps. cp_read_op_idx cp < R" and r: "r < R"
  shows "take (length (bucket r cps)) (drop (base r cps) (sort_key cp_read_op_idx cps @ rest)) = bucket r cps"
proof -
  have len: "length (concat (map (\<lambda>r. bucket r cps) [0 ..< r])) = base r cps" for r
    by (induction r) (auto simp: base_Suc)
  have "[0 ..< R] = [0 ..< r] @ r # [Suc r ..< R]" using r upt_add_eq_append [of 0 r "R - r"] by (simp add: upt_conv_Cons)
  then have "sort_key cp_read_op_idx cps =
      concat (map (\<lambda>r. bucket r cps) [0 ..< r]) @ bucket r cps @ concat (map (\<lambda>r. bucket r cps) [Suc r ..< R])"
    unfolding sort_key_buckets [OF R, symmetric] by simp
  then show ?thesis using len [of r] by simp
qed

lemma fold_sum_exact:
  assumes "s + sum_list (map f xs) < 2 ^ 64"
  shows "fold (\<lambda>x sum. u64_add sum (f x)) xs s = s + sum_list (map f xs)"
  using assms
proof (induction xs arbitrary: s)
  case (Cons x xs)
  then show ?case using Cons.IH [of "s + f x"] by (simp add: u64_add_exact add.assoc)
qed simp

lemma group_total_slice:
  assumes slice: "take n (drop b cps) = ys" and n: "n = length ys" and small: "sum_list (map cp_decompressed_nbytes ys) < 2 ^ 64"
    and g: "rg_first_chunk g = b" "rg_n_chunks g = n"
  shows "group_total cps g = g \<lparr>rg_total_decompressed := sum_list (map cp_decompressed_nbytes ys)\<rparr>"
proof -
  have len: "b + n \<le> length cps \<or> n = 0" using arg_cong [OF slice, of length] n by (cases ys) auto
  have nth: "cps ! (b + i) = ys ! i" if "i < n" for i using that len by (simp add: slice [symmetric])
  have "map (\<lambda>i. cp_decompressed_nbytes (cps ! (b + i))) [0 ..< n] = map cp_decompressed_nbytes ys"
    using nth n by (intro nth_equalityI) auto
  then show ?thesis using small g fold_sum_exact [of 0 "\<lambda>i. cp_decompressed_nbytes (cps ! (b + i))" "[0 ..< n]"]
    by (simp add: group_total_def)
qed

lemma sum_list_filter_le: "sum_list (map f (filter P xs)) \<le> sum_list (map f xs :: nat list)"
  by (induction xs) auto

lemma make_groups_result:
  assumes R: "\<forall>cp \<in> set cps. cp_read_op_idx cp < R" and h: "\<And>r. r \<le> R \<Longrightarrow> head ! r = base r cps"
    and small: "sum_list (map cp_decompressed_nbytes cps) < 2 ^ 64"
  shows "map (group_total (sort_key cp_read_op_idx cps @ rest)) (make_groups R head) =
         map (read_group cps) (filter (\<lambda>r. bucket r cps \<noteq> []) [0 ..< R])"
proof -
  have f: "filter (\<lambda>r. head ! r \<noteq> head ! (r + 1)) [0 ..< R] = filter (\<lambda>r. bucket r cps \<noteq> []) [0 ..< R]"
    using h by (intro filter_cong) (auto simp: base_Suc)
  have "group_total (sort_key cp_read_op_idx cps @ rest)
      \<lparr>rg_read_op_idx = r, rg_first_chunk = head ! r, rg_n_chunks = head ! (r + 1) - head ! r, rg_total_decompressed = 0\<rparr> =
      read_group cps r" if "r < R" for r
  proof (subst group_total_slice [OF sort_key_slice [OF R that] refl])
    show "sum_list (map cp_decompressed_nbytes (bucket r cps)) < 2 ^ 64"
      using sum_list_filter_le small by (rule le_less_trans)
  qed (use that h in \<open>simp_all add: base_Suc read_group_def\<close>)
  then show ?thesis unfolding make_groups_def f by simp
qed

lemma group_chunks_by_read_result:
  assumes o: "do_chunk_plans out = Some (cps @ rest)" "do_n_chunk_plans out = length cps" "do_n_read_ops out = R"
      "do_read_op_groups out = Some groups" "R \<le> do_read_op_groups_cap out"
    and n: "cps \<noteq> []" "0 < R" "length cps \<le> length scratch"
    and R: "\<forall>cp \<in> set cps. cp_read_op_idx cp < R"
    and small: "sum_list (map cp_decompressed_nbytes cps) < 2 ^ 64"
  defines "gs \<equiv> map (read_group cps) (filter (\<lambda>r. bucket r cps \<noteq> []) [0 ..< R])"
  shows "group_chunks_by_read out True (Some scratch) =
      (DAMACY_OK, out \<lparr>do_n_read_op_groups := length gs, do_chunk_plans := Some (sort_key cp_read_op_idx cps @ rest),
                       do_read_op_groups := Some (gs @ drop (length gs) groups)\<rparr>)"
proof -
  obtain head where h: "count_heads R cps (replicate (R + 1) 0) = Some head" "length head = R + 1" "head ! 0 = 0"
    "\<And>r. r < R \<Longrightarrow> head ! (r + 1) = length (bucket r cps)"
    using count_heads_result [OF R, of "replicate (R + 1) 0"] by (auto simp del: replicate_Suc)
  note p = prefix_heads_result [OF h(2-4)]
  have "scattered R cps [] (prefix_heads R head) scratch" using p n by (simp add: scattered_def)
  from scatter_all [OF this _ R] obtain head' scratch' where
    sc: "fold scatter_chunk cps (prefix_heads R head, scratch) = (head', scratch')" "scattered R cps cps head' scratch'" by auto
  have sorted: "(if length cps \<ge> 2 then take (length cps) scratch' else cps) = sort_key cp_read_op_idx cps"
  proof (cases "length cps \<ge> 2")
    case False
    then obtain cp where "cps = [cp]" using n(1) by (cases cps rule: remdups_adj.cases) auto
    then show ?thesis by simp
  qed (use scattered_sorts [OF sc(2) R] in simp)
  have gs: "map (group_total (sort_key cp_read_op_idx cps @ rest)) (make_groups R (prefix_heads R head)) = gs"
    unfolding gs_def by (rule make_groups_result [OF R p(2) small])
  then have "length (make_groups R (prefix_heads R head)) = length gs" by (metis length_map)
  then show ?thesis
    using o n h(1) sc(1) sorted gs unfolding group_chunks_by_read_def
    by (simp add: Let_def split: if_splits)
qed

text \<open>C32. Grouping sorts the chunk plans stably by their read (it equals the library's \<open>sort_key\<close>) and
  produces exactly one group per read that has chunks, in the order of the reads, with the position, the
  number and the total decompressed size of that read's chunks.\<close>

theorem group_chunks_by_read_sorts:
  assumes "do_chunk_plans out = Some (cps @ rest)" and "do_n_chunk_plans out = length cps" and "do_n_read_ops out = R"
    and "do_read_op_groups out = Some groups" and "R \<le> do_read_op_groups_cap out"
    and "cps \<noteq> []" and "0 < R" and "length cps \<le> length scratch"
    and "\<forall>cp \<in> set cps. cp_read_op_idx cp < R" and "sum_list (map cp_decompressed_nbytes cps) < 2 ^ 64"
  shows "\<exists>out'. group_chunks_by_read out True (Some scratch) = (DAMACY_OK, out') \<and>
           do_chunk_plans out' = Some (sort_key cp_read_op_idx cps @ rest) \<and>
           take (do_n_read_op_groups out') (the (do_read_op_groups out')) =
             map (read_group cps) (filter (\<lambda>r. bucket r cps \<noteq> []) [0 ..< R])"
  unfolding group_chunks_by_read_result [OF assms] by simp

definition group_demo_chunk :: "nat \<Rightarrow> nat \<Rightarrow> chunk_plan" where
  "group_demo_chunk r bytes =
     \<lparr>cp_read_op_idx = r, cp_offset_in_read = 0, cp_compressed_nbytes = 8, cp_decompressed_nbytes = bytes,
      cp_host_buf_offset = 0, cp_dev_decompressed_offset = 0, cp_gather_offset = 0, cp_batch_pool_slot = 0,
      cp_sample_idx_in_batch = 0, cp_codec_id = CODEC_ZSTD, cp_is_fill = False, cp_chunk_d = []\<rparr>"

definition group_demo :: dispatch_output where
  "group_demo =
     \<lparr>do_read_ops = Some [read_op0, read_op0, read_op0], do_read_ops_cap = 3, do_n_read_ops = 3,
      do_chunk_plans = Some [group_demo_chunk 2 5, group_demo_chunk 0 6, group_demo_chunk 2 7],
      do_chunk_plans_cap = 3, do_n_chunk_plans = 3, do_sample_plans = [], do_sample_plans_cap = 0, do_n_sample_plans = 0,
      do_read_op_groups = Some [], do_read_op_groups_cap = 3, do_n_read_op_groups = 0, do_indices = None, do_indices_cap = 0,
      do_n_indices = 0, do_gather_dims = [], do_gather_dims_cap = 0, do_n_gather_dims = 0, do_n_chunks_to_load = 0,
      do_n_loads_issued = 0\<rparr>"

theorem group_chunks_by_read_sorts_witness:
  "\<exists>out'. group_chunks_by_read group_demo True (Some (replicate 3 (group_demo_chunk 9 9))) = (DAMACY_OK, out') \<and>
      do_chunk_plans out' = Some (sort_key cp_read_op_idx (the (do_chunk_plans group_demo))) \<and>
      take (do_n_read_op_groups out') (the (do_read_op_groups out')) =
        map (read_group (the (do_chunk_plans group_demo)))
          (filter (\<lambda>r. bucket r (the (do_chunk_plans group_demo)) \<noteq> []) [0 ..< 3])"
  using group_chunks_by_read_sorts [of group_demo "the (do_chunk_plans group_demo)" "[]" 3 "[]" "replicate 3 (group_demo_chunk 9 9)"]
  by (simp add: group_demo_def group_demo_chunk_def)

text \<open>A chunk plan that names a read beyond the batch's reads makes grouping fail with DAMACY\_INVAL,
  before any chunk plan or group is written.\<close>

theorem group_chunks_by_read_rejects:
  assumes "do_chunk_plans out = Some cps" and "do_n_chunk_plans out = length cps"
    and "do_read_op_groups out \<noteq> None" and "do_n_read_ops out \<le> do_read_op_groups_cap out"
    and "0 < do_n_read_ops out" and "\<exists>cp \<in> set cps. do_n_read_ops out \<le> cp_read_op_idx cp"
  shows "group_chunks_by_read out True (Some scratch) = (DAMACY_INVAL, out \<lparr>do_n_read_op_groups := 0\<rparr>)"
proof -
  have "cps \<noteq> []" using assms(6) by auto
  then show ?thesis
    using assms count_heads_out_of_range [OF assms(6), of "replicate (do_n_read_ops out + 1) 0"]
    by (auto simp: group_chunks_by_read_def Let_def)
qed

theorem group_chunks_by_read_rejects_witness:
  "group_chunks_by_read (group_demo \<lparr>do_n_read_ops := 2\<rparr>) True (Some []) =
     (DAMACY_INVAL, group_demo \<lparr>do_n_read_ops := 2, do_n_read_op_groups := 0\<rparr>)"
  using group_chunks_by_read_rejects [of "group_demo \<lparr>do_n_read_ops := 2\<rparr>" "the (do_chunk_plans group_demo)" "[]"]
  by (simp add: group_demo_def group_demo_chunk_def)

end
