(* ===== verification/Lookahead.thy ===== *)
theory Lookahead
  imports Selection_Correct
begin

text \<open>
  The ring of pending samples, src/src/lookahead/lookahead.c. Every operation runs under the ring's mutex,
  so it is one state transition; a wait on the condition variable releases the mutex, and what the other
  threads did meanwhile is a parameter: the state found at the wake-up. The locale \<open>bounded_queue\<close> is the
  contract of a bounded FIFO queue; the ring interprets it.
\<close>

section \<open>The contract of a bounded queue\<close>

datatype 'i queue_op = Put 'i | Get

text \<open>A sequence of operations: the inputs that were accepted, the values taken, and the final state.\<close>

fun queue_run :: "('q \<Rightarrow> 'i \<Rightarrow> 'q option) \<Rightarrow> ('q \<Rightarrow> ('a \<times> 'q) option) \<Rightarrow> 'q \<Rightarrow> 'i queue_op list \<Rightarrow> 'i list \<times> 'a list \<times> 'q" where
  "queue_run put get q [] = ([], [], q)"
| "queue_run put get q (Put i # ops) =
     (case put q i of
        None \<Rightarrow> queue_run put get q ops
      | Some q' \<Rightarrow> (case queue_run put get q' ops of (acc, got, r) \<Rightarrow> (i # acc, got, r)))"
| "queue_run put get q (Get # ops) =
     (case get q of
        None \<Rightarrow> queue_run put get q ops
      | Some (a, q') \<Rightarrow> (case queue_run put get q' ops of (acc, got, r) \<Rightarrow> (acc, a # got, r)))"

locale bounded_queue =
  fixes inv :: "'q \<Rightarrow> bool" and abs :: "'q \<Rightarrow> 'a list" and capacity :: "'q \<Rightarrow> nat"
    and put :: "'q \<Rightarrow> 'i \<Rightarrow> 'q option" and val :: "'i \<Rightarrow> 'a" and get :: "'q \<Rightarrow> ('a \<times> 'q) option"
  assumes put_some: "inv q \<Longrightarrow> put q i = Some q' \<Longrightarrow> inv q' \<and> abs q' = abs q @ [val i] \<and> capacity q' = capacity q"
    and get_some: "inv q \<Longrightarrow> get q = Some (a, q') \<Longrightarrow> inv q' \<and> abs q = a # abs q' \<and> capacity q' = capacity q"
    and get_none: "inv q \<Longrightarrow> get q = None \<longleftrightarrow> abs q = []"
    and bounded: "inv q \<Longrightarrow> length (abs q) \<le> capacity q"
begin

lemma run_fifo:
  assumes "inv q" and "queue_run put get q ops = (acc, got, r)"
  shows "inv r \<and> abs q @ map val acc = got @ abs r \<and> capacity r = capacity q"
  using assms
proof (induction ops arbitrary: q acc got)
  case (Cons op ops)
  show ?case
  proof (cases op)
    case (Put i)
    show ?thesis
    proof (cases "put q i")
      case None
      then show ?thesis using Cons Put by simp
    next
      case (Some q')
      obtain acc' where "queue_run put get q' ops = (acc', got, r)" "acc = i # acc'"
        using Cons.prems(2) Put Some by (auto split: prod.splits)
      then show ?thesis using Cons.IH [of q' acc' got] put_some [OF Cons.prems(1) Some] by auto
    qed
  next
    case Get
    show ?thesis
    proof (cases "get q")
      case None
      then show ?thesis using Cons Get by simp
    next
      case (Some x)
      then obtain a q' where x: "get q = Some (a, q')" by (cases x) auto
      then obtain got' where "queue_run put get q' ops = (acc, got', r)" "got = a # got'"
        using Cons.prems(2) Get by (auto split: prod.splits)
      then show ?thesis using Cons.IH [of q' acc got'] get_some [OF Cons.prems(1) x] by auto
    qed
  qed
qed simp

text \<open>Taking until nothing is left returns the whole queue.\<close>

lemma drain_all: "inv q \<Longrightarrow> length (abs q) \<le> n \<Longrightarrow> \<exists>r. queue_run put get q (replicate n Get) = ([], abs q, r) \<and> abs r = []"
proof (induction n arbitrary: q)
  case (Suc n)
  show ?case
  proof (cases "get q")
    case None
    then show ?thesis using Suc.IH [OF Suc.prems(1)] get_none [OF Suc.prems(1)] by simp
  next
    case (Some x)
    then obtain a q' where x: "get q = Some (a, q')" by (cases x) auto
    then show ?thesis using Suc.IH [of q'] Suc.prems get_some [OF Suc.prems(1) x] by auto
  qed
qed simp

end

section \<open>The ring\<close>

record damacy_sample_slot =
  ss_uri :: "string option"
  ss_aabb :: damacy_aabb
  ss_axes :: "query_axis list"
  ss_sample_seq :: nat

definition sample_slot0 :: damacy_sample_slot where
  "sample_slot0 =
     \<lparr>ss_uri = None, ss_aabb = \<lparr>aabb_dims = [], aabb_rank = 0\<rparr>,
      ss_axes = replicate DAMACY_MAX_RANK \<lparr>qa_indices = [], qa_count = 0\<rparr>, ss_sample_seq = 0\<rparr>"

record damacy_lookahead =
  la_slots :: "damacy_sample_slot list option"
  la_cap :: nat
  la_head :: nat
  la_tail :: nat
  la_size :: nat
  la_stop_signaled :: bool

text \<open>Clearing a slot; the storage it frees is returned.\<close>

definition sample_slot_clear :: "damacy_sample_slot \<Rightarrow> string option \<times> damacy_sample_slot" where
  "sample_slot_clear slot = (ss_uri slot, sample_slot0)"

definition lookahead_destroy :: "damacy_lookahead \<Rightarrow> string list \<times> damacy_lookahead" where
  "lookahead_destroy la =
     (case la_slots la of
        None \<Rightarrow> ([], la)
      | Some slots \<Rightarrow>
          (List.map_filter (\<lambda>i. fst (sample_slot_clear (slots ! i))) [0 ..< la_cap la], la \<lparr>la_slots := None\<rparr>))"

text \<open>The three allocations of \<open>lookahead_init\<close> are parameters.\<close>

definition lookahead_init :: "bool \<Rightarrow> bool \<Rightarrow> bool \<Rightarrow> nat \<Rightarrow> damacy_lookahead option" where
  "lookahead_init calloc_ok mutex_ok cond_ok cap =
     (if cap = 0 \<or> \<not> calloc_ok \<or> \<not> mutex_ok \<or> \<not> cond_ok then None
      else Some \<lparr>la_slots = Some (replicate cap sample_slot0), la_cap = cap, la_head = 0, la_tail = 0, la_size = 0,
                 la_stop_signaled = False\<rparr>)"

text \<open>A failed copy may leave bounds in the free slot, which nothing reads before the next push overwrites them.\<close>

definition lookahead_push_with_sample_seq ::
    "(nat \<Rightarrow> bool) \<Rightarrow> damacy_lookahead \<Rightarrow> damacy_sample option \<Rightarrow> nat \<Rightarrow> nat \<times> damacy_lookahead" where
  "lookahead_push_with_sample_seq alloc_ok la sample sample_seq =
     (case sample of
        None \<Rightarrow> (1, la)
      | Some s \<Rightarrow>
          if sample_uri s = None then (1, la)
          else if la_size la = la_cap la then (1, la)
          else (case query_copy alloc_ok sample of
                  Inl status \<Rightarrow> (1, la)
                | Inr (uri, aabb, axes) \<Rightarrow>
                    (0, la \<lparr>la_slots := Some ((the (la_slots la))[la_tail la :=
                              \<lparr>ss_uri = Some uri, ss_aabb = aabb, ss_axes = axes, ss_sample_seq = sample_seq\<rparr>]),
                            la_tail := (la_tail la + 1) mod la_cap la,
                            la_size := la_size la + 1\<rparr>)))"

definition lookahead_push :: "(nat \<Rightarrow> bool) \<Rightarrow> damacy_lookahead \<Rightarrow> damacy_sample option \<Rightarrow> nat \<times> damacy_lookahead" where
  "lookahead_push alloc_ok la sample = lookahead_push_with_sample_seq alloc_ok la sample 0"

definition pop_one_locked :: "damacy_lookahead \<Rightarrow> damacy_sample_slot \<times> damacy_lookahead" where
  "pop_one_locked la =
     (the (la_slots la) ! la_head la,
      la \<lparr>la_slots := Some ((the (la_slots la))[la_head la := sample_slot0]),
          la_head := (la_head la + 1) mod la_cap la,
          la_size := la_size la - 1\<rparr>)"

fun drain_loop :: "nat \<Rightarrow> damacy_lookahead \<Rightarrow> damacy_sample_slot list \<times> damacy_lookahead" where
  "drain_loop 0 la = ([], la)"
| "drain_loop (Suc n) la =
     (let (slot, la) = pop_one_locked la; (slots, la) = drain_loop n la in (slot # slots, la))"

definition lookahead_drain :: "damacy_lookahead \<Rightarrow> nat \<Rightarrow> damacy_sample_slot list \<times> damacy_lookahead" where
  "lookahead_drain la n = drain_loop (if n < la_size la then n else la_size la) la"

definition lookahead_try_pop :: "damacy_lookahead \<Rightarrow> (damacy_sample_slot \<times> damacy_lookahead) option" where
  "lookahead_try_pop la = (if la_size la > 0 then Some (pop_one_locked la) else None)"

text \<open>\<open>wake i\<close> is the state at the \<open>i\<close>-th wake-up. The loop of the blocking pop; \<open>None\<close> is still waiting.\<close>

fun wait_loop :: "nat \<Rightarrow> (nat \<Rightarrow> damacy_lookahead) \<Rightarrow> nat \<Rightarrow> damacy_lookahead \<Rightarrow> damacy_lookahead option" where
  "wait_loop 0 wake i la = (if la_size la = 0 \<and> \<not> la_stop_signaled la then None else Some la)"
| "wait_loop (Suc fuel) wake i la =
     (if la_size la = 0 \<and> \<not> la_stop_signaled la then wait_loop fuel wake (i + 1) (wake i) else Some la)"

definition lookahead_pop_blocking ::
    "nat \<Rightarrow> (nat \<Rightarrow> damacy_lookahead) \<Rightarrow> damacy_lookahead \<Rightarrow> (damacy_sample_slot option \<times> damacy_lookahead) option" where
  "lookahead_pop_blocking fuel wake la =
     map_option (\<lambda>la. if la_size la > 0 then map_prod Some id (pop_one_locked la) else (None, la)) (wait_loop fuel wake 0 la)"

definition lookahead_pop_blocking_timeout ::
    "damacy_lookahead \<Rightarrow> damacy_lookahead \<Rightarrow> damacy_sample_slot option \<times> damacy_lookahead" where
  "lookahead_pop_blocking_timeout wake la =
     (let la = (if la_size la = 0 \<and> \<not> la_stop_signaled la then wake else la)
      in if la_size la > 0 then map_prod Some id (pop_one_locked la) else (None, la))"

definition lookahead_wait_nonempty_timeout ::
    "nat \<Rightarrow> (nat \<Rightarrow> damacy_lookahead) \<Rightarrow> damacy_lookahead \<Rightarrow> int \<Rightarrow> (bool \<times> damacy_lookahead) option" where
  "lookahead_wait_nonempty_timeout fuel wake la timeout_ms =
     map_option (\<lambda>la. (la_size la > 0, la))
       (if timeout_ms < 0 then wait_loop fuel wake 0 la
        else if la_size la = 0 \<and> \<not> la_stop_signaled la then Some (wake 0)
        else Some la)"

definition lookahead_signal_stop :: "damacy_lookahead \<Rightarrow> damacy_lookahead" where
  "lookahead_signal_stop la = la \<lparr>la_stop_signaled := True\<rparr>"

definition lookahead_size :: "damacy_lookahead \<Rightarrow> nat" where
  "lookahead_size la = la_size la"

section \<open>The ring is a bounded queue\<close>

definition la_inv :: "damacy_lookahead \<Rightarrow> bool" where
  "la_inv la \<longleftrightarrow> (\<exists>slots. la_slots la = Some slots \<and> length slots = la_cap la \<and> 0 < la_cap la \<and>
     la_head la < la_cap la \<and> la_size la \<le> la_cap la \<and> la_tail la = (la_head la + la_size la) mod la_cap la \<and>
     (\<forall>i. la_size la \<le> i \<and> i < la_cap la \<longrightarrow> slots ! ((la_head la + i) mod la_cap la) = sample_slot0))"

definition la_queue :: "damacy_lookahead \<Rightarrow> damacy_sample_slot list" where
  "la_queue la = map (\<lambda>i. the (la_slots la) ! ((la_head la + i) mod la_cap la)) [0 ..< la_size la]"

definition slot_of :: "(nat \<Rightarrow> bool) \<Rightarrow> damacy_sample option \<times> nat \<Rightarrow> damacy_sample_slot" where
  "slot_of alloc_ok = (\<lambda>(sample, seq).
     case query_copy alloc_ok sample of
       Inl _ \<Rightarrow> sample_slot0
     | Inr (uri, aabb, axes) \<Rightarrow> \<lparr>ss_uri = Some uri, ss_aabb = aabb, ss_axes = axes, ss_sample_seq = seq\<rparr>)"

definition lookahead_put :: "(nat \<Rightarrow> bool) \<Rightarrow> damacy_lookahead \<Rightarrow> damacy_sample option \<times> nat \<Rightarrow> damacy_lookahead option" where
  "lookahead_put alloc_ok la = (\<lambda>(sample, seq).
     case lookahead_push_with_sample_seq alloc_ok la sample seq of (rc, la') \<Rightarrow> if rc = 0 then Some la' else None)"

lemma la_push_result:
  assumes inv: "la_inv la" and push: "lookahead_push_with_sample_seq alloc_ok la sample seq = (0, la')"
  shows "la_inv la' \<and> la_queue la' = la_queue la @ [slot_of alloc_ok (sample, seq)] \<and> la_cap la' = la_cap la"
proof -
  let ?c = "la_cap la" and ?h = "la_head la" and ?n = "la_size la"
  obtain slots where sl: "la_slots la = Some slots" "length slots = ?c" "0 < ?c" "?h < ?c" "?n \<le> ?c"
      "la_tail la = (?h + ?n) mod ?c" "\<And>i. ?n \<le> i \<Longrightarrow> i < ?c \<Longrightarrow> slots ! ((?h + i) mod ?c) = sample_slot0"
    using inv by (auto simp: la_inv_def)
  let ?new = "slot_of alloc_ok (sample, seq)"
  let ?slots = "slots[(?h + ?n) mod ?c := ?new]"
  have n: "?n < ?c" and la': "la' = la \<lparr>la_slots := Some ?slots, la_tail := ((?h + ?n) mod ?c + 1) mod ?c, la_size := ?n + 1\<rparr>"
    using push sl by (auto simp: lookahead_push_with_sample_seq_def slot_of_def split: option.splits sum.splits if_splits)
  have at: "?slots ! ((?h + i) mod ?c) = (if i = ?n then ?new else slots ! ((?h + i) mod ?c))" if "i < ?c" for i
    using that n sl(2,3) ring_add_inj [of i ?c ?n ?h] by (auto simp: nth_list_update)
  have "la_queue la' = la_queue la @ [?new]"
    using at n sl(1) by (simp add: la_queue_def la')
  moreover have "la_inv la'"
    unfolding la_inv_def using at n sl by (auto simp: la' mod_Suc_eq)
  ultimately show ?thesis by (simp add: la')
qed

lemma la_pop_result:
  assumes inv: "la_inv la" and n: "0 < la_size la" and pop: "pop_one_locked la = (slot, la')"
  shows "la_inv la' \<and> la_queue la = slot # la_queue la' \<and> la_cap la' = la_cap la"
proof -
  let ?c = "la_cap la" and ?h = "la_head la" and ?n = "la_size la"
  obtain slots where sl: "la_slots la = Some slots" "length slots = ?c" "0 < ?c" "?h < ?c" "?n \<le> ?c"
      "la_tail la = (?h + ?n) mod ?c" "\<And>i. ?n \<le> i \<Longrightarrow> i < ?c \<Longrightarrow> slots ! ((?h + i) mod ?c) = sample_slot0"
    using inv by (auto simp: la_inv_def)
  let ?slots = "slots[?h := sample_slot0]"
  have la': "slot = slots ! ?h" "la' = la \<lparr>la_slots := Some ?slots, la_head := (?h + 1) mod ?c, la_size := ?n - 1\<rparr>"
    using pop sl by (auto simp: pop_one_locked_def)
  have shift: "((?h + 1) mod ?c + i) mod ?c = (?h + Suc i) mod ?c" for i by (simp add: mod_simps)
  have at: "?slots ! ((?h + i) mod ?c) = (if i = 0 then sample_slot0 else slots ! ((?h + i) mod ?c))" if "i < ?c" for i
    using that sl(2-4) ring_add_inj [of i ?c 0 ?h] by (auto simp: nth_list_update)
  have "la_queue la = map (\<lambda>i. slots ! ((?h + i) mod ?c)) (0 # map Suc [0 ..< ?n - 1])"
    using n sl(1) by (simp add: la_queue_def map_Suc_upt upt_conv_Cons)
  also have "\<dots> = slot # la_queue la'"
  proof -
    have "slots ! ((?h + Suc i) mod ?c) = ?slots ! (((?h + 1) mod ?c + i) mod ?c)" if "i < ?n - 1" for i
      unfolding shift using at [of "Suc i"] that sl(5) by simp
    then show ?thesis using sl(4) by (simp add: la' la_queue_def)
  qed
  finally have q: "la_queue la = slot # la_queue la'" .
  have free: "?slots ! ((?h + Suc i) mod ?c) = sample_slot0" if "?n - 1 \<le> i" "i < ?c" for i
  proof (cases "Suc i = ?c")
    case True
    then show ?thesis using sl(2,4) by simp
  next
    case False
    then show ?thesis using that at [of "Suc i"] sl(7) [of "Suc i"] n by simp
  qed
  have "la_tail la = ((?h + 1) mod ?c + (?n - 1)) mod ?c" unfolding shift using sl(6) n by simp
  moreover have "?slots ! (((?h + 1) mod ?c + i) mod ?c) = sample_slot0" if "?n - 1 \<le> i" "i < ?c" for i
    unfolding shift using that by (rule free)
  ultimately have "la_inv la'"
    unfolding la_inv_def using sl(1-5) n by (intro exI [of _ ?slots]) (auto simp: la')
  then show ?thesis using q by (simp add: la')
qed

lemma la_queue_length [simp]: "length (la_queue la) = la_size la"
  by (simp add: la_queue_def)

interpretation lookahead_queue: bounded_queue la_inv la_queue la_cap "lookahead_put alloc_ok" "slot_of alloc_ok" lookahead_try_pop
  for alloc_ok
proof
  fix q :: damacy_lookahead and i :: "damacy_sample option \<times> nat" and q' a
  assume inv: "la_inv q"
  show "lookahead_put alloc_ok q i = Some q' \<Longrightarrow>
      la_inv q' \<and> la_queue q' = la_queue q @ [slot_of alloc_ok i] \<and> la_cap q' = la_cap q"
    using la_push_result [OF inv] by (cases i) (auto simp: lookahead_put_def split: prod.splits if_splits)
  show "lookahead_try_pop q = Some (a, q') \<Longrightarrow> la_inv q' \<and> la_queue q = a # la_queue q' \<and> la_cap q' = la_cap q"
    using la_pop_result [OF inv] by (auto simp: lookahead_try_pop_def split: if_splits)
  show "lookahead_try_pop q = None \<longleftrightarrow> la_queue q = []"
    by (simp add: lookahead_try_pop_def la_queue_def)
  show "length (la_queue q) \<le> la_cap q" using inv by (auto simp: la_inv_def)
qed

lemma lookahead_init_inv:
  assumes "lookahead_init a b c cap = Some la"
  shows "la_inv la \<and> la_queue la = [] \<and> la_cap la = cap \<and> \<not> la_stop_signaled la"
  using assms by (auto simp: lookahead_init_def la_inv_def la_queue_def split: if_splits)

text \<open>C25. The ring is a bounded FIFO queue: after any sequence of pushes and pops on a fresh ring, the samples
  popped followed by the samples still queued are exactly the copies of the accepted samples, in the order
  they were pushed, and never more than the capacity are queued.\<close>

theorem lookahead_fifo:
  assumes "lookahead_init calloc_ok mutex_ok cond_ok cap = Some la"
    and "queue_run (lookahead_put alloc_ok) lookahead_try_pop la ops = (accepted, popped, la')"
  shows "map (slot_of alloc_ok) accepted = popped @ la_queue la' \<and> la_size la' \<le> cap \<and> la_inv la'"
  using lookahead_queue.run_fifo [OF _ assms(2)] lookahead_queue.bounded [of la'] lookahead_init_inv [OF assms(1)] by auto

definition lookahead_demo :: damacy_lookahead where
  "lookahead_demo = the (lookahead_init True True True 2)"

definition lookahead_demo_run where
  "lookahead_demo_run =
     queue_run (lookahead_put (\<lambda>_. True)) lookahead_try_pop lookahead_demo
       [Put (Some sel_demo, 7), Get, Put (None, 0), Put (Some sel_demo, 8)]"

lemma lookahead_demo_accepts: "map snd (fst lookahead_demo_run) = [7, 8]"
  by code_simp

theorem lookahead_fifo_witness:
  "map (slot_of (\<lambda>_. True)) (fst lookahead_demo_run) =
     fst (snd lookahead_demo_run) @ la_queue (snd (snd lookahead_demo_run)) \<and>
   map snd (fst lookahead_demo_run) = [7, 8]"
proof -
  have la: "lookahead_init True True True 2 = Some lookahead_demo" by (simp add: lookahead_demo_def lookahead_init_def)
  have "queue_run (lookahead_put (\<lambda>_. True)) lookahead_try_pop lookahead_demo
      [Put (Some sel_demo, 7), Get, Put (None, 0), Put (Some sel_demo, 8)] =
      (fst lookahead_demo_run, fst (snd lookahead_demo_run), snd (snd lookahead_demo_run))"
    unfolding lookahead_demo_run_def [symmetric] by simp
  from lookahead_fifo [OF la this] show ?thesis by (simp add: lookahead_demo_accepts)
qed

section \<open>Blocking and stopping\<close>

lemma wait_loop_returns:
  assumes "\<exists>j < fuel. 0 < la_size (wake (i + j)) \<or> la_stop_signaled (wake (i + j))"
  shows "\<exists>la'. wait_loop fuel wake i la = Some la'"
  using assms
proof (induction fuel arbitrary: i la)
  case (Suc fuel)
  then obtain j where j: "j < Suc fuel" "0 < la_size (wake (i + j)) \<or> la_stop_signaled (wake (i + j))" by blast
  show ?case
  proof (cases j)
    case 0
    then show ?thesis using j by (cases fuel) auto
  next
    case (Suc m)
    then have "\<exists>j < fuel. 0 < la_size (wake (i + 1 + j)) \<or> la_stop_signaled (wake (i + 1 + j))"
      using j by (intro exI [of _ m]) auto
    from Suc.IH [OF this] show ?thesis by auto
  qed
qed simp

lemma wait_loop_result:
  "wait_loop fuel wake i la = Some la' \<Longrightarrow>
     (0 < la_size la' \<or> la_stop_signaled la') \<and> (la' = la \<or> (\<exists>j < fuel. la' = wake (i + j)))"
proof (induction fuel wake i la rule: wait_loop.induct)
  case (2 fuel wake i la)
  show ?case
  proof (cases "la_size la = 0 \<and> \<not> la_stop_signaled la")
    case True
    then have "(0 < la_size la' \<or> la_stop_signaled la') \<and> (la' = wake i \<or> (\<exists>j < fuel. la' = wake (i + 1 + j)))"
      using 2 by simp
    then show ?thesis by (auto intro: exI [of _ 0] exI [of _ "Suc _"])
  qed (use 2 in \<open>auto split: if_splits\<close>)
qed (auto split: if_splits)

text \<open>C33. A blocking pop returns as soon as some wake-up finds a sample or the stop signal. It returns without a
  sample only when the ring is stopped and empty, and otherwise returns the oldest sample: a stopped ring
  still hands out everything that was queued.\<close>

theorem lookahead_pop_blocking_returns:
  assumes "la_inv la" and "\<forall>i. la_inv (wake i)"
    and "j < fuel" and "0 < la_size (wake j) \<or> la_stop_signaled (wake j)"
  shows "\<exists>res la' la''. lookahead_pop_blocking fuel wake la = Some (res, la'') \<and>
           (la' = la \<or> (\<exists>i < fuel. la' = wake i)) \<and>
           (case res of
              None \<Rightarrow> la_queue la' = [] \<and> la_stop_signaled la' \<and> la'' = la'
            | Some slot \<Rightarrow> la_queue la' = slot # la_queue la'')"
proof -
  obtain la' where w: "wait_loop fuel wake 0 la = Some la'" using wait_loop_returns [of fuel wake 0] assms by auto
  note r = wait_loop_result [OF w]
  then have inv: "la_inv la'" using assms by auto
  show ?thesis
  proof (cases "la_size la' > 0")
    case True
    obtain slot la'' where p: "pop_one_locked la' = (slot, la'')" by fastforce
    from la_pop_result [OF inv True p] show ?thesis
      using w r p True by (intro exI [of _ "Some slot"] exI [of _ la'] exI [of _ la'']) (simp add: lookahead_pop_blocking_def)
  next
    case False
    then show ?thesis
      using w r by (intro exI [of _ None] exI [of _ la']) (auto simp: lookahead_pop_blocking_def la_queue_def)
  qed
qed

lemma lookahead_demo_inv: "la_inv lookahead_demo" "la_inv (lookahead_signal_stop lookahead_demo)"
  by (auto simp: lookahead_demo_def lookahead_init_def la_inv_def lookahead_signal_stop_def)

theorem lookahead_pop_blocking_returns_witness:
  "\<exists>res la' la''. lookahead_pop_blocking 3 (\<lambda>i. if i = 1 then lookahead_signal_stop lookahead_demo else lookahead_demo) lookahead_demo
       = Some (res, la'') \<and>
     (case res of None \<Rightarrow> la_queue la' = [] \<and> la_stop_signaled la' \<and> la'' = la'
      | Some slot \<Rightarrow> la_queue la' = slot # la_queue la'')"
proof -
  let ?w = "\<lambda>i. if i = 1 then lookahead_signal_stop lookahead_demo else lookahead_demo"
  have "\<forall>i. la_inv (?w i)" using lookahead_demo_inv by simp
  moreover have "0 < la_size (?w 1) \<or> la_stop_signaled (?w 1)" by (simp add: lookahead_signal_stop_def)
  ultimately show ?thesis
    using lookahead_pop_blocking_returns [OF lookahead_demo_inv(1), of ?w 1 3] by fastforce
qed

text \<open>Draining hands out the oldest samples in order, as many as asked for or all there are, and leaves the
  rest queued.\<close>

theorem lookahead_drain_takes:
  assumes "la_inv la"
  shows "fst (lookahead_drain la n) = take n (la_queue la) \<and> la_queue (snd (lookahead_drain la n)) = drop n (la_queue la) \<and>
         la_inv (snd (lookahead_drain la n))"
proof -
  have "fst (drain_loop m la) = take m (la_queue la) \<and> la_queue (snd (drain_loop m la)) = drop m (la_queue la) \<and>
      la_inv (snd (drain_loop m la))" if "m \<le> la_size la" for m
    using assms that
  proof (induction m arbitrary: la)
    case (Suc m)
    obtain slot la' where p: "pop_one_locked la = (slot, la')" by fastforce
    have q: "la_inv la'" "la_queue la = slot # la_queue la'" using la_pop_result [OF Suc.prems(1) _ p] Suc.prems(2) by auto
    then have "la_size la = Suc (la_size la')" by (metis la_queue_length length_Cons)
    then show ?case using Suc.IH [OF q(1)] Suc.prems q p by (simp add: split_beta Let_def)
  qed simp
  then show ?thesis by (simp add: lookahead_drain_def)
qed

theorem lookahead_drain_takes_witness:
  "fst (lookahead_drain lookahead_demo 3) = take 3 (la_queue lookahead_demo)"
  using lookahead_drain_takes [OF lookahead_demo_inv(1), of 3] by simp

end
