(* ===== verification/Batch_Pool.thy ===== *)
theory Batch_Pool
  imports Damacy_Types
begin

text \<open>
  Batch slots and the layout of the output tensor, src/src/batch\_pool/batch\_pool.c. The row-major strides are
  shown to address every element of a batch at its own place inside the allocation; the slot scans to find
  the oldest slot; and the countdown of chunks to make a batch ready exactly when its last chunk retires.
\<close>

section \<open>Row-major addressing\<close>

text \<open>The strides of a shape and the address of a coordinate.\<close>

fun row_strides :: "int list \<Rightarrow> int list" where
  "row_strides [] = []"
| "row_strides (n # ns) = prod_list ns # row_strides ns"

definition address :: "int list \<Rightarrow> int list \<Rightarrow> int" where
  "address strides cs = sum_list (map2 (*) cs strides)"

definition in_shape :: "int list \<Rightarrow> int list \<Rightarrow> bool" where
  "in_shape shape cs \<longleftrightarrow> list_all2 (\<lambda>n c. 0 \<le> c \<and> c < n) shape cs"

lemma address_Cons: "address (s # ss) (c # cs) = c * s + address ss cs"
  by (simp add: address_def)

lemma address_bounds: "in_shape shape cs \<Longrightarrow> 0 \<le> address (row_strides shape) cs \<and> address (row_strides shape) cs < prod_list shape"
proof (induction shape arbitrary: cs)
  case Nil
  then show ?case by (simp add: in_shape_def address_def)
next
  case (Cons n ns)
  then obtain c cs' where cs: "cs = c # cs'" "0 \<le> c" "c < n" "in_shape ns cs'"
    by (auto simp: in_shape_def list_all2_Cons1)
  have IH: "0 \<le> address (row_strides ns) cs'" "address (row_strides ns) cs' < prod_list ns" using Cons.IH cs by auto
  have "(c + 1) * prod_list ns \<le> n * prod_list ns" using cs(3) IH by (intro mult_right_mono) auto
  moreover have "0 \<le> c * prod_list ns" using cs(2) IH by simp
  ultimately show ?case using IH by (simp add: cs(1) address_Cons distrib_right)
qed

lemma address_inj: "in_shape shape cs \<Longrightarrow> in_shape shape ds \<Longrightarrow> address (row_strides shape) cs = address (row_strides shape) ds \<Longrightarrow> cs = ds"
proof (induction shape arbitrary: cs ds)
  case Nil
  then show ?case by (simp add: in_shape_def)
next
  case (Cons n ns)
  obtain c cs' where cs: "cs = c # cs'" "in_shape ns cs'" using Cons.prems(1) by (auto simp: in_shape_def list_all2_Cons1)
  obtain d ds' where ds: "ds = d # ds'" "in_shape ns ds'" using Cons.prems(2) by (auto simp: in_shape_def list_all2_Cons1)
  let ?a = "address (row_strides ns) cs'" and ?b = "address (row_strides ns) ds'" and ?P = "prod_list ns"
  have b: "0 \<le> ?a" "?a < ?P" "0 \<le> ?b" "?b < ?P" using address_bounds [OF cs(2)] address_bounds [OF ds(2)] by auto
  have eq: "c * ?P + ?a = d * ?P + ?b" using Cons.prems(3) by (simp add: cs(1) ds(1) address_Cons)
  have "(c * ?P + ?a) div ?P = c" "(d * ?P + ?b) div ?P = d" using b by (simp_all add: div_pos_pos_trivial)
  then have "c = d" using eq by simp
  then have "?a = ?b" using eq by simp
  then show ?case using Cons.IH [OF cs(2) ds(2)] \<open>c = d\<close> cs(1) ds(1) by simp
qed

section \<open>Slots\<close>

datatype batch_slot_state =
    BATCH_FREE
  | BATCH_ACCUMULATING
  | BATCH_PLANNING
  | BATCH_RENDERING
  | BATCH_READY
  | BATCH_HELD

record damacy_batch_slot =
  bs_state :: batch_slot_state
  bs_batch_id :: nat
  bs_sample_seq_begin :: nat
  bs_n_samples :: nat
  bs_dev_ptr :: "nat option"
  bs_has_stage :: bool
  bs_n_chunks :: nat
  bs_chunks_remaining :: int
  bs_deferred_reuse_pending :: bool
  bs_planning_close_batch :: bool

record damacy_batch_pool =
  bp_slots :: "damacy_batch_slot list"
  bp_n_bytes :: nat
  bp_rank :: nat
  bp_shape :: "int list"
  bp_strides :: "int list"
  bp_layout_set :: bool
  bp_allocated :: bool

text \<open>The zeroed slot.\<close>

definition batch_slot0 :: damacy_batch_slot where
  "batch_slot0 =
     \<lparr>bs_state = BATCH_FREE, bs_batch_id = 0, bs_sample_seq_begin = 0, bs_n_samples = 0, bs_dev_ptr = None,
      bs_has_stage = False, bs_n_chunks = 0, bs_chunks_remaining = 0, bs_deferred_reuse_pending = False,
      bs_planning_close_batch = False\<rparr>"

definition batch_slot_init :: "bool \<Rightarrow> nat \<times> damacy_batch_slot" where
  "batch_slot_init calloc_ok =
     (if calloc_ok then (0, batch_slot0 \<lparr>bs_has_stage := True\<rparr>) else (1, batch_slot0))"

text \<open>Destroying a slot frees what it staged and zeroes it; destroying the pool also frees the device memory, unless
  CUDA is to be skipped. The pointers passed to \<open>cuMemFree\<close> are returned.\<close>

definition batch_slot_destroy :: "damacy_batch_slot \<Rightarrow> damacy_batch_slot" where
  "batch_slot_destroy slot = batch_slot0"

definition batch_pool_destroy :: "bool \<Rightarrow> damacy_batch_pool \<Rightarrow> nat list \<times> damacy_batch_pool" where
  "batch_pool_destroy cuda_skip pool =
     (List.map_filter (\<lambda>s. if cuda_skip then None else bs_dev_ptr (bp_slots pool ! s)) [0 ..< DAMACY_N_BATCH_SLOTS],
      \<lparr>bp_slots = map batch_slot_destroy (bp_slots pool), bp_n_bytes = 0, bp_rank = 0,
       bp_shape = map (\<lambda>_. 0) (bp_shape pool), bp_strides = map (\<lambda>_. 0) (bp_strides pool),
       bp_layout_set = False, bp_allocated = False\<rparr>)"

definition batch_slot_reset_for_reuse :: "damacy_batch_slot \<Rightarrow> damacy_batch_slot" where
  "batch_slot_reset_for_reuse slot =
     slot \<lparr>bs_state := BATCH_FREE, bs_batch_id := 0, bs_sample_seq_begin := 0, bs_n_samples := 0, bs_n_chunks := 0,
           bs_chunks_remaining := 0, bs_planning_close_batch := False, bs_deferred_reuse_pending := False\<rparr>"

text \<open>The conversion \<open>(int32_t)n\<close>.\<close>

definition i32_of_u32 :: "nat \<Rightarrow> int" where
  "i32_of_u32 n = (if n < 2 ^ 31 then int n else int n - 2 ^ 32)"

definition batch_slot_consume_chunks :: "damacy_batch_slot \<Rightarrow> nat \<Rightarrow> damacy_batch_slot" where
  "batch_slot_consume_chunks slot n_consumed =
     (if bs_state slot \<noteq> BATCH_RENDERING then slot
      else
        let left = bs_chunks_remaining slot - i32_of_u32 n_consumed
        in if left \<le> 0 then slot \<lparr>bs_chunks_remaining := 0, bs_state := BATCH_READY\<rparr>
           else slot \<lparr>bs_chunks_remaining := left\<rparr>)"

section \<open>Scans\<close>

definition find_free_batch_slot :: "damacy_batch_pool \<Rightarrow> nat option" where
  "find_free_batch_slot pool =
     find (\<lambda>s. bs_state (bp_slots pool ! s) = BATCH_FREE) [0 ..< DAMACY_N_BATCH_SLOTS]"

text \<open>The loop the three scans share: \<open>(best, best_id)\<close>, where \<open>None\<close> is \<open>-1\<close>.\<close>

fun oldest_loop :: "damacy_batch_pool \<Rightarrow> batch_slot_state \<Rightarrow> nat list \<Rightarrow> nat option \<times> nat \<Rightarrow> nat option \<times> nat" where
  "oldest_loop pool st [] best = best"
| "oldest_loop pool st (s # ss) (best, best_id) =
     (let slot = bp_slots pool ! s
      in if bs_state slot = st \<and> bs_batch_id slot < best_id
         then oldest_loop pool st ss (Some s, bs_batch_id slot)
         else oldest_loop pool st ss (best, best_id))"

definition find_accumulating_batch_slot :: "damacy_batch_pool \<Rightarrow> nat option" where
  "find_accumulating_batch_slot pool =
     fst (oldest_loop pool BATCH_ACCUMULATING [0 ..< DAMACY_N_BATCH_SLOTS] (None, UINT64_MAX))"

definition find_oldest_ready_slot :: "damacy_batch_pool \<Rightarrow> nat option" where
  "find_oldest_ready_slot pool =
     fst (oldest_loop pool BATCH_READY [0 ..< DAMACY_N_BATCH_SLOTS] (None, UINT64_MAX))"

definition find_oldest_rendering_slot :: "damacy_batch_pool \<Rightarrow> nat option" where
  "find_oldest_rendering_slot pool =
     fst (oldest_loop pool BATCH_RENDERING [0 ..< DAMACY_N_BATCH_SLOTS] (None, UINT64_MAX))"

definition any_batch_in_flight :: "damacy_batch_pool \<Rightarrow> bool" where
  "any_batch_in_flight pool \<longleftrightarrow>
     list_ex (\<lambda>s. let st = bs_state (bp_slots pool ! s)
                  in st = BATCH_ACCUMULATING \<or> st = BATCH_PLANNING \<or> st = BATCH_RENDERING \<or> st = BATCH_READY \<or> st = BATCH_HELD)
       [0 ..< DAMACY_N_BATCH_SLOTS]"

definition any_batch_planning :: "damacy_batch_pool \<Rightarrow> bool" where
  "any_batch_planning pool \<longleftrightarrow>
     list_ex (\<lambda>s. bs_state (bp_slots pool ! s) = BATCH_PLANNING) [0 ..< DAMACY_N_BATCH_SLOTS]"

section \<open>The layout\<close>

text \<open>The loop over the sample's axes: the shape with the axes written so far, and the volume or \<open>None\<close> at a
  failed check. The signed products are exact: every factor is checked against \<open>INT64_MAX\<close> first.\<close>

fun layout_loop :: "int list \<Rightarrow> nat \<Rightarrow> int list \<Rightarrow> int \<Rightarrow> int list \<times> int option" where
  "layout_loop shape d [] volume = (shape, Some volume)"
| "layout_loop shape d (n # ns) volume =
     (if \<not> n > 0 then (shape, None)
      else if \<not> volume \<le> INT64_MAX div n then (shape, None)
      else layout_loop (shape[d + 1 := n]) (d + 1) ns (volume * n))"

text \<open>\<open>for (d = full_rank - 2; d >= 0; --d) strides[d] = strides[d + 1] * shape[d + 1]\<close>\<close>

fun strides_loop :: "int list \<Rightarrow> nat \<Rightarrow> int list \<Rightarrow> int list" where
  "strides_loop shape 0 strides = strides"
| "strides_loop shape (Suc d) strides = strides_loop shape d (strides[d := strides ! (d + 1) * shape ! (d + 1)])"

definition batch_pool_compute_layout ::
    "damacy_batch_pool \<Rightarrow> int list option \<Rightarrow> nat \<Rightarrow> nat \<Rightarrow> nat \<Rightarrow> damacy_status \<times> damacy_batch_pool" where
  "batch_pool_compute_layout pool sample_shape s_rank samples_per_batch bpe =
     (if bp_layout_set pool then (DAMACY_OK, pool)
      else case sample_shape of
        None \<Rightarrow> (DAMACY_INVAL, pool)
      | Some sample_shape \<Rightarrow>
          if \<not> (samples_per_batch > 0 \<and> bpe > 0) then (DAMACY_INVAL, pool)
          else if \<not> s_rank > 0 then (DAMACY_INVAL, pool)
          else
            let full_rank = (s_rank + 1) mod 2 ^ 8
            in if \<not> full_rank \<le> DAMACY_MAX_RANK + 1 then (DAMACY_RANK, pool)
               else
                 (case layout_loop ((bp_shape pool)[0 := int samples_per_batch]) 0 (take s_rank sample_shape) 1 of
                    (shape, None) \<Rightarrow> (DAMACY_INVAL, pool \<lparr>bp_shape := shape\<rparr>)
                  | (shape, Some volume) \<Rightarrow>
                      let pool = pool \<lparr>bp_shape := shape, bp_rank := full_rank,
                                       bp_strides := strides_loop shape (full_rank - 1) ((bp_strides pool)[full_rank - 1 := 1])\<rparr>
                      in if \<not> nat volume \<le> nat INT64_MAX div samples_per_batch then (DAMACY_INVAL, pool)
                         else
                           let elements = u64_mul samples_per_batch (nat volume)
                           in if elements > SIZE_MAX div bpe then (DAMACY_BUDGET, pool)
                              else (DAMACY_OK, pool \<lparr>bp_n_bytes := u64_mul elements bpe, bp_layout_set := True\<rparr>)))"

text \<open>\<open>alloc s\<close> is the result of \<open>cuMemAlloc\<close> for slot \<open>s\<close>.\<close>

fun alloc_loop :: "(nat \<Rightarrow> nat option) \<Rightarrow> nat list \<Rightarrow> damacy_batch_slot list \<Rightarrow> bool \<times> damacy_batch_slot list" where
  "alloc_loop alloc [] slots = (True, slots)"
| "alloc_loop alloc (s # ss) slots =
     (case alloc s of
        None \<Rightarrow> (False, slots)
      | Some dptr \<Rightarrow> alloc_loop alloc ss (slots[s := (slots ! s) \<lparr>bs_dev_ptr := Some dptr\<rparr>]))"

definition batch_pool_alloc_dev :: "(nat \<Rightarrow> nat option) \<Rightarrow> damacy_batch_pool \<Rightarrow> damacy_status \<times> damacy_batch_pool" where
  "batch_pool_alloc_dev alloc pool =
     (if bp_allocated pool then (DAMACY_OK, pool)
      else if \<not> bp_layout_set pool then (DAMACY_INVAL, pool)
      else (case alloc_loop alloc [0 ..< DAMACY_N_BATCH_SLOTS] (bp_slots pool) of
              (False, slots) \<Rightarrow> (DAMACY_CUDA, pool \<lparr>bp_slots := slots\<rparr>)
            | (True, slots) \<Rightarrow> (DAMACY_OK, pool \<lparr>bp_slots := slots, bp_allocated := True\<rparr>)))"

section \<open>Layout correctness\<close>

lemma layout_loop_result:
  assumes "layout_loop shape d ns volume = (shape', Some v)" and "d + length ns < length shape" and "0 < volume" and "volume \<le> INT64_MAX"
  shows "length shape' = length shape \<and> v = volume * prod_list ns \<and> v \<le> INT64_MAX \<and> 0 < v \<and> (\<forall>n \<in> set ns. 0 < n) \<and>
         take (d + 1) shape' = take (d + 1) shape \<and> take (length ns) (drop (d + 1) shape') = ns"
  using assms
proof (induction shape d ns volume rule: layout_loop.induct)
  case (2 shape d n ns volume)
  have n: "0 < n" "volume \<le> INT64_MAX div n" and rec: "layout_loop (shape[d + 1 := n]) (d + 1) ns (volume * n) = (shape', Some v)"
    using 2(2) by (auto split: if_splits)
  have "volume * n \<le> INT64_MAX"
    using mult_right_mono [OF n(2), of n] n(1) by (smt (verit) div_mult_mod_eq pos_mod_sign)
  then have IH: "length shape' = length shape" "v = volume * n * prod_list ns" "v \<le> INT64_MAX" "0 < v" "\<forall>n \<in> set ns. 0 < n"
      "take (d + 2) shape' = take (d + 2) (shape[d + 1 := n])" "take (length ns) (drop (d + 2) shape') = ns"
    using 2(1) [OF _ _ rec] n 2(3,4) by auto
  have t: "take (d + 1) shape' = take (d + 1) shape"
  proof -
    have "take (d + 1) (take (d + 2) shape') = take (d + 1) (take (d + 2) (shape[d + 1 := n]))" using IH(6) by simp
    then show ?thesis by (simp add: min_def)
  qed
  have "shape' ! (d + 1) = n"
    using arg_cong [OF IH(6), of "\<lambda>xs. xs ! (d + 1)"] 2(3) IH(1) by simp
  then have "drop (d + 1) shape' = n # drop (d + 2) shape'"
    using 2(3) IH(1) by (simp add: Cons_nth_drop_Suc [symmetric])
  then show ?case using IH t n by (simp add: mult.assoc)
qed auto

lemma row_strides_nth: "k < length sh \<Longrightarrow> row_strides sh ! k = prod_list (drop (k + 1) sh)"
  by (induction sh arbitrary: k) (auto simp: nth_Cons split: nat.splits)

lemma length_row_strides [simp]: "length (row_strides sh) = length sh"
  by (induction sh) auto

lemma strides_loop_result:
  assumes "d \<le> r" and "r < length shape" and "r < length strides"
    and "\<And>k. d \<le> k \<Longrightarrow> k \<le> r \<Longrightarrow> strides ! k = prod_list (drop (k + 1) (take (r + 1) shape))"
  shows "take (r + 1) (strides_loop shape d strides) = row_strides (take (r + 1) shape)"
  using assms
proof (induction shape d strides rule: strides_loop.induct)
  case (1 shape strides)
  then show ?case by (intro nth_equalityI) (auto simp: row_strides_nth)
next
  case (2 shape d strides)
  let ?sh = "take (r + 1) shape"
  have "drop (d + 1) ?sh = ?sh ! (d + 1) # drop (d + 2) ?sh"
    using 2(2,3) by (simp add: Cons_nth_drop_Suc [symmetric])
  then have P: "prod_list (drop (d + 1) ?sh) = strides ! (d + 1) * shape ! (d + 1)"
    using 2(2,3) 2(5) [of "Suc d"] by simp
  have "(strides[d := strides ! (d + 1) * shape ! (d + 1)]) ! k = prod_list (drop (k + 1) ?sh)" if "d \<le> k" "k \<le> r" for k
    using that P 2(4) 2(5) [of k] by (cases "k = d") auto
  then show ?case using 2(1) 2(2-4) by simp
qed

text \<open>C35. When the layout is accepted, the pool's shape is the batch axis followed by the sample's axes, its strides are
  the row-major ones, the size is the exact number of bytes with no wrap-around, and the strides give every
  element of the batch its own place inside that size.\<close>

theorem batch_pool_layout_addresses:
  assumes "batch_pool_compute_layout pool (Some sample) r n bpe = (DAMACY_OK, pool')" and "\<not> bp_layout_set pool"
    and "r \<le> length sample" and "r < 255"
    and "length (bp_shape pool) = DAMACY_MAX_RANK + 1" and "length (bp_strides pool) = DAMACY_MAX_RANK + 1"
  shows "bp_rank pool' = r + 1 \<and>
         take (r + 1) (bp_shape pool') = int n # take r sample \<and>
         take (r + 1) (bp_strides pool') = row_strides (int n # take r sample) \<and>
         int (bp_n_bytes pool') = prod_list (int n # take r sample) * int bpe \<and> bp_n_bytes pool' < 2 ^ 64 \<and>
         (\<forall>cs ds. in_shape (take (r + 1) (bp_shape pool')) cs \<and> in_shape (take (r + 1) (bp_shape pool')) ds \<longrightarrow>
            0 \<le> address (take (r + 1) (bp_strides pool')) cs \<and>
            (address (take (r + 1) (bp_strides pool')) cs + 1) * int bpe \<le> int (bp_n_bytes pool') \<and>
            (address (take (r + 1) (bp_strides pool')) cs = address (take (r + 1) (bp_strides pool')) ds \<longrightarrow> cs = ds))"
proof -
  let ?ns = "take r sample" and ?sh0 = "(bp_shape pool)[0 := int n]"
  have m: "(r + 1) mod 2 ^ 8 = r + 1" using assms(4) by simp
  obtain shape v where l: "layout_loop ?sh0 0 ?ns 1 = (shape, Some v)" and g: "0 < n" "0 < bpe" "0 < r" "r \<le> DAMACY_MAX_RANK"
      "nat v \<le> nat INT64_MAX div n" "u64_mul n (nat v) \<le> SIZE_MAX div bpe"
    and p': "pool' = pool \<lparr>bp_shape := shape, bp_rank := r + 1, bp_strides := strides_loop shape r ((bp_strides pool)[r := 1]),
                           bp_n_bytes := u64_mul (u64_mul n (nat v)) bpe, bp_layout_set := True\<rparr>"
    using assms(1,2) unfolding batch_pool_compute_layout_def m
    by (auto simp: Let_def split: if_splits prod.splits option.splits)
  have len: "length ?ns = r" using assms(3) by simp
  note L = layout_loop_result [OF l, unfolded len]
  have L': "length shape = DAMACY_MAX_RANK + 1" "v = prod_list ?ns" "v \<le> INT64_MAX" "0 < v"
      "take 1 shape = take 1 ?sh0" "take r (drop 1 shape) = ?ns"
    using L g assms(5) by auto
  have sh: "take (r + 1) shape = int n # ?ns"
  proof -
    have "take (r + 1) shape = take 1 shape @ take r (drop 1 shape)" by (metis add.commute take_add)
    moreover have "take 1 ?sh0 = [int n]" using assms(5) by (cases "bp_shape pool") auto
    ultimately show ?thesis using L' by simp
  qed
  have str: "take (r + 1) (strides_loop shape r ((bp_strides pool)[r := 1])) = row_strides (int n # ?ns)"
    unfolding sh [symmetric] using L'(1) g(4) assms(6) by (intro strides_loop_result) auto
  have e: "n * nat v \<le> nat INT64_MAX" using g(1,5) by (metis mult.commute div_times_less_eq_dividend le_trans mult_le_mono1)
  then have el: "u64_mul n (nat v) = n * nat v" by (simp add: u64_mul_exact)
  have "n * nat v * bpe \<le> SIZE_MAX"
    using g(6) div_times_less_eq_dividend [of SIZE_MAX bpe] mult_le_mono1 [of "n * nat v" "SIZE_MAX div bpe" bpe] unfolding el by linarith
  then have nb: "bp_n_bytes pool' = n * nat v * bpe" "bp_n_bytes pool' < 2 ^ 64" by (simp_all add: p' el u64_mul_exact)
  define S where "S = int n # ?ns"
  have A: "take (r + 1) (bp_shape pool') = S" "take (r + 1) (bp_strides pool') = row_strides S" "bp_rank pool' = r + 1"
    using sh str by (simp_all add: p' S_def)
  have vol: "int (bp_n_bytes pool') = prod_list S * int bpe" using L'(2,4) by (simp add: nb(1) S_def)
  have "(address (row_strides S) cs + 1) * int bpe \<le> int (bp_n_bytes pool')" if "in_shape S cs" for cs
    unfolding vol using address_bounds [OF that] by (intro mult_right_mono) auto
  then show ?thesis
    unfolding S_def [symmetric] A using vol nb(2) address_bounds [of S] address_inj [of S] by simp
qed

definition batch_pool_demo :: damacy_batch_pool where
  "batch_pool_demo =
     \<lparr>bp_slots = [batch_slot0, batch_slot0], bp_n_bytes = 0, bp_rank = 0, bp_shape = replicate 32 0,
      bp_strides = replicate 32 0, bp_layout_set = False, bp_allocated = False\<rparr>"

theorem batch_pool_layout_addresses_witness:
  "\<exists>pool'. batch_pool_compute_layout batch_pool_demo (Some [3, 5]) 2 4 2 = (DAMACY_OK, pool') \<and>
     take 3 (bp_strides pool') = row_strides [4, 3, 5] \<and> int (bp_n_bytes pool') = prod_list [4, 3, 5] * 2"
proof -
  have "fst (batch_pool_compute_layout batch_pool_demo (Some [3, 5]) 2 4 2) = DAMACY_OK" by code_simp
  then obtain pool' where c: "batch_pool_compute_layout batch_pool_demo (Some [3, 5]) 2 4 2 = (DAMACY_OK, pool')"
    by (metis fst_conv surj_pair)
  then show ?thesis using batch_pool_layout_addresses [OF c] by (simp add: batch_pool_demo_def DAMACY_MAX_RANK_def)
qed

section \<open>Scans and retirement\<close>

lemma oldest_loop_result:
  assumes "oldest_loop pool st ss (best, best_id) = (b, i)"
  shows "(b = best \<and> i = best_id \<and> (\<forall>s \<in> set ss. bs_state (bp_slots pool ! s) = st \<longrightarrow> best_id \<le> bs_batch_id (bp_slots pool ! s))) \<or>
         (\<exists>s \<in> set ss. b = Some s \<and> bs_state (bp_slots pool ! s) = st \<and> i = bs_batch_id (bp_slots pool ! s) \<and> i < best_id \<and>
            (\<forall>t \<in> set ss. bs_state (bp_slots pool ! t) = st \<longrightarrow> i \<le> bs_batch_id (bp_slots pool ! t)))"
  using assms
proof (induction ss arbitrary: best best_id)
  case (Cons s ss)
  let ?slot = "bp_slots pool ! s"
  show ?case
  proof (cases "bs_state ?slot = st \<and> bs_batch_id ?slot < best_id")
    case True
    then have "oldest_loop pool st ss (Some s, bs_batch_id ?slot) = (b, i)" using Cons.prems by (simp add: Let_def)
    from Cons.IH [OF this] show ?thesis using True by (elim disjE) (auto intro: less_trans)
  next
    case False
    then have "oldest_loop pool st ss (best, best_id) = (b, i)" using Cons.prems by (auto simp: Let_def)
    from Cons.IH [OF this] show ?thesis using False by auto
  qed
qed simp

text \<open>What a scan for a state must return: nothing when no slot has the state, else one with the smallest batch id.\<close>

definition oldest_slot :: "damacy_batch_pool \<Rightarrow> batch_slot_state \<Rightarrow> nat option \<Rightarrow> bool" where
  "oldest_slot pool st res \<longleftrightarrow>
     (case res of
        None \<Rightarrow> \<forall>s < DAMACY_N_BATCH_SLOTS. bs_state (bp_slots pool ! s) \<noteq> st
      | Some s \<Rightarrow> s < DAMACY_N_BATCH_SLOTS \<and> bs_state (bp_slots pool ! s) = st \<and>
          (\<forall>t < DAMACY_N_BATCH_SLOTS. bs_state (bp_slots pool ! t) = st \<longrightarrow>
             bs_batch_id (bp_slots pool ! s) \<le> bs_batch_id (bp_slots pool ! t)))"

lemma oldest_loop_oldest:
  assumes "\<forall>s < DAMACY_N_BATCH_SLOTS. bs_batch_id (bp_slots pool ! s) < UINT64_MAX"
  shows "oldest_slot pool st (fst (oldest_loop pool st [0 ..< DAMACY_N_BATCH_SLOTS] (None, UINT64_MAX)))"
proof -
  obtain b i where r: "oldest_loop pool st [0 ..< DAMACY_N_BATCH_SLOTS] (None, UINT64_MAX) = (b, i)" by fastforce
  from oldest_loop_result [OF r] show ?thesis
    unfolding r oldest_slot_def using assms by (elim disjE) (fastforce simp: not_le)+
qed

text \<open>The scans return the slot with the smallest batch id among the slots in the wanted state, and nothing
  only when no slot is in that state: batches are handed out and retired in order.\<close>

theorem find_oldest_slot_oldest:
  assumes "\<forall>s < DAMACY_N_BATCH_SLOTS. bs_batch_id (bp_slots pool ! s) < UINT64_MAX"
  shows "oldest_slot pool BATCH_READY (find_oldest_ready_slot pool) \<and>
         oldest_slot pool BATCH_RENDERING (find_oldest_rendering_slot pool) \<and>
         oldest_slot pool BATCH_ACCUMULATING (find_accumulating_batch_slot pool)"
  unfolding find_oldest_ready_slot_def find_oldest_rendering_slot_def find_accumulating_batch_slot_def
  using oldest_loop_oldest [OF assms] by blast

theorem find_oldest_slot_oldest_witness:
  "oldest_slot batch_pool_demo BATCH_READY (find_oldest_ready_slot batch_pool_demo)"
  using find_oldest_slot_oldest [of batch_pool_demo]
  by (simp add: batch_pool_demo_def batch_slot0_def DAMACY_N_BATCH_SLOTS_def less_2_cases_iff)

text \<open>While a batch renders, retiring its chunks in any portions keeps the count of the chunks left, and the
  batch becomes ready exactly when the last one retires, not earlier and not later.\<close>

theorem batch_slot_retires:
  assumes "bs_state slot = BATCH_RENDERING" and "bs_chunks_remaining slot = int n" and "0 < n" and "n < 2 ^ 31"
    and "sum_list portions \<le> n"
  shows "let slot' = fold (\<lambda>k s. batch_slot_consume_chunks s k) portions slot
         in (if sum_list portions = n then bs_state slot' = BATCH_READY \<and> bs_chunks_remaining slot' = 0
             else bs_state slot' = BATCH_RENDERING \<and> bs_chunks_remaining slot' = int (n - sum_list portions))"
  using assms
proof (induction portions arbitrary: slot n)
  case (Cons k ks)
  have k: "i32_of_u32 k = int k" using Cons.prems by (simp add: i32_of_u32_def)
  show ?case
  proof (cases "k = n")
    case True
    let ?s = "batch_slot_consume_chunks slot k"
    have "bs_state ?s = BATCH_READY" "bs_chunks_remaining ?s = 0"
      using True Cons.prems k by (simp_all add: batch_slot_consume_chunks_def)
    moreover have "fold (\<lambda>k s. batch_slot_consume_chunks s k) xs s = s" if "bs_state s = BATCH_READY" for xs s
      using that by (induction xs arbitrary: s) (auto simp: batch_slot_consume_chunks_def)
    ultimately show ?thesis using True Cons.prems(5) by (simp add: Let_def)
  next
    case False
    then have "k < n" using Cons.prems(5) by simp
    then have "batch_slot_consume_chunks slot k = slot \<lparr>bs_chunks_remaining := int (n - k)\<rparr>"
      using Cons.prems k by (simp add: batch_slot_consume_chunks_def Let_def of_nat_diff)
    then show ?thesis
      using Cons.IH [of "slot \<lparr>bs_chunks_remaining := int (n - k)\<rparr>" "n - k"] Cons.prems \<open>k < n\<close>
      by (auto simp: Let_def split: if_splits)
  qed
qed (simp add: Let_def)

theorem batch_slot_retires_witness:
  "bs_state (fold (\<lambda>k s. batch_slot_consume_chunks s k) [2, 3]
     (batch_slot0 \<lparr>bs_state := BATCH_RENDERING, bs_chunks_remaining := 5\<rparr>)) = BATCH_READY"
  using batch_slot_retires [of "batch_slot0 \<lparr>bs_state := BATCH_RENDERING, bs_chunks_remaining := 5\<rparr>" 5 "[2, 3]"]
  by (simp add: Let_def)

end
