(* ===== verification/Config.thy ===== *)
theory Config
  imports Damacy_Types
begin

text \<open>
  The configuration of the pipeline, src/src/damacy\_config.c: the output element types, the cast table, the
  validation of a configuration and the sizes derived from it. A validated configuration is shown to satisfy
  the cache floors the metadata prefetch relies on, in exact arithmetic; the batch volume is exact or refused.
\<close>

section \<open>Data\<close>

text \<open>Any other value of the enum fields is the last constructor.\<close>

datatype damacy_numa_strategy = DAMACY_NUMA_AUTO | DAMACY_NUMA_DISABLED | DAMACY_NUMA_PIN_TO | Numa_Other

datatype damacy_gds_mode = DAMACY_GDS_AUTO | DAMACY_GDS_ON | DAMACY_GDS_OFF | Gds_Other

record damacy_tuning =
  tu_max_gpu_memory_bytes :: nat
  tu_max_index_bytes :: nat
  tu_max_chunk_uncompressed_bytes :: nat
  tu_max_read_op_bytes :: nat
  tu_host_buffer_waves :: nat
  tu_max_chunks_per_wave :: nat
  tu_max_substreams_per_chunk :: nat
  tu_n_io_threads :: nat
  tu_metadata_io_concurrency :: nat
  tu_n_array_meta_cache :: nat
  tu_n_shard_index_cache :: nat
  tu_n_chunk_layout_cache :: nat
  tu_max_shards_per_sample :: nat
  tu_numa_strategy :: damacy_numa_strategy
  tu_numa_node :: int
  tu_enable_gds :: damacy_gds_mode

text \<open>Of the latency model's doubles only what the validation reads of them: whether they are finite and the
  sign of the deviation.\<close>

record damacy_latency_model =
  lm_mu_finite :: bool
  lm_sigma_finite :: bool
  lm_sigma_nonneg :: bool

record damacy_config =
  cfg_dtype :: damacy_dtype
  cfg_sample_shape :: "int list"
  cfg_sample_rank :: nat
  cfg_samples_per_batch :: nat
  cfg_lookahead_samples :: nat
  cfg_tuning :: damacy_tuning
  cfg_metadata_latency :: damacy_latency_model

definition DAMACY_MAX_CHUNK_BYTES :: nat where "DAMACY_MAX_CHUNK_BYTES = UINT32_MAX"
definition DAMACY_N_WAVES :: nat where "DAMACY_N_WAVES = 2"
definition DAMACY_MAX_HOST_BUFFER_WAVES :: nat where "DAMACY_MAX_HOST_BUFFER_WAVES = 8"
definition DAMACY_HARD_MAX_CHUNKS_PER_WAVE :: nat where "DAMACY_HARD_MAX_CHUNKS_PER_WAVE = 0xFFFF"
definition DAMACY_HARD_MAX_SUBSTREAMS_PER_CHUNK :: nat where "DAMACY_HARD_MAX_SUBSTREAMS_PER_CHUNK = 0xFFFF"
definition DAMACY_MAX_METADATA_IO_CONCURRENCY :: nat where "DAMACY_MAX_METADATA_IO_CONCURRENCY = 4096"
definition DAMACY_MAX_IO_THREADS :: nat where "DAMACY_MAX_IO_THREADS = 1024"

section \<open>Output element types\<close>

fun output_type :: "damacy_dtype \<Rightarrow> string \<times> string \<times> nat" where
  "output_type DAMACY_F32 = (''f32'', ''float32'', 4)"
| "output_type DAMACY_BF16 = (''bf16'', ''bfloat16'', 2)"
| "output_type DAMACY_U8 = (''u8'', ''uint8'', 1)"
| "output_type DAMACY_U16 = (''u16'', ''uint16'', 2)"
| "output_type DAMACY_U32 = (''u32'', ''uint32'', 4)"
| "output_type DAMACY_U64 = (''u64'', ''uint64'', 8)"
| "output_type DAMACY_I8 = (''i8'', ''int8'', 1)"
| "output_type DAMACY_I16 = (''i16'', ''int16'', 2)"
| "output_type DAMACY_I32 = (''i32'', ''int32'', 4)"
| "output_type DAMACY_I64 = (''i64'', ''int64'', 8)"

definition output_types :: "damacy_dtype list" where
  "output_types =
     [DAMACY_F32, DAMACY_BF16, DAMACY_U8, DAMACY_U16, DAMACY_U32, DAMACY_U64, DAMACY_I8, DAMACY_I16, DAMACY_I32, DAMACY_I64]"

definition damacy_dtype_bpe :: "damacy_dtype \<Rightarrow> nat" where
  "damacy_dtype_bpe dt = snd (snd (output_type dt))"

definition damacy_dtype_name :: "damacy_dtype \<Rightarrow> string" where
  "damacy_dtype_name dt = (if damacy_dtype_bpe dt \<noteq> 0 then fst (output_type dt) else ''?'')"

definition damacy_dtype_from_string :: "string \<Rightarrow> damacy_dtype option" where
  "damacy_dtype_from_string name =
     find (\<lambda>dt. fst (output_type dt) = name \<or> fst (snd (output_type dt)) = name) output_types"

definition cast_path_supported :: "damacy_dtype \<Rightarrow> dtype \<Rightarrow> bool" where
  "cast_path_supported dst src \<longleftrightarrow>
     damacy_dtype_bpe dst \<noteq> 0 \<and>
     src \<in> {dtype_u8, dtype_u16, dtype_u32, dtype_u64, dtype_i8, dtype_i16, dtype_i32, dtype_i64, dtype_f16, dtype_f32}"

section \<open>Validation\<close>

definition validate_config :: "damacy_config option \<Rightarrow> damacy_status" where
  "validate_config config =
     (case config of
        None \<Rightarrow> DAMACY_INVAL
      | Some cfg \<Rightarrow>
          let t = cfg_tuning cfg; lat = cfg_metadata_latency cfg in
          if \<not> cfg_samples_per_batch cfg > 0 then DAMACY_INVAL
          else if \<not> tu_max_gpu_memory_bytes t > 0 then DAMACY_INVAL
          else if \<not> tu_max_index_bytes t \<le> u64_mul 8 UINT32_MAX then DAMACY_INVAL
          else if \<not> cfg_lookahead_samples cfg \<ge> cfg_samples_per_batch cfg then DAMACY_INVAL
          else if \<not> tu_n_io_threads t > 0 then DAMACY_INVAL
          else if \<not> tu_n_io_threads t \<le> DAMACY_MAX_IO_THREADS then DAMACY_INVAL
          else if \<not> tu_metadata_io_concurrency t > 0 then DAMACY_INVAL
          else if \<not> tu_metadata_io_concurrency t \<le> DAMACY_MAX_METADATA_IO_CONCURRENCY then DAMACY_INVAL
          else if tu_max_chunk_uncompressed_bytes t = 0 \<or> tu_max_chunk_uncompressed_bytes t > DAMACY_MAX_CHUNK_BYTES
          then DAMACY_INVAL
          else if tu_max_read_op_bytes t = 0 \<or> tu_max_read_op_bytes t > UINT32_MAX then DAMACY_INVAL
          else if tu_host_buffer_waves t < DAMACY_N_WAVES \<or> tu_host_buffer_waves t > DAMACY_MAX_HOST_BUFFER_WAVES
          then DAMACY_INVAL
          else if tu_max_chunks_per_wave t = 0 \<or> tu_max_chunks_per_wave t > DAMACY_HARD_MAX_CHUNKS_PER_WAVE
          then DAMACY_INVAL
          else if tu_max_substreams_per_chunk t = 0 \<or> tu_max_substreams_per_chunk t > DAMACY_HARD_MAX_SUBSTREAMS_PER_CHUNK
          then DAMACY_INVAL
          else if \<not> tu_n_array_meta_cache t > 0 then DAMACY_INVAL
          else if \<not> tu_n_shard_index_cache t > 0 then DAMACY_INVAL
          else if \<not> tu_n_chunk_layout_cache t > 0 then DAMACY_INVAL
          else if \<not> tu_max_shards_per_sample t > 0 then DAMACY_INVAL
          else
            let meta_floor = u64_add (cfg_lookahead_samples cfg) (u64_mul 2 (cfg_samples_per_batch cfg)) in
            if tu_n_array_meta_cache t < meta_floor then DAMACY_INVAL
            else if tu_n_chunk_layout_cache t < meta_floor then DAMACY_INVAL
            else
              let shard_floor = u64_mul meta_floor (tu_max_shards_per_sample t) in
              if tu_n_shard_index_cache t < shard_floor then DAMACY_INVAL
              else if \<not> damacy_dtype_bpe (cfg_dtype cfg) > 0 then DAMACY_INVAL
              else if \<not> cfg_sample_rank cfg > 0 then DAMACY_INVAL
              else if \<not> cfg_sample_rank cfg \<le> DAMACY_MAX_RANK then DAMACY_INVAL
              else if list_ex (\<lambda>n. \<not> n > 0) (take (cfg_sample_rank cfg) (cfg_sample_shape cfg)) then DAMACY_INVAL
              else if tu_numa_strategy t = Numa_Other then DAMACY_INVAL
              else if tu_numa_strategy t = DAMACY_NUMA_PIN_TO \<and> \<not> tu_numa_node t \<ge> 0 then DAMACY_INVAL
              else if tu_enable_gds t = Gds_Other then DAMACY_INVAL
              else if \<not> lm_mu_finite lat then DAMACY_INVAL
              else if \<not> lm_sigma_finite lat then DAMACY_INVAL
              else if \<not> lm_sigma_nonneg lat then DAMACY_INVAL
              else DAMACY_OK)"

text \<open>The fields the defaults leave out are zero.\<close>

definition damacy_tuning_defaults :: damacy_tuning where
  "damacy_tuning_defaults =
     \<lparr>tu_max_gpu_memory_bytes = 0, tu_max_index_bytes = 64 * 2 ^ 20, tu_max_chunk_uncompressed_bytes = 2 * 1024 * 1024,
      tu_max_read_op_bytes = 4 * 1024 * 1024, tu_host_buffer_waves = 4, tu_max_chunks_per_wave = 512,
      tu_max_substreams_per_chunk = 32, tu_n_io_threads = 64, tu_metadata_io_concurrency = 64, tu_n_array_meta_cache = 64,
      tu_n_shard_index_cache = 256, tu_n_chunk_layout_cache = 64, tu_max_shards_per_sample = 64,
      tu_numa_strategy = DAMACY_NUMA_AUTO, tu_numa_node = 0, tu_enable_gds = DAMACY_GDS_AUTO\<rparr>"

section \<open>Derived sizes\<close>

definition resolve_max_chunk_uncompressed :: "damacy_config \<Rightarrow> nat" where "resolve_max_chunk_uncompressed cfg = tu_max_chunk_uncompressed_bytes (cfg_tuning cfg)"
definition resolve_max_read_op_bytes :: "damacy_config \<Rightarrow> nat" where "resolve_max_read_op_bytes cfg = tu_max_read_op_bytes (cfg_tuning cfg)"
definition resolve_host_buffer_waves :: "damacy_config \<Rightarrow> nat" where "resolve_host_buffer_waves cfg = tu_host_buffer_waves (cfg_tuning cfg)"
definition resolve_max_chunks_per_wave :: "damacy_config \<Rightarrow> nat" where "resolve_max_chunks_per_wave cfg = tu_max_chunks_per_wave (cfg_tuning cfg)"
definition resolve_max_substreams_per_chunk :: "damacy_config \<Rightarrow> nat" where "resolve_max_substreams_per_chunk cfg = tu_max_substreams_per_chunk (cfg_tuning cfg)"
definition resolve_metadata_io_concurrency :: "damacy_config \<Rightarrow> nat" where "resolve_metadata_io_concurrency cfg = tu_metadata_io_concurrency (cfg_tuning cfg)"

text \<open>\<open>env\<close> is the value of \<open>DAMACY_GDS_ENABLE\<close>.\<close>

definition resolve_enable_gds :: "string option \<Rightarrow> damacy_config \<Rightarrow> bool" where
  "resolve_enable_gds env cfg =
     (if tu_enable_gds (cfg_tuning cfg) = DAMACY_GDS_ON then True
      else if tu_enable_gds (cfg_tuning cfg) = DAMACY_GDS_OFF then False
      else env = Some ''1'')"

definition resolve_sample_shape :: "damacy_config option \<Rightarrow> damacy_status + int list" where
  "resolve_sample_shape config =
     (case config of
        None \<Rightarrow> Inl DAMACY_INVAL
      | Some cfg \<Rightarrow>
          if cfg_sample_rank cfg = 0 \<or> cfg_sample_rank cfg > DAMACY_MAX_RANK then Inl DAMACY_INVAL
          else
            let shape = take (cfg_sample_rank cfg) (cfg_sample_shape cfg)
            in if list_ex (\<lambda>n. n \<le> 0) shape then Inl DAMACY_INVAL else Inr shape)"

fun volume_loop :: "int list \<Rightarrow> nat \<Rightarrow> damacy_status + nat" where
  "volume_loop [] volume = Inr volume"
| "volume_loop (n # ns) volume =
     (if volume > UINT64_MAX div u64_of_int n then Inl DAMACY_BUDGET else volume_loop ns (u64_mul volume (u64_of_int n)))"

definition resolve_sample_volume_bytes :: "damacy_config option \<Rightarrow> damacy_status + nat" where
  "resolve_sample_volume_bytes config =
     (case resolve_sample_shape config of
        Inl status \<Rightarrow> Inl status
      | Inr shape \<Rightarrow>
          let cfg = the config; bpe = damacy_dtype_bpe (cfg_dtype cfg)
          in if bpe = 0 \<or> cfg_samples_per_batch cfg = 0 then Inl DAMACY_INVAL
             else volume_loop shape (u64_mul (cfg_samples_per_batch cfg) bpe))"

section \<open>Correctness\<close>

lemma damacy_dtype_name_parses: "damacy_dtype_from_string (damacy_dtype_name dt) = Some dt"
  by (cases dt) (simp_all add: damacy_dtype_from_string_def damacy_dtype_name_def damacy_dtype_bpe_def output_types_def)

text \<open>The fields have the width of their C types.\<close>

definition cfg_widths :: "damacy_config \<Rightarrow> bool" where
  "cfg_widths cfg \<longleftrightarrow> cfg_samples_per_batch cfg < 2 ^ 32 \<and> cfg_lookahead_samples cfg < 2 ^ 32 \<and>
     tu_n_array_meta_cache (cfg_tuning cfg) < 2 ^ 32 \<and> tu_n_shard_index_cache (cfg_tuning cfg) < 2 ^ 32 \<and>
     tu_n_chunk_layout_cache (cfg_tuning cfg) < 2 ^ 32 \<and> tu_max_shards_per_sample (cfg_tuning cfg) < 2 ^ 32"

lemma guard_ok: "(if c then DAMACY_INVAL else r) = DAMACY_OK \<longleftrightarrow> \<not> c \<and> r = DAMACY_OK"
  by simp

text \<open>A configuration that validates gives every metadata cache at least the entries its worst-case working set
  pins, computed without wrap-around: \<open>lookahead_samples + 2 * samples_per_batch\<close> for the array metadata and the
  chunk layouts, and that many times \<open>max_shards_per_sample\<close> for the shard indexes. Its substream product fits
  32 bits and its sample shape is one the resolvers accept.\<close>

theorem validate_config_floors:
  assumes "validate_config (Some cfg) = DAMACY_OK" and "cfg_widths cfg"
  shows "cfg_lookahead_samples cfg + 2 * cfg_samples_per_batch cfg \<le> tu_n_array_meta_cache (cfg_tuning cfg) \<and>
         cfg_lookahead_samples cfg + 2 * cfg_samples_per_batch cfg \<le> tu_n_chunk_layout_cache (cfg_tuning cfg) \<and>
         (cfg_lookahead_samples cfg + 2 * cfg_samples_per_batch cfg) * tu_max_shards_per_sample (cfg_tuning cfg)
           \<le> tu_n_shard_index_cache (cfg_tuning cfg) \<and>
         tu_max_chunks_per_wave (cfg_tuning cfg) * tu_max_substreams_per_chunk (cfg_tuning cfg) < 2 ^ 32 \<and>
         resolve_sample_shape (Some cfg) = Inr (take (cfg_sample_rank cfg) (cfg_sample_shape cfg))"
proof -
  let ?t = "cfg_tuning cfg"
  let ?floor = "cfg_lookahead_samples cfg + 2 * cfg_samples_per_batch cfg"
  have w: "u64_add (cfg_lookahead_samples cfg) (u64_mul 2 (cfg_samples_per_batch cfg)) = ?floor"
    using assms(2) by (simp add: cfg_widths_def u64_add_exact u64_mul_exact)
  have c: "?floor \<le> tu_n_array_meta_cache ?t" "?floor \<le> tu_n_chunk_layout_cache ?t"
      "u64_mul ?floor (tu_max_shards_per_sample ?t) \<le> tu_n_shard_index_cache ?t"
      "tu_max_chunks_per_wave ?t \<le> 0xFFFF" "tu_max_substreams_per_chunk ?t \<le> 0xFFFF"
      "0 < cfg_sample_rank cfg" "cfg_sample_rank cfg \<le> DAMACY_MAX_RANK"
      "\<not> list_ex (\<lambda>n. \<not> n > 0) (take (cfg_sample_rank cfg) (cfg_sample_shape cfg))"
    using assms(1) unfolding validate_config_def
    by (simp_all only: Let_def w DAMACY_HARD_MAX_CHUNKS_PER_WAVE_def DAMACY_HARD_MAX_SUBSTREAMS_PER_CHUNK_def
          option.case guard_ok not_less not_le de_Morgan_disj simp_thms neq0_conv)
  have "?floor * tu_max_shards_per_sample ?t \<le> (2 ^ 32 - 1) * (2 ^ 32 - 1)"
    using c(1) assms(2) by (intro mult_le_mono) (auto simp: cfg_widths_def)
  also have "\<dots> < (2 :: nat) ^ 64" by simp
  finally have "u64_mul ?floor (tu_max_shards_per_sample ?t) = ?floor * tu_max_shards_per_sample ?t"
    by (rule u64_mul_exact)
  moreover have "tu_max_chunks_per_wave ?t * tu_max_substreams_per_chunk ?t \<le> 0xFFFF * 0xFFFF"
    using c(4,5) by (rule mult_le_mono)
  ultimately show ?thesis
    using c by (auto simp: resolve_sample_shape_def Let_def list_ex_iff not_le)
qed

definition config_demo :: damacy_config where
  "config_demo =
     \<lparr>cfg_dtype = DAMACY_F32, cfg_sample_shape = [8, 16, 16], cfg_sample_rank = 3, cfg_samples_per_batch = 1,
      cfg_lookahead_samples = 2, cfg_tuning = damacy_tuning_defaults \<lparr>tu_max_gpu_memory_bytes := 2 ^ 30\<rparr>,
      cfg_metadata_latency = \<lparr>lm_mu_finite = True, lm_sigma_finite = True, lm_sigma_nonneg = True\<rparr>\<rparr>"

lemma config_demo_valid: "validate_config (Some config_demo) = DAMACY_OK"
  by code_simp

theorem validate_config_floors_witness:
  "(2 + 2 * 1) * 64 \<le> (256 :: nat) \<and> resolve_sample_shape (Some config_demo) = Inr [8, 16, 16]"
  using validate_config_floors [OF config_demo_valid]
  by (simp add: cfg_widths_def config_demo_def damacy_tuning_defaults_def)

lemma prod_list_ge_one: "\<forall>n \<in> set ns. (0 :: int) < n \<Longrightarrow> 1 \<le> prod_list ns"
proof (induction ns)
  case (Cons n ns)
  then have "1 * 1 \<le> n * prod_list ns" by (intro mult_mono) auto
  then show ?case by simp
qed simp

lemma volume_loop_exact:
  assumes "\<forall>n \<in> set ns. 0 < n \<and> n \<le> INT64_MAX" and "0 < volume" and "volume < 2 ^ 64"
  shows "volume_loop ns volume =
     (if int volume * prod_list ns \<le> int UINT64_MAX then Inr (nat (int volume * prod_list ns)) else Inl DAMACY_BUDGET)"
  using assms
proof (induction ns arbitrary: volume)
  case (Cons n ns)
  have n: "0 < n" "n \<le> INT64_MAX" and un: "u64_of_int n = nat n" using Cons.prems by (auto simp: u64_of_int_nat)
  have P: "1 \<le> prod_list ns" using Cons.prems(1) by (intro prod_list_ge_one) auto
  have iff: "volume > UINT64_MAX div nat n \<longleftrightarrow> int UINT64_MAX < int volume * n"
  proof -
    have "volume > UINT64_MAX div nat n \<longleftrightarrow> UINT64_MAX < volume * nat n"
      using n(1) by (subst div_less_iff_less_mult) auto
    also have "\<dots> \<longleftrightarrow> int UINT64_MAX < int (volume * nat n)" by (simp only: of_nat_less_iff)
    also have "int (volume * nat n) = int volume * n" using n(1) by simp
    finally show ?thesis .
  qed
  show ?case
  proof (cases "int UINT64_MAX < int volume * n")
    case True
    have "int volume * n * 1 \<le> int volume * n * prod_list ns" using n P by (intro mult_left_mono) auto
    then have "int UINT64_MAX < int volume * (n * prod_list ns)" using True by (simp add: mult.assoc)
    then show ?thesis using True iff un by simp
  next
    case False
    have "int (volume * nat n) = int volume * n" using n(1) by simp
    then have le: "volume * nat n \<le> UINT64_MAX" using False by linarith
    then have "u64_mul volume (nat n) = volume * nat n" by (intro u64_mul_exact) auto
    moreover have "0 < volume * nat n" using n(1) Cons.prems(2) by simp
    ultimately show ?thesis
      using False iff un le Cons.IH [of "volume * nat n"] Cons.prems(1) n(1) by (simp add: mult.assoc)
  qed
qed simp

text \<open>The byte size of a batch is computed exactly: the result is the true product of the batch size, the element size
  and the extents whenever that product fits 64 bits, and DAMACY\_BUDGET exactly when it does not.\<close>

theorem resolve_sample_volume_exact:
  assumes "resolve_sample_shape (Some cfg) = Inr shape" and "0 < cfg_samples_per_batch cfg" and "cfg_widths cfg"
    and "\<forall>n \<in> set (cfg_sample_shape cfg). n \<le> INT64_MAX"
  shows "resolve_sample_volume_bytes (Some cfg) =
     (let bytes = int (cfg_samples_per_batch cfg) * int (damacy_dtype_bpe (cfg_dtype cfg)) * prod_list shape
      in if bytes \<le> int UINT64_MAX then Inr (nat bytes) else Inl DAMACY_BUDGET)"
proof -
  have sh: "\<forall>n \<in> set shape. 0 < n \<and> n \<le> INT64_MAX"
    using assms(1,4) by (auto simp: resolve_sample_shape_def Let_def list_ex_iff split: if_splits dest: in_set_takeD)
  have b: "damacy_dtype_bpe (cfg_dtype cfg) \<in> {1, 2, 4, 8}" by (cases "cfg_dtype cfg") (auto simp: damacy_dtype_bpe_def)
  then have small: "cfg_samples_per_batch cfg * damacy_dtype_bpe (cfg_dtype cfg) < 2 ^ 64"
    using assms(3) by (auto simp: cfg_widths_def)
  then have "u64_mul (cfg_samples_per_batch cfg) (damacy_dtype_bpe (cfg_dtype cfg)) =
      cfg_samples_per_batch cfg * damacy_dtype_bpe (cfg_dtype cfg)" by (rule u64_mul_exact)
  then show ?thesis
    using assms(1,2) b volume_loop_exact [OF sh _ small]
    by (auto simp: resolve_sample_volume_bytes_def Let_def)
qed

theorem resolve_sample_volume_exact_witness:
  "resolve_sample_volume_bytes (Some config_demo) = Inr 8192"
  using resolve_sample_volume_exact [of config_demo "[8, 16, 16]"]
  by (simp add: cfg_widths_def config_demo_def damacy_tuning_defaults_def resolve_sample_shape_def DAMACY_MAX_RANK_def
      damacy_dtype_bpe_def Let_def)

end
