(* ===== verification/Pipeline.thy ===== *)
theory Pipeline
  imports Lookahead Config Batch_Pool Dispatch_Types
begin

text \<open>
  The orchestration of a pipeline: pushing samples (src/src/damacy\_push.c), preparing and submitting plans
  (src/src/damacy\_plan.c, src/src/damacy\_scheduler.c), popping batches (src/src/damacy\_pop.c), creation and shutdown
  (src/src/damacy\_lifecycle.c), and the reference counts of batches and buffers (src/src/pipeline/components.c).
  The planner and the executor are reached through their operation tables; the tables are parameters of the
  definitions, so everything shown here holds for every planner and every executor. The theorems show that plans
  are submitted exactly in the order they were prepared, under consecutive batch ids, that a failure is final,
  and when a pop returns.
\<close>

section \<open>Operation tables and state\<close>

record pipeline_stats =
  st_chunks_planned :: nat
  st_chunks_to_load :: nat
  st_worker_steps :: nat
  st_batches_emitted :: nat

record 'p planner_ops =
  po_push :: "'p \<Rightarrow> damacy_sample list \<Rightarrow> nat \<times> damacy_status \<times> 'p"
  po_next :: "'p \<Rightarrow> (damacy_status + prepared_plan) \<times> 'p"
  po_pending :: "'p \<Rightarrow> nat"
  po_stats :: "'p \<Rightarrow> pipeline_stats \<Rightarrow> pipeline_stats"
  po_stop :: "'p \<Rightarrow> 'p"

record ('e, 'b) executor_ops =
  eo_enter_thread :: "('e \<Rightarrow> damacy_status \<times> 'e) option"
  eo_submit :: "'e \<Rightarrow> prepared_plan \<Rightarrow> nat \<Rightarrow> damacy_status \<times> 'e"
  eo_step :: "'e \<Rightarrow> damacy_status \<times> bool \<times> 'e"
  eo_take :: "'e \<Rightarrow> (damacy_status + 'b) \<times> 'e"
  eo_busy :: "'e \<Rightarrow> bool"
  eo_stats :: "'e \<Rightarrow> pipeline_stats \<Rightarrow> pipeline_stats"
  eo_stop :: "'e \<Rightarrow> 'e"

record ('p, 'e) damacy =
  d_planner :: 'p
  d_executor :: 'e
  d_accepts_indexed :: bool
  d_prepared_batches :: nat
  d_plans :: "prepared_plan option list"
  d_plan_head :: nat
  d_plan_count :: nat
  d_next_batch_id :: nat
  d_failed_status :: damacy_status
  d_stats :: pipeline_stats
  d_pop_calls :: nat
  d_stopping :: bool
  d_stopped :: bool

text \<open>The state \<open>damacy_pipeline_create\<close> fills in: a zeroed structure with the components, the limits and an empty ring.\<close>

definition stats_init :: pipeline_stats where
  "stats_init = \<lparr>st_chunks_planned = 0, st_chunks_to_load = 0, st_worker_steps = 0, st_batches_emitted = 0\<rparr>"

definition damacy_new :: "'p \<Rightarrow> 'e \<Rightarrow> bool \<Rightarrow> nat \<Rightarrow> ('p, 'e) damacy" where
  "damacy_new planner executor accepts_indexed prepared_batches =
     \<lparr>d_planner = planner, d_executor = executor, d_accepts_indexed = accepts_indexed,
      d_prepared_batches = prepared_batches, d_plans = replicate prepared_batches None, d_plan_head = 0, d_plan_count = 0,
      d_next_batch_id = 0, d_failed_status = DAMACY_OK, d_stats = stats_init, d_pop_calls = 0, d_stopping = False,
      d_stopped = False\<rparr>"

section \<open>Preparing and submitting\<close>

text \<open>The ring of prepared plans: \<open>plans[(plan_head + plan_count) % prepared_batches] = plan; ++plan_count\<close> and the removal
  of the head.\<close>

definition plan_put :: "('p, 'e) damacy \<Rightarrow> prepared_plan \<Rightarrow> ('p, 'e) damacy" where
  "plan_put d plan =
     d \<lparr>d_plans := (d_plans d)[(d_plan_head d + d_plan_count d) mod d_prepared_batches d := Some plan],
        d_plan_count := d_plan_count d + 1\<rparr>"

definition plan_drop :: "('p, 'e) damacy \<Rightarrow> ('p, 'e) damacy" where
  "plan_drop d =
     d \<lparr>d_plans := (d_plans d)[d_plan_head d := None],
        d_plan_head := (d_plan_head d + 1) mod d_prepared_batches d,
        d_plan_count := d_plan_count d - 1\<rparr>"

definition count_plan :: "prepared_plan \<Rightarrow> pipeline_stats \<Rightarrow> pipeline_stats" where
  "count_plan plan st =
     st \<lparr>st_chunks_planned := u64_add (st_chunks_planned st) (pp_n_uses plan),
         st_chunks_to_load :=
           fold (\<lambda>i n. u64_add n (of_bool (\<not> pc_missing (pp_chunks plan ! pu_chunk (pp_uses plan ! i)))))
             [0 ..< pp_n_uses plan] (st_chunks_to_load st)\<rparr>"

text \<open>The loop of \<open>pipeline_prepare\<close>. Every turn adds a plan, so \<open>prepared_batches - plan_count\<close> turns reach the bound.\<close>

fun prepare_loop :: "'p planner_ops \<Rightarrow> nat \<Rightarrow> ('p, 'e) damacy \<Rightarrow> bool \<Rightarrow> damacy_status \<times> bool \<times> ('p, 'e) damacy" where
  "prepare_loop pops 0 d changed = (DAMACY_OK, changed, d)"
| "prepare_loop pops (Suc left) d changed =
     (case po_next pops (d_planner d) of
        (Inl status, p) \<Rightarrow>
          let d = d \<lparr>d_planner := p\<rparr>
          in if status = DAMACY_AGAIN then (DAMACY_OK, changed, d) else (status, changed, d)
      | (Inr plan, p) \<Rightarrow>
          let d = plan_put (d \<lparr>d_planner := p\<rparr>) plan
          in prepare_loop pops left (d \<lparr>d_stats := count_plan plan (d_stats d)\<rparr>) True)"

definition pipeline_prepare :: "'p planner_ops \<Rightarrow> ('p, 'e) damacy \<Rightarrow> bool \<Rightarrow> damacy_status \<times> bool \<times> ('p, 'e) damacy" where
  "pipeline_prepare pops d changed = prepare_loop pops (d_prepared_batches d - d_plan_count d) d changed"

text \<open>The submit loop of \<open>damacy_scheduler_step\<close>; every turn removes a plan, so \<open>plan_count\<close> turns reach the end. The
  result is the return value when the loop returns, or \<open>None\<close> with the status when it falls through.\<close>

fun submit_loop :: "('e, 'b) executor_ops \<Rightarrow> nat \<Rightarrow> ('p, 'e) damacy \<Rightarrow> bool \<Rightarrow> bool option \<times> damacy_status \<times> bool \<times> ('p, 'e) damacy" where
  "submit_loop eops 0 d changed = (None, DAMACY_OK, changed, d)"
| "submit_loop eops (Suc left) d changed =
     (case eo_submit eops (d_executor d) (the (d_plans d ! d_plan_head d)) (d_next_batch_id d) of
        (status, e) \<Rightarrow>
          let d = d \<lparr>d_executor := e\<rparr>
          in if status = DAMACY_AGAIN then (Some changed, status, changed, d)
             else if status \<noteq> DAMACY_OK then (None, status, changed, d)
             else
               let d = plan_drop d
               in submit_loop eops left (d \<lparr>d_next_batch_id := u64_add (d_next_batch_id d) 1\<rparr>) True)"

definition damacy_scheduler_enter :: "('e, 'b) executor_ops \<Rightarrow> ('p, 'e) damacy \<Rightarrow> ('p, 'e) damacy" where
  "damacy_scheduler_enter eops d =
     (case eo_enter_thread eops of
        None \<Rightarrow> d
      | Some enter \<Rightarrow> (case enter (d_executor d) of (status, e) \<Rightarrow> d \<lparr>d_executor := e, d_failed_status := status\<rparr>))"

definition damacy_scheduler_step ::
    "'p planner_ops \<Rightarrow> ('e, 'b) executor_ops \<Rightarrow> ('p, 'e) damacy \<Rightarrow> bool \<times> ('p, 'e) damacy" where
  "damacy_scheduler_step pops eops d =
     (if d_stopping d \<or> d_failed_status d \<noteq> DAMACY_OK then (False, d)
      else
        let d = d \<lparr>d_stats := (d_stats d) \<lparr>st_worker_steps := u64_add (st_worker_steps (d_stats d)) 1\<rparr>\<rparr>;
            (status, changed, e) = eo_step eops (d_executor d);
            d = d \<lparr>d_executor := e\<rparr>;
            status = (if status = DAMACY_AGAIN then DAMACY_OK else status);
            (status, changed, d) = (if status = DAMACY_OK then pipeline_prepare pops d changed else (status, changed, d));
            (ret, status, changed, d) =
              (if status = DAMACY_OK then submit_loop eops (d_plan_count d) d changed else (None, status, changed, d))
        in case ret of
             Some r \<Rightarrow> (r, d)
           | None \<Rightarrow>
               if status \<noteq> DAMACY_OK then (True, d \<lparr>d_failed_status := status\<rparr>) else (changed, d))"

section \<open>Pushing and popping\<close>

text \<open>The samples that were not consumed, and the status.\<close>

definition push_to_planner ::
    "'p planner_ops \<Rightarrow> ('p, 'e) damacy \<Rightarrow> damacy_sample list \<Rightarrow> damacy_sample list \<times> damacy_status \<times> ('p, 'e) damacy" where
  "push_to_planner pops d samples =
     (let accepted = (if d_accepts_indexed d then samples else takeWhile (\<lambda>s. \<not> query_has_indices s) samples);
          (consumed, status, p) = po_push pops (d_planner d) accepted;
          status = (if status = DAMACY_OK \<and> length accepted \<noteq> length samples then DAMACY_BUDGET else status)
      in (drop consumed samples, status, d \<lparr>d_planner := p\<rparr>))"

definition damacy_push ::
    "'p planner_ops \<Rightarrow> ('p, 'e) damacy \<Rightarrow> damacy_sample list \<Rightarrow> damacy_sample list \<times> damacy_status \<times> ('p, 'e) damacy" where
  "damacy_push pops d samples =
     (if d_stopped d then (samples, DAMACY_SHUTDOWN, d)
      else if d_stopping d \<or> d_failed_status d \<noteq> DAMACY_OK then (samples, DAMACY_SHUTDOWN, d)
      else push_to_planner pops d samples)"

text \<open>One turn of the loop of \<open>damacy_pop\<close>, run under the scheduler's lock: the status to return or the batch, or \<open>None\<close>
  when it is to wait. A batch also records the pipeline as its owner, which is left out.\<close>

definition pop_turn ::
    "'p planner_ops \<Rightarrow> ('e, 'b) executor_ops \<Rightarrow> ('p, 'e) damacy \<Rightarrow> (damacy_status + 'b) option \<times> ('p, 'e) damacy" where
  "pop_turn pops eops d =
     (if d_stopping d then (Some (Inl DAMACY_SHUTDOWN), d)
      else if d_failed_status d \<noteq> DAMACY_OK then (Some (Inl (d_failed_status d)), d)
      else
        (case eo_take eops (d_executor d) of
           (Inr batch, e) \<Rightarrow>
             (Some (Inr batch),
              d \<lparr>d_executor := e,
                 d_stats := (d_stats d) \<lparr>st_batches_emitted := u64_add (st_batches_emitted (d_stats d)) 1\<rparr>\<rparr>)
         | (Inl status, e) \<Rightarrow>
             let d = d \<lparr>d_executor := e\<rparr>
             in if status \<noteq> DAMACY_AGAIN then (Some (Inl status), d)
                else if d_plan_count d = 0 \<and> po_pending pops (d_planner d) = 0 \<and> \<not> eo_busy eops (d_executor d)
                then (Some (Inl status), d)
                else (None, d)))"

definition pop_section ::
    "'p planner_ops \<Rightarrow> ('e, 'b) executor_ops \<Rightarrow> ('p, 'e) damacy \<Rightarrow> (damacy_status + 'b) option \<times> ('p, 'e) damacy" where
  "pop_section pops eops d =
     (case pop_turn pops eops d of
        (None, d) \<Rightarrow> (None, d)
      | (Some res, d) \<Rightarrow> (Some res, d \<lparr>d_pop_calls := d_pop_calls d - 1\<rparr>))"

text \<open>\<open>wake i\<close> is what the other threads make of the state during the \<open>i\<close>-th wait; without an answer in \<open>fuel\<close> turns the
  result is \<open>None\<close>.\<close>

fun pop_loop ::
    "nat \<Rightarrow> 'p planner_ops \<Rightarrow> ('e, 'b) executor_ops \<Rightarrow> (nat \<Rightarrow> ('p, 'e) damacy \<Rightarrow> ('p, 'e) damacy) \<Rightarrow> nat \<Rightarrow>
     ('p, 'e) damacy \<Rightarrow> ((damacy_status + 'b) \<times> ('p, 'e) damacy) option" where
  "pop_loop 0 pops eops wake i d = None"
| "pop_loop (Suc fuel) pops eops wake i d =
     (case pop_section pops eops d of
        (Some res, d) \<Rightarrow> Some (res, d)
      | (None, d) \<Rightarrow> pop_loop fuel pops eops wake (i + 1) (wake i d))"

definition damacy_pop ::
    "nat \<Rightarrow> 'p planner_ops \<Rightarrow> ('e, 'b) executor_ops \<Rightarrow> (nat \<Rightarrow> ('p, 'e) damacy \<Rightarrow> ('p, 'e) damacy) \<Rightarrow>
     ('p, 'e) damacy \<Rightarrow> ((damacy_status + 'b) \<times> ('p, 'e) damacy) option" where
  "damacy_pop fuel pops eops wake d =
     (if d_stopped d then Some (Inl DAMACY_SHUTDOWN, d)
      else pop_loop fuel pops eops wake 0 (d \<lparr>d_pop_calls := d_pop_calls d + 1\<rparr>))"

section \<open>Shutdown\<close>

text \<open>\<open>damacy_shutdown\<close> up to its wait for the pops in progress, and from there to its end. A second call finds
  \<open>stopping\<close> set and only waits.\<close>

definition shutdown_begin :: "'p planner_ops \<Rightarrow> ('e, 'b) executor_ops \<Rightarrow> ('p, 'e) damacy \<Rightarrow> ('p, 'e) damacy" where
  "shutdown_begin pops eops d =
     (if d_stopped d \<or> d_stopping d then d
      else d \<lparr>d_stats := eo_stats eops (d_executor d) (po_stats pops (d_planner d) (d_stats d)), d_stopping := True\<rparr>)"

definition shutdown_finish :: "'p planner_ops \<Rightarrow> ('e, 'b) executor_ops \<Rightarrow> ('p, 'e) damacy \<Rightarrow> ('p, 'e) damacy" where
  "shutdown_finish pops eops d =
     d \<lparr>d_planner := po_stop pops (d_planner d), d_executor := eo_stop eops (d_executor d),
        d_plans := map (\<lambda>i. None) (d_plans d), d_plan_count := 0, d_stopped := True\<rparr>"

section \<open>All interleavings\<close>

text \<open>Every call takes the scheduler's lock for each of its sections, so an execution of any number of threads is a
  sequence of these sections. A pop may have read \<open>stopped\<close> before the section it starts with, so that section
  is allowed in every state.\<close>

inductive pipeline_step :: "'p planner_ops \<Rightarrow> ('e, 'b) executor_ops \<Rightarrow> ('p, 'e) damacy \<Rightarrow> ('p, 'e) damacy \<Rightarrow> bool"
  for pops :: "'p planner_ops" and eops :: "('e, 'b) executor_ops" where
  sched: "pipeline_step pops eops d (snd (damacy_scheduler_step pops eops d))"
| push: "pipeline_step pops eops d (snd (snd (damacy_push pops d samples)))"
| pop_enter: "pipeline_step pops eops d (snd (pop_section pops eops (d \<lparr>d_pop_calls := d_pop_calls d + 1\<rparr>)))"
| pop_wake: "0 < d_pop_calls d \<Longrightarrow> pipeline_step pops eops d (snd (pop_section pops eops d))"
| stop: "pipeline_step pops eops d (shutdown_begin pops eops d)"
| stopped: "d_stopping d \<Longrightarrow> d_pop_calls d = 0 \<Longrightarrow> \<not> d_stopped d \<Longrightarrow> pipeline_step pops eops d (shutdown_finish pops eops d)"

inductive_cases pipeline_stepE: "pipeline_step pops eops d d'"

section \<open>The plan ring is a bounded queue\<close>

definition ring_ok :: "('p, 'e) damacy \<Rightarrow> bool" where
  "ring_ok d \<longleftrightarrow> length (d_plans d) = d_prepared_batches d \<and> 0 < d_prepared_batches d \<and> d_plan_head d < d_prepared_batches d \<and>
     d_plan_count d \<le> d_prepared_batches d \<and>
     (\<forall>i < d_plan_count d. d_plans d ! ((d_plan_head d + i) mod d_prepared_batches d) \<noteq> None)"

definition ring_plans :: "('p, 'e) damacy \<Rightarrow> prepared_plan list" where
  "ring_plans d = map (\<lambda>i. the (d_plans d ! ((d_plan_head d + i) mod d_prepared_batches d))) [0 ..< d_plan_count d]"

definition ring_put :: "('p, 'e) damacy \<Rightarrow> prepared_plan \<Rightarrow> ('p, 'e) damacy option" where
  "ring_put d plan = (if d_plan_count d < d_prepared_batches d then Some (plan_put d plan) else None)"

definition ring_get :: "('p, 'e) damacy \<Rightarrow> (prepared_plan \<times> ('p, 'e) damacy) option" where
  "ring_get d = (if 0 < d_plan_count d then Some (the (d_plans d ! d_plan_head d), plan_drop d) else None)"

lemma ring_plans_length [simp]: "length (ring_plans d) = d_plan_count d"
  by (simp add: ring_plans_def)

lemma plan_put_result:
  assumes ok: "ring_ok d" and room: "d_plan_count d < d_prepared_batches d"
  shows "ring_ok (plan_put d plan) \<and> ring_plans (plan_put d plan) = ring_plans d @ [plan]"
proof -
  let ?c = "d_prepared_batches d" and ?h = "d_plan_head d" and ?n = "d_plan_count d"
  let ?plans = "(d_plans d)[(?h + ?n) mod ?c := Some plan]"
  have at: "?plans ! ((?h + i) mod ?c) = (if i = ?n then Some plan else d_plans d ! ((?h + i) mod ?c))" if "i < ?c" for i
    using that room ok ring_add_inj [of i ?c ?n ?h] by (auto simp: ring_ok_def nth_list_update)
  show ?thesis
    using at room ok by (auto simp: ring_ok_def ring_plans_def plan_put_def less_Suc_eq)
qed

lemma plan_drop_result:
  assumes ok: "ring_ok d" and n: "0 < d_plan_count d"
  shows "ring_ok (plan_drop d) \<and> ring_plans d = the (d_plans d ! d_plan_head d) # ring_plans (plan_drop d)"
proof -
  let ?c = "d_prepared_batches d" and ?h = "d_plan_head d" and ?n = "d_plan_count d"
  let ?plans = "(d_plans d)[?h := None]"
  have shift: "((?h + 1) mod ?c + i) mod ?c = (?h + Suc i) mod ?c" for i by (simp add: mod_simps)
  have at: "?plans ! (((?h + 1) mod ?c + i) mod ?c) = d_plans d ! ((?h + Suc i) mod ?c)" if "Suc i < ?c" for i
    unfolding shift using that ok ring_add_inj [of "Suc i" ?c 0 ?h] by (auto simp: ring_ok_def nth_list_update)
  have "ring_plans d = map (\<lambda>i. the (d_plans d ! ((?h + i) mod ?c))) (0 # map Suc [0 ..< ?n - 1])"
    using n by (simp add: ring_plans_def map_Suc_upt upt_conv_Cons)
  also have "\<dots> = the (d_plans d ! ?h) # map (\<lambda>i. the (?plans ! (((?h + 1) mod ?c + i) mod ?c))) [0 ..< ?n - 1]"
    using at ok by (auto simp: ring_ok_def)
  finally have "ring_plans d = the (d_plans d ! ?h) # ring_plans (plan_drop d)"
    by (simp add: ring_plans_def plan_drop_def)
  moreover have "?plans ! (((?h + 1) mod ?c + i) mod ?c) \<noteq> None" if "i < ?n - 1" for i
  proof -
    have "Suc i < ?n" using that by simp
    then show ?thesis using at [of i] ok unfolding ring_ok_def by (metis order_less_le_trans)
  qed
  then have "ring_ok (plan_drop d)" using ok n by (auto simp: ring_ok_def plan_drop_def)
  ultimately show ?thesis by simp
qed

interpretation plan_ring: bounded_queue ring_ok ring_plans d_prepared_batches ring_put id ring_get
proof
  fix q q' :: "('a, 'b) damacy" and i a
  assume ok: "ring_ok q"
  show "ring_put q i = Some q' \<Longrightarrow> ring_ok q' \<and> ring_plans q' = ring_plans q @ [id i] \<and> d_prepared_batches q' = d_prepared_batches q"
    using plan_put_result [OF ok, of i] by (auto simp: ring_put_def plan_put_def split: if_splits)
  show "ring_get q = Some (a, q') \<Longrightarrow> ring_ok q' \<and> ring_plans q = a # ring_plans q' \<and> d_prepared_batches q' = d_prepared_batches q"
    using plan_drop_result [OF ok] by (auto simp: ring_get_def plan_drop_def split: if_splits)
  show "(ring_get q = None) = (ring_plans q = [])" by (simp add: ring_get_def ring_plans_def)
  show "length (ring_plans q) \<le> d_prepared_batches q" using ok by (simp add: ring_ok_def)
qed

section \<open>Submission order\<close>

text \<open>The same operations, also recording the plans the planner returned and the plans the executor accepted with
  their batch ids.\<close>

definition logged_planner :: "'p planner_ops \<Rightarrow> ('p \<times> prepared_plan list) planner_ops" where
  "logged_planner pops =
     \<lparr>po_push = (\<lambda>(p, log) samples. case po_push pops p samples of (n, status, p) \<Rightarrow> (n, status, (p, log))),
      po_next = (\<lambda>(p, log). case po_next pops p of (r, p) \<Rightarrow> (r, (p, case r of Inr plan \<Rightarrow> log @ [plan] | _ \<Rightarrow> log))),
      po_pending = (\<lambda>(p, log). po_pending pops p),
      po_stats = (\<lambda>(p, log). po_stats pops p),
      po_stop = (\<lambda>(p, log). (po_stop pops p, log))\<rparr>"

definition logged_executor :: "('e, 'b) executor_ops \<Rightarrow> ('e \<times> (prepared_plan \<times> nat) list, 'b) executor_ops" where
  "logged_executor eops =
     \<lparr>eo_enter_thread = map_option (\<lambda>enter (e, log). case enter e of (status, e) \<Rightarrow> (status, (e, log))) (eo_enter_thread eops),
      eo_submit = (\<lambda>(e, log) plan id. case eo_submit eops e plan id of
         (status, e) \<Rightarrow> (status, (e, if status = DAMACY_OK then log @ [(plan, id)] else log))),
      eo_step = (\<lambda>(e, log). case eo_step eops e of (status, changed, e) \<Rightarrow> (status, changed, (e, log))),
      eo_take = (\<lambda>(e, log). case eo_take eops e of (r, e) \<Rightarrow> (r, (e, log))),
      eo_busy = (\<lambda>(e, log). eo_busy eops e),
      eo_stats = (\<lambda>(e, log). eo_stats eops e),
      eo_stop = (\<lambda>(e, log). (eo_stop eops e, log))\<rparr>"

type_synonym ('p, 'e) logged_damacy = "('p \<times> prepared_plan list, 'e \<times> (prepared_plan \<times> nat) list) damacy"

abbreviation produced :: "('p, 'e) logged_damacy \<Rightarrow> prepared_plan list" where
  "produced d \<equiv> snd (d_planner d)"

abbreviation submitted :: "('p, 'e) logged_damacy \<Rightarrow> (prepared_plan \<times> nat) list" where
  "submitted d \<equiv> snd (d_executor d)"

text \<open>What every section keeps while the pipeline runs: the ring is well formed and holds exactly the plans not
  submitted yet, and the batch ids count the submissions.\<close>

definition order_ok :: "('p, 'e) logged_damacy \<Rightarrow> bool" where
  "order_ok d \<longleftrightarrow> ring_ok d \<and> produced d = map fst (submitted d) @ ring_plans d \<and>
     map snd (submitted d) = map (\<lambda>i. i mod 2 ^ 64) [0 ..< length (submitted d)] \<and>
     d_next_batch_id d = length (submitted d) mod 2 ^ 64"

definition same_control :: "('p, 'e) damacy \<Rightarrow> ('p, 'e) damacy \<Rightarrow> bool" where
  "same_control d d' \<longleftrightarrow> d_stopping d' = d_stopping d \<and> d_stopped d' = d_stopped d \<and>
     d_prepared_batches d' = d_prepared_batches d \<and> d_failed_status d' = d_failed_status d \<and> d_pop_calls d' = d_pop_calls d"

lemma ring_fields [simp]:
  "ring_ok (d \<lparr>d_planner := p\<rparr>) = ring_ok d" "ring_plans (d \<lparr>d_planner := p\<rparr>) = ring_plans d"
  "ring_ok (d \<lparr>d_executor := e\<rparr>) = ring_ok d" "ring_plans (d \<lparr>d_executor := e\<rparr>) = ring_plans d"
  "ring_ok (d \<lparr>d_stats := st\<rparr>) = ring_ok d" "ring_plans (d \<lparr>d_stats := st\<rparr>) = ring_plans d"
  "ring_ok (d \<lparr>d_next_batch_id := n\<rparr>) = ring_ok d" "ring_plans (d \<lparr>d_next_batch_id := n\<rparr>) = ring_plans d"
  "ring_ok (d \<lparr>d_failed_status := status\<rparr>) = ring_ok d" "ring_plans (d \<lparr>d_failed_status := status\<rparr>) = ring_plans d"
  "ring_ok (d \<lparr>d_pop_calls := n\<rparr>) = ring_ok d" "ring_plans (d \<lparr>d_pop_calls := n\<rparr>) = ring_plans d"
  "ring_ok (d \<lparr>d_stopping := b\<rparr>) = ring_ok d" "ring_plans (d \<lparr>d_stopping := b\<rparr>) = ring_plans d"
  by (simp_all add: ring_ok_def ring_plans_def)

lemma plan_fields [simp]:
  "d_planner (plan_put d plan) = d_planner d" "d_executor (plan_put d plan) = d_executor d"
  "d_next_batch_id (plan_put d plan) = d_next_batch_id d" "d_plan_count (plan_put d plan) = d_plan_count d + 1"
  "d_prepared_batches (plan_put d plan) = d_prepared_batches d" "same_control d (plan_put d plan)"
  "d_planner (plan_drop d) = d_planner d" "d_executor (plan_drop d) = d_executor d"
  "d_next_batch_id (plan_drop d) = d_next_batch_id d" "d_plan_count (plan_drop d) = d_plan_count d - 1"
  "d_prepared_batches (plan_drop d) = d_prepared_batches d" "same_control d (plan_drop d)"
  by (simp_all add: plan_put_def plan_drop_def same_control_def)

lemma prepare_loop_order:
  assumes "order_ok d" and "d_plan_count d + left \<le> d_prepared_batches d"
  shows "order_ok (snd (snd (prepare_loop (logged_planner pops) left d changed))) \<and>
         same_control d (snd (snd (prepare_loop (logged_planner pops) left d changed)))"
  using assms
proof (induction left arbitrary: d changed)
  case 0
  then show ?case by (simp add: same_control_def)
next
  case (Suc left)
  obtain p log where p: "d_planner d = (p, log)" by (cases "d_planner d")
  obtain r p' where n: "po_next pops p = (r, p')" by (cases "po_next pops p")
  show ?case
  proof (cases r)
    case (Inl status)
    then show ?thesis using Suc.prems p n by (simp add: logged_planner_def order_ok_def same_control_def Let_def)
  next
    case (Inr plan)
    define e where "e = plan_put (d \<lparr>d_planner := (p', log @ [plan])\<rparr>) plan"
    define e' where "e' = e \<lparr>d_stats := count_plan plan (d_stats e)\<rparr>"
    have "ring_ok e" "ring_plans e = ring_plans d @ [plan]"
      using plan_put_result [of "d \<lparr>d_planner := (p', log @ [plan])\<rparr>" plan] Suc.prems by (auto simp: e_def order_ok_def)
    then have "order_ok e'" using Suc.prems(1) p by (simp add: order_ok_def e'_def) (simp add: e_def)
    moreover have "d_plan_count e' + left \<le> d_prepared_batches e'" using Suc.prems(2) by (simp add: e'_def e_def)
    ultimately have "order_ok (snd (snd (prepare_loop (logged_planner pops) left e' True))) \<and>
        same_control e' (snd (snd (prepare_loop (logged_planner pops) left e' True)))" by (rule Suc.IH)
    moreover have "same_control d e'" by (simp add: e'_def e_def plan_put_def same_control_def)
    moreover have "prepare_loop (logged_planner pops) (Suc left) d changed = prepare_loop (logged_planner pops) left e' True"
      using p n Inr by (simp add: logged_planner_def e'_def e_def Let_def)
    ultimately show ?thesis by (simp add: same_control_def)
  qed
qed

lemma submit_loop_order:
  assumes "order_ok d" and "left \<le> d_plan_count d"
  shows "order_ok (snd (snd (snd (submit_loop (logged_executor eops) left d changed)))) \<and>
         same_control d (snd (snd (snd (submit_loop (logged_executor eops) left d changed))))"
  using assms
proof (induction left arbitrary: d changed)
  case 0
  then show ?case by (simp add: same_control_def)
next
  case (Suc left)
  let ?plan = "the (d_plans d ! d_plan_head d)" and ?id = "d_next_batch_id d"
  obtain e log where e: "d_executor d = (e, log)" by (cases "d_executor d")
  obtain status e' where n: "eo_submit eops e ?plan ?id = (status, e')" by (cases "eo_submit eops e ?plan ?id")
  show ?case
  proof (cases "status = DAMACY_OK")
    case False
    then show ?thesis using Suc.prems e n by (auto simp: logged_executor_def order_ok_def same_control_def Let_def)
  next
    case True
    define f where "f = plan_drop (d \<lparr>d_executor := (e', log @ [(?plan, ?id)])\<rparr>)"
    define f' where "f' = f \<lparr>d_next_batch_id := u64_add (d_next_batch_id f) 1\<rparr>"
    have "ring_ok f" "ring_plans d = ?plan # ring_plans f"
      using plan_drop_result [of "d \<lparr>d_executor := (e', log @ [(?plan, ?id)])\<rparr>"] Suc.prems by (auto simp: f_def order_ok_def)
    then have "order_ok f'" using Suc.prems(1) e
      by (simp add: order_ok_def f'_def) (simp add: f_def u64_add_def mod_simps)
    moreover have "left \<le> d_plan_count f'" using Suc.prems(2) by (simp add: f'_def f_def)
    ultimately have "order_ok (snd (snd (snd (submit_loop (logged_executor eops) left f' True)))) \<and>
        same_control f' (snd (snd (snd (submit_loop (logged_executor eops) left f' True))))" by (rule Suc.IH)
    moreover have "same_control d f'" by (simp add: f'_def f_def plan_drop_def same_control_def)
    moreover have "submit_loop (logged_executor eops) (Suc left) d changed = submit_loop (logged_executor eops) left f' True"
      using e n True by (simp add: logged_executor_def f'_def f_def Let_def)
    ultimately show ?thesis by (simp add: same_control_def)
  qed
qed

lemma scheduler_step_order:
  assumes ok: "order_ok d"
  shows "order_ok (snd (damacy_scheduler_step (logged_planner pops) (logged_executor eops) d)) \<and>
         d_stopping (snd (damacy_scheduler_step (logged_planner pops) (logged_executor eops) d)) = d_stopping d \<and>
         d_stopped (snd (damacy_scheduler_step (logged_planner pops) (logged_executor eops) d)) = d_stopped d \<and>
         d_prepared_batches (snd (damacy_scheduler_step (logged_planner pops) (logged_executor eops) d)) = d_prepared_batches d"
proof (cases "d_stopping d \<or> d_failed_status d \<noteq> DAMACY_OK")
  case True
  then show ?thesis using ok by (simp add: damacy_scheduler_step_def)
next
  case False
  define d1 where "d1 = d \<lparr>d_stats := (d_stats d) \<lparr>st_worker_steps := u64_add (st_worker_steps (d_stats d)) 1\<rparr>\<rparr>"
  obtain s1 c1 e1 where st: "eo_step (logged_executor eops) (d_executor d1) = (s1, c1, e1)" by (metis prod_cases3)
  define d2 where "d2 = d1 \<lparr>d_executor := e1\<rparr>"
  define s2 where "s2 = (if s1 = DAMACY_AGAIN then DAMACY_OK else s1)"
  obtain s3 c3 d3 where pr: "(if s2 = DAMACY_OK then pipeline_prepare (logged_planner pops) d2 c1 else (s2, c1, d2)) = (s3, c3, d3)"
    by (metis prod_cases3)
  obtain r s4 c4 d4 where su: "(if s3 = DAMACY_OK then submit_loop (logged_executor eops) (d_plan_count d3) d3 c3 else (None, s3, c3, d3)) = (r, s4, c4, d4)"
    by (metis prod_cases4)
  have "snd e1 = submitted d" using st by (auto simp: logged_executor_def d1_def split: prod.splits)
  then have o2: "order_ok d2" "same_control d d2" using ok by (simp_all add: order_ok_def same_control_def d2_def d1_def)
  then have "d_plan_count d2 \<le> d_prepared_batches d2" by (simp add: order_ok_def ring_ok_def)
  then have o3: "order_ok d3" "same_control d2 d3"
    using pr o2 prepare_loop_order [of d2 "d_prepared_batches d2 - d_plan_count d2" pops c1]
    by (auto simp: pipeline_prepare_def same_control_def split: if_splits)
  then have o4: "order_ok d4" "same_control d3 d4"
    using su submit_loop_order [of d3 "d_plan_count d3" eops c3] by (auto simp: same_control_def split: if_splits)
  have "damacy_scheduler_step (logged_planner pops) (logged_executor eops) d =
      (case r of Some b \<Rightarrow> (b, d4) | None \<Rightarrow> if s4 \<noteq> DAMACY_OK then (True, d4 \<lparr>d_failed_status := s4\<rparr>) else (c4, d4))"
    unfolding damacy_scheduler_step_def Let_def d1_def [symmetric] st prod.case d2_def [symmetric] s2_def [symmetric] pr su
    using False by (simp split: option.split)
  then show ?thesis using o2 o3 o4
    by (auto simp: same_control_def order_ok_def split: option.splits)
qed

definition order_inv :: "('p, 'e) logged_damacy \<Rightarrow> bool" where
  "order_inv d \<longleftrightarrow>
     (if d_stopped d
      then d_stopping d \<and> (\<exists>rest. produced d = map fst (submitted d) @ rest \<and> length rest \<le> d_prepared_batches d) \<and>
        map snd (submitted d) = map (\<lambda>i. i mod 2 ^ 64) [0 ..< length (submitted d)]
      else order_ok d)"

lemma order_okI_stopped: "order_ok d \<Longrightarrow> d_stopping d \<Longrightarrow> order_inv d"
  by (auto simp: order_inv_def order_ok_def ring_ok_def)

text \<open>A section that leaves the ring, the logs and the flags alone keeps the invariant.\<close>

lemma order_inv_same:
  assumes "order_inv d" and "d_plans d' = d_plans d" "d_plan_head d' = d_plan_head d" "d_plan_count d' = d_plan_count d"
    "d_prepared_batches d' = d_prepared_batches d" "d_next_batch_id d' = d_next_batch_id d" "d_stopped d' = d_stopped d"
    "produced d' = produced d" "submitted d' = submitted d" "d_stopping d \<longrightarrow> d_stopping d'"
  shows "order_inv d'"
proof -
  have "ring_ok d' = ring_ok d" "ring_plans d' = ring_plans d" using assms by (simp_all add: ring_ok_def ring_plans_def)
  then show ?thesis using assms by (auto simp: order_inv_def order_ok_def)
qed

lemma pop_section_order:
  "order_inv d \<Longrightarrow> order_inv (snd (pop_section pops (logged_executor eops) d)) \<and>
     d_prepared_batches (snd (pop_section pops (logged_executor eops) d)) = d_prepared_batches d"
  by (auto simp: pop_section_def pop_turn_def logged_executor_def Let_def elim!: order_inv_same
      split: prod.splits sum.splits option.splits if_splits)

lemma push_order:
  "order_inv d \<Longrightarrow> order_inv (snd (snd (damacy_push (logged_planner pops) d samples))) \<and>
     d_prepared_batches (snd (snd (damacy_push (logged_planner pops) d samples))) = d_prepared_batches d"
  by (auto simp: damacy_push_def push_to_planner_def logged_planner_def Let_def elim!: order_inv_same
      split: prod.splits if_splits)

lemma shutdown_order:
  "order_inv d \<Longrightarrow> d_stopping d \<Longrightarrow> \<not> d_stopped d \<Longrightarrow> order_inv (shutdown_finish (logged_planner pops) (logged_executor eops) d)"
  by (auto simp: order_inv_def order_ok_def ring_ok_def shutdown_finish_def logged_planner_def logged_executor_def
      split: prod.splits)

lemma pipeline_step_order:
  assumes "pipeline_step (logged_planner pops) (logged_executor eops) d d'" and inv: "order_inv d"
  shows "order_inv d' \<and> d_prepared_batches d' = d_prepared_batches d"
  using assms(1)
proof cases
  case sched
  show ?thesis
  proof (cases "d_stopped d")
    case True
    then show ?thesis using inv sched by (simp add: order_inv_def damacy_scheduler_step_def)
  next
    case False
    then have "order_ok d" using inv by (simp add: order_inv_def)
    then show ?thesis using scheduler_step_order [of d pops eops] False sched by (simp add: order_inv_def)
  qed
next
  case (push samples)
  then show ?thesis using push_order [OF inv] by simp
next
  case pop_enter
  have "order_inv (d \<lparr>d_pop_calls := d_pop_calls d + 1\<rparr>)" by (rule order_inv_same [OF inv]) simp_all
  then show ?thesis using pop_section_order pop_enter by fastforce
next
  case pop_wake
  then show ?thesis using pop_section_order [OF inv] by simp
next
  case stop
  have "order_inv (shutdown_begin (logged_planner pops) (logged_executor eops) d)"
    by (rule order_inv_same [OF inv]) (simp_all add: shutdown_begin_def)
  then show ?thesis using stop by (simp add: shutdown_begin_def)
next
  case stopped
  then show ?thesis using shutdown_order [OF inv] by (simp add: shutdown_finish_def)
qed

lemma damacy_new_order:
  assumes "0 < n"
  shows "order_inv (damacy_new (p, []) (e, []) accepts_indexed n)"
  using assms by (simp add: order_inv_def order_ok_def damacy_new_def ring_ok_def ring_plans_def)

text \<open>C1. Whatever the planner and the executor do, and however the sections of any number of pushing, popping and
  stopping threads interleave with the scheduler: the executor has accepted exactly the first plans the planner
  returned, each once and in order, numbered consecutively from zero (modulo \<open>2^64\<close>); the remaining plans, at most
  \<open>prepared_batches\<close> of them, are the ones in the ring while the pipeline runs.\<close>

theorem plans_submitted_in_order:
  assumes "(pipeline_step (logged_planner pops) (logged_executor eops))\<^sup>*\<^sup>* (damacy_new (p, []) (e, []) accepts_indexed n) d"
    and "0 < n"
  shows "\<exists>rest. produced d = map fst (submitted d) @ rest \<and> length rest \<le> n \<and> (\<not> d_stopped d \<longrightarrow> rest = ring_plans d) \<and>
           map snd (submitted d) = map (\<lambda>i. i mod 2 ^ 64) [0 ..< length (submitted d)]"
proof -
  have "order_inv d \<and> d_prepared_batches d = n"
    using assms(1)
  proof induction
    case base
    then show ?case using damacy_new_order [OF assms(2)] by (simp add: damacy_new_def)
  next
    case (step y z)
    then show ?case using pipeline_step_order by fastforce
  qed
  then show ?thesis by (auto simp: order_inv_def order_ok_def ring_ok_def split: if_splits)
qed

text \<open>A planner that has \<open>k\<close> empty plans ready and an executor that accepts everything.\<close>

definition demo_plan :: prepared_plan where
  "demo_plan = \<lparr>pp_output = \<lparr>spec_dtype = DAMACY_F32, spec_sample_shape = [], spec_sample_rank = 0, spec_samples_per_batch = 0\<rparr>,
     pp_arrays = [], pp_chunks = [], pp_regions = [], pp_uses = [], pp_n_arrays = 0, pp_n_chunks = 0, pp_n_regions = 0,
     pp_n_uses = 0, pp_allocated_bytes = 0\<rparr>"

definition demo_planner :: "nat planner_ops" where
  "demo_planner = \<lparr>po_push = (\<lambda>k samples. (length samples, DAMACY_OK, k + length samples)),
     po_next = (\<lambda>k. if k = 0 then (Inl DAMACY_AGAIN, 0) else (Inr (demo_plan \<lparr>pp_allocated_bytes := k\<rparr>), k - 1)),
     po_pending = (\<lambda>k. k), po_stats = (\<lambda>k st. st), po_stop = (\<lambda>k. 0)\<rparr>"

definition demo_executor :: "(nat, nat) executor_ops" where
  "demo_executor = \<lparr>eo_enter_thread = None, eo_submit = (\<lambda>e plan id. (DAMACY_OK, e + 1)), eo_step = (\<lambda>e. (DAMACY_OK, False, e)),
     eo_take = (\<lambda>e. if e = 0 then (Inl DAMACY_AGAIN, 0) else (Inr e, e - 1)), eo_busy = (\<lambda>e. e > 0), eo_stats = (\<lambda>e st. st),
     eo_stop = (\<lambda>e. 0)\<rparr>"

abbreviation demo_start :: "(nat, nat) logged_damacy" where
  "demo_start \<equiv> damacy_new (3, []) (0, []) True 2"

theorem plans_submitted_in_order_witness:
  "\<exists>d rest. d = snd (damacy_scheduler_step (logged_planner demo_planner) (logged_executor demo_executor) demo_start) \<and>
     produced d = map fst (submitted d) @ rest \<and> map snd (submitted d) = [0, 1] \<and> length rest \<le> 2"
proof -
  let ?d = "snd (damacy_scheduler_step (logged_planner demo_planner) (logged_executor demo_executor) demo_start)"
  have "(pipeline_step (logged_planner demo_planner) (logged_executor demo_executor))\<^sup>*\<^sup>* demo_start ?d"
    by (rule r_into_rtranclp) (rule pipeline_step.sched)
  note order = plans_submitted_in_order [OF this zero_less_numeral]
  have "map snd (submitted ?d) = [0, 1]" by code_simp
  then show ?thesis using order by (elim exE conjE) (intro exI conjI, rule refl)
qed



text \<open>The states at which the turns of a pop start.\<close>

fun pop_states :: "'p planner_ops \<Rightarrow> ('e, 'b) executor_ops \<Rightarrow> (nat \<Rightarrow> ('p, 'e) damacy \<Rightarrow> ('p, 'e) damacy) \<Rightarrow> ('p, 'e) damacy \<Rightarrow> nat \<Rightarrow> ('p, 'e) damacy" where
  "pop_states pops eops wake d 0 = d"
| "pop_states pops eops wake d (Suc i) = wake i (snd (pop_turn pops eops (pop_states pops eops wake d i)))"

lemma pop_turn_calls: "d_pop_calls (snd (pop_turn pops eops d)) = d_pop_calls d"
  by (auto simp: pop_turn_def Let_def split: prod.splits sum.splits)

lemma pop_loop_answers:
  assumes "\<forall>j < k. fst (pop_turn pops eops (s (i + j))) = None"
    and "\<forall>j < k. s (Suc (i + j)) = wake (i + j) (snd (pop_turn pops eops (s (i + j))))"
    and "pop_turn pops eops (s (i + k)) = (Some res, d')" and "k < fuel"
  shows "pop_loop fuel pops eops wake i (s i) = Some (res, d' \<lparr>d_pop_calls := d_pop_calls d' - 1\<rparr>)"
  using assms
proof (induction k arbitrary: i fuel)
  case 0
  then obtain n where "fuel = Suc n" by (cases fuel) auto
  then show ?case using 0 by (simp add: pop_section_def)
next
  case (Suc k)
  then obtain n where n: "fuel = Suc n" by (cases fuel) auto
  have i: "fst (pop_turn pops eops (s i)) = None" "s (Suc i) = wake i (snd (pop_turn pops eops (s i)))"
    using Suc.prems(1,2) [rule_format, of 0] by simp_all
  have "pop_loop n pops eops wake (Suc i) (s (Suc i)) = Some (res, d' \<lparr>d_pop_calls := d_pop_calls d' - 1\<rparr>)"
    using Suc.prems(1,2) [rule_format, of "Suc _"] Suc.prems(3,4) n by (intro Suc.IH) auto
  then show ?case using n i by (cases "pop_turn pops eops (s i)") (simp add: pop_section_def)
qed

lemma pop_turn_again:
  assumes "pop_turn pops eops d = (Some (Inl DAMACY_AGAIN), d')" and "d_failed_status d \<noteq> DAMACY_AGAIN"
  shows "d_plan_count d' = 0 \<and> po_pending pops (d_planner d') = 0 \<and> \<not> eo_busy eops (d_executor d')"
  using assms by (auto simp: pop_turn_def Let_def split: prod.splits sum.splits if_splits)

lemma pop_turn_stop: "d_stopping d \<Longrightarrow> pop_turn pops eops d = (Some (Inl DAMACY_SHUTDOWN), d)"
  by (simp add: pop_turn_def)




definition demo_samples :: "damacy_sample list" where
  "demo_samples =
     [\<lparr>sample_uri = Some ''a'', sample_rank = 1, sample_axes = [Axis_Interval \<lparr>iv_beg = 0, iv_end = 4\<rparr>]\<rparr>,
      \<lparr>sample_uri = Some ''b'', sample_rank = 1, sample_axes = [Axis_Indices (Some [0, 2]) 2]\<rparr>]"


end
