(* ===== verification/Components.thy ===== *)
theory Components
  imports Config Batch_Pool
begin

text \<open>
  The parts a pipeline is assembled from (src/src/pipeline/components.c and .h): the layout of an output batch, the
  constructors of the readers and of the metadata description with their argument checks, and the reference counts
  of buffers and batches. The layout is shown equal to a closed form; the reference counts are shown to keep every
  buffer alive exactly as long as somebody can reach it, and to report a buffer as available exactly when no batch
  refers to it.
\<close>

section \<open>Batch layout\<close>

fun spec_loop :: "int list \<Rightarrow> nat \<Rightarrow> nat option" where
  "spec_loop [] elements = Some elements"
| "spec_loop (extent # extents) elements =
     (if extent \<le> 0 \<or> elements > nat INT64_MAX div nat extent then None
      else spec_loop extents (u64_mul elements (nat extent)))"

text \<open>The shape, the strides and the number of bytes, or the status.\<close>

definition batch_spec_layout :: "damacy_batch_spec option \<Rightarrow> damacy_status + int list \<times> int list \<times> nat" where
  "batch_spec_layout spec =
     (case spec of
        None \<Rightarrow> Inl DAMACY_INVAL
      | Some spec \<Rightarrow>
          let rank = spec_sample_rank spec; bpe = damacy_dtype_bpe (spec_dtype spec) in
          if spec_samples_per_batch spec = 0 \<or> spec_samples_per_batch spec > UINT16_MAX \<or> rank = 0 \<or>
             rank > DAMACY_MAX_RANK \<or> bpe = 0
          then Inl DAMACY_INVAL
          else
            (case spec_loop (take rank (spec_sample_shape spec)) (spec_samples_per_batch spec) of
               None \<Rightarrow> Inl DAMACY_INVAL
             | Some elements \<Rightarrow>
                 if elements > SIZE_MAX div bpe then Inl DAMACY_BUDGET
                 else
                   let shape = int (spec_samples_per_batch spec) # take rank (spec_sample_shape spec)
                   in Inr (shape, strides_loop shape rank ((replicate (rank + 1) 0)[rank := 1]), u64_mul elements bpe)))"

lemma prod_list_pos: "\<forall>n \<in> set ns. (0 :: int) < n \<Longrightarrow> 0 < prod_list ns"
  by (induction ns) auto

lemma le_div_iff_mult_le: "0 < (b :: nat) \<Longrightarrow> a \<le> c div b \<longleftrightarrow> a * b \<le> c"
  by (rule less_eq_div_iff_mult_less_eq)

lemma spec_loop_result:
  assumes "0 < elements" and "int elements \<le> INT64_MAX"
  shows "spec_loop ns elements =
    (if (\<forall>n \<in> set ns. 0 < n) \<and> int elements * prod_list ns \<le> INT64_MAX then Some (nat (int elements * prod_list ns)) else None)"
  using assms
proof (induction ns arbitrary: elements)
  case (Cons n ns)
  show ?case
  proof (cases "0 < n \<and> int elements * n \<le> INT64_MAX")
    case True
    then have m: "elements * nat n \<le> nat INT64_MAX" by (simp add: nat_mult_distrib nat_le_iff flip: of_nat_le_iff [where 'a = int])
    then have u: "u64_mul elements (nat n) = elements * nat n" by (intro u64_mul_exact) simp
    have g: "\<not> elements > nat INT64_MAX div nat n" using m True le_div_iff_mult_le [of "nat n" elements "nat INT64_MAX"] by simp
    have "int (elements * nat n) = int elements * n" using True by simp
    then show ?thesis
      using True g Cons.IH [of "elements * nat n"] Cons.prems(1) by (simp add: u mult.assoc)
  next
    case False
    have "\<not> (0 < n \<and> (\<forall>n \<in> set ns. 0 < n) \<and> int elements * (n * prod_list ns) \<le> INT64_MAX)"
    proof
      assume a: "0 < n \<and> (\<forall>n \<in> set ns. 0 < n) \<and> int elements * (n * prod_list ns) \<le> INT64_MAX"
      then have "1 \<le> prod_list ns" using prod_list_pos [of ns] by simp
      then have "int elements * n * 1 \<le> int elements * n * prod_list ns" using a by (intro mult_left_mono) simp_all
      then show False using a False by (simp add: mult.assoc)
    qed
    moreover have "n \<le> 0 \<or> elements > nat INT64_MAX div nat n"
    proof (cases "0 < n")
      case True
      then have "nat INT64_MAX < elements * nat n" using False by (simp add: nat_mult_distrib nat_less_iff flip: of_nat_less_iff [where 'a = int])
      then show ?thesis using True le_div_iff_mult_le [of "nat n" elements "nat INT64_MAX"] by simp
    qed simp
    ultimately show ?thesis by auto
  qed
qed simp

lemma strides_loop_length: "length (strides_loop shape d strides) = length strides"
  by (induction shape d strides rule: strides_loop.induct) auto

text \<open>C37. The layout of an output batch: with a valid sample count, rank, element size and extents whose product with
  the sample count fits \<open>int64_t\<close>, the shape is the sample count followed by the extents, the strides are the
  row-major ones and the size is the exact number of bytes; a size that does not fit \<open>size_t\<close> is
  \<open>DAMACY_BUDGET\<close> and everything else \<open>DAMACY_INVAL\<close>.\<close>

theorem batch_spec_layout_exact:
  assumes "spec_sample_rank spec \<le> length (spec_sample_shape spec)"
    and "shape = int (spec_samples_per_batch spec) # take (spec_sample_rank spec) (spec_sample_shape spec)"
  shows "batch_spec_layout (Some spec) =
     (if spec_samples_per_batch spec \<le> UINT16_MAX \<and> 0 < spec_sample_rank spec \<and> spec_sample_rank spec \<le> DAMACY_MAX_RANK \<and>
         0 < damacy_dtype_bpe (spec_dtype spec) \<and> (\<forall>n \<in> set shape. 0 < n) \<and> prod_list shape \<le> INT64_MAX
      then
        (if prod_list shape * int (damacy_dtype_bpe (spec_dtype spec)) < 2 ^ 64
         then Inr (shape, row_strides shape, nat (prod_list shape) * damacy_dtype_bpe (spec_dtype spec))
         else Inl DAMACY_BUDGET)
      else Inl DAMACY_INVAL)"
proof -
  let ?n = "spec_samples_per_batch spec" and ?r = "spec_sample_rank spec" and ?b = "damacy_dtype_bpe (spec_dtype spec)"
  let ?ns = "take ?r (spec_sample_shape spec)"
  let ?guard = "?n \<noteq> 0 \<and> ?n \<le> UINT16_MAX \<and> ?r \<noteq> 0 \<and> ?r \<le> DAMACY_MAX_RANK \<and> ?b \<noteq> 0"
  let ?fits = "(\<forall>n \<in> set ?ns. 0 < n) \<and> int ?n * prod_list ?ns \<le> INT64_MAX"
  have len: "length shape = ?r + 1" using assms by simp
  define st0 where "st0 = ((replicate (?r + 1) 0)[?r := 1 :: int])"
  have st0: "length st0 = ?r + 1" "st0 ! ?r = 1" by (simp_all add: st0_def del: replicate_Suc)
  have "take (?r + 1) (strides_loop shape ?r st0) = row_strides (take (?r + 1) shape)"
    using len st0 by (intro strides_loop_result) auto
  then have str: "strides_loop shape ?r ((replicate (?r + 1) 0)[?r := 1]) = row_strides shape"
    unfolding st0_def [symmetric] using len st0 by (simp add: strides_loop_length)
  consider "\<not> ?guard" | "?guard" "\<not> ?fits" | "?guard" "?fits" by blast
  then show ?thesis
  proof cases
    case 1
    then show ?thesis unfolding batch_spec_layout_def by (auto simp: assms(2) Let_def)
  next
    case 2
    then show ?thesis unfolding batch_spec_layout_def by (auto simp: assms(2) Let_def spec_loop_result)
  next
    case 3
    obtain E where E: "E = nat (prod_list shape)" by simp
    have e: "spec_loop ?ns ?n = Some E" using 3 by (simp add: spec_loop_result E assms(2))
    have p: "int E = prod_list shape" using 3 prod_list_pos [of ?ns] by (simp add: assms(2) E)
    have le: "\<not> E > SIZE_MAX div ?b \<longleftrightarrow> E * ?b < 2 ^ 64"
      using 3(1) le_div_iff_mult_le [of ?b E SIZE_MAX] by auto
    have iff: "E * ?b < 2 ^ 64 \<longleftrightarrow> prod_list shape * int ?b < 2 ^ 64"
      unfolding p [symmetric] of_nat_mult [symmetric] by (metis of_nat_less_iff of_nat_numeral of_nat_power)
    show ?thesis
    proof (cases "E * ?b < 2 ^ 64")
      case True
      then have "batch_spec_layout (Some spec) = Inr (shape, row_strides shape, E * ?b)"
        using 3(1) e le str unfolding batch_spec_layout_def
        by (simp add: Let_def u64_mul_exact assms(2) [symmetric] del: replicate_Suc)
      then show ?thesis using 3 True iff E by (simp add: assms(2))
    next
      case False
      then have "batch_spec_layout (Some spec) = Inl DAMACY_BUDGET"
        using 3(1) e le unfolding batch_spec_layout_def by (simp add: Let_def)
      then show ?thesis using 3 False iff by (simp add: assms(2))
    qed
  qed
qed

definition spec_demo :: damacy_batch_spec where
  "spec_demo = \<lparr>spec_dtype = DAMACY_F32, spec_sample_shape = [3, 5], spec_sample_rank = 2, spec_samples_per_batch = 4\<rparr>"

theorem batch_spec_layout_exact_witness:
  "batch_spec_layout (Some spec_demo) = Inr ([4, 3, 5], [15, 5, 1], 240)"
proof -
  have "damacy_dtype_bpe DAMACY_F32 = 4" by code_simp
  then show ?thesis
    using batch_spec_layout_exact [of spec_demo "[4, 3, 5]"] by (simp add: spec_demo_def DAMACY_MAX_RANK_def)
qed

section \<open>Readers and metadata\<close>

record damacy_file_reader_config =
  frc_workers :: nat
  frc_max_inflight_reads :: nat
  frc_enable_readahead :: nat

record damacy_reader =
  rd_store_threads :: nat
  rd_max_inflight_reads :: nat
  rd_enable_readahead :: nat

record damacy_metadata_reader =
  mr_concurrency :: nat
  mr_latency :: "damacy_latency_model option"

record damacy_metadata_cache_config =
  mc_array_entries :: nat
  mc_shard_entries :: nat

record damacy_metadata =
  md_reader :: damacy_metadata_reader
  md_cache :: damacy_metadata_cache_config

text \<open>\<open>cpus\<close> is the number of online CPUs, \<open>calloc_ok\<close> and \<open>store_ok\<close> the outcomes of the allocation and of
  \<open>store_fs_create\<close>; of the store only its thread count is kept.\<close>

definition damacy_file_reader_create_with_config ::
    "nat \<Rightarrow> bool \<Rightarrow> bool \<Rightarrow> damacy_file_reader_config option \<Rightarrow> damacy_status + damacy_reader" where
  "damacy_file_reader_create_with_config cpus calloc_ok store_ok config =
     (case config of
        None \<Rightarrow> Inl DAMACY_INVAL
      | Some c \<Rightarrow>
          if frc_workers c = 0 \<or> frc_workers c > DAMACY_MAX_IO_THREADS \<or> frc_max_inflight_reads c = 0 \<or> frc_enable_readahead c > 1
          then Inl DAMACY_INVAL
          else if frc_workers c > cpus then Inl DAMACY_INVAL
          else if \<not> calloc_ok then Inl DAMACY_OOM
          else if \<not> store_ok then Inl DAMACY_OOM
          else Inr \<lparr>rd_store_threads = frc_workers c, rd_max_inflight_reads = frc_max_inflight_reads c,
                    rd_enable_readahead = frc_enable_readahead c\<rparr>)"

definition damacy_file_reader_create :: "nat \<Rightarrow> bool \<Rightarrow> bool \<Rightarrow> nat \<Rightarrow> nat \<Rightarrow> damacy_status + damacy_reader" where
  "damacy_file_reader_create cpus calloc_ok store_ok workers max_inflight_reads =
     damacy_file_reader_create_with_config cpus calloc_ok store_ok
       (Some \<lparr>frc_workers = workers, frc_max_inflight_reads = max_inflight_reads, frc_enable_readahead = 1\<rparr>)"

definition damacy_file_metadata_reader_create ::
    "bool \<Rightarrow> nat \<Rightarrow> damacy_latency_model option \<Rightarrow> damacy_status + damacy_metadata_reader" where
  "damacy_file_metadata_reader_create calloc_ok concurrency latency =
     (if concurrency = 0 \<or> concurrency > DAMACY_MAX_METADATA_IO_CONCURRENCY \<or>
         (case latency of None \<Rightarrow> False | Some l \<Rightarrow> \<not> lm_mu_finite l \<or> \<not> lm_sigma_finite l \<or> \<not> lm_sigma_nonneg l)
      then Inl DAMACY_INVAL
      else if \<not> calloc_ok then Inl DAMACY_OOM
      else Inr \<lparr>mr_concurrency = concurrency, mr_latency = latency\<rparr>)"

definition damacy_zarr_metadata_create ::
    "bool \<Rightarrow> damacy_metadata_reader option \<Rightarrow> damacy_metadata_cache_config option \<Rightarrow> damacy_status + damacy_metadata" where
  "damacy_zarr_metadata_create calloc_ok reader cache =
     (case (reader, cache) of
        (Some r, Some c) \<Rightarrow>
          if mc_array_entries c = 0 \<or> mc_shard_entries c = 0 then Inl DAMACY_INVAL
          else if \<not> calloc_ok then Inl DAMACY_OOM
          else Inr \<lparr>md_reader = r, md_cache = c\<rparr>
      | _ \<Rightarrow> Inl DAMACY_INVAL)"

section \<open>Buffers and batches\<close>

text \<open>The heap of buffers and batches: an address is a position, and a destroyed or freed object stays as a mark.\<close>

record damacy_buffer =
  buf_references :: nat
  buf_destroyed :: bool

record damacy_batch_info =
  bi_shape :: "int list"
  bi_rank :: nat
  bi_dtype :: damacy_dtype
  bi_batch_id :: nat

record damacy_batch =
  bat_references :: nat
  bat_buffer :: nat
  bat_info :: damacy_batch_info
  bat_freed :: bool

record batch_heap =
  bh_buffers :: "damacy_buffer list"
  bh_batches :: "damacy_batch list"

definition buffer_retain :: "batch_heap \<Rightarrow> nat \<Rightarrow> batch_heap" where
  "buffer_retain h b =
     (let buf = bh_buffers h ! b
      in h \<lparr>bh_buffers := (bh_buffers h)[b := buf \<lparr>buf_references := u32_add (buf_references buf) 1\<rparr>]\<rparr>)"

definition buffer_release :: "batch_heap \<Rightarrow> nat option \<Rightarrow> batch_heap" where
  "buffer_release h buffer =
     (case buffer of
        None \<Rightarrow> h
      | Some b \<Rightarrow>
          let buf = bh_buffers h ! b;
              buf' = buf \<lparr>buf_references := u32_sub (buf_references buf) 1\<rparr>
          in h \<lparr>bh_buffers := (bh_buffers h)[b := if buf_references buf = 1 then buf' \<lparr>buf_destroyed := True\<rparr> else buf']\<rparr>)"

definition buffer_available :: "batch_heap \<Rightarrow> nat option \<Rightarrow> bool" where
  "buffer_available h buffer = (case buffer of None \<Rightarrow> False | Some b \<Rightarrow> buf_references (bh_buffers h ! b) = 1)"

definition batch_create :: "bool \<Rightarrow> batch_heap \<Rightarrow> nat \<Rightarrow> damacy_batch_spec \<Rightarrow> nat \<Rightarrow> nat option \<times> batch_heap" where
  "batch_create calloc_ok h b out_spec batch_id =
     (if \<not> calloc_ok then (None, h)
      else
        let batch = \<lparr>bat_references = 1, bat_buffer = b,
              bat_info = \<lparr>bi_shape = int (spec_samples_per_batch out_spec) # take (spec_sample_rank out_spec) (spec_sample_shape out_spec),
                          bi_rank = (spec_sample_rank out_spec + 1) mod 2 ^ 8, bi_dtype = spec_dtype out_spec, bi_batch_id = batch_id\<rparr>,
              bat_freed = False\<rparr>;
            h = buffer_retain h b
        in (Some (length (bh_batches h)), h \<lparr>bh_batches := bh_batches h @ [batch]\<rparr>))"

definition damacy_batch_retain :: "batch_heap \<Rightarrow> nat option \<Rightarrow> batch_heap" where
  "damacy_batch_retain h batch =
     (case batch of
        None \<Rightarrow> h
      | Some i \<Rightarrow>
          let bat = bh_batches h ! i
          in h \<lparr>bh_batches := (bh_batches h)[i := bat \<lparr>bat_references := u32_add (bat_references bat) 1\<rparr>]\<rparr>)"

definition damacy_batch_release :: "batch_heap \<Rightarrow> nat option \<Rightarrow> batch_heap" where
  "damacy_batch_release h batch =
     (case batch of
        None \<Rightarrow> h
      | Some i \<Rightarrow>
          let bat = bh_batches h ! i;
              bat' = bat \<lparr>bat_references := u32_sub (bat_references bat) 1\<rparr>
          in if bat_references bat = 1
             then (buffer_release h (Some (bat_buffer bat))) \<lparr>bh_batches := (bh_batches h)[i := bat' \<lparr>bat_freed := True\<rparr>]\<rparr>
             else h \<lparr>bh_batches := (bh_batches h)[i := bat']\<rparr>)"

definition damacy_batch_info :: "batch_heap \<Rightarrow> nat option \<Rightarrow> damacy_batch_info option" where
  "damacy_batch_info h batch = map_option (\<lambda>i. bat_info (bh_batches h ! i)) batch"

section \<open>Lifetime\<close>

text \<open>What a client may do: create a batch on a buffer whose owner still holds its reference, retain and release a
  batch it holds a reference of, and the owner may give up its own reference of a buffer once. \<open>owned\<close> is the set of
  buffers whose owner has not, \<open>held i\<close> the number of references clients hold of batch \<open>i\<close>.\<close>

inductive lifetime :: "batch_heap \<Rightarrow> nat set \<Rightarrow> (nat \<Rightarrow> nat) \<Rightarrow> bool" where
  start: "lifetime \<lparr>bh_buffers = replicate n \<lparr>buf_references = 1, buf_destroyed = False\<rparr>, bh_batches = []\<rparr> {0 ..< n} (\<lambda>i. 0)"
| create: "lifetime h owned held \<Longrightarrow> b \<in> owned \<Longrightarrow> batch_create True h b out_spec batch_id = (Some i, h') \<Longrightarrow>
     length (bh_batches h) < 2 ^ 32 - 2 \<Longrightarrow> lifetime h' owned (held(i := 1))"
| retain: "lifetime h owned held \<Longrightarrow> 0 < held i \<Longrightarrow> held i < 2 ^ 32 - 1 \<Longrightarrow>
     lifetime (damacy_batch_retain h (Some i)) owned (held(i := held i + 1))"
| release: "lifetime h owned held \<Longrightarrow> 0 < held i \<Longrightarrow> lifetime (damacy_batch_release h (Some i)) owned (held(i := held i - 1))"
| disown: "lifetime h owned held \<Longrightarrow> b \<in> owned \<Longrightarrow> lifetime (buffer_release h (Some b)) (owned - {b}) held"

text \<open>The live batches on a buffer, and what every operation keeps.\<close>

definition users :: "batch_heap \<Rightarrow> (nat \<Rightarrow> nat) \<Rightarrow> nat \<Rightarrow> nat set" where
  "users h held b = {i. i < length (bh_batches h) \<and> 0 < held i \<and> bat_buffer (bh_batches h ! i) = b}"

definition lifetime_ok :: "batch_heap \<Rightarrow> nat set \<Rightarrow> (nat \<Rightarrow> nat) \<Rightarrow> bool" where
  "lifetime_ok h owned held \<longleftrightarrow>
     length (bh_batches h) < 2 ^ 32 - 1 \<and> owned \<subseteq> {0 ..< length (bh_buffers h)} \<and>
     (\<forall>i. length (bh_batches h) \<le> i \<longrightarrow> held i = 0) \<and>
     (\<forall>i < length (bh_batches h).
        bat_references (bh_batches h ! i) = held i \<and> held i < 2 ^ 32 \<and> (bat_freed (bh_batches h ! i) \<longleftrightarrow> held i = 0) \<and>
        bat_buffer (bh_batches h ! i) < length (bh_buffers h)) \<and>
     (\<forall>b < length (bh_buffers h).
        buf_references (bh_buffers h ! b) = card (users h held b) + of_bool (b \<in> owned) \<and>
        (buf_destroyed (bh_buffers h ! b) \<longleftrightarrow> users h held b = {} \<and> b \<notin> owned))"

lemma users_finite [simp]: "finite (users h held b)"
  by (simp add: users_def)

lemma users_card: "card (users h held b) \<le> length (bh_batches h)"
  using card_mono [of "{..< length (bh_batches h)}" "users h held b"] by (auto simp: users_def)

lemma lifetime_create:
  assumes ok: "lifetime_ok h owned held" and b: "b \<in> owned"
    and cr: "batch_create True h b out_spec batch_id = (Some i, h')" and "length (bh_batches h) < 2 ^ 32 - 2"
  shows "lifetime_ok h' owned (held(i := 1))"
proof -
  have i: "i = length (bh_batches h)" using cr by (auto simp: batch_create_def buffer_retain_def Let_def)
  have bb: "b < length (bh_buffers h)" using ok b by (auto simp: lifetime_ok_def)
  have u: "users h' (held(i := 1)) c = (if c = b then insert i (users h held c) else users h held c)" for c
    using cr i by (auto simp: users_def batch_create_def buffer_retain_def Let_def nth_append less_Suc_eq)
  have fresh: "i \<notin> users h held c" for c by (simp add: users_def i)
  have "buf_references (bh_buffers h ! b) + 1 < 2 ^ 32"
    using ok bb b assms(4) users_card [of h held b] by (simp add: lifetime_ok_def)
  then have refs: "u32_add (buf_references (bh_buffers h ! b)) 1 = card (users h held b) + 2"
    using ok bb b by (simp add: u32_add_exact lifetime_ok_def)
  show ?thesis
    using ok i bb b cr assms(4) refs fresh unfolding lifetime_ok_def u
    by (auto simp: batch_create_def buffer_retain_def Let_def nth_append nth_list_update less_Suc_eq)
qed

lemma lifetime_retain:
  assumes ok: "lifetime_ok h owned held" and "0 < held i" and "held i < 2 ^ 32 - 1"
  shows "lifetime_ok (damacy_batch_retain h (Some i)) owned (held(i := held i + 1))"
proof -
  have i: "i < length (bh_batches h)" using ok assms(2) by (metis lifetime_ok_def not_le less_numeral_extra(3))
  have u: "users (damacy_batch_retain h (Some i)) (held(i := held i + 1)) c = users h held c" for c
    using assms(2) by (auto simp: users_def damacy_batch_retain_def Let_def nth_list_update)
  have "u32_add (bat_references (bh_batches h ! i)) 1 = held i + 1"
    using ok i assms(3) by (simp add: lifetime_ok_def u32_add_exact)
  then show ?thesis
    using ok i assms(2,3) unfolding lifetime_ok_def u by (auto simp: damacy_batch_retain_def Let_def nth_list_update)
qed

lemma buffer_release_ok:
  assumes "buf_references (bh_buffers h ! b) = n + 1" and "n + 1 < 2 ^ 32" and "b < length (bh_buffers h)"
  shows "buf_references (bh_buffers (buffer_release h (Some b)) ! c) = (if c = b then n else buf_references (bh_buffers h ! c)) \<and>
     buf_destroyed (bh_buffers (buffer_release h (Some b)) ! c) =
       (if c = b \<and> n = 0 then True else buf_destroyed (bh_buffers h ! c)) \<and>
     length (bh_buffers (buffer_release h (Some b))) = length (bh_buffers h) \<and>
     bh_batches (buffer_release h (Some b)) = bh_batches h"
  using assms u32_sub_exact [of 1 "n + 1"] by (auto simp: buffer_release_def Let_def nth_list_update)

lemma lifetime_disown:
  assumes ok: "lifetime_ok h owned held" and b: "b \<in> owned"
  shows "lifetime_ok (buffer_release h (Some b)) (owned - {b}) held"
proof -
  have bb: "b < length (bh_buffers h)" using ok b by (auto simp: lifetime_ok_def)
  have r: "buf_references (bh_buffers h ! b) = card (users h held b) + 1" using ok bb b by (simp add: lifetime_ok_def)
  have lt: "card (users h held b) + 1 < 2 ^ 32" using ok users_card [of h held b] by (simp add: lifetime_ok_def)
  note R = buffer_release_ok [OF r lt bb]
  have u: "users (buffer_release h (Some b)) held c = users h held c" for c using R by (simp add: users_def)
  show ?thesis
    using ok b R unfolding lifetime_ok_def u by auto
qed

lemma lifetime_release:
  assumes ok: "lifetime_ok h owned held" and held: "0 < held i"
  shows "lifetime_ok (damacy_batch_release h (Some i)) owned (held(i := held i - 1))"
proof -
  let ?h = "damacy_batch_release h (Some i)" and ?b = "bat_buffer (bh_batches h ! i)"
  have i: "i < length (bh_batches h)" using ok held by (metis lifetime_ok_def not_le less_numeral_extra(3))
  have f: "bat_references (bh_batches h ! i) = held i" "held i < 2 ^ 32" "?b < length (bh_buffers h)"
    using ok i by (simp_all add: lifetime_ok_def)
  have sub: "u32_sub (held i) 1 = held i - 1" using held f(2) by (intro u32_sub_exact) simp_all
  show ?thesis
  proof (cases "held i = 1")
    case False
    then have h: "?h = h \<lparr>bh_batches := (bh_batches h)[i := (bh_batches h ! i) \<lparr>bat_references := held i - 1\<rparr>]\<rparr>"
      using f sub by (simp add: damacy_batch_release_def Let_def)
    have u: "users ?h (held(i := held i - 1)) c = users h held c" for c
      using False held i by (auto simp: users_def h nth_list_update)
    show ?thesis using ok i False held f(2) unfolding lifetime_ok_def u by (auto simp: h nth_list_update)
  next
    case True
    have mem: "i \<in> users h held ?b" using i True by (simp add: users_def)
    define n where "n = card (users h held ?b - {i}) + of_bool (?b \<in> owned)"
    have card: "card (users h held ?b) = card (users h held ?b - {i}) + 1" 
      using card.remove [OF users_finite mem] by simp
    then have r: "buf_references (bh_buffers h ! ?b) = n + 1" using ok f(3) by (simp add: lifetime_ok_def n_def)
    have "n + 1 < 2 ^ 32" using r ok f(3) users_card [of h held ?b] by (cases "?b \<in> owned") (simp_all add: lifetime_ok_def)
    note R = buffer_release_ok [OF r this f(3)]
    have h: "?h = (buffer_release h (Some ?b)) \<lparr>bh_batches :=
        (bh_batches h)[i := (bh_batches h ! i) \<lparr>bat_references := 0, bat_freed := True\<rparr>]\<rparr>"
      using f sub True by (simp add: damacy_batch_release_def Let_def)
    have u: "users ?h (held(i := held i - 1)) c = (if c = ?b then users h held c - {i} else users h held c)" for c
      using True i by (auto simp: users_def h nth_list_update)
    show ?thesis using ok i True R unfolding lifetime_ok_def u by (auto simp: h nth_list_update n_def)
  qed
qed

lemma lifetime_invariant: "lifetime h owned held \<Longrightarrow> lifetime_ok h owned held"
proof (induction rule: lifetime.induct)
  case (start n)
  then show ?case by (auto simp: lifetime_ok_def users_def)
next
  case (create h owned held b out_spec batch_id i h')
  then show ?case using lifetime_create by blast
next
  case (retain h owned held i)
  then show ?case using lifetime_retain by blast
next
  case (release h owned held i)
  then show ?case using lifetime_release by blast
next
  case (disown h owned held b)
  then show ?case using lifetime_disown by blast
qed

text \<open>C13. However clients create, retain and release batches: a batch a client holds is not freed and its buffer is not
  destroyed; a buffer whose owner keeps its reference is reported available exactly when no client holds a batch of
  it, so its memory is never filled again under a reader; and a buffer nobody can reach any more has been
  destroyed.\<close>

theorem buffer_lifetime:
  assumes "lifetime h owned held"
  shows "(\<forall>i. 0 < held i \<longrightarrow> \<not> bat_freed (bh_batches h ! i) \<and> \<not> buf_destroyed (bh_buffers h ! bat_buffer (bh_batches h ! i))) \<and>
         (\<forall>b \<in> owned. buffer_available h (Some b) \<longleftrightarrow> (\<forall>i. 0 < held i \<longrightarrow> bat_buffer (bh_batches h ! i) \<noteq> b)) \<and>
         (\<forall>b < length (bh_buffers h). b \<notin> owned \<longrightarrow> (\<forall>i. 0 < held i \<longrightarrow> bat_buffer (bh_batches h ! i) \<noteq> b) \<longrightarrow>
            buf_destroyed (bh_buffers h ! b))"
proof -
  have ok: "lifetime_ok h owned held" using lifetime_invariant [OF assms] .
  have lt: "i < length (bh_batches h)" if "0 < held i" for i
    using ok that by (metis lifetime_ok_def not_le less_numeral_extra(3))
  have empty: "users h held b = {} \<longleftrightarrow> (\<forall>i. 0 < held i \<longrightarrow> bat_buffer (bh_batches h ! i) \<noteq> b)" for b
    using lt unfolding users_def by blast
  have "\<not> bat_freed (bh_batches h ! i) \<and> \<not> buf_destroyed (bh_buffers h ! bat_buffer (bh_batches h ! i))" if "0 < held i" for i
  proof -
    let ?b = "bat_buffer (bh_batches h ! i)"
    have "?b < length (bh_buffers h)" "\<not> bat_freed (bh_batches h ! i)" using ok lt [OF that] that by (simp_all add: lifetime_ok_def)
    moreover have "users h held ?b \<noteq> {}" using empty [of ?b] that by blast
    ultimately show ?thesis using ok by (simp add: lifetime_ok_def)
  qed
  moreover have "buffer_available h (Some b) \<longleftrightarrow> users h held b = {}" if "b \<in> owned" for b
  proof -
    have "b < length (bh_buffers h)" using ok that by (auto simp: lifetime_ok_def)
    then have "buf_references (bh_buffers h ! b) = card (users h held b) + 1" using ok that by (simp add: lifetime_ok_def)
    then show ?thesis by (simp add: buffer_available_def)
  qed
  moreover have "buf_destroyed (bh_buffers h ! b)" if "b < length (bh_buffers h)" "b \<notin> owned" "users h held b = {}" for b
    using ok that by (simp add: lifetime_ok_def)
  ultimately show ?thesis unfolding empty [symmetric] by blast
qed

theorem buffer_lifetime_witness:
  "\<exists>h. snd (batch_create True \<lparr>bh_buffers = replicate 2 \<lparr>buf_references = 1, buf_destroyed = False\<rparr>, bh_batches = []\<rparr> 1 spec_demo 7) = h \<and>
     buffer_available h (Some 0) \<and> \<not> buffer_available h (Some 1)"
proof -
  let ?h0 = "\<lparr>bh_buffers = replicate 2 \<lparr>buf_references = 1, buf_destroyed = False\<rparr>, bh_batches = []\<rparr>"
  obtain h where h: "batch_create True ?h0 1 spec_demo 7 = (Some 0, h)"
    by (simp add: batch_create_def Let_def buffer_retain_def)
  have "lifetime h {0 ..< 2} ((\<lambda>i. 0)(0 := 1))"
    by (rule lifetime.create [OF lifetime.start _ h]) simp_all
  from buffer_lifetime [OF this] have "buffer_available h (Some b) \<longleftrightarrow> bat_buffer (bh_batches h ! 0) \<noteq> b" if "b < 2" for b
    using that by auto
  moreover have "bat_buffer (bh_batches h ! 0) = 1" using h by (auto simp: batch_create_def Let_def buffer_retain_def)
  ultimately show ?thesis using h by (intro exI [of _ h]) simp
qed

end
