(* ===== verification/Lifecycle.thy ===== *)
theory Lifecycle
  imports Pipeline Components
begin

text \<open>
  Creation of a pipeline (src/src/damacy\_lifecycle.c): \<open>damacy_pipeline_create\<close> claims and starts a planner and an
  executor and undoes everything on a failure; \<open>damacy_create\<close> validates a configuration and builds the default
  components in order. The outcomes of allocations, of the components' start operations and of another thread's race
  for the same component are parameters.
\<close>

section \<open>Creating a pipeline\<close>

text \<open>A planner or an executor with its \<open>active\<close> flag.\<close>

record 'c component =
  c_active :: bool
  c_state :: 'c

record damacy_queue_limits =
  ql_lookahead_samples :: nat
  ql_prepared_batches :: nat

text \<open>The outcomes the call meets: \<open>_taken\<close> says whether another pipeline claimed the component between the first test
  of its flag and the exchange.\<close>

record create_env =
  ce_self_ok :: bool
  ce_plans_ok :: bool
  ce_planner_taken :: bool
  ce_executor_taken :: bool
  ce_scheduler_ok :: bool

type_synonym ('p, 'e) create_result = "(damacy_status + ('p, 'e) damacy) \<times> 'p component \<times> 'e component"

text \<open>The code at \<open>Fail\<close>: stop what was started, then clear the flags that were claimed.\<close>

definition create_fail ::
    "'p planner_ops \<Rightarrow> ('e, 'b) executor_ops \<Rightarrow> damacy_status \<Rightarrow> bool \<Rightarrow> bool \<Rightarrow> bool \<Rightarrow> bool \<Rightarrow>
     'p component \<Rightarrow> 'e component \<Rightarrow> ('p, 'e) create_result" where
  "create_fail pops eops status planner_claimed executor_claimed planner_started executor_started planner executor =
     (let executor = (if executor_started then executor \<lparr>c_state := eo_stop eops (c_state executor)\<rparr> else executor);
          planner = (if planner_started then planner \<lparr>c_state := po_stop pops (c_state planner)\<rparr> else planner);
          executor = (if executor_claimed then executor \<lparr>c_active := False\<rparr> else executor);
          planner = (if planner_claimed then planner \<lparr>c_active := False\<rparr> else planner)
      in (Inl status, planner, executor))"

definition create_start ::
    "create_env \<Rightarrow> 'p planner_ops \<Rightarrow> ('e, 'b) executor_ops \<Rightarrow> ('p \<Rightarrow> damacy_status \<times> 'p) \<Rightarrow> ('e \<Rightarrow> damacy_status \<times> 'e) \<Rightarrow>
     bool \<Rightarrow> nat \<Rightarrow> 'p component \<Rightarrow> 'e component \<Rightarrow> ('p, 'e) create_result" where
  "create_start env pops eops pstart estart accepts_indexed prepared_batches planner executor =
     (let planner = planner \<lparr>c_active := ce_planner_taken env\<rparr>; executor = executor \<lparr>c_active := ce_executor_taken env\<rparr>
      in if c_active planner then create_fail pops eops DAMACY_INVAL False False False False planner executor
         else
           let planner = planner \<lparr>c_active := True\<rparr>
           in if c_active executor then create_fail pops eops DAMACY_INVAL True False False False planner executor
              else
                let executor = executor \<lparr>c_active := True\<rparr>;
                    (status, p) = pstart (c_state planner);
                    planner = planner \<lparr>c_state := p\<rparr>
                in if status \<noteq> DAMACY_OK then create_fail pops eops status True True False False planner executor
                   else
                     let (status, e) = estart (c_state executor);
                         executor = executor \<lparr>c_state := e\<rparr>
                     in if status \<noteq> DAMACY_OK then create_fail pops eops status True True True False planner executor
                        else if \<not> ce_scheduler_ok env then create_fail pops eops DAMACY_OOM True True True True planner executor
                        else (Inr (damacy_new p e accepts_indexed prepared_batches), planner, executor))"

definition damacy_pipeline_create ::
    "create_env \<Rightarrow> 'p planner_ops \<Rightarrow> ('e, 'b) executor_ops \<Rightarrow>
     (damacy_batch_spec \<Rightarrow> damacy_queue_limits \<Rightarrow> 'p \<Rightarrow> damacy_status \<times> 'p) \<Rightarrow> (damacy_batch_spec \<Rightarrow> 'e \<Rightarrow> damacy_status \<times> 'e) \<Rightarrow>
     bool \<Rightarrow> damacy_batch_spec \<Rightarrow> damacy_queue_limits \<Rightarrow> 'p component \<Rightarrow> 'e component \<Rightarrow> ('p, 'e) create_result" where
  "damacy_pipeline_create env pops eops pstart estart accepts_indexed out_spec queues planner executor =
     (if c_active planner \<or> c_active executor \<or> ql_prepared_batches queues = 0 \<or> ql_prepared_batches queues > 1024 \<or>
         ql_lookahead_samples queues < spec_samples_per_batch out_spec \<or> ql_lookahead_samples queues > UINT32_MAX - 4
      then (Inl DAMACY_INVAL, planner, executor)
      else
        (case batch_spec_layout (Some out_spec) of
           Inl status \<Rightarrow> (Inl status, planner, executor)
         | Inr _ \<Rightarrow>
             if \<not> ce_self_ok env then (Inl DAMACY_OOM, planner, executor)
             else if \<not> ce_plans_ok env then create_fail pops eops DAMACY_OOM False False False False planner executor
             else create_start env pops eops (pstart out_spec queues) (estart out_spec) accepts_indexed
                    (ql_prepared_batches queues) planner executor))"

text \<open>\<open>damacy_planner_destroy\<close> and \<open>damacy_executor_destroy\<close>: whether the component's destroy operation is called.\<close>

definition damacy_planner_destroy :: "'c component option \<Rightarrow> bool" where
  "damacy_planner_destroy planner = (case planner of None \<Rightarrow> False | Some p \<Rightarrow> \<not> c_active p)"

definition damacy_executor_destroy :: "'c component option \<Rightarrow> bool" where
  "damacy_executor_destroy executor = (case executor of None \<Rightarrow> False | Some e \<Rightarrow> \<not> c_active e)"

section \<open>Undoing a failed creation\<close>

text \<open>The start and stop operations, also counting how often a component runs.\<close>

definition counted_start :: "('c \<Rightarrow> damacy_status \<times> 'c) \<Rightarrow> 'c \<times> int \<Rightarrow> damacy_status \<times> 'c \<times> int" where
  "counted_start start = (\<lambda>(c, n). case start c of (status, c) \<Rightarrow> (status, c, if status = DAMACY_OK then n + 1 else n))"

abbreviation running :: "('c \<times> int) component \<Rightarrow> int" where
  "running c \<equiv> snd (c_state c)"

lemma create_start_undo:
  assumes "create_start env pops eops (counted_start pstart) (counted_start estart) accepts_indexed n planner executor =
      (res, planner', executor')"
    and "\<And>p. snd (po_stop pops p) = snd p - 1" and "\<And>e. snd (eo_stop eops e) = snd e - 1"
  shows "(case res of
            Inl status \<Rightarrow> running planner' = running planner \<and> running executor' = running executor \<and>
              c_active planner' = ce_planner_taken env \<and> c_active executor' = ce_executor_taken env
          | Inr d \<Rightarrow> running planner' = running planner + 1 \<and> running executor' = running executor + 1 \<and>
              c_active planner' \<and> c_active executor' \<and> d = damacy_new (c_state planner') (c_state executor') accepts_indexed n)"
  using assms
  by (auto simp: create_start_def create_fail_def counted_start_def Let_def split: prod.splits if_splits)

text \<open>C38. Whatever fails on the way, a failed creation leaves nothing behind: every component that was started is
  stopped again, and a component's \<open>active\<close> flag is set only if another pipeline set it. A creation that succeeds has
  started each component once, has claimed both, and returns an empty pipeline over them.\<close>

theorem damacy_pipeline_create_undoes:
  assumes "damacy_pipeline_create env pops eops (\<lambda>s q. counted_start (pstart s q)) (\<lambda>s. counted_start (estart s))
      accepts_indexed out_spec queues planner executor = (res, planner', executor')"
    and "\<And>p. snd (po_stop pops p) = snd p - 1" and "\<And>e. snd (eo_stop eops e) = snd e - 1"
    and "\<not> c_active planner" and "\<not> c_active executor"
  shows "(case res of
            Inl status \<Rightarrow> running planner' = running planner \<and> running executor' = running executor \<and>
              (c_active planner' \<longrightarrow> ce_planner_taken env) \<and> (c_active executor' \<longrightarrow> ce_executor_taken env)
          | Inr d \<Rightarrow> running planner' = running planner + 1 \<and> running executor' = running executor + 1 \<and>
              c_active planner' \<and> c_active executor' \<and>
              d = damacy_new (c_state planner') (c_state executor') accepts_indexed (ql_prepared_batches queues) \<and>
              0 < ql_prepared_batches queues)"
  using assms(1,4,5) create_start_undo [of env pops eops "pstart out_spec queues" "estart out_spec" accepts_indexed
      "ql_prepared_batches queues" planner executor res planner' executor', OF _ assms(2,3)]
  unfolding damacy_pipeline_create_def
  by (auto simp: create_fail_def Let_def split: if_splits sum.splits)

definition limits_demo :: damacy_queue_limits where
  "limits_demo = \<lparr>ql_lookahead_samples = 4, ql_prepared_batches = 2\<rparr>"

definition counted_planner :: "(nat \<times> int) planner_ops" where
  "counted_planner = \<lparr>po_push = (\<lambda>p xs. (0, DAMACY_AGAIN, p)), po_next = (\<lambda>p. (Inl DAMACY_AGAIN, p)), po_pending = (\<lambda>p. 0),
     po_stats = (\<lambda>p st. st), po_stop = (\<lambda>(p, n). (p, n - 1))\<rparr>"

definition counted_executor :: "(nat \<times> int, nat) executor_ops" where
  "counted_executor = \<lparr>eo_enter_thread = None, eo_submit = (\<lambda>e plan id. (DAMACY_AGAIN, e)), eo_step = (\<lambda>e. (DAMACY_AGAIN, False, e)),
     eo_take = (\<lambda>e. (Inl DAMACY_AGAIN, e)), eo_busy = (\<lambda>e. False), eo_stats = (\<lambda>e st. st), eo_stop = (\<lambda>(e, n). (e, n - 1))\<rparr>"

text \<open>The executor fails to start after the planner has started.\<close>

theorem damacy_pipeline_create_undoes_witness:
  "\<exists>planner' executor'.
     damacy_pipeline_create \<lparr>ce_self_ok = True, ce_plans_ok = True, ce_planner_taken = False, ce_executor_taken = False, ce_scheduler_ok = True\<rparr>
       counted_planner counted_executor (\<lambda>s q. counted_start (\<lambda>p. (DAMACY_OK, p + 1))) (\<lambda>s. counted_start (\<lambda>e. (DAMACY_CUDA, e)))
       True spec_demo limits_demo \<lparr>c_active = False, c_state = (0, 0)\<rparr> \<lparr>c_active = False, c_state = (0, 0)\<rparr> =
     (Inl DAMACY_CUDA, planner', executor') \<and> running planner' = 0 \<and> \<not> c_active planner' \<and> \<not> c_active executor'"
proof -
  let ?env = "\<lparr>ce_self_ok = True, ce_plans_ok = True, ce_planner_taken = False, ce_executor_taken = False, ce_scheduler_ok = True\<rparr>"
  let ?c = "\<lparr>c_active = False, c_state = (0 :: nat, 0 :: int)\<rparr>"
  let ?r = "damacy_pipeline_create ?env counted_planner counted_executor (\<lambda>s q. counted_start (\<lambda>p. (DAMACY_OK, p + 1)))
      (\<lambda>s. counted_start (\<lambda>e. (DAMACY_CUDA, e))) True spec_demo limits_demo ?c ?c"
  obtain res p' e' where r: "?r = (res, p', e')" by (metis prod_cases3)
  have "isl (fst ?r) \<and> projl (fst ?r) = DAMACY_CUDA" by code_simp
  from this [unfolded r fst_conv] have res: "res = Inl DAMACY_CUDA" by (cases res) simp_all
  have stops: "snd (po_stop counted_planner p) = snd p - 1" "snd (eo_stop counted_executor p) = snd p - 1" for p
    by (simp_all add: counted_planner_def counted_executor_def split: prod.splits)
  note undo = damacy_pipeline_create_undoes [OF r stops(1) stops(2), unfolded res]
  show ?thesis
    by (rule exI [of _ p'], rule exI [of _ e'], rule conjI [OF r [unfolded res]]) (use undo in simp)
qed

section \<open>Creating the default pipeline\<close>

text \<open>The device number and the debugging switch \<open>bypass_decode\<close>, which are passed through, are left out.\<close>

record damacy_cuda_config =
  cu_max_gpu_memory_bytes :: nat
  cu_max_index_bytes :: nat
  cu_max_chunk_bytes :: nat
  cu_max_read_bytes :: nat
  cu_max_chunks_per_wave :: nat
  cu_max_substreams_per_chunk :: nat
  cu_host_buffer_waves :: nat
  cu_chunk_layout_entries :: nat
  cu_numa_strategy :: damacy_numa_strategy
  cu_numa_node :: int
  cu_enable_gds :: damacy_gds_mode

definition DAMACY_READ_JOB_SLACK :: nat where "DAMACY_READ_JOB_SLACK = 64"

datatype part = Part_Reader | Part_Metadata_Reader | Part_Metadata | Part_Planner | Part_Executor

text \<open>The outcomes of the calls \<open>damacy_create\<close> makes; the planner's and the executor's constructors are parameters.\<close>

record ('p, 'e) build_env =
  be_cpus :: nat
  be_reader_alloc :: bool
  be_store :: bool
  be_metadata_reader_alloc :: bool
  be_metadata_alloc :: bool
  be_planner :: "damacy_metadata \<Rightarrow> damacy_plan_limits \<Rightarrow> damacy_status + 'p component"
  be_executor :: "damacy_reader \<Rightarrow> damacy_cuda_config \<Rightarrow> damacy_status + 'e component"

text \<open>The code at \<open>Done\<close>: the parts that are destroyed, in its order.\<close>

definition create_done :: "damacy_status \<Rightarrow> part list \<Rightarrow> 'p component option \<Rightarrow> 'e component option \<Rightarrow>
    (damacy_status + ('p, 'e) damacy) \<times> part list \<times> part list" where
  "create_done status made planner executor =
     (Inl status, made,
      (if damacy_executor_destroy executor then [Part_Executor] else []) @
      (if damacy_planner_destroy planner then [Part_Planner] else []) @
      filter (\<lambda>p. p \<in> set made) [Part_Metadata, Part_Metadata_Reader, Part_Reader])"

text \<open>The last three steps of \<open>damacy_create\<close>: planner, executor and pipeline. The result, the parts that were made, and
  the parts that were destroyed.\<close>

definition create_pipeline ::
    "create_env \<Rightarrow> ('p, 'e) build_env \<Rightarrow> 'p planner_ops \<Rightarrow> ('e, 'b) executor_ops \<Rightarrow>
     (damacy_batch_spec \<Rightarrow> damacy_queue_limits \<Rightarrow> 'p \<Rightarrow> damacy_status \<times> 'p) \<Rightarrow> (damacy_batch_spec \<Rightarrow> 'e \<Rightarrow> damacy_status \<times> 'e) \<Rightarrow>
     bool \<Rightarrow> damacy_config \<Rightarrow> damacy_reader \<Rightarrow> damacy_metadata \<Rightarrow> (damacy_status + ('p, 'e) damacy) \<times> part list \<times> part list" where
  "create_pipeline env build pops eops pstart estart accepts_indexed config reader metadata =
     (let t = cfg_tuning config;
          made = [Part_Reader, Part_Metadata_Reader, Part_Metadata] in
      case be_planner build metadata
             \<lparr>pl_max_chunks = DAMACY_MAX_CHUNKS_PER_BATCH, pl_max_chunk_bytes = tu_max_chunk_uncompressed_bytes t,
              pl_max_shards_per_sample = tu_max_shards_per_sample t, pl_max_plan_bytes = 2 ^ 26\<rparr> of
        Inl status \<Rightarrow> create_done status made None None
      | Inr planner \<Rightarrow>
          (case be_executor build reader
                  \<lparr>cu_max_gpu_memory_bytes = tu_max_gpu_memory_bytes t, cu_max_index_bytes = tu_max_index_bytes t,
                   cu_max_chunk_bytes = tu_max_chunk_uncompressed_bytes t, cu_max_read_bytes = tu_max_read_op_bytes t,
                   cu_max_chunks_per_wave = tu_max_chunks_per_wave t, cu_max_substreams_per_chunk = tu_max_substreams_per_chunk t,
                   cu_host_buffer_waves = tu_host_buffer_waves t, cu_chunk_layout_entries = tu_n_chunk_layout_cache t,
                   cu_numa_strategy = tu_numa_strategy t, cu_numa_node = tu_numa_node t, cu_enable_gds = tu_enable_gds t\<rparr> of
             Inl status \<Rightarrow> create_done status (made @ [Part_Planner]) (Some planner) None
           | Inr executor \<Rightarrow>
               (case damacy_pipeline_create env pops eops pstart estart accepts_indexed
                       \<lparr>spec_dtype = cfg_dtype config, spec_sample_shape = cfg_sample_shape config,
                        spec_sample_rank = cfg_sample_rank config, spec_samples_per_batch = cfg_samples_per_batch config\<rparr>
                       \<lparr>ql_lookahead_samples = cfg_lookahead_samples config, ql_prepared_batches = 2\<rparr> planner executor of
                  (Inr d, planner, executor) \<Rightarrow> (Inr d, made @ [Part_Planner, Part_Executor], [])
                | (Inl status, planner, executor) \<Rightarrow>
                    create_done status (made @ [Part_Planner, Part_Executor]) (Some planner) (Some executor))))"

definition damacy_create ::
    "create_env \<Rightarrow> ('p, 'e) build_env \<Rightarrow> 'p planner_ops \<Rightarrow> ('e, 'b) executor_ops \<Rightarrow>
     (damacy_batch_spec \<Rightarrow> damacy_queue_limits \<Rightarrow> 'p \<Rightarrow> damacy_status \<times> 'p) \<Rightarrow> (damacy_batch_spec \<Rightarrow> 'e \<Rightarrow> damacy_status \<times> 'e) \<Rightarrow>
     bool \<Rightarrow> damacy_config \<Rightarrow> (damacy_status + ('p, 'e) damacy) \<times> part list \<times> part list" where
  "damacy_create env build pops eops pstart estart accepts_indexed config =
     (if validate_config (Some config) \<noteq> DAMACY_OK then (Inl (validate_config (Some config)), [], [])
      else
        let t = cfg_tuning config in
        (case damacy_file_reader_create (be_cpus build) (be_reader_alloc build) (be_store build) (tu_n_io_threads t)
                (u32_add (u32_mul (tu_host_buffer_waves t) (tu_max_chunks_per_wave t)) DAMACY_READ_JOB_SLACK) of
           Inl status \<Rightarrow> create_done status [] None None
         | Inr reader \<Rightarrow>
             (case damacy_file_metadata_reader_create (be_metadata_reader_alloc build) (tu_metadata_io_concurrency t)
                     (Some (cfg_metadata_latency config)) of
                Inl status \<Rightarrow> create_done status [Part_Reader] None None
              | Inr metadata_reader \<Rightarrow>
                  (case damacy_zarr_metadata_create (be_metadata_alloc build) (Some metadata_reader)
                          (Some \<lparr>mc_array_entries = tu_n_array_meta_cache t, mc_shard_entries = tu_n_shard_index_cache t\<rparr>) of
                     Inl status \<Rightarrow> create_done status [Part_Reader, Part_Metadata_Reader] None None
                   | Inr metadata \<Rightarrow>
                       create_pipeline env build pops eops pstart estart accepts_indexed config reader metadata))))"

lemma pipeline_create_released:
  assumes "damacy_pipeline_create env pops eops pstart estart accepts_indexed out_spec queues planner executor =
      (Inl status, planner', executor')"
    and "\<not> c_active planner" "\<not> c_active executor" "\<not> ce_planner_taken env" "\<not> ce_executor_taken env"
  shows "\<not> c_active planner' \<and> \<not> c_active executor'"
  using assms unfolding damacy_pipeline_create_def create_start_def
  by (auto simp: create_fail_def Let_def split: if_splits sum.splits prod.splits)

definition all_parts :: "part list" where
  "all_parts = [Part_Reader, Part_Metadata_Reader, Part_Metadata, Part_Planner, Part_Executor]"

definition clean :: "(damacy_status + ('p, 'e) damacy) \<times> part list \<times> part list \<Rightarrow> bool" where
  "clean = (\<lambda>(res, made, destroyed).
     case res of Inl status \<Rightarrow> destroyed = rev made
     | Inr d \<Rightarrow> destroyed = [] \<and> made = all_parts \<and> d_prepared_batches d = 2)"

lemma clean_Inl: "clean (Inl status, made, destroyed) \<longleftrightarrow> destroyed = rev made"
  by (simp add: clean_def)

lemma pipeline_create_new:
  "damacy_pipeline_create env pops eops pstart estart accepts_indexed out_spec queues planner executor = (Inr d, planner', executor') \<Longrightarrow>
     d_prepared_batches d = ql_prepared_batches queues"
  by (auto simp: damacy_pipeline_create_def create_start_def create_fail_def damacy_new_def Let_def
      split: if_splits sum.splits prod.splits)

lemma create_pipeline_clean:
  assumes "\<And>m l p. be_planner build m l = Inr p \<Longrightarrow> \<not> c_active p" and "\<And>r c e. be_executor build r c = Inr e \<Longrightarrow> \<not> c_active e"
    and "\<not> ce_planner_taken env" "\<not> ce_executor_taken env"
  shows "clean (create_pipeline env build pops eops pstart estart accepts_indexed config reader metadata)"
  unfolding create_pipeline_def Let_def
  by (auto simp: clean_def create_done_def damacy_planner_destroy_def damacy_executor_destroy_def assms(1,2) all_parts_def
      dest: pipeline_create_new pipeline_create_released [OF _ assms(1) assms(2) assms(3,4)]
      split: sum.splits prod.splits)

text \<open>Creating the default pipeline either succeeds, with all five parts made and none destroyed and room for two
  prepared batches, or destroys exactly the parts it made, in the opposite order. In particular a failed
  \<open>damacy_pipeline_create\<close> never leaves a component claimed, which would keep it from being destroyed.\<close>

theorem damacy_create_no_leak:
  assumes "damacy_create env build pops eops pstart estart accepts_indexed config = (res, made, destroyed)"
    and "\<And>m l p. be_planner build m l = Inr p \<Longrightarrow> \<not> c_active p" and "\<And>r c e. be_executor build r c = Inr e \<Longrightarrow> \<not> c_active e"
    and "\<not> ce_planner_taken env" "\<not> ce_executor_taken env"
  shows "(case res of
            Inl status \<Rightarrow> destroyed = rev made
          | Inr d \<Rightarrow> destroyed = [] \<and> made = [Part_Reader, Part_Metadata_Reader, Part_Metadata, Part_Planner, Part_Executor] \<and>
              d_prepared_batches d = 2)"
proof -
  have cp: "clean (create_pipeline env build pops eops pstart estart accepts_indexed config reader metadata)" for reader metadata
    by (rule create_pipeline_clean) (erule assms(2) assms(3) | rule assms(4,5))+
  have "clean (damacy_create env build pops eops pstart estart accepts_indexed config)"
    unfolding damacy_create_def Let_def
    by (auto simp: cp clean_Inl create_done_def damacy_planner_destroy_def damacy_executor_destroy_def split: sum.splits)
  then show ?thesis using assms(1) by (simp add: clean_def all_parts_def split: sum.splits)
qed

definition build_demo :: "(nat, nat) build_env" where
  "build_demo = \<lparr>be_cpus = 64, be_reader_alloc = True, be_store = True, be_metadata_reader_alloc = True, be_metadata_alloc = True,
     be_planner = (\<lambda>m l. Inr \<lparr>c_active = False, c_state = 0\<rparr>), be_executor = (\<lambda>r c. Inr \<lparr>c_active = False, c_state = 0\<rparr>)\<rparr>"

definition env_demo :: create_env where
  "env_demo = \<lparr>ce_self_ok = True, ce_plans_ok = True, ce_planner_taken = False, ce_executor_taken = False, ce_scheduler_ok = False\<rparr>"

text \<open>The scheduler cannot be created.\<close>

theorem damacy_create_no_leak_witness:
  "\<exists>made destroyed. damacy_create env_demo build_demo demo_planner demo_executor (\<lambda>s q p. (DAMACY_OK, p)) (\<lambda>s e. (DAMACY_OK, e)) True config_demo =
     (Inl DAMACY_OOM, made, destroyed) \<and> destroyed = rev made \<and> length made = 5"
proof -
  let ?r = "damacy_create env_demo build_demo demo_planner demo_executor (\<lambda>s q p. (DAMACY_OK, p)) (\<lambda>s e. (DAMACY_OK, e)) True config_demo"
  obtain res made destroyed where r: "?r = (res, made, destroyed)" by (metis prod_cases3)
  have "isl (fst ?r) \<and> projl (fst ?r) = DAMACY_OOM \<and> length (fst (snd ?r)) = 5" by code_simp
  from this [unfolded r fst_conv snd_conv] have res: "res = Inl DAMACY_OOM" "length made = 5" by (cases res; simp)+
  have "\<not> ce_planner_taken env_demo" "\<not> ce_executor_taken env_demo" by (simp_all add: env_demo_def)
  from damacy_create_no_leak [OF r _ _ this, unfolded res(1)] have "destroyed = rev made" by (auto simp: build_demo_def)
  then show ?thesis using r [unfolded res(1)] res(2) by blast
qed

end
