(* ===== verification/Hash.thy ===== *)
theory Hash
  imports Damacy_Prelude
begin

text \<open>
  The 64-bit hash helpers of src/src/util/hash.c on machine words. The finaliser of \<open>hash_combine\<close> is shown to be a
  bijection: for a fixed left argument, two right arguments never collide before the value is reduced to a table
  size.
\<close>

definition HASH_FNV_OFFSET_BASIS :: "64 word" where "HASH_FNV_OFFSET_BASIS = 0xcbf29ce484222325"
definition HASH_FNV_PRIME :: "64 word" where "HASH_FNV_PRIME = 0x00000100000001b3"

definition hash_fnv1a_init :: "64 word" where
  "hash_fnv1a_init = HASH_FNV_OFFSET_BASIS"

definition hash_fnv1a_step :: "64 word \<Rightarrow> 8 word list \<Rightarrow> 64 word" where
  "hash_fnv1a_step state bytes = fold (\<lambda>byte state. (state XOR ucast byte) * HASH_FNV_PRIME) bytes state"

definition hash_fnv1a :: "8 word list \<Rightarrow> 64 word" where
  "hash_fnv1a bytes = hash_fnv1a_step hash_fnv1a_init bytes"

text \<open>A string up to its terminator, as bytes.\<close>

definition hash_fnv1a_str :: "8 word list \<Rightarrow> 64 word" where
  "hash_fnv1a_str s = fold (\<lambda>byte state. (state XOR ucast byte) * HASH_FNV_PRIME) s hash_fnv1a_init"

definition hash_ptr :: "64 word \<Rightarrow> 64 word" where
  "hash_ptr p = (let x = p * 0x9e3779b97f4a7c15 in x XOR drop_bit 32 x)"

definition hash_combine :: "64 word \<Rightarrow> 64 word \<Rightarrow> 64 word" where
  "hash_combine a b =
     (let mixed = a XOR (b + 0x9e3779b97f4a7c15 + push_bit 6 a + drop_bit 2 a);
          mixed = mixed XOR drop_bit 33 mixed;
          mixed = mixed * 0xff51afd7ed558ccd;
          mixed = mixed XOR drop_bit 33 mixed;
          mixed = mixed * 0xc4ceb9fe1a85ec53
      in mixed XOR drop_bit 33 mixed)"

section \<open>No collisions before reduction\<close>

lemma xorshift_inj:
  fixes x y :: "'a :: len word"
  assumes "0 < k" and "x XOR drop_bit k x = y XOR drop_bit k y"
  shows "x = y"
proof -
  have "bit x n = bit y n" for n
  proof (induction "LENGTH('a) - n" arbitrary: n rule: less_induct)
    case less
    show ?case
    proof (cases "n < LENGTH('a)")
      case True
      have "bit (x XOR drop_bit k x) n = bit (y XOR drop_bit k y) n" using assms(2) by simp
      moreover have "bit x (k + n) = bit y (k + n)" using True assms(1) by (intro less) simp
      ultimately show ?thesis by (auto simp: bit_xor_iff bit_drop_bit_eq)
    next
      case False
      then show ?thesis by (auto dest: bit_imp_le_length)
    qed
  qed
  then show ?thesis by (intro bit_word_eqI) simp
qed

lemma mult_odd_inj:
  fixes x y c d :: "64 word"
  assumes "c * d = 1" and "x * c = y * c"
  shows "x = y"
proof -
  have "x * (c * d) = y * (c * d)" using assms(2) by (simp flip: mult.assoc)
  then show ?thesis by (simp add: assms(1))
qed

text \<open>The inverses of the two multipliers.\<close>

lemma murmur_inverses:
  "(0xff51afd7ed558ccd :: 64 word) * 0x4f74430c22a54005 = 1"
  "(0xc4ceb9fe1a85ec53 :: 64 word) * 0x9cb4b2f8129337db = 1"
  by simp_all

lemma hash_combine_inj: "hash_combine a b = hash_combine a b' \<Longrightarrow> b = b'"
proof -
  assume h: "hash_combine a b = hash_combine a b'"
  let ?m = "\<lambda>b. a XOR (b + 0x9e3779b97f4a7c15 + push_bit 6 a + drop_bit 2 a)"
  let ?s = "\<lambda>x. x XOR drop_bit 33 x :: 64 word"
  have "?s (?s (?s (?m b) * 0xff51afd7ed558ccd) * 0xc4ceb9fe1a85ec53) = ?s (?s (?s (?m b') * 0xff51afd7ed558ccd) * 0xc4ceb9fe1a85ec53)"
    using h by (simp add: hash_combine_def Let_def)
  then have "?s (?s (?m b) * 0xff51afd7ed558ccd) * 0xc4ceb9fe1a85ec53 = ?s (?s (?m b') * 0xff51afd7ed558ccd) * 0xc4ceb9fe1a85ec53"
    by (rule xorshift_inj [rotated]) simp
  then have "?s (?s (?m b) * 0xff51afd7ed558ccd) = ?s (?s (?m b') * 0xff51afd7ed558ccd)" by (rule mult_odd_inj [OF murmur_inverses(2)])
  then have "?s (?m b) * 0xff51afd7ed558ccd = ?s (?m b') * 0xff51afd7ed558ccd" by (rule xorshift_inj [rotated]) simp
  then have "?s (?m b) = ?s (?m b')" by (rule mult_odd_inj [OF murmur_inverses(1)])
  then have "?m b = ?m b'" by (rule xorshift_inj [rotated]) simp
  then have "a XOR ?m b = a XOR ?m b'" by simp
  then show ?thesis by (simp flip: xor.assoc)
qed

end
