(* ===== verification/Strbuf.thy ===== *)
theory Strbuf
  imports Damacy_Prelude
begin

text \<open>
  The growable string of src/src/util/strbuf.c with its memory made explicit, and the shard paths
  zarr\_shard\_path\_build (src/src/zarr/zarr\_shard\_index.c) writes with it. A buffer is shown to hold, as a C string,
  exactly what was appended; the path of a shard determines its coordinates, so that no two shards of an array
  share a file name.
\<close>

section \<open>Memory\<close>

abbreviation NUL :: char where "NUL \<equiv> CHR 0x00"

text \<open>The bytes from \<open>beg\<close> to \<open>cap_end\<close>, or \<open>None\<close> while \<open>beg\<close> is NULL; the length up to \<open>end\<close>; and whether the bytes are the
  inline buffer. Bytes of a fresh allocation that are not written are never read; the model has them zero.\<close>

record strbuf =
  sb_mem :: "char list option"
  sb_len :: nat
  sb_inline :: bool

definition STRBUF_INLINE_CAP :: nat where "STRBUF_INLINE_CAP = 128"

definition activate_inline :: "strbuf \<Rightarrow> strbuf" where
  "activate_inline sb = \<lparr>sb_mem = Some (replicate STRBUF_INLINE_CAP NUL), sb_len = 0, sb_inline = True\<rparr>"

definition strbuf_free :: "strbuf \<Rightarrow> strbuf" where
  "strbuf_free sb = sb \<lparr>sb_mem := None, sb_len := 0, sb_inline := False\<rparr>"

definition strbuf_reset :: "strbuf \<Rightarrow> strbuf" where
  "strbuf_reset sb =
     (case sb_mem sb of None \<Rightarrow> sb | Some mem \<Rightarrow> sb \<lparr>sb_mem := Some (mem[0 := NUL]), sb_len := 0\<rparr>)"

text \<open>The loop that doubles the capacity: \<open>Some None\<close> is the overflow, \<open>None\<close> a loop that is still running.\<close>

fun grow_cap :: "nat \<Rightarrow> nat \<Rightarrow> nat \<Rightarrow> nat option option" where
  "grow_cap 0 new_cap want = (if new_cap < want then None else Some (Some new_cap))"
| "grow_cap (Suc fuel) new_cap want =
     (if new_cap < want then
        let doubled = u64_mul new_cap 2
        in if doubled < new_cap then Some None else grow_cap fuel doubled want
      else Some (Some new_cap))"

text \<open>\<open>alloc_ok\<close> is the outcome of \<open>malloc\<close> and \<open>realloc\<close> for a size. The flag says that the call returned 0.\<close>

definition strbuf_reserve :: "(nat \<Rightarrow> bool) \<Rightarrow> strbuf \<Rightarrow> nat \<Rightarrow> (bool \<times> strbuf) option" where
  "strbuf_reserve alloc_ok sb need =
     (let sb = (if sb_mem sb = None then activate_inline sb else sb);
          mem = the (sb_mem sb); len = sb_len sb; cap = length mem
      in if need > SIZE_MAX - 1 - len then Some (False, sb)
         else
           let want = len + need + 1
           in if want \<le> cap then Some (True, sb)
              else
                (case grow_cap 64 (if cap \<noteq> 0 then cap else STRBUF_INLINE_CAP) want of
                   None \<Rightarrow> None
                 | Some None \<Rightarrow> Some (False, sb)
                 | Some (Some new_cap) \<Rightarrow>
                     if \<not> alloc_ok new_cap then Some (False, sb)
                     else
                       let kept = (if sb_inline sb then take (len + 1) mem else mem)
                       in Some (True, sb \<lparr>sb_mem := Some (kept @ replicate (new_cap - length kept) NUL), sb_inline := False\<rparr>)))"

definition write_at :: "char list \<Rightarrow> nat \<Rightarrow> string \<Rightarrow> char list" where
  "write_at mem i data = take i mem @ data @ drop (i + length data) mem"

definition strbuf_append :: "(nat \<Rightarrow> bool) \<Rightarrow> strbuf \<Rightarrow> string \<Rightarrow> (bool \<times> strbuf) option" where
  "strbuf_append alloc_ok sb data =
     (case strbuf_reserve alloc_ok sb (length data) of
        None \<Rightarrow> None
      | Some (False, sb) \<Rightarrow> Some (False, sb)
      | Some (True, sb) \<Rightarrow>
          Some (True, sb \<lparr>sb_mem := Some (write_at (the (sb_mem sb)) (sb_len sb) (data @ [NUL])), sb_len := sb_len sb + length data\<rparr>))"

definition strbuf_append_cstr :: "(nat \<Rightarrow> bool) \<Rightarrow> strbuf \<Rightarrow> string \<Rightarrow> (bool \<times> strbuf) option" where
  "strbuf_append_cstr alloc_ok sb s = strbuf_append alloc_ok sb s"

text \<open>\<open>vsnprintf\<close> writes what fits of the formatted text \<open>s\<close> and a terminator, and returns the length of \<open>s\<close>.\<close>

definition strbuf_vappendf :: "(nat \<Rightarrow> bool) \<Rightarrow> strbuf \<Rightarrow> string \<Rightarrow> (bool \<times> strbuf) option" where
  "strbuf_vappendf alloc_ok sb s =
     (let sb = (if sb_mem sb = None then activate_inline sb else sb);
          mem = the (sb_mem sb); avail = length mem - sb_len sb;
          sb = sb \<lparr>sb_mem := Some (write_at mem (sb_len sb) (take (avail - 1) s @ [NUL]))\<rparr>
      in if length s < avail then Some (True, sb \<lparr>sb_len := sb_len sb + length s\<rparr>)
         else
           (case strbuf_reserve alloc_ok sb (length s) of
              None \<Rightarrow> None
            | Some (False, sb) \<Rightarrow> Some (False, sb)
            | Some (True, sb) \<Rightarrow>
                let mem = the (sb_mem sb); avail = length mem - sb_len sb;
                    sb = sb \<lparr>sb_mem := Some (write_at mem (sb_len sb) (take (avail - 1) s @ [NUL]))\<rparr>
                in if length s \<ge> avail then Some (False, sb) else Some (True, sb \<lparr>sb_len := sb_len sb + length s\<rparr>)))"

definition strbuf_appendf :: "(nat \<Rightarrow> bool) \<Rightarrow> strbuf \<Rightarrow> string \<Rightarrow> (bool \<times> strbuf) option" where
  "strbuf_appendf alloc_ok sb s = strbuf_vappendf alloc_ok sb s"

definition strbuf_set :: "(nat \<Rightarrow> bool) \<Rightarrow> strbuf \<Rightarrow> string \<Rightarrow> (bool \<times> strbuf) option" where
  "strbuf_set alloc_ok sb s = strbuf_append_cstr alloc_ok (strbuf_reset sb) s"

definition strbuf_cstr :: "strbuf \<Rightarrow> string" where
  "strbuf_cstr sb = (case sb_mem sb of None \<Rightarrow> '''' | Some mem \<Rightarrow> takeWhile (\<lambda>c. c \<noteq> NUL) mem)"

definition strbuf_len :: "strbuf \<Rightarrow> nat" where
  "strbuf_len sb = (case sb_mem sb of None \<Rightarrow> 0 | Some mem \<Rightarrow> sb_len sb)"

text \<open>A NULL prefix and an empty one are the same here.\<close>

definition strbuf_join_path :: "(nat \<Rightarrow> bool) \<Rightarrow> strbuf \<Rightarrow> string \<Rightarrow> string \<Rightarrow> (bool \<times> strbuf) option" where
  "strbuf_join_path alloc_ok sb pre leaf =
     (let sb = strbuf_reset sb
      in if pre = '''' then strbuf_append_cstr alloc_ok sb leaf
         else
           (case strbuf_append_cstr alloc_ok sb pre of
              None \<Rightarrow> None
            | Some (False, sb) \<Rightarrow> Some (False, sb)
            | Some (True, sb) \<Rightarrow>
                let len = strbuf_len sb
                in if len > 0 \<and> the (sb_mem sb) ! (len - 1) \<noteq> CHR ''/'' then
                     (case strbuf_append alloc_ok sb ''/'' of
                        None \<Rightarrow> None
                      | Some (False, sb) \<Rightarrow> Some (False, sb)
                      | Some (True, sb) \<Rightarrow> strbuf_append_cstr alloc_ok sb leaf)
                   else strbuf_append_cstr alloc_ok sb leaf))"

section \<open>Shard paths\<close>

text \<open>What \<open>%llu\<close> prints.\<close>

fun decimal :: "nat \<Rightarrow> string" where
  "decimal n = (if n < 10 then [char_of (48 + n)] else decimal (n div 10) @ [char_of (48 + n mod 10)])"

declare decimal.simps [simp del]

fun append_coords :: "(nat \<Rightarrow> bool) \<Rightarrow> strbuf \<Rightarrow> nat list \<Rightarrow> (bool \<times> strbuf) option" where
  "append_coords alloc_ok sb [] = Some (True, sb)"
| "append_coords alloc_ok sb (c # cs) =
     (case strbuf_appendf alloc_ok sb (''/'' @ decimal c) of
        None \<Rightarrow> None
      | Some (False, sb) \<Rightarrow> Some (False, sb)
      | Some (True, sb) \<Rightarrow> append_coords alloc_ok sb cs)"

definition zarr_shard_path_build :: "(nat \<Rightarrow> bool) \<Rightarrow> strbuf \<Rightarrow> string \<Rightarrow> nat list \<Rightarrow> nat \<Rightarrow> (bool \<times> strbuf) option" where
  "zarr_shard_path_build alloc_ok sb pre shard_coord rank =
     (case strbuf_join_path alloc_ok sb pre ''c'' of
        None \<Rightarrow> None
      | Some (False, sb) \<Rightarrow> Some (False, sb)
      | Some (True, sb) \<Rightarrow> append_coords alloc_ok sb (take rank shard_coord))"

section \<open>Contents\<close>

text \<open>A well-formed buffer: room for the terminator, a terminator at the end and none before it.\<close>

definition sb_ok :: "strbuf \<Rightarrow> bool" where
  "sb_ok sb \<longleftrightarrow>
     (case sb_mem sb of
        None \<Rightarrow> True
      | Some mem \<Rightarrow> sb_len sb < length mem \<and> length mem < 2 ^ 64 \<and> mem ! sb_len sb = NUL \<and> NUL \<notin> set (take (sb_len sb) mem))"

definition sb_text :: "strbuf \<Rightarrow> string" where
  "sb_text sb = (case sb_mem sb of None \<Rightarrow> '''' | Some mem \<Rightarrow> take (sb_len sb) mem)"

lemma sb_okD:
  assumes "sb_ok sb" and "sb_mem sb = Some mem"
  shows "sb_len sb < length mem" "length mem < 2 ^ 64" "mem ! sb_len sb = NUL" "NUL \<notin> set (take (sb_len sb) mem)"
  using assms by (simp_all add: sb_ok_def)

lemma strbuf_cstr_text: "sb_ok sb \<Longrightarrow> strbuf_cstr sb = sb_text sb"
proof (cases "sb_mem sb")
  case (Some mem)
  assume "sb_ok sb"
  note ok = sb_okD [OF this Some]
  have m: "mem = take (sb_len sb) mem @ NUL # drop (Suc (sb_len sb)) mem" using ok id_take_nth_drop [of "sb_len sb" mem] by simp
  have "takeWhile (\<lambda>c. c \<noteq> NUL) (take (sb_len sb) mem @ NUL # drop (Suc (sb_len sb)) mem) = take (sb_len sb) mem"
    using ok(4) by (subst takeWhile_append2) auto
  then have "takeWhile (\<lambda>c. c \<noteq> NUL) mem = take (sb_len sb) mem" using m by simp
  then show ?thesis by (simp add: strbuf_cstr_def sb_text_def Some)
qed (simp add: strbuf_cstr_def sb_text_def)

lemma grow_cap_returns: "c < 2 ^ 64 \<Longrightarrow> 2 ^ 64 \<le> c * 2 ^ fuel \<Longrightarrow> grow_cap fuel c want \<noteq> None"
proof (induction fuel arbitrary: c)
  case (Suc fuel)
  show ?case
  proof (cases "c * 2 < 2 ^ 64")
    case True
    then have "u64_mul c 2 = c * 2" by (rule u64_mul_exact)
    then show ?thesis using Suc.IH [of "c * 2"] Suc.prems True by (auto simp: Let_def mult.assoc)
  next
    case False
    then have "u64_mul c 2 < c" using Suc.prems(1) by (simp add: u64_mul_def mod_if) linarith
    then show ?thesis by (simp add: Let_def)
  qed
qed simp

lemma grow_cap_result: "grow_cap fuel c want = Some (Some n) \<Longrightarrow> c < 2 ^ 64 \<Longrightarrow> want \<le> n \<and> c \<le> n \<and> n < 2 ^ 64"
proof (induction fuel arbitrary: c)
  case (Suc fuel)
  have "u64_mul c 2 < 2 ^ 64" by (simp add: u64_mul_def)
  then show ?case using Suc by (auto simp: Let_def not_less split: if_splits) (meson le_trans)
qed (auto split: if_splits)

text \<open>Reserving needs only room for the terminator, and keeps the text and the byte after it.\<close>

definition sb_room :: "strbuf \<Rightarrow> bool" where
  "sb_room sb \<longleftrightarrow> (case sb_mem sb of None \<Rightarrow> True | Some mem \<Rightarrow> sb_len sb < length mem \<and> length mem < 2 ^ 64)"

lemma sb_ok_room: "sb_ok sb \<Longrightarrow> sb_room sb"
  by (auto simp: sb_ok_def sb_room_def split: option.splits)

lemma strbuf_reserve_some:
  assumes m: "sb_mem b = Some mem" and room: "sb_len b < length mem" "length mem < 2 ^ 64"
  shows "\<exists>fine sb' mem'. strbuf_reserve alloc_ok b need = Some (fine, sb') \<and> sb_mem sb' = Some mem' \<and> sb_len sb' = sb_len b \<and>
     sb_len b < length mem' \<and> length mem' < 2 ^ 64 \<and> take (sb_len b + 1) mem' = take (sb_len b + 1) mem \<and>
     (fine \<longrightarrow> sb_len b + need < length mem')"
proof (cases "need > SIZE_MAX - 1 - sb_len b \<or> sb_len b + need + 1 \<le> length mem")
  case True
  then have "strbuf_reserve alloc_ok b need = Some (\<not> need > SIZE_MAX - 1 - sb_len b, b)"
    unfolding strbuf_reserve_def Let_def by (auto simp: m)
  then show ?thesis using m room True by auto
next
  case False
  let ?want = "sb_len b + need + 1"
  have "length mem \<noteq> 0" using room by linarith
  have "grow_cap 64 (length mem) ?want \<noteq> None" using room by (intro grow_cap_returns) auto
  then obtain g where g: "grow_cap 64 (length mem) ?want = Some g" by blast
  define kept where "kept = (if sb_inline b then take (sb_len b + 1) mem else mem)"
  define res where "res = (case g of None \<Rightarrow> (False, b) | Some new_cap \<Rightarrow> if \<not> alloc_ok new_cap then (False, b) else
      (True, b \<lparr>sb_mem := Some (kept @ replicate (new_cap - length kept) NUL), sb_inline := False\<rparr>))"
  have r: "strbuf_reserve alloc_ok b need = Some res"
    unfolding strbuf_reserve_def Let_def using False g room(1) by (auto simp: m res_def kept_def split: option.splits)
  show ?thesis
  proof (cases "g = None \<or> \<not> alloc_ok (the g)")
    case True
    then have "res = (False, b)" by (auto simp: res_def split: option.splits)
    then show ?thesis using r m room by auto
  next
    case F: False
    then obtain n where n: "g = Some n" "alloc_ok n" by auto
    have gr: "?want \<le> n" "length mem \<le> n" "n < 2 ^ 64" using grow_cap_result [of 64 "length mem" ?want n] g n(1) room by auto
    have k: "length kept \<le> n" "sb_len b < length kept" "take (sb_len b + 1) kept = take (sb_len b + 1) mem"
      using gr room by (auto simp: kept_def)
    have "res = (True, b \<lparr>sb_mem := Some (kept @ replicate (n - length kept) NUL), sb_inline := False\<rparr>)" using n by (simp add: res_def)
    then show ?thesis using r m room k gr by auto
  qed
qed

lemma strbuf_reserve_result:
  assumes ok: "sb_ok sb"
  shows "\<exists>fine sb'. strbuf_reserve alloc_ok sb need = Some (fine, sb') \<and> sb_ok sb' \<and> sb_text sb' = sb_text sb \<and>
     (\<exists>mem. sb_mem sb' = Some mem \<and> (fine \<longrightarrow> sb_len sb' + need < length mem))"
proof -
  define b where "b = (if sb_mem sb = None then activate_inline sb else sb)"
  have bt: "sb_ok b" "sb_text b = sb_text sb" using ok by (auto simp: b_def activate_inline_def sb_ok_def sb_text_def STRBUF_INLINE_CAP_def)
  obtain mem where m: "sb_mem b = Some mem" by (cases "sb_mem sb") (auto simp: b_def activate_inline_def)
  have "(if sb_mem b = None then activate_inline b else b) = b" using m by simp
  then have eq: "strbuf_reserve alloc_ok sb need = strbuf_reserve alloc_ok b need"
    unfolding strbuf_reserve_def b_def [symmetric] by simp
  note D = sb_okD [OF bt(1) m]
  obtain fine sb' mem' where R: "strbuf_reserve alloc_ok b need = Some (fine, sb')" "sb_mem sb' = Some mem'" "sb_len sb' = sb_len b"
    "sb_len b < length mem'" "length mem' < 2 ^ 64" "take (sb_len b + 1) mem' = take (sb_len b + 1) mem"
    "fine \<longrightarrow> sb_len b + need < length mem'" using strbuf_reserve_some [OF m D(1,2)] by blast
  have t: "take (sb_len b) mem' = take (sb_len b) mem" using arg_cong [OF R(6), of "take (sb_len b)"] by simp
  have "mem' ! sb_len b = mem ! sb_len b" using arg_cong [OF R(6), of "\<lambda>xs. xs ! sb_len b"] by simp
  then have "sb_ok sb'" using R D t by (simp add: sb_ok_def)
  moreover have "sb_text sb' = sb_text sb" using R t bt(2) m by (simp add: sb_text_def)
  ultimately show ?thesis using R eq by auto
qed

lemma write_at_result:
  assumes "i + length data < length mem"
  shows "length (write_at mem i (data @ [NUL])) = length mem \<and> take (i + length data) (write_at mem i (data @ [NUL])) = take i mem @ data \<and>
    write_at mem i (data @ [NUL]) ! (i + length data) = NUL"
  using assms by (simp add: write_at_def nth_append)

lemma strbuf_append_result:
  assumes "sb_ok sb" and "NUL \<notin> set data"
  shows "\<exists>fine sb'. strbuf_append alloc_ok sb data = Some (fine, sb') \<and> sb_ok sb' \<and>
     sb_text sb' = sb_text sb @ (if fine then data else [])"
proof -
  obtain ok b mem where r: "strbuf_reserve alloc_ok sb (length data) = Some (ok, b)" "sb_ok b" "sb_text b = sb_text sb"
    "sb_mem b = Some mem" "ok \<longrightarrow> sb_len b + length data < length mem" using strbuf_reserve_result [OF assms(1)] by blast
  show ?thesis
  proof (cases ok)
    case True
    note W = write_at_result [of "sb_len b" data mem]
    have "sb_text sb = take (sb_len b) mem" using r(3,4) by (simp add: sb_text_def)
    then show ?thesis
      using True r W sb_okD [OF r(2,4)] assms(2) by (auto simp: strbuf_append_def sb_ok_def sb_text_def)
  next
    case False
    then show ?thesis using r by (intro exI [of _ False] exI [of _ b]) (simp add: strbuf_append_def)
  qed
qed

lemma strbuf_vappendf_result:
  assumes "sb_ok sb" and "NUL \<notin> set s"
  shows "\<exists>fine sb'. strbuf_vappendf alloc_ok sb s = Some (fine, sb') \<and> (fine \<longrightarrow> sb_ok sb' \<and> sb_text sb' = sb_text sb @ s)"
proof -
  define b where "b = (if sb_mem sb = None then activate_inline sb else sb)"
  have bt: "sb_ok b" "sb_text b = sb_text sb"
    using assms(1) by (auto simp: b_def activate_inline_def sb_ok_def sb_text_def STRBUF_INLINE_CAP_def)
  obtain mem where m: "sb_mem b = Some mem" by (cases "sb_mem sb") (auto simp: b_def activate_inline_def)
  note D = sb_okD [OF bt(1) m]
  define av where "av = length mem - sb_len b"
  define b1 where "b1 = b \<lparr>sb_mem := Some (write_at mem (sb_len b) (take (av - 1) s @ [NUL]))\<rparr>"
  have av: "0 < av" using D(1) by (simp add: av_def)
  have pre: "sb_text sb = take (sb_len b) mem" using bt(2) m by (simp add: sb_text_def)
  note W = write_at_result [of "sb_len b" _ mem]
  show ?thesis
  proof (cases "length s < av")
    case True
    then have "strbuf_vappendf alloc_ok sb s = Some (True, b1 \<lparr>sb_len := sb_len b1 + length s\<rparr>)"
      unfolding strbuf_vappendf_def b_def [symmetric] Let_def by (simp add: m av_def [symmetric] b1_def)
    moreover have "take (av - 1) s = s" "sb_len b + length s < length mem" using True by (auto simp: av_def)
    ultimately show ?thesis using W [of s] pre D assms(2) by (auto simp: sb_ok_def sb_text_def b1_def)
  next
    case False
    have take: "take (av - 1) s @ [NUL] \<noteq> []" by simp
    have l1: "length (write_at mem (sb_len b) (take (av - 1) s @ [NUL])) = length mem"
      "take (sb_len b) (write_at mem (sb_len b) (take (av - 1) s @ [NUL])) = take (sb_len b) mem"
      using D(1) False by (auto simp: write_at_def av_def)
    obtain fine b2 mem2 where R: "strbuf_reserve alloc_ok b1 (length s) = Some (fine, b2)" "sb_mem b2 = Some mem2" "sb_len b2 = sb_len b"
      "length mem2 < 2 ^ 64" "take (sb_len b + 1) mem2 = take (sb_len b + 1) (write_at mem (sb_len b) (take (av - 1) s @ [NUL]))"
      "fine \<longrightarrow> sb_len b + length s < length mem2"
      using strbuf_reserve_some [of b1 "write_at mem (sb_len b) (take (av - 1) s @ [NUL])" alloc_ok "length s"] l1(1) D(1,2)
      by (auto simp: b1_def)
    have pre2: "take (sb_len b) mem2 = sb_text sb" using arg_cong [OF R(5), of "take (sb_len b)"] l1(2) pre by simp
    have v: "strbuf_vappendf alloc_ok sb s =
       (if \<not> fine then Some (False, b2)
        else let b3 = b2 \<lparr>sb_mem := Some (write_at mem2 (sb_len b) (take (length mem2 - sb_len b - 1) s @ [NUL]))\<rparr>
             in if length s \<ge> length mem2 - sb_len b then Some (False, b3) else Some (True, b3 \<lparr>sb_len := sb_len b + length s\<rparr>))"
      unfolding strbuf_vappendf_def b_def [symmetric] Let_def using False R(1-3) by (simp add: m av_def [symmetric] b1_def)
    show ?thesis
    proof (cases fine)
      case True
      then have lt: "sb_len b + length s < length mem2" using R(6) by simp
      then have "take (length mem2 - sb_len b - 1) s = s" by simp
      then show ?thesis
        using v True lt write_at_result [OF lt] R pre2 assms(2) sb_okD(4) [OF bt(1) m] pre by (auto simp: sb_ok_def sb_text_def Let_def)
    qed (use v in auto)
  qed
qed

lemma strbuf_reset_result: "sb_room sb \<Longrightarrow> sb_ok (strbuf_reset sb) \<and> sb_text (strbuf_reset sb) = []"
proof (cases "sb_mem sb")
  case (Some mem)
  assume "sb_room sb"
  then have "0 < length mem" "length mem < 2 ^ 64" using Some by (auto simp: sb_room_def)
  then show ?thesis by (simp add: Some strbuf_reset_def sb_ok_def sb_text_def nth_list_update_eq)
qed (simp add: strbuf_reset_def sb_ok_def sb_text_def)

lemma strbuf_join_path_result:
  assumes "sb_room sb" and "NUL \<notin> set pre" and "NUL \<notin> set leaf"
  shows "\<exists>fine sb'. strbuf_join_path alloc_ok sb pre leaf = Some (fine, sb') \<and> sb_ok sb' \<and>
     (fine \<longrightarrow> sb_text sb' = (if pre = [] \<or> last pre = CHR ''/'' then pre else pre @ ''/'') @ leaf)"
proof -
  define r where "r = strbuf_reset sb"
  have r: "sb_ok r" "sb_text r = []" using strbuf_reset_result [OF assms(1)] by (auto simp: r_def)
  note leaf = strbuf_append_result [OF _ assms(3), of _ alloc_ok]
  show ?thesis
  proof (cases "pre = []")
    case True
    then have "strbuf_join_path alloc_ok sb pre leaf = strbuf_append alloc_ok r leaf"
      by (simp add: strbuf_join_path_def r_def strbuf_append_cstr_def)
    then show ?thesis using leaf [OF r(1)] r(2) True by auto
  next
    case False
    obtain f1 b1 where b1: "strbuf_append alloc_ok r pre = Some (f1, b1)" "sb_ok b1" "sb_text b1 = (if f1 then pre else [])"
      using strbuf_append_result [OF r(1) assms(2), of alloc_ok] r(2) by auto
    show ?thesis
    proof (cases f1)
      case F1: True
      then obtain mem where m: "sb_mem b1 = Some mem" "take (sb_len b1) mem = pre" "strbuf_len b1 = length pre" "sb_len b1 = length pre"
        using b1 False sb_okD(1) [OF b1(2)] by (cases "sb_mem b1") (auto simp: sb_text_def strbuf_len_def)
      have last: "mem ! (length pre - 1) = last pre" using m(2,4) False by (metis diff_less last_conv_nth length_greater_0_conv nth_take zero_less_one)
      show ?thesis
      proof (cases "last pre = CHR ''/''")
        case True
        then have "strbuf_join_path alloc_ok sb pre leaf = strbuf_append alloc_ok b1 leaf"
          using False F1 b1(1) m last by (simp add: strbuf_join_path_def r_def [symmetric] strbuf_append_cstr_def Let_def)
        then show ?thesis using leaf [OF b1(2)] b1(3) F1 True by auto
      next
        case F: False
        obtain f2 b2 where b2: "strbuf_append alloc_ok b1 ''/'' = Some (f2, b2)" "sb_ok b2" "sb_text b2 = pre @ (if f2 then ''/'' else [])"
          using strbuf_append_result [OF b1(2), of "''/''" alloc_ok] b1(3) F1 by auto
        have "strbuf_join_path alloc_ok sb pre leaf = (if f2 then strbuf_append alloc_ok b2 leaf else Some (False, b2))"
          using False F1 F b1(1) b2(1) m last by (simp add: strbuf_join_path_def r_def [symmetric] strbuf_append_cstr_def Let_def)
        then show ?thesis using leaf [OF b2(2)] b2 F False by auto
      qed
    next
      case F: False
      then have "strbuf_join_path alloc_ok sb pre leaf = Some (False, b1)"
        using False b1(1) by (simp add: strbuf_join_path_def r_def [symmetric] strbuf_append_cstr_def Let_def)
      then show ?thesis using b1(2) by auto
    qed
  qed
qed

section \<open>Decimal numbers and shard paths\<close>

definition decimal_value :: "string \<Rightarrow> nat" where
  "decimal_value s = foldl (\<lambda>v c. v * 10 + (of_char c - 48)) 0 s"

lemma is_digit_char: "(n :: nat) < 10 \<Longrightarrow> is_digit (char_of (48 + n)) \<and> of_char (char_of (48 + n) :: char) = 48 + n"
proof -
  assume "n < 10"
  then have "of_char (char_of (48 + n) :: char) = 48 + n" by (subst of_char_of) simp
  then show ?thesis using \<open>n < 10\<close> by (simp add: is_digit_def)
qed

lemma decimal_props: "list_all is_digit (decimal n) \<and> decimal n \<noteq> [] \<and> decimal_value (decimal n) = n"
proof (induction n rule: decimal.induct)
  case (1 n)
  show ?case
  proof (cases "n < 10")
    case True
    then show ?thesis using is_digit_char [OF True] by (subst (1 2 3) decimal.simps) (simp add: decimal_value_def)
  next
    case False
    have "n mod 10 < 10" "n div 10 * 10 + n mod 10 = n" by simp_all
    then show ?thesis using False 1 is_digit_char [of "n mod 10"] by (subst (1 2 3) decimal.simps) (simp add: decimal_value_def)
  qed
qed

lemma decimal_length: "n < 10 ^ k \<Longrightarrow> 0 < k \<Longrightarrow> length (decimal n) \<le> k"
proof (induction n arbitrary: k rule: decimal.induct)
  case (1 n)
  show ?case
  proof (cases "n < 10")
    case True
    then show ?thesis using 1 by (subst decimal.simps) simp
  next
    case False
    then obtain j where j: "k = Suc j" "0 < j" using 1(2,3) by (cases k; cases "k - 1") auto
    have "n div 10 < 10 ^ j" using 1(2) j by (simp add: less_mult_imp_div_less mult.commute)
    then show ?thesis using 1(1) [OF False] j False by (subst decimal.simps) simp
  qed
qed

definition shard_path :: "string \<Rightarrow> nat list \<Rightarrow> string" where
  "shard_path pre cs = (if pre = [] \<or> last pre = CHR ''/'' then pre else pre @ ''/'') @ ''c'' @ concat (map (\<lambda>c. ''/'' @ decimal c) cs)"

lemma digit_not: "is_digit c \<Longrightarrow> c \<noteq> CHR ''/'' \<and> c \<noteq> NUL"
  by (auto simp: is_digit_def)

lemma decimal_plain: "CHR ''/'' \<notin> set (decimal n)" "NUL \<notin> set (decimal n)"
  using decimal_props [of n] digit_not by (auto simp: list_all_iff)

lemma coords_path_inj: "concat (map (\<lambda>c. ''/'' @ decimal c) cs) = concat (map (\<lambda>c. ''/'' @ decimal c) ds) \<Longrightarrow> cs = ds"
proof (induction cs arbitrary: ds)
  case Nil
  then show ?case by (cases ds) auto
next
  case (Cons c cs)
  then obtain d ds' where ds: "ds = d # ds'" by (cases ds) auto
  let ?tail = "\<lambda>xs. concat (map (\<lambda>c. ''/'' @ decimal c) xs)"
  have eq: "decimal c @ ?tail cs = decimal d @ ?tail ds'" using Cons.prems ds by simp
  have tw: "takeWhile (\<lambda>x. x \<noteq> CHR ''/'') (decimal n @ ?tail xs) = decimal n" for n xs
    using decimal_plain(1) [of n] by (subst takeWhile_append2) (auto, cases xs, auto)
  have "decimal c = decimal d" using arg_cong [OF eq, of "takeWhile (\<lambda>x. x \<noteq> CHR ''/'')"] tw by simp
  moreover from this have "c = d" using decimal_props [of c] decimal_props [of d] by metis
  ultimately show ?case using eq Cons.IH [of ds'] ds by simp
qed

lemma append_coords_result:
  "sb_ok sb \<Longrightarrow> \<exists>fine sb'. append_coords alloc_ok sb cs = Some (fine, sb') \<and>
     (fine \<longrightarrow> sb_ok sb' \<and> sb_text sb' = sb_text sb @ concat (map (\<lambda>c. ''/'' @ decimal c) cs))"
proof (induction cs arbitrary: sb)
  case (Cons c cs)
  obtain f b where b: "strbuf_vappendf alloc_ok sb (''/'' @ decimal c) = Some (f, b)" "f \<longrightarrow> sb_ok b \<and> sb_text b = sb_text sb @ ''/'' @ decimal c"
    using strbuf_vappendf_result [OF Cons.prems, of "''/'' @ decimal c" alloc_ok] decimal_plain by auto
  then show ?case using Cons.IH [of b] by (cases f) (auto simp: strbuf_appendf_def)
qed auto

lemma zarr_shard_path_build_result:
  assumes "sb_room sb" and "NUL \<notin> set pre"
  shows "\<exists>fine sb'. zarr_shard_path_build alloc_ok sb pre coords rank = Some (fine, sb') \<and>
           (fine \<longrightarrow> sb_ok sb' \<and> strbuf_cstr sb' = shard_path pre (take rank coords))"
proof -
  obtain f b where b: "strbuf_join_path alloc_ok sb pre ''c'' = Some (f, b)" "sb_ok b"
    "f \<longrightarrow> sb_text b = (if pre = [] \<or> last pre = CHR ''/'' then pre else pre @ ''/'') @ ''c''"
    using strbuf_join_path_result [OF assms(1,2), of "''c''" alloc_ok] by auto
  then show ?thesis
    using append_coords_result [OF b(2), of alloc_ok "take rank coords"] strbuf_cstr_text
    by (cases f) (auto simp: zarr_shard_path_build_def shard_path_def)
qed

lemma shard_path_inj: "shard_path pre cs = shard_path pre ds \<Longrightarrow> cs = ds"
  using coords_path_inj by (simp add: shard_path_def)

lemma shard_path_length:
  assumes "\<forall>c \<in> set cs. c < 2 ^ 64"
  shows "length (shard_path pre cs) \<le> length pre + 2 + 21 * length cs"
proof -
  have "length (concat (map (\<lambda>c. ''/'' @ decimal c) cs)) \<le> 21 * length cs"
    using assms
  proof (induction cs)
    case (Cons c cs)
    then have "length (decimal c) \<le> 20" by (intro decimal_length) auto
    then show ?case using Cons by simp
  qed simp
  then show ?thesis by (simp add: shard_path_def)
qed

text \<open>Building a shard path always returns; when it succeeds the buffer holds, as a terminated C string, the prefix, a
  separator unless the prefix ends in one, \<open>c\<close>, and the coordinates in decimal. For one array different shard
  coordinates have different paths, and a path is at most \<open>2 + 21 * rank\<close> bytes longer than the prefix.\<close>

theorem zarr_shard_path_build_path:
  assumes "sb_room sb" and "NUL \<notin> set pre" and "\<forall>c \<in> set coords. c < 2 ^ 64"
  shows "\<exists>fine sb'. zarr_shard_path_build alloc_ok sb pre coords rank = Some (fine, sb') \<and>
           (fine \<longrightarrow> strbuf_cstr sb' = shard_path pre (take rank coords)) \<and>
           length (shard_path pre (take rank coords)) \<le> length pre + 2 + 21 * rank \<and>
           (shard_path pre (take rank coords) = shard_path pre ds \<longrightarrow> take rank coords = ds)"
proof -
  have "\<forall>c \<in> set (take rank coords). c < 2 ^ 64" using assms(3) by (auto dest: in_set_takeD)
  from shard_path_length [OF this, of pre] have "length (shard_path pre (take rank coords)) \<le> length pre + 2 + 21 * rank" by simp
  then show ?thesis
    using zarr_shard_path_build_result [OF assms(1,2), of alloc_ok coords rank] shard_path_inj by blast
qed

theorem zarr_shard_path_build_path_witness:
  "\<exists>sb'. zarr_shard_path_build (\<lambda>n. True) \<lparr>sb_mem = None, sb_len = 0, sb_inline = False\<rparr> ''a'' [3, 12] 2 = Some (True, sb') \<and>
     strbuf_cstr sb' = ''a/c/3/12''"
proof -
  let ?sb = "\<lparr>sb_mem = None, sb_len = 0, sb_inline = False\<rparr>"
  let ?r = "zarr_shard_path_build (\<lambda>n. True) ?sb ''a'' [3, 12] 2"
  have "map_option fst ?r = Some True" by code_simp
  then obtain sb' where r: "?r = Some (True, sb')" by auto
  have "sb_room ?sb" by (simp add: sb_room_def)
  from zarr_shard_path_build_path [OF this, of "''a''" "[3, 12]" "\<lambda>n. True" 2 "[]"] have "strbuf_cstr sb' = shard_path ''a'' (take 2 [3, 12])"
    unfolding r by auto
  also have "\<dots> = ''a/c/3/12''" by code_simp
  finally show ?thesis using r by blast
qed

end
