(* ===== verification/Plan_Builder.thy ===== *)
theory Plan_Builder
  imports Selection_Correct Zarr_Index Dispatch_Types Config Hash Strbuf
begin

text \<open>
  The plan of a batch, prepared\_plan\_build of src/src/planner/plan\_builder.c: every sample is checked against its
  array's metadata, storage is sized, and then for every shard a sample touches and every chunk of it inside the
  selection the chunk is looked up in a hash table, added when new, and linked to its use. The metadata caches are
  parameters: functions from a handle to what prefetch\_cache\_query answers.
\<close>

section \<open>Inputs\<close>

type_synonym 'v query_cache = "prefetch_handle \<Rightarrow> prefetch_state \<times> 'v option \<times> damacy_status"

record shard_index_value =
  si_entries :: "zarr_shard_entry list"
  si_n_entries :: nat

record planner_sample =
  ps_uri :: "string option"
  ps_aabb :: damacy_aabb
  ps_axes :: "query_axis list"
  ps_h_meta :: prefetch_handle
  ps_h_shards :: "prefetch_handle list"
  ps_n_shards :: nat

definition ZARR_SHARD_EMPTY_OFFSET :: nat where "ZARR_SHARD_EMPTY_OFFSET = 0xFFFFFFFFFFFFFFFF"
definition ZARR_SHARD_EMPTY_NBYTES :: nat where "ZARR_SHARD_EMPTY_NBYTES = 0xFFFFFFFFFFFFFFFF"

definition array_metadata :: "zarr_metadata query_cache \<Rightarrow> prefetch_handle \<Rightarrow> damacy_status + zarr_metadata" where
  "array_metadata cache handle =
     (case cache handle of (state, value, error) \<Rightarrow>
        if state = PREFETCH_STATE_PENDING then Inl DAMACY_AGAIN
        else if state = PREFETCH_STATE_ERROR then Inl (if error \<noteq> DAMACY_OK then error else DAMACY_INVAL)
        else (case value of None \<Rightarrow> Inl DAMACY_INVAL | Some meta \<Rightarrow> Inr meta))"

section \<open>Geometry of a sample\<close>

definition geometry_dim ::
    "planner_sample \<Rightarrow> zarr_metadata \<Rightarrow> damacy_batch_spec \<Rightarrow> damacy_plan_limits \<Rightarrow> nat \<Rightarrow> nat \<Rightarrow> damacy_status + nat" where
  "geometry_dim sample meta out_spec limits d nbytes =
     (let lo = iv_beg (aabb_dims (ps_aabb sample) ! d); hi = iv_end (aabb_dims (ps_aabb sample) ! d);
          chunk = zm_inner_chunk_shape meta ! d
      in if lo < 0 \<or> hi \<le> lo \<or> u64_of_int hi > zm_shape meta ! d \<or> chunk = 0 then Inl DAMACY_INVAL
         else
           let n = qa_count (ps_axes sample ! d); extent = (if n \<noteq> 0 then int n else hi - lo)
           in if extent \<noteq> spec_sample_shape out_spec ! d then Inl DAMACY_INVAL
              else if nbytes > pl_max_chunk_bytes limits div chunk then Inl DAMACY_BUDGET
              else Inr (u64_mul nbytes chunk))"

definition sample_geometry ::
    "planner_sample \<Rightarrow> zarr_metadata \<Rightarrow> damacy_batch_spec \<Rightarrow> damacy_plan_limits \<Rightarrow> damacy_status + nat \<times> nat" where
  "sample_geometry sample meta out_spec limits =
     (if aabb_rank (ps_aabb sample) \<noteq> zm_rank meta \<or> zm_rank meta \<noteq> spec_sample_rank out_spec then Inl DAMACY_RANK
      else if \<not> cast_path_supported (spec_dtype out_spec) (zm_dtype meta) then Inl DAMACY_DTYPE
      else
        (case loop_res (geometry_dim sample meta out_spec limits) [0 ..< zm_rank meta] (dtype_bpe (zm_dtype meta)) of
           Inl status \<Rightarrow> Inl status
         | Inr nbytes \<Rightarrow>
             (case selection_grid_init (ps_aabb sample) (ps_axes sample) (zm_inner_chunk_shape meta) None None (pl_max_chunks limits) of
                Inl status \<Rightarrow> Inl status
              | Inr grid \<Rightarrow> Inr (grid_count grid mod 2 ^ 32, nbytes mod 2 ^ 32))))"

section \<open>Sizing\<close>

text \<open>The sizes the compiler gives the plan's structures on a 64-bit platform.\<close>

definition sizeof_plan_array :: nat where "sizeof_plan_array = 784"
definition sizeof_plan_region :: nat where "sizeof_plan_region = 1016"
definition sizeof_plan_chunk :: nat where "sizeof_plan_chunk = 288"
definition sizeof_plan_use :: nat where "sizeof_plan_use = 12"
definition sizeof_prepared_plan :: nat where "sizeof_prepared_plan = 328"

record plan_size =
  sz_capacity :: nat
  sz_path_bytes :: nat
  sz_index_bytes :: nat

definition size_index :: "planner_sample \<Rightarrow> damacy_plan_limits \<Rightarrow> nat \<Rightarrow> nat \<Rightarrow> damacy_status + nat" where
  "size_index sample limits d index_bytes =
     (let nbytes = u64_mul (qa_count (ps_axes sample ! d)) sizeof_query_index
      in if nbytes > pl_max_plan_bytes limits \<or> index_bytes > pl_max_plan_bytes limits - nbytes then Inl DAMACY_BUDGET
         else Inr (u64_add index_bytes nbytes))"

text \<open>The first loop over the samples.\<close>

definition size_sample ::
    "zarr_metadata query_cache \<Rightarrow> damacy_batch_spec \<Rightarrow> damacy_plan_limits \<Rightarrow> planner_sample \<Rightarrow> plan_size \<Rightarrow> damacy_status + plan_size" where
  "size_sample arrays out_spec limits sample sz =
     (case ps_uri sample of
        None \<Rightarrow> Inl DAMACY_INVAL
      | Some uri \<Rightarrow>
          if ps_n_shards sample > pl_max_shards_per_sample limits then Inl DAMACY_INVAL
          else
            (case array_metadata arrays (ps_h_meta sample) of
               Inl status \<Rightarrow> Inl status
             | Inr meta \<Rightarrow>
                 (case sample_geometry sample meta out_spec limits of
                    Inl status \<Rightarrow> Inl status
                  | Inr (n, bytes) \<Rightarrow>
                      (case loop_res (size_index sample limits) [0 ..< zm_rank meta] (sz_index_bytes sz) of
                         Inl status \<Rightarrow> Inl status
                       | Inr index_bytes \<Rightarrow>
                           let capacity = u64_add (sz_capacity sz) n in
                           if capacity > pl_max_chunks limits then Inl DAMACY_BUDGET
                           else
                             let len = length uri + 1; per_path = u64_add (u64_add len 3) (u64_mul (zm_rank meta) 21) in
                             if per_path > pl_max_plan_bytes limits \<or> ps_n_shards sample > pl_max_plan_bytes limits div per_path
                             then Inl DAMACY_BUDGET
                             else
                               let addition = u64_add len (u64_mul per_path (ps_n_shards sample)) in
                               if addition > pl_max_plan_bytes limits \<or> sz_path_bytes sz > pl_max_plan_bytes limits - addition
                               then Inl DAMACY_BUDGET
                               else Inr \<lparr>sz_capacity = capacity, sz_path_bytes = u64_add (sz_path_bytes sz) addition,
                                         sz_index_bytes = index_bytes\<rparr>))))"

text \<open>\<open>while (buckets < 2 * capacity) buckets *= 2\<close>; \<open>None\<close> is a loop that is still running.\<close>

fun bucket_loop :: "nat \<Rightarrow> nat \<Rightarrow> nat \<Rightarrow> nat option" where
  "bucket_loop 0 capacity buckets = (if buckets < u64_mul 2 capacity then None else Some buckets)"
| "bucket_loop (Suc fuel) capacity buckets =
     (if buckets < u64_mul 2 capacity then bucket_loop fuel capacity (u64_mul buckets 2) else Some buckets)"

definition storage_size :: "nat \<Rightarrow> plan_size \<Rightarrow> nat \<Rightarrow> nat" where
  "storage_size n_samples sz buckets =
     u64_add (u64_add (u64_add (u64_mul n_samples (sizeof_plan_array + sizeof_plan_region))
                               (u64_mul (sz_capacity sz) (sizeof_plan_chunk + sizeof_plan_use)))
                      (u64_mul buckets 4))
             (sz_path_bytes sz)"

section \<open>Building\<close>

text \<open>The plan under construction: the used parts of its arrays, the hash table, the bytes of path storage written, and
  the scratch buffer for paths.\<close>

record build_state =
  pb_arrays :: "plan_array list"
  pb_regions :: "plan_region list"
  pb_chunks :: "plan_chunk list"
  pb_uses :: "plan_use list"
  pb_table :: "nat list"
  pb_paths :: nat
  pb_path :: strbuf

definition chunk_hash :: "nat \<Rightarrow> nat list \<Rightarrow> 64 word" where
  "chunk_hash array coordinate = fold (\<lambda>c hash. hash_combine hash (word_of_nat c)) coordinate (word_of_nat array)"

text \<open>The probe loop; \<open>None\<close> when \<open>fuel\<close> steps find neither the chunk nor an empty bucket.\<close>

fun find_bucket :: "nat \<Rightarrow> plan_chunk list \<Rightarrow> nat list \<Rightarrow> nat \<Rightarrow> nat \<Rightarrow> nat list \<Rightarrow> nat \<Rightarrow> nat option" where
  "find_bucket 0 chunks table buckets array coordinate bucket = None"
| "find_bucket (Suc fuel) chunks table buckets array coordinate bucket =
     (if table ! bucket = 0 then Some bucket
      else
        let found = chunks ! (table ! bucket - 1)
        in if pc_array found = array \<and> pc_coordinate found = coordinate then Some bucket
           else find_bucket fuel chunks table buckets array coordinate ((bucket + 1) AND (buckets - 1)))"

text \<open>The entry of the shard's index, or the error; \<open>None\<close> stands for a missing shard.\<close>

definition chunk_entry :: "shard_index_value option \<Rightarrow> nat \<Rightarrow> plan_chunk \<Rightarrow> damacy_status + plan_chunk" where
  "chunk_entry index entry_index chunk =
     (case index of
        None \<Rightarrow> Inr chunk
      | Some index \<Rightarrow>
          if entry_index \<ge> si_n_entries index then Inl DAMACY_DECODE
          else
            let entry = si_entries index ! entry_index;
                offset = unat (se_offset entry); nbytes = unat (se_nbytes entry);
                empty_offset = (offset = ZARR_SHARD_EMPTY_OFFSET);
                empty_size = (nbytes = ZARR_SHARD_EMPTY_NBYTES)
            in if empty_offset \<noteq> empty_size \<or>
                  (\<not> empty_size \<and> (nbytes = 0 \<or> nbytes > UINT32_MAX \<or> offset > UINT64_MAX - nbytes))
               then Inl DAMACY_DECODE
               else
                 let chunk = chunk \<lparr>pc_missing := empty_size\<rparr>
                 in Inr (if \<not> empty_size then chunk \<lparr>pc_offset := offset, pc_encoded_bytes := nbytes\<rparr> else chunk))"

definition entry_position :: "nat list \<Rightarrow> nat list \<Rightarrow> nat" where
  "entry_position per_shard coordinate =
     fold (\<lambda>(per, c) e. u64_add (u64_mul e per) (c mod per)) (zip per_shard coordinate) 0"

text \<open>The body of the innermost loop. An error is the status the function returns with, or \<open>None\<close> for a loop that does not
  end.\<close>

definition add_chunk ::
    "nat \<Rightarrow> nat \<Rightarrow> nat \<Rightarrow> nat list \<Rightarrow> string option \<Rightarrow> shard_index_value option \<Rightarrow> nat \<Rightarrow> nat list \<Rightarrow> build_state \<Rightarrow>
     damacy_status option + build_state" where
  "add_chunk capacity region array per_shard path index decoded_bytes coordinate st =
     (let chunk = \<lparr>pc_path = path, pc_offset = 0, pc_coordinate = coordinate, pc_array = array, pc_encoded_bytes = 0,
                   pc_decoded_bytes = decoded_bytes, pc_first_use = UINT32_MAX, pc_missing = (index = None)\<rparr>
      in case chunk_entry index (entry_position per_shard coordinate) chunk of
           Inl status \<Rightarrow> Inl (Some status)
         | Inr chunk \<Rightarrow>
             let buckets = length (pb_table st);
                 bucket = unat (chunk_hash array coordinate) AND (buckets - 1)
             in case find_bucket (buckets + 1) (pb_chunks st) (pb_table st) buckets array coordinate bucket of
                  None \<Rightarrow> Inl None
                | Some bucket \<Rightarrow>
                    let (chunk_index, st) =
                          (if pb_table st ! bucket = 0
                           then (length (pb_chunks st),
                                 st \<lparr>pb_chunks := pb_chunks st @ [chunk],
                                     pb_table := (pb_table st)[bucket := length (pb_chunks st) + 1]\<rparr>)
                           else (pb_table st ! bucket - 1, st))
                    in if length (pb_uses st) \<ge> capacity then Inl (Some DAMACY_BUDGET)
                       else
                         let stored = pb_chunks st ! chunk_index
                         in Inr (st \<lparr>pb_uses := pb_uses st @ [\<lparr>pu_chunk = chunk_index, pu_region = region, pu_next = pc_first_use stored\<rparr>],
                                     pb_chunks := (pb_chunks st)[chunk_index := (stored \<lparr>pc_first_use := length (pb_uses st)\<rparr>)]\<rparr>))"

text \<open>The coordinates a grid iterator returns until it is exhausted. \<open>count + 1\<close> calls reach its end.\<close>

definition grid_coordinates :: "selection_grid \<Rightarrow> nat list list" where
  "grid_coordinates grid = odo_collect selection_grid_next (grid_count grid + 1) grid"

text \<open>The path of a shard that exists, copied into the plan's storage.\<close>

definition copy_shard_path ::
    "(nat \<Rightarrow> bool) \<Rightarrow> string \<Rightarrow> nat list \<Rightarrow> nat \<Rightarrow> bool \<Rightarrow> build_state \<Rightarrow> damacy_status option + string option \<times> build_state" where
  "copy_shard_path alloc_ok uri shard_coord rank missing st =
     (if missing then Inr (None, st)
      else (case zarr_shard_path_build alloc_ok (pb_path st) uri shard_coord rank of
              None \<Rightarrow> Inl None
            | Some (False, sb) \<Rightarrow> Inl (Some DAMACY_OOM)
            | Some (True, sb) \<Rightarrow>
                Inr (Some (strbuf_cstr sb), st \<lparr>pb_path := sb, pb_paths := pb_paths st + length (strbuf_cstr sb) + 1\<rparr>)))"

text \<open>The body of the loop over the shards of a sample, with the number of shards seen so far. The status of a cache miss
  is the pending one, the cached error or \<open>DAMACY_DECODE\<close>.\<close>

definition add_shard ::
    "(nat \<Rightarrow> bool) \<Rightarrow> shard_index_value query_cache \<Rightarrow> damacy_plan_limits \<Rightarrow> nat \<Rightarrow> nat \<Rightarrow> nat \<Rightarrow> planner_sample \<Rightarrow> string \<Rightarrow>
     zarr_metadata \<Rightarrow> nat list \<Rightarrow> nat \<Rightarrow> nat list \<Rightarrow> nat \<times> build_state \<Rightarrow> damacy_status option + nat \<times> build_state" where
  "add_shard alloc_ok shards limits capacity region array sample uri meta per_shard decoded_bytes shard_coord = (\<lambda>(shard_index, st).
     if shard_index \<ge> ps_n_shards sample then Inl (Some DAMACY_INVAL)
     else
       (case shards (ps_h_shards sample ! shard_index) of (state, value, error) \<Rightarrow>
          let missing = (state = PREFETCH_STATE_ERROR \<and> error = DAMACY_NOTFOUND)
          in if \<not> missing \<and> (state \<noteq> PREFETCH_STATE_READY \<or> value = None)
             then Inl (Some (if state = PREFETCH_STATE_PENDING then DAMACY_AGAIN
                             else if error \<noteq> DAMACY_OK then error else DAMACY_DECODE))
             else
               (case copy_shard_path alloc_ok uri shard_coord (zm_rank meta) missing st of
                  Inl e \<Rightarrow> Inl e
                | Inr (path, st) \<Rightarrow>
                    let lo = map (\<lambda>d. u64_mul (shard_coord ! d) (per_shard ! d)) [0 ..< zm_rank meta];
                        hi = map (\<lambda>d. u64_add (lo ! d) (per_shard ! d)) [0 ..< zm_rank meta]
                    in case selection_grid_init (ps_aabb sample) (ps_axes sample) (zm_inner_chunk_shape meta) (Some lo) (Some hi)
                              (pl_max_chunks limits) of
                         Inl status \<Rightarrow> Inl (Some status)
                       | Inr chunks \<Rightarrow>
                           map_sum id (Pair (shard_index + 1))
                             (loop_res (add_chunk capacity region array per_shard path (if missing then None else value) decoded_bytes)
                                (grid_coordinates chunks) st))))"

definition find_array :: "plan_array list \<Rightarrow> string \<Rightarrow> nat" where
  "find_array arrays uri = length (takeWhile (\<lambda>a. pa_uri a \<noteq> uri) arrays)"

definition sample_region :: "zarr_metadata \<Rightarrow> nat \<Rightarrow> nat \<Rightarrow> planner_sample \<Rightarrow> plan_region" where
  "sample_region meta array region sample =
     \<lparr>pr_operation = (if list_ex (\<lambda>d. qa_count (ps_axes sample ! d) \<noteq> 0) [0 ..< zm_rank meta] then PLAN_GATHER else PLAN_COPY),
      pr_array = array, pr_sample = region, pr_source = ps_aabb sample,
      pr_axes = map (\<lambda>d. if d < zm_rank meta \<and> qa_count (ps_axes sample ! d) \<noteq> 0
                         then \<lparr>qa_indices = take (qa_count (ps_axes sample ! d)) (qa_indices (ps_axes sample ! d)),
                               qa_count = qa_count (ps_axes sample ! d)\<rparr>
                         else \<lparr>qa_indices = [], qa_count = 0\<rparr>) [0 ..< DAMACY_MAX_RANK]\<rparr>"

text \<open>The body of the second loop over the samples.\<close>

definition add_sample ::
    "(nat \<Rightarrow> bool) \<Rightarrow> zarr_metadata query_cache \<Rightarrow> shard_index_value query_cache \<Rightarrow> damacy_batch_spec \<Rightarrow> damacy_plan_limits \<Rightarrow> nat \<Rightarrow>
     nat \<times> planner_sample \<Rightarrow> build_state \<Rightarrow> damacy_status option + build_state" where
  "add_sample alloc_ok arrays shards out_spec limits capacity = (\<lambda>(i, sample) st.
     (case array_metadata arrays (ps_h_meta sample) of
        Inl status \<Rightarrow> Inl (Some status)
      | Inr meta \<Rightarrow>
          let uri = the (ps_uri sample);
              array = find_array (pb_arrays st) uri;
              st = (if array = length (pb_arrays st)
                    then st \<lparr>pb_arrays := pb_arrays st @ [\<lparr>pa_uri = uri, pa_metadata = meta\<rparr>], pb_paths := pb_paths st + length uri + 1\<rparr>
                    else st);
              st = st \<lparr>pb_regions := pb_regions st @ [sample_region meta array i sample]\<rparr>
          in case sample_geometry sample meta out_spec limits of
               Inl status \<Rightarrow> Inl (Some status)
             | Inr (n, decoded_bytes) \<Rightarrow>
                 (case zarr_metadata_inner_per_shard meta of
                    None \<Rightarrow> Inl (Some DAMACY_DECODE)
                  | Some (per_shard, n_per_shard) \<Rightarrow>
                      (case selection_grid_init (ps_aabb sample) (ps_axes sample) (zm_shard_shape meta) None None
                              (pl_max_shards_per_sample limits) of
                         Inl status \<Rightarrow> Inl (Some status)
                       | Inr iterator \<Rightarrow>
                           (case loop_res (add_shard alloc_ok shards limits capacity i array sample uri meta per_shard decoded_bytes)
                                   (grid_coordinates iterator) (0, st) of
                              Inl e \<Rightarrow> Inl e
                            | Inr (shard_index, st) \<Rightarrow>
                                if shard_index \<noteq> ps_n_shards sample then Inl (Some DAMACY_INVAL) else Inr st)))))"

definition build_start :: "nat \<Rightarrow> build_state" where
  "build_start buckets = \<lparr>pb_arrays = [], pb_regions = [], pb_chunks = [], pb_uses = [], pb_table = replicate buckets 0, pb_paths = 0,
     pb_path = \<lparr>sb_mem = None, sb_len = 0, sb_inline = False\<rparr>\<rparr>"

definition plan_of :: "damacy_batch_spec \<Rightarrow> nat \<Rightarrow> build_state \<Rightarrow> prepared_plan" where
  "plan_of out_spec allocated st =
     \<lparr>pp_output = out_spec, pp_arrays = pb_arrays st, pp_chunks = pb_chunks st, pp_regions = pb_regions st, pp_uses = pb_uses st,
      pp_n_arrays = length (pb_arrays st), pp_n_chunks = length (pb_chunks st), pp_n_regions = length (pb_regions st),
      pp_n_uses = length (pb_uses st), pp_allocated_bytes = allocated\<rparr>"

text \<open>\<open>plan_ok\<close> and \<open>storage_ok\<close> are the outcomes of the two \<open>calloc\<close> calls, \<open>alloc_ok\<close> those of the path buffer.\<close>

definition prepared_plan_build ::
    "bool \<Rightarrow> (nat \<Rightarrow> bool) \<Rightarrow> (nat \<Rightarrow> bool) \<Rightarrow> zarr_metadata query_cache \<Rightarrow> shard_index_value query_cache \<Rightarrow> planner_sample list \<Rightarrow>
     damacy_batch_spec \<Rightarrow> damacy_plan_limits \<Rightarrow> damacy_status option + prepared_plan" where
  "prepared_plan_build plan_ok storage_ok alloc_ok arrays shards samples out_spec limits =
     (if samples = [] \<or> pl_max_chunks limits = 0 \<or> pl_max_chunk_bytes limits = 0 \<or> spec_sample_rank out_spec = 0 \<or>
         spec_sample_rank out_spec > DAMACY_MAX_RANK
      then Inl (Some DAMACY_INVAL)
      else
        (case loop_res (size_sample arrays out_spec limits) samples \<lparr>sz_capacity = 0, sz_path_bytes = 0, sz_index_bytes = 0\<rparr> of
           Inl status \<Rightarrow> Inl (Some status)
         | Inr sz \<Rightarrow>
             (case bucket_loop 64 (sz_capacity sz) 1 of
                None \<Rightarrow> Inl None
              | Some buckets \<Rightarrow>
                  let storage_bytes = storage_size (length samples) sz buckets
                  in if sz_index_bytes sz > UINT64_MAX - storage_bytes then Inl (Some DAMACY_BUDGET)
                     else
                       let storage_bytes = storage_bytes + sz_index_bytes sz
                       in if storage_bytes > SIZE_MAX \<or> storage_bytes > pl_max_plan_bytes limits \<or>
                             sizeof_prepared_plan > pl_max_plan_bytes limits - storage_bytes
                          then Inl (Some DAMACY_BUDGET)
                          else if \<not> plan_ok \<or> \<not> storage_ok storage_bytes then Inl (Some DAMACY_OOM)
                          else
                            map_sum id (plan_of out_spec (u64_add sizeof_prepared_plan storage_bytes))
                              (loop_res (add_sample alloc_ok arrays shards out_spec limits (sz_capacity sz))
                                 (enumerate 0 samples) (build_start buckets)))))"

end
