(* ===== verification/Plan_Builder_Correct.thy ===== *)
theory Plan_Builder_Correct
  imports Plan_Builder
begin

text \<open>
  Correctness of prepared\_plan\_build (src/src/planner/plan\_builder.c): the hash table finds every chunk that was added
  and always has room; a plan holds every chunk of an array once; the uses of a sample are exactly the chunks its
  selection touches, each once, in shard order; and the links from a chunk run through all of its uses.
\<close>

section \<open>The hash table\<close>

abbreviation chunk_key :: "plan_chunk \<Rightarrow> nat \<times> nat list" where
  "chunk_key c \<equiv> (pc_array c, pc_coordinate c)"

definition home :: "nat \<Rightarrow> nat \<times> nat list \<Rightarrow> nat" where
  "home buckets k = unat (chunk_hash (fst k) (snd k)) AND (buckets - 1)"

definition table_ok :: "plan_chunk list \<Rightarrow> nat list \<Rightarrow> bool" where
  "table_ok chunks table \<longleftrightarrow>
     (\<exists>m. length table = 2 ^ m) \<and> distinct (map chunk_key chunks) \<and>
     (\<forall>b < length table. table ! b \<le> length chunks) \<and>
     (\<forall>b < length table. \<forall>c < length table. table ! b = table ! c \<longrightarrow> table ! b \<noteq> 0 \<longrightarrow> b = c) \<and>
     (\<forall>k < length chunks. \<exists>d < length table.
        table ! ((home (length table) (chunk_key (chunks ! k)) + d) mod length table) = k + 1 \<and>
        (\<forall>e < d. table ! ((home (length table) (chunk_key (chunks ! k)) + e) mod length table) \<noteq> 0))"

lemma table_okD:
  assumes "table_ok chunks table"
  shows "\<exists>m. length table = 2 ^ m" "distinct (map chunk_key chunks)" "b < length table \<Longrightarrow> table ! b \<le> length chunks"
    "b < length table \<Longrightarrow> c < length table \<Longrightarrow> table ! b = table ! c \<Longrightarrow> table ! b \<noteq> 0 \<Longrightarrow> b = c"
    "k < length chunks \<Longrightarrow> \<exists>d < length table.
        table ! ((home (length table) (chunk_key (chunks ! k)) + d) mod length table) = k + 1 \<and>
        (\<forall>e < d. table ! ((home (length table) (chunk_key (chunks ! k)) + e) mod length table) \<noteq> 0)"
  using assms unfolding table_ok_def by (elim conjE, assumption | simp)+

text \<open>The distance at which a probe for \<open>key\<close> stops.\<close>

definition stops :: "plan_chunk list \<Rightarrow> nat list \<Rightarrow> nat \<times> nat list \<Rightarrow> nat \<Rightarrow> bool" where
  "stops chunks table key d \<longleftrightarrow>
     (let t = table ! ((home (length table) key + d) mod length table)
      in t = 0 \<or> chunk_key (chunks ! (t - 1)) = key)"

lemma table_has_room:
  assumes ok: "table_ok chunks table" and room: "length chunks < length table"
  shows "\<exists>d < length table. table ! ((h + d) mod length table) = 0"
proof -
  let ?B = "length table"
  have "\<exists>b < ?B. table ! b = 0"
  proof (rule ccontr)
    assume a: "\<not> (\<exists>b < ?B. table ! b = 0)"
    have full: "table ! b \<noteq> 0" if "b < ?B" for b using a that by auto
    have "inj_on (\<lambda>b. table ! b - 1) {..< ?B}"
    proof (rule inj_onI)
      fix b c
      assume b: "b \<in> {..< ?B}" "c \<in> {..< ?B}" "table ! b - 1 = table ! c - 1"
      then have "table ! b = table ! c" using full [of b] full [of c] by simp
      then show "b = c" using table_okD(4) [OF ok, of b c] b full [of b] by simp
    qed
    moreover have "(\<lambda>b. table ! b - 1) ` {..< ?B} \<subseteq> {..< length chunks}"
    proof
      fix k
      assume "k \<in> (\<lambda>b. table ! b - 1) ` {..< ?B}"
      then obtain b where "b < ?B" "k = table ! b - 1" by auto
      then show "k \<in> {..< length chunks}" using table_okD(3) [OF ok, of b] full [of b] by simp
    qed
    ultimately have "?B \<le> length chunks" using card_inj_on_le [of "\<lambda>b. table ! b - 1" "{..< ?B}" "{..< length chunks}"] by simp
    then show False using room by simp
  qed
  then obtain b where b: "b < ?B" "table ! b = 0" by blast
  have "cdist ?B (h mod ?B) b < ?B" by (rule cdist_less, rule le_less_trans [OF le0 b(1)])
  moreover have "(h + cdist ?B (h mod ?B) b) mod ?B = b"
    using add_cdist [of "h mod ?B" ?B b] b(1) mod_less_divisor [OF le_less_trans [OF le0 b(1)], of h] by (simp add: mod_simps)
  ultimately show ?thesis using b(2) by metis
qed

lemma find_bucket_steps:
  assumes "length table = 2 ^ m" and "\<forall>e < D. \<not> stops chunks table (array, coordinate) e" and "stops chunks table (array, coordinate) D"
    and "d \<le> D" and "D - d < fuel"
  shows "find_bucket fuel chunks table (length table) array coordinate ((home (length table) (array, coordinate) + d) mod length table) =
    Some ((home (length table) (array, coordinate) + D) mod length table)"
  using assms(4,5)
proof (induction fuel arbitrary: d)
  case (Suc fuel)
  let ?B = "length table" and ?h = "home (length table) (array, coordinate)"
  show ?case
  proof (cases "d = D")
    case True
    then show ?thesis using assms(3) by (auto simp: stops_def Let_def)
  next
    case False
    then have "\<not> stops chunks table (array, coordinate) d" using assms(2) Suc.prems by simp
    moreover have "((?h + d) mod ?B + 1) AND (?B - 1) = (?h + (d + 1)) mod ?B"
      using and_mask_mod [of "(?h + d) mod ?B + 1" m] assms(1) by (simp add: mod_simps)
    moreover have "find_bucket fuel chunks table ?B array coordinate ((?h + (d + 1)) mod ?B) = Some ((?h + D) mod ?B)"
      using False Suc.prems by (intro Suc.IH) simp_all
    ultimately show ?thesis by (auto simp: stops_def Let_def)
  qed
qed simp

text \<open>A probe ends at the chunk with the wanted key when there is one, and otherwise at an empty bucket where it can be
  added.\<close>

lemma find_bucket_result:
  assumes ok: "table_ok chunks table" and room: "length chunks < length table"
  shows "\<exists>D < length table.
    find_bucket (length table + 1) chunks table (length table) array coordinate (unat (chunk_hash array coordinate) AND (length table - 1)) =
      Some ((home (length table) (array, coordinate) + D) mod length table) \<and>
    (\<forall>e < D. table ! ((home (length table) (array, coordinate) + e) mod length table) \<noteq> 0) \<and>
    (let t = table ! ((home (length table) (array, coordinate) + D) mod length table)
     in if t = 0 then (array, coordinate) \<notin> set (map chunk_key chunks)
        else t - 1 < length chunks \<and> chunk_key (chunks ! (t - 1)) = (array, coordinate))"
proof -
  let ?B = "length table" and ?k = "(array, coordinate)"
  let ?h = "home ?B ?k"
  obtain m where m: "?B = 2 ^ m" using ok by (auto simp: table_ok_def)
  obtain z where z: "z < ?B" "table ! ((?h + z) mod ?B) = 0" using table_has_room [OF ok room] by blast
  define D where "D = (LEAST d. stops chunks table ?k d)"
  have "stops chunks table ?k z" using z by (simp add: stops_def)
  then have D: "stops chunks table ?k D" "D \<le> z" unfolding D_def by (rule LeastI, rule Least_le)
  have before: "\<forall>e < D. \<not> stops chunks table ?k e" using not_less_Least by (auto simp: D_def)
  have hlt: "?h < ?B" unfolding home_def m and_mask_mod by simp
  have "find_bucket (?B + 1) chunks table ?B array coordinate ((?h + 0) mod ?B) = Some ((?h + D) mod ?B)"
    using D z by (intro find_bucket_steps [OF m before D(1)]) simp_all
  moreover have "unat (chunk_hash array coordinate) AND (?B - 1) = (?h + 0) mod ?B" using hlt by (simp add: home_def)
  ultimately have f: "find_bucket (?B + 1) chunks table ?B array coordinate (unat (chunk_hash array coordinate) AND (?B - 1)) = Some ((?h + D) mod ?B)"
    by (simp only:)
  have nz: "\<forall>e < D. table ! ((?h + e) mod ?B) \<noteq> 0" using before by (auto simp: stops_def Let_def)
  let ?t = "table ! ((?h + D) mod ?B)"
  have "?k \<notin> set (map chunk_key chunks)" if t: "?t = 0"
  proof
    assume "?k \<in> set (map chunk_key chunks)"
    then obtain k where k: "k < length chunks" "chunk_key (chunks ! k) = ?k" by (auto simp: in_set_conv_nth)
    then obtain d where d: "d < ?B" "table ! ((?h + d) mod ?B) = k + 1" "\<forall>e < d. table ! ((?h + e) mod ?B) \<noteq> 0"
      using table_okD(5) [OF ok k(1)] by auto
    then have "stops chunks table ?k d" using k by (simp add: stops_def)
    then have "D \<le> d" unfolding D_def by (rule Least_le)
    then show False using d(2,3) t by (cases "D < d") auto
  qed
  moreover have "?t - 1 < length chunks" if "?t \<noteq> 0"
  proof -
    have "(?h + D) mod ?B < ?B" using z(1) by (intro mod_less_divisor) linarith
    then have "?t \<le> length chunks" using ok by (simp add: table_ok_def)
    then show ?thesis using that by simp
  qed
  moreover have "chunk_key (chunks ! (?t - 1)) = ?k" if "?t \<noteq> 0" using D(1) that by (auto simp: stops_def Let_def)
  ultimately show ?thesis using f nz D(2) z(1) by (intro exI [of _ D]) (auto simp: Let_def)
qed

text \<open>Adding a chunk at the empty bucket its probe found keeps the table.\<close>

lemma table_ok_insert:
  assumes ok: "table_ok chunks table" and new: "chunk_key c \<notin> set (map chunk_key chunks)"
    and D: "D < length table" and z: "table ! ((home (length table) (chunk_key c) + D) mod length table) = 0"
    and path: "\<forall>e < D. table ! ((home (length table) (chunk_key c) + e) mod length table) \<noteq> 0"
  shows "table_ok (chunks @ [c]) (table[(home (length table) (chunk_key c) + D) mod length table := length chunks + 1])"
proof -
  let ?B = "length table" and ?b = "(home (length table) (chunk_key c) + D) mod length table"
  let ?t = "table[?b := length chunks + 1]"
  have b: "?b < ?B" using D by (intro mod_less_divisor) linarith
  have at: "?t ! j = (if j = ?b then length chunks + 1 else table ! j)" if "j < ?B" for j using that b by simp
  have lt: "j mod ?B < ?B" for j using b by (intro mod_less_divisor) linarith
  have nz: "?t ! (j mod ?B) \<noteq> 0" if "table ! (j mod ?B) \<noteq> 0" for j unfolding at [OF lt] using that by simp
  have "\<exists>d < ?B. ?t ! ((home ?B (chunk_key ((chunks @ [c]) ! k)) + d) mod ?B) = k + 1 \<and>
      (\<forall>e < d. ?t ! ((home ?B (chunk_key ((chunks @ [c]) ! k)) + e) mod ?B) \<noteq> 0)" if k: "k < length (chunks @ [c])" for k
  proof (cases "k < length chunks")
    case True
    then obtain d where d: "d < ?B" "table ! ((home ?B (chunk_key (chunks ! k)) + d) mod ?B) = k + 1"
      "\<forall>e < d. table ! ((home ?B (chunk_key (chunks ! k)) + e) mod ?B) \<noteq> 0" using table_okD(5) [OF ok] by blast
    then have "(home ?B (chunk_key (chunks ! k)) + d) mod ?B \<noteq> ?b" using z by auto
    then have "?t ! ((home ?B (chunk_key (chunks ! k)) + d) mod ?B) = k + 1" unfolding at [OF lt] using d(2) by simp
    then show ?thesis using d(1,3) True nz by (intro exI [of _ d]) (auto simp: nth_append)
  next
    case False
    then have "k = length chunks" using k by simp
    then show ?thesis using D path nz b by (intro exI [of _ D]) auto
  qed
  moreover have "\<forall>i < ?B. \<forall>j < ?B. ?t ! i = ?t ! j \<longrightarrow> ?t ! i \<noteq> 0 \<longrightarrow> i = j"
  proof (intro allI impI)
    fix i j
    assume ij: "i < ?B" "j < ?B" "?t ! i = ?t ! j" "?t ! i \<noteq> 0"
    from ij(3,4) [unfolded at [OF ij(1)] at [OF ij(2)]] show "i = j"
      using ij(1,2) table_okD(3) [OF ok, of i] table_okD(3) [OF ok, of j] table_okD(4) [OF ok, of i j] by (auto split: if_splits)
  qed
  moreover have "\<forall>i < ?B. ?t ! i \<le> length (chunks @ [c])" 
  proof (intro allI impI)
    fix i
    assume i: "i < ?B"
    show "?t ! i \<le> length (chunks @ [c])" unfolding at [OF i] using table_okD(3) [OF ok i] by simp
  qed
  moreover have "distinct (map chunk_key (chunks @ [c]))" using table_okD(2) [OF ok] new by simp
  ultimately show ?thesis using table_okD(1) [OF ok] unfolding table_ok_def length_list_update by blast
qed

lemma table_ok_keys: "table_ok chunks table \<Longrightarrow> map chunk_key chunks = map chunk_key chunks' \<Longrightarrow> table_ok chunks' table"
proof -
  assume ok: "table_ok chunks table" and eq: "map chunk_key chunks = map chunk_key chunks'"
  have len: "length chunks' = length chunks" using eq map_eq_imp_length_eq by metis
  have key: "chunk_key (chunks' ! k) = chunk_key (chunks ! k)" if "k < length chunks" for k
    using arg_cong [OF eq, of "\<lambda>xs. xs ! k"] that len by simp
  show ?thesis using ok key unfolding table_ok_def len eq [symmetric] by simp
qed

section \<open>Adding a chunk\<close>

definition last_use :: "plan_use list \<Rightarrow> nat \<Rightarrow> nat \<Rightarrow> nat" where
  "last_use uses k n =
     (if \<exists>j < n. pu_chunk (uses ! j) = k then Max {j. j < n \<and> pu_chunk (uses ! j) = k} else UINT32_MAX)"

text \<open>What every step keeps: the table, uses that refer to chunks, no more chunks than uses, and the links.\<close>

definition build_ok :: "nat \<Rightarrow> build_state \<Rightarrow> bool" where
  "build_ok capacity st \<longleftrightarrow>
     table_ok (pb_chunks st) (pb_table st) \<and> 2 * capacity \<le> length (pb_table st) \<and>
     length (pb_chunks st) \<le> length (pb_uses st) \<and> length (pb_uses st) \<le> capacity \<and>
     (\<forall>n < length (pb_uses st). pu_chunk (pb_uses st ! n) < length (pb_chunks st) \<and>
        pu_next (pb_uses st ! n) = last_use (pb_uses st) (pu_chunk (pb_uses st ! n)) n) \<and>
     (\<forall>k < length (pb_chunks st). pc_first_use (pb_chunks st ! k) = last_use (pb_uses st) k (length (pb_uses st)))"

definition use_keys :: "build_state \<Rightarrow> (nat \<times> nat \<times> nat list) list" where
  "use_keys st = map (\<lambda>u. (pu_region u, chunk_key (pb_chunks st ! pu_chunk u))) (pb_uses st)"

lemma last_use_snoc_old: "n \<le> length uses \<Longrightarrow> last_use (uses @ us) k n = last_use uses k n"
proof -
  assume n: "n \<le> length uses"
  then have "j < n \<and> pu_chunk ((uses @ us) ! j) = k \<longleftrightarrow> j < n \<and> pu_chunk (uses ! j) = k" for j by (auto simp: nth_append)
  then show ?thesis unfolding last_use_def by presburger
qed

lemma last_use_snoc: "last_use (uses @ [u]) k (length uses + 1) = (if pu_chunk u = k then length uses else last_use uses k (length uses))"
proof (cases "pu_chunk u = k")
  case True
  have "Max {j. j < length uses + 1 \<and> pu_chunk ((uses @ [u]) ! j) = k} = length uses"
    using True by (intro Max_eqI) auto
  moreover have "\<exists>j < length uses + 1. pu_chunk ((uses @ [u]) ! j) = k" using True by (intro exI [of _ "length uses"]) simp
  ultimately show ?thesis using True by (simp add: last_use_def)
next
  case False
  have "j < length uses + 1 \<and> pu_chunk ((uses @ [u]) ! j) = k \<longleftrightarrow> j < length uses \<and> pu_chunk (uses ! j) = k" for j
    using False by (cases "j = length uses") (auto simp: nth_append)
  then show ?thesis using False unfolding last_use_def by presburger
qed

text \<open>The last lines of the body: the use is recorded and linked.\<close>

definition push_use :: "nat \<Rightarrow> nat \<Rightarrow> build_state \<Rightarrow> build_state" where
  "push_use region k st =
     st \<lparr>pb_uses := pb_uses st @ [\<lparr>pu_chunk = k, pu_region = region, pu_next = pc_first_use (pb_chunks st ! k)\<rparr>],
        pb_chunks := (pb_chunks st)[k := (pb_chunks st ! k) \<lparr>pc_first_use := length (pb_uses st)\<rparr>]\<rparr>"

lemma push_use_fields [simp]:
  "pb_arrays (push_use region k st) = pb_arrays st" "pb_regions (push_use region k st) = pb_regions st"
  "pb_paths (push_use region k st) = pb_paths st" "pb_path (push_use region k st) = pb_path st"
  by (simp_all add: push_use_def)

definition links_ok :: "build_state \<Rightarrow> bool" where
  "links_ok st \<longleftrightarrow>
     (\<forall>n < length (pb_uses st). pu_chunk (pb_uses st ! n) < length (pb_chunks st) \<and>
        pu_next (pb_uses st ! n) = last_use (pb_uses st) (pu_chunk (pb_uses st ! n)) n) \<and>
     (\<forall>k < length (pb_chunks st). pc_first_use (pb_chunks st ! k) = last_use (pb_uses st) k (length (pb_uses st)))"

lemma build_ok_links: "build_ok capacity st \<longleftrightarrow>
     table_ok (pb_chunks st) (pb_table st) \<and> 2 * capacity \<le> length (pb_table st) \<and>
     length (pb_chunks st) \<le> length (pb_uses st) \<and> length (pb_uses st) \<le> capacity \<and> links_ok st"
  by (simp add: build_ok_def links_ok_def)

lemma push_use_links:
  assumes ok: "links_ok st" and k: "k < length (pb_chunks st)"
  shows "links_ok (push_use region k st)"
proof -
  let ?u = "\<lparr>pu_chunk = k, pu_region = region, pu_next = pc_first_use (pb_chunks st ! k)\<rparr>"
  let ?n = "length (pb_uses st)"
  have "pu_chunk ((pb_uses st @ [?u]) ! n) < length (pb_chunks st) \<and>
      pu_next ((pb_uses st @ [?u]) ! n) = last_use (pb_uses st @ [?u]) (pu_chunk ((pb_uses st @ [?u]) ! n)) n" if n: "n < ?n + 1" for n
  proof (cases "n < ?n")
    case True
    then show ?thesis using ok by (simp add: links_ok_def nth_append last_use_snoc_old)
  next
    case False
    then have "n = ?n" using n by simp
    then show ?thesis using ok k by (simp add: links_ok_def last_use_snoc_old)
  qed
  moreover have "pc_first_use ((pb_chunks st)[k := (pb_chunks st ! k) \<lparr>pc_first_use := ?n\<rparr>] ! j) = last_use (pb_uses st @ [?u]) j (?n + 1)"
    if "j < length (pb_chunks st)" for j
    unfolding last_use_snoc using that ok k by (auto simp: links_ok_def nth_list_update)
  ultimately show ?thesis by (auto simp: links_ok_def push_use_def)
qed

lemma push_use_ok:
  assumes "table_ok (pb_chunks st) (pb_table st)" "2 * capacity \<le> length (pb_table st)" "length (pb_chunks st) \<le> length (pb_uses st) + 1"
    "length (pb_uses st) < capacity" "links_ok st" and k: "k < length (pb_chunks st)"
  shows "build_ok capacity (push_use region k st)"
    and "use_keys (push_use region k st) = use_keys st @ [(region, chunk_key (pb_chunks st ! k))]"
proof -
  let ?c = "(pb_chunks st)[k := (pb_chunks st ! k) \<lparr>pc_first_use := length (pb_uses st)\<rparr>]"
  have key: "map chunk_key ?c = map chunk_key (pb_chunks st)" by (rule nth_equalityI) (use k in \<open>auto simp: nth_list_update\<close>)
  have "table_ok ?c (pb_table st)" using table_ok_keys [OF assms(1)] key by metis
  then show "build_ok capacity (push_use region k st)"
    using assms(2-4) push_use_links [OF assms(5) k] by (simp add: build_ok_links) (simp add: push_use_def)
  have nth: "chunk_key (?c ! j) = chunk_key (pb_chunks st ! j)" if "j < length (pb_chunks st)" for j
    using arg_cong [OF key, of "\<lambda>xs. xs ! j"] that by simp
  have "pu_chunk u < length (pb_chunks st)" if "u \<in> set (pb_uses st)" for u
    using assms(5) that by (auto simp: links_ok_def in_set_conv_nth)
  then show "use_keys (push_use region k st) = use_keys st @ [(region, chunk_key (pb_chunks st ! k))]"
    using nth k by (simp add: use_keys_def push_use_def)
qed

lemma chunk_entry_key: "chunk_entry index e c = Inr c' \<Longrightarrow> chunk_key c' = chunk_key c \<and> pc_first_use c' = pc_first_use c"
  by (auto simp: chunk_entry_def Let_def split: option.splits if_splits)

lemma chunk_entry_error: "chunk_entry index e c = Inl status \<Longrightarrow> status = DAMACY_DECODE"
  by (auto simp: chunk_entry_def Let_def split: option.splits if_splits)

text \<open>A step with room for a use is stopped only by a bad index entry; otherwise it records exactly one use, of the chunk
  at the coordinate. In particular the probe loop always ends.\<close>

lemma add_chunk_result:
  assumes ok: "build_ok capacity st" and room: "length (pb_uses st) < capacity"
  shows "add_chunk capacity region array per_shard path index decoded_bytes coordinate st = Inl (Some DAMACY_DECODE) \<or>
         (\<exists>st'. add_chunk capacity region array per_shard path index decoded_bytes coordinate st = Inr st' \<and>
            build_ok capacity st' \<and> use_keys st' = use_keys st @ [(region, array, coordinate)] \<and>
            pb_arrays st' = pb_arrays st \<and> pb_regions st' = pb_regions st \<and> pb_paths st' = pb_paths st \<and> pb_path st' = pb_path st)"
proof -
  define c0 where "c0 = \<lparr>pc_path = path, pc_offset = 0, pc_coordinate = coordinate, pc_array = array, pc_encoded_bytes = 0,
                   pc_decoded_bytes = decoded_bytes, pc_first_use = UINT32_MAX, pc_missing = (index = None)\<rparr>"
  let ?B = "length (pb_table st)" and ?k = "(array, coordinate)"
  have tab: "table_ok (pb_chunks st) (pb_table st)" and cap: "2 * capacity \<le> ?B" and
    le: "length (pb_chunks st) \<le> length (pb_uses st)" and links: "links_ok st" using ok by (simp_all add: build_ok_links)
  have "length (pb_chunks st) < ?B" using le room cap by linarith
  from find_bucket_result [OF tab this, of array coordinate] obtain D where D: "D < ?B"
    "find_bucket (?B + 1) (pb_chunks st) (pb_table st) ?B array coordinate (unat (chunk_hash array coordinate) AND (?B - 1)) =
      Some ((home ?B ?k + D) mod ?B)"
    "\<forall>e < D. pb_table st ! ((home ?B ?k + e) mod ?B) \<noteq> 0"
    and t: "let t = pb_table st ! ((home ?B ?k + D) mod ?B)
     in if t = 0 then ?k \<notin> set (map chunk_key (pb_chunks st))
        else t - 1 < length (pb_chunks st) \<and> chunk_key (pb_chunks st ! (t - 1)) = ?k" by blast
  let ?b = "(home ?B ?k + D) mod ?B"
  show ?thesis
  proof (cases "chunk_entry index (entry_position per_shard coordinate) c0")
    case (Inl status)
    then have "add_chunk capacity region array per_shard path index decoded_bytes coordinate st = Inl (Some status)"
      unfolding add_chunk_def c0_def [symmetric] Let_def by simp
    then show ?thesis using chunk_entry_error [OF Inl] by simp
  next
    case (Inr c)
    have ck: "chunk_key c = ?k" "pc_first_use c = UINT32_MAX" using chunk_entry_key [OF Inr] by (simp_all add: c0_def)
    show ?thesis
    proof (cases "pb_table st ! ?b = 0")
      case True
      define st1 where "st1 = st \<lparr>pb_chunks := pb_chunks st @ [c], pb_table := (pb_table st)[?b := length (pb_chunks st) + 1]\<rparr>"
      have new: "?k \<notin> set (map chunk_key (pb_chunks st))" using t True by (simp add: Let_def)
      have tab1: "table_ok (pb_chunks st1) (pb_table st1)"
        using table_ok_insert [OF tab, of c D] new D(1,3) True ck(1) by (simp add: st1_def)
      have "last_use (pb_uses st) (length (pb_chunks st)) (length (pb_uses st)) = UINT32_MAX"
        using links by (auto simp: last_use_def links_ok_def)
      then have links1: "links_ok st1" using links ck(2) by (auto simp: links_ok_def st1_def nth_append less_Suc_eq)
      have "add_chunk capacity region array per_shard path index decoded_bytes coordinate st = Inr (push_use region (length (pb_chunks st)) st1)"
        unfolding add_chunk_def c0_def [symmetric] Let_def using Inr D(2) True room by (simp add: st1_def push_use_def)
      moreover have "build_ok capacity (push_use region (length (pb_chunks st)) st1)"
        and "use_keys (push_use region (length (pb_chunks st)) st1) = use_keys st1 @ [(region, chunk_key c)]"
        using push_use_ok [OF tab1 _ _ _ links1, of capacity "length (pb_chunks st)" region] cap le room by (simp_all add: st1_def)
      moreover have "use_keys st1 = use_keys st"
        using links by (auto simp: use_keys_def st1_def links_ok_def in_set_conv_nth nth_append)
      ultimately show ?thesis using ck(1) by (simp add: st1_def)
    next
      case False
      let ?j = "pb_table st ! ?b - 1"
      have j: "?j < length (pb_chunks st)" "chunk_key (pb_chunks st ! ?j) = ?k" using t False by (simp_all add: Let_def)
      have "add_chunk capacity region array per_shard path index decoded_bytes coordinate st = Inr (push_use region ?j st)"
        unfolding add_chunk_def c0_def [symmetric] Let_def using Inr D(2) False room by (simp add: push_use_def)
      moreover note push_use_ok [OF tab cap _ room links j(1), of region]
      ultimately show ?thesis using le j(2) by simp
    qed
  qed
qed

lemma use_keys_length [simp]: "length (use_keys st) = length (pb_uses st)"
  by (simp add: use_keys_def)

definition same_frame :: "build_state \<Rightarrow> build_state \<Rightarrow> bool" where
  "same_frame st st' \<longleftrightarrow> pb_arrays st' = pb_arrays st \<and> pb_regions st' = pb_regions st"

lemma add_chunks_result:
  assumes "build_ok capacity st" and "length (pb_uses st) + length coords \<le> capacity"
  shows "loop_res (add_chunk capacity region array per_shard path index decoded_bytes) coords st = Inl (Some DAMACY_DECODE) \<or>
         (\<exists>st'. loop_res (add_chunk capacity region array per_shard path index decoded_bytes) coords st = Inr st' \<and>
            build_ok capacity st' \<and> use_keys st' = use_keys st @ map (\<lambda>c. (region, array, c)) coords \<and>
            same_frame st st' \<and> pb_paths st' = pb_paths st \<and> pb_path st' = pb_path st)"
  using assms
proof (induction coords arbitrary: st)
  case (Cons c coords)
  let ?f = "add_chunk capacity region array per_shard path index decoded_bytes"
  from add_chunk_result [OF Cons.prems(1), of region array per_shard path index decoded_bytes c] Cons.prems(2)
  consider "?f c st = Inl (Some DAMACY_DECODE)" | st1 where "?f c st = Inr st1" "build_ok capacity st1"
    "use_keys st1 = use_keys st @ [(region, array, c)]" "same_frame st st1" "pb_paths st1 = pb_paths st" "pb_path st1 = pb_path st"
    by (auto simp: same_frame_def)
  then show ?case
  proof cases
    case 2
    have "length (pb_uses st1) = length (pb_uses st) + 1" using arg_cong [OF 2(3), of length] by simp
    then have "length (pb_uses st1) + length coords \<le> capacity" using Cons.prems(2) by simp
    from Cons.IH [OF 2(2) this] 2 show ?thesis by (auto simp: same_frame_def)
  qed simp
qed (simp add: same_frame_def)

section \<open>Shards partition the chunks\<close>

lemma axis_positions_finite: "finite (axis_positions bounds qaxis)"
  by (simp add: axis_positions_def)

lemma axis_cells_set: "set (axis_cells bounds qaxis cs cb ce) = {c \<in> (\<lambda>x. x div cs) ` axis_positions bounds qaxis. in_clip cb ce c}"
  and axis_cells_distinct: "distinct (axis_cells bounds qaxis cs cb ce)"
  by (simp_all add: axis_cells_def axis_positions_finite)

lemma axis_position_lt: "axis_fits bounds qaxis \<Longrightarrow> x \<in> axis_positions bounds qaxis \<Longrightarrow> x < 2 ^ 63"
  by (auto simp: axis_fits_def axis_positions_def axis_ok_def split: if_splits)

lemma shard_axis_cells:
  assumes "shard = per * inner"
  shows "set (axis_cells bounds qaxis shard None None) = (\<lambda>c. c div per) ` set (axis_cells bounds qaxis inner None None)"
  unfolding axis_cells_set in_clip_def assms by (auto simp: image_image div_mult2_eq mult.commute [of per])

lemma clip_axis_cells:
  assumes "0 < per"
  shows "set (axis_cells bounds qaxis inner (Some (s * per)) (Some (s * per + per))) =
    {c \<in> set (axis_cells bounds qaxis inner None None). c div per = s}"
proof -
  have "s * per \<le> c \<and> c < s * per + per \<longleftrightarrow> c div per = s" for c
    using assms less_eq_div_iff_mult_less_eq [of per s c] div_less_iff_less_mult [of per c "s + 1"] by auto
  then show ?thesis unfolding axis_cells_set in_clip_def by auto
qed

definition sample_cells :: "zarr_metadata \<Rightarrow> planner_sample \<Rightarrow> nat list list" where
  "sample_cells meta sample =
     product_lists (map (\<lambda>d. axis_cells (aabb_dims (ps_aabb sample) ! d) (ps_axes sample ! d) (zm_inner_chunk_shape meta ! d) None None)
       [0 ..< zm_rank meta])"

definition sample_shards :: "zarr_metadata \<Rightarrow> planner_sample \<Rightarrow> nat list list" where
  "sample_shards meta sample =
     product_lists (map (\<lambda>d. axis_cells (aabb_dims (ps_aabb sample) ! d) (ps_axes sample ! d) (zm_shard_shape meta ! d) None None)
       [0 ..< zm_rank meta])"

text \<open>The chunks of a sample inside one shard.\<close>

definition shard_cells :: "zarr_metadata \<Rightarrow> nat list \<Rightarrow> planner_sample \<Rightarrow> nat list \<Rightarrow> nat list list" where
  "shard_cells meta per sample s =
     product_lists (map (\<lambda>d. axis_cells (aabb_dims (ps_aabb sample) ! d) (ps_axes sample ! d) (zm_inner_chunk_shape meta ! d)
       (Some (s ! d * per ! d)) (Some (s ! d * per ! d + per ! d))) [0 ..< zm_rank meta])"

lemma in_product_nth:
  "xs \<in> set (product_lists (map f [0 ..< n])) \<longleftrightarrow> length xs = n \<and> (\<forall>d < n. xs ! d \<in> set (f d))"
  by (auto simp: product_lists_set list_all2_conv_all_nth)

lemma distinct_concat_disjoint:
  assumes "distinct xs" and "\<And>x. x \<in> set xs \<Longrightarrow> distinct (f x)" and "\<And>x y. x \<in> set xs \<Longrightarrow> y \<in> set xs \<Longrightarrow> x \<noteq> y \<Longrightarrow> set (f x) \<inter> set (f y) = {}"
  shows "distinct (concat (map f xs))"
  using assms
proof (induction xs)
  case (Cons x xs)
  have "distinct (concat (map f xs))" using Cons.prems by (intro Cons.IH) auto
  moreover have "set (f x) \<inter> set (f y) = {}" if "y \<in> set xs" for y using Cons.prems(1,3) that by auto
  ultimately show ?case using Cons.prems(1,2) by auto
qed simp

lemma shards_partition:
  assumes per: "\<And>d. d < zm_rank meta \<Longrightarrow> 0 < per ! d \<and> zm_shard_shape meta ! d = per ! d * zm_inner_chunk_shape meta ! d"
  shows "mset (concat (map (shard_cells meta per sample) (sample_shards meta sample))) = mset (sample_cells meta sample)"
proof -
  let ?C = "\<lambda>d. axis_cells (aabb_dims (ps_aabb sample) ! d) (ps_axes sample ! d) (zm_inner_chunk_shape meta ! d) None None"
  let ?div = "\<lambda>c. map (\<lambda>d. c ! d div per ! d) [0 ..< zm_rank meta]"
  have inC: "c \<in> set (sample_cells meta sample) \<longleftrightarrow> length c = zm_rank meta \<and> (\<forall>d < zm_rank meta. c ! d \<in> set (?C d))" for c
    unfolding sample_cells_def by (rule in_product_nth)
  have inS: "s \<in> set (sample_shards meta sample) \<longleftrightarrow> length s = zm_rank meta \<and> (\<forall>d < zm_rank meta. s ! d \<in> (\<lambda>c. c div per ! d) ` set (?C d))" for s
    unfolding sample_shards_def in_product_nth using shard_axis_cells per by auto
  have inK: "c \<in> set (shard_cells meta per sample s) \<longleftrightarrow> c \<in> set (sample_cells meta sample) \<and> (\<forall>d < zm_rank meta. c ! d div per ! d = s ! d)" for c s
    unfolding shard_cells_def in_product_nth inC using clip_axis_cells per by auto
  have one: "s = ?div c" if "c \<in> set (shard_cells meta per sample s)" "s \<in> set (sample_shards meta sample)" for c s
    using that unfolding inK inS by (intro nth_equalityI) auto
  have "set (concat (map (shard_cells meta per sample) (sample_shards meta sample))) = set (sample_cells meta sample)"
  proof (intro equalityI subsetI)
    fix c
    assume c: "c \<in> set (sample_cells meta sample)"
    then have "?div c \<in> set (sample_shards meta sample)" "c \<in> set (shard_cells meta per sample (?div c))"
      unfolding inK inS inC by auto
    then show "c \<in> set (concat (map (shard_cells meta per sample) (sample_shards meta sample)))" by auto
  qed (auto simp: inK)
  moreover have "distinct (concat (map (shard_cells meta per sample) (sample_shards meta sample)))"
  proof (rule distinct_concat_disjoint)
    show "distinct (sample_shards meta sample)"
      unfolding sample_shards_def by (intro distinct_product_lists) (auto simp: axis_cells_distinct)
    show "distinct (shard_cells meta per sample s)" for s
      unfolding shard_cells_def by (intro distinct_product_lists) (auto simp: axis_cells_distinct)
    show "set (shard_cells meta per sample s) \<inter> set (shard_cells meta per sample t) = {}"
      if "s \<in> set (sample_shards meta sample)" "t \<in> set (sample_shards meta sample)" "s \<noteq> t" for s t
      using one that by blast
  qed
  moreover have "distinct (sample_cells meta sample)"
    unfolding sample_cells_def by (intro distinct_product_lists) (auto simp: axis_cells_distinct)
  ultimately show ?thesis using set_eq_iff_mset_eq_distinct by blast
qed

section \<open>Adding shards and samples\<close>

definition meta_ok :: "zarr_metadata \<Rightarrow> bool" where
  "meta_ok meta \<longleftrightarrow> zm_rank meta \<le> length (zm_inner_chunk_shape meta) \<and> zm_rank meta \<le> length (zm_shard_shape meta) \<and>
     (\<forall>d < zm_rank meta. zm_shard_shape meta ! d < 2 ^ 64)"

definition sample_ok :: "zarr_metadata \<Rightarrow> planner_sample \<Rightarrow> bool" where
  "sample_ok meta sample \<longleftrightarrow> meta_ok meta \<and> (\<exists>uri. ps_uri sample = Some uri \<and> NUL \<notin> set uri) \<and>
     (\<forall>d < zm_rank meta. axis_fits (aabb_dims (ps_aabb sample) ! d) (ps_axes sample ! d))"

lemma grid_coordinates_cells:
  assumes "selection_grid_init bounds axes shape cb ce max_cells = Inr grid"
    and "\<forall>d < aabb_rank bounds. axis_fits (aabb_dims bounds ! d) (axes ! d)"
  shows "grid_coordinates grid =
      product_lists (map (\<lambda>d. axis_cells (aabb_dims bounds ! d) (axes ! d) (shape ! d) (clip_at cb d) (clip_at ce d)) [0 ..< aabb_rank bounds])"
  unfolding grid_coordinates_def conjunct1 [OF selection_grid_cells [OF assms]]
  using conjunct2 [OF selection_grid_cells [OF assms]] by simp

text \<open>What is known of the chunks per shard once the metadata has been accepted.\<close>

definition per_ok :: "zarr_metadata \<Rightarrow> nat list \<Rightarrow> bool" where
  "per_ok meta per \<longleftrightarrow> length per = zm_rank meta \<and>
     (\<forall>d < zm_rank meta. 0 < per ! d \<and> zm_shard_shape meta ! d = per ! d * zm_inner_chunk_shape meta ! d \<and>
        0 < zm_inner_chunk_shape meta ! d \<and> zm_shard_shape meta ! d < 2 ^ 64)"

lemma shard_clip_exact:
  assumes per: "per_ok meta per" and fits: "\<forall>d < zm_rank meta. axis_fits (aabb_dims (ps_aabb sample) ! d) (ps_axes sample ! d)"
    and s: "s \<in> set (sample_shards meta sample)" and d: "d < zm_rank meta"
  shows "u64_mul (s ! d) (per ! d) = s ! d * per ! d" and "u64_add (s ! d * per ! d) (per ! d) = s ! d * per ! d + per ! d"
    and "s ! d < 2 ^ 64"
proof -
  let ?sh = "zm_shard_shape meta ! d"
  have p: "0 < per ! d" "?sh = per ! d * zm_inner_chunk_shape meta ! d" "0 < zm_inner_chunk_shape meta ! d" "?sh < 2 ^ 64"
    using per d by (auto simp: per_ok_def)
  from s d have "s ! d \<in> set (axis_cells (aabb_dims (ps_aabb sample) ! d) (ps_axes sample ! d) ?sh None None)"
    by (simp add: sample_shards_def in_product_nth)
  then obtain x where x: "x \<in> axis_positions (aabb_dims (ps_aabb sample) ! d) (ps_axes sample ! d)" "s ! d = x div ?sh"
    by (auto simp: axis_cells_set)
  have x63: "x < 2 ^ 63" using axis_position_lt [OF _ x(1)] fits d by blast
  have le: "per ! d \<le> ?sh" using p by simp
  have "s ! d * per ! d \<le> s ! d * ?sh" using le by (rule mult_le_mono2)
  also have "\<dots> \<le> x" unfolding x(2) by (rule div_times_less_eq_dividend)
  finally have sp: "s ! d * per ! d < 2 ^ 63" using x63 by linarith
  then show "u64_mul (s ! d) (per ! d) = s ! d * per ! d" by (intro u64_mul_exact) simp
  have "s ! d * per ! d + per ! d < 2 ^ 64"
  proof (cases "s ! d = 0")
    case True
    then show ?thesis using le p(4) by simp
  next
    case False
    then have "per ! d \<le> s ! d * per ! d" by (cases "s ! d") simp_all
    then have "per ! d < 2 ^ 63" using sp by (rule le_less_trans)
    from add_strict_mono [OF sp this] show ?thesis by simp
  qed
  then show "u64_add (s ! d * per ! d) (per ! d) = s ! d * per ! d + per ! d" by (rule u64_add_exact)
  have "s ! d \<le> x" unfolding x(2) by simp
  then show "s ! d < 2 ^ 64" using x63 by simp
qed

lemma copy_shard_path_result:
  assumes "sb_room (pb_path st)" and "NUL \<notin> set uri" and "\<forall>c \<in> set s. c < 2 ^ 64" and "length s = rank"
    and r: "r = copy_shard_path alloc_ok uri s rank missing st"
  shows "r \<noteq> Inl None"
    and "r = Inr (path, st') \<Longrightarrow> sb_room (pb_path st') \<and> pb_arrays st' = pb_arrays st \<and> pb_regions st' = pb_regions st \<and>
      pb_chunks st' = pb_chunks st \<and> pb_uses st' = pb_uses st \<and> pb_table st' = pb_table st \<and>
      pb_paths st' \<le> pb_paths st + (length uri + 3 + 21 * rank) \<and> (path = (if missing then None else Some (shard_path uri s)))"
proof -
  obtain fine sb' where p: "zarr_shard_path_build alloc_ok (pb_path st) uri s rank = Some (fine, sb')"
    "fine \<longrightarrow> sb_ok sb' \<and> strbuf_cstr sb' = shard_path uri (take rank s)"
    using zarr_shard_path_build_result [OF assms(1,2)] by blast
  have "length (shard_path uri s) \<le> length uri + 2 + 21 * rank" using shard_path_length [OF assms(3), of uri] assms(4) by simp
  then show "r \<noteq> Inl None" and "r = Inr (path, st') \<Longrightarrow> sb_room (pb_path st') \<and> pb_arrays st' = pb_arrays st \<and> pb_regions st' = pb_regions st \<and>
      pb_chunks st' = pb_chunks st \<and> pb_uses st' = pb_uses st \<and> pb_table st' = pb_table st \<and>
      pb_paths st' \<le> pb_paths st + (length uri + 3 + 21 * rank) \<and> (path = (if missing then None else Some (shard_path uri s)))"
    using p assms(1,4) sb_ok_room unfolding r copy_shard_path_def by (auto split: if_splits bool.splits)
qed

lemma build_ok_same:
  assumes "build_ok capacity st" and "pb_chunks st' = pb_chunks st" "pb_uses st' = pb_uses st" "pb_table st' = pb_table st"
  shows "build_ok capacity st'" and "use_keys st' = use_keys st"
  using assms by (simp_all add: build_ok_def use_keys_def)

lemma add_shard_result:
  assumes ok: "build_ok capacity st" and sb: "sb_room (pb_path st)" and per: "per_ok meta per"
    and sample: "sample_ok meta sample" "ps_uri sample = Some uri" and rank: "aabb_rank (ps_aabb sample) = zm_rank meta"
    and s: "s \<in> set (sample_shards meta sample)"
    and room: "length (pb_uses st) + length (shard_cells meta per sample s) \<le> capacity"
    and r: "r = add_shard alloc_ok shards limits capacity region array sample uri meta per decoded_bytes s (k, st)"
  shows "r \<noteq> Inl None \<and> (\<forall>k' st'. r = Inr (k', st') \<longrightarrow>
      k' = k + 1 \<and> k < ps_n_shards sample \<and> build_ok capacity st' \<and> sb_room (pb_path st') \<and> same_frame st st' \<and>
      use_keys st' = use_keys st @ map (\<lambda>c. (region, array, c)) (shard_cells meta per sample s) \<and>
      pb_paths st' \<le> pb_paths st + (length uri + 3 + 21 * zm_rank meta))"
proof -
  have fits: "\<forall>d < zm_rank meta. axis_fits (aabb_dims (ps_aabb sample) ! d) (ps_axes sample ! d)" and nul: "NUL \<notin> set uri"
    using sample by (auto simp: sample_ok_def)
  have ls: "length s = zm_rank meta" using s by (simp add: sample_shards_def in_product_nth)
  have s64: "\<forall>c \<in> set s. c < 2 ^ 64" using shard_clip_exact(3) [OF per fits s] ls by (auto simp: in_set_conv_nth)
  obtain state found error where q: "shards (ps_h_shards sample ! k) = (state, found, error)" by (metis prod_cases3)
  define missing where "missing = (state = PREFETCH_STATE_ERROR \<and> error = DAMACY_NOTFOUND)"
  define P where "P = copy_shard_path alloc_ok uri s (zm_rank meta) missing st"
  note path = copy_shard_path_result [OF sb nul s64 ls P_def]
  define lo where "lo = map (\<lambda>d. u64_mul (s ! d) (per ! d)) [0 ..< zm_rank meta]"
  define hi where "hi = map (\<lambda>d. u64_add (lo ! d) (per ! d)) [0 ..< zm_rank meta]"
  have clip: "clip_at (Some lo) d = Some (s ! d * per ! d)" "clip_at (Some hi) d = Some (s ! d * per ! d + per ! d)" if "d < zm_rank meta" for d
    using that shard_clip_exact(1,2) [OF per fits s that] by (simp_all add: clip_at_def lo_def hi_def)
  have cells: "grid_coordinates g = shard_cells meta per sample s"
    if "selection_grid_init (ps_aabb sample) (ps_axes sample) (zm_inner_chunk_shape meta) (Some lo) (Some hi) (pl_max_chunks limits) = Inr g" for g
    using grid_coordinates_cells [OF that] fits rank clip unfolding shard_cells_def
    by (auto intro!: arg_cong [of _ _ product_lists])
  show ?thesis
  proof (cases "k < ps_n_shards sample \<and> (missing \<or> state = PREFETCH_STATE_READY \<and> found \<noteq> None)")
    case False
    then show ?thesis unfolding r add_shard_def using q by (auto simp: missing_def Let_def)
  next
    case True
    let ?grid = "selection_grid_init (ps_aabb sample) (ps_axes sample) (zm_inner_chunk_shape meta) (Some lo) (Some hi) (pl_max_chunks limits)"
    have c1: "\<not> k \<ge> ps_n_shards sample" and c2: "\<not> (\<not> missing \<and> (state \<noteq> PREFETCH_STATE_READY \<or> found = None))" using True by auto
    have body: "r = (case P of Inl e \<Rightarrow> Inl e
      | Inr (path, st) \<Rightarrow> (case ?grid of Inl status \<Rightarrow> Inl (Some status)
          | Inr chunks \<Rightarrow> map_sum id (Pair (k + 1))
              (loop_res (add_chunk capacity region array per path (if missing then None else found) decoded_bytes) (grid_coordinates chunks) st)))"
      unfolding r add_shard_def split_conv q prod.case Let_def missing_def [symmetric] P_def [symmetric] lo_def [symmetric] hi_def [symmetric]
        if_not_P [OF c1] if_not_P [OF c2] by (rule refl)
    show ?thesis
    proof (cases P)
      case (Inl e)
      then show ?thesis using path(1) body by auto
    next
      case (Inr x)
      then obtain pth st1 where x: "P = Inr (pth, st1)" by (cases x) auto
      note B = path(2) [OF x]
      show ?thesis
      proof (cases ?grid)
        case (Inl status)
        then show ?thesis using body x by simp
      next
        case (Inr g)
        define R where "R = loop_res (add_chunk capacity region array per pth (if missing then None else found) decoded_bytes) (shard_cells meta per sample s) st1"
        have rR: "r = map_sum id (Pair (k + 1)) R" using body x Inr by (simp add: R_def cells [OF Inr])
        have b1: "build_ok capacity st1" "use_keys st1 = use_keys st" using build_ok_same [OF ok, of st1] B by simp_all
        have "length (pb_uses st1) + length (shard_cells meta per sample s) \<le> capacity" using room B by simp
        from add_chunks_result [OF b1(1) this, of region array per pth "if missing then None else found" decoded_bytes, folded R_def]
        show ?thesis
        proof (elim disjE exE conjE)
          assume "R = Inl (Some DAMACY_DECODE)"
          then show ?thesis using rR by simp
        next
          fix st2
          assume "R = Inr st2" "build_ok capacity st2"
            "use_keys st2 = use_keys st1 @ map (\<lambda>c. (region, array, c)) (shard_cells meta per sample s)"
            "same_frame st1 st2" "pb_paths st2 = pb_paths st1" "pb_path st2 = pb_path st1"
          then show ?thesis using rR B b1(2) True by (simp add: same_frame_def)
        qed
      qed
    qed
  qed
qed

lemma add_shards_result:
  assumes "build_ok capacity st" and "sb_room (pb_path st)" and per: "per_ok meta per"
    and sample: "sample_ok meta sample" "ps_uri sample = Some uri" and rank: "aabb_rank (ps_aabb sample) = zm_rank meta"
    and "set ss \<subseteq> set (sample_shards meta sample)"
    and "length (pb_uses st) + length (concat (map (shard_cells meta per sample) ss)) \<le> capacity"
    and "r = loop_res (add_shard alloc_ok shards limits capacity region array sample uri meta per decoded_bytes) ss (k, st)"
  shows "r \<noteq> Inl None \<and> (\<forall>k' st'. r = Inr (k', st') \<longrightarrow>
      k' = k + length ss \<and> build_ok capacity st' \<and> sb_room (pb_path st') \<and> same_frame st st' \<and>
      use_keys st' = use_keys st @ map (\<lambda>c. (region, array, c)) (concat (map (shard_cells meta per sample) ss)) \<and>
      pb_paths st' \<le> pb_paths st + length ss * (length uri + 3 + 21 * zm_rank meta))"
  using assms(1,2,7-)
proof (induction ss arbitrary: st k r)
  case Nil
  then show ?case by (simp add: same_frame_def)
next
  case (Cons s ss)
  let ?f = "add_shard alloc_ok shards limits capacity region array sample uri meta per decoded_bytes"
  have s: "s \<in> set (sample_shards meta sample)" and room: "length (pb_uses st) + length (shard_cells meta per sample s) \<le> capacity"
    using Cons.prems by auto
  note one = add_shard_result [OF Cons.prems(1,2) per sample rank s room refl, of alloc_ok shards limits region array decoded_bytes k]
  show ?case
  proof (cases "?f s (k, st)")
    case (Inl e)
    then show ?thesis using one Cons.prems(5) by auto
  next
    case (Inr x)
    then obtain k1 st1 where x: "?f s (k, st) = Inr (k1, st1)" by (cases x) auto
    have o: "k1 = k + 1" "build_ok capacity st1" "sb_room (pb_path st1)" "same_frame st st1"
      "use_keys st1 = use_keys st @ map (\<lambda>c. (region, array, c)) (shard_cells meta per sample s)"
      "pb_paths st1 \<le> pb_paths st + (length uri + 3 + 21 * zm_rank meta)" using one x by auto
    have "length (pb_uses st1) = length (pb_uses st) + length (shard_cells meta per sample s)" using arg_cong [OF o(5), of length] by simp
    then have "length (pb_uses st1) + length (concat (map (shard_cells meta per sample) ss)) \<le> capacity" using Cons.prems(4) by simp
    moreover have "set ss \<subseteq> set (sample_shards meta sample)" using Cons.prems(3) by auto
    ultimately have IH: "loop_res ?f ss (k1, st1) \<noteq> Inl None \<and> (\<forall>k' st'. loop_res ?f ss (k1, st1) = Inr (k', st') \<longrightarrow>
      k' = k1 + length ss \<and> build_ok capacity st' \<and> sb_room (pb_path st') \<and> same_frame st1 st' \<and>
      use_keys st' = use_keys st1 @ map (\<lambda>c. (region, array, c)) (concat (map (shard_cells meta per sample) ss)) \<and>
      pb_paths st' \<le> pb_paths st1 + length ss * (length uri + 3 + 21 * zm_rank meta))"
      by (intro Cons.IH [OF o(2,3) _ _ refl])
    have r: "r = loop_res ?f ss (k1, st1)" using Cons.prems(5) x by simp
    show ?thesis unfolding r
    proof (intro conjI allI impI)
      show "loop_res ?f ss (k1, st1) \<noteq> Inl None" using IH by simp
    qed (use IH o in \<open>auto simp: same_frame_def\<close>)
  qed
qed

lemma grid_init_loop_cells:
  "selection_grid_init_loop max_cells ds g0 = Inr g \<Longrightarrow>
     (grid_count g0 \<le> max_cells \<longrightarrow> grid_count g \<le> max_cells) \<and> (\<forall>(bounds, qaxis, cs, cb, ce) \<in> set ds. 0 < cs)"
proof (induction ds arbitrary: g0)
  case (Cons d ds)
  obtain bounds qaxis cs cb ce where d: "d = (bounds, qaxis, cs, cb, ce)" by (cases d)
  obtain axis n where i: "grid_axis_init bounds qaxis cs cb ce = (axis, n)" by fastforce
  have v: "0 < cs" "n = 0 \<or> \<not> grid_count g0 > max_cells div n" using Cons.prems(1) i by (auto simp: d Let_def split: if_splits)
  let ?g = "g0\<lparr>grid_axes := grid_axes g0 @ [axis]\<rparr>"
  let ?h = "if n = 0 then ?g\<lparr>grid_count := 0, grid_finished := True\<rparr> else ?g\<lparr>grid_count := grid_count g0 * n\<rparr>"
  have "selection_grid_init_loop max_cells ds ?h = Inr g" using Cons.prems(1) i by (auto simp: d Let_def split: if_splits)
  moreover have "grid_count ?h \<le> max_cells" using v(2) less_eq_div_iff_mult_less_eq [of n "grid_count g0" max_cells] by auto
  ultimately show ?case using Cons.IH [of ?h] v(1) by (simp add: d)
qed simp

lemma grid_init_cells:
  assumes "selection_grid_init bounds axes shape cb ce max_cells = Inr grid"
  shows "0 < max_cells \<Longrightarrow> grid_count grid \<le> max_cells" and "d < aabb_rank bounds \<Longrightarrow> 0 < shape ! d"
  using grid_init_loop_cells [of max_cells _ _ grid] assms
  by (fastforce simp: selection_grid_init_def Let_def split: if_splits)+

lemma sample_geometry_result:
  assumes g: "sample_geometry sample meta out_spec limits = Inr (n, bytes)" and ok: "sample_ok meta sample"
    and lim: "0 < pl_max_chunks limits" "pl_max_chunks limits < 2 ^ 32"
  shows "aabb_rank (ps_aabb sample) = zm_rank meta" and "zm_rank meta = spec_sample_rank out_spec"
    and "n = length (sample_cells meta sample)"
proof -
  from g show rank: "aabb_rank (ps_aabb sample) = zm_rank meta" "zm_rank meta = spec_sample_rank out_spec"
    by (auto simp: sample_geometry_def split: if_splits)
  from g obtain grid where grid: "selection_grid_init (ps_aabb sample) (ps_axes sample) (zm_inner_chunk_shape meta) None None (pl_max_chunks limits) = Inr grid"
    and n: "n = grid_count grid mod 2 ^ 32"
    by (auto simp: sample_geometry_def split: if_splits sum.splits)
  have fits: "\<forall>d < aabb_rank (ps_aabb sample). axis_fits (aabb_dims (ps_aabb sample) ! d) (ps_axes sample ! d)"
    using ok rank by (simp add: sample_ok_def)
  have "grid_count grid = length (sample_cells meta sample)"
    using conjunct2 [OF selection_grid_cells [OF grid fits]] rank unfolding sample_cells_def by (simp add: clip_at_def)
  moreover have "grid_count grid < 2 ^ 32" using grid_init_cells(1) [OF grid] lim by linarith
  ultimately show "n = length (sample_cells meta sample)" using n by simp
qed

lemma inner_per_shard_per_ok:
  assumes "zarr_metadata_inner_per_shard meta = Some (per, t)" and "meta_ok meta"
    and "selection_grid_init bounds axes (zm_shard_shape meta) cb ce m = Inr grid" and "aabb_rank bounds = zm_rank meta"
  shows "per_ok meta per"
proof -
  have l: "zm_rank meta \<le> length (zm_inner_chunk_shape meta)" "zm_rank meta \<le> length (zm_shard_shape meta)" using assms(2) by (simp_all add: meta_ok_def)
  note z = zarr_metadata_inner_per_shard_ok [OF assms(1) l]
  have "0 < per ! d" if "d < zm_rank meta" for d
    using z(4) [OF that] grid_init_cells(2) [OF assms(3), of d] assms(4) that by (metis mult_0 neq0_conv)
  then show ?thesis using z(3-5) assms(2) by (simp add: per_ok_def meta_ok_def)
qed

end
