(* ===== verification/Plan_Cover.thy ===== *)
theory Plan_Cover
  imports Plan_Builder_Correct
begin

text \<open>
  What a plan made by prepared\_plan\_build (src/src/planner/plan\_builder.c) holds: the storage counted by the first loop over
  the samples is enough for all that the second loop writes, the build always returns, every chunk of an array is planned
  once, the uses of a sample are the chunks its selection touches, and the links of a chunk run through its uses.
\<close>

section \<open>One sample\<close>

definition sample_order :: "zarr_metadata \<Rightarrow> nat list \<Rightarrow> planner_sample \<Rightarrow> nat list list" where
  "sample_order meta per sample = concat (map (shard_cells meta per sample) (sample_shards meta sample))"

lemma sample_order_mset: "per_ok meta per \<Longrightarrow> mset (sample_order meta per sample) = mset (sample_cells meta sample)"
  unfolding sample_order_def by (rule shards_partition) (simp add: per_ok_def)

text \<open>The bytes the first loop counts for the paths of a sample.\<close>

definition path_need :: "zarr_metadata \<Rightarrow> planner_sample \<Rightarrow> nat" where
  "path_need meta sample =
     (let len = length (the (ps_uri sample)) + 1 in len + (len + 3 + zm_rank meta * 21) * ps_n_shards sample)"

definition with_array :: "plan_array list \<Rightarrow> string \<Rightarrow> zarr_metadata \<Rightarrow> plan_array list" where
  "with_array arrays uri meta = (if find_array arrays uri = length arrays then arrays @ [\<lparr>pa_uri = uri, pa_metadata = meta\<rparr>] else arrays)"

lemma with_array_result:
  assumes "distinct (map pa_uri arrays)"
  shows "find_array arrays uri < length (with_array arrays uri meta)"
    and "pa_uri (with_array arrays uri meta ! find_array arrays uri) = uri"
    and "distinct (map pa_uri (with_array arrays uri meta))"
    and "length (with_array arrays uri meta) \<le> length arrays + 1"
    and "\<exists>more. with_array arrays uri meta = arrays @ more"
proof -
  have le: "find_array arrays uri \<le> length arrays" by (simp add: find_array_def length_takeWhile_le)
  show "find_array arrays uri < length (with_array arrays uri meta)" using le by (simp add: with_array_def)
  show "length (with_array arrays uri meta) \<le> length arrays + 1" "\<exists>more. with_array arrays uri meta = arrays @ more"
    by (simp_all add: with_array_def)
  have "pa_uri (arrays ! find_array arrays uri) = uri" if "find_array arrays uri \<noteq> length arrays"
    using that nth_length_takeWhile [of "\<lambda>a. pa_uri a \<noteq> uri" arrays] le by (simp add: find_array_def)
  then show "pa_uri (with_array arrays uri meta ! find_array arrays uri) = uri" by (auto simp: with_array_def)
  have "uri \<notin> pa_uri ` set arrays" if "find_array arrays uri = length arrays"
  proof -
    have "takeWhile (\<lambda>a. pa_uri a \<noteq> uri) arrays = arrays"
      using that takeWhile_eq_take [of "\<lambda>a. pa_uri a \<noteq> uri" arrays] by (metis find_array_def order_refl take_all)
    then show ?thesis by (auto simp: takeWhile_eq_all_conv)
  qed
  then show "distinct (map pa_uri (with_array arrays uri meta))" using assms by (simp add: with_array_def)
qed

text \<open>The second loop on one sample: it returns, and when it succeeds it has recorded one use for each chunk of the sample.\<close>

lemma add_sample_result:
  assumes ok: "build_ok capacity st" and sb: "sb_room (pb_path st)" and sample: "sample_ok meta sample" "ps_uri sample = Some uri"
    and meta: "array_metadata arrays (ps_h_meta sample) = Inr meta" and geom: "sample_geometry sample meta out_spec limits = Inr (n, bytes)"
    and lim: "0 < pl_max_chunks limits" "pl_max_chunks limits < 2 ^ 32"
    and room: "length (pb_uses st) + length (sample_cells meta sample) \<le> capacity"
    and r: "r = add_sample alloc_ok arrays shards out_spec limits capacity (i, sample) st"
  shows "r \<noteq> Inl None \<and> (\<forall>st'. r = Inr st' \<longrightarrow>
      (\<exists>per. per_ok meta per \<and> build_ok capacity st' \<and> sb_room (pb_path st') \<and>
         pb_arrays st' = with_array (pb_arrays st) uri meta \<and>
         pb_regions st' = pb_regions st @ [sample_region meta (find_array (pb_arrays st) uri) i sample] \<and>
         use_keys st' = use_keys st @ map (\<lambda>c. (i, find_array (pb_arrays st) uri, c)) (sample_order meta per sample) \<and>
         pb_paths st' \<le> pb_paths st + path_need meta sample))"
proof -
  let ?a = "find_array (pb_arrays st) uri"
  note g = sample_geometry_result [OF geom sample(1) lim]
  have fits: "\<forall>d < aabb_rank (ps_aabb sample). axis_fits (aabb_dims (ps_aabb sample) ! d) (ps_axes sample ! d)" and mok: "meta_ok meta"
    using sample(1) g(1) by (simp_all add: sample_ok_def)
  define st1 where "st1 = (if ?a = length (pb_arrays st)
                    then st \<lparr>pb_arrays := pb_arrays st @ [\<lparr>pa_uri = uri, pa_metadata = meta\<rparr>], pb_paths := pb_paths st + length uri + 1\<rparr>
                    else st)"
  define st2 where "st2 = st1 \<lparr>pb_regions := pb_regions st1 @ [sample_region meta ?a i sample]\<rparr>"
  have st2: "pb_chunks st2 = pb_chunks st" "pb_uses st2 = pb_uses st" "pb_table st2 = pb_table st" "pb_path st2 = pb_path st"
    "pb_arrays st2 = with_array (pb_arrays st) uri meta" "pb_regions st2 = pb_regions st @ [sample_region meta ?a i sample]"
    "pb_paths st2 \<le> pb_paths st + (length uri + 1)"
    by (simp_all add: st2_def st1_def with_array_def)
  have body: "r = (case zarr_metadata_inner_per_shard meta of None \<Rightarrow> Inl (Some DAMACY_DECODE)
    | Some (per_shard, n_per_shard) \<Rightarrow>
        (case selection_grid_init (ps_aabb sample) (ps_axes sample) (zm_shard_shape meta) None None (pl_max_shards_per_sample limits) of
           Inl status \<Rightarrow> Inl (Some status)
         | Inr iterator \<Rightarrow>
             (case loop_res (add_shard alloc_ok shards limits capacity i ?a sample uri meta per_shard bytes) (grid_coordinates iterator) (0, st2) of
                Inl e \<Rightarrow> Inl e
              | Inr (shard_index, st) \<Rightarrow> if shard_index \<noteq> ps_n_shards sample then Inl (Some DAMACY_INVAL) else Inr st)))"
    unfolding r add_sample_def split_conv meta sum.case sample(2) option.sel Let_def st1_def [symmetric] st2_def [symmetric] geom prod.case
    by (rule refl)
  show ?thesis
  proof (cases "zarr_metadata_inner_per_shard meta")
    case None
    then show ?thesis using body by simp
  next
    case (Some pt)
    then obtain per t where per: "zarr_metadata_inner_per_shard meta = Some (per, t)" by (cases pt) auto
    show ?thesis
    proof (cases "selection_grid_init (ps_aabb sample) (ps_axes sample) (zm_shard_shape meta) None None (pl_max_shards_per_sample limits)")
      case (Inl status)
      then show ?thesis using body per by simp
    next
      case (Inr grid)
      have cells: "grid_coordinates grid = sample_shards meta sample"
        using grid_coordinates_cells [OF Inr fits] g(1) by (simp add: sample_shards_def clip_at_def)
      have pok: "per_ok meta per" by (rule inner_per_shard_per_ok [OF per mok Inr g(1)])
      define R where "R = loop_res (add_shard alloc_ok shards limits capacity i ?a sample uri meta per bytes) (sample_shards meta sample) (0, st2)"
      have rR: "r = (case R of Inl e \<Rightarrow> Inl e | Inr (shard_index, st) \<Rightarrow> if shard_index \<noteq> ps_n_shards sample then Inl (Some DAMACY_INVAL) else Inr st)"
        using body per Inr by (simp add: R_def cells)
      have b: "build_ok capacity st2" "use_keys st2 = use_keys st" using build_ok_same [OF ok, of st2] st2 by simp_all
      have "length (sample_order meta per sample) = length (sample_cells meta sample)"
        using sample_order_mset [OF pok, of sample] by (metis size_mset)
      then have room2: "length (pb_uses st2) + length (concat (map (shard_cells meta per sample) (sample_shards meta sample))) \<le> capacity"
        using room st2(2) by (simp add: sample_order_def)
      note A = add_shards_result [OF b(1) _ pok sample g(1) subset_refl room2 R_def]
      have A: "R \<noteq> Inl None" "R = Inr (k', st') \<Longrightarrow> k' = length (sample_shards meta sample) \<and> build_ok capacity st' \<and>
        sb_room (pb_path st') \<and> same_frame st2 st' \<and> use_keys st' = use_keys st2 @ map (\<lambda>c. (i, ?a, c)) (sample_order meta per sample) \<and>
        pb_paths st' \<le> pb_paths st2 + length (sample_shards meta sample) * (length uri + 3 + 21 * zm_rank meta)" for k' st'
        using A sb st2(4) by (simp_all add: sample_order_def)
      have need: "length uri + 1 + ps_n_shards sample * (length uri + 3 + 21 * zm_rank meta) \<le> path_need meta sample"
        unfolding path_need_def sample(2) Let_def by (simp add: algebra_simps)
      show ?thesis
      proof (cases R)
        case (Inl e)
        then show ?thesis using A(1) rR by auto
      next
        case (Inr x)
        then obtain k' st' where x: "R = Inr (k', st')" by (cases x) auto
        note B = A(2) [OF x]
        have "pb_paths st' \<le> pb_paths st + path_need meta sample" if "k' = ps_n_shards sample"
          using B st2(7) need that by simp
        then show ?thesis using rR x B b(2) st2(5,6) pok by (auto simp: same_frame_def split: if_splits)
      qed
    qed
  qed
qed

section \<open>Sizing is exact\<close>

definition index_need :: "zarr_metadata \<Rightarrow> planner_sample \<Rightarrow> nat" where
  "index_need meta sample = (\<Sum>d \<leftarrow> [0 ..< zm_rank meta]. qa_count (ps_axes sample ! d) * sizeof_query_index)"

definition limits_ok :: "damacy_plan_limits \<Rightarrow> bool" where
  "limits_ok limits \<longleftrightarrow> pl_max_chunks limits < 2 ^ 32 \<and> pl_max_shards_per_sample limits < 2 ^ 32 \<and> pl_max_plan_bytes limits < 2 ^ 62"

text \<open>What \<open>query_copy\<close> and the metadata parser guarantee of the samples, and that their uris are strings in memory.\<close>

definition samples_ok :: "zarr_metadata query_cache \<Rightarrow> planner_sample list \<Rightarrow> bool" where
  "samples_ok arrays samples \<longleftrightarrow> length samples < 2 ^ 32 \<and>
     (\<forall>sample \<in> set samples. (\<forall>uri. ps_uri sample = Some uri \<longrightarrow> length uri < 2 ^ 62) \<and>
        (\<forall>meta. array_metadata arrays (ps_h_meta sample) = Inr meta \<longrightarrow> sample_ok meta sample))"

definition size_le :: "damacy_plan_limits \<Rightarrow> plan_size \<Rightarrow> bool" where
  "size_le limits sz \<longleftrightarrow> sz_capacity sz \<le> pl_max_chunks limits \<and> sz_path_bytes sz \<le> pl_max_plan_bytes limits \<and>
     sz_index_bytes sz \<le> pl_max_plan_bytes limits"

text \<open>The sample has passed the checks of the first loop.\<close>

definition sample_sized :: "zarr_metadata query_cache \<Rightarrow> damacy_batch_spec \<Rightarrow> damacy_plan_limits \<Rightarrow> planner_sample \<Rightarrow> zarr_metadata \<Rightarrow> bool" where
  "sample_sized arrays out_spec limits sample meta \<longleftrightarrow>
     (\<exists>uri n bytes. ps_uri sample = Some uri \<and> array_metadata arrays (ps_h_meta sample) = Inr meta \<and>
        sample_geometry sample meta out_spec limits = Inr (n, bytes))"

lemma size_index_loop:
  assumes "loop_res (size_index sample limits) ds b = Inr b'" and "limits_ok limits" and "b \<le> pl_max_plan_bytes limits"
    and "\<forall>d \<in> set ds. qa_count (ps_axes sample ! d) < 2 ^ 32"
  shows "b' = b + (\<Sum>d \<leftarrow> ds. qa_count (ps_axes sample ! d) * sizeof_query_index) \<and> b' \<le> pl_max_plan_bytes limits"
  using assms
proof (induction ds arbitrary: b)
  case (Cons d ds)
  let ?n = "qa_count (ps_axes sample ! d) * sizeof_query_index"
  have "qa_count (ps_axes sample ! d) < 2 ^ 32" using Cons.prems(4) by simp
  then have n: "u64_mul (qa_count (ps_axes sample ! d)) sizeof_query_index = ?n" by (intro u64_mul_exact) (simp add: sizeof_query_index_def)
  from Cons.prems(1) have g: "?n \<le> pl_max_plan_bytes limits" "b \<le> pl_max_plan_bytes limits - ?n"
    and l: "loop_res (size_index sample limits) ds (u64_add b ?n) = Inr b'"
    by (auto simp: size_index_def [of sample limits d b] n Let_def split: if_splits)
  have le: "b + ?n \<le> pl_max_plan_bytes limits" using g by linarith
  then have "u64_add b ?n = b + ?n" using Cons.prems(2) by (intro u64_add_exact) (simp add: limits_ok_def)
  with Cons.IH [of "b + ?n"] l le Cons.prems(2,4) show ?case by simp
qed simp

lemma path_need_exact:
  assumes "len < 2 ^ 62 + 1" and "rank < 256" and "m < 2 ^ 62" and "n < 2 ^ 32"
    and "\<not> (u64_add (u64_add len 3) (u64_mul rank 21) > m \<or> n > m div u64_add (u64_add len 3) (u64_mul rank 21))"
  shows "u64_add len (u64_mul (u64_add (u64_add len 3) (u64_mul rank 21)) n) = len + (len + 3 + rank * 21) * n"
proof -
  have p: "u64_add (u64_add len 3) (u64_mul rank 21) = len + 3 + rank * 21"
    using assms(1,2) by (simp add: u_exact)
  have "n * (len + 3 + rank * 21) \<le> m" using assms(5) unfolding p
    by (metis add_is_0 less_eq_div_iff_mult_less_eq linorder_not_le neq0_conv zero_neq_numeral)
  then have q: "(len + 3 + rank * 21) * n \<le> m" by (simp add: mult.commute)
  then have "u64_mul (len + 3 + rank * 21) n = (len + 3 + rank * 21) * n" using assms(3) by (intro u64_mul_exact) simp
  moreover have "len + (len + 3 + rank * 21) * n < 2 ^ 64" using q assms(1,3) by simp
  ultimately show ?thesis unfolding p by (simp only: u64_add_exact)
qed

lemma size_sample_result:
  assumes s: "size_sample arrays out_spec limits sample sz = Inr sz'" and lim: "limits_ok limits" "0 < pl_max_chunks limits"
    and rank: "spec_sample_rank out_spec \<le> DAMACY_MAX_RANK"
    and ok: "samples_ok arrays [sample]" and le: "size_le limits sz"
  shows "size_le limits sz' \<and> (\<exists>meta. sample_sized arrays out_spec limits sample meta \<and>
     sz_capacity sz' = sz_capacity sz + length (sample_cells meta sample) \<and> sz_path_bytes sz' = sz_path_bytes sz + path_need meta sample \<and>
     sz_index_bytes sz' = sz_index_bytes sz + index_need meta sample)"
proof -
  from s obtain uri meta n bytes ib where u: "ps_uri sample = Some uri" "\<not> ps_n_shards sample > pl_max_shards_per_sample limits"
    "array_metadata arrays (ps_h_meta sample) = Inr meta" "sample_geometry sample meta out_spec limits = Inr (n, bytes)"
    "loop_res (size_index sample limits) [0 ..< zm_rank meta] (sz_index_bytes sz) = Inr ib"
    by (auto simp: size_sample_def split: option.splits if_splits sum.splits)
  have sok: "sample_ok meta sample" and len: "length uri < 2 ^ 62" using ok u by (auto simp: samples_ok_def)
  have m32: "pl_max_chunks limits < 2 ^ 32" using lim by (simp add: limits_ok_def)
  note g = sample_geometry_result [OF u(4) sok lim(2) m32]
  have r256: "zm_rank meta < 256" using g(2) rank by (simp add: DAMACY_MAX_RANK_def)
  have "\<forall>d \<in> set [0 ..< zm_rank meta]. qa_count (ps_axes sample ! d) < 2 ^ 32"
    using sok by (auto simp: sample_ok_def axis_fits_def axis_ok_def)
  from size_index_loop [OF u(5) lim(1) _ this] le have ib: "ib = sz_index_bytes sz + index_need meta sample" "ib \<le> pl_max_plan_bytes limits"
    by (simp_all add: size_le_def index_need_def)
  have n: "n = length (sample_cells meta sample)" by (rule g(3))
  define per where "per = u64_add (u64_add (length uri + 1) 3) (u64_mul (zm_rank meta) 21)"
  define add where "add = u64_add (length uri + 1) (u64_mul per (ps_n_shards sample))"
  from s u have v: "\<not> u64_add (sz_capacity sz) n > pl_max_chunks limits"
    "\<not> (per > pl_max_plan_bytes limits \<or> ps_n_shards sample > pl_max_plan_bytes limits div per)"
    "\<not> (add > pl_max_plan_bytes limits \<or> sz_path_bytes sz > pl_max_plan_bytes limits - add)"
    "sz' = \<lparr>sz_capacity = u64_add (sz_capacity sz) n, sz_path_bytes = u64_add (sz_path_bytes sz) add, sz_index_bytes = ib\<rparr>"
    by (simp_all add: size_sample_def Let_def per_def add_def split: if_splits)
  have "n < 2 ^ 32" using u(4) by (auto simp: sample_geometry_def split: if_splits sum.splits)
  then have cap: "u64_add (sz_capacity sz) n = sz_capacity sz + n" using le m32 by (intro u64_add_exact) (simp add: size_le_def)
  have "add = path_need meta sample" unfolding add_def per_def path_need_def Let_def u(1) option.sel
    by (rule path_need_exact [of _ _ "pl_max_plan_bytes limits"]) (use len r256 lim(1) u(2) v(2) in \<open>auto simp: limits_ok_def per_def\<close>)
  moreover have "sz_path_bytes sz + add \<le> pl_max_plan_bytes limits" using v(3) by linarith
  moreover from this have "u64_add (sz_path_bytes sz) add = sz_path_bytes sz + add"
    using lim(1) by (intro u64_add_exact) (simp add: limits_ok_def)
  ultimately have "size_le limits sz'" "sz_capacity sz' = sz_capacity sz + length (sample_cells meta sample)"
    "sz_path_bytes sz' = sz_path_bytes sz + path_need meta sample" "sz_index_bytes sz' = sz_index_bytes sz + index_need meta sample"
    using v(1,4) cap n ib by (simp_all add: size_le_def)
  then show ?thesis using u by (auto simp: sample_sized_def)
qed

lemma samples_okI: "samples_ok arrays samples \<Longrightarrow> sample \<in> set samples \<Longrightarrow> samples_ok arrays [sample]"
  by (simp add: samples_ok_def)

definition sized_by :: "zarr_metadata query_cache \<Rightarrow> (zarr_metadata \<Rightarrow> planner_sample \<Rightarrow> nat) \<Rightarrow> planner_sample \<Rightarrow> nat" where
  "sized_by arrays f sample = (case array_metadata arrays (ps_h_meta sample) of Inl status \<Rightarrow> 0 | Inr meta \<Rightarrow> f meta sample)"

abbreviation n_cells :: "zarr_metadata \<Rightarrow> planner_sample \<Rightarrow> nat" where
  "n_cells meta sample \<equiv> length (sample_cells meta sample)"

lemma size_samples_result:
  assumes "loop_res (size_sample arrays out_spec limits) samples sz = Inr sz'" and lim: "limits_ok limits" "0 < pl_max_chunks limits"
    and rank: "spec_sample_rank out_spec \<le> DAMACY_MAX_RANK" and "\<forall>sample \<in> set samples. samples_ok arrays [sample]" and "size_le limits sz"
  shows "size_le limits sz' \<and> (\<forall>sample \<in> set samples. \<exists>meta. sample_sized arrays out_spec limits sample meta) \<and>
    sz_capacity sz' = sz_capacity sz + (\<Sum>s \<leftarrow> samples. sized_by arrays n_cells s) \<and>
    sz_path_bytes sz' = sz_path_bytes sz + (\<Sum>s \<leftarrow> samples. sized_by arrays path_need s) \<and>
    sz_index_bytes sz' = sz_index_bytes sz + (\<Sum>s \<leftarrow> samples. sized_by arrays index_need s)"
  using assms(1,5,6)
proof (induction samples arbitrary: sz)
  case (Cons s samples)
  obtain sz1 where 1: "size_sample arrays out_spec limits s sz = Inr sz1" "loop_res (size_sample arrays out_spec limits) samples sz1 = Inr sz'"
    using Cons.prems(1) by (auto split: sum.splits)
  have "samples_ok arrays [s]" using Cons.prems(2) by simp
  from size_sample_result [OF 1(1) lim rank this Cons.prems(3)] obtain meta where m: "size_le limits sz1" "sample_sized arrays out_spec limits s meta"
    "sz_capacity sz1 = sz_capacity sz + n_cells meta s" "sz_path_bytes sz1 = sz_path_bytes sz + path_need meta s"
    "sz_index_bytes sz1 = sz_index_bytes sz + index_need meta s" by blast
  have "sized_by arrays f s = f meta s" for f using m(2) by (auto simp: sized_by_def sample_sized_def)
  with m Cons.IH [OF 1(2) _ m(1)] Cons.prems(2) show ?case by auto
qed simp

text \<open>The table has a power of two many buckets, at least twice the number of uses.\<close>

lemma bucket_loop_result:
  assumes "capacity < 2 ^ 32" and "e + fuel = 64" and "e \<le> 33"
  shows "\<exists>m \<le> 33. bucket_loop fuel capacity (2 ^ e) = Some (2 ^ m) \<and> 2 * capacity \<le> 2 ^ m"
  using assms
proof (induction fuel arbitrary: e)
  case (Suc fuel)
  have c: "u64_mul 2 capacity = 2 * capacity" using assms(1) by (intro u64_mul_exact) simp
  show ?case
  proof (cases "2 ^ e < 2 * capacity")
    case True
    then have "(2 :: nat) ^ e < 2 ^ 33" using assms(1) by simp
    then have e: "e < 33" by (rule power_less_imp_less_exp [rotated]) simp
    then have "(2 :: nat) ^ Suc e \<le> 2 ^ 33" by (intro power_increasing) simp_all
    then have "u64_mul (2 ^ e) 2 = 2 ^ Suc e" by (subst u64_mul_exact) simp_all
    then show ?thesis using Suc.IH [of "Suc e"] Suc.prems e True c by simp
  qed (use Suc.prems c in auto)
qed simp

lemma storage_size_exact:
  assumes "n < 2 ^ 32" and "sz_capacity sz < 2 ^ 32" and "buckets \<le> 2 ^ 33" and "sz_path_bytes sz < 2 ^ 62"
  shows "storage_size n sz buckets =
     n * (sizeof_plan_array + sizeof_plan_region) + sz_capacity sz * (sizeof_plan_chunk + sizeof_plan_use) + buckets * 4 + sz_path_bytes sz"
  using assms by (simp add: storage_size_def u_exact sizeof_plan_array_def sizeof_plan_region_def sizeof_plan_chunk_def sizeof_plan_use_def)

section \<open>All samples\<close>

text \<open>The plan of one sample: its region, and one use for every chunk its selection touches.\<close>

definition sample_planned :: "zarr_metadata query_cache \<Rightarrow> build_state \<Rightarrow> nat \<Rightarrow> planner_sample \<Rightarrow> bool" where
  "sample_planned arrays st i sample \<longleftrightarrow>
     (\<exists>meta a. array_metadata arrays (ps_h_meta sample) = Inr meta \<and> a < length (pb_arrays st) \<and>
        ps_uri sample = Some (pa_uri (pb_arrays st ! a)) \<and> pb_regions st ! i = sample_region meta a i sample \<and>
        mset (map snd (filter (\<lambda>k. fst k = i) (use_keys st))) = mset (map (Pair a) (sample_cells meta sample)))"

definition plan_inv :: "zarr_metadata query_cache \<Rightarrow> nat \<Rightarrow> build_state \<Rightarrow> planner_sample list \<Rightarrow> bool" where
  "plan_inv arrays capacity st seen \<longleftrightarrow>
     build_ok capacity st \<and> sb_room (pb_path st) \<and> distinct (map pa_uri (pb_arrays st)) \<and> length (pb_arrays st) \<le> length seen \<and>
     length (pb_regions st) = length seen \<and> pb_paths st \<le> (\<Sum>s \<leftarrow> seen. sized_by arrays path_need s) \<and>
     length (pb_uses st) = (\<Sum>s \<leftarrow> seen. sized_by arrays n_cells s) \<and> (\<forall>k \<in> set (use_keys st). fst k < length seen) \<and>
     (\<forall>i < length seen. sample_planned arrays st i (seen ! i))"

lemma plan_inv_step:
  assumes inv: "plan_inv arrays capacity st seen" and sized: "sample_sized arrays out_spec limits sample meta" and ok: "samples_ok arrays [sample]"
    and lim: "0 < pl_max_chunks limits" "pl_max_chunks limits < 2 ^ 32"
    and room: "(\<Sum>s \<leftarrow> seen @ [sample]. sized_by arrays n_cells s) \<le> capacity"
    and r: "r = add_sample alloc_ok arrays shards out_spec limits capacity (length seen, sample) st"
  shows "r \<noteq> Inl None \<and> (\<forall>st'. r = Inr st' \<longrightarrow> plan_inv arrays capacity st' (seen @ [sample]))"
proof -
  let ?i = "length seen"
  obtain uri n bytes where u: "ps_uri sample = Some uri" "array_metadata arrays (ps_h_meta sample) = Inr meta"
    "sample_geometry sample meta out_spec limits = Inr (n, bytes)" using sized by (auto simp: sample_sized_def)
  let ?a = "find_array (pb_arrays st) uri"
  have sok: "sample_ok meta sample" using ok u by (simp add: samples_ok_def)
  have I: "build_ok capacity st" "sb_room (pb_path st)" "distinct (map pa_uri (pb_arrays st))" "length (pb_arrays st) \<le> ?i"
    "length (pb_regions st) = ?i" "pb_paths st \<le> (\<Sum>s \<leftarrow> seen. sized_by arrays path_need s)"
    "length (pb_uses st) = (\<Sum>s \<leftarrow> seen. sized_by arrays n_cells s)" "\<forall>k \<in> set (use_keys st). fst k < ?i"
    "\<forall>i < ?i. sample_planned arrays st i (seen ! i)" using inv by (simp_all add: plan_inv_def)
  have sb: "sized_by arrays f sample = f meta sample" for f using u by (simp add: sized_by_def)
  have room': "length (pb_uses st) + n_cells meta sample \<le> capacity" using room I(7) sb by simp
  note A = add_sample_result [OF I(1,2) sok u lim room' r]
  note W = with_array_result [OF I(3), of uri meta]
  have "plan_inv arrays capacity st' (seen @ [sample])" if r': "r = Inr st'" for st'
  proof -
    obtain per where B: "per_ok meta per" "build_ok capacity st'" "sb_room (pb_path st')" "pb_arrays st' = with_array (pb_arrays st) uri meta"
      "pb_regions st' = pb_regions st @ [sample_region meta ?a ?i sample]"
      "use_keys st' = use_keys st @ map (\<lambda>c. (?i, ?a, c)) (sample_order meta per sample)"
      "pb_paths st' \<le> pb_paths st + path_need meta sample" using A r' by blast
    have ms: "mset (sample_order meta per sample) = mset (sample_cells meta sample)" by (rule sample_order_mset [OF B(1)])
    have "length (pb_uses st') = length (pb_uses st) + n_cells meta sample"
      using arg_cong [OF B(6), of length] arg_cong [OF ms, of size] by simp
    moreover have "sample_planned arrays st' i (seen ! i)" if "i < ?i" for i
    proof -
      have "filter (\<lambda>k. fst k = i) (map (\<lambda>c. (?i, ?a, c)) (sample_order meta per sample)) = []" using that by (simp add: filter_empty_conv)
      then have k: "filter (\<lambda>k. fst k = i) (use_keys st') = filter (\<lambda>k. fst k = i) (use_keys st)" by (simp add: B(6))
      obtain more where m: "pb_arrays st' = pb_arrays st @ more" using W(5) B(4) by auto
      show ?thesis using I(5,9) that unfolding sample_planned_def k m B(5) by (fastforce simp: nth_append)
    qed
    moreover have "sample_planned arrays st' ?i sample"
    proof -
      have "filter (\<lambda>k. fst k = ?i) (use_keys st) = []" using I(8) by (auto simp: filter_empty_conv)
      then have "map snd (filter (\<lambda>k. fst k = ?i) (use_keys st')) = map (Pair ?a) (sample_order meta per sample)"
        by (simp add: B(6) filter_map comp_def)
      then have "mset (map snd (filter (\<lambda>k. fst k = ?i) (use_keys st'))) = mset (map (Pair ?a) (sample_cells meta sample))"
        using ms by simp
      then show ?thesis unfolding sample_planned_def B(4) B(5) using u W(1,2) I(5) by (intro exI [of _ meta] exI [of _ ?a]) (simp add: nth_append)
    qed
    ultimately show ?thesis using B W(3,4) I(4-8) sb unfolding plan_inv_def
      by (auto simp: less_Suc_eq nth_append)
  qed
  then show ?thesis using A by blast
qed

lemma add_samples_result:
  assumes "plan_inv arrays capacity st seen" and "\<forall>s \<in> set samples. (\<exists>meta. sample_sized arrays out_spec limits s meta) \<and> samples_ok arrays [s]"
    and lim: "0 < pl_max_chunks limits" "pl_max_chunks limits < 2 ^ 32"
    and "(\<Sum>s \<leftarrow> seen @ samples. sized_by arrays n_cells s) \<le> capacity"
    and "r = loop_res (add_sample alloc_ok arrays shards out_spec limits capacity) (enumerate (length seen) samples) st"
  shows "r \<noteq> Inl None \<and> (\<forall>st'. r = Inr st' \<longrightarrow> plan_inv arrays capacity st' (seen @ samples))"
  using assms(1,2,5,6)
proof (induction samples arbitrary: seen st)
  case (Cons s samples)
  let ?f = "add_sample alloc_ok arrays shards out_spec limits capacity"
  from Cons.prems(2) obtain meta where m: "sample_sized arrays out_spec limits s meta" "samples_ok arrays [s]" by auto
  have room: "(\<Sum>s \<leftarrow> seen @ [s]. sized_by arrays n_cells s) \<le> capacity" using Cons.prems(3) by simp
  note step = plan_inv_step [OF Cons.prems(1) m lim room refl, of alloc_ok shards]
  show ?case
  proof (cases "?f (length seen, s) st")
    case (Inl e)
    then show ?thesis using step Cons.prems(4) by auto
  next
    case (Inr st1)
    then show ?thesis using step Cons.IH [of st1 "seen @ [s]"] Cons.prems(2,3,4) by simp
  qed
qed simp

lemma build_start_inv:
  assumes "2 * capacity \<le> 2 ^ m"
  shows "plan_inv arrays capacity (build_start (2 ^ m)) []"
  using assms by (auto simp: plan_inv_def build_start_def build_ok_def table_ok_def use_keys_def sb_room_def)

lemma storage_suffices:
  assumes size: "loop_res (size_sample arrays out_spec limits) samples \<lparr>sz_capacity = 0, sz_path_bytes = 0, sz_index_bytes = 0\<rparr> = Inr sz"
    and buckets: "bucket_loop 64 (sz_capacity sz) 1 = b"
    and ok: "samples_ok arrays samples" "limits_ok limits" "0 < pl_max_chunks limits" "spec_sample_rank out_spec \<le> DAMACY_MAX_RANK"
  shows "sz_capacity sz = (\<Sum>s \<leftarrow> samples. sized_by arrays n_cells s)" "sz_path_bytes sz = (\<Sum>s \<leftarrow> samples. sized_by arrays path_need s)"
    "sz_index_bytes sz = (\<Sum>s \<leftarrow> samples. sized_by arrays index_need s)"
    "\<exists>m \<le> 33. b = Some (2 ^ m) \<and> 2 * sz_capacity sz \<le> 2 ^ m" "size_le limits sz" "sz_capacity sz < 2 ^ 32"
    "r = loop_res (add_sample alloc_ok arrays shards out_spec limits (sz_capacity sz)) (enumerate 0 samples) (build_start (the b)) \<Longrightarrow>
       r \<noteq> Inl None \<and> (\<forall>st'. r = Inr st' \<longrightarrow> plan_inv arrays (sz_capacity sz) st' samples)"
proof -
  have each: "\<forall>s \<in> set samples. samples_ok arrays [s]" using samples_okI [OF ok(1)] by blast
  have le0: "size_le limits \<lparr>sz_capacity = 0, sz_path_bytes = 0, sz_index_bytes = 0\<rparr>" by (simp add: size_le_def)
  note S = size_samples_result [OF size ok(2,3,4) each le0]
  then show "sz_capacity sz = (\<Sum>s \<leftarrow> samples. sized_by arrays n_cells s)" "sz_path_bytes sz = (\<Sum>s \<leftarrow> samples. sized_by arrays path_need s)"
    "sz_index_bytes sz = (\<Sum>s \<leftarrow> samples. sized_by arrays index_need s)" "size_le limits sz" by simp_all
  have m32: "pl_max_chunks limits < 2 ^ 32" using ok(2) by (simp add: limits_ok_def)
  then show c32: "sz_capacity sz < 2 ^ 32" using S unfolding size_le_def by linarith
  from bucket_loop_result [OF c32, of 0 64] show m: "\<exists>m \<le> 33. b = Some (2 ^ m) \<and> 2 * sz_capacity sz \<le> 2 ^ m" using buckets by simp
  assume r: "r = loop_res (add_sample alloc_ok arrays shards out_spec limits (sz_capacity sz)) (enumerate 0 samples) (build_start (the b))"
  from m obtain m where m: "b = Some (2 ^ m)" "2 * sz_capacity sz \<le> 2 ^ m" by blast
  show "r \<noteq> Inl None \<and> (\<forall>st'. r = Inr st' \<longrightarrow> plan_inv arrays (sz_capacity sz) st' samples)"
    using add_samples_result [OF build_start_inv [OF m(2), of arrays] _ ok(3) m32, of samples out_spec r alloc_ok shards] S each r m(1) by simp
qed

lemma prepared_plan_build_result:
  assumes ok: "samples_ok arrays samples" "limits_ok limits"
    and r: "r = prepared_plan_build plan_ok storage_ok alloc_ok arrays shards samples out_spec limits"
  shows "r \<noteq> Inl None" and "r = Inr plan \<Longrightarrow> \<exists>bytes st. plan = plan_of out_spec bytes st \<and>
     plan_inv arrays (\<Sum>s \<leftarrow> samples. sized_by arrays n_cells s) st samples \<and> (\<Sum>s \<leftarrow> samples. sized_by arrays n_cells s) < 2 ^ 32 \<and>
     bytes \<le> pl_max_plan_bytes limits"
proof -
  let ?guard = "samples = [] \<or> pl_max_chunks limits = 0 \<or> pl_max_chunk_bytes limits = 0 \<or> spec_sample_rank out_spec = 0 \<or>
         spec_sample_rank out_spec > DAMACY_MAX_RANK"
  let ?sz = "loop_res (size_sample arrays out_spec limits) samples \<lparr>sz_capacity = 0, sz_path_bytes = 0, sz_index_bytes = 0\<rparr>"
  have both: "r \<noteq> Inl None \<and> (r = Inr plan \<longrightarrow> (\<exists>bytes st. plan = plan_of out_spec bytes st \<and>
     plan_inv arrays (\<Sum>s \<leftarrow> samples. sized_by arrays n_cells s) st samples \<and> (\<Sum>s \<leftarrow> samples. sized_by arrays n_cells s) < 2 ^ 32 \<and>
     bytes \<le> pl_max_plan_bytes limits))"
  proof (cases "?guard \<or> isl ?sz")
    case True
    then show ?thesis using r by (auto simp: prepared_plan_build_def isl_def)
  next
    case False
    then obtain sz where sz: "?sz = Inr sz" and g: "\<not> ?guard" by (cases ?sz) auto
    then have pos: "0 < pl_max_chunks limits" "spec_sample_rank out_spec \<le> DAMACY_MAX_RANK" by auto
    note S = storage_suffices [OF sz refl ok pos]
    from S(4) obtain m where m: "bucket_loop 64 (sz_capacity sz) 1 = Some (2 ^ m)" by blast
    define B where "B = storage_size (length samples) sz (2 ^ m)"
    define R where "R = loop_res (add_sample alloc_ok arrays shards out_spec limits (sz_capacity sz)) (enumerate 0 samples) (build_start (2 ^ m))"
    have R: "R \<noteq> Inl None \<and> (\<forall>st'. R = Inr st' \<longrightarrow> plan_inv arrays (sz_capacity sz) st' samples)"
      using S(7) [of R alloc_ok shards] m by (simp add: R_def)
    have "r = (if sz_index_bytes sz > UINT64_MAX - B \<or> B + sz_index_bytes sz > pl_max_plan_bytes limits \<or>
           sizeof_prepared_plan > pl_max_plan_bytes limits - (B + sz_index_bytes sz) then Inl (Some DAMACY_BUDGET)
         else if \<not> plan_ok \<or> \<not> storage_ok (B + sz_index_bytes sz) then Inl (Some DAMACY_OOM)
         else map_sum id (plan_of out_spec (u64_add sizeof_prepared_plan (B + sz_index_bytes sz))) R)"
      unfolding r prepared_plan_build_def if_not_P [OF g] sz sum.case m option.case Let_def B_def [symmetric] R_def [symmetric]
      using ok(2) by (auto simp: limits_ok_def)
    moreover have "u64_add sizeof_prepared_plan (B + sz_index_bytes sz) = sizeof_prepared_plan + (B + sz_index_bytes sz)"
      if "sizeof_prepared_plan \<le> pl_max_plan_bytes limits - (B + sz_index_bytes sz)" "B + sz_index_bytes sz \<le> pl_max_plan_bytes limits"
      using that ok(2) by (intro u64_add_exact, simp add: limits_ok_def, linarith)
    moreover have "sizeof_prepared_plan + (B + sz_index_bytes sz) \<le> pl_max_plan_bytes limits"
      if "sizeof_prepared_plan \<le> pl_max_plan_bytes limits - (B + sz_index_bytes sz)" "B + sz_index_bytes sz \<le> pl_max_plan_bytes limits"
      using that by linarith
    ultimately show ?thesis using R S(1,6) by (cases R) (auto simp: not_less split: if_splits)
  qed
  then show "r \<noteq> Inl None" by simp
  show "r = Inr plan \<Longrightarrow> \<exists>bytes st. plan = plan_of out_spec bytes st \<and>
     plan_inv arrays (\<Sum>s \<leftarrow> samples. sized_by arrays n_cells s) st samples \<and> (\<Sum>s \<leftarrow> samples. sized_by arrays n_cells s) < 2 ^ 32 \<and>
     bytes \<le> pl_max_plan_bytes limits" using both by simp
qed

section \<open>The links\<close>

text \<open>The uses met by following the links from a first use, as the executors do.\<close>

fun use_chain :: "nat \<Rightarrow> plan_use list \<Rightarrow> nat \<Rightarrow> nat list" where
  "use_chain 0 uses u = []"
| "use_chain (Suc fuel) uses u = (if u = UINT32_MAX then [] else u # use_chain fuel uses (pu_next (uses ! u)))"

lemma last_use_Suc: "last_use uses k (Suc n) = (if pu_chunk (uses ! n) = k then n else last_use uses k n)"
proof (cases "pu_chunk (uses ! n) = k")
  case True
  then have "Max {j. j < Suc n \<and> pu_chunk (uses ! j) = k} = n" by (intro Max_eqI) auto
  then show ?thesis using True by (auto simp: last_use_def)
next
  case False
  then have "j < Suc n \<and> pu_chunk (uses ! j) = k \<longleftrightarrow> j < n \<and> pu_chunk (uses ! j) = k" for j by (auto simp: less_Suc_eq)
  then show ?thesis using False unfolding last_use_def by presburger
qed

lemma use_chain_last:
  assumes links: "links_ok st" and len: "length (pb_uses st) < 2 ^ 32" and "n \<le> length (pb_uses st)" and "n \<le> fuel"
  shows "use_chain fuel (pb_uses st) (last_use (pb_uses st) k n) = rev (filter (\<lambda>j. pu_chunk (pb_uses st ! j) = k) [0 ..< n])"
  using assms(3,4)
proof (induction n arbitrary: fuel)
  case 0
  then show ?case by (cases fuel) (simp_all add: last_use_def)
next
  case (Suc n)
  then have n: "n < length (pb_uses st)" by simp
  then have ne: "n \<noteq> UINT32_MAX" using len by simp
  obtain f where f: "fuel = Suc f" "n \<le> f" using Suc.prems by (cases fuel) auto
  show ?case
  proof (cases "pu_chunk (pb_uses st ! n) = k")
    case True
    then have "pu_next (pb_uses st ! n) = last_use (pb_uses st) k n" using links n by (auto simp: links_ok_def)
    then show ?thesis using True Suc.IH [of f] f n ne by (simp add: last_use_Suc)
  next
    case False
    then show ?thesis using Suc.IH [of fuel] Suc.prems n by (simp add: last_use_Suc)
  qed
qed

section \<open>Properties of a built plan\<close>

text \<open>C3. A plan that is built covers its batch exactly: no chunk of an array appears twice, there is one region per sample, every
  use refers to a chunk and a region of the plan, and for every sample the uses of its region are exactly the chunks of its
  array that hold a selected element, each once.\<close>

theorem prepared_plan_build_covers:
  assumes "prepared_plan_build plan_ok storage_ok alloc_ok arrays shards samples out_spec limits = Inr plan"
    and "samples_ok arrays samples" and "limits_ok limits"
  shows "distinct (map (\<lambda>c. (pc_array c, pc_coordinate c)) (pp_chunks plan)) \<and> length (pp_regions plan) = length samples \<and>
    (\<forall>u \<in> set (pp_uses plan). pu_chunk u < length (pp_chunks plan) \<and> pu_region u < length samples) \<and>
    (\<forall>i < length samples. \<exists>meta a. array_metadata arrays (ps_h_meta (samples ! i)) = Inr meta \<and>
       a < length (pp_arrays plan) \<and> ps_uri (samples ! i) = Some (pa_uri (pp_arrays plan ! a)) \<and>
       pp_regions plan ! i = sample_region meta a i (samples ! i) \<and>
       mset (map (\<lambda>u. (pc_array (pp_chunks plan ! pu_chunk u), pc_coordinate (pp_chunks plan ! pu_chunk u)))
          (filter (\<lambda>u. pu_region u = i) (pp_uses plan))) =
       mset (map (Pair a) (sample_cells meta (samples ! i))))"
proof -
  from prepared_plan_build_result(2) [OF assms(2,3) assms(1) [symmetric] refl] obtain bytes st where
    plan: "plan = plan_of out_spec bytes st" and inv: "plan_inv arrays (\<Sum>s \<leftarrow> samples. sized_by arrays n_cells s) st samples" by blast
  have "\<forall>u \<in> set (pb_uses st). pu_chunk u < length (pb_chunks st)"
    using inv by (auto simp: plan_inv_def build_ok_def in_set_conv_nth)
  moreover have "\<forall>u \<in> set (pb_uses st). pu_region u < length samples" using inv by (auto simp: plan_inv_def use_keys_def)
  moreover have "map snd (filter (\<lambda>k. fst k = i) (use_keys st)) =
      map (\<lambda>u. chunk_key (pb_chunks st ! pu_chunk u)) (filter (\<lambda>u. pu_region u = i) (pb_uses st))" for i
    by (simp add: use_keys_def filter_map comp_def)
  ultimately show ?thesis using inv
    by (simp add: plan plan_of_def plan_inv_def build_ok_def table_ok_def sample_planned_def del: mset_map mset_filter)
qed


text \<open>C40. Building a plan always returns: the bucket count, the probe loops of the hash table and the growth of the path buffer
  all end.\<close>

theorem prepared_plan_build_returns:
  assumes "samples_ok arrays samples" and "limits_ok limits"
  shows "prepared_plan_build plan_ok storage_ok alloc_ok arrays shards samples out_spec limits \<noteq> Inl None"
  by (rule prepared_plan_build_result(1) [OF assms refl])

text \<open>C14. The links of a chunk run through its uses: from \<open>first_use\<close> along \<open>next\<close> to \<open>UINT32_MAX\<close> every use of the chunk is met
  once, the last recorded first.\<close>

theorem plan_links_complete:
  assumes "prepared_plan_build plan_ok storage_ok alloc_ok arrays shards samples out_spec limits = Inr plan"
    and "samples_ok arrays samples" and "limits_ok limits" and "k < length (pp_chunks plan)"
  shows "use_chain (length (pp_uses plan)) (pp_uses plan) (pc_first_use (pp_chunks plan ! k)) =
    rev (filter (\<lambda>u. pu_chunk (pp_uses plan ! u) = k) [0 ..< length (pp_uses plan)])"
proof -
  from prepared_plan_build_result(2) [OF assms(2,3) assms(1) [symmetric] refl] obtain bytes st where
    plan: "plan = plan_of out_spec bytes st" and inv: "plan_inv arrays (\<Sum>s \<leftarrow> samples. sized_by arrays n_cells s) st samples"
    and lt: "(\<Sum>s \<leftarrow> samples. sized_by arrays n_cells s) < 2 ^ 32" by blast
  have "links_ok st" "length (pb_uses st) < 2 ^ 32" using inv lt by (auto simp: plan_inv_def build_ok_links)
  from use_chain_last [OF this order_refl order_refl] this(1) assms(4) show ?thesis by (simp add: plan plan_of_def links_ok_def)
qed

section \<open>An example\<close>

text \<open>Two samples of one array of two chunks in one shard: the whole array, and its second half.\<close>

definition two_chunks :: zarr_metadata where
  "two_chunks = \<lparr>zm_dtype = dtype_u8, zm_rank = 1, zm_shape = [4], zm_inner_chunk_shape = [2], zm_shard_shape = [4], zm_sharded = True,
     zm_inner_codec = CODEC_NONE, zm_index_location_end = True, zm_fill_value = []\<rparr>"

definition example_sample :: "int \<Rightarrow> planner_sample" where
  "example_sample lo = \<lparr>ps_uri = Some ''a'', ps_aabb = \<lparr>aabb_dims = [\<lparr>iv_beg = lo, iv_end = lo + 2\<rparr>], aabb_rank = 1\<rparr>,
     ps_axes = [\<lparr>qa_indices = [], qa_count = 0\<rparr>], ps_h_meta = \<lparr>ph_slot = 0, ph_generation = 0\<rparr>,
     ps_h_shards = [\<lparr>ph_slot = 0, ph_generation = 0\<rparr>], ps_n_shards = 1\<rparr>"

definition example_samples :: "planner_sample list" where
  "example_samples = [example_sample 1, example_sample 2]"

definition example_arrays :: "zarr_metadata query_cache" where
  "example_arrays h = (PREFETCH_STATE_READY, Some two_chunks, DAMACY_OK)"

definition example_shards :: "shard_index_value query_cache" where
  "example_shards h = (PREFETCH_STATE_READY,
     Some \<lparr>si_entries = [\<lparr>se_offset = 0, se_nbytes = 2\<rparr>, \<lparr>se_offset = 2, se_nbytes = 2\<rparr>], si_n_entries = 2\<rparr>, DAMACY_OK)"

definition example_spec :: damacy_batch_spec where
  "example_spec = \<lparr>spec_dtype = DAMACY_F32, spec_sample_shape = [2], spec_sample_rank = 1, spec_samples_per_batch = 2\<rparr>"

definition example_limits :: damacy_plan_limits where
  "example_limits = \<lparr>pl_max_chunks = 8, pl_max_chunk_bytes = 64, pl_max_shards_per_sample = 4, pl_max_plan_bytes = 67108864\<rparr>"

abbreviation example_build :: "damacy_status option + prepared_plan" where
  "example_build \<equiv> prepared_plan_build True (\<lambda>_. True) (\<lambda>_. True) example_arrays example_shards example_samples example_spec example_limits"

lemma example_ok: "samples_ok example_arrays example_samples" "limits_ok example_limits"
  by (simp_all add: samples_ok_def example_samples_def example_sample_def example_arrays_def array_metadata_def sample_ok_def meta_ok_def
      two_chunks_def axis_fits_def axis_ok_def limits_ok_def example_limits_def)

abbreviation example_loop :: "damacy_status option + build_state" where
  "example_loop \<equiv> loop_res (add_sample (\<lambda>_. True) example_arrays example_shards example_spec example_limits 3)
     (enumerate 0 example_samples) (build_start 8)"

lemma example_size:
  "loop_res (size_sample example_arrays example_spec example_limits) example_samples
      \<lparr>sz_capacity = 0, sz_path_bytes = 0, sz_index_bytes = 0\<rparr> = Inr \<lparr>sz_capacity = 3, sz_path_bytes = 56, sz_index_bytes = 0\<rparr>"
  by code_simp

lemma example_buckets: "bucket_loop 64 3 1 = Some 8"
  by code_simp

definition example_prepared :: prepared_plan where
  "example_prepared =
     \<lparr>pp_output = example_spec, pp_arrays = [\<lparr>pa_uri = ''a'', pa_metadata = two_chunks\<rparr>],
      pp_chunks = [\<lparr>pc_path = Some ''a/c/0'', pc_offset = 0, pc_coordinate = [0], pc_array = 0, pc_encoded_bytes = 2, pc_decoded_bytes = 2,
          pc_first_use = 0, pc_missing = False\<rparr>,
        \<lparr>pc_path = Some ''a/c/0'', pc_offset = 2, pc_coordinate = [1], pc_array = 0, pc_encoded_bytes = 2, pc_decoded_bytes = 2,
          pc_first_use = 2, pc_missing = False\<rparr>],
      pp_regions = [sample_region two_chunks 0 0 (example_sample 1), sample_region two_chunks 0 1 (example_sample 2)],
      pp_uses = [\<lparr>pu_chunk = 0, pu_region = 0, pu_next = 4294967295\<rparr>, \<lparr>pu_chunk = 1, pu_region = 0, pu_next = 4294967295\<rparr>,
        \<lparr>pu_chunk = 1, pu_region = 1, pu_next = 1\<rparr>],
      pp_n_arrays = 1, pp_n_chunks = 2, pp_n_regions = 2, pp_n_uses = 3, pp_allocated_bytes = 4916\<rparr>"

lemma example_state: "\<exists>st. example_loop = Inr st \<and> plan_of example_spec 4916 st = example_prepared"
proof -
  have "map_sum id (plan_of example_spec 4916) example_loop = Inr example_prepared" by code_simp
  then show ?thesis by (cases example_loop) auto
qed

lemma example_plan: "example_build = Inr example_prepared"
proof -
  from example_state obtain st where st: "example_loop = Inr st" "plan_of example_spec 4916 st = example_prepared" by blast
  have g: "\<not> (example_samples = [] \<or> pl_max_chunks example_limits = 0 \<or> pl_max_chunk_bytes example_limits = 0 \<or>
      spec_sample_rank example_spec = 0 \<or> spec_sample_rank example_spec > DAMACY_MAX_RANK)"
    by (simp add: example_samples_def example_limits_def example_spec_def DAMACY_MAX_RANK_def)
  have "length example_samples = 2" by (simp add: example_samples_def)
  then show ?thesis
    unfolding prepared_plan_build_def if_not_P [OF g] example_size sum.case plan_size.simps example_buckets option.case st(1) Let_def
    by (simp add: storage_size_def u64_add_def u64_mul_def sizeof_plan_array_def sizeof_plan_region_def sizeof_plan_chunk_def sizeof_plan_use_def
        sizeof_prepared_plan_def example_limits_def st(2))
qed

theorem prepared_plan_build_covers_witness:
  "example_build = Inr example_prepared \<and> distinct (map (\<lambda>c. (pc_array c, pc_coordinate c)) (pp_chunks example_prepared)) \<and>
     length (pp_regions example_prepared) = length example_samples"
  using example_plan prepared_plan_build_covers [OF example_plan example_ok] by blast


theorem prepared_plan_build_returns_witness:
  "prepared_plan_build True (\<lambda>_. True) (\<lambda>_. False) example_arrays example_shards example_samples example_spec example_limits \<noteq> Inl None"
  by (rule prepared_plan_build_returns [OF example_ok])

theorem plan_links_complete_witness:
  "example_build = Inr example_prepared \<and>
     use_chain 3 (pp_uses example_prepared) (pc_first_use (pp_chunks example_prepared ! 1)) =
       rev (filter (\<lambda>u. pu_chunk (pp_uses example_prepared ! u) = 1) [0 ..< 3])"
proof -
  have n: "length (pp_chunks example_prepared) = 2" "length (pp_uses example_prepared) = 3" by (simp_all add: example_prepared_def)
  from plan_links_complete [OF example_plan example_ok, of 1] n show ?thesis using example_plan by simp
qed

end
