(* ===== verification/Plan_Source.thy ===== *)
theory Plan_Source
  imports Plan_Cover "HOL-Library.FuncSet"
begin

text \<open>
  Where the chunks of a plan come from (src/src/planner/plan\_builder.c): the path, offset and size of every chunk of a plan
  are those that the index of its shard holds at the chunk's place in the shard.
\<close>

section \<open>Positions in a shard index\<close>

text \<open>The chunks of shard \<open>s\<close>, when \<open>per\<close> chunks fit a shard along each dimension.\<close>

definition in_shard :: "nat list \<Rightarrow> nat list \<Rightarrow> nat list \<Rightarrow> bool" where
  "in_shard per s c \<longleftrightarrow> length c = length per \<and> (\<forall>d < length per. c ! d div per ! d = s ! d)"

lemma in_shard_snoc:
  assumes "length s = Suc (length per)"
  shows "in_shard (per @ [p]) s c \<longleftrightarrow> (\<exists>c' x. c = c' @ [x] \<and> in_shard per (butlast s) c' \<and> x div p = last s)"
proof -
  have s: "s ! length per = last s" "d < length per \<Longrightarrow> butlast s ! d = s ! d" for d
    using assms by (cases s rule: rev_cases; auto simp: nth_append)+
  show ?thesis
  proof
    assume "in_shard (per @ [p]) s c"
    then have c: "length c = Suc (length per)" "\<forall>d < Suc (length per). c ! d div (per @ [p]) ! d = s ! d" by (simp_all add: in_shard_def)
    then have "c = butlast c @ [last c]" by (metis append_butlast_last_id list.size(3) nat.simps(3))
    moreover have "c ! length per = last c" using c(1) by (metis diff_Suc_1 last_conv_nth list.size(3) nat.simps(3))
    ultimately show "\<exists>c' x. c = c' @ [x] \<and> in_shard per (butlast s) c' \<and> x div p = last s"
      using c s by (intro exI [of _ "butlast c"] exI [of _ "last c"]) (auto simp: in_shard_def nth_butlast nth_append less_Suc_eq)
  next
    assume "\<exists>c' x. c = c' @ [x] \<and> in_shard per (butlast s) c' \<and> x div p = last s"
    then show "in_shard (per @ [p]) s c" using s by (auto simp: in_shard_def nth_append less_Suc_eq)
  qed
qed

lemma entry_position_snoc:
  assumes "length c = length per"
  shows "entry_position (per @ [p]) (c @ [x]) = u64_add (u64_mul (entry_position per c) p) (x mod p)"
  using assms by (simp add: entry_position_def)

text \<open>C27. The position at which the planner looks up a chunk in the index of its shard is a bijection between the chunks of the
  shard and the entries of its index: no two chunks share an entry, no entry is left out and none is out of range.\<close>

theorem entry_position_bij:
  assumes "length s = length per" and "0 \<notin> set per" and "prod_list per < 2 ^ 64"
  shows "bij_betw (entry_position per) {c. in_shard per s c} {..< prod_list per}"
  using assms
proof (induction per arbitrary: s rule: rev_induct)
  case Nil
  then show ?case by (simp add: in_shard_def entry_position_def bij_betw_def lessThan_Suc)
next
  case (snoc p per)
  then have p: "0 < p" and len: "length s = Suc (length per)" and P: "prod_list per * p < 2 ^ 64" by auto
  have "prod_list per \<le> prod_list per * p" using p by simp
  then have small: "prod_list per < 2 ^ 64" using P by linarith
  have IH: "bij_betw (entry_position per) {c. in_shard per (butlast s) c} {..< prod_list per}" by (rule snoc.IH) (use snoc.prems len small in auto)
  let ?S = "{c. in_shard per (butlast s) c} \<times> {x. x div p = last s}"
  have set: "{c. in_shard (per @ [p]) s c} = (\<lambda>(c, x). c @ [x]) ` ?S"
    unfolding in_shard_snoc [OF len] by auto
  have pos: "entry_position (per @ [p]) (c @ [x]) = entry_position per c * p + x mod p" if c: "in_shard per (butlast s) c" for c x
  proof -
    have "entry_position per c < prod_list per" using IH c by (auto simp: bij_betw_def)
    then have "Suc (entry_position per c) * p \<le> prod_list per * p" by (intro mult_le_mono1) simp
    moreover have "x mod p < p" using p by simp
    ultimately have "entry_position per c * p + x mod p < 2 ^ 64" using P by simp
    then show ?thesis using c by (simp add: entry_position_snoc in_shard_def u64_add_def u64_mul_def)
  qed
  have digit: "bij_betw (\<lambda>x. x mod p) {x. x div p = last s} {..< p}"
    by (rule bij_betwI [where g = "\<lambda>r. last s * p + r"]) (use p in \<open>auto simp: mult.commute [of "last s"] dest!: sym [of _ "last s"]\<close>)
  have pair: "bij_betw (\<lambda>(a, b). a * p + b) ({..< prod_list per} \<times> {..< p}) {..< prod_list per * p}"
  proof (rule bij_betwI [where g = "\<lambda>e. (e div p, e mod p)"])
    show "(\<lambda>(a, b). a * p + b) \<in> {..< prod_list per} \<times> {..< p} \<rightarrow> {..< prod_list per * p}"
    proof (auto)
      fix a b assume "a < prod_list per" "b < p"
      then have "Suc a * p \<le> prod_list per * p" by (intro mult_le_mono1) simp
      then show "a * p + b < prod_list per * p" using \<open>b < p\<close> by simp
    qed
  qed (use p in \<open>auto simp: less_mult_imp_div_less\<close>)
  have snoc: "bij_betw (\<lambda>(c, x). c @ [x]) ?S {c. in_shard (per @ [p]) s c}" unfolding set by (intro bij_betw_imageI inj_onI) auto
  have "bij_betw (map_prod (entry_position per) (\<lambda>x. x mod p)) ?S ({..< prod_list per} \<times> {..< p})" by (rule bij_betw_map_prod [OF IH digit])
  then have "bij_betw ((\<lambda>(a, b). a * p + b) \<circ> map_prod (entry_position per) (\<lambda>x. x mod p)) ?S {..< prod_list per * p}" by (rule bij_betw_trans [OF _ pair])
  then have "bij_betw (entry_position (per @ [p]) \<circ> (\<lambda>(c, x). c @ [x])) ?S {..< prod_list per * p}"
    by (rule iffD1 [OF bij_betw_cong, rotated]) (auto simp: pos)
  then show ?case using bij_betw_comp_iff [OF snoc, of "entry_position (per @ [p])"] by simp
qed

theorem entry_position_bij_witness: "bij_betw (entry_position [2, 3]) {c. in_shard [2, 3] [1, 0] c} {..< 6}"
  using entry_position_bij [of "[1, 0]" "[2, 3]"] by simp

section \<open>Chunks of one shard\<close>

text \<open>The chunk is one of the sample's chunks in shard \<open>s\<close>, and its bytes are those of its entry in the shard's index; a shard
  that does not exist, or an empty entry, makes it a missing chunk.\<close>

definition chunk_at ::
    "shard_index_value query_cache \<Rightarrow> planner_sample \<Rightarrow> string \<Rightarrow> zarr_metadata \<Rightarrow> nat list \<Rightarrow> nat \<Rightarrow> nat \<Rightarrow> nat list \<Rightarrow> plan_chunk \<Rightarrow> bool" where
  "chunk_at shards sample uri meta per array k s c \<longleftrightarrow>
     pc_array c = array \<and> pc_coordinate c \<in> set (shard_cells meta per sample s) \<and> pc_decoded_bytes c < 2 ^ 32 \<and>
     (case shards (ps_h_shards sample ! k) of (state, index, error) \<Rightarrow>
        if state = PREFETCH_STATE_ERROR \<and> error = DAMACY_NOTFOUND then pc_missing c \<and> pc_offset c = 0 \<and> pc_encoded_bytes c = 0
        else state = PREFETCH_STATE_READY \<and> index \<noteq> None \<and> pc_path c = Some (shard_path uri s) \<and>
          entry_position per (pc_coordinate c) < si_n_entries (the index) \<and>
          (let entry = si_entries (the index) ! entry_position per (pc_coordinate c)
           in if unat (se_nbytes entry) = ZARR_SHARD_EMPTY_NBYTES
              then unat (se_offset entry) = ZARR_SHARD_EMPTY_OFFSET \<and> pc_missing c \<and> pc_offset c = 0 \<and> pc_encoded_bytes c = 0
              else \<not> pc_missing c \<and> pc_offset c = unat (se_offset entry) \<and> pc_encoded_bytes c = unat (se_nbytes entry) \<and>
                0 < pc_encoded_bytes c \<and> pc_encoded_bytes c < 2 ^ 32 \<and> pc_offset c + pc_encoded_bytes c < 2 ^ 64))"

lemma chunk_at_first_use [simp]: "chunk_at shards sample uri meta per array k s (c \<lparr>pc_first_use := n\<rparr>) = chunk_at shards sample uri meta per array k s c"
  by (simp add: chunk_at_def)

text \<open>A property of chunks that new chunks have and that does not look at the link is kept by the loops.\<close>

lemma add_chunk_pred:
  assumes "\<And>c n. P (c \<lparr>pc_first_use := n\<rparr>) = P c" and "\<forall>c \<in> set (pb_chunks st). P c"
    and new: "\<And>c. chunk_entry index (entry_position per coordinate)
        \<lparr>pc_path = path, pc_offset = 0, pc_coordinate = coordinate, pc_array = array, pc_encoded_bytes = 0,
         pc_decoded_bytes = decoded_bytes, pc_first_use = UINT32_MAX, pc_missing = (index = None)\<rparr> = Inr c \<Longrightarrow> P c"
    and "add_chunk capacity region array per path index decoded_bytes coordinate st = Inr st'"
  shows "\<forall>c \<in> set (pb_chunks st'). P c"
proof -
  define c0 where "c0 = \<lparr>pc_path = path, pc_offset = 0, pc_coordinate = coordinate, pc_array = array, pc_encoded_bytes = 0,
         pc_decoded_bytes = decoded_bytes, pc_first_use = UINT32_MAX, pc_missing = (index = None)\<rparr>"
  define F where "F = find_bucket (length (pb_table st) + 1) (pb_chunks st) (pb_table st) (length (pb_table st)) array coordinate
      (unat (chunk_hash array coordinate) AND (length (pb_table st) - 1))"
  note body = assms(4) [unfolded add_chunk_def Let_def c0_def [symmetric] F_def [symmetric]]
  obtain c where c: "chunk_entry index (entry_position per coordinate) c0 = Inr c" using body by (auto split: sum.splits)
  obtain b where b: "F = Some b" using body c by (auto split: option.splits)
  define cs where "cs = (if pb_table st ! b = 0 then pb_chunks st @ [c] else pb_chunks st)"
  define k where "k = (if pb_table st ! b = 0 then length (pb_chunks st) else pb_table st ! b - 1)"
  have cs: "set cs \<subseteq> insert c (set (pb_chunks st))" by (auto simp: cs_def)
  have st': "pb_chunks st' = cs[k := (cs ! k) \<lparr>pc_first_use := length (pb_uses st)\<rparr>]"
    using body c b by (auto simp: cs_def k_def split: if_splits)
  have "\<forall>c \<in> set cs. P c" using cs new [OF c [unfolded c0_def]] assms(2) by auto
  show ?thesis
  proof (cases "k < length cs")
    case True
    then have "P (cs ! k)" using \<open>\<forall>c \<in> set cs. P c\<close> by simp
    then show ?thesis unfolding st' using \<open>\<forall>c \<in> set cs. P c\<close> set_update_subset_insert assms(1) by fastforce
  next
    case False
    then show ?thesis unfolding st' using \<open>\<forall>c \<in> set cs. P c\<close> by (simp add: not_less list_update_beyond)
  qed
qed

lemma chunk_entry_at:
  assumes "chunk_entry index e \<lparr>pc_path = path, pc_offset = 0, pc_coordinate = coordinate, pc_array = array, pc_encoded_bytes = 0,
         pc_decoded_bytes = decoded_bytes, pc_first_use = UINT32_MAX, pc_missing = (index = None)\<rparr> = Inr c" and "e = entry_position per coordinate"
    and "decoded_bytes < 2 ^ 32" and "coordinate \<in> set (shard_cells meta per sample s)"
    and q: "shards (ps_h_shards sample ! k) = (state, found, error)"
    and missing: "missing = (state = PREFETCH_STATE_ERROR \<and> error = DAMACY_NOTFOUND)" "missing \<or> state = PREFETCH_STATE_READY \<and> found \<noteq> None"
    and "index = (if missing then None else found)" and "path = (if missing then None else Some (shard_path uri s))"
  shows "chunk_at shards sample uri meta per array k s c"
proof (cases missing)
  case True
  then show ?thesis using assms by (auto simp: chunk_at_def chunk_entry_def)
next
  case False
  then obtain v where v: "found = Some v" "state = PREFETCH_STATE_READY" using missing by auto
  let ?en = "si_entries v ! e"
  have o: "\<not> e \<ge> si_n_entries v" "\<not> ((unat (se_offset ?en) = ZARR_SHARD_EMPTY_OFFSET) \<noteq> (unat (se_nbytes ?en) = ZARR_SHARD_EMPTY_NBYTES) \<or>
     unat (se_nbytes ?en) \<noteq> ZARR_SHARD_EMPTY_NBYTES \<and> (unat (se_nbytes ?en) = 0 \<or> unat (se_nbytes ?en) > UINT32_MAX \<or>
       unat (se_offset ?en) > UINT64_MAX - unat (se_nbytes ?en)))"
    and c: "c = (let chunk = \<lparr>pc_path = path, pc_offset = 0, pc_coordinate = coordinate, pc_array = array, pc_encoded_bytes = 0,
         pc_decoded_bytes = decoded_bytes, pc_first_use = UINT32_MAX, pc_missing = unat (se_nbytes ?en) = ZARR_SHARD_EMPTY_NBYTES\<rparr>
       in if unat (se_nbytes ?en) \<noteq> ZARR_SHARD_EMPTY_NBYTES then chunk \<lparr>pc_offset := unat (se_offset ?en), pc_encoded_bytes := unat (se_nbytes ?en)\<rparr> else chunk)"
    using assms(1,8) False v by (auto simp: chunk_entry_def Let_def split: if_splits)
  have lt: "unat (se_nbytes ?en) < 2 ^ 32 \<and> unat (se_offset ?en) + unat (se_nbytes ?en) < 2 ^ 64 \<and> 0 < unat (se_nbytes ?en)"
    if "unat (se_nbytes ?en) \<noteq> ZARR_SHARD_EMPTY_NBYTES"
  proof -
    have n: "unat (se_nbytes ?en) \<noteq> 0" "\<not> unat (se_nbytes ?en) > UINT32_MAX" "\<not> unat (se_offset ?en) > UINT64_MAX - unat (se_nbytes ?en)"
      using o(2) that by auto
    then show ?thesis by (simp; linarith)
  qed
  show ?thesis using o lt c False assms(2-5,9) v missing(1) unfolding chunk_at_def q by (auto simp: Let_def)
qed

lemma add_shard_at:
  assumes per: "per_ok meta per" and sample: "sample_ok meta sample" "ps_uri sample = Some uri" and rank: "aabb_rank (ps_aabb sample) = zm_rank meta"
    and s: "s \<in> set (sample_shards meta sample)" and sb: "sb_room (pb_path st)" and "decoded_bytes < 2 ^ 32"
    and P: "\<And>c n. P (c \<lparr>pc_first_use := n\<rparr>) = P c" "\<And>c. chunk_at shards sample uri meta per array k s c \<Longrightarrow> P c" "\<forall>c \<in> set (pb_chunks st). P c"
    and r: "add_shard alloc_ok shards limits capacity region array sample uri meta per decoded_bytes s (k, st) = Inr (k', st')"
  shows "\<forall>c \<in> set (pb_chunks st'). P c"
proof -
  have fits: "\<forall>d < zm_rank meta. axis_fits (aabb_dims (ps_aabb sample) ! d) (ps_axes sample ! d)" and nul: "NUL \<notin> set uri"
    using sample by (auto simp: sample_ok_def)
  have ls: "length s = zm_rank meta" using s by (simp add: sample_shards_def in_product_nth)
  have s64: "\<forall>c \<in> set s. c < 2 ^ 64" using shard_clip_exact(3) [OF per fits s] ls by (auto simp: in_set_conv_nth)
  obtain state found error where q: "shards (ps_h_shards sample ! k) = (state, found, error)" by (metis prod_cases3)
  define missing where "missing = (state = PREFETCH_STATE_ERROR \<and> error = DAMACY_NOTFOUND)"
  define lo where "lo = map (\<lambda>d. u64_mul (s ! d) (per ! d)) [0 ..< zm_rank meta]"
  define hi where "hi = map (\<lambda>d. u64_add (lo ! d) (per ! d)) [0 ..< zm_rank meta]"
  have clip: "clip_at (Some lo) d = Some (s ! d * per ! d)" "clip_at (Some hi) d = Some (s ! d * per ! d + per ! d)" if "d < zm_rank meta" for d
    using that shard_clip_exact(1,2) [OF per fits s that] by (simp_all add: clip_at_def lo_def hi_def)
  define C where "C = copy_shard_path alloc_ok uri s (zm_rank meta) missing st"
  from r have ok: "missing \<or> state = PREFETCH_STATE_READY \<and> found \<noteq> None"
    unfolding add_shard_def split_conv q prod.case Let_def missing_def [symmetric] by (auto split: if_splits)
  from r obtain path st1 g where x: "C = Inr (path, st1)"
    and grid: "selection_grid_init (ps_aabb sample) (ps_axes sample) (zm_inner_chunk_shape meta) (Some lo) (Some hi) (pl_max_chunks limits) = Inr g"
    and l: "loop_res (add_chunk capacity region array per path (if missing then None else found) decoded_bytes) (grid_coordinates g) st1 = Inr st'"
    unfolding add_shard_def split_conv q prod.case Let_def missing_def [symmetric] C_def [symmetric] lo_def [symmetric] hi_def [symmetric]
    by (auto simp: map_sum_def split: if_splits sum.splits prod.splits)
  note B = copy_shard_path_result(2) [OF sb nul s64 ls C_def x]
  have cells: "grid_coordinates g = shard_cells meta per sample s"
    using grid_coordinates_cells [OF grid] fits rank clip unfolding shard_cells_def by (auto intro!: arg_cong [of _ _ product_lists])
  show ?thesis
  proof (rule loop_res_inv [where P = "\<lambda>st. \<forall>c \<in> set (pb_chunks st). P c", OF _ _ l])
    show "\<forall>c \<in> set (pb_chunks st1). P c" using B P(3) by simp
    fix coordinate sa sb
    assume co: "coordinate \<in> set (grid_coordinates g)" and sa: "\<forall>c \<in> set (pb_chunks sa). P c"
      and step: "add_chunk capacity region array per path (if missing then None else found) decoded_bytes coordinate sa = Inr sb"
    show "\<forall>c \<in> set (pb_chunks sb). P c"
    proof (rule add_chunk_pred [OF P(1) sa _ step])
      fix c
      assume "chunk_entry (if missing then None else found) (entry_position per coordinate)
        \<lparr>pc_path = path, pc_offset = 0, pc_coordinate = coordinate, pc_array = array, pc_encoded_bytes = 0,
         pc_decoded_bytes = decoded_bytes, pc_first_use = UINT32_MAX, pc_missing = ((if missing then None else found) = None)\<rparr> = Inr c"
      from chunk_entry_at [where index = "if missing then None else found" and shards = shards and sample = sample and k = k, OF this refl assms(7) co [unfolded cells] q missing_def ok]
      show "P c" using B by (intro P(2)) simp
    qed
  qed
qed

section \<open>Chunks of a sample\<close>

lemma add_shards_at:
  assumes "build_ok capacity st" and "sb_room (pb_path st)" and per: "per_ok meta per" and sample: "sample_ok meta sample" "ps_uri sample = Some uri"
    and rank: "aabb_rank (ps_aabb sample) = zm_rank meta" and dec: "decoded_bytes < 2 ^ 32"
    and "k + length ss = length (sample_shards meta sample)" and "ss = drop k (sample_shards meta sample)"
    and "length (pb_uses st) + length (concat (map (shard_cells meta per sample) ss)) \<le> capacity"
    and P: "\<And>c n. P (c \<lparr>pc_first_use := n\<rparr>) = P c"
      "\<And>c k. k < length (sample_shards meta sample) \<Longrightarrow> chunk_at shards sample uri meta per array k (sample_shards meta sample ! k) c \<Longrightarrow> P c"
    and "\<forall>c \<in> set (pb_chunks st). P c"
    and "loop_res (add_shard alloc_ok shards limits capacity region array sample uri meta per decoded_bytes) ss (k, st) = Inr (k', st')"
  shows "\<forall>c \<in> set (pb_chunks st'). P c"
  using assms(1,2,8-10,13,14)
proof (induction ss arbitrary: k st)
  case (Cons s ss)
  let ?f = "add_shard alloc_ok shards limits capacity region array sample uri meta per decoded_bytes"
  have k: "k < length (sample_shards meta sample)" using Cons.prems(3) by simp
  have sk: "s = sample_shards meta sample ! k" and ss: "ss = drop (Suc k) (sample_shards meta sample)"
    using Cons.prems(4) k by (auto simp: Cons_nth_drop_Suc [OF k, symmetric])
  have s: "s \<in> set (sample_shards meta sample)" using sk k by simp
  obtain k1 st1 where x: "?f s (k, st) = Inr (k1, st1)" using Cons.prems(7) by (auto split: sum.splits)
  have room: "length (pb_uses st) + length (shard_cells meta per sample s) \<le> capacity" using Cons.prems(5) by simp
  have o: "k1 = Suc k" "build_ok capacity st1" "sb_room (pb_path st1)"
    "use_keys st1 = use_keys st @ map (\<lambda>c. (region, array, c)) (shard_cells meta per sample s)"
    using add_shard_result [OF Cons.prems(1,2) per sample rank s room refl, of alloc_ok shards limits region array decoded_bytes k] x by auto
  have "length (pb_uses st1) = length (pb_uses st) + length (shard_cells meta per sample s)" using arg_cong [OF o(4), of length] by simp
  then have "length (pb_uses st1) + length (concat (map (shard_cells meta per sample) ss)) \<le> capacity" using Cons.prems(5) by simp
  moreover have "\<forall>c \<in> set (pb_chunks st1). P c"
    by (rule add_shard_at [OF per sample rank s Cons.prems(2) dec P(1) P(2) [OF k] Cons.prems(6) x]) (simp add: sk)
  moreover have "loop_res ?f ss (Suc k, st1) = Inr (k', st')" using Cons.prems(7) x o(1) by simp
  ultimately show ?case using Cons.IH [of st1 "Suc k"] o(2,3) Cons.prems(3) ss by simp
qed simp

text \<open>Where a chunk of the plan comes from: a shard of one of the samples.\<close>

definition chunk_origin ::
    "zarr_metadata query_cache \<Rightarrow> shard_index_value query_cache \<Rightarrow> planner_sample list \<Rightarrow> plan_array list \<Rightarrow> plan_chunk \<Rightarrow> bool" where
  "chunk_origin arrays shards samples parrays c \<longleftrightarrow>
     (\<exists>sample \<in> set samples. \<exists>meta per n k. array_metadata arrays (ps_h_meta sample) = Inr meta \<and>
        zarr_metadata_inner_per_shard meta = Some (per, n) \<and> pc_array c < length parrays \<and> ps_uri sample = Some (pa_uri (parrays ! pc_array c)) \<and>
        k < length (sample_shards meta sample) \<and>
        chunk_at shards sample (pa_uri (parrays ! pc_array c)) meta per (pc_array c) k (sample_shards meta sample ! k) c)"

lemma chunk_origin_mono:
  assumes "chunk_origin arrays shards samples parrays c" and "set samples \<subseteq> set samples'"
  shows "chunk_origin arrays shards samples' (parrays @ extra) c"
proof -
  have "pc_array c < length parrays" using assms(1) by (auto simp: chunk_origin_def)
  then have "(parrays @ extra) ! pc_array c = parrays ! pc_array c" by (simp add: nth_append)
  then show ?thesis using assms unfolding chunk_origin_def by fastforce
qed

lemma add_sample_at:
  assumes ok: "build_ok capacity st" and sb: "sb_room (pb_path st)" and sample: "sample_ok meta sample" "ps_uri sample = Some uri"
    and meta: "array_metadata arrays (ps_h_meta sample) = Inr meta" and geom: "sample_geometry sample meta out_spec limits = Inr (n, bytes)"
    and lim: "0 < pl_max_chunks limits" "pl_max_chunks limits < 2 ^ 32"
    and room: "length (pb_uses st) + length (sample_cells meta sample) \<le> capacity" and dis: "distinct (map pa_uri (pb_arrays st))"
    and P: "\<forall>c \<in> set (pb_chunks st). chunk_origin arrays shards seen (pb_arrays st) c"
    and r: "add_sample alloc_ok arrays shards out_spec limits capacity (i, sample) st = Inr st'"
  shows "\<forall>c \<in> set (pb_chunks st'). chunk_origin arrays shards (seen @ [sample]) (pb_arrays st') c"
proof -
  let ?a = "find_array (pb_arrays st) uri"
  note g = sample_geometry_result [OF geom sample(1) lim]
  have fits: "\<forall>d < aabb_rank (ps_aabb sample). axis_fits (aabb_dims (ps_aabb sample) ! d) (ps_axes sample ! d)" and mok: "meta_ok meta"
    using sample(1) g(1) by (simp_all add: sample_ok_def)
  define st1 where "st1 = (if ?a = length (pb_arrays st)
                    then st \<lparr>pb_arrays := pb_arrays st @ [\<lparr>pa_uri = uri, pa_metadata = meta\<rparr>], pb_paths := pb_paths st + length uri + 1\<rparr>
                    else st)"
  define st2 where "st2 = st1 \<lparr>pb_regions := pb_regions st1 @ [sample_region meta ?a i sample]\<rparr>"
  have st2: "pb_chunks st2 = pb_chunks st" "pb_uses st2 = pb_uses st" "pb_table st2 = pb_table st" "pb_path st2 = pb_path st"
    "pb_arrays st2 = with_array (pb_arrays st) uri meta"
    by (simp_all add: st2_def st1_def with_array_def)
  note W = with_array_result [OF dis, of uri meta]
  from r obtain per t grid k' where x: "zarr_metadata_inner_per_shard meta = Some (per, t)"
    "selection_grid_init (ps_aabb sample) (ps_axes sample) (zm_shard_shape meta) None None (pl_max_shards_per_sample limits) = Inr grid"
    "loop_res (add_shard alloc_ok shards limits capacity i ?a sample uri meta per bytes) (grid_coordinates grid) (0, st2) = Inr (k', st')"
    unfolding add_sample_def split_conv meta sum.case sample(2) option.sel Let_def st1_def [symmetric] st2_def [symmetric] geom prod.case
    by (auto split: option.splits sum.splits prod.splits if_splits)
  have cells: "grid_coordinates grid = sample_shards meta sample"
    using grid_coordinates_cells [OF x(2) fits] g(1) by (simp add: sample_shards_def clip_at_def)
  have pok: "per_ok meta per" by (rule inner_per_shard_per_ok [OF x(1) mok x(2) g(1)])
  have b: "build_ok capacity st2" using build_ok_same [OF ok, of st2] st2 by simp
  have "length (sample_order meta per sample) = length (sample_cells meta sample)" using sample_order_mset [OF pok, of sample] by (metis size_mset)
  then have room2: "length (pb_uses st2) + length (concat (map (shard_cells meta per sample) (sample_shards meta sample))) \<le> capacity"
    using room st2(2) by (simp add: sample_order_def)
  have dec: "bytes < 2 ^ 32" using geom by (auto simp: sample_geometry_def split: if_splits sum.splits)
  have arr: "pb_arrays st' = pb_arrays st2"
    using add_shards_result [OF b _ pok sample g(1) subset_refl room2 refl, of alloc_ok shards limits i ?a bytes 0] sb st2(4) x(3) cells
    by (simp add: same_frame_def)
  have "\<forall>c \<in> set (pb_chunks st'). chunk_origin arrays shards (seen @ [sample]) (pb_arrays st2) c"
  proof (rule add_shards_at [OF b _ pok sample g(1) dec _ _ room2 _ _ _ x(3) [unfolded cells]])
    show "sb_room (pb_path st2)" using sb st2(4) by simp
    show "chunk_origin arrays shards (seen @ [sample]) (pb_arrays st2) (c \<lparr>pc_first_use := n\<rparr>) = chunk_origin arrays shards (seen @ [sample]) (pb_arrays st2) c" for c n
      by (simp add: chunk_origin_def)
    show "chunk_origin arrays shards (seen @ [sample]) (pb_arrays st2) c"
      if "k < length (sample_shards meta sample)" "chunk_at shards sample uri meta per ?a k (sample_shards meta sample ! k) c" for c k
    proof -
      have "pc_array c = ?a" using that(2) by (simp add: chunk_at_def)
      then show ?thesis unfolding chunk_origin_def using that sample(2) meta x(1) W(1,2) unfolding st2(5)
        by (intro bexI [of _ sample] exI [of _ meta] exI [of _ per] exI [of _ t] exI [of _ k]) simp_all
    qed
    obtain extra where e: "pb_arrays st2 = pb_arrays st @ extra" using W(5) st2(5) by auto
    have "chunk_origin arrays shards (seen @ [sample]) (pb_arrays st @ extra) c" if "chunk_origin arrays shards seen (pb_arrays st) c" for c
      by (rule chunk_origin_mono [OF that]) auto
    then show "\<forall>c \<in> set (pb_chunks st2). chunk_origin arrays shards (seen @ [sample]) (pb_arrays st2) c"
      using P unfolding st2(1) e by blast
  qed simp_all
  then show ?thesis unfolding arr .
qed

section \<open>Chunks of a plan\<close>

lemma add_samples_at:
  assumes "plan_inv arrays capacity st seen" and "\<forall>s \<in> set samples. (\<exists>meta. sample_sized arrays out_spec limits s meta) \<and> samples_ok arrays [s]"
    and lim: "0 < pl_max_chunks limits" "pl_max_chunks limits < 2 ^ 32"
    and "(\<Sum>s \<leftarrow> seen @ samples. sized_by arrays n_cells s) \<le> capacity"
    and "\<forall>c \<in> set (pb_chunks st). chunk_origin arrays shards seen (pb_arrays st) c"
    and "loop_res (add_sample alloc_ok arrays shards out_spec limits capacity) (enumerate (length seen) samples) st = Inr st'"
  shows "\<forall>c \<in> set (pb_chunks st'). chunk_origin arrays shards (seen @ samples) (pb_arrays st') c"
  using assms(1,2,5-7)
proof (induction samples arbitrary: seen st)
  case (Cons s samples)
  let ?f = "add_sample alloc_ok arrays shards out_spec limits capacity"
  from Cons.prems(2) obtain meta where m: "sample_sized arrays out_spec limits s meta" "samples_ok arrays [s]" by auto
  then obtain uri n bytes where u: "ps_uri s = Some uri" "array_metadata arrays (ps_h_meta s) = Inr meta"
    "sample_geometry s meta out_spec limits = Inr (n, bytes)" by (auto simp: sample_sized_def)
  have sok: "sample_ok meta s" using m(2) u by (simp add: samples_ok_def)
  have room: "(\<Sum>s \<leftarrow> seen @ [s]. sized_by arrays n_cells s) \<le> capacity" using Cons.prems(3) by simp
  have I: "build_ok capacity st" "sb_room (pb_path st)" "distinct (map pa_uri (pb_arrays st))"
    "length (pb_uses st) + length (sample_cells meta s) \<le> capacity"
    using Cons.prems(1) room u by (simp_all add: plan_inv_def sized_by_def)
  obtain st1 where x: "?f (length seen, s) st = Inr st1" using Cons.prems(5) by (auto split: sum.splits)
  have "plan_inv arrays capacity st1 (seen @ [s])"
    using plan_inv_step [OF Cons.prems(1) m lim room refl, of alloc_ok shards] x by blast
  then show ?case
    using Cons.IH [of st1 "seen @ [s]"] add_sample_at [OF I(1,2) sok u lim I(4,3) Cons.prems(4) x] Cons.prems(2,3,5) x by simp
qed simp

lemma prepared_plan_build_state:
  assumes "prepared_plan_build plan_ok storage_ok alloc_ok arrays shards samples out_spec limits = Inr plan"
  shows "\<exists>sz b bytes st. loop_res (size_sample arrays out_spec limits) samples \<lparr>sz_capacity = 0, sz_path_bytes = 0, sz_index_bytes = 0\<rparr> = Inr sz \<and>
    bucket_loop 64 (sz_capacity sz) 1 = Some b \<and>
    loop_res (add_sample alloc_ok arrays shards out_spec limits (sz_capacity sz)) (enumerate 0 samples) (build_start b) = Inr st \<and>
    plan = plan_of out_spec bytes st \<and> 0 < pl_max_chunks limits \<and> spec_sample_rank out_spec \<le> DAMACY_MAX_RANK"
proof -
  have inr: "\<exists>st. x = Inr st \<and> p = f st" if "map_sum id f x = Inr p" for f :: "build_state \<Rightarrow> prepared_plan" and x :: "damacy_status option + build_state" and p
    using that by (cases x) auto
  show ?thesis using assms by (auto simp: prepared_plan_build_def Let_def split: if_splits sum.splits option.splits dest!: inr)
qed

lemma prepared_plan_chunks_origin:
  assumes "prepared_plan_build plan_ok storage_ok alloc_ok arrays shards samples out_spec limits = Inr plan"
    and ok: "samples_ok arrays samples" "limits_ok limits"
  shows "\<forall>c \<in> set (pp_chunks plan). chunk_origin arrays shards samples (pp_arrays plan) c"
proof -
  from prepared_plan_build_state [OF assms(1)] obtain sz b bytes st where
    sz: "loop_res (size_sample arrays out_spec limits) samples \<lparr>sz_capacity = 0, sz_path_bytes = 0, sz_index_bytes = 0\<rparr> = Inr sz"
    and b: "bucket_loop 64 (sz_capacity sz) 1 = Some b"
    and st: "loop_res (add_sample alloc_ok arrays shards out_spec limits (sz_capacity sz)) (enumerate 0 samples) (build_start b) = Inr st"
    and plan: "plan = plan_of out_spec bytes st" and pos: "0 < pl_max_chunks limits" "spec_sample_rank out_spec \<le> DAMACY_MAX_RANK" by blast
  have each: "\<forall>s \<in> set samples. samples_ok arrays [s]" using samples_okI [OF ok(1)] by blast
  have le0: "size_le limits \<lparr>sz_capacity = 0, sz_path_bytes = 0, sz_index_bytes = 0\<rparr>" by (simp add: size_le_def)
  note S = size_samples_result [OF sz ok(2) pos each le0]
  note T = storage_suffices [OF sz b ok pos]
  from T(4) obtain m where m: "b = 2 ^ m" "2 * sz_capacity sz \<le> 2 ^ m" by auto
  have m32: "pl_max_chunks limits < 2 ^ 32" using ok(2) by (simp add: limits_ok_def)
  have "\<forall>c \<in> set (pb_chunks st). chunk_origin arrays shards ([] @ samples) (pb_arrays st) c"
  proof (rule add_samples_at [OF build_start_inv [OF m(2)] _ pos(1) m32])
    show "\<forall>s \<in> set samples. (\<exists>meta. sample_sized arrays out_spec limits s meta) \<and> samples_ok arrays [s]" using S each by simp
    show "(\<Sum>s \<leftarrow> [] @ samples. sized_by arrays n_cells s) \<le> sz_capacity sz" using T(1) by simp
    show "\<forall>c \<in> set (pb_chunks (build_start (2 ^ m))). chunk_origin arrays shards [] (pb_arrays (build_start (2 ^ m))) c"
      by (simp add: build_start_def)
    show "loop_res (add_sample alloc_ok arrays shards out_spec limits (sz_capacity sz)) (enumerate (length ([] :: planner_sample list)) samples)
        (build_start (2 ^ m)) = Inr st" using st m(1) by simp
  qed
  then show ?thesis by (simp add: plan plan_of_def)
qed

text \<open>C4. Every chunk of a plan is read from the right place: it belongs to a shard of one of the samples, its path is that
  shard's path in the chunk's array, and its offset and size are those of the entry that the shard's index holds at the
  chunk's position. A chunk without bytes - its shard does not exist or its entry is the empty marker - is marked missing.\<close>

theorem prepared_plan_chunks_located:
  assumes "prepared_plan_build plan_ok storage_ok alloc_ok arrays shards samples out_spec limits = Inr plan"
    and "samples_ok arrays samples" and "limits_ok limits" and "c \<in> set (pp_chunks plan)"
  shows "\<exists>sample \<in> set samples. \<exists>meta per n k. array_metadata arrays (ps_h_meta sample) = Inr meta \<and>
    zarr_metadata_inner_per_shard meta = Some (per, n) \<and> ps_uri sample = Some (pa_uri (pp_arrays plan ! pc_array c)) \<and>
    k < length (sample_shards meta sample) \<and> pc_coordinate c \<in> set (shard_cells meta per sample (sample_shards meta sample ! k)) \<and>
    (case shards (ps_h_shards sample ! k) of (state, index, error) \<Rightarrow>
       if state = PREFETCH_STATE_ERROR \<and> error = DAMACY_NOTFOUND then pc_missing c
       else index \<noteq> None \<and> pc_path c = Some (shard_path (pa_uri (pp_arrays plan ! pc_array c)) (sample_shards meta sample ! k)) \<and>
         entry_position per (pc_coordinate c) < si_n_entries (the index) \<and>
         (let entry = si_entries (the index) ! entry_position per (pc_coordinate c)
          in if unat (se_nbytes entry) = ZARR_SHARD_EMPTY_NBYTES then pc_missing c
             else \<not> pc_missing c \<and> pc_offset c = unat (se_offset entry) \<and> pc_encoded_bytes c = unat (se_nbytes entry) \<and>
               pc_offset c + pc_encoded_bytes c < 2 ^ 64))"
  using prepared_plan_chunks_origin [OF assms(1-3)] assms(4)
  by (fastforce simp: chunk_origin_def chunk_at_def Let_def split: if_splits)

theorem prepared_plan_chunks_located_witness:
  "example_build = Inr example_prepared \<and>
     (\<exists>sample \<in> set example_samples. ps_uri sample = Some (pa_uri (pp_arrays example_prepared ! pc_array (pp_chunks example_prepared ! 1))))"
proof -
  have "pp_chunks example_prepared ! 1 \<in> set (pp_chunks example_prepared)" by (simp add: example_prepared_def)
  from prepared_plan_chunks_located [OF example_plan example_ok this] example_plan show ?thesis by blast
qed

end
