(* ===== verification/Path_Intern.thy ===== *)
theory Path_Intern
  imports Hash
begin

text \<open>
  The string interner of src/src/util/path\_intern.c: an open-addressing table with linear probing, reference counts and
  backward-shift deletion. A string is its address and its contents, so that pointer identity can be stated; the addresses
  that \<open>strdup\<close> returns and the outcomes of \<open>calloc\<close> are parameters.
\<close>

section \<open>State\<close>

record path_intern_slot =
  is_hash :: "64 word"
  is_str :: "(nat \<times> string) option"
  is_refs :: nat

text \<open>The capacity is the length of the table; no table is the empty list.\<close>

record path_intern =
  pi_slots :: "path_intern_slot list"
  pi_n :: nat

definition empty_slot :: path_intern_slot where
  "empty_slot = \<lparr>is_hash = 0, is_str = None, is_refs = 0\<rparr>"

abbreviation pi_cap :: "path_intern \<Rightarrow> nat" where
  "pi_cap tbl \<equiv> length (pi_slots tbl)"

definition str_hash :: "string \<Rightarrow> 64 word" where
  "str_hash s = hash_fnv1a_str (map (\<lambda>c. word_of_nat (of_char c)) s)"

section \<open>Operations\<close>

text \<open>\<open>while (ns[j].str) j = (j + 1) & mask\<close>; \<open>None\<close> is a loop that is still running after \<open>fuel\<close> steps.\<close>

fun free_slot :: "nat \<Rightarrow> path_intern_slot list \<Rightarrow> nat \<Rightarrow> nat option" where
  "free_slot 0 ns j = None"
| "free_slot (Suc fuel) ns j =
     (if is_str (ns ! j) = None then Some j else free_slot fuel ns ((j + 1) AND (length ns - 1)))"

definition rehash_slot :: "path_intern_slot \<Rightarrow> path_intern_slot list option \<Rightarrow> path_intern_slot list option" where
  "rehash_slot s ns =
     (case ns of None \<Rightarrow> None
      | Some ns \<Rightarrow>
          if is_str s = None then Some ns
          else map_option (\<lambda>j. ns[j := s]) (free_slot (length ns) ns (unat (is_hash s) AND (length ns - 1))))"

text \<open>The outer option is a loop that does not end, the inner flag the result 0.\<close>

definition slots_rehash :: "(nat \<Rightarrow> bool) \<Rightarrow> path_intern \<Rightarrow> nat \<Rightarrow> (bool \<times> path_intern) option" where
  "slots_rehash calloc_ok tbl new_cap =
     (if \<not> calloc_ok new_cap then Some (False, tbl)
      else map_option (\<lambda>ns. (True, tbl \<lparr>pi_slots := ns\<rparr>))
             (fold rehash_slot (pi_slots tbl) (Some (replicate new_cap empty_slot))))"

fun evict_loop :: "nat \<Rightarrow> path_intern_slot list \<Rightarrow> nat \<Rightarrow> nat \<Rightarrow> path_intern_slot list option" where
  "evict_loop 0 slots idx scan = None"
| "evict_loop (Suc fuel) slots idx scan =
     (let mask = length slots - 1
      in if is_str (slots ! scan) = None then Some slots
         else
           let ideal = unat (is_hash (slots ! scan)) AND mask
           in if u64_sub idx ideal AND mask \<le> u64_sub scan ideal AND mask
              then evict_loop fuel (slots[idx := slots ! scan, scan := empty_slot]) scan ((scan + 1) AND mask)
              else evict_loop fuel slots idx ((scan + 1) AND mask))"

definition slot_evict :: "path_intern \<Rightarrow> nat \<Rightarrow> path_intern option" where
  "slot_evict tbl idx =
     (if pi_cap tbl = 0 then Some tbl
      else
        map_option (\<lambda>slots. \<lparr>pi_slots = slots, pi_n = pi_n tbl - 1\<rparr>)
          (evict_loop (pi_cap tbl) ((pi_slots tbl)[idx := empty_slot]) idx ((idx + 1) AND (pi_cap tbl - 1))))"

definition path_intern_free :: "path_intern \<Rightarrow> path_intern" where
  "path_intern_free tbl = \<lparr>pi_slots = [], pi_n = 0\<rparr>"

definition path_intern_reset :: "path_intern \<Rightarrow> path_intern" where
  "path_intern_reset tbl = (if pi_slots tbl = [] then tbl else \<lparr>pi_slots = replicate (pi_cap tbl) empty_slot, pi_n = 0\<rparr>)"

text \<open>The probe loop of \<open>path_intern_acquire\<close>: the slot that is empty or holds the string.\<close>

fun intern_probe :: "nat \<Rightarrow> path_intern_slot list \<Rightarrow> 64 word \<Rightarrow> string \<Rightarrow> nat \<Rightarrow> nat option" where
  "intern_probe 0 slots h s j = None"
| "intern_probe (Suc fuel) slots h s j =
     (case is_str (slots ! j) of
        None \<Rightarrow> Some j
      | Some (p, t) \<Rightarrow>
          if is_hash (slots ! j) = h \<and> t = s then Some j
          else intern_probe fuel slots h s ((j + 1) AND (length slots - 1)))"

definition intern_insert :: "nat option \<Rightarrow> path_intern \<Rightarrow> string \<Rightarrow> ((nat \<times> string) option \<times> path_intern) option" where
  "intern_insert dup tbl s =
     (let h = str_hash s
      in case intern_probe (pi_cap tbl) (pi_slots tbl) h s (unat h AND (pi_cap tbl - 1)) of
           None \<Rightarrow> None
         | Some j \<Rightarrow>
             (case is_str (pi_slots tbl ! j) of
                None \<Rightarrow>
                  (case dup of
                     None \<Rightarrow> Some (None, tbl)
                   | Some p \<Rightarrow> Some (Some (p, s), \<lparr>pi_slots = (pi_slots tbl)[j := \<lparr>is_hash = h, is_str = Some (p, s), is_refs = 1\<rparr>],
                                                pi_n = pi_n tbl + 1\<rparr>))
              | Some ps \<Rightarrow>
                  Some (Some ps, tbl \<lparr>pi_slots := (pi_slots tbl)[j := (pi_slots tbl ! j) \<lparr>is_refs := u32_add (is_refs (pi_slots tbl ! j)) 1\<rparr>]\<rparr>)))"

text \<open>\<open>dup\<close> is what \<open>strdup\<close> returns.\<close>

definition path_intern_acquire ::
    "(nat \<Rightarrow> bool) \<Rightarrow> nat option \<Rightarrow> path_intern \<Rightarrow> string option \<Rightarrow> ((nat \<times> string) option \<times> path_intern) option" where
  "path_intern_acquire calloc_ok dup tbl s =
     (case s of
        None \<Rightarrow> Some (None, tbl)
      | Some s \<Rightarrow>
          if (pi_n tbl + 1) * 4 > pi_cap tbl * 3
          then (case slots_rehash calloc_ok tbl (if pi_cap tbl \<noteq> 0 then pi_cap tbl * 2 else 16) of
                  None \<Rightarrow> None
                | Some (False, tbl) \<Rightarrow> Some (None, tbl)
                | Some (True, tbl) \<Rightarrow> intern_insert dup tbl s)
          else intern_insert dup tbl s)"

definition path_intern_find :: "path_intern \<Rightarrow> nat \<Rightarrow> nat" where
  "path_intern_find tbl p = length (takeWhile (\<lambda>sl. map_option fst (is_str sl) \<noteq> Some p) (pi_slots tbl))"

definition path_intern_release :: "path_intern \<Rightarrow> nat option \<Rightarrow> path_intern option" where
  "path_intern_release tbl s =
     (case s of
        None \<Rightarrow> Some tbl
      | Some p \<Rightarrow>
          let idx = path_intern_find tbl p
          in if \<not> idx < pi_cap tbl \<or> \<not> is_refs (pi_slots tbl ! idx) > 0 then Some tbl
             else
               let slot = (pi_slots tbl ! idx) \<lparr>is_refs := is_refs (pi_slots tbl ! idx) - 1\<rparr>;
                   tbl = tbl \<lparr>pi_slots := (pi_slots tbl)[idx := slot]\<rparr>
               in if is_refs slot = 0 then slot_evict tbl idx else Some tbl)"

definition path_intern_owns :: "path_intern \<Rightarrow> nat option \<Rightarrow> bool" where
  "path_intern_owns tbl p = (p \<noteq> None \<and> list_ex (\<lambda>sl. map_option fst (is_str sl) = p) (pi_slots tbl))"

section \<open>Probe chains\<close>

abbreviation occ :: "path_intern_slot list \<Rightarrow> nat \<Rightarrow> bool" where
  "occ slots i \<equiv> is_str (slots ! i) \<noteq> None"

definition ideal :: "path_intern_slot list \<Rightarrow> nat \<Rightarrow> nat" where
  "ideal slots i = unat (is_hash (slots ! i)) mod length slots"

text \<open>Every entry is reached from its ideal slot without crossing an empty one.\<close>

definition chained :: "path_intern_slot list \<Rightarrow> bool" where
  "chained slots \<longleftrightarrow> (\<forall>i < length slots. occ slots i \<longrightarrow>
     (\<forall>e < cdist (length slots) (ideal slots i) i. occ slots ((ideal slots i + e) mod length slots)))"

text \<open>The same with one hole allowed, and entries from the hole up to \<open>scan\<close> that do not need it.\<close>

definition chained_but :: "path_intern_slot list \<Rightarrow> nat \<Rightarrow> nat \<Rightarrow> bool" where
  "chained_but slots idx scan \<longleftrightarrow> idx < length slots \<and> scan < length slots \<and> scan \<noteq> idx \<and> \<not> occ slots idx \<and>
     (\<forall>i < length slots. occ slots i \<longrightarrow> (\<forall>e < cdist (length slots) (ideal slots i) i.
        occ slots ((ideal slots i + e) mod length slots) \<or> (ideal slots i + e) mod length slots = idx)) \<and>
     (\<forall>i < length slots. occ slots i \<and> cdist (length slots) idx i < cdist (length slots) idx scan \<longrightarrow>
        cdist (length slots) (ideal slots i) i < cdist (length slots) (ideal slots i) idx)"

lemma cdist_add:
  assumes "i < n" and "d < n"
  shows "cdist n i ((i + d) mod n) = d"
  using assms by (auto simp: cdist_cases mod_if)

lemma cdist_trans:
  assumes "a < n" and "b < n" and "c < n"
  shows "cdist n a c = (if cdist n a b + cdist n b c < n then cdist n a b + cdist n b c else cdist n a b + cdist n b c - n)"
  using assms by (auto simp: cdist_cases)

lemma chained_butD:
  assumes "chained_but slots idx scan"
  shows "idx < length slots" "scan < length slots" "scan \<noteq> idx" "\<not> occ slots idx"
    "\<And>i e. i < length slots \<Longrightarrow> occ slots i \<Longrightarrow> e < cdist (length slots) (ideal slots i) i \<Longrightarrow>
       occ slots ((ideal slots i + e) mod length slots) \<or> (ideal slots i + e) mod length slots = idx"
    "\<And>i. i < length slots \<Longrightarrow> occ slots i \<Longrightarrow> cdist (length slots) idx i < cdist (length slots) idx scan \<Longrightarrow>
        cdist (length slots) (ideal slots i) i < cdist (length slots) (ideal slots i) idx"
  using assms unfolding chained_but_def by blast+

lemma ideal_less: "0 < length slots \<Longrightarrow> ideal slots i < length slots"
  by (simp add: ideal_def)

text \<open>When the scan meets an empty slot, no entry needs the hole.\<close>

lemma chained_but_done:
  assumes c: "chained_but slots idx scan" and scan: "\<not> occ slots scan"
  shows "chained slots"
  unfolding chained_def
proof (intro allI impI)
  fix i e
  assume i: "i < length slots" "occ slots i" and e: "e < cdist (length slots) (ideal slots i) i"
  let ?n = "length slots"
  note C = chained_butD [OF c]
  have n: "0 < ?n" using i(1) by linarith
  have h: "ideal slots i < ?n" by (rule ideal_less [OF n])
  show "occ slots ((ideal slots i + e) mod ?n)"
  proof (rule ccontr)
    assume "\<not> occ slots ((ideal slots i + e) mod ?n)"
    then have eq: "(ideal slots i + e) mod ?n = idx" using C(5) [OF i e] by blast
    have en: "e < ?n" using e cdist_less [OF n] by (metis less_trans)
    have "cdist ?n (ideal slots i) idx = e" using cdist_add [OF h en] eq by simp
    then have lt: "cdist ?n (ideal slots i) idx < cdist ?n (ideal slots i) i" using e by simp
    then have "\<not> cdist ?n idx i < cdist ?n idx scan" using C(6) [OF i] by linarith
    moreover have "scan \<noteq> i" using scan i by auto
    moreover have "cdist ?n idx scan \<noteq> cdist ?n idx i" using \<open>scan \<noteq> i\<close> add_cdist [OF C(1,2)] add_cdist [OF C(1) i(1)] by metis
    ultimately have "cdist ?n (ideal slots i) scan < cdist ?n (ideal slots i) i"
      using lt cdist_trans [OF h C(1) i(1)] cdist_trans [OF h C(1,2)] cdist_less [OF n, of idx i] cdist_less [OF n, of idx scan]
      by (simp split: if_splits)
    from C(5) [OF i this] show False using add_cdist [OF h C(2)] scan C(3) by auto
  qed
qed

lemma chained_but_skip:
  assumes c: "chained_but slots idx scan" and scan: "occ slots scan"
    and lt: "cdist (length slots) (ideal slots scan) scan < cdist (length slots) (ideal slots scan) idx"
    and ne: "Suc scan mod length slots \<noteq> idx"
  shows "chained_but slots idx (Suc scan mod length slots)"
proof -
  let ?n = "length slots"
  note C = chained_butD [OF c]
  have "cdist ?n idx i < cdist ?n idx scan \<or> i = scan" if "i < ?n" "cdist ?n idx i < cdist ?n idx (Suc scan mod ?n)" for i
    using that C(1-3) ne by (auto simp: cdist_cases mod_if split: if_splits)
  then show ?thesis unfolding chained_but_def using C ne lt by (metis mod_less_divisor neq0_conv not_less0)
qed

lemma chained_but_move:
  assumes c: "chained_but slots idx scan" and scan: "occ slots scan"
    and le: "cdist (length slots) (ideal slots scan) idx \<le> cdist (length slots) (ideal slots scan) scan"
    and n: "1 < length slots"
  shows "chained_but (slots[idx := slots ! scan, scan := empty_slot]) scan (Suc scan mod length slots)"
proof -
  let ?n = "length slots" and ?s = "slots[idx := slots ! scan, scan := empty_slot]"
  note C = chained_butD [OF c]
  have o: "occ ?s i \<longleftrightarrow> i \<noteq> scan \<and> (i = idx \<or> occ slots i)" if "i < ?n" for i
    using that C(1-4) scan by (auto simp: nth_list_update empty_slot_def)
  have id: "ideal ?s i = (if i = idx then ideal slots scan else ideal slots i)" if "i \<noteq> scan" "i < ?n" for i
    using that C(1-3) by (simp add: ideal_def nth_list_update)
  have n0: "0 < ?n" using n by linarith
  have "occ ?s ((ideal ?s i + e) mod ?n) \<or> (ideal ?s i + e) mod ?n = scan"
    if i: "i < ?n" "occ ?s i" and e: "e < cdist ?n (ideal ?s i) i" for i e
  proof (cases "i = idx")
    case True
    have im: "ideal ?s i = ideal slots scan" using True id [of i] C(3) i(1) by simp
    have h: "ideal slots scan < ?n" by (rule ideal_less [OF n0])
    have ei: "e < cdist ?n (ideal slots scan) idx" using e True unfolding im by simp
    then have "e < cdist ?n (ideal slots scan) scan" using le by simp
    from C(5) [OF C(2) scan this] have "occ slots ((ideal slots scan + e) mod ?n) \<or> (ideal slots scan + e) mod ?n = idx" .
    moreover have "(ideal slots scan + e) mod ?n < ?n" using n0 by simp
    ultimately show ?thesis unfolding im using o by blast
  next
    case False
    then have "i \<noteq> scan" "occ slots i" using i o by auto
    moreover from this have "ideal ?s i = ideal slots i" using id [of i] False i(1) by simp
    moreover have "(ideal slots i + e) mod ?n < ?n" using n0 by simp
    ultimately show ?thesis using C(5) [OF i(1)] e o by metis
  qed
  moreover have "\<not> (occ ?s i \<and> cdist ?n scan i < cdist ?n scan (Suc scan mod ?n))" if "i < ?n" for i
    using that C(2) n o [OF that] by (auto simp: cdist_cases mod_if split: if_splits)
  moreover have "Suc scan mod ?n \<noteq> scan" using n C(2) by (auto simp: mod_if)
  moreover have "length ?s = ?n" by simp
  ultimately show ?thesis unfolding chained_but_def using C(1,2) mod_less_divisor [OF n0, of "Suc scan"] o [OF C(2)] by metis
qed

text \<open>\<open>z\<close> is a slot that stays empty and that the scan has not reached.\<close>

lemma evict_loop_result:
  assumes "chained_but slots idx scan" and n: "length slots = 2 ^ m" "m \<le> 63" "1 < length slots"
    and "z < length slots" "\<not> occ slots z" "z \<noteq> idx" "cdist (length slots) idx scan \<le> cdist (length slots) idx z"
    and "slots ! idx = empty_slot" and "cdist (length slots) scan z < fuel"
  shows "\<exists>slots'. evict_loop fuel slots idx scan = Some slots' \<and> chained slots' \<and> length slots' = length slots \<and> mset slots' = mset slots"
  using assms
proof (induction fuel arbitrary: slots idx scan)
  case (Suc fuel)
  let ?n = "length slots"
  note C = chained_butD [OF Suc.prems(1)]
  have n0: "0 < ?n" using Suc.prems(4) by linarith
  have id: "unat (is_hash (slots ! scan)) AND (?n - 1) = ideal slots scan"
    unfolding ideal_def Suc.prems(2) and_mask_mod by (rule refl)
  have idl: "ideal slots scan < ?n" by (rule ideal_less [OF n0])
  have nx: "(scan + 1) AND (?n - 1) = Suc scan mod ?n" unfolding Suc.prems(2) and_mask_mod by simp
  have d: "u64_sub c (ideal slots scan) AND (?n - 1) = cdist ?n (ideal slots scan) c" if "c < ?n" for c
    using u64_sub_and_mask [of m "ideal slots scan" c] that idl Suc.prems(2,3) by simp
  show ?case
  proof (cases "occ slots scan")
    case False
    then have "is_str (slots ! scan) = None" by blast
    then show ?thesis using chained_but_done [OF Suc.prems(1) False] by (simp add: Let_def)
  next
    case True
    let ?s' = "slots[idx := slots ! scan, scan := empty_slot]"
    have zs: "z \<noteq> scan" using True Suc.prems(6) by auto
    have nearer: "cdist ?n (Suc scan mod ?n) z < fuel"
      using Suc.prems(10) zs C(2) Suc.prems(5) by (auto simp: cdist_cases mod_if split: if_splits)
    show ?thesis
    proof (cases "cdist ?n (ideal slots scan) idx \<le> cdist ?n (ideal slots scan) scan")
      case le: True
      have "mset ?s' = mset slots"
        using mset_swap [OF C(2,1)] Suc.prems(9) by simp
      moreover have "cdist ?n scan (Suc scan mod ?n) \<le> cdist ?n scan z"
        using C(2) zs Suc.prems(4,5) by (auto simp: cdist_cases mod_if split: if_splits)
      moreover have "\<not> occ ?s' z" using Suc.prems(6,7) zs by (simp add: nth_list_update)
      moreover have "evict_loop (Suc fuel) slots idx scan = evict_loop fuel ?s' scan (Suc scan mod ?n)"
        using True le nx unfolding evict_loop.simps Let_def id d [OF C(1)] d [OF C(2)] by auto
      ultimately show ?thesis
        using Suc.IH [OF chained_but_move [OF Suc.prems(1) True le Suc.prems(4)]] Suc.prems(2-5) zs nearer C(2) by simp
    next
      case False
      have far: "cdist ?n idx (Suc scan mod ?n) \<le> cdist ?n idx z \<and> Suc scan mod ?n \<noteq> idx"
        using Suc.prems(5,7,8) zs C(1,2,3) by (auto simp: cdist_cases mod_if split: if_splits)
      then have "chained_but slots idx (Suc scan mod ?n)"
        using chained_but_skip [OF Suc.prems(1) True] False by simp
      moreover have "evict_loop (Suc fuel) slots idx scan = evict_loop fuel slots idx (Suc scan mod ?n)"
        using True False nx unfolding evict_loop.simps Let_def id d [OF C(1)] d [OF C(2)] by auto
      ultimately show ?thesis using Suc.IH [OF _ Suc.prems(2-7) _ Suc.prems(9) nearer] far by simp
    qed
  qed
qed simp

section \<open>Placing and finding entries\<close>

lemma chained_place:
  assumes c: "chained slots" and j: "j < length slots" "\<not> occ slots j" and s: "is_str s \<noteq> None"
    and way: "\<And>e. e < cdist (length slots) (unat (is_hash s) mod length slots) j \<Longrightarrow> occ slots ((unat (is_hash s) mod length slots + e) mod length slots)"
  shows "chained (slots[j := s])"
  unfolding chained_def
proof (intro allI impI)
  let ?n = "length slots" and ?s = "slots[j := s]"
  fix i e
  assume i: "i < length ?s" "occ ?s i" and e: "e < cdist (length ?s) (ideal ?s i) i"
  have n0: "0 < ?n" using j(1) by linarith
  have up: "occ ?s k" if "k < ?n" "occ slots k" for k using that s by (cases "k = j") (auto simp: nth_list_update)
  have lt: "(x + e) mod ?n < ?n" for x using n0 by simp
  show "occ ?s ((ideal ?s i + e) mod length ?s)"
  proof (cases "i = j")
    case True
    then have "ideal ?s i = unat (is_hash s) mod ?n" using j(1) by (simp add: ideal_def)
    then show ?thesis using way [of e] e True up [OF lt] by simp
  next
    case False
    then have "ideal ?s i = ideal slots i" by (simp add: ideal_def)
    moreover have "occ slots i" using False i(2) by simp
    ultimately show ?thesis using c e i(1) up [OF lt] by (simp add: chained_def)
  qed
qed

lemma and_cap: "length slots = 2 ^ m \<Longrightarrow> x AND (length slots - 1) = x mod length slots"
  using and_mask_mod [of x m] by simp

text \<open>A loop that walks the ring from \<open>h\<close> until it meets a slot satisfying \<open>P\<close>.\<close>

lemma first_on_ring:
  assumes "z < (n :: nat)" and "P z" and "h < n"
  obtains d where "d < n" "P ((h + d) mod n)" "\<And>e. e < d \<Longrightarrow> \<not> P ((h + e) mod n)"
proof -
  have ex: "P ((h + cdist n h z) mod n)" using assms add_cdist by metis
  let ?d = "LEAST d. P ((h + d) mod n)"
  have "?d \<le> cdist n h z" using ex by (rule Least_le)
  moreover have "cdist n h z < n" using assms by (intro cdist_less) linarith
  ultimately have "?d < n" by linarith
  moreover have "P ((h + ?d) mod n)" using ex by (rule LeastI)
  moreover have "\<not> P ((h + e) mod n)" if "e < ?d" for e using that by (rule not_less_Least)
  ultimately show thesis by (rule that)
qed

lemma free_slot_walk:
  assumes n: "length ns = 2 ^ m" and "\<And>e. e < d \<Longrightarrow> occ ns ((j + e) mod length ns)" and "\<not> occ ns ((j + d) mod length ns)"
    and "d < fuel" and "j < length ns"
  shows "free_slot fuel ns j = Some ((j + d) mod length ns)"
  using assms(2-)
proof (induction d arbitrary: fuel j)
  case 0
  then show ?case by (cases fuel) auto
next
  case (Suc d)
  obtain f where f: "fuel = Suc f" "d < f" using Suc.prems(3) by (cases fuel) auto
  let ?j = "Suc j mod length ns"
  have sh: "(?j + e) mod length ns = (j + Suc e) mod length ns" for e by (simp add: mod_add_left_eq)
  have "free_slot f ns ?j = Some ((?j + d) mod length ns)"
  proof (rule Suc.IH)
    show "occ ns ((?j + e) mod length ns)" if "e < d" for e using Suc.prems(1) [of "Suc e"] that unfolding sh by simp
    show "\<not> occ ns ((?j + d) mod length ns)" using Suc.prems(2) unfolding sh .
    show "d < f" by (rule f(2))
    show "?j < length ns" using Suc.prems(4) by (intro mod_less_divisor) linarith
  qed
  moreover have "occ ns j" using Suc.prems(1) [of 0] Suc.prems(4) by simp
  ultimately show ?case unfolding f sh using and_cap [OF n, of "j + 1"] by auto
qed

text \<open>The entries of a table, and what holds of each.\<close>

definition entries :: "path_intern_slot list \<Rightarrow> path_intern_slot multiset" where
  "entries slots = {#sl \<in># mset slots. is_str sl \<noteq> None#}"

lemma in_entries: "sl \<in># entries slots \<longleftrightarrow> sl \<in> set slots \<and> is_str sl \<noteq> None"
  by (simp add: entries_def)

lemma entries_simps [simp]: "entries [] = {#}" "entries (s # slots) = (if is_str s = None then entries slots else add_mset s (entries slots))"
  by (auto simp: entries_def)

definition slot_ok :: "path_intern_slot \<Rightarrow> bool" where
  "slot_ok sl \<longleftrightarrow> (case is_str sl of None \<Rightarrow> sl = empty_slot | Some (p, s) \<Rightarrow> is_hash sl = str_hash s \<and> 0 < is_refs sl \<and> is_refs sl < 2 ^ 32)"

definition unique_by :: "('a \<Rightarrow> 'b) \<Rightarrow> 'a multiset \<Rightarrow> bool" where
  "unique_by f M \<longleftrightarrow> (\<forall>x \<in># M. \<forall>y \<in># M - {#x#}. f x \<noteq> f y)"

lemma unique_by_add: "unique_by f (add_mset x M) \<longleftrightarrow> unique_by f M \<and> (\<forall>y \<in># M. f x \<noteq> f y)"
proof -
  have "add_mset x M - {#y#} = add_mset x (M - {#y#})" if "y \<in># M" "y \<noteq> x" for y using that by simp
  then show ?thesis unfolding unique_by_def by (auto dest: in_diffD)
qed

definition intern_ok :: "path_intern \<Rightarrow> bool" where
  "intern_ok tbl \<longleftrightarrow> (pi_slots tbl = [] \<or> (\<exists>m. 4 \<le> m \<and> m \<le> 63 \<and> pi_cap tbl = 2 ^ m)) \<and> chained (pi_slots tbl) \<and>
     (\<forall>sl \<in># mset (pi_slots tbl). slot_ok sl) \<and> pi_n tbl = size (entries (pi_slots tbl)) \<and> 4 * pi_n tbl \<le> 3 * pi_cap tbl \<and>
     unique_by (\<lambda>sl. snd (the (is_str sl))) (entries (pi_slots tbl)) \<and> unique_by (\<lambda>sl. fst (the (is_str sl))) (entries (pi_slots tbl))"

lemma unique_by_distinct: "unique_by f (mset xs) \<longleftrightarrow> distinct (map f xs)"
  by (induction xs) (auto simp: unique_by_add unique_by_def [of f "{#}"])

text \<open>The strings a table holds, with their addresses and reference counts.\<close>

definition intern_map :: "path_intern \<Rightarrow> string \<rightharpoonup> nat \<times> nat" where
  "intern_map tbl = map_of (map (\<lambda>sl. (snd (the (is_str sl)), fst (the (is_str sl)), is_refs sl)) (filter (\<lambda>sl. is_str sl \<noteq> None) (pi_slots tbl)))"

definition holds :: "path_intern_slot multiset \<Rightarrow> string \<Rightarrow> nat \<times> nat \<Rightarrow> bool" where
  "holds M s v \<longleftrightarrow> (\<exists>sl \<in># M. is_str sl = Some (fst v, s) \<and> is_refs sl = snd v)"

lemma holds_add: "holds (add_mset sl M) s v \<longleftrightarrow> is_str sl = Some (fst v, s) \<and> is_refs sl = snd v \<or> holds M s v"
  by (auto simp: holds_def)

lemma intern_map_holds:
  assumes "unique_by (\<lambda>sl. snd (the (is_str sl))) (entries (pi_slots tbl))"
  shows "intern_map tbl s = Some v \<longleftrightarrow> holds (entries (pi_slots tbl)) s v"
proof -
  have "distinct (map (\<lambda>sl. snd (the (is_str sl))) (filter (\<lambda>sl. is_str sl \<noteq> None) (pi_slots tbl)))"
    using assms unfolding unique_by_distinct [symmetric] by (simp add: entries_def)
  then have "distinct (map fst (map (\<lambda>sl. (snd (the (is_str sl)), fst (the (is_str sl)), is_refs sl)) (filter (\<lambda>sl. is_str sl \<noteq> None) (pi_slots tbl))))"
    by (simp add: comp_def)
  from map_of_eq_Some_iff [OF this, of s v] show ?thesis unfolding intern_map_def [symmetric] holds_def
    by (cases v) (auto simp: image_iff in_entries)
qed

lemma map_eq_by_some: "(\<And>s v. m s = Some v \<longleftrightarrow> m' s = Some v) \<Longrightarrow> m = m'"
  by (rule ext) (metis option.exhaust)

lemma entries_update:
  assumes "j < length slots"
  shows "entries (slots[j := s]) = entries slots - (if occ slots j then {#slots ! j#} else {#}) + (if is_str s \<noteq> None then {#s#} else {#})"
  using assms by (auto simp: mset_update entries_def)

lemma entries_replicate [simp]: "entries (replicate n empty_slot) = {#}"
  by (induction n) (simp_all add: empty_slot_def)

lemma chained_replicate [simp]: "chained (replicate n empty_slot)"
  by (simp add: chained_def empty_slot_def)

lemma size_entries_lt:
  assumes "size (entries slots) < length slots"
  obtains z where "z < length slots" "\<not> occ slots z"
proof -
  have "\<exists>z < length slots. \<not> occ slots z"
  proof (rule ccontr)
    assume "\<not> (\<exists>z < length slots. \<not> occ slots z)"
    then have "entries slots = mset slots" by (auto simp: entries_def filter_mset_eq_conv in_set_conv_nth)
    then show False using assms by simp
  qed
  then show thesis using that by blast
qed

lemma rehash_slot_result:
  assumes "chained ns" and n: "length ns = 2 ^ m" and room: "size (entries ns) < length ns" and "is_str s \<noteq> None"
  shows "\<exists>ns'. rehash_slot s (Some ns) = Some ns' \<and> chained ns' \<and> length ns' = length ns \<and> entries ns' = add_mset s (entries ns) \<and>
    set ns' \<subseteq> insert s (set ns)"
proof -
  let ?n = "length ns"
  define h where "h = unat (is_hash s) mod ?n"
  obtain z where z: "z < ?n" "\<not> occ ns z" using size_entries_lt [OF room] .
  have h: "h < ?n" unfolding h_def using z(1) by (intro mod_less_divisor) linarith
  obtain d where d: "d < ?n" "\<not> occ ns ((h + d) mod ?n)" "\<And>e. e < d \<Longrightarrow> \<not> \<not> occ ns ((h + e) mod ?n)"
    using first_on_ring [of z ?n "\<lambda>i. \<not> occ ns i" h] z h by blast
  let ?j = "(h + d) mod ?n"
  have j: "?j < ?n" using h by (intro mod_less_divisor) linarith
  have "free_slot ?n ns h = Some ?j" using free_slot_walk [OF n _ d(2,1) h] d(3) by blast
  then have "rehash_slot s (Some ns) = Some (ns[?j := s])"
    using assms(4) and_cap [OF n, of "unat (is_hash s)"] by (auto simp: rehash_slot_def h_def)
  moreover have "chained (ns[?j := s])"
    by (rule chained_place [OF assms(1) j d(2) assms(4)]) (use d(3) cdist_add [OF h d(1)] in \<open>simp add: h_def\<close>)
  moreover have "entries (ns[?j := s]) = add_mset s (entries ns)"
    unfolding entries_update [OF j] using d(2) assms(4) by simp
  ultimately show ?thesis using set_update_subset_insert [of ns ?j s] by simp
qed

lemma slots_rehash_fold:
  assumes "chained ns" and "length ns = 2 ^ m" and "size (entries ns) + size (entries slots) < length ns"
  shows "\<exists>ns'. fold rehash_slot slots (Some ns) = Some ns' \<and> chained ns' \<and> length ns' = length ns \<and>
    entries ns' = entries ns + entries slots \<and> set ns' \<subseteq> set ns \<union> set slots"
  using assms
proof (induction slots arbitrary: ns)
  case (Cons s slots)
  show ?case
  proof (cases "is_str s = None")
    case True
    then have "rehash_slot s (Some ns) = Some ns" by (simp add: rehash_slot_def)
    then show ?thesis using Cons.IH [OF Cons.prems(1,2)] Cons.prems(3) True by auto
  next
    case False
    have "size (entries ns) < length ns" using Cons.prems(3) by linarith
    from rehash_slot_result [OF Cons.prems(1,2) this False] obtain ns1 where
      1: "rehash_slot s (Some ns) = Some ns1" "chained ns1" "length ns1 = length ns" "entries ns1 = add_mset s (entries ns)" "set ns1 \<subseteq> insert s (set ns)" by blast
    have "size (entries ns1) + size (entries slots) < length ns1" using Cons.prems(3) False unfolding 1(3,4) by simp
    from Cons.IH [OF 1(2) _ this] Cons.prems(2) 1 False show ?thesis by auto
  qed
qed simp

section \<open>Acquiring\<close>

lemma intern_probe_walk:
  assumes n: "length slots = 2 ^ m" and "\<And>e. e < d \<Longrightarrow> \<exists>p t. is_str (slots ! ((j + e) mod length slots)) = Some (p, t) \<and>
        (is_hash (slots ! ((j + e) mod length slots)) = h \<longrightarrow> t \<noteq> s)"
    and "\<And>p t. is_str (slots ! ((j + d) mod length slots)) = Some (p, t) \<Longrightarrow> is_hash (slots ! ((j + d) mod length slots)) = h \<and> t = s"
    and "d < fuel" and "j < length slots"
  shows "intern_probe fuel slots h s j = Some ((j + d) mod length slots)"
  using assms(2-)
proof (induction d arbitrary: fuel j)
  case 0
  then show ?case by (cases fuel) (auto split: option.splits)
next
  case (Suc d)
  obtain f where f: "fuel = Suc f" "d < f" using Suc.prems(3) by (cases fuel) auto
  let ?j = "Suc j mod length slots"
  have sh: "(?j + e) mod length slots = (j + Suc e) mod length slots" for e by (simp add: mod_add_left_eq)
  have "intern_probe f slots h s ?j = Some ((?j + d) mod length slots)"
  proof (rule Suc.IH)
    show "\<exists>p t. is_str (slots ! ((?j + e) mod length slots)) = Some (p, t) \<and> (is_hash (slots ! ((?j + e) mod length slots)) = h \<longrightarrow> t \<noteq> s)" if "e < d" for e
      using Suc.prems(1) [of "Suc e"] that unfolding sh by simp
    show "is_hash (slots ! ((?j + d) mod length slots)) = h \<and> t = s" if "is_str (slots ! ((?j + d) mod length slots)) = Some (p, t)" for p t
      using Suc.prems(2) that unfolding sh by blast
    show "d < f" by (rule f(2))
    show "?j < length slots" using Suc.prems(4) by (intro mod_less_divisor) linarith
  qed
  then show ?case unfolding f sh using Suc.prems(1) [of 0] Suc.prems(4) and_cap [OF n, of "j + 1"] by auto
qed

lemma slot_okD: "slot_ok sl \<Longrightarrow> is_str sl = Some (p, s) \<Longrightarrow> is_hash sl = str_hash s \<and> 0 < is_refs sl \<and> is_refs sl < 2 ^ 32"
  by (simp add: slot_ok_def)

text \<open>The probe stops at the string's slot, or at an empty slot when the table does not hold the string.\<close>

lemma intern_probe_result:
  assumes c: "chained slots" and n: "length slots = 2 ^ m" and ok: "\<forall>sl \<in> set slots. slot_ok sl" and room: "size (entries slots) < length slots"
  obtains d where "d < length slots"
    "intern_probe (length slots) slots (str_hash s) s (unat (str_hash s) AND (length slots - 1)) =
       Some ((unat (str_hash s) mod length slots + d) mod length slots)"
    "\<And>e. e < d \<Longrightarrow> occ slots ((unat (str_hash s) mod length slots + e) mod length slots)"
    "\<And>p t. is_str (slots ! ((unat (str_hash s) mod length slots + d) mod length slots)) = Some (p, t) \<Longrightarrow> t = s"
    "\<not> occ slots ((unat (str_hash s) mod length slots + d) mod length slots) \<Longrightarrow> \<not> holds (entries slots) s v"
proof -
  let ?n = "length slots"
  define h where "h = unat (str_hash s) mod ?n"
  let ?P = "\<lambda>i. \<not> occ slots i \<or> (\<exists>p. is_str (slots ! i) = Some (p, s))"
  obtain z where z: "z < ?n" "\<not> occ slots z" using size_entries_lt [OF room] .
  have h: "h < ?n" unfolding h_def using z(1) by (intro mod_less_divisor) linarith
  obtain d where d: "d < ?n" "?P ((h + d) mod ?n)" "\<And>e. e < d \<Longrightarrow> \<not> ?P ((h + e) mod ?n)"
    using first_on_ring [of z ?n ?P h] z h by blast
  have at: "slot_ok (slots ! ((h + e) mod ?n))" for e using ok h by (intro bspec [OF ok] nth_mem mod_less_divisor) linarith
  have "intern_probe ?n slots (str_hash s) s h = Some ((h + d) mod ?n)"
    by (rule intern_probe_walk [OF n _ _ d(1) h]) (use d(2,3) slot_okD [OF at] in fastforce)+
  moreover have "\<not> holds (entries slots) s v" if free: "\<not> occ slots ((h + d) mod ?n)"
  proof
    assume "holds (entries slots) s v"
    then obtain i where i: "i < ?n" "is_str (slots ! i) = Some (fst v, s)" by (auto simp: holds_def in_entries in_set_conv_nth)
    have "is_hash (slots ! i) = str_hash s" using slot_okD [OF bspec [OF ok nth_mem [OF i(1)]] i(2)] by simp
    then have id: "ideal slots i = h" by (simp add: ideal_def h_def)
    have pos: "(h + cdist ?n h i) mod ?n = i" by (rule add_cdist [OF h i(1)])
    have "cdist ?n h i \<noteq> d" using pos free i(2) by auto
    moreover have "\<not> cdist ?n h i < d" using d(3) [of "cdist ?n h i"] pos i(2) by auto
    ultimately have "d < cdist ?n (ideal slots i) i" using id by simp
    then show False using c i free id unfolding chained_def by (metis option.distinct(1))
  qed
  moreover have "t = s" if "is_str (slots ! ((h + d) mod ?n)) = Some (p, t)" for p t using d(2) that by auto
  ultimately show thesis using that [OF d(1)] d(3) and_cap [OF n, of "unat (str_hash s)"] unfolding h_def by (metis (no_types, lifting))
qed

lemma intern_okD:
  assumes "intern_ok tbl"
  shows "chained (pi_slots tbl)" "\<forall>sl \<in> set (pi_slots tbl). slot_ok sl" "pi_n tbl = size (entries (pi_slots tbl))" "4 * pi_n tbl \<le> 3 * pi_cap tbl"
    "unique_by (\<lambda>sl. snd (the (is_str sl))) (entries (pi_slots tbl))" "unique_by (\<lambda>sl. fst (the (is_str sl))) (entries (pi_slots tbl))"
    "intern_map tbl s = Some v \<longleftrightarrow> holds (entries (pi_slots tbl)) s v"
  using assms intern_map_holds [of tbl s v] by (simp_all add: intern_ok_def)

lemma intern_ok_cap: "intern_ok tbl \<Longrightarrow> pi_slots tbl \<noteq> [] \<Longrightarrow> \<exists>m. 4 \<le> m \<and> m \<le> 63 \<and> pi_cap tbl = 2 ^ m"
  by (simp add: intern_ok_def)

lemma entries_occ:
  assumes "j < length slots" and "occ slots j"
  obtains M where "entries slots = add_mset (slots ! j) M" "\<And>s. is_str s \<noteq> None \<Longrightarrow> entries (slots[j := s]) = add_mset s M"
    "entries (slots[j := empty_slot]) = M"
proof
  have "slots ! j \<in># entries slots" using assms by (simp add: in_entries)
  then show "entries slots = add_mset (slots ! j) (entries slots - {#slots ! j#})" by (metis insert_DiffM)
  show "entries (slots[j := s]) = add_mset s (entries slots - {#slots ! j#})" if "is_str s \<noteq> None" for s
    unfolding entries_update [OF assms(1)] using assms(2) that by auto
  show "entries (slots[j := empty_slot]) = entries slots - {#slots ! j#}"
    unfolding entries_update [OF assms(1)] using assms(2) by (auto simp: empty_slot_def)
qed

lemma chained_same_str:
  assumes "chained slots" and j: "j < length slots" "is_str s = is_str (slots ! j)" "is_hash s = is_hash (slots ! j)"
  shows "chained (slots[j := s])"
proof -
  have "is_str (slots[j := s] ! i) = is_str (slots ! i)" and "is_hash (slots[j := s] ! i) = is_hash (slots ! i)" for i
    using j by (cases "i = j"; simp)+
  then show ?thesis using assms(1) by (simp add: chained_def ideal_def)
qed

text \<open>Replacing the reference count of an entry.\<close>

lemma set_refs_ok:
  assumes ok: "intern_ok tbl" and j: "j < pi_cap tbl" "is_str (pi_slots tbl ! j) = Some (p, s)" and r: "0 < r" "r < 2 ^ 32"
  shows "intern_map tbl s = Some (p, is_refs (pi_slots tbl ! j))"
    and "intern_ok (tbl \<lparr>pi_slots := (pi_slots tbl)[j := (pi_slots tbl ! j) \<lparr>is_refs := r\<rparr>]\<rparr>)"
    and "intern_map (tbl \<lparr>pi_slots := (pi_slots tbl)[j := (pi_slots tbl ! j) \<lparr>is_refs := r\<rparr>]\<rparr>) = (intern_map tbl)(s \<mapsto> (p, r))"
proof -
  let ?sl = "(pi_slots tbl ! j) \<lparr>is_refs := r\<rparr>" and ?t = "tbl \<lparr>pi_slots := (pi_slots tbl)[j := (pi_slots tbl ! j) \<lparr>is_refs := r\<rparr>]\<rparr>"
  note I = intern_okD [OF ok]
  obtain M where M: "entries (pi_slots tbl) = add_mset (pi_slots tbl ! j) M" "entries ((pi_slots tbl)[j := ?sl]) = add_mset ?sl M"
    using entries_occ [OF j(1), of thesis] j(2) by auto
  show "intern_map tbl s = Some (p, is_refs (pi_slots tbl ! j))" unfolding I(7) M(1) holds_add using j(2) by simp
  have "slot_ok ?sl" using bspec [OF I(2) nth_mem [OF j(1)]] j(2) r by (simp add: slot_ok_def)
  then have "\<forall>sl \<in> set ((pi_slots tbl)[j := ?sl]). slot_ok sl" using I(2) set_update_subset_insert [of "pi_slots tbl" j ?sl] by blast
  moreover have "chained ((pi_slots tbl)[j := ?sl])" by (rule chained_same_str [OF I(1) j(1)]) simp_all
  moreover have u: "unique_by (\<lambda>sl. snd (the (is_str sl))) (add_mset ?sl M)" "unique_by (\<lambda>sl. fst (the (is_str sl))) (add_mset ?sl M)"
    using I(5,6) unfolding M(1) unique_by_add by simp_all
  ultimately show ok': "intern_ok ?t" using ok M unfolding intern_ok_def by simp
  show "intern_map ?t = (intern_map tbl)(s \<mapsto> (p, r))"
  proof (rule map_eq_by_some)
    fix t v
    have key: "\<not> holds M s v" for v using I(5) j(2) unfolding M(1) unique_by_add by (fastforce simp: holds_def)
    show "intern_map ?t t = Some v \<longleftrightarrow> ((intern_map tbl)(s \<mapsto> (p, r))) t = Some v"
      unfolding intern_okD(7) [OF ok'] using I(7) [of t v] j(2) key M(2) unfolding M(1) by (cases v) (auto simp: holds_add)
  qed
qed

text \<open>What acquiring promises: an interned string keeps its address and gains a reference, a new one is entered at the address
  \<open>strdup\<close> returned, and a failure changes nothing.\<close>

definition acquired :: "nat option \<Rightarrow> string \<Rightarrow> (string \<rightharpoonup> nat \<times> nat) \<Rightarrow> (nat \<times> string) option \<Rightarrow> (string \<rightharpoonup> nat \<times> nat) \<Rightarrow> bool" where
  "acquired dup s m res m' \<longleftrightarrow>
     (case res of None \<Rightarrow> m' = m
      | Some (p, t) \<Rightarrow> t = s \<and> (case m s of Some (q, r) \<Rightarrow> p = q \<and> m' = m(s \<mapsto> (p, r + 1)) | None \<Rightarrow> dup = Some p \<and> m' = m(s \<mapsto> (p, 1))))"

lemma intern_insert_result:
  assumes ok: "intern_ok tbl" and room: "(pi_n tbl + 1) * 4 \<le> pi_cap tbl * 3"
    and fresh: "\<And>p t r. dup = Some p \<Longrightarrow> intern_map tbl t \<noteq> Some (p, r)" and refs: "\<And>p r. intern_map tbl s = Some (p, r) \<Longrightarrow> r + 1 < 2 ^ 32"
  shows "\<exists>res tbl'. intern_insert dup tbl s = Some (res, tbl') \<and> intern_ok tbl' \<and>
    acquired dup s (intern_map tbl) res (intern_map tbl')"
proof -
  note I = intern_okD [OF ok]
  have "pi_slots tbl \<noteq> []" using room by auto
  from intern_ok_cap [OF ok this] obtain m where m: "4 \<le> m" "m \<le> 63" "pi_cap tbl = 2 ^ m" by blast
  have "size (entries (pi_slots tbl)) < pi_cap tbl" using room unfolding I(3) by (simp; linarith)
  then obtain d where d: "d < pi_cap tbl"
    "intern_probe (pi_cap tbl) (pi_slots tbl) (str_hash s) s (unat (str_hash s) AND (pi_cap tbl - 1)) =
       Some ((unat (str_hash s) mod pi_cap tbl + d) mod pi_cap tbl)"
    "\<And>e. e < d \<Longrightarrow> occ (pi_slots tbl) ((unat (str_hash s) mod pi_cap tbl + e) mod pi_cap tbl)"
    "\<And>p t. is_str (pi_slots tbl ! ((unat (str_hash s) mod pi_cap tbl + d) mod pi_cap tbl)) = Some (p, t) \<Longrightarrow> t = s"
    "\<And>v. \<not> occ (pi_slots tbl) ((unat (str_hash s) mod pi_cap tbl + d) mod pi_cap tbl) \<Longrightarrow> \<not> holds (entries (pi_slots tbl)) s v"
    using intern_probe_result [OF I(1) m(3) I(2), of s] by metis
  define j where "j = (unat (str_hash s) mod pi_cap tbl + d) mod pi_cap tbl"
  have j: "j < pi_cap tbl" unfolding j_def using d(1) by (intro mod_less_divisor) linarith
  show ?thesis
  proof (cases "is_str (pi_slots tbl ! j)")
    case (Some ps)
    then obtain p where p: "is_str (pi_slots tbl ! j) = Some (p, s)" using d(4) [folded j_def] by (cases ps) auto
    note mp = set_refs_ok(1) [OF ok j p, of 1]
    have lt: "is_refs (pi_slots tbl ! j) + 1 < 2 ^ 32" using refs mp by simp
    then have "u32_add (is_refs (pi_slots tbl ! j)) 1 = is_refs (pi_slots tbl ! j) + 1" by (rule u32_add_exact)
    then have "intern_insert dup tbl s = Some (Some (p, s), tbl \<lparr>pi_slots := (pi_slots tbl)[j := (pi_slots tbl ! j) \<lparr>is_refs := is_refs (pi_slots tbl ! j) + 1\<rparr>]\<rparr>)"
      unfolding intern_insert_def Let_def d(2) j_def [symmetric] by (simp add: p)
    then show ?thesis using set_refs_ok [OF ok j p _ lt] by (simp add: acquired_def)
  next
    case None
    have nh: "\<not> holds (entries (pi_slots tbl)) s v" for v using d(5) [folded j_def] None by blast
    then have mn: "intern_map tbl s = None" using I(7) by (metis option.exhaust)
    show ?thesis
    proof (cases dup)
      case dn: None
      then have "intern_insert dup tbl s = Some (None, tbl)" unfolding intern_insert_def Let_def d(2) j_def [symmetric] by (simp add: None)
      then show ?thesis using ok by (simp add: acquired_def)
    next
      case (Some p)
      define sl where "sl = \<lparr>is_hash = str_hash s, is_str = Some (p, s), is_refs = 1\<rparr>"
      have sls: "is_str sl = Some (p, s)" "is_refs sl = 1" by (simp_all add: sl_def)
      let ?t = "\<lparr>pi_slots = (pi_slots tbl)[j := sl], pi_n = pi_n tbl + 1\<rparr>"
      have r: "intern_insert dup tbl s = Some (Some (p, s), ?t)"
        unfolding intern_insert_def Let_def d(2) j_def [symmetric] by (simp add: None Some sl_def)
      have e: "entries ((pi_slots tbl)[j := sl]) = add_mset sl (entries (pi_slots tbl))" unfolding entries_update [OF j] using None by (simp add: sl_def)
      have "unat (str_hash s) mod pi_cap tbl < pi_cap tbl" using j by (intro mod_less_divisor) linarith
      from cdist_add [OF this d(1)] have "chained ((pi_slots tbl)[j := sl])"
        by (intro chained_place [OF I(1) j]) (use None d(3) in \<open>auto simp: j_def sl_def\<close>)
      moreover have "\<forall>sl \<in> set ((pi_slots tbl)[j := sl]). slot_ok sl"
        using I(2) set_update_subset_insert [of "pi_slots tbl" j sl] by (auto simp: slot_ok_def sl_def)
      moreover have "s \<noteq> snd (the (is_str y)) \<and> p \<noteq> fst (the (is_str y))" if "y \<in># entries (pi_slots tbl)" for y
      proof -
        from that obtain q t where q: "is_str y = Some (q, t)" by (auto simp: in_entries)
        then have "holds (entries (pi_slots tbl)) t (q, is_refs y)" using that by (auto simp: holds_def)
        then show ?thesis using q nh fresh [OF Some] I(7) by auto
      qed
      ultimately have ok': "intern_ok ?t" using I room m unfolding intern_ok_def by (simp add: e unique_by_add sls)
      have "intern_map ?t = (intern_map tbl)(s \<mapsto> (p, 1))"
      proof (rule map_eq_by_some)
        fix t v
        show "intern_map ?t t = Some v \<longleftrightarrow> ((intern_map tbl)(s \<mapsto> (p, 1))) t = Some v"
          unfolding intern_okD(7) [OF ok'] using I(7) [of t v] nh [of v] by (cases v) (auto simp: e holds_add sls)
      qed
      then show ?thesis using r ok' mn Some by (simp add: acquired_def)
    qed
  qed
qed

text \<open>Growing keeps the strings.\<close>

lemma slots_rehash_result:
  assumes ok: "intern_ok tbl" and cap: "new_cap = 2 ^ m" "4 \<le> m" "m \<le> 63" and room: "pi_n tbl < new_cap" "4 * pi_n tbl \<le> 3 * new_cap"
    and alloc: "calloc_ok new_cap"
  shows "\<exists>tbl'. slots_rehash calloc_ok tbl new_cap = Some (True, tbl') \<and> intern_ok tbl' \<and> pi_cap tbl' = new_cap \<and> pi_n tbl' = pi_n tbl \<and>
    intern_map tbl' = intern_map tbl"
proof -
  note I = intern_okD [OF ok]
  have "size (entries (replicate new_cap empty_slot)) + size (entries (pi_slots tbl)) < length (replicate new_cap empty_slot)"
    using room(1) I(3) by simp
  from slots_rehash_fold [OF chained_replicate _ this, of m] cap(1) obtain ns where
    ns: "fold rehash_slot (pi_slots tbl) (Some (replicate new_cap empty_slot)) = Some ns" "chained ns" "length ns = new_cap"
      "entries ns = entries (pi_slots tbl)" "set ns \<subseteq> set (replicate new_cap empty_slot) \<union> set (pi_slots tbl)" by auto
  let ?t = "tbl \<lparr>pi_slots := ns\<rparr>"
  have "slot_ok empty_slot" by (simp add: slot_ok_def empty_slot_def)
  then have "\<forall>sl \<in> set ns. slot_ok sl" using ns(5) I(2) by (auto simp: set_replicate_conv_if split: if_splits)
  then have ok': "intern_ok ?t" using I ns(2-4) cap room(2) unfolding intern_ok_def by auto
  have "intern_map ?t = intern_map tbl"
    by (rule map_eq_by_some) (simp add: intern_okD(7) [OF ok'] I(7) ns(4))
  then show ?thesis using ns(1,3) ok' alloc by (simp add: slots_rehash_def)
qed

text \<open>What \<open>calloc\<close> can return: a table of more than \<open>2 ^ 62\<close> slots does not fit memory.\<close>

definition alloc_bounded :: "(nat \<Rightarrow> bool) \<Rightarrow> bool" where
  "alloc_bounded calloc_ok \<longleftrightarrow> (\<forall>c. calloc_ok c \<longrightarrow> c \<le> 2 ^ 62)"

lemma path_intern_acquire_result:
  assumes ok: "intern_ok tbl" and alloc: "alloc_bounded calloc_ok"
    and fresh: "\<And>p t r. dup = Some p \<Longrightarrow> intern_map tbl t \<noteq> Some (p, r)" and refs: "\<And>p r. intern_map tbl s = Some (p, r) \<Longrightarrow> r + 1 < 2 ^ 32"
  shows "\<exists>res tbl'. path_intern_acquire calloc_ok dup tbl (Some s) = Some (res, tbl') \<and> intern_ok tbl' \<and>
    acquired dup s (intern_map tbl) res (intern_map tbl')"
proof (cases "(pi_n tbl + 1) * 4 > pi_cap tbl * 3")
  case False
  then have "path_intern_acquire calloc_ok dup tbl (Some s) = intern_insert dup tbl s" by (simp add: path_intern_acquire_def)
  moreover have "(pi_n tbl + 1) * 4 \<le> pi_cap tbl * 3" using False by simp
  ultimately show ?thesis using intern_insert_result [OF ok _ fresh refs] by simp
next
  case True
  let ?c = "if pi_cap tbl \<noteq> 0 then pi_cap tbl * 2 else 16"
  show ?thesis
  proof (cases "calloc_ok ?c")
    case False
    then have "path_intern_acquire calloc_ok dup tbl (Some s) = Some (None, tbl)" using True by (simp add: path_intern_acquire_def slots_rehash_def)
    then show ?thesis using ok by (simp add: acquired_def)
  next
    case al: True
    have small: "?c \<le> 2 ^ 62" using alloc al by (simp add: alloc_bounded_def)
    have cap: "\<exists>m. ?c = 2 ^ m \<and> 4 \<le> m \<and> m \<le> 63"
    proof (cases "pi_slots tbl = []")
      case True
      then show ?thesis by (intro exI [of _ 4]) simp
    next
      case False
      then obtain m where m: "4 \<le> m" "m \<le> 63" "pi_cap tbl = 2 ^ m" using intern_ok_cap [OF ok] by blast
      then have "(2 :: nat) ^ Suc m \<le> 2 ^ 62" using small False by simp
      then have "Suc m \<le> 62" by (rule power_le_imp_le_exp [rotated]) simp
      then show ?thesis using m False by (intro exI [of _ "Suc m"]) simp
    qed
    then obtain m where m: "?c = 2 ^ m" "4 \<le> m" "m \<le> 63" by blast
    have n: "4 * pi_n tbl \<le> 3 * pi_cap tbl" by (rule intern_okD(4) [OF ok])
    have c16: "16 \<le> ?c" unfolding m(1) using power_increasing [OF m(2), of "2 :: nat"] by simp
    have "pi_n tbl < ?c" "4 * pi_n tbl \<le> 3 * ?c" "(pi_n tbl + 1) * 4 \<le> ?c * 3" using n c16 by (auto split: if_splits)
    with slots_rehash_result [of tbl ?c m calloc_ok, OF ok m _ _ al] obtain tbl1 where t: "slots_rehash calloc_ok tbl ?c = Some (True, tbl1)" "intern_ok tbl1"
      "pi_cap tbl1 = ?c" "pi_n tbl1 = pi_n tbl" "intern_map tbl1 = intern_map tbl" by blast
    have r1: "(pi_n tbl1 + 1) * 4 \<le> pi_cap tbl1 * 3" using \<open>(pi_n tbl + 1) * 4 \<le> ?c * 3\<close> unfolding t(3,4) .
    have "path_intern_acquire calloc_ok dup tbl (Some s) = intern_insert dup tbl1 s" using True t(1) by (simp add: path_intern_acquire_def)
    then show ?thesis using intern_insert_result [OF t(2) r1, of dup s] fresh refs unfolding t(5) by simp
  qed
qed

section \<open>Releasing\<close>

lemma chained_but_start:
  assumes c: "chained slots" and idx: "idx < length slots" and n: "1 < length slots"
  shows "chained_but (slots[idx := empty_slot]) idx (Suc idx mod length slots)"
proof -
  let ?n = "length slots" and ?s = "slots[idx := empty_slot]"
  have n0: "0 < ?n" using n by linarith
  have o: "occ ?s i \<longleftrightarrow> i \<noteq> idx \<and> occ slots i" if "i < ?n" for i using that by (cases "i = idx") (auto simp: empty_slot_def)
  have id: "ideal ?s i = ideal slots i" if "i \<noteq> idx" for i using that by (simp add: ideal_def)
  have "occ ?s ((ideal ?s i + e) mod ?n) \<or> (ideal ?s i + e) mod ?n = idx" if "i < ?n" "occ ?s i" "e < cdist ?n (ideal ?s i) i" for i e
    using that c o [of i] id [of i] o [of "(ideal slots i + e) mod ?n"] mod_less_divisor [OF n0, of "ideal slots i + e"] unfolding chained_def by metis
  moreover have "\<not> (occ ?s i \<and> cdist ?n idx i < cdist ?n idx (Suc idx mod ?n))" if "i < ?n" for i
    using that idx n o [OF that] by (auto simp: cdist_cases mod_if split: if_splits)
  moreover have "Suc idx mod ?n \<noteq> idx" using n idx by (auto simp: mod_if)
  moreover have "length ?s = ?n" by simp
  ultimately show ?thesis unfolding chained_but_def using idx mod_less_divisor [OF n0, of "Suc idx"] o [OF idx] by metis
qed

lemma slot_evict_result:
  assumes ok: "intern_ok tbl" and j: "idx < pi_cap tbl" "is_str (pi_slots tbl ! idx) = Some (p, s)"
  shows "\<exists>tbl'. slot_evict (tbl \<lparr>pi_slots := (pi_slots tbl)[idx := sl]\<rparr>) idx = Some tbl' \<and> intern_ok tbl' \<and> intern_map tbl' = (intern_map tbl)(s := None)"
proof -
  note I = intern_okD [OF ok]
  let ?n = "pi_cap tbl" and ?e = "(pi_slots tbl)[idx := empty_slot]"
  have "pi_slots tbl \<noteq> []" using j(1) by auto
  from intern_ok_cap [OF ok this] obtain m where m: "4 \<le> m" "m \<le> 63" "?n = 2 ^ m" by blast
  have n16: "16 \<le> ?n" unfolding m(3) using power_increasing [OF m(1), of "2 :: nat"] by simp
  have "size (entries (pi_slots tbl)) < ?n" using I(3,4) n16 by linarith
  then obtain z where z: "z < ?n" "\<not> occ (pi_slots tbl) z" by (rule size_entries_lt)
  have zi: "z \<noteq> idx" using z(2) j(2) by auto
  have n1: "1 < ?n" using n16 by linarith
  have l: "length ?e = ?n" by simp
  have near: "cdist ?n idx (Suc idx mod ?n) \<le> cdist ?n idx z" using j(1) z(1) zi n1 by (auto simp: cdist_cases mod_if split: if_splits)
  have far: "cdist ?n (Suc idx mod ?n) z < ?n" using n1 by (intro cdist_less) linarith
  have ze: "\<not> occ ?e z" using z zi by simp
  obtain slots' where e: "evict_loop ?n ?e idx (Suc idx mod ?n) = Some slots'" "chained slots'" "length slots' = ?n" "mset slots' = mset ?e"
    using evict_loop_result [OF chained_but_start [OF I(1) j(1) n1], of m z ?n] m(2,3) n1 z(1) zi near far j(1) ze unfolding l by (metis nth_list_update_eq)
  let ?t = "\<lparr>pi_slots = slots', pi_n = pi_n tbl - 1\<rparr>"
  have r: "slot_evict (tbl \<lparr>pi_slots := (pi_slots tbl)[idx := sl]\<rparr>) idx = Some ?t"
    using e(1) j(1) and_cap [OF m(3), of "idx + 1"] by (auto simp: slot_evict_def)
  obtain M where M: "entries (pi_slots tbl) = add_mset (pi_slots tbl ! idx) M" "entries ?e = M"
    using entries_occ [OF j(1), of thesis] j(2) by auto
  have M': "entries slots' = M" using M(2) e(4) by (simp add: entries_def)
  have "\<forall>sl \<in> set slots'. slot_ok sl"
  proof -
    have "set slots' = set ?e" using arg_cong [OF e(4), of set_mset] by simp
    then show ?thesis using I(2) set_update_subset_insert [of "pi_slots tbl" idx empty_slot] by (auto simp: slot_ok_def empty_slot_def)
  qed
  moreover have "unique_by (\<lambda>sl. snd (the (is_str sl))) M" "unique_by (\<lambda>sl. fst (the (is_str sl))) M" and key: "\<not> holds M s v" for v
    using I(5,6) j(2) unfolding M(1) unique_by_add by (auto simp: holds_def)
  moreover have "pi_n tbl = Suc (size M)" using I(3) M(1) by simp
  ultimately have ok': "intern_ok ?t" using e(2,3) m I(4) unfolding intern_ok_def by (simp add: M')
  have "intern_map ?t = (intern_map tbl)(s := None)"
  proof (rule map_eq_by_some)
    fix t v
    show "intern_map ?t t = Some v \<longleftrightarrow> ((intern_map tbl)(s := None)) t = Some v"
      unfolding intern_okD(7) [OF ok'] using I(7) [of t v] key [of v] j(2) unfolding M(1) by (cases v) (auto simp: M' holds_add)
  qed
  then show ?thesis using r ok' by blast
qed

lemma path_intern_release_result:
  assumes ok: "intern_ok tbl"
  shows "\<exists>tbl'. path_intern_release tbl (Some p) = Some tbl' \<and> intern_ok tbl' \<and>
    (\<forall>s r. intern_map tbl s = Some (p, r) \<longrightarrow> intern_map tbl' = (intern_map tbl)(s := if r = 1 then None else Some (p, r - 1))) \<and>
    ((\<forall>s r. intern_map tbl s \<noteq> Some (p, r)) \<longrightarrow> tbl' = tbl)"
proof -
  note I = intern_okD [OF ok]
  define idx where "idx = path_intern_find tbl p"
  show ?thesis
  proof (cases "idx < pi_cap tbl")
    case False
    have "map_option fst (is_str sl) \<noteq> Some p" if "sl \<in> set (pi_slots tbl)" for sl
    proof -
      have "length (takeWhile (\<lambda>sl. map_option fst (is_str sl) \<noteq> Some p) (pi_slots tbl)) = pi_cap tbl"
        using False length_takeWhile_le [of _ "pi_slots tbl"] unfolding idx_def path_intern_find_def by (metis le_neq_implies_less)
      then have "takeWhile (\<lambda>sl. map_option fst (is_str sl) \<noteq> Some p) (pi_slots tbl) = pi_slots tbl"
        by (metis append_Nil2 append_eq_conv_conj takeWhile_dropWhile_id)
      then show ?thesis using that unfolding takeWhile_eq_all_conv by blast
    qed
    then have "intern_map tbl s \<noteq> Some (p, r)" for s r unfolding I(7) by (auto simp: holds_def in_entries)
    then show ?thesis using False ok by (simp add: path_intern_release_def idx_def [symmetric])
  next
    case True
    have "map_option fst (is_str (pi_slots tbl ! idx)) = Some p"
      using nth_length_takeWhile [of "\<lambda>sl. map_option fst (is_str sl) \<noteq> Some p" "pi_slots tbl"] True unfolding idx_def path_intern_find_def by simp
    then obtain s where s: "is_str (pi_slots tbl ! idx) = Some (p, s)" by auto
    define r where "r = is_refs (pi_slots tbl ! idx)"
    have ms: "intern_map tbl s = Some (p, r)" unfolding r_def by (rule set_refs_ok(1) [OF ok True s, of 1]) simp_all
    have rp: "0 < r" "r < 2 ^ 32" using slot_okD [OF bspec [OF I(2) nth_mem [OF True]] s] by (simp_all add: r_def)
    have only: "t = s" if "intern_map tbl t = Some (p, r')" for t r'
    proof -
      obtain M where M: "entries (pi_slots tbl) = add_mset (pi_slots tbl ! idx) M" using entries_occ [OF True, of thesis] s by auto
      have "\<not> holds M t (p, r')" using I(6) s unfolding M unique_by_add by (auto simp: holds_def)
      then show ?thesis using that s unfolding I(7) M holds_add by simp
    qed
    have uniq: "t = s \<and> r' = r" if "intern_map tbl t = Some (p, r')" for t r' using only [OF that] that ms by simp
    let ?sl = "(pi_slots tbl ! idx) \<lparr>is_refs := r - 1\<rparr>"
    show ?thesis
    proof (cases "r = 1")
      case r1: True
      from slot_evict_result [OF ok True s, of ?sl] obtain tbl' where
        t: "slot_evict (tbl \<lparr>pi_slots := (pi_slots tbl)[idx := ?sl]\<rparr>) idx = Some tbl'" "intern_ok tbl'" "intern_map tbl' = (intern_map tbl)(s := None)" by blast
      have "path_intern_release tbl (Some p) = Some tbl'"
        unfolding path_intern_release_def option.case Let_def idx_def [symmetric] r_def [symmetric] using True rp r1 t(1) by simp
      moreover have "intern_map tbl' = (intern_map tbl)(t := if r' = 1 then None else Some (p, r' - 1))" if "intern_map tbl t = Some (p, r')" for t r'
        using uniq [OF that] t(3) r1 by simp
      ultimately show ?thesis using t(2) ms by blast
    next
      case False
      have "path_intern_release tbl (Some p) = Some (tbl \<lparr>pi_slots := (pi_slots tbl)[idx := ?sl]\<rparr>)"
        unfolding path_intern_release_def option.case Let_def idx_def [symmetric] r_def [symmetric] using True rp False by simp
      moreover note upd = set_refs_ok(2,3) [OF ok True s, of "r - 1"]
      moreover have "intern_map (tbl \<lparr>pi_slots := (pi_slots tbl)[idx := ?sl]\<rparr>) = (intern_map tbl)(t := if r' = 1 then None else Some (p, r' - 1))"
        if "intern_map tbl t = Some (p, r')" for t r' using uniq [OF that] upd(2) rp False by simp
      moreover have "0 < r - 1" "r - 1 < 2 ^ 32" using rp False by simp_all
      ultimately show ?thesis using ms by blast
    qed
  qed
qed

section \<open>The interner as a table of counted strings\<close>

lemma path_intern_new_ok: "intern_ok \<lparr>pi_slots = [], pi_n = 0\<rparr>" "intern_map \<lparr>pi_slots = [], pi_n = 0\<rparr> = Map.empty"
  by (simp_all add: intern_ok_def chained_def unique_by_def intern_map_def)

lemma path_intern_reset_ok: "intern_ok tbl \<Longrightarrow> intern_ok (path_intern_reset tbl) \<and> intern_map (path_intern_reset tbl) = Map.empty"
proof -
  assume ok: "intern_ok tbl"
  have "\<forall>sl \<in> set (replicate (pi_cap tbl) empty_slot). slot_ok sl" by (simp add: slot_ok_def empty_slot_def)
  moreover have "filter (\<lambda>sl. is_str sl \<noteq> None) (replicate (pi_cap tbl) empty_slot) = []" by (simp add: empty_slot_def)
  ultimately show ?thesis using ok by (auto simp: path_intern_reset_def intern_ok_def intern_map_def unique_by_def)
qed

text \<open>C21. The interner implements a table of strings with one address and one reference count each. Acquiring returns the
  address a string already has and counts the reference, or enters the string with one reference at the address of the copy, or
  fails and changes nothing; releasing takes one reference away and drops the string with the last one, leaving every other
  string where it can be found. Both end, and both keep the table well formed.\<close>

theorem path_intern_refines:
  assumes "intern_ok tbl" and "alloc_bounded calloc_ok"
    and "\<forall>p. dup = Some p \<longrightarrow> (\<forall>t r. intern_map tbl t \<noteq> Some (p, r))" and "\<forall>p r. intern_map tbl s = Some (p, r) \<longrightarrow> r + 1 < 2 ^ 32"
  shows "(\<exists>res tbl'. path_intern_acquire calloc_ok dup tbl (Some s) = Some (res, tbl') \<and> intern_ok tbl' \<and>
      acquired dup s (intern_map tbl) res (intern_map tbl')) \<and>
    (\<exists>tbl'. path_intern_release tbl (Some p) = Some tbl' \<and> intern_ok tbl' \<and>
      (\<forall>s r. intern_map tbl s = Some (p, r) \<longrightarrow> intern_map tbl' = (intern_map tbl)(s := if r = 1 then None else Some (p, r - 1))) \<and>
      ((\<forall>s r. intern_map tbl s \<noteq> Some (p, r)) \<longrightarrow> tbl' = tbl))"
  using path_intern_acquire_result [OF assms(1,2), of dup s] path_intern_release_result [OF assms(1), of p] assms(3,4) by blast

definition intern_example :: path_intern where
  "intern_example = \<lparr>pi_slots = (replicate 16 empty_slot)[12 := \<lparr>is_hash = str_hash ''a'', is_str = Some (7, ''a''), is_refs = 1\<rparr>], pi_n = 1\<rparr>"

lemma intern_example_ok: "intern_ok intern_example" "intern_map intern_example = [''a'' \<mapsto> (7, 1)]"
proof -
  define sl where "sl = \<lparr>is_hash = str_hash ''a'', is_str = Some (7 :: nat, ''a''), is_refs = 1\<rparr>"
  let ?s = "(replicate 16 empty_slot)[12 := sl]"
  have h: "unat (is_hash sl) mod 16 = 12"
    by (simp add: sl_def str_hash_def hash_fnv1a_str_def hash_fnv1a_init_def HASH_FNV_OFFSET_BASIS_def HASH_FNV_PRIME_def)
  have str: "is_str sl = Some (7, ''a'')" "is_refs sl = 1" by (simp_all add: sl_def)
  have "chained ?s"
    by (rule chained_place [OF chained_replicate]) (use h str in \<open>auto simp: empty_slot_def\<close>)
  moreover have e: "entries ?s = {#sl#}"
    unfolding entries_update [of 12 "replicate 16 empty_slot" sl, simplified] using str by (simp add: empty_slot_def)
  moreover have "\<forall>x \<in> set ?s. slot_ok x"
    using set_update_subset_insert [of "replicate 16 empty_slot" 12 sl] str by (auto simp: slot_ok_def sl_def empty_slot_def)
  moreover have "\<exists>m. 4 \<le> m \<and> m \<le> 63 \<and> length ?s = 2 ^ m" by (intro exI [of _ 4]) simp
  ultimately show ok: "intern_ok intern_example"
    unfolding intern_ok_def intern_example_def sl_def [symmetric] by (simp add: unique_by_def)
  have "entries (pi_slots intern_example) = {#sl#}" using e by (simp add: intern_example_def sl_def)
  then show "intern_map intern_example = [''a'' \<mapsto> (7, 1)]"
    by (intro map_eq_by_some) (use str in \<open>auto simp: intern_okD(7) [OF ok] holds_def\<close>)
qed

theorem path_intern_refines_witness:
  "(\<exists>res tbl'. path_intern_acquire (\<lambda>c. c \<le> 64) (Some 9) intern_example (Some ''a'') = Some (res, tbl') \<and> intern_ok tbl' \<and>
      acquired (Some 9) ''a'' [''a'' \<mapsto> (7, 1)] res (intern_map tbl')) \<and>
    (\<exists>tbl'. path_intern_release intern_example (Some 7) = Some tbl' \<and> intern_map tbl' = Map.empty)"
proof -
  have m: "intern_map intern_example t \<noteq> Some (9, r)" "intern_map intern_example ''a'' = Some (7, 1)" for t r
    by (simp_all add: intern_example_ok(2) fun_upd_def)
  have one: "r + 1 < 2 ^ 32" if "intern_map intern_example ''a'' = Some (p, r)" for p r using that m(2) by simp
  have "alloc_bounded (\<lambda>c. c \<le> 64)" by (simp add: alloc_bounded_def)
  note R = path_intern_refines [OF intern_example_ok(1) this, of "Some 9" "''a''" 7]
  have "\<exists>tbl'. path_intern_release intern_example (Some 7) = Some tbl' \<and> intern_map tbl' = (intern_map intern_example)(''a'' := None)"
    using R m one by fastforce
  then show ?thesis using R m one unfolding intern_example_ok(2) by simp
qed

end
