(* ===== verification/Dispatch.thy ===== *)
theory Dispatch
  imports Plan_Builder Coalesce_Correct Group_Chunks Path_Intern
begin

text \<open>
  From a prepared plan to the work of an executor, src/src/executor/dispatch.c: the sample and chunk plans of a batch are
  written, every chunk gets an aligned read, and the reads are fused and the chunks grouped by read. The path interner is part
  of the state; the addresses of the plan's path strings, which the code compares, are a parameter.
\<close>

section \<open>Scratch memory\<close>

record dispatch_scratch =
  ds_indices :: "nat list option"
  ds_reads :: "read_op list option"
  ds_chunks :: "chunk_plan list option"
  ds_capacity :: nat

definition dispatch_scratch_destroy :: "dispatch_scratch \<Rightarrow> dispatch_scratch" where
  "dispatch_scratch_destroy scratch = \<lparr>ds_indices = None, ds_reads = None, ds_chunks = None, ds_capacity = 0\<rparr>"

definition chunk_plan0 :: chunk_plan where
  "chunk_plan0 = \<lparr>cp_read_op_idx = 0, cp_offset_in_read = 0, cp_compressed_nbytes = 0, cp_decompressed_nbytes = 0, cp_host_buf_offset = 0,
     cp_dev_decompressed_offset = 0, cp_gather_offset = 0, cp_batch_pool_slot = 0, cp_sample_idx_in_batch = 0, cp_codec_id = CODEC_NONE,
     cp_is_fill = False, cp_chunk_d = replicate DAMACY_MAX_RANK 0\<rparr>"

text \<open>The three flags are the outcomes of the three \<open>calloc\<close> calls.\<close>

definition scratch_reserve :: "bool \<Rightarrow> bool \<Rightarrow> bool \<Rightarrow> dispatch_scratch \<Rightarrow> nat \<Rightarrow> damacy_status \<times> dispatch_scratch" where
  "scratch_reserve indices_ok reads_ok chunks_ok scratch n =
     (if ds_capacity scratch \<ge> n then (DAMACY_OK, scratch)
      else if \<not> indices_ok \<or> \<not> reads_ok \<or> \<not> chunks_ok then (DAMACY_OOM, dispatch_scratch_destroy scratch)
      else (DAMACY_OK, \<lparr>ds_indices = Some (replicate (n * 4 + 1) 0), ds_reads = Some (replicate n read_op0),
                        ds_chunks = Some (replicate n chunk_plan0), ds_capacity = n\<rparr>))"

section \<open>Capacities\<close>

definition DAMACY_MAX_CHUNKS_PER_BATCH :: nat where "DAMACY_MAX_CHUNKS_PER_BATCH = 16384"
definition sizeof_gather_index :: nat where "sizeof_gather_index = 8"
definition sizeof_gather_dim :: nat where "sizeof_gather_dim = 16"

text \<open>The loop over the extents; the error is the value the function returns with.\<close>

definition add_extent :: "int \<Rightarrow> nat \<Rightarrow> nat + nat" where
  "add_extent shape n =
     (if shape \<le> 0 then Inl 0
      else
        let extent = u64_of_int shape
        in if extent > UINT64_MAX - n then Inl UINT64_MAX else Inr (u64_add n extent))"

definition dispatch_max_indices :: "damacy_config \<Rightarrow> nat" where
  "dispatch_max_indices config =
     (if cfg_samples_per_batch config = 0 \<or> cfg_sample_rank config = 0 \<or> cfg_sample_rank config > DAMACY_MAX_RANK then 0
      else
        (case loop_res add_extent (take (cfg_sample_rank config) (cfg_sample_shape config)) 0 of
           Inl result \<Rightarrow> result
         | Inr n \<Rightarrow>
             if n > UINT64_MAX div cfg_samples_per_batch config then UINT64_MAX
             else u64_mul n (cfg_samples_per_batch config)))"

definition dispatch_index_capacity :: "damacy_config \<Rightarrow> nat" where
  "dispatch_index_capacity config =
     (let capacity = dispatch_max_indices config
      in if capacity = 0 then 0
         else
           let limit = tu_max_index_bytes (cfg_tuning config) div sizeof_gather_index;
               capacity = (if capacity > limit then limit else capacity)
           in if capacity > UINT32_MAX then UINT32_MAX else capacity mod 2 ^ 32)"

definition dispatch_gather_dim_capacity :: "damacy_config \<Rightarrow> nat" where
  "dispatch_gather_dim_capacity config =
     (if dispatch_index_capacity config \<noteq> 0 then u32_mul DAMACY_MAX_CHUNKS_PER_BATCH (cfg_sample_rank config) else 0)"

definition dispatch_index_storage_bytes :: "damacy_config \<Rightarrow> nat" where
  "dispatch_index_storage_bytes config =
     u64_add (u64_mul (dispatch_index_capacity config) sizeof_gather_index)
             (u64_mul (dispatch_gather_dim_capacity config) sizeof_gather_dim)"

section \<open>Sample plans\<close>

text \<open>\<open>strides\<close>, with \<open>strides[rank] = 1\<close>.\<close>

definition plan_strides :: "damacy_batch_spec \<Rightarrow> int list" where
  "plan_strides out_spec = foldr (\<lambda>extent strides. (hd strides * extent) # strides) (take (spec_sample_rank out_spec) (spec_sample_shape out_spec)) [1]"

definition sample_dim0 :: sample_dim where
  "sample_dim0 = \<lparr>sd_chunk_shape = 0, sd_chunk_grid_extent = 0, sd_index_offset = 0, sd_index_count = 0, sd_aabb_lo_relative = 0,
     sd_aabb_extent = 0, sd_dst_stride = 0, sd_src_stride = 0\<rparr>"

text \<open>One turn of the loop over the dimensions of a region, from the last one to the first.\<close>

definition region_dim ::
    "damacy_batch_spec \<Rightarrow> int list \<Rightarrow> zarr_metadata \<Rightarrow> plan_region \<Rightarrow> nat \<Rightarrow> dispatch_output \<times> int \<Rightarrow>
     (damacy_status \<times> dispatch_output) + dispatch_output \<times> int" where
  "region_dim out_spec strides meta region d = (\<lambda>(out, source_stride).
     let chunk = zm_inner_chunk_shape meta ! d;
         bounds = aabb_dims (pr_source region) ! d;
         begin = u64_of_int (iv_beg bounds) div chunk;
         end' = u64_add (u64_sub (u64_of_int (iv_end bounds)) 1 div chunk) 1;
         axis = pr_axes region ! d
     in if qa_count axis > u32_sub (do_indices_cap out) (do_n_indices out) then Inl (DAMACY_BUDGET, out)
        else if qa_count axis \<noteq> 0 \<and> do_indices out = None then Inl (DAMACY_INVAL, out)
        else
          let index_offset = do_n_indices out;
              out = fold (\<lambda>j out.
                      let ix = qa_indices axis ! j
                      in out \<lparr>do_indices := map_option (\<lambda>is. is[do_n_indices out := \<lparr>gi_source = (u64_of_int (qi_source ix) mod chunk) mod 2 ^ 32,
                                                                               gi_output = qi_output ix\<rparr>]) (do_indices out),
                              do_n_indices := do_n_indices out + 1\<rparr>) [0 ..< qa_count axis] out;
              k = pr_sample region;
              sample = do_sample_plans out ! k;
              dim = \<lparr>sd_chunk_shape = chunk mod 2 ^ 32,
                     sd_chunk_grid_extent = (if qa_count axis \<noteq> 0 then 0 else u64_sub end' begin mod 2 ^ 32),
                     sd_index_offset = index_offset, sd_index_count = qa_count axis,
                     sd_aabb_lo_relative = iv_beg bounds - int (u64_mul begin chunk),
                     sd_aabb_extent = spec_sample_shape out_spec ! d,
                     sd_dst_stride = strides ! (d + 1), sd_src_stride = source_stride\<rparr>
          in Inr (out \<lparr>do_sample_plans := (do_sample_plans out)[k := sample \<lparr>sp_dims := (sp_dims sample)[d := dim]\<rparr>]\<rparr>,
                  source_stride * int chunk))"

definition dispatch_region ::
    "prepared_plan \<Rightarrow> nat \<Rightarrow> int list \<Rightarrow> plan_region \<Rightarrow> dispatch_output \<Rightarrow> (damacy_status \<times> dispatch_output) + dispatch_output" where
  "dispatch_region plan slot strides region out =
     (let meta = pa_metadata (pp_arrays plan ! pr_array region);
          sample = \<lparr>sp_batch_pool_slot = slot, sp_sample_idx_in_batch = pr_sample region mod 2 ^ 16, sp_rank = zm_rank meta,
                    sp_src_dtype = zm_dtype meta, sp_indexed = (pr_operation region = PLAN_GATHER),
                    sp_dims = replicate DAMACY_MAX_RANK sample_dim0,
                    sp_sample_dst_off_elems = int (pr_sample region) * strides ! 0, sp_fill_value = zm_fill_value meta\<rparr>;
          out = out \<lparr>do_sample_plans := (do_sample_plans out)[pr_sample region := sample]\<rparr>
      in map_sum id fst (loop_res (region_dim (pp_output plan) strides meta region) (rev [0 ..< zm_rank meta]) (out, 1)))"

section \<open>Chunk plans and reads\<close>

text \<open>Where a chunk lies in its sample, without an index array, or the part of each index array it serves.\<close>

definition chunk_dim ::
    "zarr_metadata \<Rightarrow> plan_region \<Rightarrow> plan_chunk \<Rightarrow> sample_plan \<Rightarrow> nat \<Rightarrow> nat \<Rightarrow> chunk_plan \<times> gather_dim list \<Rightarrow> chunk_plan \<times> gather_dim list" where
  "chunk_dim meta region chunk sample gather_offset d = (\<lambda>(cp, dims).
     let inner = zm_inner_chunk_shape meta ! d; bounds = aabb_dims (pr_source region) ! d
     in if \<not> sp_indexed sample
        then (cp \<lparr>cp_chunk_d := (cp_chunk_d cp)[d := u64_sub (pc_coordinate chunk ! d) (u64_of_int (iv_beg bounds) div inner) mod 2 ^ 32]\<rparr>, dims)
        else
          let origin = u64_mul (pc_coordinate chunk ! d) inner;
              axis = pr_axes region ! d;
              span = query_chunk_span axis bounds origin inner
          in (cp, dims[gather_offset + d :=
                \<lparr>gd_begin = (if qa_count axis \<noteq> 0 then u32_add (sd_index_offset (sp_dims sample ! d)) (span_begin span mod 2 ^ 32)
                             else u64_sub (span_begin span) origin mod 2 ^ 32),
                 gd_count = span_count span mod 2 ^ 32,
                 gd_output_begin = (if qa_count axis \<noteq> 0 then 0 else u64_sub (span_begin span) (u64_of_int (iv_beg bounds)))\<rparr>]))"

text \<open>The aligned window of a chunk: its start and its length, or \<open>None\<close> when it is too large.\<close>

definition aligned_window :: "nat \<Rightarrow> plan_chunk \<Rightarrow> (nat \<times> nat) option" where
  "aligned_window alignment chunk =
     (let start = pc_offset chunk div alignment * alignment;
          end' = u64_add (pc_offset chunk) (pc_encoded_bytes chunk)
      in if end' > UINT64_MAX - alignment + 1 then None
         else
           let end' = (end' + alignment - 1) div alignment * alignment
           in if end' - start > UINT32_MAX then None else Some (start, end' - start))"

text \<open>What the loop over the uses carries: the output, the interner, the address of the last path seen and its interned copy.\<close>

record use_state =
  us_out :: dispatch_output
  us_paths :: path_intern
  us_source :: "nat option"
  us_path :: "(nat \<times> string) option"

text \<open>The read of a chunk that is stored. An error is the status with the state, or \<open>None\<close> for a loop that does not end.\<close>

definition chunk_read ::
    "(nat \<Rightarrow> bool) \<Rightarrow> nat option \<Rightarrow> (nat \<Rightarrow> nat) \<Rightarrow> nat \<Rightarrow> nat \<Rightarrow> nat \<Rightarrow> plan_chunk \<Rightarrow> use_state \<Rightarrow>
     (damacy_status \<times> use_state) option + use_state" where
  "chunk_read calloc_ok dup addr alignment i k chunk st =
     (case aligned_window alignment chunk of
        None \<Rightarrow> Inl (Some (DAMACY_DECODE, st))
      | Some (start, nbytes) \<Rightarrow>
          (case (if us_source st \<noteq> Some (addr k)
                 then map_option (\<lambda>(path, paths). st \<lparr>us_source := Some (addr k), us_path := path, us_paths := paths\<rparr>)
                        (path_intern_acquire calloc_ok dup (us_paths st) (pc_path chunk))
                 else Some st) of
             None \<Rightarrow> Inl None
           | Some st \<Rightarrow>
               (case us_path st of
                  None \<Rightarrow> Inl (Some (DAMACY_OOM, st))
                | Some (p, path) \<Rightarrow>
                    let out = us_out st; cps = the (do_chunk_plans out)
                    in Inr (st \<lparr>us_out := out \<lparr>
                         do_read_ops := map_option (\<lambda>rs. rs[i := \<lparr>ro_shard_path = Some path, ro_file_offset = start, ro_host_buf_offset = 0, ro_nbytes = nbytes\<rparr>]) (do_read_ops out),
                         do_chunk_plans := Some (cps[i := (cps ! i) \<lparr>cp_offset_in_read := u64_sub (pc_offset chunk) start mod 2 ^ 32\<rparr>])\<rparr>\<rparr>))))"

definition dispatch_use ::
    "prepared_plan \<Rightarrow> nat \<Rightarrow> nat \<Rightarrow> (nat \<Rightarrow> bool) \<Rightarrow> (nat \<Rightarrow> nat option) \<Rightarrow> (nat \<Rightarrow> nat) \<Rightarrow> nat \<Rightarrow> use_state \<Rightarrow>
     (damacy_status \<times> use_state) option + use_state" where
  "dispatch_use plan slot alignment calloc_ok dup addr i st =
     (let use = pp_uses plan ! i; chunk = pp_chunks plan ! pu_chunk use; region = pp_regions plan ! pu_region use;
          meta = pa_metadata (pp_arrays plan ! pc_array chunk);
          out = us_out st;
          out = out \<lparr>do_read_ops := map_option (\<lambda>rs. rs[i := read_op0]) (do_read_ops out)\<rparr>;
          cp = chunk_plan0 \<lparr>cp_read_op_idx := i, cp_compressed_nbytes := pc_encoded_bytes chunk, cp_decompressed_nbytes := pc_decoded_bytes chunk,
                 cp_batch_pool_slot := slot, cp_sample_idx_in_batch := pr_sample region mod 2 ^ 16,
                 cp_codec_id := (if pc_missing chunk then CODEC_FILL else zm_inner_codec meta), cp_is_fill := pc_missing chunk\<rparr>;
          sample = do_sample_plans out ! pr_sample region
      in if sp_indexed sample \<and> zm_rank meta > u32_sub (do_gather_dims_cap out) (do_n_gather_dims out)
         then Inl (Some (DAMACY_BUDGET, st \<lparr>us_out := out \<lparr>do_chunk_plans := map_option (\<lambda>cps. cps[i := cp]) (do_chunk_plans out)\<rparr>\<rparr>))
         else
           let cp = (if sp_indexed sample then cp \<lparr>cp_gather_offset := do_n_gather_dims out\<rparr> else cp);
               out = (if sp_indexed sample then out \<lparr>do_n_gather_dims := u32_add (do_n_gather_dims out) (zm_rank meta)\<rparr> else out);
               (cp, dims) = fold (chunk_dim meta region chunk sample (cp_gather_offset cp)) [0 ..< zm_rank meta] (cp, do_gather_dims out);
               st = st \<lparr>us_out := out \<lparr>do_gather_dims := dims, do_chunk_plans := map_option (\<lambda>cps. cps[i := cp]) (do_chunk_plans out)\<rparr>\<rparr>
           in if pc_missing chunk then Inr st else chunk_read calloc_ok (dup i) addr alignment i (pu_chunk use) chunk st)"

section \<open>Building the dispatch\<close>

text \<open>\<open>None\<close> is a loop that does not end. The scratch memory is overwritten before it is read, so its contents are left out.\<close>

definition dispatch_finish ::
    "bool \<Rightarrow> bool \<Rightarrow> bool \<Rightarrow> nat \<Rightarrow> nat \<Rightarrow> nat \<Rightarrow> dispatch_output \<Rightarrow> dispatch_scratch \<Rightarrow> (damacy_status \<times> dispatch_output \<times> dispatch_scratch) option" where
  "dispatch_finish indices_ok reads_ok chunks_ok n_uses max_read_bytes max_chunks_per_wave out scratch =
     (let out = out \<lparr>do_n_chunk_plans := n_uses, do_n_read_ops := n_uses\<rparr>;
          (status, scratch) = scratch_reserve indices_ok reads_ok chunks_ok scratch n_uses
      in if status \<noteq> DAMACY_OK then Some (status, out, scratch)
         else
           (case coalesce_chunks out max_read_bytes max_chunks_per_wave (ds_indices scratch) (ds_reads scratch \<noteq> None) of
              None \<Rightarrow> None
            | Some (status, out) \<Rightarrow>
                if status \<noteq> DAMACY_OK then Some (status, out, scratch)
                else
                  let (status, out) = group_chunks_by_read out (ds_indices scratch \<noteq> None) (ds_chunks scratch)
                  in Some (status, out, scratch)))"

definition dispatch_plan_build ::
    "prepared_plan \<Rightarrow> nat \<Rightarrow> nat \<Rightarrow> nat \<Rightarrow> nat \<Rightarrow> (nat \<Rightarrow> bool) \<Rightarrow> (nat \<Rightarrow> nat option) \<Rightarrow> (nat \<Rightarrow> nat) \<Rightarrow> bool \<Rightarrow> bool \<Rightarrow> bool \<Rightarrow>
     dispatch_output \<Rightarrow> path_intern \<Rightarrow> dispatch_scratch \<Rightarrow> (damacy_status \<times> dispatch_output \<times> path_intern \<times> dispatch_scratch) option" where
  "dispatch_plan_build plan slot alignment max_read_bytes max_chunks_per_wave calloc_ok dup addr indices_ok reads_ok chunks_ok out paths scratch =
     (if alignment = 0 \<or> max_chunks_per_wave = 0 then Some (DAMACY_INVAL, out, paths, scratch)
      else if pp_n_uses plan > do_chunk_plans_cap out \<or> pp_n_uses plan > do_read_ops_cap out \<or> pp_n_regions plan > do_sample_plans_cap out
      then Some (DAMACY_BUDGET, out, paths, scratch)
      else
        let paths = path_intern_reset paths;
            out = out \<lparr>do_n_chunk_plans := 0, do_n_read_ops := 0, do_n_read_op_groups := 0, do_n_sample_plans := pp_n_regions plan,
                       do_n_indices := 0, do_n_gather_dims := 0\<rparr>;
            strides = plan_strides (pp_output plan)
        in case loop_res (dispatch_region plan slot strides) (take (pp_n_regions plan) (pp_regions plan)) out of
             Inl (status, out) \<Rightarrow> Some (status, out, paths, scratch)
           | Inr out \<Rightarrow>
               (case loop_res (dispatch_use plan slot alignment calloc_ok dup addr) [0 ..< pp_n_uses plan]
                       \<lparr>us_out = out, us_paths = paths, us_source = None, us_path = None\<rparr> of
                  Inl None \<Rightarrow> None
                | Inl (Some (status, st)) \<Rightarrow> Some (status, us_out st, us_paths st, scratch)
                | Inr st \<Rightarrow>
                    map_option (\<lambda>(status, out, scratch). (status, out, us_paths st, scratch))
                      (dispatch_finish indices_ok reads_ok chunks_ok (pp_n_uses plan) max_read_bytes max_chunks_per_wave (us_out st) scratch)))"

end
