(* ===== verification/Dispatch_Correct.thy ===== *)
theory Dispatch_Correct
  imports Dispatch
begin

text \<open>
  Correctness of dispatch\_plan\_build (src/src/executor/dispatch.c): it always returns, and when it succeeds every use of a
  chunk has a chunk plan whose bytes lie inside an aligned read of the chunk's shard, also after reads have been fused and
  chunk plans grouped.
\<close>

section \<open>Well-formed inputs\<close>

definition chunk_ok :: "plan_chunk \<Rightarrow> bool" where
  "chunk_ok c \<longleftrightarrow> pc_encoded_bytes c < 2 ^ 32 \<and> pc_decoded_bytes c < 2 ^ 32 \<and> pc_offset c + pc_encoded_bytes c < 2 ^ 64 \<and>
     (\<not> pc_missing c \<longrightarrow> pc_path c \<noteq> None)"

definition dispatchable :: "prepared_plan \<Rightarrow> bool" where
  "dispatchable plan \<longleftrightarrow> pp_n_uses plan = length (pp_uses plan) \<and> pp_n_regions plan = length (pp_regions plan) \<and> pp_n_uses plan < 2 ^ 31 \<and>
     (\<forall>u \<in> set (pp_uses plan). pu_chunk u < length (pp_chunks plan)) \<and> (\<forall>c \<in> set (pp_chunks plan). chunk_ok c)"

text \<open>Strings at one address are one string.\<close>

definition addresses_ok :: "prepared_plan \<Rightarrow> (nat \<Rightarrow> nat) \<Rightarrow> bool" where
  "addresses_ok plan addr \<longleftrightarrow> (\<forall>j < length (pp_chunks plan). \<forall>k < length (pp_chunks plan). addr j = addr k \<longrightarrow>
     \<not> pc_missing (pp_chunks plan ! j) \<longrightarrow> \<not> pc_missing (pp_chunks plan ! k) \<longrightarrow> pc_path (pp_chunks plan ! j) = pc_path (pp_chunks plan ! k))"

text \<open>The copies that \<open>strdup\<close> makes have addresses of their own.\<close>

definition copies_ok :: "(nat \<Rightarrow> nat option) \<Rightarrow> bool" where
  "copies_ok dup \<longleftrightarrow> (\<forall>i j p. dup i = Some p \<and> dup j = Some p \<longrightarrow> i = j)"

definition scratch_ok :: "dispatch_scratch \<Rightarrow> bool" where
  "scratch_ok scratch \<longleftrightarrow> ds_capacity scratch = 0 \<or>
     (\<exists>us rs cs. ds_indices scratch = Some us \<and> 4 * ds_capacity scratch \<le> length us \<and> ds_reads scratch = Some rs \<and>
        ds_chunks scratch = Some cs \<and> ds_capacity scratch \<le> length cs)"

definition outputs_ok :: "dispatch_output \<Rightarrow> bool" where
  "outputs_ok out \<longleftrightarrow> (\<exists>reads cps groups. do_read_ops out = Some reads \<and> length reads = do_read_ops_cap out \<and>
     do_chunk_plans out = Some cps \<and> length cps = do_chunk_plans_cap out \<and> do_read_op_groups out = Some groups \<and>
     do_read_ops_cap out \<le> do_read_op_groups_cap out)"

section \<open>Aligned windows\<close>

lemma round_up:
  assumes "0 < (a :: nat)"
  shows "e \<le> (e + a - 1) div a * a" and "(e + a - 1) div a * a \<le> e + a - 1" and "a dvd (e + a - 1) div a * a"
proof -
  have "e + a - 1 = (e + a - 1) div a * a + (e + a - 1) mod a" by simp
  moreover have "(e + a - 1) mod a < a" using assms by simp
  ultimately show "e \<le> (e + a - 1) div a * a" by linarith
qed simp_all

lemma aligned_window_result:
  assumes w: "aligned_window alignment chunk = Some (start, nbytes)" and a: "0 < alignment" "alignment < 2 ^ 64" and ok: "chunk_ok chunk"
  shows "start \<le> pc_offset chunk" "pc_offset chunk + pc_encoded_bytes chunk \<le> start + nbytes" "nbytes < 2 ^ 32" "start + nbytes < 2 ^ 64"
    "alignment dvd start" "alignment dvd nbytes"
proof -
  let ?e = "pc_offset chunk + pc_encoded_bytes chunk" and ?s = "pc_offset chunk div alignment * alignment"
  have e: "u64_add (pc_offset chunk) (pc_encoded_bytes chunk) = ?e" using ok by (intro u64_add_exact) (simp add: chunk_ok_def)
  define E where "E = (?e + alignment - 1) div alignment * alignment"
  note r = round_up [OF a(1), of ?e, folded E_def]
  from w have g: "\<not> ?e > UINT64_MAX - alignment + 1" "E - ?s \<le> UINT32_MAX" "start = ?s" "nbytes = E - ?s"
    unfolding aligned_window_def Let_def e E_def [symmetric] by (auto split: if_splits)
  have s: "?s \<le> pc_offset chunk" by simp
  then have le: "?s \<le> E" using r(1) by linarith
  show "start \<le> pc_offset chunk" using s g(3) by simp
  show "?e \<le> start + nbytes" using r(1) le g(3,4) by simp
  show "nbytes < 2 ^ 32" using g(2,4) by simp
  show "alignment dvd start" using g(3) by simp
  show "alignment dvd nbytes" unfolding g(4) by (rule dvd_diff_nat [OF r(3)]) simp
  show "start + nbytes < 2 ^ 64"
  proof -
    have "?e + alignment - 1 < 2 ^ 64" using g(1) a by simp
    then show ?thesis using r(2) le g(3,4) by simp
  qed
qed

section \<open>One use\<close>

text \<open>What is written for a use: the read starts the chunk plan off with the bytes of the chunk.\<close>

definition use_done :: "prepared_plan \<Rightarrow> nat \<Rightarrow> nat \<Rightarrow> read_op \<Rightarrow> chunk_plan \<Rightarrow> bool" where
  "use_done plan alignment i r cp \<longleftrightarrow>
     (let chunk = pp_chunks plan ! pu_chunk (pp_uses plan ! i); region = pp_regions plan ! pu_region (pp_uses plan ! i)
      in cp_read_op_idx cp = i \<and> cp_is_fill cp = pc_missing chunk \<and> cp_compressed_nbytes cp = pc_encoded_bytes chunk \<and>
         cp_decompressed_nbytes cp = pc_decoded_bytes chunk \<and> cp_sample_idx_in_batch cp = pr_sample region mod 2 ^ 16 \<and> op_ok r \<and> (pc_missing chunk \<longrightarrow> r = read_op0) \<and>
         (\<not> pc_missing chunk \<longrightarrow> ro_shard_path r = pc_path chunk \<and> ro_file_offset r + cp_offset_in_read cp = pc_offset chunk \<and>
            cp_offset_in_read cp + cp_compressed_nbytes cp \<le> ro_nbytes r \<and> alignment dvd ro_file_offset r \<and> alignment dvd ro_nbytes r))"

text \<open>The entries of an interner filled by the first \<open>i\<close> uses.\<close>

definition copies_of :: "(nat \<Rightarrow> nat option) \<Rightarrow> nat \<Rightarrow> (string \<rightharpoonup> nat \<times> nat) \<Rightarrow> bool" where
  "copies_of dup i m \<longleftrightarrow> (\<forall>s p r. m s = Some (p, r) \<longrightarrow> r \<le> i \<and> (\<exists>j < i. dup j = Some p))"

lemma copies_of_Suc: "copies_of dup i m \<Longrightarrow> copies_of dup (Suc i) m"
  unfolding copies_of_def by (metis le_SucI less_SucI)

lemma acquired_copies:
  assumes "copies_of dup i m" and "acquired (dup i) s m res m'"
  shows "copies_of dup (Suc i) m'"
proof (cases res)
  case None
  then show ?thesis using assms copies_of_Suc by (simp add: acquired_def)
next
  case (Some q)
  obtain p t where q: "q = (p, t)" by (cases q)
  show ?thesis
  proof (cases "m s")
    case None
    then have "m' = m(s \<mapsto> (p, 1))" "dup i = Some p" using assms(2) Some q by (simp_all add: acquired_def)
    then show ?thesis using copies_of_Suc [OF assms(1)] by (auto simp: copies_of_def)
  next
    case (Some pr)
    obtain p' r where pr: "pr = (p', r)" by (cases pr)
    have m': "m' = m(s \<mapsto> (p', r + 1))" using assms(2) \<open>res = Some q\<close> q Some pr by (auto simp: acquired_def)
    have "r \<le> i" "\<exists>j < i. dup j = Some p'" using assms(1) Some pr by (auto simp: copies_of_def)
    then show ?thesis using copies_of_Suc [OF assms(1)] unfolding m' by (auto simp: copies_of_def less_Suc_eq)
  qed
qed

definition path_state_ok :: "prepared_plan \<Rightarrow> (nat \<Rightarrow> nat option) \<Rightarrow> (nat \<Rightarrow> nat) \<Rightarrow> nat \<Rightarrow> use_state \<Rightarrow> bool" where
  "path_state_ok plan dup addr i st \<longleftrightarrow> intern_ok (us_paths st) \<and> copies_of dup i (intern_map (us_paths st)) \<and>
     (\<forall>a. us_source st = Some a \<longrightarrow> (\<exists>p path. us_path st = Some (p, path) \<and>
        (\<forall>k < length (pp_chunks plan). addr k = a \<longrightarrow> \<not> pc_missing (pp_chunks plan ! k) \<longrightarrow> pc_path (pp_chunks plan ! k) = Some path)))"

lemma path_state_next: "path_state_ok plan dup addr i st \<Longrightarrow> us_paths st' = us_paths st \<Longrightarrow> us_source st' = us_source st \<Longrightarrow> us_path st' = us_path st \<Longrightarrow>
    path_state_ok plan dup addr (Suc i) st'"
  unfolding path_state_ok_def using copies_of_Suc by metis

lemma acquire_step:
  assumes ok: "path_state_ok plan dup addr i st" and "i < 2 ^ 31" and "alloc_bounded calloc_ok" and dup: "copies_ok dup"
  shows "\<exists>res paths. path_intern_acquire calloc_ok (dup i) (us_paths st) (Some s) = Some (res, paths) \<and> intern_ok paths \<and>
    copies_of dup (Suc i) (intern_map paths) \<and> (\<forall>p t. res = Some (p, t) \<longrightarrow> t = s)"
proof -
  have iok: "intern_ok (us_paths st)" and cop: "copies_of dup i (intern_map (us_paths st))" using ok by (auto simp: path_state_ok_def)
  have fresh: "intern_map (us_paths st) t \<noteq> Some (p, r)" if "dup i = Some p" for p t r
    using cop that dup unfolding copies_ok_def copies_of_def by (metis less_irrefl)
  have refs: "r + 1 < 2 ^ 32" if "intern_map (us_paths st) s = Some (p, r)" for p r
  proof -
    have "r \<le> i" using cop that by (auto simp: copies_of_def)
    then show ?thesis using assms(2) by simp
  qed
  have "\<exists>res paths. path_intern_acquire calloc_ok (dup i) (us_paths st) (Some s) = Some (res, paths) \<and> intern_ok paths \<and>
      acquired (dup i) s (intern_map (us_paths st)) res (intern_map paths)"
    by (rule path_intern_acquire_result [OF iok assms(3)]) (fact fresh refs)+
  then obtain res paths where a: "path_intern_acquire calloc_ok (dup i) (us_paths st) (Some s) = Some (res, paths)" "intern_ok paths"
    "acquired (dup i) s (intern_map (us_paths st)) res (intern_map paths)" by (elim exE conjE)
  moreover have "t = s" if "res = Some (p, t)" for p t using a(3) that by (simp add: acquired_def)
  ultimately show ?thesis using acquired_copies [OF cop a(3)] by blast
qed

text \<open>The fields that reading a plan leaves alone.\<close>

definition out_frame :: "dispatch_output \<Rightarrow> dispatch_output \<Rightarrow> bool" where
  "out_frame out out' \<longleftrightarrow> do_read_ops_cap out' = do_read_ops_cap out \<and> do_chunk_plans_cap out' = do_chunk_plans_cap out \<and>
     do_read_op_groups out' = do_read_op_groups out \<and> do_read_op_groups_cap out' = do_read_op_groups_cap out"

definition uses_ok :: "prepared_plan \<Rightarrow> nat \<Rightarrow> (nat \<Rightarrow> nat option) \<Rightarrow> (nat \<Rightarrow> nat) \<Rightarrow> dispatch_output \<Rightarrow> nat \<Rightarrow> use_state \<Rightarrow> bool" where
  "uses_ok plan alignment dup addr out0 i st \<longleftrightarrow> path_state_ok plan dup addr i st \<and> out_frame out0 (us_out st) \<and>
     (\<exists>reads cps. do_read_ops (us_out st) = Some reads \<and> do_chunk_plans (us_out st) = Some cps \<and>
        length reads = do_read_ops_cap out0 \<and> length cps = do_chunk_plans_cap out0 \<and>
        (\<forall>j < i. use_done plan alignment j (reads ! j) (cps ! j)))"

lemma chunk_dims_fields:
  "(cp', dims') = fold (chunk_dim meta region chunk sample off) ds (cp, dims) \<Longrightarrow>
     cp_read_op_idx cp' = cp_read_op_idx cp \<and> cp_is_fill cp' = cp_is_fill cp \<and> cp_compressed_nbytes cp' = cp_compressed_nbytes cp \<and>
     cp_decompressed_nbytes cp' = cp_decompressed_nbytes cp \<and> cp_sample_idx_in_batch cp' = cp_sample_idx_in_batch cp \<and>
     cp_offset_in_read cp' = cp_offset_in_read cp"
proof (induction ds arbitrary: cp dims)
  case (Cons d ds)
  obtain cp1 dims1 where 1: "chunk_dim meta region chunk sample off d (cp, dims) = (cp1, dims1)" by fastforce
  have "cp_read_op_idx cp1 = cp_read_op_idx cp \<and> cp_is_fill cp1 = cp_is_fill cp \<and> cp_compressed_nbytes cp1 = cp_compressed_nbytes cp \<and>
     cp_decompressed_nbytes cp1 = cp_decompressed_nbytes cp \<and> cp_sample_idx_in_batch cp1 = cp_sample_idx_in_batch cp \<and>
     cp_offset_in_read cp1 = cp_offset_in_read cp"
    using 1 by (auto simp: chunk_dim_def Let_def split: if_splits)
  then show ?case using Cons.IH [of cp1 dims1] Cons.prems 1 by simp
qed simp

lemma chunk_read_result:
  assumes ok: "path_state_ok plan dup addr i st" and i: "i < 2 ^ 31" and al: "alloc_bounded calloc_ok" and dup: "copies_ok dup"
    and addr: "addresses_ok plan addr" and k: "k < length (pp_chunks plan)" "\<not> pc_missing (pp_chunks plan ! k)" and c: "chunk_ok (pp_chunks plan ! k)"
    and a: "0 < alignment" "alignment < 2 ^ 64"
    and out: "do_read_ops (us_out st) = Some reads" "do_chunk_plans (us_out st) = Some cps"
    and r: "r = chunk_read calloc_ok (dup i) addr alignment i k (pp_chunks plan ! k) st"
  shows "r \<noteq> Inl None \<and> (\<forall>st'. r = Inr st' \<longrightarrow> path_state_ok plan dup addr (Suc i) st' \<and>
    (\<exists>start nbytes. aligned_window alignment (pp_chunks plan ! k) = Some (start, nbytes) \<and>
       us_out st' = (us_out st) \<lparr>do_read_ops := Some (reads[i := \<lparr>ro_shard_path = pc_path (pp_chunks plan ! k), ro_file_offset = start,
             ro_host_buf_offset = 0, ro_nbytes = nbytes\<rparr>]),
          do_chunk_plans := Some (cps[i := (cps ! i) \<lparr>cp_offset_in_read := pc_offset (pp_chunks plan ! k) - start\<rparr>])\<rparr>))"
proof (cases "aligned_window alignment (pp_chunks plan ! k)")
  case None
  then show ?thesis using r by (simp add: chunk_read_def)
next
  case (Some w)
  let ?c = "pp_chunks plan ! k"
  obtain start nbytes where w: "aligned_window alignment ?c = Some (start, nbytes)" using Some by (cases w) auto
  note W = aligned_window_result [OF w a c]
  have off: "u64_sub (pc_offset ?c) start mod 2 ^ 32 = pc_offset ?c - start"
  proof -
    have "pc_offset ?c < 2 ^ 64" using c by (simp add: chunk_ok_def)
    then have "u64_sub (pc_offset ?c) start = pc_offset ?c - start" using W(1) by (intro u64_sub_exact)
    moreover have "pc_offset ?c - start < 2 ^ 32" using W(1-3) by linarith
    ultimately show ?thesis by simp
  qed
  obtain s where s: "pc_path ?c = Some s" using c k(2) by (auto simp: chunk_ok_def)
  define S where "S = (if us_source st \<noteq> Some (addr k)
     then map_option (\<lambda>(path, paths). st \<lparr>us_source := Some (addr k), us_path := path, us_paths := paths\<rparr>)
            (path_intern_acquire calloc_ok (dup i) (us_paths st) (pc_path ?c)) else Some st)"
  have "\<exists>st1. S = Some st1 \<and> us_out st1 = us_out st \<and> (us_path st1 \<noteq> None \<longrightarrow> path_state_ok plan dup addr (Suc i) st1 \<and> snd (the (us_path st1)) = s)"
  proof (cases "us_source st = Some (addr k)")
    case True
    then obtain p path where "us_path st = Some (p, path)" "pc_path ?c = Some path" using ok k by (auto simp: path_state_ok_def)
    then show ?thesis using True s path_state_next [OF ok refl refl refl] by (simp add: S_def)
  next
    case False
    from acquire_step [OF ok i al dup, of s] obtain res paths where A: "path_intern_acquire calloc_ok (dup i) (us_paths st) (Some s) = Some (res, paths)"
      "intern_ok paths" "copies_of dup (Suc i) (intern_map paths)" "\<forall>p t. res = Some (p, t) \<longrightarrow> t = s" by blast
    have "pc_path (pp_chunks plan ! j) = Some s" if "j < length (pp_chunks plan)" "addr j = addr k" "\<not> pc_missing (pp_chunks plan ! j)" for j
      using addr that k s unfolding addresses_ok_def by metis
    then show ?thesis using False A s by (auto simp: S_def path_state_ok_def)
  qed
  then obtain st1 where S: "S = Some st1" "us_out st1 = us_out st"
    and P: "us_path st1 \<noteq> None \<Longrightarrow> path_state_ok plan dup addr (Suc i) st1 \<and> snd (the (us_path st1)) = s" by blast
  show ?thesis
  proof (cases "us_path st1")
    case None
    then show ?thesis using r w S(1) unfolding S_def by (simp add: chunk_read_def)
  next
    case (Some q)
    then obtain p where q: "us_path st1 = Some (p, s)" using P by (cases q) auto
    let ?out = "(us_out st) \<lparr>do_read_ops := Some (reads[i := \<lparr>ro_shard_path = pc_path ?c, ro_file_offset = start, ro_host_buf_offset = 0, ro_nbytes = nbytes\<rparr>]),
          do_chunk_plans := Some (cps[i := (cps ! i) \<lparr>cp_offset_in_read := pc_offset ?c - start\<rparr>])\<rparr>"
    have "r = Inr (st1 \<lparr>us_out := ?out\<rparr>)"
      unfolding r chunk_read_def w option.case prod.case S_def [symmetric] unfolding S(1) option.case q prod.case Let_def S(2) out option.sel off s by simp
    moreover have "path_state_ok plan dup addr (Suc i) (st1 \<lparr>us_out := ?out\<rparr>)" using P q by (simp add: path_state_ok_def)
    ultimately show ?thesis using w by simp
  qed
qed

lemma use_done_write:
  assumes "j \<noteq> i" and "use_done plan alignment j (reads ! j) (cps ! j)"
  shows "use_done plan alignment j (reads[i := r] ! j) (cps[i := c] ! j)"
  using assms by simp

lemma dispatch_use_result:
  assumes ok: "uses_ok plan alignment dup addr out0 i st" and plan: "dispatchable plan" and i: "i < pp_n_uses plan"
    and cap: "pp_n_uses plan \<le> do_read_ops_cap out0" "pp_n_uses plan \<le> do_chunk_plans_cap out0"
    and al: "alloc_bounded calloc_ok" and dup: "copies_ok dup" and addr: "addresses_ok plan addr" and a: "0 < alignment" "alignment < 2 ^ 64"
    and r: "r = dispatch_use plan slot alignment calloc_ok dup addr i st"
  shows "r \<noteq> Inl None \<and> (\<forall>st'. r = Inr st' \<longrightarrow> uses_ok plan alignment dup addr out0 (Suc i) st')"
proof -
  define u where "u = pp_uses plan ! i"
  define c where "c = pp_chunks plan ! pu_chunk u"
  define region where "region = pp_regions plan ! pu_region u"
  define meta where "meta = pa_metadata (pp_arrays plan ! pc_array c)"
  have k: "pu_chunk u < length (pp_chunks plan)" and cok: "chunk_ok c" and i31: "i < 2 ^ 31"
    using plan i by (auto simp: dispatchable_def u_def c_def)
  obtain reads cps where out: "do_read_ops (us_out st) = Some reads" "do_chunk_plans (us_out st) = Some cps"
    "length reads = do_read_ops_cap out0" "length cps = do_chunk_plans_cap out0" "\<forall>j < i. use_done plan alignment j (reads ! j) (cps ! j)"
    and ps: "path_state_ok plan dup addr i st" and fr: "out_frame out0 (us_out st)" using ok by (auto simp: uses_ok_def)
  have il: "i < length reads" "i < length cps" using i cap out(3,4) by linarith+
  define cp where "cp = chunk_plan0 \<lparr>cp_read_op_idx := i, cp_compressed_nbytes := pc_encoded_bytes c, cp_decompressed_nbytes := pc_decoded_bytes c,
                 cp_batch_pool_slot := slot, cp_sample_idx_in_batch := pr_sample region mod 2 ^ 16,
                 cp_codec_id := (if pc_missing c then CODEC_FILL else zm_inner_codec meta), cp_is_fill := pc_missing c\<rparr>"
  define sample where "sample = do_sample_plans (us_out st) ! pr_sample region"
  let ?ix = "sp_indexed sample"
  let ?cp1 = "if ?ix then cp \<lparr>cp_gather_offset := do_n_gather_dims (us_out st)\<rparr> else cp"
  obtain cp2 dims where f: "fold (chunk_dim meta region c sample (cp_gather_offset ?cp1)) [0 ..< zm_rank meta] (?cp1, do_gather_dims (us_out st)) = (cp2, dims)"
    by fastforce
  have cp2: "cp_read_op_idx cp2 = i" "cp_is_fill cp2 = pc_missing c" "cp_compressed_nbytes cp2 = pc_encoded_bytes c"
    "cp_decompressed_nbytes cp2 = pc_decoded_bytes c" "cp_sample_idx_in_batch cp2 = pr_sample region mod 2 ^ 16"
    using chunk_dims_fields [OF f [symmetric]] by (auto simp: cp_def)
  define out1 where "out1 = (if ?ix then (us_out st) \<lparr>do_read_ops := Some (reads[i := read_op0]), do_n_gather_dims := u32_add (do_n_gather_dims (us_out st)) (zm_rank meta)\<rparr>
      else (us_out st) \<lparr>do_read_ops := Some (reads[i := read_op0])\<rparr>) \<lparr>do_gather_dims := dims, do_chunk_plans := Some (cps[i := cp2])\<rparr>"
  define st1 where "st1 = st \<lparr>us_out := out1\<rparr>"
  have st1: "path_state_ok plan dup addr i st1" "do_read_ops (us_out st1) = Some (reads[i := read_op0])" "do_chunk_plans (us_out st1) = Some (cps[i := cp2])"
    "out_frame out0 out1" using ps fr by (auto simp: st1_def out1_def path_state_ok_def out_frame_def)
  have cases: "(\<exists>e. r = Inl (Some e)) \<or> r = (if pc_missing c then Inr st1 else chunk_read calloc_ok (dup i) addr alignment i (pu_chunk u) c st1)"
  proof (cases "?ix \<and> zm_rank meta > u32_sub (do_gather_dims_cap (us_out st)) (do_n_gather_dims (us_out st))")
    case True
    then show ?thesis unfolding r dispatch_use_def Let_def u_def [symmetric] c_def [symmetric] region_def [symmetric] meta_def [symmetric]
      by (simp add: sample_def)
  next
    case False
    have "r = (if pc_missing c then Inr st1 else chunk_read calloc_ok (dup i) addr alignment i (pu_chunk u) c st1)"
      unfolding r dispatch_use_def Let_def u_def [symmetric] c_def [symmetric] region_def [symmetric] meta_def [symmetric] cp_def [symmetric]
      using False f out(1,2) by (cases ?ix) (simp_all add: sample_def [symmetric] st1_def out1_def)
    then show ?thesis by blast
  qed
  have miss: "uses_ok plan alignment dup addr out0 (Suc i) st1" if "pc_missing c"
  proof -
    have "use_done plan alignment i read_op0 cp2"
      using cp2 that by (simp add: use_done_def Let_def u_def [symmetric] c_def [symmetric] region_def [symmetric] op_ok_def read_op0_def)
    then have "\<forall>j < Suc i. use_done plan alignment j (reads[i := read_op0] ! j) (cps[i := cp2] ! j)"
      using out(5) il by (auto simp: less_Suc_eq)
    then show ?thesis using path_state_next [OF st1(1) refl refl refl] st1(2-4) out(3,4) by (simp add: uses_ok_def) (simp add: st1_def)
  qed
  show ?thesis
  proof (cases "pc_missing c")
    case True
    then show ?thesis using cases miss by auto
  next
    case False
    define R where "R = chunk_read calloc_ok (dup i) addr alignment i (pu_chunk u) c st1"
    note C = chunk_read_result [OF st1(1) i31 al dup addr k _ _ a st1(2,3), folded c_def, OF False cok R_def]
    have "uses_ok plan alignment dup addr out0 (Suc i) st'" if R: "R = Inr st'" for st'
    proof -
      from C R obtain start nbytes where p: "path_state_ok plan dup addr (Suc i) st'" "aligned_window alignment c = Some (start, nbytes)"
        "us_out st' = (us_out st1) \<lparr>do_read_ops := Some ((reads[i := read_op0])[i := \<lparr>ro_shard_path = pc_path c, ro_file_offset = start, ro_host_buf_offset = 0, ro_nbytes = nbytes\<rparr>]),
          do_chunk_plans := Some ((cps[i := cp2])[i := (cps[i := cp2] ! i) \<lparr>cp_offset_in_read := pc_offset c - start\<rparr>])\<rparr>" by blast
      note W = aligned_window_result [OF p(2) a cok]
      let ?r = "\<lparr>ro_shard_path = pc_path c, ro_file_offset = start, ro_host_buf_offset = 0, ro_nbytes = nbytes\<rparr>"
      let ?cp = "cp2 \<lparr>cp_offset_in_read := pc_offset c - start\<rparr>"
      have "use_done plan alignment i ?r ?cp"
        using cp2 W False by (simp add: use_done_def Let_def u_def [symmetric] c_def [symmetric] region_def [symmetric] op_ok_def)
      then have "\<forall>j < Suc i. use_done plan alignment j (reads[i := ?r] ! j) (cps[i := ?cp] ! j)" using out(5) il by (auto simp: less_Suc_eq)
      moreover have "do_read_ops (us_out st') = Some (reads[i := ?r])" "do_chunk_plans (us_out st') = Some (cps[i := ?cp])"
        unfolding p(3) using il by simp_all
      moreover have "out_frame out0 (us_out st')" unfolding p(3) using st1(4) by (simp add: out_frame_def st1_def)
      ultimately show ?thesis using p(1) out(3,4) by (simp add: uses_ok_def)
    qed
    then show ?thesis using cases C False by (auto simp: R_def)
  qed
qed

section \<open>The loops\<close>

definition same_reads :: "dispatch_output \<Rightarrow> dispatch_output \<Rightarrow> bool" where
  "same_reads out out' \<longleftrightarrow> out_frame out out' \<and> do_read_ops out' = do_read_ops out \<and> do_chunk_plans out' = do_chunk_plans out"

lemma fold_same_reads:
  assumes "\<And>x o1. same_reads out o1 \<Longrightarrow> same_reads out (f x o1)" and "same_reads out out1"
  shows "same_reads out (fold f xs out1)"
  using assms(2) by (induction xs arbitrary: out1) (simp_all add: assms(1))

lemma region_dim_same:
  assumes "same_reads out0 out" and "region_dim out_spec strides meta region d (out, stride) = Inr (out', stride')"
  shows "same_reads out0 out'"
proof -
  let ?chunk = "zm_inner_chunk_shape meta ! d" and ?axis = "pr_axes region ! d"
  define F where "F = (\<lambda>j (out :: dispatch_output). let ix = qa_indices ?axis ! j
      in out \<lparr>do_indices := map_option (\<lambda>is. is[do_n_indices out := \<lparr>gi_source = (u64_of_int (qi_source ix) mod ?chunk) mod 2 ^ 32,
                                                               gi_output = qi_output ix\<rparr>]) (do_indices out),
              do_n_indices := do_n_indices out + 1\<rparr>)"
  have "same_reads out0 (fold F [0 ..< qa_count ?axis] out)"
    by (rule fold_same_reads [OF _ assms(1)]) (simp add: F_def Let_def same_reads_def out_frame_def)
  moreover have "\<exists>sps. out' = (fold F [0 ..< qa_count ?axis] out) \<lparr>do_sample_plans := sps\<rparr>"
    using assms(2) unfolding region_dim_def F_def by (auto simp: Let_def split: if_splits)
  ultimately show ?thesis by (auto simp: same_reads_def out_frame_def)
qed

lemma dispatch_region_same:
  assumes "same_reads out0 out" and "dispatch_region plan slot strides region out = Inr out'"
  shows "same_reads out0 out'"
proof -
  obtain meta out1 stride where 1: "loop_res (region_dim (pp_output plan) strides meta region) (rev [0 ..< zm_rank meta]) (out1, 1) = Inr (out', stride)"
    and "\<exists>sps. out1 = out \<lparr>do_sample_plans := sps\<rparr>"
    using assms(2) unfolding dispatch_region_def Let_def map_sum_def
    by (auto split: sum.splits) (metis)
  then have "same_reads out0 out1" using assms(1) by (auto simp: same_reads_def out_frame_def)
  then have "same_reads out0 (fst (out1, 1 :: int))" by simp
  from loop_res_inv [where P = "\<lambda>s. same_reads out0 (fst s)", OF _ this 1] region_dim_same show ?thesis by force
qed

lemma dispatch_uses_result:
  assumes "uses_ok plan alignment dup addr out0 i st" and plan: "dispatchable plan" and "i \<le> pp_n_uses plan"
    and cap: "pp_n_uses plan \<le> do_read_ops_cap out0" "pp_n_uses plan \<le> do_chunk_plans_cap out0"
    and al: "alloc_bounded calloc_ok" and dup: "copies_ok dup" and addr: "addresses_ok plan addr" and a: "0 < alignment" "alignment < 2 ^ 64"
    and "r = loop_res (dispatch_use plan slot alignment calloc_ok dup addr) [i ..< pp_n_uses plan] st"
  shows "r \<noteq> Inl None \<and> (\<forall>st'. r = Inr st' \<longrightarrow> uses_ok plan alignment dup addr out0 (pp_n_uses plan) st')"
  using assms(1,3,11)
proof (induction "pp_n_uses plan - i" arbitrary: i st)
  case 0
  then show ?case by simp
next
  case (Suc k)
  then have i: "i < pp_n_uses plan" by simp
  have r: "r = (case dispatch_use plan slot alignment calloc_ok dup addr i st of Inl e \<Rightarrow> Inl e
      | Inr st \<Rightarrow> loop_res (dispatch_use plan slot alignment calloc_ok dup addr) [Suc i ..< pp_n_uses plan] st)"
    using Suc.prems(3) i by (simp add: upt_conv_Cons)
  note one = dispatch_use_result [OF Suc.prems(1) plan i cap al dup addr a refl, of slot]
  show ?case
  proof (cases "dispatch_use plan slot alignment calloc_ok dup addr i st")
    case (Inl e)
    then show ?thesis using one r by auto
  next
    case (Inr st1)
    then show ?thesis using one r Suc.hyps(1) [of "Suc i" st1] Suc.hyps(2) i by simp
  qed
qed

lemma merged_aligned:
  assumes "merged reads mb mc M m" and "finite M" and "\<forall>e \<in> M. a dvd ro_file_offset (reads ! e) \<and> a dvd ro_nbytes (reads ! e)" and "is_io m"
  shows "a dvd ro_file_offset m \<and> a dvd ro_nbytes m"
  using assms(1) unfolding merged_def
proof (elim disjE exE conjE)
  fix e
  assume "M = {e}" "m = reads ! e"
  then show ?thesis using assms(3) by simp
next
  assume w: "window m = (\<Union>e \<in> M. window (reads ! e))"
  let ?b = "ro_file_offset m" and ?e = "ro_file_offset m + ro_nbytes m"
  have n: "0 < ro_nbytes m" using assms(4) by (simp add: is_io_def)
  have inm: "?b \<in> window m" "?e - 1 \<in> window m" using n by (auto simp: window_def)
  from inm(1) w obtain e where e: "e \<in> M" "?b \<in> window (reads ! e)" by auto
  from inm(2) w obtain f where f: "f \<in> M" "?e - 1 \<in> window (reads ! f)" by auto
  have sub: "window (reads ! x) \<subseteq> window m" if "x \<in> M" for x using w that by auto
  have "ro_file_offset (reads ! e) \<in> window (reads ! e)" using e(2) by (auto simp: window_def)
  then have b: "ro_file_offset (reads ! e) = ?b" using sub [OF e(1)] e(2) by (auto simp: window_def)
  have "ro_file_offset (reads ! f) + ro_nbytes (reads ! f) - 1 \<in> window (reads ! f)" using f(2) by (auto simp: window_def)
  then have "ro_file_offset (reads ! f) + ro_nbytes (reads ! f) = ?e" using sub [OF f(1)] f(2) n by (auto simp: window_def)
  then have "a dvd ?e" using assms(3) f(1) by (metis dvd_add)
  moreover have "a dvd ?b" using assms(3) e(1) b by metis
  ultimately show ?thesis by (simp add: dvd_add_right_iff)
qed

section \<open>Fusing and grouping\<close>

text \<open>A chunk plan that serves a use: it is the use's chunk and sample, and its bytes are part of one read of the chunk's shard.\<close>

definition serves :: "prepared_plan \<Rightarrow> nat \<Rightarrow> read_op list \<Rightarrow> nat \<Rightarrow> chunk_plan \<Rightarrow> bool" where
  "serves plan i reads n_reads cp \<longleftrightarrow>
     (let chunk = pp_chunks plan ! pu_chunk (pp_uses plan ! i); region = pp_regions plan ! pu_region (pp_uses plan ! i);
          r = reads ! cp_read_op_idx cp
      in cp_is_fill cp = pc_missing chunk \<and> cp_decompressed_nbytes cp = pc_decoded_bytes chunk \<and>
         cp_sample_idx_in_batch cp = pr_sample region mod 2 ^ 16 \<and> cp_read_op_idx cp < n_reads \<and>
         (\<not> pc_missing chunk \<longrightarrow> ro_shard_path r = pc_path chunk \<and> ro_file_offset r + cp_offset_in_read cp = pc_offset chunk \<and>
            cp_compressed_nbytes cp = pc_encoded_bytes chunk \<and> cp_offset_in_read cp + pc_encoded_bytes chunk \<le> ro_nbytes r))"

text \<open>The output serves every use of the plan, from aligned reads.\<close>

definition dispatched :: "prepared_plan \<Rightarrow> nat \<Rightarrow> dispatch_output \<Rightarrow> bool" where
  "dispatched plan alignment out \<longleftrightarrow>
     (\<exists>reads cps. do_read_ops out = Some reads \<and> length cps = pp_n_uses plan \<and>
        take (pp_n_uses plan) (the (do_chunk_plans out)) = sort_key cp_read_op_idx cps \<and>
        (\<forall>i < pp_n_uses plan. serves plan i reads (do_n_read_ops out) (cps ! i)) \<and>
        (\<forall>k < do_n_read_ops out. is_io (reads ! k) \<longrightarrow> alignment dvd ro_file_offset (reads ! k) \<and> alignment dvd ro_nbytes (reads ! k)))"

lemma scratch_reserve_result:
  assumes "scratch_ok scratch" and "scratch_reserve indices_ok reads_ok chunks_ok scratch n = (DAMACY_OK, scratch')" and "0 < n"
  obtains us cs where "ds_indices scratch' = Some us" "4 * n \<le> length us" "ds_reads scratch' \<noteq> None" "ds_chunks scratch' = Some cs" "n \<le> length cs"
proof (cases "ds_capacity scratch \<ge> n")
  case True
  then have "scratch' = scratch" using assms(2) by (simp add: scratch_reserve_def)
  moreover from assms(1,3) True obtain us rs cs where "ds_indices scratch = Some us" "4 * ds_capacity scratch \<le> length us"
    "ds_reads scratch = Some rs" "ds_chunks scratch = Some cs" "ds_capacity scratch \<le> length cs" unfolding scratch_ok_def by force
  ultimately show thesis using that [of us cs] True by simp
next
  case False
  then show thesis using assms(2) that by (auto simp: scratch_reserve_def split: if_splits)
qed

lemma sum_list_bound: "\<forall>x \<in> set xs. f x \<le> (b :: nat) \<Longrightarrow> sum_list (map f xs) \<le> length xs * b"
  by (induction xs) auto

lemma use_done_fits: "use_done plan alignment i (reads ! i) cp \<Longrightarrow> i < n \<Longrightarrow> chunk_fits reads n cp"
  by (auto simp: use_done_def chunk_fits_def Let_def)

lemma rehomed_serves:
  assumes "use_done plan alignment i (reads ! i) cp" and "rehomed reads reads' n' cp cp'"
  shows "serves plan i reads' n' cp'"
proof -
  let ?fields = "\<lambda>c. (cp_is_fill c, cp_compressed_nbytes c, cp_decompressed_nbytes c, cp_sample_idx_in_batch c)"
  have "?fields (cp' \<lparr>cp_read_op_idx := cp_read_op_idx cp, cp_offset_in_read := cp_offset_in_read cp\<rparr>) = ?fields cp"
    using assms(2) by (simp add: rehomed_def)
  then have "?fields cp' = ?fields cp" by simp
  then show ?thesis using assms by (auto simp: serves_def rehomed_def chunk_fits_def chunk_source_def use_done_def Let_def)
qed

lemma dispatch_finish_result:
  assumes u: "uses_ok plan alignment dup addr out0 (pp_n_uses plan) st" and plan: "dispatchable plan"
    and cap: "pp_n_uses plan \<le> do_read_ops_cap out0" "pp_n_uses plan \<le> do_chunk_plans_cap out0" "do_read_ops_cap out0 \<le> do_read_op_groups_cap out0"
    and grp: "do_read_op_groups out0 \<noteq> None" and sc: "scratch_ok scratch"
    and r: "r = dispatch_finish indices_ok reads_ok chunks_ok (pp_n_uses plan) mb mc (us_out st) scratch"
  shows "r \<noteq> None \<and> (\<forall>out' scratch'. r = Some (DAMACY_OK, out', scratch') \<longrightarrow> dispatched plan alignment out')"
proof -
  let ?n = "pp_n_uses plan"
  define out where "out = (us_out st) \<lparr>do_n_chunk_plans := ?n, do_n_read_ops := ?n\<rparr>"
  obtain status scratch' where sr: "scratch_reserve indices_ok reads_ok chunks_ok scratch ?n = (status, scratch')" by fastforce
  obtain reads cps where U: "do_read_ops out = Some reads" "do_chunk_plans out = Some cps" "length reads = do_read_ops_cap out0"
    "length cps = do_chunk_plans_cap out0" "\<forall>j < ?n. use_done plan alignment j (reads ! j) (cps ! j)" "out_frame out0 (us_out st)"
    using u by (auto simp: uses_ok_def out_def)
  show ?thesis
  proof (cases "status = DAMACY_OK \<and> 0 < ?n")
    case False
    then show ?thesis
      using sr U(1,2) unfolding r dispatch_finish_def Let_def out_def [symmetric]
      by (auto simp: coalesce_chunks_def group_chunks_by_read_def out_def dispatched_def)
  next
    case True
    then have n: "0 < ?n" and sr: "scratch_reserve indices_ok reads_ok chunks_ok scratch ?n = (DAMACY_OK, scratch')" using sr by auto
    obtain us cs where S: "ds_indices scratch' = Some us" "4 * ?n \<le> length us" "ds_reads scratch' \<noteq> None" "ds_chunks scratch' = Some cs" "?n \<le> length cs"
      by (rule scratch_reserve_result [OF sc sr n])
    define cs0 where "cs0 = take ?n cps"
    have l: "length cs0 = ?n" "?n \<le> length reads" using cap U(3,4) by (simp_all add: cs0_def)
    have o1: "do_chunk_plans out = Some (cs0 @ drop ?n cps)" "do_n_read_ops out = ?n" "do_n_chunk_plans out = length cs0"
      using U(2) l by (simp_all add: cs0_def out_def)
    have dn: "use_done plan alignment i (reads ! i) (cs0 ! i)" if "i < ?n" for i using U(5) that by (simp add: cs0_def)
    have n31: "?n < 2 ^ 31" using plan by (simp add: dispatchable_def)
    have fit: "\<forall>cp \<in> set cs0. chunk_fits reads ?n cp" using use_done_fits [OF dn] l(1) by (auto simp: in_set_conv_nth)
    have opk: "\<forall>i < ?n. op_ok (reads ! i)" using dn by (simp add: use_done_def Let_def)
    obtain out' reads' n' cps' ri off where C: "coalesce_chunks out mb mc (Some us) True = Some (DAMACY_OK, out')"
      "do_read_ops out' = Some reads'" "do_n_read_ops out' = n'" "do_chunk_plans out' = Some (cps' @ drop ?n cps)"
      "coalesced reads ?n mb mc reads' n' ri off" "list_all2 (rehomed reads reads' n') cs0 cps'"
      "out' = out \<lparr>do_read_ops := Some reads', do_n_read_ops := n', do_chunk_plans := Some (cps' @ drop ?n cps),
                      do_n_chunks_to_load := length (filter (\<lambda>cp. \<not> cp_is_fill cp) cps'),
                      do_n_loads_issued := length (filter is_io (take n' reads'))\<rparr>"
      by (rule coalesce_chunks_result [OF U(1) o1(1,2,3) n n31 l(2) S(2) opk fit])
    have l': "length cps' = ?n" using list_all2_lengthD [OF C(6)] l(1) by simp
    have serve: "serves plan i reads' n' (cps' ! i)" if "i < ?n" for i
      using rehomed_serves [OF dn [OF that]] list_all2_nthD [OF C(6)] that l(1) by simp
    have idx: "\<forall>cp \<in> set cps'. cp_read_op_idx cp < n'" using serve l' by (auto simp: serves_def Let_def in_set_conv_nth)
    have "\<forall>cp \<in> set cps'. cp_decompressed_nbytes cp \<le> 2 ^ 32"
    proof
      fix cp assume "cp \<in> set cps'"
      then obtain i where i: "i < ?n" "cp = cps' ! i" using l' by (auto simp: in_set_conv_nth)
      have "chunk_ok (pp_chunks plan ! pu_chunk (pp_uses plan ! i))" using plan i(1) by (auto simp: dispatchable_def)
      then show "cp_decompressed_nbytes cp \<le> 2 ^ 32" using serve [OF i(1)] i(2) by (simp add: serves_def chunk_ok_def Let_def)
    qed
    from sum_list_bound [OF this] n31 l' have small: "sum_list (map cp_decompressed_nbytes cps') < 2 ^ 64" by simp
    have n'0: "0 < n'" using idx l' n by (cases cps') auto
    obtain groups where G: "do_read_op_groups out' = Some groups" using grp U(6) C(7) by (auto simp: out_frame_def out_def)
    have caps: "n' \<le> do_read_op_groups_cap out'" using C(5,7) cap U(6) by (simp add: coalesced_def out_frame_def out_def)
    have o2: "do_n_chunk_plans out' = length cps'" using C(7) l l' o1(3) by simp
    define out2 where "out2 = out' \<lparr>do_n_read_op_groups := length (map (read_group cps') (filter (\<lambda>r. bucket r cps' \<noteq> []) [0 ..< n'])),
      do_chunk_plans := Some (sort_key cp_read_op_idx cps' @ drop ?n cps),
      do_read_op_groups := Some (map (read_group cps') (filter (\<lambda>r. bucket r cps' \<noteq> []) [0 ..< n']) @
        drop (length (map (read_group cps') (filter (\<lambda>r. bucket r cps' \<noteq> []) [0 ..< n']))) groups)\<rparr>"
    have ne: "cps' \<noteq> []" "length cps' \<le> length cs" using l' n S(5) by auto
    have g: "group_chunks_by_read out' True (Some cs) = (DAMACY_OK, out2)"
      unfolding out2_def by (rule group_chunks_by_read_result [OF C(4) o2 C(3) G caps ne(1) n'0 ne(2) idx small])
    have "r = Some (DAMACY_OK, out2, scratch')"
      unfolding r dispatch_finish_def Let_def out_def [symmetric] sr prod.case using S C(1) g by simp
    moreover have "dispatched plan alignment out2"
      unfolding dispatched_def
    proof (intro exI conjI)
      show "do_read_ops out2 = Some reads'" using C(2) by (simp add: out2_def)
      show "length cps' = ?n" by (rule l')
      show "take ?n (the (do_chunk_plans out2)) = sort_key cp_read_op_idx cps'" using l' by (simp add: out2_def)
      show "\<forall>i < ?n. serves plan i reads' (do_n_read_ops out2) (cps' ! i)" using serve C(3) by (simp add: out2_def)
      show "\<forall>k < do_n_read_ops out2. is_io (reads' ! k) \<longrightarrow> alignment dvd ro_file_offset (reads' ! k) \<and> alignment dvd ro_nbytes (reads' ! k)"
      proof (intro allI impI)
        fix k assume k: "k < do_n_read_ops out2" "is_io (reads' ! k)"
        let ?M = "{i. i < ?n \<and> ri ! i = k}"
        have m: "merged reads mb mc ?M (reads' ! k)"
          using C(3,5) k(1) by (auto simp: coalesced_def out2_def)
        have al: "alignment dvd ro_file_offset (reads ! e) \<and> alignment dvd ro_nbytes (reads ! e)" if "e \<in> ?M" for e
          using dn [of e] that by (cases "pc_missing (pp_chunks plan ! pu_chunk (pp_uses plan ! e))") (auto simp: use_done_def Let_def read_op0_def)
        then show "alignment dvd ro_file_offset (reads' ! k) \<and> alignment dvd ro_nbytes (reads' ! k)"
          using merged_aligned [OF m _ _ k(2)] by simp
      qed
    qed
    ultimately show ?thesis by simp
  qed
qed

section \<open>The whole dispatch\<close>

lemma dispatch_region_error: "dispatch_region plan slot strides region out = Inl (status, out') \<Longrightarrow> status \<noteq> DAMACY_OK"
  unfolding dispatch_region_def Let_def
  by (auto simp: map_sum_def split: sum.splits dest!: loop_res_err) (auto simp: region_dim_def Let_def split: if_splits)

lemma dispatch_use_error: "dispatch_use plan slot alignment calloc_ok dup addr i st = Inl (Some (status, st')) \<Longrightarrow> status \<noteq> DAMACY_OK"
  unfolding dispatch_use_def Let_def by (auto simp: chunk_read_def Let_def split: if_splits prod.splits option.splits)

lemma dispatch_plan_build_result:
  assumes plan: "dispatchable plan" and out: "outputs_ok out" and sc: "scratch_ok scratch" and paths: "intern_ok paths"
    and al: "alloc_bounded calloc_ok" and dup: "copies_ok dup" and addr: "addresses_ok plan addr" and a: "alignment < 2 ^ 64"
    and r: "r = dispatch_plan_build plan slot alignment mb mc calloc_ok dup addr indices_ok reads_ok chunks_ok out paths scratch"
  shows "r \<noteq> None \<and> (\<forall>out' paths' scratch'. r = Some (DAMACY_OK, out', paths', scratch') \<longrightarrow> dispatched plan alignment out')"
proof (cases "alignment = 0 \<or> mc = 0 \<or> pp_n_uses plan > do_chunk_plans_cap out \<or> pp_n_uses plan > do_read_ops_cap out \<or> pp_n_regions plan > do_sample_plans_cap out")
  case True
  then show ?thesis unfolding r dispatch_plan_build_def by auto
next
  case False
  then have a0: "0 < alignment" and cap: "pp_n_uses plan \<le> do_chunk_plans_cap out" "pp_n_uses plan \<le> do_read_ops_cap out" by auto
  define out1 where "out1 = out \<lparr>do_n_chunk_plans := 0, do_n_read_ops := 0, do_n_read_op_groups := 0, do_n_sample_plans := pp_n_regions plan,
                       do_n_indices := 0, do_n_gather_dims := 0\<rparr>"
  define L where "L = loop_res (dispatch_region plan slot (plan_strides (pp_output plan))) (take (pp_n_regions plan) (pp_regions plan)) out1"
  have body: "r = (case L of Inl (status, out) \<Rightarrow> Some (status, out, path_intern_reset paths, scratch)
      | Inr out \<Rightarrow> (case loop_res (dispatch_use plan slot alignment calloc_ok dup addr) [0 ..< pp_n_uses plan]
                       \<lparr>us_out = out, us_paths = path_intern_reset paths, us_source = None, us_path = None\<rparr> of
                  Inl None \<Rightarrow> None
                | Inl (Some (status, st)) \<Rightarrow> Some (status, us_out st, us_paths st, scratch)
                | Inr st \<Rightarrow>
                    map_option (\<lambda>(status, out, scratch). (status, out, us_paths st, scratch))
                      (dispatch_finish indices_ok reads_ok chunks_ok (pp_n_uses plan) mb mc (us_out st) scratch)))"
    using False unfolding r dispatch_plan_build_def Let_def out1_def [symmetric] L_def [symmetric] by auto
  show ?thesis
  proof (cases L)
    case (Inl e)
    then have "fst e \<noteq> DAMACY_OK" unfolding L_def by (cases e) (auto dest!: loop_res_err dest: dispatch_region_error)
    then show ?thesis using Inl body by (cases e) auto
  next
    case (Inr out2)
    have "same_reads out out2"
      using loop_res_inv [where P = "same_reads out", OF dispatch_region_same _ Inr [unfolded L_def]]
      by (simp add: out1_def same_reads_def out_frame_def)
    then have fr: "out_frame out out2" "do_read_ops out2 = do_read_ops out" "do_chunk_plans out2 = do_chunk_plans out" by (simp_all add: same_reads_def)
    let ?st = "\<lparr>us_out = out2, us_paths = path_intern_reset paths, us_source = None, us_path = None\<rparr>"
    have grp: "do_read_op_groups out \<noteq> None" "do_read_ops_cap out \<le> do_read_op_groups_cap out" using out by (auto simp: outputs_ok_def)
    have "uses_ok plan alignment dup addr out 0 ?st"
      using fr out path_intern_reset_ok [OF paths] by (auto simp: uses_ok_def path_state_ok_def copies_of_def outputs_ok_def)
    from dispatch_uses_result [OF this plan _ cap(2,1) al dup addr a0 a refl, of slot]
    have U: "loop_res (dispatch_use plan slot alignment calloc_ok dup addr) [0 ..< pp_n_uses plan] ?st \<noteq> Inl None"
      "\<And>st'. loop_res (dispatch_use plan slot alignment calloc_ok dup addr) [0 ..< pp_n_uses plan] ?st = Inr st' \<Longrightarrow>
         uses_ok plan alignment dup addr out (pp_n_uses plan) st'" by simp_all
    show ?thesis
    proof (cases "loop_res (dispatch_use plan slot alignment calloc_ok dup addr) [0 ..< pp_n_uses plan] ?st")
      case (Inl e)
      then obtain status st where e: "e = Some (status, st)" using U(1) by (cases e) auto
      then have "status \<noteq> DAMACY_OK" using Inl by (auto dest!: loop_res_err dest: dispatch_use_error)
      then show ?thesis using Inl e body \<open>L = Inr out2\<close> by auto
    next
      case (Inr st)
      note F = dispatch_finish_result [OF U(2) [OF Inr] plan cap(2,1) grp(2,1) sc refl, of indices_ok reads_ok chunks_ok mb mc]
      then show ?thesis using body \<open>L = Inr out2\<close> Inr by auto
    qed
  qed
qed

end
