(* ===== verification/Plan_Dispatch.thy ===== *)
theory Plan_Dispatch
  imports Plan_Source Dispatch_Correct
begin

text \<open>
  From the query to the reads of an executor: plan\_builder.c and executor/dispatch.c together. A plan that was built can be
  dispatched, and a dispatched plan brings every selected chunk of every sample into memory from the place its shard's index
  names.
\<close>

section \<open>Built plans can be dispatched\<close>

lemma chunk_origin_ok: "chunk_origin arrays shards samples parrays c \<Longrightarrow> chunk_ok c"
  unfolding chunk_origin_def chunk_at_def chunk_ok_def Let_def by (elim bexE exE conjE) (auto split: if_splits)

lemma built_dispatchable:
  assumes build: "prepared_plan_build plan_ok storage_ok alloc_ok arrays shards samples out_spec limits = Inr plan"
    and ok: "samples_ok arrays samples" "limits_ok limits" and small: "pp_n_uses plan < 2 ^ 31"
  shows "dispatchable plan"
proof -
  from prepared_plan_build_result(2) [OF ok build [symmetric] refl] obtain bytes st where
    plan: "plan = plan_of out_spec bytes st" and inv: "plan_inv arrays (\<Sum>s \<leftarrow> samples. sized_by arrays n_cells s) st samples" by blast
  have "\<forall>u \<in> set (pb_uses st). pu_chunk u < length (pb_chunks st)"
    using inv by (auto simp: plan_inv_def build_ok_def in_set_conv_nth)
  moreover have "\<forall>c \<in> set (pp_chunks plan). chunk_ok c"
    using prepared_plan_chunks_origin [OF build ok] chunk_origin_ok by blast
  ultimately show ?thesis using small by (simp add: dispatchable_def plan plan_of_def)
qed

section \<open>Selected cells and uses\<close>

text \<open>Every selected cell of a sample has a use, which refers to the sample's region and to the cell's chunk.\<close>

lemma built_cell_use:
  assumes build: "prepared_plan_build plan_ok storage_ok alloc_ok arrays shards samples out_spec limits = Inr plan"
    and ok: "samples_ok arrays samples" "limits_ok limits" and i: "i < length samples"
    and meta: "array_metadata arrays (ps_h_meta (samples ! i)) = Inr meta" and cell: "cell \<in> set (sample_cells meta (samples ! i))"
  obtains u where "u < pp_n_uses plan" "pr_sample (pp_regions plan ! pu_region (pp_uses plan ! u)) = i"
    "pc_coordinate (pp_chunks plan ! pu_chunk (pp_uses plan ! u)) = cell" "pu_chunk (pp_uses plan ! u) < length (pp_chunks plan)"
    "ps_uri (samples ! i) = Some (pa_uri (pp_arrays plan ! pc_array (pp_chunks plan ! pu_chunk (pp_uses plan ! u))))"
proof -
  from prepared_plan_build_result(2) [OF ok build [symmetric] refl] obtain bytes st where
    plan: "plan = plan_of out_spec bytes st" and inv: "plan_inv arrays (\<Sum>s \<leftarrow> samples. sized_by arrays n_cells s) st samples" by blast
  from inv i have "sample_planned arrays st i (samples ! i)" by (simp add: plan_inv_def)
  then obtain a where a: "ps_uri (samples ! i) = Some (pa_uri (pb_arrays st ! a))" "pb_regions st ! i = sample_region meta a i (samples ! i)"
    "mset (map snd (filter (\<lambda>k. fst k = i) (use_keys st))) = mset (map (Pair a) (sample_cells meta (samples ! i)))"
    using meta by (auto simp: sample_planned_def)
  have "(a, cell) \<in> set (map (Pair a) (sample_cells meta (samples ! i)))" using cell by simp
  then have "(a, cell) \<in> set (map snd (filter (\<lambda>k. fst k = i) (use_keys st)))" using a(3) by (metis set_mset_mset)
  then have "(i, a, cell) \<in> set (use_keys st)" by auto
  then obtain u where u: "u < length (pb_uses st)" "pu_region (pb_uses st ! u) = i" "chunk_key (pb_chunks st ! pu_chunk (pb_uses st ! u)) = (a, cell)"
    by (auto simp: use_keys_def in_set_conv_nth)
  moreover have "pu_chunk (pb_uses st ! u) < length (pb_chunks st)" using inv u(1) by (simp add: plan_inv_def build_ok_def)
  ultimately show thesis using that [of u] a(1,2) by (simp add: plan plan_of_def sample_region_def)
qed

section \<open>Properties\<close>

text \<open>C6. Dispatching a prepared plan always returns, and when it succeeds there is one chunk plan for every use, a permutation of
  \<open>cps\<close>: each names its sample and the decoded size of its chunk, a chunk plan of a stored chunk points at exactly the chunk's
  bytes inside a read of the chunk's shard, also after reads were fused, and every read is aligned.\<close>

theorem dispatch_plan_build_serves:
  assumes "dispatchable plan" and "outputs_ok out" and "scratch_ok scratch" and "intern_ok paths"
    and "alloc_bounded calloc_ok" and "copies_ok dup" and "addresses_ok plan addr" and "alignment < 2 ^ 64"
  shows "\<exists>status out' paths' scratch'.
    dispatch_plan_build plan slot alignment max_read_bytes max_chunks calloc_ok dup addr indices_ok reads_ok chunks_ok out paths scratch =
      Some (status, out', paths', scratch') \<and>
    (status = DAMACY_OK \<longrightarrow> (\<exists>reads cps. do_read_ops out' = Some reads \<and> length cps = pp_n_uses plan \<and>
        take (pp_n_uses plan) (the (do_chunk_plans out')) = sort_key cp_read_op_idx cps \<and>
        (\<forall>i < pp_n_uses plan.
           let chunk = pp_chunks plan ! pu_chunk (pp_uses plan ! i); region = pp_regions plan ! pu_region (pp_uses plan ! i);
               cp = cps ! i; r = reads ! cp_read_op_idx cp
           in cp_is_fill cp = pc_missing chunk \<and> cp_decompressed_nbytes cp = pc_decoded_bytes chunk \<and>
              cp_sample_idx_in_batch cp = pr_sample region mod 2 ^ 16 \<and> cp_read_op_idx cp < do_n_read_ops out' \<and>
              (\<not> pc_missing chunk \<longrightarrow> ro_shard_path r = pc_path chunk \<and> ro_file_offset r + cp_offset_in_read cp = pc_offset chunk \<and>
                 cp_compressed_nbytes cp = pc_encoded_bytes chunk \<and> cp_offset_in_read cp + pc_encoded_bytes chunk \<le> ro_nbytes r)) \<and>
        (\<forall>k < do_n_read_ops out'. is_io (reads ! k) \<longrightarrow> alignment dvd ro_file_offset (reads ! k) \<and> alignment dvd ro_nbytes (reads ! k))))"
  using dispatch_plan_build_result [OF assms refl, of slot max_read_bytes max_chunks indices_ok reads_ok chunks_ok]
  unfolding dispatched_def serves_def
  by (cases "dispatch_plan_build plan slot alignment max_read_bytes max_chunks calloc_ok dup addr indices_ok reads_ok chunks_ok out paths scratch")
     (auto simp: Let_def)

text \<open>C2. From query to memory: when a plan has been built for a batch and its dispatch succeeds, every chunk that holds a selected
  element of sample \<open>i\<close> has a chunk plan for that sample, and a stored chunk's plan points at the bytes that the index of its
  shard names, inside a read of that shard's file.\<close>

theorem built_plan_dispatched:
  assumes "prepared_plan_build plan_ok storage_ok alloc_ok arrays shards samples out_spec limits = Inr plan"
    and "samples_ok arrays samples" and "limits_ok limits" and "pp_n_uses plan < 2 ^ 31"
    and "outputs_ok out" and "scratch_ok scratch" and "intern_ok paths" and "alloc_bounded calloc_ok" and "copies_ok dup"
    and "addresses_ok plan addr" and "alignment < 2 ^ 64"
    and "dispatch_plan_build plan slot alignment max_read_bytes max_chunks calloc_ok dup addr indices_ok reads_ok chunks_ok out paths scratch =
      Some (DAMACY_OK, out', paths', scratch')"
    and "i < length samples" and "array_metadata arrays (ps_h_meta (samples ! i)) = Inr meta" and "cell \<in> set (sample_cells meta (samples ! i))"
  shows "\<exists>chunk \<in> set (pp_chunks plan). \<exists>cp \<in> set (take (pp_n_uses plan) (the (do_chunk_plans out'))).
    pc_coordinate chunk = cell \<and> ps_uri (samples ! i) = Some (pa_uri (pp_arrays plan ! pc_array chunk)) \<and>
    chunk_origin arrays shards samples (pp_arrays plan) chunk \<and>
    cp_sample_idx_in_batch cp = i mod 2 ^ 16 \<and> cp_is_fill cp = pc_missing chunk \<and> cp_decompressed_nbytes cp = pc_decoded_bytes chunk \<and>
    (\<not> pc_missing chunk \<longrightarrow> (let r = the (do_read_ops out') ! cp_read_op_idx cp
       in cp_read_op_idx cp < do_n_read_ops out' \<and> ro_shard_path r = pc_path chunk \<and>
          ro_file_offset r + cp_offset_in_read cp = pc_offset chunk \<and> cp_compressed_nbytes cp = pc_encoded_bytes chunk \<and>
          cp_offset_in_read cp + pc_encoded_bytes chunk \<le> ro_nbytes r))"
proof -
  note d = built_dispatchable [OF assms(1-4)]
  from dispatch_plan_build_result [OF d assms(5-11) refl, of slot max_read_bytes max_chunks indices_ok reads_ok chunks_ok] assms(12)
  have "dispatched plan alignment out'" by simp
  then obtain reads cps where D: "do_read_ops out' = Some reads" "length cps = pp_n_uses plan"
    "take (pp_n_uses plan) (the (do_chunk_plans out')) = sort_key cp_read_op_idx cps"
    "\<forall>i < pp_n_uses plan. serves plan i reads (do_n_read_ops out') (cps ! i)" by (auto simp: dispatched_def)
  from built_cell_use [OF assms(1-3) assms(13-15)] obtain u where
    u: "u < pp_n_uses plan" "pr_sample (pp_regions plan ! pu_region (pp_uses plan ! u)) = i"
    "pc_coordinate (pp_chunks plan ! pu_chunk (pp_uses plan ! u)) = cell" "pu_chunk (pp_uses plan ! u) < length (pp_chunks plan)"
    "ps_uri (samples ! i) = Some (pa_uri (pp_arrays plan ! pc_array (pp_chunks plan ! pu_chunk (pp_uses plan ! u))))" by blast
  have c: "pp_chunks plan ! pu_chunk (pp_uses plan ! u) \<in> set (pp_chunks plan)" using u(4) by simp
  have cp: "cps ! u \<in> set (take (pp_n_uses plan) (the (do_chunk_plans out')))" using u(1) D(2,3) by simp
  show ?thesis
    by (rule bexI [OF _ c], rule bexI [OF _ cp])
      (use D(1) D(4) [rule_format, OF u(1)] u(2,3,5) prepared_plan_chunks_origin [OF assms(1-3)] c in \<open>auto simp: serves_def Let_def\<close>)
qed

section \<open>The example dispatched\<close>

definition example_out :: dispatch_output where
  "example_out =
     \<lparr>do_read_ops = Some (replicate 3 read_op0), do_read_ops_cap = 3, do_n_read_ops = 0, do_chunk_plans = Some (replicate 3 chunk_plan0),
      do_chunk_plans_cap = 3, do_n_chunk_plans = 0,
      do_sample_plans = replicate 2 \<lparr>sp_batch_pool_slot = 0, sp_sample_idx_in_batch = 0, sp_rank = 0, sp_src_dtype = dtype_u8, sp_indexed = False,
        sp_dims = [], sp_sample_dst_off_elems = 0, sp_fill_value = []\<rparr>,
      do_sample_plans_cap = 2, do_n_sample_plans = 0,
      do_read_op_groups = Some (replicate 3 \<lparr>rg_read_op_idx = 0, rg_first_chunk = 0, rg_n_chunks = 0, rg_total_decompressed = 0\<rparr>),
      do_read_op_groups_cap = 3, do_n_read_op_groups = 0, do_indices = None, do_indices_cap = 0, do_n_indices = 0, do_gather_dims = [],
      do_gather_dims_cap = 0, do_n_gather_dims = 0, do_n_chunks_to_load = 0, do_n_loads_issued = 0\<rparr>"

abbreviation no_paths :: path_intern where
  "no_paths \<equiv> \<lparr>pi_slots = [], pi_n = 0\<rparr>"

abbreviation no_scratch :: dispatch_scratch where
  "no_scratch \<equiv> \<lparr>ds_indices = None, ds_reads = None, ds_chunks = None, ds_capacity = 0\<rparr>"

abbreviation example_dispatch :: "(damacy_status \<times> dispatch_output \<times> path_intern \<times> dispatch_scratch) option" where
  "example_dispatch \<equiv> dispatch_plan_build example_prepared 0 4 64 4 (\<lambda>c. c \<le> 64) Some (\<lambda>k. 0) True True True example_out no_paths no_scratch"

lemma example_dispatch_ok: "\<exists>out paths scratch. example_dispatch = Some (DAMACY_OK, out, paths, scratch) \<and> do_n_read_ops out = 1"
proof -
  have "map_option (\<lambda>(status, out, _). (status, do_n_read_ops out)) example_dispatch = Some (DAMACY_OK, 1)" by code_simp
  then show ?thesis by (cases example_dispatch) auto
qed

lemma example_uses: "pp_n_uses example_prepared < 2 ^ 31"
  by (simp add: example_prepared_def)

lemma example_state_ok:
  "outputs_ok example_out" "scratch_ok no_scratch" "intern_ok no_paths" "alloc_bounded (\<lambda>c. c \<le> 64)" "copies_ok Some"
  "addresses_ok example_prepared (\<lambda>k. 0)" "(4 :: nat) < 2 ^ 64"
proof -
  show "addresses_ok example_prepared (\<lambda>k. 0)" by (simp add: addresses_ok_def example_prepared_def less_Suc_eq)
  show "intern_ok no_paths" by (simp add: intern_ok_def chained_def unique_by_def)
qed (auto simp: outputs_ok_def scratch_ok_def alloc_bounded_def copies_ok_def example_out_def)

theorem dispatch_plan_build_serves_witness:
  "\<exists>out paths scratch reads. example_dispatch = Some (DAMACY_OK, out, paths, scratch) \<and> do_n_read_ops out = 1 \<and> do_read_ops out = Some reads"
proof -
  from example_dispatch_ok obtain out' paths scratch where
    d: "example_dispatch = Some (DAMACY_OK, out', paths, scratch)" "do_n_read_ops out' = 1" by blast
  from dispatch_plan_build_serves [OF built_dispatchable [OF example_plan example_ok example_uses] example_state_ok, of 0 64 4 True True True] d
  show ?thesis by auto
qed

lemma example_meta: "array_metadata example_arrays h = Inr two_chunks"
  by (simp add: example_arrays_def array_metadata_def)

theorem built_plan_dispatched_witness:
  "example_build = Inr example_prepared \<and> (\<exists>out paths scratch. example_dispatch = Some (DAMACY_OK, out, paths, scratch) \<and> do_n_read_ops out = 1 \<and>
     (\<exists>chunk \<in> set (pp_chunks example_prepared). \<exists>cp \<in> set (take 3 (the (do_chunk_plans out))).
        pc_coordinate chunk = [1] \<and> cp_sample_idx_in_batch cp = 1 \<and> cp_decompressed_nbytes cp = pc_decoded_bytes chunk))"
proof -
  from example_dispatch_ok obtain out' paths scratch where
    d: "example_dispatch = Some (DAMACY_OK, out', paths, scratch)" "do_n_read_ops out' = 1" by blast
  have cell: "[1] \<in> set (sample_cells two_chunks (example_samples ! 1))" and one: "1 < length example_samples" by code_simp+
  have n: "pp_n_uses example_prepared = 3" by (simp add: example_prepared_def)
  from built_plan_dispatched [OF example_plan example_ok example_uses example_state_ok d(1) one example_meta cell] n
  have "\<exists>chunk \<in> set (pp_chunks example_prepared). \<exists>cp \<in> set (take 3 (the (do_chunk_plans out'))).
        pc_coordinate chunk = [1] \<and> cp_sample_idx_in_batch cp = 1 \<and> cp_decompressed_nbytes cp = pc_decoded_bytes chunk" by fastforce
  then show ?thesis using d example_plan by blast
qed

end
