(* ===== verification/Json.thy ===== *)
theory Json
  imports Damacy_Prelude
begin

text \<open>
  The lazy JSON reader, src/src/util/json.c. A \<open>cslice\<close> is the list of bytes it spans; a cursor that moves through the source is
  the list of bytes that are left. Every function of the lexer returns the bytes left, also when it fails, because the error
  report counts them. Arguments that are null pointers are left out.
\<close>

section \<open>Data\<close>

datatype json_type = JSON_INVALID | JSON_NULL | JSON_BOOL | JSON_NUMBER | JSON_STRING | JSON_ARRAY | JSON_OBJECT

datatype json_err = JSON_OK | JSON_ERR_INVALID | JSON_ERR_PARSE | JSON_ERR_TYPE | JSON_ERR_RANGE | JSON_ERR_NOT_FOUND | JSON_ERR_OOM

datatype json_node_flag = JSON_NODE_FLAG_NONE | JSON_NODE_FLAG_STR_ESCAPED | JSON_NODE_FLAG_NUM_FLOAT

record json_node =
  jn_type :: json_type
  jn_flag :: json_node_flag
  jn_s :: string

datatype json_query =
    QUERY_KEY string
  | QUERY_INDEX nat
  | QUERY_ITER
  | QUERY_WHERE "json_query list" string json_type

record json_iter_frame =
  jf_part_index :: nat
  jf_rest :: string
  jf_saw_first :: bool

definition JSON_ITER_MAX_FRAMES :: nat where "JSON_ITER_MAX_FRAMES = 4"

text \<open>The frames are listed from the deepest one; their number is \<open>depth\<close>.\<close>

record json_iter =
  ji_src :: string
  ji_parts :: "json_query list"
  ji_last_err :: "json_err \<times> nat"
  ji_done :: bool
  ji_frames :: "json_iter_frame list"

record json_object_iter =
  jo_remaining :: string
  jo_first :: bool

section \<open>The lexer\<close>

abbreviation quote :: char where "quote \<equiv> CHR 0x22"
abbreviation backslash :: char where "backslash \<equiv> CHR 0x5C"

definition is_ws :: "char \<Rightarrow> bool" where
  "is_ws ch \<longleftrightarrow> ch = CHR '' '' \<or> ch = CHR 0x09 \<or> ch = CHR 0x0A \<or> ch = CHR 0x0D"

definition skip_ws :: "string \<Rightarrow> string" where
  "skip_ws c = dropWhile is_ws c"

definition isxdigit :: "char \<Rightarrow> bool" where
  "isxdigit ch \<longleftrightarrow> is_digit ch \<or> of_char ch \<in> {65 .. (70 :: nat)} \<or> of_char ch \<in> {97 .. (102 :: nat)}"

definition is_escape :: "char \<Rightarrow> bool" where
  "is_escape esc \<longleftrightarrow> esc \<in> {quote, backslash, CHR ''/'', CHR ''b'', CHR ''f'', CHR ''n'', CHR ''r'', CHR ''t''}"

text \<open>The loop of \<open>lex_string_span\<close>; \<open>acc\<close> holds the bytes since the opening quote, the last one first.\<close>

fun string_loop :: "string \<Rightarrow> json_node_flag \<Rightarrow> string \<Rightarrow> string + (string \<times> json_node_flag) \<times> string" where
  "string_loop acc f [] = Inl []"
| "string_loop acc f (ch # c) =
     (if ch = quote then Inr ((rev acc, f), c)
      else if ch = backslash then
        (case c of
           [] \<Rightarrow> Inl []
         | esc # c' \<Rightarrow>
             if esc = CHR ''u'' then
               (if length c < 5 then Inl c
                else if \<not> list_all isxdigit (take 4 c') then Inl c
                else string_loop (rev (take 5 c) @ ch # acc) JSON_NODE_FLAG_STR_ESCAPED (drop 5 c))
             else if is_escape esc then string_loop (esc # ch # acc) JSON_NODE_FLAG_STR_ESCAPED c'
             else Inl c)
      else if of_char ch < (32 :: nat) then Inl (ch # c)
      else string_loop (ch # acc) f c)"

definition lex_string_span :: "string \<Rightarrow> string + (string \<times> json_node_flag) \<times> string" where
  "lex_string_span c =
     (case c of
        [] \<Rightarrow> Inl c
      | ch # c' \<Rightarrow> if ch \<noteq> quote then Inl c else string_loop [] JSON_NODE_FLAG_NONE c')"

definition skip_digits :: "string \<Rightarrow> string" where
  "skip_digits c = dropWhile is_digit c"

text \<open>At least one digit is needed.\<close>

definition need_digits :: "string \<Rightarrow> string + string" where
  "need_digits c = (case c of [] \<Rightarrow> Inl c | ch # _ \<Rightarrow> if is_digit ch then Inr (skip_digits c) else Inl c)"

definition lex_integer :: "string \<Rightarrow> string + string" where
  "lex_integer c =
     (case c of
        [] \<Rightarrow> Inl c
      | ch # c' \<Rightarrow> if ch = CHR ''0'' then Inr c' else if is_digit ch then Inr (skip_digits c) else Inl c)"

text \<open>The fraction and the exponent, each with the flag so far.\<close>

definition lex_fraction :: "json_node_flag \<Rightarrow> string \<Rightarrow> string + json_node_flag \<times> string" where
  "lex_fraction f c =
     (case c of
        ch # c' \<Rightarrow> if ch = CHR ''.'' then map_sum id (Pair JSON_NODE_FLAG_NUM_FLOAT) (need_digits c') else Inr (f, c)
      | [] \<Rightarrow> Inr (f, c))"

definition lex_exponent :: "json_node_flag \<Rightarrow> string \<Rightarrow> string + json_node_flag \<times> string" where
  "lex_exponent f c =
     (case c of
        ch # c' \<Rightarrow>
          if ch = CHR ''e'' \<or> ch = CHR ''E''
          then map_sum id (Pair JSON_NODE_FLAG_NUM_FLOAT)
                 (need_digits (case c' of s # c'' \<Rightarrow> if s = CHR ''+'' \<or> s = CHR ''-'' then c'' else c' | [] \<Rightarrow> c'))
          else Inr (f, c)
      | [] \<Rightarrow> Inr (f, c))"

definition lex_number_span :: "string \<Rightarrow> string + (string \<times> json_node_flag) \<times> string" where
  "lex_number_span start =
     (let c = (case start of ch # c' \<Rightarrow> if ch = CHR ''-'' then c' else start | [] \<Rightarrow> start)
      in case lex_integer c of
           Inl c \<Rightarrow> Inl c
         | Inr c \<Rightarrow>
             (case lex_fraction JSON_NODE_FLAG_NONE c of
                Inl c \<Rightarrow> Inl c
              | Inr (f, c) \<Rightarrow>
                  (case lex_exponent f c of
                     Inl c \<Rightarrow> Inl c
                   | Inr (f, c) \<Rightarrow> Inr ((take (length start - length c) start, f), c))))"

definition lex_keyword :: "string \<Rightarrow> string \<Rightarrow> string + string" where
  "lex_keyword c kw = (if length c < length kw \<or> take (length kw) c \<noteq> kw then Inl c else Inr (drop (length kw) c))"

lemma string_loop_shorter: "string_loop acc f c = Inr (x, c') \<Longrightarrow> length c' < length c"
proof (induction acc f c rule: string_loop.induct)
  case (2 acc f ch c)
  then show ?case by (cases c) (auto split: if_splits)
qed simp

lemma lex_string_shorter: "lex_string_span c = Inr (x, c') \<Longrightarrow> length c' < length c"
  by (auto simp: lex_string_span_def split: list.splits if_splits dest: string_loop_shorter)

text \<open>The loop of \<open>skip_container\<close>.\<close>

function skip_loop :: "char \<Rightarrow> char \<Rightarrow> int \<Rightarrow> string \<Rightarrow> string + string" where
  "skip_loop op cl depth c =
     (case c of
        [] \<Rightarrow> Inl c
      | ch # c' \<Rightarrow>
          if ch = quote then (case lex_string_span c of Inl _ \<Rightarrow> Inl c | Inr (_, c'') \<Rightarrow> skip_loop op cl depth c'')
          else if ch = op then skip_loop op cl (depth + 1) c'
          else if ch = cl then (if depth - 1 = 0 then Inr c' else skip_loop op cl (depth - 1) c')
          else skip_loop op cl depth c')"
  by pat_completeness auto
termination
  by (relation "measure (\<lambda>(op, cl, depth, c). length c)") (auto dest: lex_string_shorter)

declare skip_loop.simps [simp del]

definition skip_container :: "string \<Rightarrow> string + string" where
  "skip_container c =
     (case c of
        [] \<Rightarrow> Inl c
      | op # _ \<Rightarrow>
          if op = CHR ''{'' then skip_loop op (CHR ''}'') 0 c
          else if op = CHR ''['' then skip_loop op (CHR '']'') 0 c
          else Inl c)"

text \<open>The node of a value whose span runs from \<open>start\<close> to the rest \<open>c\<close>.\<close>

definition span_node :: "json_type \<Rightarrow> string \<Rightarrow> string \<Rightarrow> json_node \<times> string" where
  "span_node t start c = (\<lparr>jn_type = t, jn_flag = JSON_NODE_FLAG_NONE, jn_s = take (length start - length c) start\<rparr>, c)"

definition flag_node :: "json_type \<Rightarrow> (string \<times> json_node_flag) \<times> string \<Rightarrow> json_node \<times> string" where
  "flag_node t = (\<lambda>((span, f), c). (\<lparr>jn_type = t, jn_flag = f, jn_s = span\<rparr>, c))"

text \<open>Every error is \<open>JSON_ERR_PARSE\<close>.\<close>

definition lex_value :: "string \<Rightarrow> string + json_node \<times> string" where
  "lex_value c =
     (case c of
        [] \<Rightarrow> Inl c
      | ch # _ \<Rightarrow>
          if ch = CHR ''{'' \<or> ch = CHR ''[''
          then map_sum id (span_node (if ch = CHR ''{'' then JSON_OBJECT else JSON_ARRAY) c) (skip_container c)
          else if ch = quote then map_sum id (flag_node JSON_STRING) (lex_string_span c)
          else if ch = CHR ''t'' then map_sum id (span_node JSON_BOOL c) (lex_keyword c ''true'')
          else if ch = CHR ''f'' then map_sum id (span_node JSON_BOOL c) (lex_keyword c ''false'')
          else if ch = CHR ''n'' then map_sum id (span_node JSON_NULL c) (lex_keyword c ''null'')
          else if ch = CHR ''-'' \<or> is_digit ch then map_sum id (flag_node JSON_NUMBER) (lex_number_span c)
          else Inl c)"

lemma skip_ws_le: "length (skip_ws c) \<le> length c"
  unfolding skip_ws_def by (rule length_dropWhile_le)

lemma skip_digits_le: "length (skip_digits c) \<le> length c"
  unfolding skip_digits_def by (rule length_dropWhile_le)

lemma need_digits_shorter: "need_digits c = Inr c' \<Longrightarrow> length c' < length c"
  by (auto simp: need_digits_def skip_digits_def split: list.splits if_splits)

lemma lex_integer_shorter: "lex_integer c = Inr c' \<Longrightarrow> length c' < length c"
  by (auto simp: lex_integer_def skip_digits_def split: list.splits if_splits)

lemma lex_fraction_le: "lex_fraction f c = Inr (f', c') \<Longrightarrow> length c' \<le> length c"
  by (cases c) (auto simp: lex_fraction_def map_sum_eq_Inr split: if_splits dest!: need_digits_shorter)

lemma lex_exponent_le: "lex_exponent f c = Inr (f', c') \<Longrightarrow> length c' \<le> length c"
  by (cases c) (auto simp: lex_exponent_def map_sum_eq_Inr split: if_splits list.splits dest!: need_digits_shorter)

lemma lex_number_shorter: "lex_number_span c = Inr (x, c') \<Longrightarrow> length c' < length c"
  by (auto simp: lex_number_span_def Let_def split: sum.splits list.splits if_splits
      dest!: lex_integer_shorter lex_fraction_le lex_exponent_le)

lemma skip_loop_shorter: "skip_loop op cl depth c = Inr c' \<Longrightarrow> length c' < length c"
proof (induction op cl depth c rule: skip_loop.induct)
  case (1 op cl depth c)
  show ?case
  proof (cases c)
    case Nil
    then show ?thesis using 1(5) by (simp add: skip_loop.simps)
  next
    case (Cons ch r)
    then show ?thesis using 1(1-4) [OF Cons] 1(5)
      by (subst (asm) skip_loop.simps) (auto split: if_splits sum.splits prod.splits dest!: lex_string_shorter, fastforce+)
  qed
qed

lemma skip_container_shorter: "skip_container c = Inr c' \<Longrightarrow> length c' < length c"
  unfolding skip_container_def by (cases c) (simp_all only: list.case split: if_split_asm, auto dest: skip_loop_shorter)

lemma lex_keyword_shorter: "lex_keyword c kw = Inr c' \<Longrightarrow> kw \<noteq> [] \<Longrightarrow> length c' < length c"
  by (cases kw) (auto simp: lex_keyword_def split: if_splits)

lemma span_node_rest: "map_sum id (span_node t start) x = Inr (v, c') \<Longrightarrow> x = Inr c'"
  by (auto simp: map_sum_eq_Inr span_node_def)

lemma flag_node_rest: "map_sum id (flag_node t) x = Inr (v, c') \<Longrightarrow> \<exists>y. x = Inr (y, c')"
  by (auto simp: map_sum_eq_Inr flag_node_def)

lemma lex_value_cases:
  assumes "lex_value c = Inr (v, c')"
  obtains (container) t where "map_sum id (span_node t c) (skip_container c) = Inr (v, c')"
  | (str) "map_sum id (flag_node JSON_STRING) (lex_string_span c) = Inr (v, c')"
  | (keyword) t kw where "kw \<noteq> []" "map_sum id (span_node t c) (lex_keyword c kw) = Inr (v, c')"
  | (number) "map_sum id (flag_node JSON_NUMBER) (lex_number_span c) = Inr (v, c')"
proof (cases c)
  case Nil
  then show thesis using assms by (simp add: lex_value_def)
next
  case (Cons ch r)
  have kw: "''true'' \<noteq> []" "''false'' \<noteq> []" "''null'' \<noteq> []" by simp_all
  show thesis using assms unfolding lex_value_def unfolding Cons list.case unfolding Cons [symmetric]
    by (simp only: split: if_split_asm) (use that kw in \<open>blast+\<close>)
qed

lemma lex_value_shorter:
  assumes "lex_value c = Inr (v, c')"
  shows "length c' < length c"
  using assms
proof (cases rule: lex_value_cases)
  case container
  from span_node_rest [OF this] show ?thesis by (rule skip_container_shorter)
next
  case str
  from flag_node_rest [OF this] show ?thesis using lex_string_shorter by blast
next
  case (keyword t kw)
  from span_node_rest [OF this(2)] this(1) show ?thesis by (rule lex_keyword_shorter)
next
  case number
  from flag_node_rest [OF this] show ?thesis using lex_number_shorter by blast
qed

section \<open>Stepping into objects and arrays\<close>

lemma skip_ws_Cons: "skip_ws c = ch # r \<Longrightarrow> length r < length c"
  using skip_ws_le [of c] by simp

lemma lex_string_skip: "lex_string_span (skip_ws c) = Inr (x, c') \<Longrightarrow> length c' < length c"
  using lex_string_shorter skip_ws_le [of c] by fastforce

lemma lex_value_skip: "lex_value (skip_ws c) = Inr (v, c') \<Longrightarrow> length c' < length c"
  using lex_value_shorter skip_ws_le [of c] by fastforce

function object_loop :: "string \<Rightarrow> string \<Rightarrow> json_err + json_node" where
  "object_loop key c =
     (let c1 = skip_ws c
      in if c1 = [] then Inl JSON_ERR_PARSE
         else
           (case lex_string_span c1 of
              Inl _ \<Rightarrow> Inl JSON_ERR_PARSE
            | Inr ((key_span, key_flag), c2) \<Rightarrow>
                (case skip_ws c2 of
                   [] \<Rightarrow> Inl JSON_ERR_PARSE
                 | colon # c3 \<Rightarrow>
                     if colon \<noteq> CHR '':'' then Inl JSON_ERR_PARSE
                     else
                       (case lex_value (skip_ws c3) of
                          Inl _ \<Rightarrow> Inl JSON_ERR_PARSE
                        | Inr (v, c4) \<Rightarrow>
                            if key_flag \<noteq> JSON_NODE_FLAG_STR_ESCAPED \<and> key_span = key then Inr v
                            else
                              (case skip_ws c4 of
                                 [] \<Rightarrow> Inl JSON_ERR_PARSE
                               | ch # c5 \<Rightarrow>
                                   if ch = CHR '','' then object_loop key c5
                                   else if ch = CHR ''}'' then Inl JSON_ERR_NOT_FOUND
                                   else Inl JSON_ERR_PARSE)))))"
  by pat_completeness auto
termination
  by (relation "measure (\<lambda>(key, c). length c)") (auto dest!: lex_string_skip lex_value_skip skip_ws_Cons)

declare object_loop.simps [simp del]

definition object_step :: "json_node \<Rightarrow> string \<Rightarrow> json_err + json_node" where
  "object_step node key =
     (if jn_type node \<noteq> JSON_OBJECT then Inl JSON_ERR_TYPE
      else
        (case jn_s node of
           [] \<Rightarrow> Inl JSON_ERR_PARSE
         | op # c \<Rightarrow>
             if op \<noteq> CHR ''{'' then Inl JSON_ERR_PARSE
             else
               let c = skip_ws c
               in if c \<noteq> [] \<and> hd c = CHR ''}'' then Inl JSON_ERR_NOT_FOUND else object_loop key c))"

function array_loop :: "nat \<Rightarrow> nat \<Rightarrow> string \<Rightarrow> json_err + json_node" where
  "array_loop want i c =
     (case lex_value (skip_ws c) of
        Inl _ \<Rightarrow> Inl JSON_ERR_PARSE
      | Inr (v, c1) \<Rightarrow>
          if i = want then Inr v
          else
            (case skip_ws c1 of
               [] \<Rightarrow> Inl JSON_ERR_PARSE
             | ch # c2 \<Rightarrow>
                 if ch = CHR '','' then array_loop want (i + 1) c2
                 else if ch = CHR '']'' then Inl JSON_ERR_NOT_FOUND
                 else Inl JSON_ERR_PARSE))"
  by pat_completeness auto
termination
  by (relation "measure (\<lambda>(want, i, c). length c)") (auto dest!: lex_value_skip skip_ws_Cons)

declare array_loop.simps [simp del]

definition array_step :: "json_node \<Rightarrow> nat \<Rightarrow> json_err + json_node" where
  "array_step node want =
     (if jn_type node \<noteq> JSON_ARRAY then Inl JSON_ERR_TYPE
      else
        (case jn_s node of
           [] \<Rightarrow> Inl JSON_ERR_PARSE
         | op # c \<Rightarrow>
             if op \<noteq> CHR ''['' then Inl JSON_ERR_PARSE
             else
               let c = skip_ws c
               in if c \<noteq> [] \<and> hd c = CHR '']'' then Inl JSON_ERR_NOT_FOUND else array_loop want 0 c))"

section \<open>The evaluator\<close>

definition str_eq_unescaped :: "json_node \<Rightarrow> string \<Rightarrow> bool" where
  "str_eq_unescaped n rhs \<longleftrightarrow> jn_type n = JSON_STRING \<and> jn_flag n \<noteq> JSON_NODE_FLAG_STR_ESCAPED \<and> jn_s n = rhs"

definition num_eq_literal :: "json_node \<Rightarrow> string \<Rightarrow> bool" where
  "num_eq_literal n rhs \<longleftrightarrow> jn_type n = JSON_NUMBER \<and> jn_s n = rhs"

definition bool_eq_literal :: "json_node \<Rightarrow> string \<Rightarrow> bool" where
  "bool_eq_literal n rhs \<longleftrightarrow> jn_type n = JSON_BOOL \<and> jn_s n = rhs"

text \<open>The sub-query is evaluated by \<open>resolve\<close>, which stands for \<open>json_resolve\<close>.\<close>

definition where_holds ::
    "(string \<Rightarrow> json_query list \<Rightarrow> (json_err \<times> nat) + json_node) \<Rightarrow> json_node \<Rightarrow> json_query list \<Rightarrow> string \<Rightarrow> json_type \<Rightarrow> bool" where
  "where_holds resolve node sub rhs rhs_type =
     (case resolve (jn_s node) sub of
        Inl _ \<Rightarrow> False
      | Inr leaf \<Rightarrow>
          (case rhs_type of
             JSON_STRING \<Rightarrow> str_eq_unescaped leaf rhs
           | JSON_NUMBER \<Rightarrow> num_eq_literal leaf rhs
           | JSON_BOOL \<Rightarrow> bool_eq_literal leaf rhs
           | _ \<Rightarrow> False))"

definition iter_open_array :: "json_node \<Rightarrow> json_err + string" where
  "iter_open_array arr =
     (if jn_type arr \<noteq> JSON_ARRAY then Inl JSON_ERR_TYPE
      else (case jn_s arr of [] \<Rightarrow> Inl JSON_ERR_PARSE | op # c \<Rightarrow> if op \<noteq> CHR ''['' then Inl JSON_ERR_PARSE else Inr c))"

definition take_value :: "string \<Rightarrow> bool \<Rightarrow> (json_err + json_node) \<times> string \<times> bool" where
  "take_value rest saw_first =
     (case lex_value rest of
        Inl rest \<Rightarrow> (Inl JSON_ERR_PARSE, rest, saw_first)
      | Inr (v, rest) \<Rightarrow> (Inr v, rest, saw_first))"

definition iter_take :: "string \<Rightarrow> bool \<Rightarrow> (json_err + json_node) \<times> string \<times> bool" where
  "iter_take rest saw_first =
     (case skip_ws rest of
        [] \<Rightarrow> (Inl JSON_ERR_PARSE, [], saw_first)
      | ch # c \<Rightarrow>
          if ch = CHR '']'' then (Inl JSON_ERR_NOT_FOUND, c, saw_first)
          else if \<not> saw_first then take_value (ch # c) True
          else if ch \<noteq> CHR '','' then (Inl JSON_ERR_PARSE, ch # c, saw_first)
          else take_value (skip_ws c) saw_first)"

text \<open>The parts from index \<open>i\<close> on are applied to \<open>cur\<close>.\<close>

fun apply_from ::
    "(json_node \<Rightarrow> json_query list \<Rightarrow> string \<Rightarrow> json_type \<Rightarrow> bool) \<Rightarrow> json_query list \<Rightarrow> nat \<Rightarrow> json_iter_frame list \<Rightarrow> json_node \<Rightarrow>
     (json_err + json_node) \<times> json_iter_frame list" where
  "apply_from holds [] i frames cur = (Inr cur, frames)"
| "apply_from holds (QUERY_KEY key # parts) i frames cur =
     (case object_step cur key of Inl e \<Rightarrow> (Inl e, frames) | Inr cur \<Rightarrow> apply_from holds parts (i + 1) frames cur)"
| "apply_from holds (QUERY_INDEX want # parts) i frames cur =
     (case array_step cur want of Inl e \<Rightarrow> (Inl e, frames) | Inr cur \<Rightarrow> apply_from holds parts (i + 1) frames cur)"
| "apply_from holds (QUERY_ITER # parts) i frames cur =
     (if length frames \<ge> JSON_ITER_MAX_FRAMES then (Inl JSON_ERR_OOM, frames)
      else
        (case iter_open_array cur of
           Inl e \<Rightarrow> (Inl e, frames)
         | Inr rest \<Rightarrow>
             (case iter_take rest False of
                (r, rest, saw_first) \<Rightarrow>
                  let frames' = \<lparr>jf_part_index = i, jf_rest = rest, jf_saw_first = saw_first\<rparr> # frames
                  in (case r of
                        Inl e \<Rightarrow> (Inl e, if e = JSON_ERR_NOT_FOUND then frames else frames')
                      | Inr first \<Rightarrow> apply_from holds parts (i + 1) frames' first))))"
| "apply_from holds (QUERY_WHERE sub rhs rhs_type # parts) i frames cur =
     (if \<not> holds cur sub rhs rhs_type then (Inl JSON_ERR_NOT_FOUND, frames) else apply_from holds parts (i + 1) frames cur)"

text \<open>The bytes a frame has left, which every turn of the backtracking loop lowers.\<close>

definition frame_weight :: "json_iter_frame list \<Rightarrow> nat" where
  "frame_weight frames = (\<Sum>f \<leftarrow> frames. 2 * length (jf_rest f) + 1)"

lemma frame_weight_Cons: "frame_weight (f # frames) = 2 * length (jf_rest f) + 1 + frame_weight frames"
  by (simp add: frame_weight_def)

lemma string_loop_span: "string_loop acc f c = Inr ((sp, f'), c') \<Longrightarrow> length sp + length c' < length acc + length c"
proof (induction acc f c rule: string_loop.induct)
  case (2 acc f ch c)
  then show ?case by (cases c) (auto split: if_splits)
qed simp

lemma lex_value_span:
  assumes "lex_value c = Inr (v, c')"
  shows "length (jn_s v) + length c' \<le> length c"
  using assms
proof (cases rule: lex_value_cases)
  case str
  then show ?thesis by (auto simp: map_sum_eq_Inr flag_node_def lex_string_span_def split: list.splits if_splits dest!: string_loop_span)
next
  case number
  then show ?thesis
    by (auto simp: map_sum_eq_Inr flag_node_def lex_number_span_def Let_def split: sum.splits list.splits if_splits
        dest!: lex_integer_shorter lex_fraction_le lex_exponent_le)
qed (use lex_value_shorter [OF assms] in \<open>auto simp: map_sum_eq_Inr span_node_def\<close>)

lemma object_loop_span: "object_loop key c = Inr v \<Longrightarrow> length (jn_s v) \<le> length c"
proof (induction key c rule: object_loop.induct)
  case (1 key c)
  from 1(2) obtain sp fl c2 colon c3 w c4 where
    x: "lex_string_span (skip_ws c) = Inr ((sp, fl), c2)" "skip_ws c2 = colon # c3" "lex_value (skip_ws c3) = Inr (w, c4)" "skip_ws c \<noteq> []" "colon = CHR '':''"
    by (subst (asm) object_loop.simps) (auto simp: Let_def split: if_splits sum.splits list.splits)
  show ?case
  proof (cases "fl \<noteq> JSON_NODE_FLAG_STR_ESCAPED \<and> sp = key")
    case True
    then have "w = v" using 1(2) x by (subst (asm) object_loop.simps) (simp add: Let_def)
    then show ?thesis using lex_string_skip [OF x(1)] skip_ws_Cons [OF x(2)] lex_value_span [OF x(3)] skip_ws_le [of c3] by simp
  next
    case False
    then obtain c5 where y: "skip_ws c4 = CHR '','' # c5" "object_loop key c5 = Inr v"
      using 1(2) x by (subst (asm) object_loop.simps) (auto simp: Let_def split: if_splits list.splits)
    have "length (jn_s v) \<le> length c5" by (rule 1(1) [OF refl x(4,1) refl refl x(2) _ x(3) refl False y(1) refl y(2)]) (use x(5) in simp)
    then show ?thesis using lex_string_skip [OF x(1)] skip_ws_Cons [OF x(2)] lex_value_span [OF x(3)] skip_ws_le [of c3] skip_ws_Cons [OF y(1)] by simp
  qed
qed

lemma array_loop_span: "array_loop want i c = Inr v \<Longrightarrow> length (jn_s v) \<le> length c"
proof (induction want i c rule: array_loop.induct)
  case (1 want i c)
  from 1(2) obtain w c1 where x: "lex_value (skip_ws c) = Inr (w, c1)"
    by (subst (asm) array_loop.simps) (auto split: sum.splits)
  show ?case
  proof (cases "i = want")
    case True
    then have "w = v" using 1(2) x by (subst (asm) array_loop.simps) simp
    then show ?thesis using lex_value_span [OF x] skip_ws_le [of c] by simp
  next
    case False
    then obtain c2 where y: "skip_ws c1 = CHR '','' # c2" "array_loop want (i + 1) c2 = Inr v"
      using 1(2) x by (subst (asm) array_loop.simps) (auto split: if_splits list.splits)
    have "length (jn_s v) \<le> length c2" by (rule 1(1) [OF x refl False y(1) refl y(2)])
    then show ?thesis using lex_value_skip [OF x] skip_ws_Cons [OF y(1)] by simp
  qed
qed

lemma object_step_span:
  assumes "object_step node key = Inr v"
  shows "length (jn_s v) \<le> length (jn_s node)"
proof -
  from assms obtain op c where "jn_s node = op # c" "object_loop key (skip_ws c) = Inr v"
    by (auto simp: object_step_def Let_def split: if_splits list.splits)
  then show ?thesis using object_loop_span skip_ws_le [of c] by fastforce
qed

lemma array_step_span:
  assumes "array_step node want = Inr v"
  shows "length (jn_s v) \<le> length (jn_s node)"
proof -
  from assms obtain op c where "jn_s node = op # c" "array_loop want 0 (skip_ws c) = Inr v"
    by (auto simp: array_step_def Let_def split: if_splits list.splits)
  then show ?thesis using array_loop_span skip_ws_le [of c] by fastforce
qed

lemma iter_take_span:
  assumes "iter_take rest saw = (Inr v, rest', saw')"
  shows "length (jn_s v) + length rest' \<le> length rest \<and> length rest' < length rest"
proof -
  from assms obtain ch c where x: "skip_ws rest = ch # c" by (auto simp: iter_take_def split: list.splits)
  then have "lex_value (ch # c) = Inr (v, rest') \<or> lex_value (skip_ws c) = Inr (v, rest')"
    using assms by (auto simp: iter_take_def take_value_def split: if_splits sum.splits)
  then show ?thesis using skip_ws_Cons [OF x] lex_value_span lex_value_shorter skip_ws_le [of c] by fastforce
qed

lemma apply_from_weight:
  "apply_from holds parts i frames cur = (Inl JSON_ERR_NOT_FOUND, frames') \<Longrightarrow>
     frame_weight frames' \<le> frame_weight frames + (2 * length (jn_s cur) - 1)"
proof (induction holds parts i frames cur arbitrary: frames' rule: apply_from.induct)
  case (2 holds key parts i frames cur)
  then show ?case using object_step_span [of cur key] by (fastforce split: sum.splits)
next
  case (3 holds want parts i frames cur)
  then show ?case using array_step_span [of cur want] by (fastforce split: sum.splits)
next
  case (4 holds parts i frames cur)
  show ?case
  proof (cases "length frames \<ge> JSON_ITER_MAX_FRAMES \<or> isl (iter_open_array cur)")
    case True
    then show ?thesis using 4(2) by (auto simp: isl_def split: if_splits)
  next
    case False
    then obtain rest where rest: "iter_open_array cur = Inr rest" and d: "\<not> length frames \<ge> JSON_ITER_MAX_FRAMES" by (cases "iter_open_array cur") auto
    then have len: "length rest < length (jn_s cur)" by (auto simp: iter_open_array_def split: if_splits list.splits)
    obtain q rest' saw where t: "iter_take rest False = (q, rest', saw)" by (cases "iter_take rest False") auto
    show ?thesis
    proof (cases q)
      case (Inl e)
      then show ?thesis using 4(2) rest d t by (auto split: if_splits)
    next
      case (Inr v)
      let ?f = "\<lparr>jf_part_index = i, jf_rest = rest', jf_saw_first = saw\<rparr>"
      have "apply_from holds parts (i + 1) (?f # frames) v = (Inl JSON_ERR_NOT_FOUND, frames')" using 4(2) rest d t Inr by simp
      from 4(1) [OF d rest t [symmetric] refl refl Inr this] iter_take_span [OF t [unfolded Inr]] len
      show ?thesis unfolding frame_weight_Cons json_iter_frame.simps by linarith
    qed
  qed
next
  case (5 holds sub rhs rhs_type parts i frames cur)
  then show ?case by (auto split: if_splits)
qed simp

lemma frame_weight_turn:
  assumes "iter_take (jf_rest f) (jf_saw_first f) = (Inr v, rest, saw)"
    and "apply_from holds parts i (f \<lparr>jf_rest := rest, jf_saw_first := saw\<rparr> # frames) v = (Inl JSON_ERR_NOT_FOUND, frames')"
  shows "frame_weight frames' < frame_weight (f # frames)"
  using iter_take_span [OF assms(1)] apply_from_weight [OF assms(2)] unfolding frame_weight_Cons by (simp, linarith)

lemma frame_weight_pop: "frame_weight frames < frame_weight (f # frames)"
  by (simp add: frame_weight_Cons)

text \<open>The loop of \<open>backtrack_iter\<close>, one recursive call per turn.\<close>

function backtrack_iter ::
    "(json_node \<Rightarrow> json_query list \<Rightarrow> string \<Rightarrow> json_type \<Rightarrow> bool) \<Rightarrow> json_query list \<Rightarrow> json_iter_frame list \<Rightarrow>
     (json_err + json_node) \<times> json_iter_frame list" where
  "backtrack_iter holds parts [] = (Inl JSON_ERR_NOT_FOUND, [])"
| "backtrack_iter holds parts (f # frames) =
     (case iter_take (jf_rest f) (jf_saw_first f) of
        (Inl e, rest, saw_first) \<Rightarrow>
          if e = JSON_ERR_NOT_FOUND then backtrack_iter holds parts frames
          else (Inl e, f \<lparr>jf_rest := rest, jf_saw_first := saw_first\<rparr> # frames)
      | (Inr v, rest, saw_first) \<Rightarrow>
          (case apply_from holds (drop (jf_part_index f + 1) parts) (jf_part_index f + 1) (f \<lparr>jf_rest := rest, jf_saw_first := saw_first\<rparr> # frames) v of
             (Inl e, frames) \<Rightarrow> if e = JSON_ERR_NOT_FOUND then backtrack_iter holds parts frames else (Inl e, frames)
           | (Inr v, frames) \<Rightarrow> (Inr v, frames)))"
  by pat_completeness auto
termination
  by (relation "measure (\<lambda>(holds, parts, frames). frame_weight frames)") (auto intro: frame_weight_pop frame_weight_turn [OF sym sym])

declare backtrack_iter.simps [simp del]

text \<open>The recursion of \<open>json_resolve\<close> through \<open>where_holds\<close> only meets the sub-queries of the parts.\<close>

lemma where_holds_cong [fundef_cong]:
  assumes "node = node'" "sub = sub'" "rhs = rhs'" "t = t'" and "resolve (jn_s node') sub' = resolve' (jn_s node') sub'"
  shows "where_holds resolve node sub rhs t = where_holds resolve' node' sub' rhs' t'"
  using assms by (simp add: where_holds_def)

lemma apply_from_cong [fundef_cong]:
  assumes "parts = parts'" "i = i'" "frames = frames'" "cur = cur'"
    and "\<And>node sub rhs t. QUERY_WHERE sub rhs t \<in> set parts' \<Longrightarrow> holds node sub rhs t = holds' node sub rhs t"
  shows "apply_from holds parts i frames cur = apply_from holds' parts' i' frames' cur'"
proof -
  have "apply_from holds parts i frames cur = apply_from holds' parts i frames cur"
    using assms(1,5) unfolding assms(1)
    by (induction holds parts' i frames cur rule: apply_from.induct) (auto split: sum.splits prod.splits simp: Let_def)
  then show ?thesis using assms by simp
qed

lemma backtrack_iter_cong [fundef_cong]:
  assumes "parts = parts'" "frames = frames'"
    and "\<And>node sub rhs t. QUERY_WHERE sub rhs t \<in> set parts' \<Longrightarrow> holds node sub rhs t = holds' node sub rhs t"
  shows "backtrack_iter holds parts frames = backtrack_iter holds' parts' frames'"
proof -
  have "apply_from holds (drop n parts') i fs cur = apply_from holds' (drop n parts') i fs cur" for n i fs cur
    by (rule apply_from_cong [OF refl refl refl refl]) (use assms(3) in \<open>auto dest: in_set_dropD\<close>)
  then have "backtrack_iter holds parts' frames = backtrack_iter holds' parts' frames"
    by (induction holds parts' frames rule: backtrack_iter.induct) (simp_all add: backtrack_iter.simps split: sum.splits prod.splits)
  then show ?thesis using assms by simp
qed

lemma size_where: "QUERY_WHERE sub rhs t \<in> set parts \<Longrightarrow> size_list size sub < size_list size parts"
proof (induction parts)
  case (Cons q parts)
  then show ?case by (cases "q = QUERY_WHERE sub rhs t") auto
qed simp

text \<open>An error comes with the offset that the error report gets.\<close>

function json_resolve :: "string \<Rightarrow> json_query list \<Rightarrow> (json_err \<times> nat) + json_node" where
  "json_resolve src parts =
     (case lex_value (skip_ws src) of
        Inl c \<Rightarrow> Inl (JSON_ERR_PARSE, length src - length c)
      | Inr (doc, c) \<Rightarrow>
          map_sum (\<lambda>e. (e, length src - length c)) id
            (case apply_from (\<lambda>node sub rhs t. where_holds json_resolve node sub rhs t) parts 0 [] doc of
               (Inr v, frames) \<Rightarrow> Inr v
             | (Inl e, frames) \<Rightarrow>
                 if e = JSON_ERR_NOT_FOUND \<and> frames \<noteq> []
                 then fst (backtrack_iter (\<lambda>node sub rhs t. where_holds json_resolve node sub rhs t) parts frames)
                 else Inl e))"
  by pat_completeness auto
termination
  by (relation "measure (\<lambda>(src, parts). size_list size parts)") (auto intro: size_where)

declare json_resolve.simps [simp del]

section \<open>The iterator\<close>

definition json_iter_init :: "string \<Rightarrow> json_query list \<Rightarrow> json_iter" where
  "json_iter_init src parts = \<lparr>ji_src = src, ji_parts = parts, ji_last_err = (JSON_OK, 0), ji_done = False, ji_frames = []\<rparr>"

definition json_iter_next :: "json_iter \<Rightarrow> (json_err + json_node) \<times> json_iter" where
  "json_iter_next it =
     (let holds = where_holds json_resolve
      in if ji_done it then (Inl JSON_ERR_NOT_FOUND, it)
         else if ji_frames it = []
         then
           (case lex_value (skip_ws (ji_src it)) of
              Inl _ \<Rightarrow> (Inl JSON_ERR_PARSE, it \<lparr>ji_done := True\<rparr>)
            | Inr (doc, _) \<Rightarrow>
                (case apply_from holds (ji_parts it) 0 [] doc of
                   (Inr v, frames) \<Rightarrow> (Inr v, it \<lparr>ji_frames := frames\<rparr>)
                 | (Inl e, frames) \<Rightarrow>
                     if e = JSON_ERR_NOT_FOUND \<and> frames \<noteq> []
                     then (let (r, frames) = backtrack_iter holds (ji_parts it) frames in (r, it \<lparr>ji_frames := frames\<rparr>))
                     else (Inl e, it \<lparr>ji_frames := frames, ji_done := True\<rparr>)))
         else
           (case backtrack_iter holds (ji_parts it) (ji_frames it) of
              (Inr v, frames) \<Rightarrow> (Inr v, it \<lparr>ji_frames := frames\<rparr>)
            | (Inl e, frames) \<Rightarrow> (Inl e, it \<lparr>ji_frames := frames, ji_done := True\<rparr>)))"

section \<open>Conversions\<close>

text \<open>The decimal integer that \<open>strtoll\<close> and \<open>strtoull\<close> read: white space, a sign and digits. The result is the integer and the rest of
  the string; without digits nothing is read.\<close>

definition is_space :: "char \<Rightarrow> bool" where
  "is_space ch \<longleftrightarrow> ch = CHR '' '' \<or> of_char ch \<in> {9 .. (13 :: nat)}"

definition read_integer :: "string \<Rightarrow> int \<times> string" where
  "read_integer s =
     (let t = dropWhile is_space s;
          negative = (t \<noteq> [] \<and> hd t = CHR ''-'');
          u = (if t \<noteq> [] \<and> (hd t = CHR ''-'' \<or> hd t = CHR ''+'') then tl t else t);
          digits = takeWhile is_digit u;
          v = int (foldl (\<lambda>v c. v * 10 + (of_char c - 48)) 0 digits)
      in if digits = [] then (0, s) else (if negative then - v else v, dropWhile is_digit u))"

text \<open>\<open>None\<close> is \<open>JSON_ERR_RANGE\<close>: a result out of range, which sets \<open>errno\<close>, or bytes left over.\<close>

definition strtoll :: "string \<Rightarrow> int option" where
  "strtoll s = (let (v, rest) = read_integer s in if v < - (2 ^ 63) \<or> v \<ge> 2 ^ 63 \<or> rest \<noteq> [] then None else Some v)"

text \<open>\<open>strtoull\<close> takes the negative of a number with a minus sign modulo \<open>2 ^ 64\<close>.\<close>

definition strtoull :: "string \<Rightarrow> nat option" where
  "strtoull s = (let (v, rest) = read_integer s in if \<bar>v\<bar> \<ge> 2 ^ 64 \<or> rest \<noteq> [] then None else Some (nat (v mod 2 ^ 64)))"

definition json_as_int :: "json_node \<Rightarrow> json_err + int" where
  "json_as_int n =
     (if jn_type n \<noteq> JSON_NUMBER then Inl JSON_ERR_TYPE
      else if jn_flag n = JSON_NODE_FLAG_NUM_FLOAT then Inl JSON_ERR_RANGE
      else if length (jn_s n) = 0 \<or> length (jn_s n) \<ge> 64 then Inl JSON_ERR_RANGE
      else (case strtoll (jn_s n) of None \<Rightarrow> Inl JSON_ERR_RANGE | Some v \<Rightarrow> Inr v))"

definition json_as_uint :: "json_node \<Rightarrow> json_err + nat" where
  "json_as_uint n =
     (if jn_type n \<noteq> JSON_NUMBER then Inl JSON_ERR_TYPE
      else if jn_flag n = JSON_NODE_FLAG_NUM_FLOAT then Inl JSON_ERR_RANGE
      else if length (jn_s n) > 0 \<and> hd (jn_s n) = CHR ''-'' then Inl JSON_ERR_RANGE
      else if length (jn_s n) = 0 \<or> length (jn_s n) \<ge> 64 then Inl JSON_ERR_RANGE
      else (case strtoull (jn_s n) of None \<Rightarrow> Inl JSON_ERR_RANGE | Some v \<Rightarrow> Inr v))"

definition json_as_bool :: "json_node \<Rightarrow> json_err + bool" where
  "json_as_bool n =
     (if jn_type n \<noteq> JSON_BOOL then Inl JSON_ERR_TYPE
      else if jn_s n = ''true'' then Inr True
      else if jn_s n = ''false'' then Inr False
      else Inl JSON_ERR_RANGE)"

definition json_str_eq :: "json_node \<Rightarrow> string \<Rightarrow> bool" where
  "json_str_eq n lit \<longleftrightarrow> jn_type n = JSON_STRING \<and> jn_flag n \<noteq> JSON_NODE_FLAG_STR_ESCAPED \<and> jn_s n = lit"

section \<open>Members of an object\<close>

definition json_object_iter_init :: "json_node \<Rightarrow> json_err + json_object_iter" where
  "json_object_iter_init node =
     (if jn_type node \<noteq> JSON_OBJECT then Inl JSON_ERR_TYPE
      else if length (jn_s node) < 2 \<or> hd (jn_s node) \<noteq> CHR ''{'' \<or> last (jn_s node) \<noteq> CHR ''}'' then Inl JSON_ERR_PARSE
      else Inr \<lparr>jo_remaining = tl (jn_s node), jo_first = True\<rparr>)"

text \<open>The key and the value of the next member. The iterator only moves when both were read.\<close>

definition json_object_iter_next :: "json_object_iter \<Rightarrow> json_err + (json_node \<times> json_node) \<times> json_object_iter" where
  "json_object_iter_next it =
     (case skip_ws (jo_remaining it) of
        [] \<Rightarrow> Inl JSON_ERR_PARSE
      | ch # c \<Rightarrow>
          if ch = CHR ''}'' then Inl JSON_ERR_NOT_FOUND
          else if \<not> jo_first it \<and> ch \<noteq> CHR '','' then Inl JSON_ERR_PARSE
          else
            (case lex_string_span (if jo_first it then ch # c else skip_ws c) of
               Inl _ \<Rightarrow> Inl JSON_ERR_PARSE
             | Inr ((key_span, key_flag), c) \<Rightarrow>
                 (case skip_ws c of
                    [] \<Rightarrow> Inl JSON_ERR_PARSE
                  | colon # c \<Rightarrow>
                      if colon \<noteq> CHR '':'' then Inl JSON_ERR_PARSE
                      else
                        (case lex_value (skip_ws c) of
                           Inl _ \<Rightarrow> Inl JSON_ERR_PARSE
                         | Inr (v, c) \<Rightarrow>
                             Inr ((\<lparr>jn_type = JSON_STRING, jn_flag = key_flag, jn_s = key_span\<rparr>, v), \<lparr>jo_remaining = c, jo_first = False\<rparr>)))))"

end
