(* ===== verification/Float_Bits.thy ===== *)
theory Float_Bits
  imports Json "HOL-Library.Log_Nat"
begin

unbundle bit_operations_syntax

text \<open>
  Floating point numbers as bit patterns, as far as the program touches them: \<open>strtod\<close> on the numbers of JSON
  (json\_as\_double in src/src/util/json.c), the conversion from \<open>double\<close> to \<open>float\<close>, and float\_to\_half\_bits of
  src/src/zarr/zarr\_metadata.c. A binary format has \<open>m\<close> bits of fraction and \<open>x\<close> bits of exponent; its numbers are handled as
  naturals.
\<close>

section \<open>Rounding to a binary format\<close>

text \<open>A quotient rounded to the nearest natural, ties to even.\<close>

definition round_quot :: "nat \<Rightarrow> nat \<Rightarrow> nat" where
  "round_quot p q = (let d = p div q; r = p mod q in if 2 * r < q \<or> 2 * r = q \<and> even d then d else d + 1)"

definition bias :: "nat \<Rightarrow> nat" where
  "bias x = 2 ^ (x - 1) - 1"

definition infinity_bits :: "nat \<Rightarrow> nat \<Rightarrow> nat" where
  "infinity_bits m x = (2 ^ x - 1) * 2 ^ m"

text \<open>The binary exponent of \<open>p / q\<close>: the largest \<open>e\<close> with \<open>2 ^ e \<le> p / q\<close>.\<close>

definition scaled_le :: "int \<Rightarrow> nat \<Rightarrow> nat \<Rightarrow> bool" where
  "scaled_le e p q \<longleftrightarrow> (if e \<ge> 0 then q * 2 ^ nat e \<le> p else q \<le> p * 2 ^ nat (- e))"

definition binary_exponent :: "nat \<Rightarrow> nat \<Rightarrow> int" where
  "binary_exponent p q = (let e = int (floorlog 2 p) - int (floorlog 2 q) in if scaled_le e p q then e else e - 1)"

text \<open>The pattern of \<open>p / q\<close> without its sign, and whether the number was too large or too small to be exact.\<close>

definition float_bits :: "nat \<Rightarrow> nat \<Rightarrow> nat \<Rightarrow> nat \<Rightarrow> nat \<times> bool \<times> bool" where
  "float_bits m x p q =
     (if p = 0 then (0, False, False)
      else
        let emin = 1 - int (bias x);
            e = max (binary_exponent p q) emin;
            shift = int m - e;
            (p', q') = (if shift \<ge> 0 then (p * 2 ^ nat shift, q) else (p, q * 2 ^ nat (- shift)));
            b = nat (e - emin) * 2 ^ m + round_quot p' q'
        in if b \<ge> infinity_bits m x then (infinity_bits m x, True, False)
           else (b, False, binary_exponent p q < emin \<and> p' mod q' \<noteq> 0))"

section \<open>\<open>strtod\<close>\<close>

text \<open>The parts of a JSON number: its digits without the point as a natural, the power of ten, and the rest.\<close>

definition digits_value :: "string \<Rightarrow> nat" where
  "digits_value s = foldl (\<lambda>v c. v * 10 + (of_char c - 48)) 0 s"

definition read_exponent :: "string \<Rightarrow> int \<times> string" where
  "read_exponent c =
     (case c of
        e # c' \<Rightarrow>
          if e = CHR ''e'' \<or> e = CHR ''E''
          then (let s = (case c' of ch # c'' \<Rightarrow> if ch = CHR ''+'' \<or> ch = CHR ''-'' then c'' else c' | [] \<Rightarrow> c');
                    ds = takeWhile is_digit s
                in if ds = [] then (0, c)
                   else ((if c' \<noteq> [] \<and> hd c' = CHR ''-'' then - int (digits_value ds) else int (digits_value ds)), dropWhile is_digit s))
          else (0, c)
      | [] \<Rightarrow> (0, c))"

definition read_decimal :: "string \<Rightarrow> nat \<times> int \<times> string" where
  "read_decimal s =
     (let ip = takeWhile is_digit s; c = dropWhile is_digit s;
          fp = (case c of ch # c' \<Rightarrow> if ch = CHR ''.'' then takeWhile is_digit c' else [] | [] \<Rightarrow> []);
          c = (case c of ch # c' \<Rightarrow> if ch = CHR ''.'' then dropWhile is_digit c' else c | [] \<Rightarrow> c);
          (e, c) = read_exponent c
      in (digits_value (ip @ fp), e - int (length fp), c))"

definition sign_bit :: "nat \<Rightarrow> nat \<Rightarrow> bool \<Rightarrow> nat" where
  "sign_bit m x negative = (if negative then 2 ^ (m + x) else 0)"

text \<open>\<open>strtod\<close> on the text of a JSON number; \<open>None\<close> when \<open>errno\<close> is set or bytes are left over. Whether a result too small to be
  exact sets \<open>errno\<close> is left to the implementation.\<close>

definition strtod :: "bool \<Rightarrow> string \<Rightarrow> 64 word option" where
  "strtod underflow_errno s =
     (let negative = (s \<noteq> [] \<and> hd s = CHR ''-'');
          (v, k, rest) = read_decimal (if negative then tl s else s);
          (b, large, small) = float_bits 52 11 (if k \<ge> 0 then v * 10 ^ nat k else v) (if k \<ge> 0 then 1 else 10 ^ nat (- k))
      in if large \<or> (small \<and> underflow_errno) \<or> rest \<noteq> [] then None else Some (word_of_nat (sign_bit 52 11 negative + b)))"

definition json_as_double :: "bool \<Rightarrow> json_node \<Rightarrow> json_err + 64 word" where
  "json_as_double underflow_errno n =
     (if jn_type n \<noteq> JSON_NUMBER then Inl JSON_ERR_TYPE
      else if length (jn_s n) = 0 \<or> length (jn_s n) \<ge> 64 then Inl JSON_ERR_RANGE
      else (case strtod underflow_errno (jn_s n) of None \<Rightarrow> Inl JSON_ERR_RANGE | Some v \<Rightarrow> Inr v))"

section \<open>Conversions\<close>

text \<open>From \<open>double\<close> to \<open>float\<close>: a NaN keeps its sign and the high bits of its fraction.\<close>

definition float_of_double :: "64 word \<Rightarrow> 32 word" where
  "float_of_double d =
     (let n = unat d; f = n mod 2 ^ 52; e = n div 2 ^ 52 mod 2 ^ 11;
          s = sign_bit 23 8 (n \<ge> 2 ^ 63);
          shift = int (max e 1) - 1023 - 52;
          v = (if e = 0 then f else f + 2 ^ 52)
      in word_of_nat (s +
           (if e = 2047 then infinity_bits 23 8 + (if f = 0 then 0 else (f div 2 ^ 29) mod 2 ^ 22 + 2 ^ 22)
            else fst (float_bits 23 8 (if shift \<ge> 0 then v * 2 ^ nat shift else v) (if shift \<ge> 0 then 1 else 2 ^ nat (- shift))))))"

definition float_to_half_bits :: "32 word \<Rightarrow> 16 word" where
  "float_to_half_bits f_bits =
     (let sign = drop_bit 31 f_bits AND 1;
          e = sint (drop_bit 23 f_bits AND 0xFF) - 127;
          m = f_bits AND 0x7FFFFF
      in if drop_bit 23 f_bits AND 0xFF = 0xFF then ucast (push_bit 15 sign OR push_bit 10 31 OR (if m \<noteq> 0 then 0x200 else 0))
         else if f_bits AND 0x7FFFFFFF = 0 then ucast (push_bit 15 sign)
         else if e > 15 then ucast (push_bit 15 sign OR push_bit 10 31)
         else if e < -14 then ucast (push_bit 15 sign)
         else ucast (push_bit 15 sign OR push_bit 10 (word_of_int (e + 15)) OR drop_bit 13 (m + 0x1000)))"

end
