(* ===== verification/Json_Text.thy ===== *)
theory Json_Text
  imports Json
begin

text \<open>
  The lexer of util/json.c against the grammar of JSON: every text of a value is read as one value, up to its last byte. The
  grammar is written down without the lexer; white space may stand wherever the grammar allows it.
\<close>

section \<open>Values and their texts\<close>

text \<open>Numbers and strings are kept as they are written.\<close>

datatype json = JNull | JBool bool | JNum string | JStr string | JArr "json list" | JObj "(string \<times> json) list"

abbreviation ws :: "string \<Rightarrow> bool" where
  "ws w \<equiv> list_all is_ws w"

definition digits :: "string \<Rightarrow> bool" where
  "digits s \<longleftrightarrow> s \<noteq> [] \<and> list_all is_digit s"

definition number_text :: "string \<Rightarrow> bool" where
  "number_text n \<longleftrightarrow> (\<exists>sign ip fp ep. n = sign @ ip @ fp @ ep \<and> sign \<in> {'''', ''-''} \<and>
     (ip = ''0'' \<or> digits ip \<and> hd ip \<noteq> CHR ''0'') \<and> (fp = [] \<or> (\<exists>ds. fp = CHR ''.'' # ds \<and> digits ds)) \<and>
     (ep = [] \<or> (\<exists>e s ds. ep = e # s @ ds \<and> e \<in> {CHR ''e'', CHR ''E''} \<and> s \<in> {'''', ''+'', ''-''} \<and> digits ds)))"

inductive string_text :: "string \<Rightarrow> bool" where
  string_text_Nil: "string_text []"
| string_text_plain: "ch \<noteq> quote \<Longrightarrow> ch \<noteq> backslash \<Longrightarrow> 32 \<le> (of_char ch :: nat) \<Longrightarrow> string_text s \<Longrightarrow> string_text (ch # s)"
| string_text_escape: "is_escape ch \<Longrightarrow> string_text s \<Longrightarrow> string_text (backslash # ch # s)"
| string_text_unicode: "length hex = 4 \<Longrightarrow> list_all isxdigit hex \<Longrightarrow> string_text s \<Longrightarrow> string_text (backslash # CHR ''u'' # hex @ s)"

abbreviation quoted :: "string \<Rightarrow> string" where
  "quoted s \<equiv> quote # s @ [quote]"

inductive jtext :: "json \<Rightarrow> string \<Rightarrow> bool"
  and jelems :: "json list \<Rightarrow> string \<Rightarrow> bool"
  and jmembers :: "(string \<times> json) list \<Rightarrow> string \<Rightarrow> bool" where
  jtext_null: "jtext JNull ''null''"
| jtext_bool: "jtext (JBool b) (if b then ''true'' else ''false'')"
| jtext_num: "number_text n \<Longrightarrow> jtext (JNum n) n"
| jtext_str: "string_text s \<Longrightarrow> jtext (JStr s) (quoted s)"
| jtext_arr0: "ws w \<Longrightarrow> jtext (JArr []) (''['' @ w @ '']'')"
| jtext_arr: "jelems vs s \<Longrightarrow> jtext (JArr vs) (''['' @ s @ '']'')"
| jtext_obj0: "ws w \<Longrightarrow> jtext (JObj []) (''{'' @ w @ ''}'')"
| jtext_obj: "jmembers ms s \<Longrightarrow> jtext (JObj ms) (''{'' @ s @ ''}'')"
| jelems_one: "ws w1 \<Longrightarrow> jtext v t \<Longrightarrow> ws w2 \<Longrightarrow> jelems [v] (w1 @ t @ w2)"
| jelems_more: "ws w1 \<Longrightarrow> jtext v t \<Longrightarrow> ws w2 \<Longrightarrow> jelems vs s \<Longrightarrow> jelems (v # vs) (w1 @ t @ w2 @ '','' @ s)"
| jmembers_one: "ws w1 \<Longrightarrow> string_text k \<Longrightarrow> ws w2 \<Longrightarrow> ws w3 \<Longrightarrow> jtext v t \<Longrightarrow> ws w4 \<Longrightarrow>
     jmembers [(k, v)] (w1 @ quoted k @ w2 @ '':'' @ w3 @ t @ w4)"
| jmembers_more: "ws w1 \<Longrightarrow> string_text k \<Longrightarrow> ws w2 \<Longrightarrow> ws w3 \<Longrightarrow> jtext v t \<Longrightarrow> ws w4 \<Longrightarrow> jmembers ms s \<Longrightarrow>
     jmembers ((k, v) # ms) (w1 @ quoted k @ w2 @ '':'' @ w3 @ t @ w4 @ '','' @ s)"

section \<open>Strings and numbers\<close>

lemma string_loop_text:
  "string_text s \<Longrightarrow> string_loop acc f (s @ quote # rest) =
     Inr ((rev acc @ s, if backslash \<in> set s then JSON_NODE_FLAG_STR_ESCAPED else f), rest)"
proof (induction s arbitrary: acc f rule: string_text.induct)
  case (string_text_escape ch s)
  then show ?case by (cases "ch = CHR ''u''") (auto simp: is_escape_def)
next
  case (string_text_unicode hex s)
  then have "take 4 (hex @ s @ quote # rest) = hex" "drop 4 (hex @ s @ quote # rest) = s @ quote # rest" by simp_all
  then show ?case using string_text_unicode by simp
qed simp_all

abbreviation str_flag :: "string \<Rightarrow> json_node_flag" where
  "str_flag s \<equiv> if backslash \<in> set s then JSON_NODE_FLAG_STR_ESCAPED else JSON_NODE_FLAG_NONE"

lemma lex_string_text: "string_text s \<Longrightarrow> lex_string_span (quoted s @ rest) = Inr ((s, str_flag s), rest)"
  by (simp add: lex_string_span_def string_loop_text)

text \<open>A quote in the body of a string follows a backslash.\<close>

lemma xdigit_not_quote: "\<not> isxdigit quote"
  by (simp add: isxdigit_def is_digit_def)

lemma string_text_quote: "string_text s \<Longrightarrow> s = p @ quote # q \<Longrightarrow> p \<noteq> [] \<and> last p = backslash"
proof (induction s arbitrary: p rule: string_text.induct)
  case (string_text_plain ch s)
  then show ?case by (auto simp: Cons_eq_append_conv)
next
  case (string_text_escape ch s)
  then show ?case by (auto simp: Cons_eq_append_conv)
next
  case (string_text_unicode hex s)
  then obtain a b c d where hex: "hex = [a, b, c, d]" by (auto simp: length_Suc_conv numeral_eq_Suc)
  then have "a \<noteq> quote" "b \<noteq> quote" "c \<noteq> quote" "d \<noteq> quote" using string_text_unicode(2) xdigit_not_quote by auto
  then show ?case using string_text_unicode hex by (auto simp: Cons_eq_append_conv)
qed simp

definition num_end :: "string \<Rightarrow> bool" where
  "num_end s \<longleftrightarrow> s = [] \<or> \<not> is_digit (hd s) \<and> hd s \<notin> {CHR ''.'', CHR ''e'', CHR ''E''}"

definition num_flag :: "string \<Rightarrow> json_node_flag" where
  "num_flag n = (if list_ex (\<lambda>c. c \<in> {CHR ''.'', CHR ''e'', CHR ''E''}) n then JSON_NODE_FLAG_NUM_FLOAT else JSON_NODE_FLAG_NONE)"

lemma skip_digits_stop: "list_all is_digit ds \<Longrightarrow> s = [] \<or> \<not> is_digit (hd s) \<Longrightarrow> skip_digits (ds @ s) = s"
  by (cases s) (auto simp: skip_digits_def list_all_iff dropWhile_append2)

lemma need_digits_stop: "digits ds \<Longrightarrow> s = [] \<or> \<not> is_digit (hd s) \<Longrightarrow> need_digits (ds @ s) = Inr s"
  using skip_digits_stop [of ds s] by (cases ds) (auto simp: need_digits_def digits_def)

lemma digit_chars: "is_digit c \<Longrightarrow> c \<noteq> CHR ''-'' \<and> c \<noteq> CHR ''.'' \<and> c \<noteq> CHR ''e'' \<and> c \<noteq> CHR ''E'' \<and> c \<noteq> CHR ''+'' \<and> c \<noteq> quote"
  by (auto simp: is_digit_def)

lemma lex_integer_text:
  assumes "ip = ''0'' \<or> digits ip \<and> hd ip \<noteq> CHR ''0''" and "s = [] \<or> \<not> is_digit (hd s)"
  shows "lex_integer (ip @ s) = Inr s"
proof (cases "ip = ''0''")
  case False
  then obtain d ds where d: "ip = d # ds" "is_digit d" "list_all is_digit ds" "d \<noteq> CHR ''0''" using assms(1) by (cases ip) (auto simp: digits_def)
  then show ?thesis using skip_digits_stop [of ip s] assms(2) by (simp add: lex_integer_def)
qed (simp add: lex_integer_def)

lemma lex_fraction_text:
  assumes "fp = [] \<or> (\<exists>ds. fp = CHR ''.'' # ds \<and> digits ds)" and "s = [] \<or> \<not> is_digit (hd s) \<and> hd s \<noteq> CHR ''.''"
  shows "lex_fraction f (fp @ s) = Inr (if fp = [] then f else JSON_NODE_FLAG_NUM_FLOAT, s)"
  using assms need_digits_stop [of _ s] by (cases s) (auto simp: lex_fraction_def)

lemma lex_exponent_text:
  assumes "ep = [] \<or> (\<exists>e s ds. ep = e # s @ ds \<and> e \<in> {CHR ''e'', CHR ''E''} \<and> s \<in> {'''', ''+'', ''-''} \<and> digits ds)" and "num_end rest"
  shows "lex_exponent f (ep @ rest) = Inr (if ep = [] then f else JSON_NODE_FLAG_NUM_FLOAT, rest)"
proof (cases "ep = []")
  case True
  then show ?thesis using assms(2) by (cases rest) (auto simp: lex_exponent_def num_end_def)
next
  case False
  then obtain e s ds where x: "ep = e # s @ ds" "e \<in> {CHR ''e'', CHR ''E''}" "s \<in> {'''', ''+'', ''-''}" "digits ds" using assms(1) by blast
  obtain d ds' where d: "ds = d # ds'" "is_digit d" using x(4) by (cases ds) (auto simp: digits_def)
  have "need_digits (ds @ rest) = Inr rest" by (rule need_digits_stop [OF x(4)]) (use assms(2) in \<open>auto simp: num_end_def\<close>)
  then show ?thesis using x(1-3) d digit_chars [OF d(2)] by (auto simp: lex_exponent_def)
qed

lemma lex_number_text:
  assumes "number_text n" and "num_end rest"
  shows "lex_number_span (n @ rest) = Inr ((n, num_flag n), rest)"
proof -
  from assms(1) obtain sign ip fp ep where n: "n = sign @ ip @ fp @ ep" and sign: "sign \<in> {'''', ''-''}"
    and ip: "ip = ''0'' \<or> digits ip \<and> hd ip \<noteq> CHR ''0''" and fp: "fp = [] \<or> (\<exists>ds. fp = CHR ''.'' # ds \<and> digits ds)"
    and ep: "ep = [] \<or> (\<exists>e s ds. ep = e # s @ ds \<and> e \<in> {CHR ''e'', CHR ''E''} \<and> s \<in> {'''', ''+'', ''-''} \<and> digits ds)"
    unfolding number_text_def by blast
  have er: "ep @ rest = [] \<or> \<not> is_digit (hd (ep @ rest)) \<and> hd (ep @ rest) \<noteq> CHR ''.''"
    using ep assms(2) by (auto simp: num_end_def is_digit_def)
  have fr: "fp @ ep @ rest = [] \<or> \<not> is_digit (hd (fp @ ep @ rest))" using fp er by (auto simp: is_digit_def)
  obtain d ds where d: "ip = d # ds" "is_digit d" "list_all is_digit ds" using ip by (cases ip) (auto simp: digits_def is_digit_def)
  have start: "(case n @ rest of ch # c' \<Rightarrow> if ch = CHR ''-'' then c' else n @ rest | [] \<Rightarrow> n @ rest) = ip @ fp @ ep @ rest"
    using sign d digit_chars [OF d(2)] by (auto simp: n)
  have digs: "list_ex (\<lambda>c. c \<in> {CHR ''.'', CHR ''e'', CHR ''E''}) ds = False" if "list_all is_digit ds" for ds
    using that digit_chars by (auto simp: list_ex_iff list_all_iff)
  have flag: "num_flag n = (if ep = [] then if fp = [] then JSON_NODE_FLAG_NONE else JSON_NODE_FLAG_NUM_FLOAT else JSON_NODE_FLAG_NUM_FLOAT)"
    using sign fp ep d digs [OF d(3)] digit_chars [OF d(2)] by (auto simp: num_flag_def n)
  show ?thesis
    unfolding lex_number_span_def Let_def start lex_integer_text [OF ip fr] sum.case lex_fraction_text [OF fp er] prod.case
      lex_exponent_text [OF ep assms(2)] using flag by simp
qed

section \<open>Containers\<close>

definition brackets :: "char \<Rightarrow> char \<Rightarrow> bool" where
  "brackets op cl \<longleftrightarrow> op = CHR ''['' \<and> cl = CHR '']'' \<or> op = CHR ''{'' \<and> cl = CHR ''}''"

lemma skip_loop_plain:
  "list_all (\<lambda>ch. ch \<noteq> quote \<and> ch \<noteq> op \<and> ch \<noteq> cl) s \<Longrightarrow> skip_loop op cl d (s @ rest) = skip_loop op cl d rest"
proof (induction s)
  case (Cons ch s)
  then show ?case by (subst skip_loop.simps) simp
qed simp

lemma skip_loop_string: "string_text s \<Longrightarrow> skip_loop op cl d (quoted s @ rest) = skip_loop op cl d rest"
  using lex_string_text [of s rest] by (subst skip_loop.simps) simp

lemma ws_plain: "ws w \<Longrightarrow> brackets op cl \<Longrightarrow> list_all (\<lambda>ch. ch \<noteq> quote \<and> ch \<noteq> op \<and> ch \<noteq> cl) w"
proof -
  assume br: "brackets op cl" and "ws w"
  have "is_ws ch \<Longrightarrow> ch \<noteq> quote \<and> ch \<noteq> op \<and> ch \<noteq> cl" for ch using br unfolding is_ws_def brackets_def by (elim disjE conjE) simp_all
  then show ?thesis using \<open>ws w\<close> by (simp add: list_all_iff)
qed

lemma skip_loop_ws [simp]: "ws w \<Longrightarrow> brackets op cl \<Longrightarrow> skip_loop op cl d (w @ rest) = skip_loop op cl d rest"
  by (rule skip_loop_plain [OF ws_plain])

lemma digits_plain: "list_all is_digit ds \<Longrightarrow> brackets op cl \<Longrightarrow> list_all (\<lambda>ch. ch \<noteq> quote \<and> ch \<noteq> op \<and> ch \<noteq> cl) ds"
proof -
  assume br: "brackets op cl" and "list_all is_digit ds"
  have "is_digit ch \<Longrightarrow> ch \<noteq> quote \<and> ch \<noteq> op \<and> ch \<noteq> cl" for ch using br by (auto simp: is_digit_def brackets_def)
  then show ?thesis using \<open>list_all is_digit ds\<close> by (simp add: list_all_iff)
qed

lemma number_plain:
  assumes "number_text n" "brackets op cl"
  shows "list_all (\<lambda>ch. ch \<noteq> quote \<and> ch \<noteq> op \<and> ch \<noteq> cl) n"
proof -
  let ?P = "\<lambda>ch. ch \<noteq> quote \<and> ch \<noteq> op \<and> ch \<noteq> cl"
  from assms(1) obtain sign ip fp ep where n: "n = sign @ ip @ fp @ ep" and sign: "sign \<in> {'''', ''-''}"
    and ip: "ip = ''0'' \<or> digits ip \<and> hd ip \<noteq> CHR ''0''" and fp: "fp = [] \<or> (\<exists>ds. fp = CHR ''.'' # ds \<and> digits ds)"
    and ep: "ep = [] \<or> (\<exists>e s ds. ep = e # s @ ds \<and> e \<in> {CHR ''e'', CHR ''E''} \<and> s \<in> {'''', ''+'', ''-''} \<and> digits ds)"
    unfolding number_text_def by blast
  have c: "?P (CHR ''-'')" "?P (CHR ''+'')" "?P (CHR ''.'')" "?P (CHR ''e'')" "?P (CHR ''E'')" "?P (CHR ''0'')"
    using assms(2) by (auto simp: brackets_def)
  have d: "digits ds \<Longrightarrow> list_all ?P ds" for ds using digits_plain [OF _ assms(2)] by (simp add: digits_def)
  have "list_all ?P sign" "list_all ?P ip" "list_all ?P fp" using sign ip fp c d by auto
  moreover have "list_all ?P ep" using ep c d by auto
  ultimately show ?thesis by (simp add: n)
qed

lemma skip_loop_pair:
  assumes br: "brackets op cl" "brackets o' c'" and d: "0 < d"
    and inner: "\<And>d'. 0 < d' \<Longrightarrow> skip_loop op cl d' (s @ c' # rest) = skip_loop op cl d' (c' # rest)"
  shows "skip_loop op cl d (o' # s @ c' # rest) = skip_loop op cl d rest"
proof (cases "o' = op")
  case True
  then have "c' = cl" "o' \<noteq> cl" "op \<noteq> quote" "cl \<noteq> quote" using br by (auto simp: brackets_def)
  then show ?thesis using d inner [of "d + 1"] True by (simp add: skip_loop.simps [of _ _ _ "_ # _"])
next
  case False
  then have "o' \<noteq> cl" "c' \<noteq> op" "c' \<noteq> cl" "o' \<noteq> quote" "c' \<noteq> quote" using br by (auto simp: brackets_def)
  then show ?thesis using d inner [of d] False by (simp add: skip_loop.simps [of _ _ _ "_ # _"])
qed

lemma skip_loop_other:
  assumes "brackets op cl" and "ch = CHR '','' \<or> ch = CHR '':''"
  shows "skip_loop op cl d (ch # rest) = skip_loop op cl d rest"
  using assms by (subst skip_loop.simps) (auto simp: brackets_def)

lemma brackets_simps [simp]: "brackets (CHR ''['') (CHR '']'')" "brackets (CHR ''{'') (CHR ''}'')"
  by (simp_all add: brackets_def)

lemma skip_loop_text:
  assumes br: "brackets op cl"
  shows "jtext v t \<Longrightarrow> 0 < d \<Longrightarrow> skip_loop op cl d (t @ rest) = skip_loop op cl d rest"
    and "jelems vs s \<Longrightarrow> 0 < d \<Longrightarrow> skip_loop op cl d (s @ rest) = skip_loop op cl d rest"
    and "jmembers ms s' \<Longrightarrow> 0 < d \<Longrightarrow> skip_loop op cl d (s' @ rest) = skip_loop op cl d rest"
proof (induction arbitrary: d rest and d rest and d rest rule: jtext_jelems_jmembers.inducts)
  case jtext_null
  then show ?case using br by (intro skip_loop_plain) (auto simp: brackets_def)
next
  case (jtext_bool b)
  then show ?case using br by (intro skip_loop_plain) (auto simp: brackets_def)
next
  case (jtext_num n)
  then show ?case using number_plain [OF _ br] by (intro skip_loop_plain) simp
next
  case (jtext_str s)
  then show ?case using skip_loop_string by blast
next
  case (jtext_arr0 w)
  then show ?case using br by (simp add: skip_loop_pair)
next
  case (jtext_arr vs s)
  then show ?case using br by (simp add: skip_loop_pair)
next
  case (jtext_obj0 w)
  then show ?case using br by (simp add: skip_loop_pair)
next
  case (jtext_obj ms s)
  then show ?case using br by (simp add: skip_loop_pair)
next
  case (jelems_one w1 v t w2)
  then show ?case using br by simp
next
  case (jelems_more w1 v t w2 vs s)
  then show ?case using br by (simp add: skip_loop_other)
next
  case (jmembers_one w1 k w2 w3 v t w4)
  then show ?case using br skip_loop_string [of k op cl d] by (simp add: skip_loop_other)
next
  case (jmembers_more w1 k w2 w3 v t w4 ms s)
  then show ?case using br skip_loop_string [of k op cl d] by (simp add: skip_loop_other)
qed

section \<open>Values\<close>

text \<open>The node of a value with text \<open>t\<close>.\<close>

fun node_of :: "json \<Rightarrow> string \<Rightarrow> json_node" where
  "node_of JNull t = \<lparr>jn_type = JSON_NULL, jn_flag = JSON_NODE_FLAG_NONE, jn_s = t\<rparr>"
| "node_of (JBool b) t = \<lparr>jn_type = JSON_BOOL, jn_flag = JSON_NODE_FLAG_NONE, jn_s = t\<rparr>"
| "node_of (JNum n) t = \<lparr>jn_type = JSON_NUMBER, jn_flag = num_flag n, jn_s = t\<rparr>"
| "node_of (JStr s) t = \<lparr>jn_type = JSON_STRING, jn_flag = str_flag s, jn_s = s\<rparr>"
| "node_of (JArr vs) t = \<lparr>jn_type = JSON_ARRAY, jn_flag = JSON_NODE_FLAG_NONE, jn_s = t\<rparr>"
| "node_of (JObj ms) t = \<lparr>jn_type = JSON_OBJECT, jn_flag = JSON_NODE_FLAG_NONE, jn_s = t\<rparr>"

lemma skip_container_text:
  assumes "brackets op cl" and "\<And>rest. skip_loop op cl 1 (s @ rest) = skip_loop op cl 1 rest"
  shows "skip_container (op # s @ cl # rest) = Inr rest"
proof -
  have "skip_loop op cl 0 (op # s @ cl # rest) = skip_loop op cl 1 (cl # rest)"
    using assms by (subst skip_loop.simps) (auto simp: brackets_def)
  also have "\<dots> = Inr rest" using assms(1) by (subst skip_loop.simps) (auto simp: brackets_def)
  finally show ?thesis using assms(1) by (auto simp: skip_container_def brackets_def)
qed

lemma lex_value_array:
  assumes "\<And>rest. skip_loop (CHR ''['') (CHR '']'') 1 (s @ rest) = skip_loop (CHR ''['') (CHR '']'') 1 rest"
  shows "lex_value (CHR ''['' # s @ CHR '']'' # rest) =
    Inr (\<lparr>jn_type = JSON_ARRAY, jn_flag = JSON_NODE_FLAG_NONE, jn_s = CHR ''['' # s @ '']''\<rparr>, rest)"
  using skip_container_text [OF brackets_simps(1) assms] by (simp add: lex_value_def span_node_def)

lemma lex_value_object:
  assumes "\<And>rest. skip_loop (CHR ''{'') (CHR ''}'') 1 (s @ rest) = skip_loop (CHR ''{'') (CHR ''}'') 1 rest"
  shows "lex_value (CHR ''{'' # s @ CHR ''}'' # rest) =
    Inr (\<lparr>jn_type = JSON_OBJECT, jn_flag = JSON_NODE_FLAG_NONE, jn_s = CHR ''{'' # s @ ''}''\<rparr>, rest)"
  using skip_container_text [OF brackets_simps(2) assms] by (simp add: lex_value_def span_node_def)

lemma lex_value_number:
  assumes "number_text n" and "num_end rest"
  shows "lex_value (n @ rest) = Inr (\<lparr>jn_type = JSON_NUMBER, jn_flag = num_flag n, jn_s = n\<rparr>, rest)"
proof -
  obtain ch c where n: "n = ch # c" "ch = CHR ''-'' \<or> is_digit ch"
    using assms(1) unfolding number_text_def digits_def by (cases n) (auto simp: is_digit_def Cons_eq_append_conv)
  then have "ch \<noteq> CHR ''{''" "ch \<noteq> CHR ''[''" "ch \<noteq> quote" "ch \<noteq> CHR ''t''" "ch \<noteq> CHR ''f''" "ch \<noteq> CHR ''n''" by (auto simp: is_digit_def)
  then show ?thesis using lex_number_text [OF assms] n by (simp add: lex_value_def flag_node_def)
qed

lemma lex_value_text:
  assumes "jtext v t" and "num_end rest"
  shows "lex_value (t @ rest) = Inr (node_of v t, rest)"
  using assms(1)
proof (cases rule: jtext.cases)
  case jtext_num
  then show ?thesis using lex_value_number [OF _ assms(2)] by simp
next
  case (jtext_str s)
  then show ?thesis using lex_string_text [of s rest] by (simp add: lex_value_def flag_node_def)
next
  case (jtext_arr0 w)
  then show ?thesis using lex_value_array [of w rest] by simp
next
  case (jtext_arr vs s)
  then show ?thesis using lex_value_array [of s rest] skip_loop_text(2) [OF brackets_simps(1)] by simp
next
  case (jtext_obj0 w)
  then show ?thesis using lex_value_object [of w rest] by simp
next
  case (jtext_obj ms s)
  then show ?thesis using lex_value_object [of s rest] skip_loop_text(3) [OF brackets_simps(2)] by simp
qed (simp_all add: lex_value_def lex_keyword_def span_node_def)

lemma num_end_simps [simp]:
  "num_end []" "num_end (CHR '','' # s)" "num_end (CHR '']'' # s)" "num_end (CHR ''}'' # s)"
  by (simp_all add: num_end_def is_digit_def)

lemma num_end_ws: "ws w \<Longrightarrow> num_end s \<Longrightarrow> num_end (w @ s)"
  by (cases w) (auto simp: num_end_def is_ws_def is_digit_def)

lemma skip_ws_ws: "ws w \<Longrightarrow> s = [] \<or> \<not> is_ws (hd s) \<Longrightarrow> skip_ws (w @ s) = s"
  by (cases s) (auto simp: skip_ws_def list_all_iff dropWhile_append2)

lemma is_ws_simps [simp]:
  "\<not> is_ws (CHR '','')" "\<not> is_ws (CHR '':'')" "\<not> is_ws (CHR '']'')" "\<not> is_ws (CHR ''}'')" "\<not> is_ws (CHR ''['')" "\<not> is_ws (CHR ''{'')" "\<not> is_ws quote"
  by (simp_all add: is_ws_def)

lemma jtext_start:
  assumes "jtext v t"
  obtains ch c where "t = ch # c" "\<not> is_ws ch" "ch \<noteq> CHR '']''" "ch \<noteq> CHR ''}''" "ch \<noteq> CHR '',''"
  using assms
proof (cases rule: jtext.cases)
  case jtext_num
  then obtain ch c where "t = ch # c" "ch = CHR ''-'' \<or> is_digit ch"
    unfolding number_text_def digits_def by (cases t) (auto simp: is_digit_def Cons_eq_append_conv)
  moreover from this(2) have "\<not> is_ws ch" "ch \<noteq> CHR '']''" "ch \<noteq> CHR ''}''" "ch \<noteq> CHR '',''" by (auto simp: is_ws_def is_digit_def)
  ultimately show thesis using that by blast
qed (use that in \<open>auto simp: is_ws_def split: if_splits\<close>)

lemma skip_ws_text: "ws w \<Longrightarrow> jtext v t \<Longrightarrow> skip_ws (w @ t @ s) = t @ s"
  by (erule jtext_start) (simp add: skip_ws_ws)

section \<open>Printing\<close>

text \<open>The shortest text of a value, without white space.\<close>

fun sep_by_comma :: "string list \<Rightarrow> string" where
  "sep_by_comma [] = []"
| "sep_by_comma [s] = s"
| "sep_by_comma (s # ss) = s @ '','' @ sep_by_comma ss"

fun render :: "json \<Rightarrow> string" where
  "render JNull = ''null''"
| "render (JBool b) = (if b then ''true'' else ''false'')"
| "render (JNum n) = n"
| "render (JStr s) = quoted s"
| "render (JArr vs) = ''['' @ sep_by_comma (map render vs) @ '']''"
| "render (JObj ms) = ''{'' @ sep_by_comma (map (\<lambda>(k, v). quoted k @ '':'' @ render v) ms) @ ''}''"

fun wf_json :: "json \<Rightarrow> bool" where
  "wf_json (JNum n) = number_text n"
| "wf_json (JStr s) = string_text s"
| "wf_json (JArr vs) = list_all wf_json vs"
| "wf_json (JObj ms) = list_all (\<lambda>(k, v). string_text k \<and> wf_json v) ms"
| "wf_json _ = True"

lemma jelems_render: "vs \<noteq> [] \<Longrightarrow> (\<And>v. v \<in> set vs \<Longrightarrow> jtext v (f v)) \<Longrightarrow> jelems vs (sep_by_comma (map f vs))"
proof (induction vs)
  case (Cons v vs)
  have v: "jtext v (f v)" using Cons.prems(2) by simp
  show ?case
  proof (cases vs)
    case Nil
    then show ?thesis using jelems_one [of "[]" v "f v" "[]"] v by simp
  next
    case (Cons u us)
    have "jelems vs (sep_by_comma (map f vs))" using Cons Cons.IH Cons.prems(2) by simp
    then show ?thesis using jelems_more [of "[]" v "f v" "[]" vs] v Cons by simp
  qed
qed simp

lemma jmembers_render:
  "ms \<noteq> [] \<Longrightarrow> (\<And>k v. (k, v) \<in> set ms \<Longrightarrow> string_text k \<and> jtext v (f v)) \<Longrightarrow>
     jmembers ms (sep_by_comma (map (\<lambda>(k, v). quoted k @ '':'' @ f v) ms))"
proof (induction ms)
  case (Cons m ms)
  obtain k v where m: "m = (k, v)" by (cases m)
  have v: "string_text k" "jtext v (f v)" using Cons.prems(2) [of k v] m by simp_all
  show ?case
  proof (cases ms)
    case Nil
    then show ?thesis using jmembers_one [of "[]" k "[]" "[]" v "f v" "[]"] v m by simp
  next
    case (Cons m' ms')
    have "jmembers ms (sep_by_comma (map (\<lambda>(k, v). quoted k @ '':'' @ f v) ms))"
      by (rule Cons.IH) (use Cons Cons.prems(2) in auto)
    then show ?thesis using jmembers_more [of "[]" k "[]" "[]" v "f v" "[]" ms] v m Cons by (cases m') simp
  qed
qed simp

lemma render_text: "wf_json v \<Longrightarrow> jtext v (render v)"
proof (induction v rule: render.induct)
  case (2 b)
  then show ?case using jtext_bool [of b] by simp
next
  case (5 vs)
  then have "\<forall>v \<in> set vs. jtext v (render v)" by (simp add: list_all_iff)
  then show ?case using jtext_arr0 [of "[]"] jtext_arr [OF jelems_render, of vs render] by (cases "vs = []") auto
next
  case (6 ms)
  then have "string_text k \<and> jtext v (render v)" if "(k, v) \<in> set ms" for k v using that by (fastforce simp: list_all_iff)
  then show ?case using jtext_obj0 [of "[]"] jtext_obj [OF jmembers_render, of ms render] by (cases "ms = []") auto
qed (auto intro: jtext_jelems_jmembers.intros)

end
