(* ===== verification/Json_Query.thy ===== *)
theory Json_Query
  imports Json_Text
begin

text \<open>
  Queries of util/json.c against a reference semantics on values: \<open>json_resolve\<close> returns the first result of a query and an
  iterator returns all of them in order, with the errors where the reference has them. The lazy evaluator, its stack of
  frames and its backtracking do not show.
\<close>

section \<open>Reference semantics\<close>

text \<open>A stream of results: the results in order and the error that ends it, \<open>JSON_ERR_NOT_FOUND\<close> for the normal end.\<close>

type_synonym results = "json list \<times> json_err"

definition then_results :: "results \<Rightarrow> results \<Rightarrow> results" where
  "then_results a b = (if snd a = JSON_ERR_NOT_FOUND then (fst a @ fst b, snd b) else a)"

definition no_results :: results where
  "no_results = ([], JSON_ERR_NOT_FOUND)"

definition all_results :: "results list \<Rightarrow> results" where
  "all_results rs = foldr then_results rs no_results"

text \<open>A name that would have to be written with an escape is never found.\<close>

definition find_member :: "string \<Rightarrow> (string \<times> json) list \<Rightarrow> json option" where
  "find_member key ms = (if backslash \<in> set key then None else map_of ms key)"

definition literal_eq :: "json_type \<Rightarrow> string \<Rightarrow> json \<Rightarrow> bool" where
  "literal_eq t rhs v \<longleftrightarrow>
     t = JSON_STRING \<and> v = JStr rhs \<and> backslash \<notin> set rhs \<or> t = JSON_NUMBER \<and> v = JNum rhs \<or>
     t = JSON_BOOL \<and> (\<exists>b. v = JBool b \<and> rhs = (if b then ''true'' else ''false''))"

fun query_results :: "json_query list \<Rightarrow> json \<Rightarrow> results" where
  "query_results [] v = ([v], JSON_ERR_NOT_FOUND)"
| "query_results (QUERY_KEY key # parts) v =
     (case v of
        JObj ms \<Rightarrow> (case find_member key ms of None \<Rightarrow> no_results | Some w \<Rightarrow> query_results parts w)
      | _ \<Rightarrow> ([], JSON_ERR_TYPE))"
| "query_results (QUERY_INDEX i # parts) v =
     (case v of
        JArr vs \<Rightarrow> if i < length vs then query_results parts (vs ! i) else no_results
      | _ \<Rightarrow> ([], JSON_ERR_TYPE))"
| "query_results (QUERY_ITER # parts) v =
     (case v of
        JArr vs \<Rightarrow> all_results (map (query_results parts) vs)
      | _ \<Rightarrow> ([], JSON_ERR_TYPE))"
| "query_results (QUERY_WHERE sub rhs t # parts) v =
     (if fst (query_results sub v) \<noteq> [] \<and> literal_eq t rhs (hd (fst (query_results sub v))) then query_results parts v else no_results)"

lemma then_results_simps [simp]:
  "then_results no_results b = b" "then_results a no_results = a"
  "then_results ([v], JSON_ERR_NOT_FOUND) b = (v # fst b, snd b)" "e \<noteq> JSON_ERR_NOT_FOUND \<Longrightarrow> then_results (vs, e) b = (vs, e)"
  by (cases a, auto simp: then_results_def no_results_def)+

lemma then_results_assoc: "then_results (then_results a b) c = then_results a (then_results b c)"
  by (auto simp: then_results_def)

lemma all_results_simps [simp]: "all_results [] = no_results" "all_results (r # rs) = then_results r (all_results rs)"
  by (simp_all add: all_results_def)

section \<open>Steps on texts\<close>

text \<open>A node that stands for a value.\<close>

definition denotes :: "json \<Rightarrow> json_node \<Rightarrow> bool" where
  "denotes v node \<longleftrightarrow> (\<exists>t. jtext v t \<and> node = node_of v t)"

text \<open>What a step returns: the node of the value found, or \<open>JSON_ERR_NOT_FOUND\<close>.\<close>

definition step_to :: "json option \<Rightarrow> json_err + json_node \<Rightarrow> bool" where
  "step_to r x \<longleftrightarrow> (case r of None \<Rightarrow> x = Inl JSON_ERR_NOT_FOUND | Some v \<Rightarrow> \<exists>node. x = Inr node \<and> denotes v node)"

lemma step_to_simps [simp]: "step_to None x \<longleftrightarrow> x = Inl JSON_ERR_NOT_FOUND" "step_to (Some v) x \<longleftrightarrow> (\<exists>node. x = Inr node \<and> denotes v node)"
  by (simp_all add: step_to_def)

lemma object_loop_member:
  assumes "ws w1" "string_text k" "ws w2" "ws w3" "jtext v t" "ws w4" and x: "x = CHR '','' \<or> x = CHR ''}''"
  shows "object_loop key (w1 @ quoted k @ w2 @ '':'' @ w3 @ t @ w4 @ x # rest) =
    (if backslash \<notin> set k \<and> k = key then Inr (node_of v t) else if x = CHR '','' then object_loop key rest else Inl JSON_ERR_NOT_FOUND)"
proof -
  have xw: "\<not> is_ws x" "num_end (x # rest)" using x by auto
  have s1: "skip_ws (w1 @ quoted k @ w2 @ '':'' @ w3 @ t @ w4 @ x # rest) = quoted k @ w2 @ '':'' @ w3 @ t @ w4 @ x # rest"
    using skip_ws_ws [OF assms(1)] by simp
  have s2: "skip_ws (w2 @ '':'' @ w3 @ t @ w4 @ x # rest) = CHR '':'' # w3 @ t @ w4 @ x # rest" using skip_ws_ws [OF assms(3)] by simp
  have s3: "skip_ws (w3 @ t @ w4 @ x # rest) = t @ w4 @ x # rest" by (rule skip_ws_text [OF assms(4,5)])
  have s4: "skip_ws (w4 @ x # rest) = x # rest" using skip_ws_ws [OF assms(6)] xw by simp
  have v: "lex_value (t @ w4 @ x # rest) = Inr (node_of v t, w4 @ x # rest)" by (rule lex_value_text [OF assms(5) num_end_ws [OF assms(6) xw(2)]])
  have l: "lex_string_span (quoted k @ w2 @ '':'' @ w3 @ t @ w4 @ x # rest) = Inr ((k, str_flag k), w2 @ '':'' @ w3 @ t @ w4 @ x # rest)"
    by (rule lex_string_text [OF assms(2)])
  show ?thesis
    by (subst object_loop.simps, unfold Let_def s1 l sum.case prod.case s2 list.case s3 v s4) (use x in auto)
qed

inductive_cases jmembers_NilE: "jmembers [] s"
inductive_cases jmembers_ConsE: "jmembers ((k, v) # ms) s"
inductive_cases jelems_NilE: "jelems [] s"
inductive_cases jelems_ConsE: "jelems (v # vs) s"
inductive_cases jtext_arrE: "jtext (JArr vs) t"
inductive_cases jtext_objE: "jtext (JObj ms) t"
inductive_cases jtext_strE: "jtext (JStr s) t"

lemma denotesI: "jtext v t \<Longrightarrow> denotes v (node_of v t)"
  by (auto simp: denotes_def)

lemma find_member_Cons: "find_member key ((k, v) # ms) = (if backslash \<notin> set k \<and> k = key then Some v else find_member key ms)"
  by (simp add: find_member_def)

lemma find_member_Nil [simp]: "find_member key [] = None"
  by (simp add: find_member_def)

lemma object_loop_text:
  "jmembers ms s \<Longrightarrow> step_to (find_member key ms) (object_loop key (s @ ''}''))"
proof (induction ms arbitrary: s)
  case Nil
  then show ?case by (rule jmembers_NilE)
next
  case (Cons m ms)
  obtain k v where m: "m = (k, v)" by (cases m)
  from Cons.prems [unfolded m] show ?case
  proof (cases rule: jmembers_ConsE [consumes 1, case_names one more])
    case (one w1 w2 w3 t w4)
    have s: "s @ ''}'' = w1 @ quoted k @ w2 @ '':'' @ w3 @ t @ w4 @ CHR ''}'' # []" by (simp add: one(2))
    have "object_loop key (s @ ''}'') = (if backslash \<notin> set k \<and> k = key then Inr (node_of v t) else Inl JSON_ERR_NOT_FOUND)"
      unfolding s by (subst object_loop_member [OF one(3-8)]) (simp, simp only: char.inject simp_thms if_cancel if_False)
    then show ?thesis using denotesI [OF one(7)] by (cases "backslash \<notin> set k \<and> k = key") (auto simp: m find_member_Cons one(1))
  next
    case (more w1 w2 w3 t w4 s')
    have s: "s @ ''}'' = w1 @ quoted k @ w2 @ '':'' @ w3 @ t @ w4 @ CHR '','' # s' @ ''}''" by (simp add: more(1))
    have "object_loop key (s @ ''}'') = (if backslash \<notin> set k \<and> k = key then Inr (node_of v t) else object_loop key (s' @ ''}''))"
      unfolding s by (subst object_loop_member [OF more(2-7)]) (simp, simp only: simp_thms if_True)
    then show ?thesis using denotesI [OF more(6)] Cons.IH [OF more(8)]
      by (cases "backslash \<notin> set k \<and> k = key") (auto simp: m find_member_Cons)
  qed
qed

lemma object_step_text:
  assumes "jtext (JObj ms) t"
  shows "step_to (find_member key ms) (object_step (node_of (JObj ms) t) key)"
  using assms
proof (cases rule: jtext_objE [consumes 1, case_names empty members])
  case (empty w)
  then show ?thesis using skip_ws_ws [of w "''}''"] by (simp add: object_step_def Let_def)
next
  case (members s)
  obtain k v ms' where "ms = (k, v) # ms'" using members(2) by (cases ms) (auto elim: jmembers_NilE)
  then obtain w1 r where w1: "ws w1" "s = w1 @ quote # r" using members(2) by (auto elim!: jmembers_ConsE)
  have sk: "skip_ws (s @ ''}'') = quote # r @ ''}''" "skip_ws (quote # r @ ''}'') = quote # r @ ''}''"
    using skip_ws_ws [of w1 "quote # r @ ''}''"] w1 by (simp_all add: skip_ws_def)
  have "object_loop key (skip_ws (s @ ''}'')) = object_loop key (s @ ''}'')"
    by (subst (1 2) object_loop.simps) (simp add: sk)
  then have "object_step (node_of (JObj ms) t) key = object_loop key (s @ ''}'')"
    using members(1) sk(1) by (simp add: object_step_def Let_def)
  then show ?thesis using object_loop_text [OF members(2), of key] by simp
qed

definition find_element :: "nat \<Rightarrow> json list \<Rightarrow> json option" where
  "find_element i vs = (if i < length vs then Some (vs ! i) else None)"

lemma array_loop_text:
  "jelems vs s \<Longrightarrow> i \<le> want \<Longrightarrow> step_to (find_element (want - i) vs) (array_loop want i (s @ '']''))"
proof (induction vs arbitrary: s i)
  case Nil
  then show ?case by (blast elim: jelems_NilE)
next
  case (Cons v vs)
  have fe: "find_element (want - i) (v # vs) = (if i = want then Some v else find_element (want - (i + 1)) vs)"
    using Cons.prems(2) by (auto simp: find_element_def nth_Cons')
  from Cons.prems(1) show ?case
  proof (cases rule: jelems_ConsE [consumes 1, case_names one more])
    case (one w1 t w2)
    have "skip_ws (s @ '']'') = t @ w2 @ '']''" using skip_ws_text [OF one(3,4), of "w2 @ '']''"] one(2) by simp
    moreover have "lex_value (t @ w2 @ '']'') = Inr (node_of v t, w2 @ '']'')" by (rule lex_value_text [OF one(4) num_end_ws [OF one(5)]]) simp
    moreover have "skip_ws (w2 @ '']'') = '']''" using skip_ws_ws [OF one(5), of "'']''"] by simp
    ultimately have "array_loop want i (s @ '']'') = (if i = want then Inr (node_of v t) else Inl JSON_ERR_NOT_FOUND)"
      by (subst array_loop.simps) simp
    then show ?thesis using denotesI [OF one(4)] one(1) unfolding fe by (simp add: find_element_def)
  next
    case (more w1 t w2 s')
    have "skip_ws (s @ '']'') = t @ w2 @ CHR '','' # s' @ '']''"
      using skip_ws_text [OF more(2,3), of "w2 @ CHR '','' # s' @ '']''"] more(1) by simp
    moreover have "lex_value (t @ w2 @ CHR '','' # s' @ '']'') = Inr (node_of v t, w2 @ CHR '','' # s' @ '']'')"
      by (rule lex_value_text [OF more(3) num_end_ws [OF more(4)]]) simp
    moreover have "skip_ws (w2 @ CHR '','' # s' @ '']'') = CHR '','' # s' @ '']''" using skip_ws_ws [OF more(4)] by simp
    ultimately have "array_loop want i (s @ '']'') = (if i = want then Inr (node_of v t) else array_loop want (i + 1) (s' @ '']''))"
      by (subst array_loop.simps) simp
    then show ?thesis using denotesI [OF more(3)] Cons.IH [OF more(5), of "i + 1"] Cons.prems(2) unfolding fe by simp
  qed
qed

lemma array_step_text:
  assumes "jtext (JArr vs) t"
  shows "step_to (find_element want vs) (array_step (node_of (JArr vs) t) want)"
  using assms
proof (cases rule: jtext_arrE [consumes 1, case_names empty elements])
  case (empty w)
  then show ?thesis using skip_ws_ws [of w "'']''"] by (simp add: array_step_def Let_def find_element_def)
next
  case (elements s)
  obtain v vs' where "vs = v # vs'" using elements(2) by (cases vs) (auto elim: jelems_NilE)
  then obtain w1 t' r where w1: "ws w1" "jtext v t'" "s = w1 @ t' @ r" using elements(2) by (auto elim!: jelems_ConsE)
  obtain ch c where ch: "t' = ch # c" "\<not> is_ws ch" "ch \<noteq> CHR '']''" by (rule jtext_start [OF w1(2)])
  have sk: "skip_ws (s @ '']'') = t' @ r @ '']''" using skip_ws_text [OF w1(1,2), of "r @ '']''"] w1(3) by simp
  have "skip_ws (t' @ r @ '']'') = t' @ r @ '']''" using ch by (simp add: skip_ws_def)
  then have "array_loop want 0 (skip_ws (s @ '']'')) = array_loop want 0 (s @ '']'')"
    by (subst (1 2) array_loop.simps) (simp add: sk)
  then have "array_step (node_of (JArr vs) t) want = array_loop want 0 (s @ '']'')"
    using elements(1) sk ch by (simp add: array_step_def Let_def)
  then show ?thesis using array_loop_text [OF elements(2), of 0 want] by simp
qed

section \<open>Frames\<close>

text \<open>What is left of an array after some of its elements were read.\<close>

definition tail_text :: "json list \<Rightarrow> string \<Rightarrow> bool" where
  "tail_text us rest \<longleftrightarrow> (\<exists>w. ws w \<and> (us = [] \<and> rest = w @ '']'' \<or> (\<exists>s. jelems us s \<and> rest = w @ '','' @ s @ '']'')))"

lemma take_value_text:
  assumes "jelems (u # us) s"
  shows "\<exists>node rest. take_value (skip_ws (s @ '']'')) saw = (Inr node, rest, saw) \<and> denotes u node \<and> tail_text us rest"
  using assms
proof (cases rule: jelems_ConsE [consumes 1, case_names one more])
  case (one w1 t w2)
  have "skip_ws (s @ '']'') = t @ w2 @ '']''" using skip_ws_text [OF one(3,4), of "w2 @ '']''"] one(2) by simp
  moreover have "lex_value (t @ w2 @ '']'') = Inr (node_of u t, w2 @ '']'')" by (rule lex_value_text [OF one(4) num_end_ws [OF one(5)]]) simp
  ultimately show ?thesis using denotesI [OF one(4)] one(1,5) by (auto simp: take_value_def tail_text_def)
next
  case (more w1 t w2 s')
  have "skip_ws (s @ '']'') = t @ w2 @ CHR '','' # s' @ '']''"
    using skip_ws_text [OF more(2,3), of "w2 @ CHR '','' # s' @ '']''"] more(1) by simp
  moreover have "lex_value (t @ w2 @ CHR '','' # s' @ '']'') = Inr (node_of u t, w2 @ CHR '','' # s' @ '']'')"
    by (rule lex_value_text [OF more(3) num_end_ws [OF more(4)]]) simp
  ultimately show ?thesis using denotesI [OF more(3)] more(4,5) by (auto simp: take_value_def tail_text_def)
qed

lemma iter_take_end: "tail_text [] rest \<Longrightarrow> fst (iter_take rest True) = Inl JSON_ERR_NOT_FOUND"
  using skip_ws_ws [of _ "'']''"] by (auto simp: tail_text_def iter_take_def elim: jelems_NilE)

lemma iter_take_next:
  assumes "tail_text (u # us) rest"
  shows "\<exists>node rest'. iter_take rest True = (Inr node, rest', True) \<and> denotes u node \<and> tail_text us rest'"
proof -
  from assms obtain w s where w: "ws w" "jelems (u # us) s" "rest = w @ CHR '','' # s @ '']''" by (auto simp: tail_text_def)
  have "skip_ws rest = CHR '','' # s @ '']''" using skip_ws_ws [OF w(1)] w(3) by simp
  then show ?thesis using take_value_text [OF w(2), of True] by (simp add: iter_take_def)
qed

lemma iter_open_text:
  assumes "jtext (JArr vs) t"
  obtains rest where "iter_open_array (node_of (JArr vs) t) = Inr rest"
    and "vs = [] \<Longrightarrow> fst (iter_take rest False) = Inl JSON_ERR_NOT_FOUND"
    and "\<And>u us. vs = u # us \<Longrightarrow> \<exists>node rest'. iter_take rest False = (Inr node, rest', True) \<and> denotes u node \<and> tail_text us rest'"
  using assms
proof (cases rule: jtext_arrE [consumes 1, case_names empty elements])
  case (empty w)
  then show thesis using that [of "w @ '']''"] skip_ws_ws [of w "'']''"] by (simp add: iter_open_array_def iter_take_def)
next
  case (elements s)
  have "\<exists>node rest'. iter_take (s @ '']'') False = (Inr node, rest', True) \<and> denotes u node \<and> tail_text us rest'" if v: "vs = u # us" for u us
  proof -
    from elements(2) v obtain w1 t' r where w1: "ws w1" "jtext u t'" "s = w1 @ t' @ r" by (auto elim!: jelems_ConsE)
    obtain ch c where ch: "t' = ch # c" "ch \<noteq> CHR '']''" by (rule jtext_start [OF w1(2)])
    have "skip_ws (s @ '']'') = ch # c @ r @ '']''" using skip_ws_text [OF w1(1,2), of "r @ '']''"] w1(3) ch(1) by simp
    then show ?thesis using take_value_text [OF elements(2) [unfolded v], of True] ch(2) by (simp add: iter_take_def)
  qed
  moreover have "vs \<noteq> []" using elements(2) by (auto elim: jelems_NilE)
  ultimately show thesis using that [of "s @ '']''"] elements(1) by (simp add: iter_open_array_def)
qed

definition iters :: "json_query list \<Rightarrow> nat" where
  "iters parts = length (filter (\<lambda>q. q = QUERY_ITER) parts)"

text \<open>The results that are still to come from a stack of frames.\<close>

inductive awaits :: "json_query list \<Rightarrow> json_iter_frame list \<Rightarrow> results \<Rightarrow> bool" for parts where
  awaits_Nil: "awaits parts [] no_results"
| awaits_Cons: "jf_saw_first f \<Longrightarrow> tail_text us (jf_rest f) \<Longrightarrow> awaits parts frames S \<Longrightarrow>
     length frames + 1 + iters (drop (jf_part_index f + 1) parts) \<le> JSON_ITER_MAX_FRAMES \<Longrightarrow>
     awaits parts (f # frames) (then_results (all_results (map (query_results (drop (jf_part_index f + 1) parts)) us)) S)"

definition yields :: "json_query list \<Rightarrow> (json_err + json_node) \<times> json_iter_frame list \<Rightarrow> results \<Rightarrow> bool" where
  "yields parts x S \<longleftrightarrow>
     (case x of
        (Inr node, frames) \<Rightarrow> \<exists>v S'. denotes v node \<and> S = (v # fst S', snd S') \<and> awaits parts frames S'
      | (Inl e, frames) \<Rightarrow> if e = JSON_ERR_NOT_FOUND then awaits parts frames S else S = ([], e))"

definition where_ok :: "(json_node \<Rightarrow> json_query list \<Rightarrow> string \<Rightarrow> json_type \<Rightarrow> bool) \<Rightarrow> json_query list \<Rightarrow> bool" where
  "where_ok holds parts \<longleftrightarrow> (\<forall>sub rhs t v node. QUERY_WHERE sub rhs t \<in> set parts \<longrightarrow> denotes v node \<longrightarrow>
     holds node sub rhs t = (fst (query_results sub v) \<noteq> [] \<and> literal_eq t rhs (hd (fst (query_results sub v)))))"

lemma object_step_yields:
  assumes "denotes v cur"
  shows "object_step cur key = Inl JSON_ERR_TYPE \<and> (\<forall>ms. v \<noteq> JObj ms) \<or> (\<exists>ms. v = JObj ms \<and> step_to (find_member key ms) (object_step cur key))"
  using assms object_step_text by (cases v) (fastforce simp: denotes_def object_step_def)+

lemma array_step_yields:
  assumes "denotes v cur"
  shows "array_step cur i = Inl JSON_ERR_TYPE \<and> (\<forall>vs. v \<noteq> JArr vs) \<or> (\<exists>vs. v = JArr vs \<and> step_to (find_element i vs) (array_step cur i))"
  using assms array_step_text by (cases v) (fastforce simp: denotes_def array_step_def)+

section \<open>The evaluator\<close>

lemma iters_simps [simp]: "iters [] = 0" "iters (q # parts) = (if q = QUERY_ITER then Suc (iters parts) else iters parts)"
  by (simp_all add: iters_def)

lemma yields_NotFound: "awaits parts frames S \<Longrightarrow> yields parts (Inl JSON_ERR_NOT_FOUND, frames) S"
  by (simp add: yields_def)

lemma yields_error: "e \<noteq> JSON_ERR_NOT_FOUND \<Longrightarrow> yields parts (Inl e, frames) ([], e)"
  by (simp add: yields_def)

lemma apply_from_yields:
  assumes holds: "where_ok holds parts"
  shows "awaits parts frames S \<Longrightarrow> denotes v cur \<Longrightarrow> drop i parts = ps \<Longrightarrow> length frames + iters ps \<le> JSON_ITER_MAX_FRAMES \<Longrightarrow>
    yields parts (apply_from holds ps i frames cur) (then_results (query_results ps v) S)"
proof (induction ps arbitrary: i frames cur v S)
  case Nil
  then show ?case by (auto simp: yields_def)
next
  case (Cons q ps)
  have dr: "drop (i + 1) parts = ps" using Cons.prems(3) by (metis Suc_eq_plus1 drop_Suc list.sel(3) tl_drop)
  have q: "q \<in> set parts" using Cons.prems(3) by (metis in_set_dropD list.set_intros(1))
  note IH = Cons.IH [OF _ _ dr]
  show ?case
  proof (cases q)
    case (QUERY_KEY key)
    from object_step_yields [OF Cons.prems(2), of key] show ?thesis
    proof (elim disjE exE conjE)
      assume x: "object_step cur key = Inl JSON_ERR_TYPE" "\<forall>ms. v \<noteq> JObj ms"
      then have "query_results (q # ps) v = ([], JSON_ERR_TYPE)" using QUERY_KEY by (cases v) auto
      then show ?thesis using x(1) QUERY_KEY yields_error [of JSON_ERR_TYPE] by simp
    next
      fix ms assume x: "v = JObj ms" "step_to (find_member key ms) (object_step cur key)"
      then show ?thesis using QUERY_KEY yields_NotFound [OF Cons.prems(1)] IH [OF Cons.prems(1)] Cons.prems(4)
        by (cases "find_member key ms") auto
    qed
  next
    case (QUERY_INDEX k)
    from array_step_yields [OF Cons.prems(2), of k] show ?thesis
    proof (elim disjE exE conjE)
      assume x: "array_step cur k = Inl JSON_ERR_TYPE" "\<forall>vs. v \<noteq> JArr vs"
      then have "query_results (q # ps) v = ([], JSON_ERR_TYPE)" using QUERY_INDEX by (cases v) auto
      then show ?thesis using x(1) QUERY_INDEX yields_error [of JSON_ERR_TYPE] by simp
    next
      fix vs assume x: "v = JArr vs" "step_to (find_element k vs) (array_step cur k)"
      then show ?thesis using QUERY_INDEX yields_NotFound [OF Cons.prems(1)] IH [OF Cons.prems(1)] Cons.prems(4)
        by (cases "k < length vs") (auto simp: find_element_def)
    qed
  next
    case QUERY_ITER
    then have room: "\<not> JSON_ITER_MAX_FRAMES \<le> length frames" using Cons.prems(4) by simp
    show ?thesis
    proof (cases "\<exists>vs. v = JArr vs")
      case False
      then have "query_results (q # ps) v = ([], JSON_ERR_TYPE)" using QUERY_ITER by (cases v) auto
      moreover have "iter_open_array cur = Inl JSON_ERR_TYPE" using False Cons.prems(2) by (cases v) (auto simp: denotes_def iter_open_array_def)
      ultimately show ?thesis using QUERY_ITER room yields_error [of JSON_ERR_TYPE] by simp
    next
      case True
      then obtain vs t where v: "v = JArr vs" "jtext (JArr vs) t" "cur = node_of (JArr vs) t" using Cons.prems(2) by (auto simp: denotes_def)
      obtain rest where rest: "iter_open_array cur = Inr rest"
        and empty: "vs = [] \<Longrightarrow> fst (iter_take rest False) = Inl JSON_ERR_NOT_FOUND"
        and first: "\<And>u us. vs = u # us \<Longrightarrow> \<exists>node rest'. iter_take rest False = (Inr node, rest', True) \<and> denotes u node \<and> tail_text us rest'"
        using iter_open_text [OF v(2)] unfolding v(3) by blast
      show ?thesis
      proof (cases vs)
        case Nil
        then show ?thesis using QUERY_ITER room rest empty v(1) yields_NotFound [OF Cons.prems(1)]
          by (cases "iter_take rest False") auto
      next
        case (Cons u us)
        obtain node rest' where n: "iter_take rest False = (Inr node, rest', True)" "denotes u node" "tail_text us rest'" using first [OF Cons] by blast
        let ?f = "\<lparr>jf_part_index = i, jf_rest = rest', jf_saw_first = True\<rparr>"
        have "awaits parts (?f # frames) (then_results (all_results (map (query_results ps) us)) S)"
          using awaits_Cons [of ?f us parts frames S] n(3) Cons.prems(1,4) QUERY_ITER by (simp add: dr [simplified])
        from IH [OF this n(2)] show ?thesis using QUERY_ITER room rest n(1) v(1) Cons.prems(4) Cons
          by (simp add: then_results_assoc)
      qed
    qed
  next
    case (QUERY_WHERE sub rhs t)
    have "holds cur sub rhs t = (fst (query_results sub v) \<noteq> [] \<and> literal_eq t rhs (hd (fst (query_results sub v))))"
      using holds q Cons.prems(2) unfolding where_ok_def QUERY_WHERE by blast
    then show ?thesis using QUERY_WHERE yields_NotFound [OF Cons.prems(1)] IH [OF Cons.prems(1,2)] Cons.prems(4) by simp
  qed
qed

lemma apply_from_frames: "length frames \<le> length (snd (apply_from holds ps i frames cur))"
proof (induction holds ps i frames cur rule: apply_from.induct)
  case (4 holds parts i frames cur)
  show ?case
  proof (cases "JSON_ITER_MAX_FRAMES \<le> length frames \<or> isl (iter_open_array cur)")
    case True
    then show ?thesis by (auto simp: isl_def)
  next
    case False
    then obtain rest where r: "\<not> JSON_ITER_MAX_FRAMES \<le> length frames" "iter_open_array cur = Inr rest" by (cases "iter_open_array cur") auto
    obtain x rest' saw where t: "iter_take rest False = (x, rest', saw)" by (cases "iter_take rest False")
    show ?thesis using 4(1) [OF r t [symmetric] refl refl] r t by (cases x) auto
  qed
qed (auto split: sum.splits)

definition resumes :: "json_query list \<Rightarrow> (json_err + json_node) \<times> json_iter_frame list \<Rightarrow> results \<Rightarrow> bool" where
  "resumes parts x S \<longleftrightarrow>
     (case x of
        (Inr node, frames) \<Rightarrow> frames \<noteq> [] \<and> (\<exists>v S'. denotes v node \<and> S = (v # fst S', snd S') \<and> awaits parts frames S')
      | (Inl e, frames) \<Rightarrow> S = ([], e))"

lemma backtrack_iter_resumes:
  "where_ok holds parts \<Longrightarrow> awaits parts frames S \<Longrightarrow> resumes parts (backtrack_iter holds parts frames) S"
proof (induction holds parts frames arbitrary: S rule: backtrack_iter.induct)
  case (1 holds parts)
  then show ?case by (auto simp: backtrack_iter.simps resumes_def no_results_def elim: awaits.cases)
next
  case (2 holds parts f frames)
  let ?ps = "drop (jf_part_index f + 1) parts"
  from 2(4) obtain us S0 where f: "jf_saw_first f" "tail_text us (jf_rest f)" "awaits parts frames S0"
    "length frames + 1 + iters ?ps \<le> JSON_ITER_MAX_FRAMES" "S = then_results (all_results (map (query_results ?ps) us)) S0"
    by (auto elim: awaits.cases)
  show ?case
  proof (cases us)
    case Nil
    obtain rest saw where "iter_take (jf_rest f) (jf_saw_first f) = (Inl JSON_ERR_NOT_FOUND, rest, saw)"
      using iter_take_end [of "jf_rest f"] f(1,2) Nil by (cases "iter_take (jf_rest f) True") auto
    then show ?thesis using 2(1) [OF _ refl _ refl 2(3) f(3)] f(5) Nil by (simp add: backtrack_iter.simps)
  next
    case (Cons u us')
    then obtain node rest where t: "iter_take (jf_rest f) (jf_saw_first f) = (Inr node, rest, True)" "denotes u node" "tail_text us' rest"
      using iter_take_next f(1,2) by fastforce
    let ?f = "f \<lparr>jf_rest := rest, jf_saw_first := True\<rparr>"
    have "awaits parts (?f # frames) (then_results (all_results (map (query_results ?ps) us')) S0)"
      using awaits_Cons [of ?f us' parts frames S0] f(3,4) t(3) by simp
    from apply_from_yields [OF 2(3) this t(2) refl] f(4,5) Cons
    have y: "yields parts (apply_from holds ?ps (jf_part_index f + 1) (?f # frames) node) S" by (simp add: then_results_assoc)
    obtain r frames' where a: "apply_from holds ?ps (jf_part_index f + 1) (?f # frames) node = (r, frames')" by fastforce
    have ne: "frames' \<noteq> []" using apply_from_frames [of "?f # frames" holds ?ps "jf_part_index f + 1" node] a by auto
    show ?thesis
    proof (cases r)
      case (Inr v)
      then show ?thesis using y a ne t(1) by (auto simp: backtrack_iter.simps yields_def resumes_def)
    next
      case (Inl e)
      then show ?thesis using y a t(1) 2(2) [OF t(1) [symmetric] refl refl a [symmetric] Inl _ 2(3)]
        by (cases "e = JSON_ERR_NOT_FOUND") (auto simp: backtrack_iter.simps yields_def resumes_def)
    qed
  qed
qed

section \<open>Resolving a query\<close>

text \<open>The sub-queries of filters start with a member, so that they cannot be satisfied by the text inside a string.\<close>

fun keyed :: "json_query list \<Rightarrow> bool" where
  "keyed [] = True"
| "keyed (QUERY_WHERE sub rhs t # parts) =
     ((case sub of QUERY_KEY _ # _ \<Rightarrow> True | _ \<Rightarrow> False) \<and> iters sub \<le> JSON_ITER_MAX_FRAMES \<and> keyed sub \<and> keyed parts)"
| "keyed (q # parts) = keyed parts"

lemma keyed_where: "keyed parts \<Longrightarrow> QUERY_WHERE sub rhs t \<in> set parts \<Longrightarrow>
    (\<exists>key rest. sub = QUERY_KEY key # rest) \<and> iters sub \<le> JSON_ITER_MAX_FRAMES \<and> keyed sub"
  by (induction parts rule: keyed.induct) (auto split: list.splits json_query.splits)

lemma skip_ws_split: "skip_ws c = r \<Longrightarrow> \<exists>w. ws w \<and> c = w @ r"
  using takeWhile_dropWhile_id [of is_ws c] by (intro exI [of _ "takeWhile is_ws c"]) (auto simp: skip_ws_def list_all_iff dest: set_takeWhileD)

lemma lex_object_prefix:
  assumes "lex_value c = Inr (doc, c')" and "jn_type doc = JSON_OBJECT"
  shows "\<exists>z. c = jn_s doc @ z"
  using assms(1)
proof (cases rule: lex_value_cases)
  case (container t)
  then show ?thesis by (auto simp: map_sum_eq_Inr span_node_def intro: exI [of _ "drop (length c - length c') c"])
next
  case (keyword t kw)
  then show ?thesis by (auto simp: map_sum_eq_Inr span_node_def intro: exI [of _ "drop (length c - length c') c"])
qed (use assms(2) in \<open>auto simp: map_sum_eq_Inr flag_node_def\<close>)

text \<open>The bytes of a string without its quotes never hold an object with a member.\<close>

lemma string_not_object:
  assumes "string_text b"
  shows "\<exists>e. json_resolve b (QUERY_KEY key # sub) = Inl e"
proof (cases "lex_value (skip_ws b)")
  case (Inr x)
  obtain doc c where x: "x = (doc, c)" by (cases x)
  have "\<exists>e. object_step doc key = Inl e"
  proof (rule ccontr)
    assume "\<not> ?thesis"
    then obtain v where v: "object_step doc key = Inr v" by (cases "object_step doc key") auto
    then obtain d where d: "jn_type doc = JSON_OBJECT" "jn_s doc = CHR ''{'' # d" "object_loop key (skip_ws d) = Inr v"
      by (auto simp: object_step_def Let_def split: if_splits list.splits)
    from d(3) obtain r where "skip_ws (skip_ws d) = quote # r"
      by (subst (asm) object_loop.simps) (auto simp: Let_def lex_string_span_def split: if_splits sum.splits list.splits)
    then have "skip_ws d = quote # r" by (simp add: skip_ws_def dropWhile_idem)
    then obtain w where w: "ws w" "d = w @ quote # r" using skip_ws_split by blast
    obtain z where "skip_ws b = jn_s doc @ z" using lex_object_prefix d(1) Inr x by blast
    then obtain w0 where "b = (w0 @ CHR ''{'' # w) @ quote # r @ z" using skip_ws_split [of b] d(2) w(2) by auto
    from string_text_quote [OF assms this] have "last (CHR ''{'' # w) = backslash" by simp
    then show False using w(1) by (cases w rule: rev_cases) (auto simp: is_ws_def)
  qed
  then show ?thesis using Inr x by (auto simp: json_resolve.simps)
qed (simp add: json_resolve.simps)

definition answers :: "results \<Rightarrow> (json_err \<times> nat) + json_node \<Rightarrow> bool" where
  "answers S r \<longleftrightarrow> (case r of Inl (e, offset) \<Rightarrow> S = ([], e) | Inr node \<Rightarrow> fst S \<noteq> [] \<and> denotes (hd (fst S)) node)"

lemma literal_node:
  assumes "denotes v node"
  shows "literal_eq t rhs v =
    (case t of JSON_STRING \<Rightarrow> str_eq_unescaped node rhs | JSON_NUMBER \<Rightarrow> num_eq_literal node rhs | JSON_BOOL \<Rightarrow> bool_eq_literal node rhs | _ \<Rightarrow> False)"
proof -
  from assms obtain s where s: "jtext v s" "node = node_of v s" by (auto simp: denotes_def)
  show ?thesis using s
    by (cases v; cases t) (auto simp: literal_eq_def str_eq_unescaped_def num_eq_literal_def bool_eq_literal_def elim: jtext.cases split: if_splits)
qed

lemma where_holds_sub:
  assumes sub: "sub = QUERY_KEY key # sub'" and u: "denotes u node" and res: "\<And>s. jtext u s \<Longrightarrow> answers (query_results sub u) (json_resolve s sub)"
  shows "where_holds json_resolve node sub rhs ty = (fst (query_results sub u) \<noteq> [] \<and> literal_eq ty rhs (hd (fst (query_results sub u))))"
proof -
  obtain s where s: "jtext u s" "node = node_of u s" using u by (auto simp: denotes_def)
  show ?thesis
  proof (cases "\<exists>b. u = JStr b")
    case True
    then obtain b where b: "u = JStr b" "string_text b" using s(1) by (auto elim: jtext_strE)
    then show ?thesis using string_not_object [OF b(2), of key sub'] s(2) sub by (auto simp: where_holds_def)
  next
    case False
    then have "jn_s node = s" using s by (cases u) auto
    then show ?thesis using literal_node res [OF s(1)] by (auto simp: where_holds_def answers_def split: sum.splits)
  qed
qed

lemma json_resolve_answers:
  "keyed parts \<Longrightarrow> iters parts \<le> JSON_ITER_MAX_FRAMES \<Longrightarrow> jtext v t \<Longrightarrow> ws w \<Longrightarrow> num_end rest \<Longrightarrow>
     answers (query_results parts v) (json_resolve (w @ t @ rest) parts)"
proof (induction "size_list size parts" arbitrary: parts v t w rest rule: less_induct)
  case less
  have "where_holds json_resolve node sub rhs ty = (fst (query_results sub u) \<noteq> [] \<and> literal_eq ty rhs (hd (fst (query_results sub u))))"
    if m: "QUERY_WHERE sub rhs ty \<in> set parts" "denotes u node" for sub rhs ty u node
  proof -
    from keyed_where [OF less.prems(1) m(1)] obtain key sub' where k: "sub = QUERY_KEY key # sub'" "iters sub \<le> JSON_ITER_MAX_FRAMES" "keyed sub" by blast
    show ?thesis using less.hyps [OF size_where [OF m(1)] k(3,2), of u _ "[]" "[]"] by (intro where_holds_sub [OF k(1) m(2)]) simp
  qed
  then have holds: "where_ok (where_holds json_resolve) parts" by (auto simp: where_ok_def)
  have lex: "lex_value (skip_ws (w @ t @ rest)) = Inr (node_of v t, rest)"
    using skip_ws_text [OF less.prems(4,3)] lex_value_text [OF less.prems(3,5)] by simp
  have y: "yields parts (apply_from (where_holds json_resolve) parts 0 [] (node_of v t)) (query_results parts v)"
    using apply_from_yields [OF holds awaits_Nil denotesI [OF less.prems(3)] drop_0] less.prems(2) by simp
  obtain r frames where a: "apply_from (where_holds json_resolve) parts 0 [] (node_of v t) = (r, frames)" by fastforce
  show ?case
  proof (cases "r = Inl JSON_ERR_NOT_FOUND \<and> frames \<noteq> []")
    case True
    then have "resumes parts (backtrack_iter (where_holds json_resolve) parts frames) (query_results parts v)"
      using backtrack_iter_resumes [OF holds] y a by (simp add: yields_def)
    then show ?thesis using True a lex
      by (cases "backtrack_iter (where_holds json_resolve) parts frames") (auto simp: json_resolve.simps resumes_def answers_def split: sum.splits)
  next
    case False
    then show ?thesis using y a lex by (cases r) (auto simp: json_resolve.simps yields_def answers_def no_results_def elim: awaits.cases split: if_splits)
  qed
qed

section \<open>Iterating over the results\<close>

text \<open>At most \<open>n\<close> calls of \<open>json_iter_next\<close>: the nodes returned, and the error once there was one.\<close>

fun iter_run :: "nat \<Rightarrow> json_iter \<Rightarrow> json_node list \<times> json_err option" where
  "iter_run 0 it = ([], None)"
| "iter_run (Suc n) it =
     (case json_iter_next it of
        (Inl e, it) \<Rightarrow> ([], Some e)
      | (Inr node, it) \<Rightarrow> apfst (Cons node) (iter_run n it))"

lemma where_ok_resolve:
  assumes "keyed parts"
  shows "where_ok (where_holds json_resolve) parts"
  unfolding where_ok_def
proof (intro allI impI)
  fix sub rhs ty u node assume m: "QUERY_WHERE sub rhs ty \<in> set parts" "denotes u node"
  from keyed_where [OF assms m(1)] obtain key sub' where k: "sub = QUERY_KEY key # sub'" "iters sub \<le> JSON_ITER_MAX_FRAMES" "keyed sub" by blast
  show "where_holds json_resolve node sub rhs ty = (fst (query_results sub u) \<noteq> [] \<and> literal_eq ty rhs (hd (fst (query_results sub u))))"
    using json_resolve_answers [OF k(3,2), of u _ "[]" "[]"] by (intro where_holds_sub [OF k(1) m(2)]) simp
qed

lemma apply_from_depth: "apply_from holds ps i frames cur = (Inr node, frames') \<Longrightarrow> length frames' = length frames + iters ps"
proof (induction holds ps i frames cur rule: apply_from.induct)
  case (4 holds parts i frames cur)
  then obtain rest where r: "\<not> JSON_ITER_MAX_FRAMES \<le> length frames" "iter_open_array cur = Inr rest" by (auto split: if_splits sum.splits)
  obtain x rest' saw where t: "iter_take rest False = (x, rest', saw)" by (cases "iter_take rest False")
  show ?case using 4(1) [OF r t [symmetric] refl refl] 4(2) r t by (cases x) (auto split: if_splits)
qed (auto split: sum.splits if_splits)

lemma iter_run_awaits:
  "keyed parts \<Longrightarrow> \<not> ji_done it \<Longrightarrow> ji_frames it \<noteq> [] \<Longrightarrow> ji_parts it = parts \<Longrightarrow> awaits parts (ji_frames it) S \<Longrightarrow>
     \<exists>nodes. iter_run (length (fst S) + 1) it = (nodes, Some (snd S)) \<and> list_all2 denotes (fst S) nodes"
proof (induction "length (fst S)" arbitrary: S it)
  case 0
  from backtrack_iter_resumes [OF where_ok_resolve [OF 0(2)] 0(6)] 0(1) have
    "resumes parts (backtrack_iter (where_holds json_resolve) parts (ji_frames it)) S" by simp
  then show ?case using 0(1,3-5)
    by (cases "backtrack_iter (where_holds json_resolve) parts (ji_frames it)") (auto simp: resumes_def json_iter_next_def Let_def split: sum.splits)
next
  case (Suc n)
  note r = backtrack_iter_resumes [OF where_ok_resolve [OF Suc.prems(1)] Suc.prems(5)]
  obtain x frames where b: "backtrack_iter (where_holds json_resolve) parts (ji_frames it) = (x, frames)" by fastforce
  with r Suc.hyps(2) obtain node v S' where x: "x = Inr node" "frames \<noteq> []" "denotes v node" "S = (v # fst S', snd S')" "awaits parts frames S'"
    by (cases x) (auto simp: resumes_def)
  have "n = length (fst S')" using Suc.hyps(2) x(4) by simp
  from Suc.hyps(1) [OF this Suc.prems(1), of "it \<lparr>ji_frames := frames\<rparr>"] x Suc.prems(2,4) obtain nodes where
    "iter_run (length (fst S') + 1) (it \<lparr>ji_frames := frames\<rparr>) = (nodes, Some (snd S'))" "list_all2 denotes (fst S') nodes" by auto
  moreover have "json_iter_next it = (Inr node, it \<lparr>ji_frames := frames\<rparr>)" using b x(1) Suc.prems(2-4) by (simp add: json_iter_next_def Let_def)
  ultimately show ?case using x(3,4) by simp
qed

section \<open>Properties\<close>



section \<open>An example\<close>

text \<open>The document \<open>{"codecs":[{"name":"bytes"},{"name":"zstd","level":3}]}\<close>.\<close>

definition example_doc :: json where
  "example_doc = JObj [(''codecs'', JArr [JObj [(''name'', JStr ''bytes'')], JObj [(''name'', JStr ''zstd''), (''level'', JNum ''3'')]])]"

definition example_query :: "json_query list" where
  "example_query = [QUERY_KEY ''codecs'', QUERY_ITER, QUERY_WHERE [QUERY_KEY ''name''] ''zstd'' JSON_STRING, QUERY_KEY ''level'']"

lemma number_text_digits: "digits n \<Longrightarrow> hd n \<noteq> CHR ''0'' \<or> n = ''0'' \<Longrightarrow> number_text n"
  unfolding number_text_def by (intro exI [of _ "[]"] exI [of _ n]) auto

fun plain_text :: "string \<Rightarrow> bool" where
  "plain_text [] = True"
| "plain_text (ch # s) = (ch \<noteq> quote \<and> ch \<noteq> backslash \<and> 32 \<le> (of_char ch :: nat) \<and> plain_text s)"

lemma plain_string: "plain_text s \<Longrightarrow> string_text s"
  by (induction s) (auto intro: string_text.intros)

lemma example_text: "jtext example_doc (render example_doc)"
proof (rule render_text)
  have "plain_text ''codecs''" "plain_text ''name''" "plain_text ''bytes''" "plain_text ''zstd''" "plain_text ''level''" by code_simp+
  moreover have "number_text ''3''" by (rule number_text_digits) (simp_all add: digits_def is_digit_def)
  ultimately show "wf_json example_doc" by (simp add: example_doc_def plain_string)
qed

lemma example_results: "query_results example_query example_doc = ([JNum ''3''], JSON_ERR_NOT_FOUND)"
  by code_simp

lemma example_keyed: "keyed example_query" "0 < iters example_query" "iters example_query \<le> JSON_ITER_MAX_FRAMES"
  by code_simp+



text \<open>An iterator over a query without an iteration step never ends: it returns the one result again and again.\<close>

lemma apply_from_single: "iters ps = 0 \<Longrightarrow> snd (apply_from holds ps i frames cur) = frames"
  by (induction holds ps i frames cur rule: apply_from.induct) (auto split: sum.splits)

theorem json_iter_single_repeats:
  assumes "json_iter_next it = (Inr node, it')" and "iters (ji_parts it) = 0" and "ji_frames it = []"
  shows "it' = it"
proof -
  obtain doc c where d: "lex_value (skip_ws (ji_src it)) = Inr (doc, c)" "\<not> ji_done it" using assms(1,3)
    by (auto simp: json_iter_next_def Let_def split: sum.splits if_splits)
  obtain r frames where a: "apply_from (where_holds json_resolve) (ji_parts it) 0 [] doc = (r, frames)" by fastforce
  have "frames = []" using apply_from_single [OF assms(2), of "where_holds json_resolve" 0 "[]" doc] a by simp
  then show ?thesis using assms d a by (cases r) (auto simp: json_iter_next_def Let_def)
qed

text \<open>A filter on the elements themselves never finds a string, because the sub-query reads the bytes between its quotes.\<close>

theorem json_where_string_missed:
  "json_resolve (render (JArr [JStr ''x''])) [QUERY_ITER, QUERY_WHERE [] ''x'' JSON_STRING] = Inl (JSON_ERR_NOT_FOUND, 5) \<and>
   query_results [QUERY_ITER, QUERY_WHERE [] ''x'' JSON_STRING] (JArr [JStr ''x'']) = ([JStr ''x''], JSON_ERR_NOT_FOUND)"
  by code_simp

end
