(* ===== verification/Zarr_Metadata.thy ===== *)
theory Zarr_Metadata
  imports Float_Bits Json_Query Zarr_Shards "HOL-Library.Monad_Syntax"
begin

text \<open>
  Parsing the metadata of a zarr array, src/src/zarr/zarr\_metadata.c. \<open>None\<close> is the non-zero return of a function. The loop over
  a list of codecs is bounded by fuel; running out of it is a further \<open>None\<close> around the result and shown not to happen.
\<close>

section \<open>Arrays of numbers\<close>

definition resolved :: "string \<Rightarrow> json_query list \<Rightarrow> json_node option" where
  "resolved src path = (case json_resolve src path of Inl _ \<Rightarrow> None | Inr n \<Rightarrow> Some n)"

definition check :: "bool \<Rightarrow> unit option" where
  "check b = (if b then Some () else None)"

text \<open>The loop of \<open>read_uint_array\<close>; \<open>room\<close> is \<open>max_rank - n\<close>.\<close>

fun read_uint_loop :: "nat \<Rightarrow> json_iter \<Rightarrow> nat list option" where
  "read_uint_loop room it =
     (case json_iter_next it of
        (Inl e, _) \<Rightarrow> if e = JSON_ERR_NOT_FOUND then Some [] else None
      | (Inr v, it) \<Rightarrow>
          (case room of
             0 \<Rightarrow> None
           | Suc room \<Rightarrow> (case json_as_uint v of Inl _ \<Rightarrow> None | Inr x \<Rightarrow> map_option (Cons x) (read_uint_loop room it))))"

declare read_uint_loop.simps [simp del]

definition read_uint_array :: "json_node \<Rightarrow> nat \<Rightarrow> nat list option" where
  "read_uint_array arr max_rank =
     (if jn_type arr \<noteq> JSON_ARRAY then None
      else
        do {
          xs \<leftarrow> read_uint_loop max_rank (json_iter_init (jn_s arr) [QUERY_ITER]);
          if xs = [] then None else Some xs
        })"

text \<open>The array a list of numbers is written to, which was filled with zeroes.\<close>

definition rank_array :: "nat list \<Rightarrow> nat list" where
  "rank_array xs = xs @ replicate (DAMACY_MAX_RANK - length xs) 0"

section \<open>Fill values\<close>

definition pack_le :: "64 word \<Rightarrow> nat \<Rightarrow> 8 word list" where
  "pack_le v n = map (\<lambda>i. ucast (drop_bit (8 * i) v)) [0 ..< n]"

text \<open>\<open>(double)NAN\<close> and \<open>(double)INFINITY\<close>, with the sign changed if \<open>negative\<close>.\<close>

definition special_double :: "string \<Rightarrow> bool \<Rightarrow> 64 word option" where
  "special_double s negative =
     map_option (\<lambda>v. word_of_nat (sign_bit 52 11 negative + v))
       (if s = ''NaN'' then Some (infinity_bits 52 11 + 2 ^ 51) else if s = ''Infinity'' then Some (infinity_bits 52 11) else None)"

definition parse_float_special :: "json_node \<Rightarrow> dtype \<Rightarrow> 8 word list option" where
  "parse_float_special n dt =
     (if jn_type n \<noteq> JSON_STRING \<or> jn_flag n = JSON_NODE_FLAG_STR_ESCAPED then None
      else
        let s = jn_s n;
            negative = (s \<noteq> [] \<and> hd s = CHR ''-'');
            s = (if s \<noteq> [] \<and> (hd s = CHR ''-'' \<or> hd s = CHR ''+'') then tl s else s)
        in do {
             v \<leftarrow> special_double s negative;
             case dt of
               dtype_f16 \<Rightarrow> Some (pack_le (ucast (float_to_half_bits (float_of_double v))) 2)
             | dtype_f32 \<Rightarrow> Some (pack_le (ucast (float_of_double v)) 4)
             | dtype_f64 \<Rightarrow> Some (pack_le v 8)
             | _ \<Rightarrow> None
           })"

definition right_value :: "'e + 'a \<Rightarrow> 'a option" where
  "right_value r = (case r of Inl _ \<Rightarrow> None | Inr v \<Rightarrow> Some v)"

text \<open>The first \<open>bpe\<close> bytes of the fill value.\<close>

definition parse_fill_value :: "bool \<Rightarrow> json_node \<Rightarrow> dtype \<Rightarrow> nat \<Rightarrow> 8 word list option" where
  "parse_fill_value ue n dt bpe =
     (if bpe = 0 \<or> bpe > DAMACY_MAX_DTYPE_BYTES then None
      else if dt \<in> {dtype_u8, dtype_u16, dtype_u32, dtype_u64} then map_option (\<lambda>v. pack_le (word_of_nat v) bpe) (right_value (json_as_uint n))
      else if dt \<in> {dtype_i8, dtype_i16, dtype_i32, dtype_i64} then map_option (\<lambda>v. pack_le (word_of_int v) bpe) (right_value (json_as_int n))
      else
        let number = (if jn_type n = JSON_NUMBER then right_value (json_as_double ue n) else None)
        in if dt = dtype_f16
           then (case number of
                   Some v \<Rightarrow> Some (pack_le (ucast (float_to_half_bits (float_of_double v))) 2)
                 | None \<Rightarrow> parse_float_special n dtype_f16)
           else if jn_type n = JSON_NUMBER
           then map_option (\<lambda>v. if dt = dtype_f32 then pack_le (ucast (float_of_double v)) 4 else pack_le v 8) number
           else parse_float_special n dt)"

section \<open>Data type and codecs\<close>

definition parse_data_type :: "json_node \<Rightarrow> dtype option" where
  "parse_data_type n =
     (if jn_type n \<noteq> JSON_STRING \<or> jn_flag n = JSON_NODE_FLAG_STR_ESCAPED then None else dtype_from_zarr_string (jn_s n))"

definition resolve_blosc_cname :: "json_node \<Rightarrow> compression_codec option" where
  "resolve_blosc_cname codec_obj =
     do {
       cname \<leftarrow> resolved (jn_s codec_obj) [QUERY_KEY ''configuration'', QUERY_KEY ''cname''];
       check (jn_type cname = JSON_STRING);
       if json_str_eq cname ''lz4'' \<or> json_str_eq cname ''lz4hc'' then Some CODEC_BLOSC_LZ4
       else if json_str_eq cname ''zstd'' then Some CODEC_BLOSC_ZSTD
       else None
     }"

fun inner_codec_loop :: "nat \<Rightarrow> json_iter \<Rightarrow> compression_codec option option" where
  "inner_codec_loop 0 it = None"
| "inner_codec_loop (Suc fuel) it =
     (case json_iter_next it of
        (Inl e, _) \<Rightarrow> Some (if e = JSON_ERR_NOT_FOUND then Some CODEC_NONE else None)
      | (Inr c, it) \<Rightarrow>
          if jn_type c \<noteq> JSON_OBJECT then Some None
          else
            (case resolved (jn_s c) [QUERY_KEY ''name''] of
               None \<Rightarrow> Some None
             | Some name \<Rightarrow>
                 if jn_type name \<noteq> JSON_STRING then Some None
                 else if json_str_eq name ''bytes'' then inner_codec_loop fuel it
                 else if json_str_eq name ''zstd'' then Some (Some CODEC_ZSTD)
                 else if json_str_eq name ''blosc'' then Some (resolve_blosc_cname c)
                 else Some None))"

definition parse_inner_codec :: "json_node \<Rightarrow> compression_codec option option" where
  "parse_inner_codec codecs_arr =
     (if jn_type codecs_arr \<noteq> JSON_ARRAY then Some None
      else inner_codec_loop (2 * length (jn_s codecs_arr) + 2) (json_iter_init (jn_s codecs_arr) [QUERY_ITER]))"

section \<open>The document\<close>

text \<open>The fields up to the shape of the shards: the shape, the data type, the fill value and the shape of the shards.\<close>

definition parse_head :: "bool \<Rightarrow> string \<Rightarrow> (nat list \<times> dtype \<times> 8 word list \<times> nat list) option" where
  "parse_head ue src =
     do {
       n \<leftarrow> resolved src [QUERY_KEY ''node_type''];
       check (json_str_eq n ''array'');
       n \<leftarrow> resolved src [QUERY_KEY ''zarr_format''];
       v \<leftarrow> right_value (json_as_int n);
       check (v = 3);
       n \<leftarrow> resolved src [QUERY_KEY ''shape''];
       shape \<leftarrow> read_uint_array n DAMACY_MAX_RANK;
       n \<leftarrow> resolved src [QUERY_KEY ''data_type''];
       dt \<leftarrow> parse_data_type n;
       let bpe = dtype_bpe dt;
       check (\<not> (bpe = 0 \<or> bpe > DAMACY_MAX_DTYPE_BYTES));
       fill \<leftarrow> (case json_resolve src [QUERY_KEY ''fill_value''] of Inl _ \<Rightarrow> Some [] | Inr n \<Rightarrow> parse_fill_value ue n dt bpe);
       n \<leftarrow> resolved src [QUERY_KEY ''chunk_grid'', QUERY_KEY ''configuration'', QUERY_KEY ''chunk_shape''];
       shard \<leftarrow> read_uint_array n DAMACY_MAX_RANK;
       check (length shard = length shape);
       Some (shape, dt, fill @ replicate (DAMACY_MAX_DTYPE_BYTES - length fill) 0, shard)
     }"

definition sharding_path :: "json_query list" where
  "sharding_path = [QUERY_KEY ''codecs'', QUERY_ITER, QUERY_WHERE [QUERY_KEY ''name''] ''sharding_indexed'' JSON_STRING]"

text \<open>The codecs: whether the array is sharded, the shape of the inner chunks, their codec and whether the index is at the end.\<close>

definition parse_codecs :: "string \<Rightarrow> nat list \<Rightarrow> (bool \<times> nat list \<times> compression_codec \<times> bool) option option" where
  "parse_codecs src shard =
     (case json_resolve src sharding_path of
        Inr sharding \<Rightarrow>
          (let conf = resolved (jn_s sharding)
           in case do {
                  n \<leftarrow> conf [QUERY_KEY ''configuration'', QUERY_KEY ''chunk_shape''];
                  inner \<leftarrow> read_uint_array n DAMACY_MAX_RANK;
                  check (length inner = length shard);
                  n \<leftarrow> conf [QUERY_KEY ''configuration'', QUERY_KEY ''codecs''];
                  Some (inner, n)
                } of
                None \<Rightarrow> Some None
              | Some (inner, n) \<Rightarrow>
                  map_option
                    (map_option (\<lambda>codec. (True, inner, codec,
                      \<not> (case conf [QUERY_KEY ''configuration'', QUERY_KEY ''index_location''] of None \<Rightarrow> False | Some n \<Rightarrow> json_str_eq n ''start''))))
                    (parse_inner_codec n))
      | Inl (e, _) \<Rightarrow>
          if e = JSON_ERR_NOT_FOUND
          then (case resolved src [QUERY_KEY ''codecs''] of
                  None \<Rightarrow> Some None
                | Some codecs \<Rightarrow> map_option (map_option (\<lambda>codec. (False, shard, codec, True))) (parse_inner_codec codecs))
          else Some None)"

definition zarr_metadata_parse :: "bool \<Rightarrow> string \<Rightarrow> zarr_metadata option option" where
  "zarr_metadata_parse ue src =
     (case parse_head ue src of
        None \<Rightarrow> Some None
      | Some (shape, dt, fill, shard) \<Rightarrow>
          (case parse_codecs src shard of
             None \<Rightarrow> None
           | Some None \<Rightarrow> Some None
           | Some (Some (sharded, inner, codec, index_end)) \<Rightarrow>
               Some (if list_ex (\<lambda>(inner, shard). inner = 0 \<or> shard mod inner \<noteq> 0) (zip inner shard) then None
                     else Some \<lparr>zm_dtype = dt, zm_rank = length shape, zm_shape = rank_array shape,
                                zm_inner_chunk_shape = rank_array inner, zm_shard_shape = rank_array shard, zm_sharded = sharded,
                                zm_inner_codec = codec, zm_index_location_end = index_end, zm_fill_value = fill\<rparr>)))"

end
