(* ===== verification/Zarr_Document.thy ===== *)
theory Zarr_Document
  imports Zarr_Metadata_Correct
begin

text \<open>
  zarr\_metadata\_parse against a description of arrays on JSON values. The parser returns on every input; on the text of a JSON
  value it returns what the value describes, whatever the order of its members, its white space and its other members.
\<close>

section \<open>Iterating over an array\<close>

text \<open>An iterator over the elements of an array that has fewer than \<open>n\<close> bytes left.\<close>

definition bounded_iter :: "nat \<Rightarrow> json_iter \<Rightarrow> bool" where
  "bounded_iter n it \<longleftrightarrow> ji_parts it = [QUERY_ITER] \<and>
     (ji_frames it = [] \<and> length (ji_src it) < n \<or> (\<exists>f. ji_frames it = [f] \<and> jf_part_index f = 0 \<and> length (jf_rest f) < n))"

lemma bounded_iter_next:
  assumes "bounded_iter n it" and "json_iter_next it = (Inr v, it')"
  shows "0 < n \<and> bounded_iter (n - 1) it'"
proof (cases "ji_frames it = []")
  case True
  with assms obtain doc c where d: "lex_value (skip_ws (ji_src it)) = Inr (doc, c)" "\<not> ji_done it" and p: "ji_parts it = [QUERY_ITER]" "length (ji_src it) < n"
    by (auto simp: json_iter_next_def bounded_iter_def Let_def split: if_splits sum.splits)
  obtain rest where o: "iter_open_array doc = Inr rest"
    using assms(2) True d p by (cases "iter_open_array doc") (auto simp: json_iter_next_def JSON_ITER_MAX_FRAMES_def split: if_splits)
  obtain r rest' saw where t: "iter_take rest False = (r, rest', saw)" by (cases "iter_take rest False")
  with assms(2) True d p o have r: "r = Inr v" and it': "it' = it \<lparr>ji_frames := [\<lparr>jf_part_index = 0, jf_rest = rest', jf_saw_first = saw\<rparr>]\<rparr>"
    by (cases r; auto simp: json_iter_next_def JSON_ITER_MAX_FRAMES_def backtrack_iter.simps Let_def split: if_splits)+
  have "length rest' < length (jn_s doc)"
    using iter_take_span [OF t [unfolded r]] o by (auto simp: iter_open_array_def split: if_splits list.splits)
  then show ?thesis using lex_value_span [OF d(1)] skip_ws_le [of "ji_src it"] p it' by (simp add: bounded_iter_def)
next
  case False
  with assms obtain f where f: "ji_frames it = [f]" "jf_part_index f = 0" "length (jf_rest f) < n" "\<not> ji_done it" and p: "ji_parts it = [QUERY_ITER]"
    by (auto simp: json_iter_next_def bounded_iter_def Let_def split: if_splits)
  obtain r rest saw where t: "iter_take (jf_rest f) (jf_saw_first f) = (r, rest, saw)" by (cases "iter_take (jf_rest f) (jf_saw_first f)")
  with assms(2) f p have r: "r = Inr v" and it': "it' = it \<lparr>ji_frames := [f \<lparr>jf_rest := rest, jf_saw_first := saw\<rparr>]\<rparr>"
    by (cases r; auto simp: json_iter_next_def backtrack_iter.simps split: if_splits)+
  then show ?thesis using iter_take_span [OF t [unfolded r]] f p by (auto simp: bounded_iter_def)
qed

lemma inner_codec_loop_returns: "bounded_iter n it \<Longrightarrow> n < fuel \<Longrightarrow> inner_codec_loop fuel it \<noteq> None"
proof (induction fuel it arbitrary: n rule: inner_codec_loop.induct)
  case (2 fuel it)
  obtain r it' where n: "json_iter_next it = (r, it')" by fastforce
  show ?case
  proof (cases r)
    case (Inl e)
    then show ?thesis using n by simp
  next
    case (Inr v)
    have "inner_codec_loop fuel it' \<noteq> None" if "jn_type v = JSON_OBJECT" "resolved (jn_s v) [QUERY_KEY ''name''] = Some name"
      "jn_type name = JSON_STRING" "json_str_eq name ''bytes''" for name
      using 2(1) [OF n [symmetric] Inr _ that(2) _ that(4)] that bounded_iter_next [OF 2(2) n [unfolded Inr]] 2(3) by auto
    then show ?thesis using n Inr by (auto split: option.splits)
  qed
qed simp

lemma parse_inner_codec_returns: "parse_inner_codec n \<noteq> None"
proof (cases "jn_type n = JSON_ARRAY")
  case True
  have "bounded_iter (length (jn_s n) + 1) (json_iter_init (jn_s n) [QUERY_ITER])" by (simp add: bounded_iter_def json_iter_init_def)
  from inner_codec_loop_returns [OF this, of "2 * length (jn_s n) + 2"] True show ?thesis by (simp add: parse_inner_codec_def del: inner_codec_loop.simps)
qed (simp add: parse_inner_codec_def)

lemma parse_codecs_returns: "parse_codecs src shard \<noteq> None"
  using parse_inner_codec_returns by (auto simp: parse_codecs_def Let_def split: sum.splits option.splits)

section \<open>What a value describes\<close>

text \<open>The first result of a path, and the node of a value that has no parts.\<close>

definition lookup_path :: "json_query list \<Rightarrow> json \<Rightarrow> json option" where
  "lookup_path path v = (case fst (query_results path v) of [] \<Rightarrow> None | w # _ \<Rightarrow> Some w)"

definition leaf :: "json \<Rightarrow> json_node" where
  "leaf v = node_of v (case v of JNull \<Rightarrow> ''null'' | JBool b \<Rightarrow> (if b then ''true'' else ''false'') | JNum n \<Rightarrow> n | _ \<Rightarrow> [])"

definition numbers_of :: "json \<Rightarrow> nat list option" where
  "numbers_of v =
     (case v of
        JArr vs \<Rightarrow>
          if vs \<noteq> [] \<and> length vs \<le> DAMACY_MAX_RANK then those (map (\<lambda>v. right_value (json_as_uint (leaf v))) vs) else None
      | _ \<Rightarrow> None)"

definition blosc_codec_of :: "json \<Rightarrow> compression_codec option" where
  "blosc_codec_of c =
     (case lookup_path [QUERY_KEY ''configuration'', QUERY_KEY ''cname''] c of
        Some (JStr s) \<Rightarrow>
          if s = ''lz4'' \<or> s = ''lz4hc'' then Some CODEC_BLOSC_LZ4 else if s = ''zstd'' then Some CODEC_BLOSC_ZSTD else None
      | _ \<Rightarrow> None)"

text \<open>The first codec of a chain that is not \<open>bytes\<close>.\<close>

fun chain_codec :: "json list \<Rightarrow> compression_codec option" where
  "chain_codec [] = Some CODEC_NONE"
| "chain_codec (c # cs) =
     (case lookup_path [QUERY_KEY ''name''] c of
        Some (JStr s) \<Rightarrow>
          if s = ''bytes'' then chain_codec cs
          else if s = ''zstd'' then Some CODEC_ZSTD
          else if s = ''blosc'' then blosc_codec_of c
          else None
      | _ \<Rightarrow> None)"

definition codec_of :: "json \<Rightarrow> compression_codec option" where
  "codec_of v = (case v of JArr cs \<Rightarrow> chain_codec cs | _ \<Rightarrow> None)"

section \<open>Nodes and values\<close>

lemma denotes_leaf:
  assumes "denotes v node"
  shows "jn_type node = jn_type (leaf v)" "jn_flag node = jn_flag (leaf v)"
    "(\<And>vs. v \<noteq> JArr vs) \<Longrightarrow> (\<And>ms. v \<noteq> JObj ms) \<Longrightarrow> jn_s node = jn_s (leaf v)"
  using assms by (cases v; auto simp: denotes_def leaf_def elim: jtext.cases)+

lemma leaf_scalar:
  assumes "jn_type (leaf v) \<notin> {JSON_ARRAY, JSON_OBJECT}"
  shows "v \<noteq> JArr vs" "v \<noteq> JObj ms"
  using assms by (auto simp: leaf_def)

lemma denotes_fun:
  assumes "denotes v node" and "\<And>n m :: json_node. jn_type n = jn_type m \<Longrightarrow> jn_flag n = jn_flag m \<Longrightarrow> jn_s n = jn_s m \<or> jn_type n \<in> {JSON_ARRAY, JSON_OBJECT} \<Longrightarrow> f n = f m"
  shows "f node = f (leaf v)"
  using denotes_leaf [OF assms(1)] leaf_scalar [of v] by (intro assms(2)) auto

lemma denotes_json_as_uint: "denotes v node \<Longrightarrow> json_as_uint node = json_as_uint (leaf v)"
  by (erule denotes_fun) (auto simp: json_as_uint_def)

lemma denotes_json_as_int: "denotes v node \<Longrightarrow> json_as_int node = json_as_int (leaf v)"
  by (erule denotes_fun) (auto simp: json_as_int_def)

lemma denotes_json_as_double: "denotes v node \<Longrightarrow> json_as_double ue node = json_as_double ue (leaf v)"
  by (erule denotes_fun) (auto simp: json_as_double_def)

lemma denotes_parse_data_type: "denotes v node \<Longrightarrow> parse_data_type node = parse_data_type (leaf v)"
  by (erule denotes_fun) (auto simp: parse_data_type_def)

lemma denotes_parse_float_special: "denotes v node \<Longrightarrow> parse_float_special node dt = parse_float_special (leaf v) dt"
  by (erule denotes_fun) (auto simp: parse_float_special_def)

lemma denotes_parse_fill_value: "denotes v node \<Longrightarrow> parse_fill_value ue node dt bpe = parse_fill_value ue (leaf v) dt bpe"
  by (simp add: parse_fill_value_def denotes_json_as_uint denotes_json_as_int denotes_json_as_double denotes_parse_float_special denotes_leaf(1)
      cong: option.case_cong)

lemma denotes_json_str_eq: "denotes v node \<Longrightarrow> backslash \<notin> set s \<Longrightarrow> json_str_eq node s \<longleftrightarrow> v = JStr s"
  by (cases v) (auto simp: denotes_def json_str_eq_def)

lemma denotes_type:
  assumes "denotes v node"
  shows "jn_type node = JSON_ARRAY \<longleftrightarrow> (\<exists>vs. v = JArr vs)" "jn_type node = JSON_OBJECT \<longleftrightarrow> (\<exists>ms. v = JObj ms)"
    "jn_type node = JSON_STRING \<longleftrightarrow> (\<exists>s. v = JStr s)"
  using assms by (cases v; auto simp: denotes_def)+

lemma denotes_text:
  assumes "denotes v node" and "jn_type node \<in> {JSON_ARRAY, JSON_OBJECT}"
  shows "jtext v (jn_s node)"
  using assms by (cases v) (auto simp: denotes_def)

section \<open>The parser on texts\<close>

lemma resolve_path:
  assumes "jtext v t" and "ws w" and "num_end w'" and "keyed path" and "iters path \<le> JSON_ITER_MAX_FRAMES"
  shows "rel_option denotes (lookup_path path v) (resolved (w @ t @ w') path)"
  using json_resolve_answers [OF assms(4,5,1,2,3)]
  by (cases "fst (query_results path v)") (auto simp: lookup_path_def resolved_def answers_def split: sum.splits)

lemma resolve_node:
  assumes "denotes v node" and "jn_type node \<in> {JSON_ARRAY, JSON_OBJECT}" and "keyed path" and "iters path \<le> JSON_ITER_MAX_FRAMES"
  shows "rel_option denotes (lookup_path path v) (resolved (jn_s node) path)"
  using resolve_path [OF denotes_text [OF assms(1,2)], of "[]" "[]"] assms(3,4) by simp

lemma keyed_keys: "keyed (map QUERY_KEY ks)" "iters (map QUERY_KEY ks) = 0"
  by (induction ks) auto

text \<open>An iterator that still has the elements \<open>vs\<close> of an array before it.\<close>

definition array_iter :: "json list \<Rightarrow> json_iter \<Rightarrow> bool" where
  "array_iter vs it \<longleftrightarrow> ji_parts it = [QUERY_ITER] \<and> \<not> ji_done it \<and>
     (ji_frames it = [] \<and> jtext (JArr vs) (ji_src it) \<or>
      (\<exists>f. ji_frames it = [f] \<and> jf_part_index f = 0 \<and> jf_saw_first f \<and> tail_text vs (jf_rest f)))"

lemma array_iter_init: "denotes (JArr vs) node \<Longrightarrow> array_iter vs (json_iter_init (jn_s node) [QUERY_ITER])"
  by (auto simp: array_iter_def json_iter_init_def denotes_def)

lemma array_iter_end:
  assumes "array_iter [] it"
  shows "fst (json_iter_next it) = Inl JSON_ERR_NOT_FOUND"
proof (cases "ji_frames it = []")
  case True
  with assms have t: "jtext (JArr []) (ji_src it)" "ji_parts it = [QUERY_ITER]" "\<not> ji_done it" by (auto simp: array_iter_def)
  have lex: "lex_value (skip_ws (ji_src it)) = Inr (node_of (JArr []) (ji_src it), [])"
    using skip_ws_text [of "[]", OF _ t(1), of "[]"] lex_value_text [OF t(1), of "[]"] by simp
  obtain rest where "iter_open_array (node_of (JArr []) (ji_src it)) = Inr rest" "fst (iter_take rest False) = Inl JSON_ERR_NOT_FOUND"
    by (rule iter_open_text [OF t(1)]) simp
  then show ?thesis using True t lex
    by (cases "iter_take rest False") (auto simp: json_iter_next_def JSON_ITER_MAX_FRAMES_def)
next
  case False
  with assms obtain f where f: "ji_frames it = [f]" "jf_saw_first f" "tail_text [] (jf_rest f)" "\<not> ji_done it" by (auto simp: array_iter_def)
  then show ?thesis using iter_take_end [OF f(3)]
    by (cases "iter_take (jf_rest f) True") (auto simp: json_iter_next_def backtrack_iter.simps Let_def)
qed

lemma array_iter_next:
  assumes "array_iter (v # vs) it"
  shows "\<exists>node it'. json_iter_next it = (Inr node, it') \<and> denotes v node \<and> array_iter vs it'"
proof (cases "ji_frames it = []")
  case True
  with assms have t: "jtext (JArr (v # vs)) (ji_src it)" "ji_parts it = [QUERY_ITER]" "\<not> ji_done it" by (auto simp: array_iter_def)
  have lex: "lex_value (skip_ws (ji_src it)) = Inr (node_of (JArr (v # vs)) (ji_src it), [])"
    using skip_ws_text [of "[]", OF _ t(1), of "[]"] lex_value_text [OF t(1), of "[]"] by simp
  obtain rest node rest' where o: "iter_open_array (node_of (JArr (v # vs)) (ji_src it)) = Inr rest"
    "iter_take rest False = (Inr node, rest', True)" "denotes v node" "tail_text vs rest'"
    by (rule iter_open_text [OF t(1)]) blast
  then show ?thesis using True t lex by (simp add: json_iter_next_def JSON_ITER_MAX_FRAMES_def array_iter_def)
next
  case False
  with assms obtain f where f: "ji_frames it = [f]" "jf_part_index f = 0" "jf_saw_first f" "tail_text (v # vs) (jf_rest f)" "\<not> ji_done it" "ji_parts it = [QUERY_ITER]"
    by (auto simp: array_iter_def)
  obtain node rest' where n: "iter_take (jf_rest f) True = (Inr node, rest', True)" "denotes v node" "tail_text vs rest'"
    using iter_take_next [OF f(4)] by blast
  then show ?thesis using f by (simp add: json_iter_next_def backtrack_iter.simps Let_def array_iter_def)
qed

lemma read_uint_loop_values:
  "array_iter vs it \<Longrightarrow> read_uint_loop room it = (if length vs \<le> room then those (map (\<lambda>v. right_value (json_as_uint (leaf v))) vs) else None)"
proof (induction vs arbitrary: room it)
  case Nil
  then show ?case using array_iter_end [OF Nil] by (subst read_uint_loop.simps) (auto split: prod.splits)
next
  case (Cons v vs)
  from array_iter_next [OF Cons(2)] obtain node it' where n: "json_iter_next it = (Inr node, it')" "denotes v node" "array_iter vs it'" by blast
  have "read_uint_loop room it = (case room of 0 \<Rightarrow> None | Suc room \<Rightarrow>
      (case json_as_uint (leaf v) of Inl _ \<Rightarrow> None | Inr x \<Rightarrow> map_option (Cons x) (read_uint_loop room it')))"
    using n denotes_json_as_uint [OF n(2)] by (subst read_uint_loop.simps) (simp cong: nat.case_cong)
  then show ?case using Cons(1) [OF n(3)] by (auto simp: right_value_def split: nat.splits sum.splits)
qed

lemma read_uint_array_values:
  assumes "denotes v node"
  shows "read_uint_array node DAMACY_MAX_RANK = numbers_of v"
proof (cases "\<exists>vs. v = JArr vs")
  case True
  then obtain vs where v: "v = JArr vs" by blast
  have "those (map f vs) = Some [] \<longleftrightarrow> vs = []" for f :: "json \<Rightarrow> nat option" by (cases vs) (auto split: option.splits)
  then show ?thesis using read_uint_loop_values [OF array_iter_init [OF assms [unfolded v]], of DAMACY_MAX_RANK] denotes_type(1) [OF assms] v
    by (cases "vs = []") (auto simp: read_uint_array_def numbers_of_def bind_eq_None_conv split: bind_splits)
next
  case False
  then show ?thesis using denotes_type(1) [OF assms] by (auto simp: read_uint_array_def numbers_of_def split: json.splits)
qed

lemma plain_names:
  "backslash \<notin> set ''bytes''" "backslash \<notin> set ''zstd''" "backslash \<notin> set ''blosc''" "backslash \<notin> set ''lz4''" "backslash \<notin> set ''lz4hc''"
  "backslash \<notin> set ''array''" "backslash \<notin> set ''start''"
  by code_simp+

lemmas denotes_str_eq = plain_names [THEN denotes_json_str_eq [rotated]]

lemma lookup_path_object: "lookup_path (QUERY_KEY k # path) v = Some w \<Longrightarrow> \<exists>ms. v = JObj ms"
  by (cases v) (simp_all add: lookup_path_def)

lemma resolve_keys:
  assumes "denotes v node" and "jn_type node = JSON_OBJECT"
  shows "rel_option denotes (lookup_path (map QUERY_KEY ks) v) (resolved (jn_s node) (map QUERY_KEY ks))"
  using resolve_node [OF assms(1) _ keyed_keys(1)] assms(2) keyed_keys(2) by simp

lemma resolve_blosc_cname_value:
  assumes "denotes c node" and "jn_type node = JSON_OBJECT"
  shows "resolve_blosc_cname node = blosc_codec_of c"
  using resolve_keys [OF assms, of "[''configuration'', ''cname'']"]
proof (cases rule: option.rel_cases)
  case (Some w n)
  then show ?thesis using denotes_str_eq [OF Some(3)] denotes_type(3) [OF Some(3)]
    by (cases w) (auto simp: resolve_blosc_cname_def blosc_codec_of_def check_def)
qed (simp add: resolve_blosc_cname_def blosc_codec_of_def)

lemma inner_codec_loop_values: "array_iter cs it \<Longrightarrow> inner_codec_loop fuel it = Some r \<Longrightarrow> r = chain_codec cs"
proof (induction cs arbitrary: fuel it)
  case Nil
  then show ?case using array_iter_end [OF Nil(1)] by (cases fuel) (auto split: prod.splits)
next
  case (Cons c cs)
  from array_iter_next [OF Cons(2)] obtain node it' where n: "json_iter_next it = (Inr node, it')" "denotes c node" "array_iter cs it'" by blast
  from Cons(3) obtain fuel' where f: "fuel = Suc fuel'" by (cases fuel) auto
  show ?case
  proof (cases "jn_type node = JSON_OBJECT")
    case True
    from resolve_keys [OF n(2) True, of "[''name'']"] show ?thesis
    proof (cases rule: option.rel_cases)
      case None
      then show ?thesis using Cons(3) n(1) f True by simp
    next
      case (Some w m)
      show ?thesis using Some(1,2) Cons(3) Cons(1) [OF n(3), of fuel'] n(1) f True denotes_str_eq [OF Some(3)] denotes_type(3) [OF Some(3)] resolve_blosc_cname_value [OF n(2) True]
        by (cases w) (auto split: if_splits)
    qed
  next
    case False
    then have "lookup_path [QUERY_KEY ''name''] c = None" using lookup_path_object [of "''name''" "[]" c] denotes_type(2) [OF n(2)] by fastforce
    then show ?thesis using Cons(3) n(1) f False by simp
  qed
qed

lemma parse_inner_codec_value:
  assumes "denotes v node"
  shows "parse_inner_codec node = Some (codec_of v)"
proof (cases "\<exists>cs. v = JArr cs")
  case True
  then obtain cs where v: "v = JArr cs" by blast
  obtain r where r: "parse_inner_codec node = Some r" using parse_inner_codec_returns by fastforce
  then show ?thesis using inner_codec_loop_values [OF array_iter_init [OF assms [unfolded v]]] denotes_type(1) [OF assms] v
    by (auto simp: parse_inner_codec_def codec_of_def simp del: inner_codec_loop.simps)
next
  case False
  then show ?thesis using denotes_type(1) [OF assms] by (auto simp: parse_inner_codec_def codec_of_def split: json.splits)
qed

section \<open>Documents\<close>

definition described_head :: "bool \<Rightarrow> json \<Rightarrow> (nat list \<times> dtype \<times> 8 word list \<times> nat list) option" where
  "described_head ue doc =
     do {
       v \<leftarrow> lookup_path [QUERY_KEY ''node_type''] doc;
       check (v = JStr ''array'');
       v \<leftarrow> lookup_path [QUERY_KEY ''zarr_format''] doc;
       format \<leftarrow> right_value (json_as_int (leaf v));
       check (format = 3);
       v \<leftarrow> lookup_path [QUERY_KEY ''shape''] doc;
       shape \<leftarrow> numbers_of v;
       v \<leftarrow> lookup_path [QUERY_KEY ''data_type''] doc;
       dt \<leftarrow> parse_data_type (leaf v);
       fill \<leftarrow> (case lookup_path [QUERY_KEY ''fill_value''] doc of None \<Rightarrow> Some [] | Some v \<Rightarrow> parse_fill_value ue (leaf v) dt (dtype_bpe dt));
       v \<leftarrow> lookup_path [QUERY_KEY ''chunk_grid'', QUERY_KEY ''configuration'', QUERY_KEY ''chunk_shape''] doc;
       shard \<leftarrow> numbers_of v;
       check (length shard = length shape);
       Some (shape, dt, fill @ replicate (DAMACY_MAX_DTYPE_BYTES - length fill) 0, shard)
     }"

definition described_codecs :: "json \<Rightarrow> nat list \<Rightarrow> (bool \<times> nat list \<times> compression_codec \<times> bool) option" where
  "described_codecs doc shard =
     (case query_results sharding_path doc of
        (sharding # _, _) \<Rightarrow>
          do {
            v \<leftarrow> lookup_path [QUERY_KEY ''configuration'', QUERY_KEY ''chunk_shape''] sharding;
            inner \<leftarrow> numbers_of v;
            check (length inner = length shard);
            v \<leftarrow> lookup_path [QUERY_KEY ''configuration'', QUERY_KEY ''codecs''] sharding;
            codec \<leftarrow> codec_of v;
            Some (True, inner, codec, lookup_path [QUERY_KEY ''configuration'', QUERY_KEY ''index_location''] sharding \<noteq> Some (JStr ''start''))
          }
      | ([], e) \<Rightarrow>
          do {
            check (e = JSON_ERR_NOT_FOUND);
            v \<leftarrow> lookup_path [QUERY_KEY ''codecs''] doc;
            codec \<leftarrow> codec_of v;
            Some (False, shard, codec, True)
          })"

definition described :: "bool \<Rightarrow> json \<Rightarrow> zarr_metadata option" where
  "described ue doc =
     do {
       (shape, dt, fill, shard) \<leftarrow> described_head ue doc;
       (sharded, inner, codec, index_end) \<leftarrow> described_codecs doc shard;
       check (\<forall>(inner, shard) \<in> set (zip inner shard). 0 < inner \<and> inner dvd shard);
       Some \<lparr>zm_dtype = dt, zm_rank = length shape, zm_shape = rank_array shape, zm_inner_chunk_shape = rank_array inner,
             zm_shard_shape = rank_array shard, zm_sharded = sharded, zm_inner_codec = codec, zm_index_location_end = index_end,
             zm_fill_value = fill\<rparr>
     }"

lemma bind_rel:
  assumes "rel_option R a b" and "\<And>v n. R v n \<Longrightarrow> f v = g n"
  shows "a \<bind> f = b \<bind> g"
  using assms by (cases rule: option.rel_cases) auto

lemma bind_both:
  assumes "a = b" and "\<And>v. f v = g v"
  shows "Option.bind a f = Option.bind b g"
  using assms by (cases b) auto

lemma resolve_document:
  assumes "jtext doc t" and "ws w1" and "num_end w2"
  shows "rel_option denotes (lookup_path (map QUERY_KEY ks) doc) (resolved (w1 @ t @ w2) (map QUERY_KEY ks))"
  using resolve_path [OF assms keyed_keys(1)] keyed_keys(2) by simp

lemma resolved_None: "resolved src path = None \<longleftrightarrow> (\<exists>e. json_resolve src path = Inl e)"
  by (auto simp: resolved_def split: sum.splits)

lemma parse_head_value:
  assumes "jtext doc t" and "ws w1" and "num_end w2"
  shows "parse_head ue (w1 @ t @ w2) = described_head ue doc"
proof -
  let ?src = "w1 @ t @ w2"
  note key = resolve_document [OF assms, of "[k]" for k, simplified]
  have fill: "(case json_resolve ?src [QUERY_KEY ''fill_value''] of Inl _ \<Rightarrow> Some [] | Inr n \<Rightarrow> parse_fill_value ue n dt (dtype_bpe dt)) =
      (case lookup_path [QUERY_KEY ''fill_value''] doc of None \<Rightarrow> Some [] | Some v \<Rightarrow> parse_fill_value ue (leaf v) dt (dtype_bpe dt))" for dt
    using key [of "''fill_value''"] by (cases rule: option.rel_cases) (auto simp: resolved_def denotes_parse_fill_value split: sum.splits)
  have bpe: "check (\<not> (dtype_bpe dt = 0 \<or> DAMACY_MAX_DTYPE_BYTES < dtype_bpe dt)) = Some ()" for dt
    using dtype_bpe_cases [of dt] by (auto simp: check_def DAMACY_MAX_DTYPE_BYTES_def)
  note grid = resolve_document [OF assms, of "[''chunk_grid'', ''configuration'', ''chunk_shape'']", simplified]
  have "described_head ue doc = parse_head ue ?src" unfolding parse_head_def described_head_def Let_def bpe fill Option.bind.bind_lunit
    by (rule bind_rel [OF key] bind_rel [OF grid] refl
      | (rule bind_both, force simp: denotes_str_eq denotes_json_as_int denotes_parse_data_type read_uint_array_values))+
  then show ?thesis by simp
qed

lemma all_results_from: "set (fst (all_results rs)) \<subseteq> (\<Union>r \<in> set rs. set (fst r))"
  by (induction rs) (auto simp: then_results_def no_results_def split: if_splits)

lemma sharding_object:
  assumes "query_results sharding_path doc = (sharding # vs, e)"
  shows "\<exists>ms. sharding = JObj ms"
proof -
  have one: "\<exists>ms. v = JObj ms" if "v \<in> set (fst (query_results [QUERY_WHERE [QUERY_KEY ''name''] rhs ty] u))" for v u rhs ty
    using that by (cases u) (auto simp: no_results_def split: if_splits)
  from assms obtain ms w where "doc = JObj ms" "find_member ''codecs'' ms = Some w"
    by (cases doc) (auto simp: sharding_path_def no_results_def split: option.splits)
  with assms obtain us where "all_results (map (query_results [QUERY_WHERE [QUERY_KEY ''name''] ''sharding_indexed'' JSON_STRING]) us) = (sharding # vs, e)"
    by (cases w) (auto simp: sharding_path_def)
  from all_results_from [of "map (query_results [QUERY_WHERE [QUERY_KEY ''name''] ''sharding_indexed'' JSON_STRING]) us", unfolded this]
  obtain u where "sharding \<in> set (fst (query_results [QUERY_WHERE [QUERY_KEY ''name''] ''sharding_indexed'' JSON_STRING] u))" by (auto simp del: query_results.simps)
  then show ?thesis by (rule one)
qed

lemma keyed_sharding: "keyed sharding_path" "iters sharding_path \<le> JSON_ITER_MAX_FRAMES"
  by code_simp+

lemma parse_sharded_value:
  assumes "json_resolve src sharding_path = Inr node" and "denotes sharding node" and "jn_type node = JSON_OBJECT"
    and "query_results sharding_path doc = (sharding # vs, e)"
  shows "parse_codecs src shard = Some (described_codecs doc shard)"
proof -
  note conf = resolve_keys [OF assms(2,3), of "[''configuration'', k]" for k, simplified]
  have index: "(case resolved (jn_s node) [QUERY_KEY ''configuration'', QUERY_KEY ''index_location''] of None \<Rightarrow> False | Some n \<Rightarrow> json_str_eq n ''start'') \<longleftrightarrow>
      lookup_path [QUERY_KEY ''configuration'', QUERY_KEY ''index_location''] sharding = Some (JStr ''start'')"
    using conf [of "''index_location''"] by (cases rule: option.rel_cases) (auto simp: denotes_str_eq)
  let ?A = "do {
      n \<leftarrow> resolved (jn_s node) [QUERY_KEY ''configuration'', QUERY_KEY ''chunk_shape''];
      inner \<leftarrow> read_uint_array n DAMACY_MAX_RANK;
      check (length inner = length shard);
      n \<leftarrow> resolved (jn_s node) [QUERY_KEY ''configuration'', QUERY_KEY ''codecs''];
      Some (inner, n)
    }"
  let ?B = "do {
      v \<leftarrow> lookup_path [QUERY_KEY ''configuration'', QUERY_KEY ''chunk_shape''] sharding;
      inner \<leftarrow> numbers_of v;
      check (length inner = length shard);
      v \<leftarrow> lookup_path [QUERY_KEY ''configuration'', QUERY_KEY ''codecs''] sharding;
      Some (inner, v)
    }"
  have "rel_option (rel_prod (=) denotes) ?B ?A"
    using conf [of "''chunk_shape''"]
  proof (cases rule: option.rel_cases)
    case (Some v n)
    then show ?thesis using conf [of "''codecs''"] read_uint_array_values [OF Some(3)]
      by (cases "numbers_of v") (auto simp: check_def elim!: option.rel_cases)
  qed simp
  then show ?thesis
  proof (cases rule: option.rel_cases)
    case None
    have "described_codecs doc shard = ?B \<bind> (\<lambda>(inner, v). codec_of v \<bind> (\<lambda>codec. Some (True, inner, codec,
        lookup_path [QUERY_KEY ''configuration'', QUERY_KEY ''index_location''] sharding \<noteq> Some (JStr ''start''))))"
      by (simp add: described_codecs_def assms(4))
    then show ?thesis using None by (simp add: parse_codecs_def assms(1) Let_def)
  next
    case (Some x y)
    have "described_codecs doc shard = ?B \<bind> (\<lambda>(inner, v). codec_of v \<bind> (\<lambda>codec. Some (True, inner, codec,
        lookup_path [QUERY_KEY ''configuration'', QUERY_KEY ''index_location''] sharding \<noteq> Some (JStr ''start''))))"
      by (simp add: described_codecs_def assms(4))
    then show ?thesis using Some index parse_inner_codec_value [of "snd x" "snd y"]
      by (cases x; cases y; cases "codec_of (snd x)") (auto simp: parse_codecs_def assms(1) Let_def)
  qed
qed

lemma parse_codecs_value:
  assumes "jtext doc t" and "ws w1" and "num_end w2"
  shows "parse_codecs (w1 @ t @ w2) shard = Some (described_codecs doc shard)"
proof -
  obtain vs e where q: "query_results sharding_path doc = (vs, e)" by fastforce
  note ans = json_resolve_answers [OF keyed_sharding assms]
  show ?thesis
  proof (cases vs)
    case Nil
    then obtain k where r: "json_resolve (w1 @ t @ w2) sharding_path = Inl (e, k)"
      using ans q by (auto simp: answers_def split: sum.splits)
    from resolve_document [OF assms, of "[''codecs'']"] show ?thesis
    proof (cases rule: option.rel_cases)
      case (Some v n)
      then show ?thesis by (cases "codec_of v") (simp_all add: parse_codecs_def described_codecs_def q Nil r check_def parse_inner_codec_value)
    qed (simp add: parse_codecs_def described_codecs_def q Nil r check_def)
  next
    case (Cons sharding us)
    obtain node where r: "json_resolve (w1 @ t @ w2) sharding_path = Inr node" "denotes sharding node"
      using ans q Cons by (auto simp: answers_def split: sum.splits)
    have "jn_type node = JSON_OBJECT" using sharding_object q Cons denotes_type(2) [OF r(2)] by blast
    then show ?thesis using parse_sharded_value [OF r] q Cons by simp
  qed
qed

lemma zarr_metadata_parse_value:
  assumes "jtext doc t" and "ws w1" and "ws w2"
  shows "zarr_metadata_parse ue (w1 @ t @ w2) = Some (described ue doc)"
proof -
  have n: "num_end w2" using num_end_ws [OF assms(3), of "[]"] by simp
  note head = parse_head_value [OF assms(1,2) n] and codecs = parse_codecs_value [OF assms(1,2) n]
  have "(\<not> list_ex (\<lambda>(i, s). i = 0 \<or> s mod i \<noteq> 0) ps) \<longleftrightarrow> (\<forall>(i, s) \<in> set ps. 0 < i \<and> i dvd s)" for ps :: "(nat \<times> nat) list"
    by (auto simp: list_ex_iff mod_eq_0_iff_dvd)
  then have "check (\<forall>(i, s) \<in> set ps. 0 < i \<and> i dvd s) = (if list_ex (\<lambda>(i, s). i = 0 \<or> s mod i \<noteq> 0) ps then None else Some ())"
    for ps :: "(nat \<times> nat) list" unfolding check_def by (metis (no_types, lifting))
  then show ?thesis unfolding zarr_metadata_parse_def described_def head codecs
    by (auto split: option.splits prod.splits)
qed

section \<open>A document for every array\<close>

definition nums :: "nat list \<Rightarrow> json" where
  "nums xs = JArr (map (JNum \<circ> decimal) xs)"

definition data_type_name :: "dtype \<Rightarrow> string" where
  "data_type_name dt = fst (hd (filter (\<lambda>(name, t). t = dt) dtype_table))"

definition codec_json :: "string \<Rightarrow> (string \<times> json) list \<Rightarrow> json" where
  "codec_json name conf = JObj [(''name'', JStr name), (''configuration'', JObj conf)]"

definition chain_json :: "compression_codec \<Rightarrow> json" where
  "chain_json codec = JArr (codec_json ''bytes'' [(''endian'', JStr ''little'')] #
     (case codec of
        CODEC_ZSTD \<Rightarrow> [codec_json ''zstd'' [(''level'', JNum ''3'')]]
      | CODEC_BLOSC_LZ4 \<Rightarrow> [codec_json ''blosc'' [(''cname'', JStr ''lz4'')]]
      | CODEC_BLOSC_ZSTD \<Rightarrow> [codec_json ''blosc'' [(''cname'', JStr ''zstd'')]]
      | _ \<Rightarrow> []))"

definition codecs_json :: "zarr_metadata \<Rightarrow> json" where
  "codecs_json meta =
     (if zm_sharded meta
      then JArr [codec_json ''sharding_indexed''
        [(''chunk_shape'', nums (take (zm_rank meta) (zm_inner_chunk_shape meta))), (''codecs'', chain_json (zm_inner_codec meta)),
         (''index_location'', JStr (if zm_index_location_end meta then ''end'' else ''start''))]]
      else chain_json (zm_inner_codec meta))"

definition metadata_json :: "zarr_metadata \<Rightarrow> json" where
  "metadata_json meta = JObj
     [(''zarr_format'', JNum ''3''), (''node_type'', JStr ''array''),
      (''shape'', nums (take (zm_rank meta) (zm_shape meta))),
      (''data_type'', JStr (data_type_name (zm_dtype meta))),
      (''chunk_grid'', JObj [(''name'', JStr ''regular''),
        (''configuration'', JObj [(''chunk_shape'', nums (take (zm_rank meta) (zm_shard_shape meta)))])]),
      (''codecs'', codecs_json meta)]"

text \<open>Metadata with nothing but zeroes behind the rank and in the fill value, which the document leaves out.\<close>

definition canonical_metadata :: "zarr_metadata \<Rightarrow> bool" where
  "canonical_metadata meta \<longleftrightarrow> metadata_typed meta \<and>
     (\<forall>xs \<in> {zm_shape meta, zm_inner_chunk_shape meta, zm_shard_shape meta}. rank_array (take (zm_rank meta) xs) = xs) \<and>
     zm_fill_value meta = replicate DAMACY_MAX_DTYPE_BYTES 0"

lemma json_as_uint_decimal:
  assumes "x < 2 ^ 64"
  shows "json_as_uint (leaf (JNum (decimal x))) = Inr x"
proof -
  have d: "list_all is_digit (decimal x)" "decimal x \<noteq> []" "foldl (\<lambda>v c. v * 10 + (of_char c - 48)) 0 (decimal x) = x"
    using decimal_props [of x] by (simp_all add: decimal_value_def)
  then obtain c cs where c: "decimal x = c # cs" "is_digit c" by (cases "decimal x") auto
  have digit: "\<not> is_space ch" "ch \<noteq> CHR ''-''" "ch \<noteq> CHR ''+''" "ch \<notin> {CHR ''.'', CHR ''e'', CHR ''E''}" if "is_digit ch" for ch
    using that by (auto simp: is_digit_def is_space_def)
  have tw: "takeWhile is_digit (decimal x) = decimal x" "dropWhile is_digit (decimal x) = []"
    using d(1) by (simp_all add: takeWhile_eq_all_conv dropWhile_eq_Nil_conv list_all_iff)
  have "dropWhile is_space (decimal x) = decimal x" "hd (decimal x) \<noteq> CHR ''-''" "hd (decimal x) \<noteq> CHR ''+''" using c digit by simp_all
  then have "read_integer (decimal x) = (int x, [])" using d(2,3) by (simp add: read_integer_def Let_def tw)
  then have "strtoull (decimal x) = Some x" using assms by (simp add: strtoull_def)
  moreover have "num_flag (decimal x) = JSON_NODE_FLAG_NONE" using d(1) digit(4) by (auto simp: num_flag_def list_ex_iff list_all_iff)
  moreover have "length (decimal x) \<le> 20" using assms by (intro decimal_length) auto
  ultimately show ?thesis using c digit(2) [OF c(2)] by (simp add: json_as_uint_def leaf_def)
qed

lemma numbers_of_nums:
  assumes "xs \<noteq> []" and "length xs \<le> DAMACY_MAX_RANK" and "\<forall>x \<in> set xs. x < 2 ^ 64"
  shows "numbers_of (nums xs) = Some xs"
proof -
  have "those (map (\<lambda>x. right_value (json_as_uint (leaf (JNum (decimal x))))) ys) = Some ys" if "\<forall>x \<in> set ys. x < 2 ^ 64" for ys
    using that by (induction ys) (auto simp: json_as_uint_decimal right_value_def)
  then show ?thesis using assms by (simp add: numbers_of_def nums_def comp_def)
qed

lemma chain_codec_json: "codec \<noteq> CODEC_FILL \<Longrightarrow> codec_of (chain_json codec) = Some codec"
  by (cases codec; simp add: chain_json_def; code_simp)

lemma data_type_name_read: "parse_data_type (leaf (JStr (data_type_name dt))) = Some dt"
  by (cases dt; simp; code_simp)

lemma metadata_json_lookup:
  "lookup_path [QUERY_KEY ''node_type''] (metadata_json meta) = Some (JStr ''array'')"
  "lookup_path [QUERY_KEY ''zarr_format''] (metadata_json meta) = Some (JNum ''3'')"
  "lookup_path [QUERY_KEY ''shape''] (metadata_json meta) = Some (nums (take (zm_rank meta) (zm_shape meta)))"
  "lookup_path [QUERY_KEY ''data_type''] (metadata_json meta) = Some (JStr (data_type_name (zm_dtype meta)))"
  "lookup_path [QUERY_KEY ''fill_value''] (metadata_json meta) = None"
  "lookup_path [QUERY_KEY ''chunk_grid'', QUERY_KEY ''configuration'', QUERY_KEY ''chunk_shape''] (metadata_json meta) =
     Some (nums (take (zm_rank meta) (zm_shard_shape meta)))"
  "lookup_path [QUERY_KEY ''codecs''] (metadata_json meta) = Some (codecs_json meta)"
  by (simp_all add: lookup_path_def metadata_json_def find_member_def no_results_def)

lemma typed_numbers:
  assumes "metadata_typed meta"
  shows "numbers_of (nums (take (zm_rank meta) (zm_shape meta))) = Some (take (zm_rank meta) (zm_shape meta))"
    and "numbers_of (nums (take (zm_rank meta) (zm_shard_shape meta))) = Some (take (zm_rank meta) (zm_shard_shape meta))"
    and "numbers_of (nums (take (zm_rank meta) (zm_inner_chunk_shape meta))) = Some (take (zm_rank meta) (zm_inner_chunk_shape meta))"
  using assms by (auto intro!: numbers_of_nums simp: metadata_typed_def in_set_conv_nth)

lemma sharding_results:
  "query_results sharding_path (metadata_json meta) =
     (if zm_sharded meta then ([hd (case codecs_json meta of JArr cs \<Rightarrow> cs)], JSON_ERR_NOT_FOUND) else no_results)"
proof -
  have "query_results [QUERY_ITER, QUERY_WHERE [QUERY_KEY ''name''] ''sharding_indexed'' JSON_STRING] (codecs_json meta) =
      (if zm_sharded meta then ([hd (case codecs_json meta of JArr cs \<Rightarrow> cs)], JSON_ERR_NOT_FOUND) else no_results)"
    by (auto simp: codecs_json_def chain_json_def codec_json_def find_member_def no_results_def literal_eq_def then_results_def all_results_def
        split: compression_codec.splits)
  then show ?thesis by (simp add: sharding_path_def metadata_json_def find_member_def)
qed

lemma described_head_json:
  assumes "canonical_metadata meta"
  shows "described_head ue (metadata_json meta) =
    Some (take (zm_rank meta) (zm_shape meta), zm_dtype meta, zm_fill_value meta, take (zm_rank meta) (zm_shard_shape meta))"
proof -
  have t: "metadata_typed meta" and f: "zm_fill_value meta = replicate DAMACY_MAX_DTYPE_BYTES 0" using assms by (simp_all add: canonical_metadata_def)
  have three: "right_value (json_as_int (leaf (JNum ''3''))) = Some 3" by code_simp
  show ?thesis using t unfolding described_head_def metadata_json_lookup
    by (simp add: check_def three typed_numbers [OF t] data_type_name_read f) (simp add: metadata_typed_def)
qed

lemma described_codecs_json:
  assumes "metadata_typed meta"
  shows "described_codecs (metadata_json meta) (take (zm_rank meta) (zm_shard_shape meta)) =
    Some (zm_sharded meta, take (zm_rank meta) (zm_inner_chunk_shape meta), zm_inner_codec meta, zm_index_location_end meta)"
proof (cases "zm_sharded meta")
  case True
  have "lookup_path [QUERY_KEY ''configuration'', QUERY_KEY k] (codec_json n conf) =
      (case find_member k conf of None \<Rightarrow> None | Some v \<Rightarrow> Some v)" for n k conf
    by (simp add: lookup_path_def codec_json_def find_member_def no_results_def split: option.splits)
  then show ?thesis using True assms typed_numbers(3) [OF assms] chain_codec_json [of "zm_inner_codec meta"]
    by (simp add: described_codecs_def sharding_results codecs_json_def check_def find_member_def metadata_typed_def)
next
  case False
  then show ?thesis using assms chain_codec_json [of "zm_inner_codec meta"]
    by (simp add: described_codecs_def sharding_results no_results_def metadata_json_lookup codecs_json_def check_def metadata_typed_def)
qed

lemma described_json:
  assumes "canonical_metadata meta"
  shows "described ue (metadata_json meta) = Some meta"
proof -
  have t: "metadata_typed meta" using assms by (simp add: canonical_metadata_def)
  then have "\<forall>(i, s) \<in> set (zip (take (zm_rank meta) (zm_inner_chunk_shape meta)) (take (zm_rank meta) (zm_shard_shape meta))). 0 < i \<and> i dvd s"
    by (auto simp: metadata_typed_def set_zip)
  then show ?thesis using assms t unfolding described_def described_head_json [OF assms] Option.bind.bind_lunit prod.case described_codecs_json [OF t]
    by (auto simp: check_def canonical_metadata_def metadata_typed_def)
qed

section \<open>Properties\<close>

text \<open>C39. \<open>zarr_metadata_parse\<close> returns on every input: the loop over the codecs takes bytes from its array on every turn, so the
  fuel of the model is never used up.\<close>

theorem zarr_metadata_parse_returns: "zarr_metadata_parse ue src \<noteq> None"
  using parse_codecs_returns [of src] by (auto simp: zarr_metadata_parse_def split: option.splits simp del: not_None_eq)

text \<open>C23. Metadata that \<open>zarr_metadata_parse\<close> returns is well formed: the rank is between 1 and \<open>DAMACY_MAX_RANK\<close>, the arrays have
  their size in the struct, extents fit 64 bits, every inner chunk extent is positive and divides the extent of the shard, and
  an array that is not sharded has its chunks as shards. So the preconditions of the planner hold.\<close>

theorem zarr_metadata_parse_typed:
  assumes "zarr_metadata_parse ue src = Some (Some meta)"
  shows "metadata_typed meta \<and> meta_ok meta"
  using zarr_metadata_parse_result [OF assms] metadata_typed_ok by simp


text \<open>C28. Every array whose fill value is zero is read back from the document that describes it, whatever the white space in the
  text: shape, element type, codec, shards and the place of the index.\<close>

theorem zarr_metadata_roundtrip:
  assumes "canonical_metadata meta" and "jtext (metadata_json meta) t" and "ws w1" and "ws w2"
  shows "zarr_metadata_parse ue (w1 @ t @ w2) = Some (Some meta)"
  using zarr_metadata_parse_value [OF assms(2-4)] described_json [OF assms(1)] by simp

section \<open>An example\<close>

text \<open>A check that evaluates, for values whose strings have no escapes and whose numbers are not negative integers.\<close>

fun plain_json :: "json \<Rightarrow> bool" where
  "plain_json (JNum n) = (digits n \<and> (hd n \<noteq> CHR ''0'' \<or> n = ''0''))"
| "plain_json (JStr s) = plain_text s"
| "plain_json (JArr vs) = list_all plain_json vs"
| "plain_json (JObj ms) = list_all (\<lambda>(k, v). plain_text k \<and> plain_json v) ms"
| "plain_json _ = True"

lemma plain_json_wf: "plain_json v \<Longrightarrow> wf_json v"
  by (induction v rule: plain_json.induct) (auto simp: number_text_digits plain_string list_all_iff)

definition example_metadata :: zarr_metadata where
  "example_metadata = \<lparr>zm_dtype = dtype_u16, zm_rank = 2, zm_shape = rank_array [100, 60], zm_inner_chunk_shape = rank_array [5, 10],
     zm_shard_shape = rank_array [20, 30], zm_sharded = True, zm_inner_codec = CODEC_BLOSC_ZSTD, zm_index_location_end = False,
     zm_fill_value = replicate DAMACY_MAX_DTYPE_BYTES 0\<rparr>"

lemma example_metadata_canonical: "canonical_metadata example_metadata"
  by code_simp

lemma example_metadata_text: "jtext (metadata_json example_metadata) (render (metadata_json example_metadata))"
  by (intro render_text plain_json_wf) code_simp

text \<open>A document with a special fill value and a codec chain that is only \<open>bytes\<close>.\<close>

definition example_unsharded :: json where
  "example_unsharded = JObj
     [(''shape'', JArr [JNum ''7'']), (''fill_value'', JStr ''-Infinity''), (''data_type'', JStr ''float32''), (''zarr_format'', JNum ''3''),
      (''attributes'', JObj []), (''codecs'', JArr [JObj [(''name'', JStr ''bytes'')]]), (''node_type'', JStr ''array''),
      (''chunk_grid'', JObj [(''configuration'', JObj [(''chunk_shape'', JArr [JNum ''4''])])])]"

lemma example_unsharded_text: "jtext example_unsharded (render example_unsharded)"
  by (intro render_text plain_json_wf) code_simp

lemma example_unsharded_described:
  "described ue example_unsharded = Some \<lparr>zm_dtype = dtype_f32, zm_rank = 1, zm_shape = rank_array [7], zm_inner_chunk_shape = rank_array [4],
     zm_shard_shape = rank_array [4], zm_sharded = False, zm_inner_codec = CODEC_NONE, zm_index_location_end = True,
     zm_fill_value = [0, 0, 0x80, 0xFF, 0, 0, 0, 0]\<rparr>"
  by code_simp


theorem zarr_metadata_roundtrip_witness:
  "zarr_metadata_parse True (render (metadata_json example_metadata)) = Some (Some example_metadata)"
  using zarr_metadata_roundtrip [OF example_metadata_canonical example_metadata_text, of "[]" "[]" True] by simp

theorem zarr_metadata_parse_typed_witness: "metadata_typed example_metadata \<and> meta_ok example_metadata"
proof (rule zarr_metadata_parse_typed)
  show "zarr_metadata_parse True (render (metadata_json example_metadata)) = Some (Some example_metadata)"
    using zarr_metadata_parse_value [OF example_metadata_text, of "[]" "[]" True] described_json [OF example_metadata_canonical] by simp
qed

end
