(* ===== verification/Prefetch_Cache.thy ===== *)
theory Prefetch_Cache
  imports Lru_Api Damacy_Types
begin

text \<open>
  The metadata cache of src/src/prefetch/prefetch\_cache.c: values that are fetched in the background, found by key, kept while
  an owner at or after the watermark may need them, and announced to gates. A slot is its address and its record; the memory of
  slots and gates is part of the state. The critical sections of the lock are single steps. What \<open>malloc\<close>, \<open>realloc\<close>, \<open>key_clone\<close>
  and the launch of a fetch return are parameters, and so is the comparison of keys.
\<close>

section \<open>State\<close>

definition PREFETCH_HANDLE_NONE :: prefetch_handle where
  "PREFETCH_HANDLE_NONE = \<lparr>ph_slot = 0, ph_generation = 0\<rparr>"

definition ACTIVE_IDX_UNLINKED :: nat where "ACTIVE_IDX_UNLINKED = UINT32_MAX"
definition WAITERS_INLINE :: nat where "WAITERS_INLINE = 2"

text \<open>A gate is the address of its atomic word.\<close>

type_synonym gate = nat

record ('k, 'v) prefetch_slot =
  sl_key_hash :: nat
  sl_key :: 'k
  sl_value :: "'v option"
  sl_state :: prefetch_state
  sl_err :: damacy_status
  sl_min_owner_id :: nat
  sl_max_owner_id :: nat
  sl_generation :: nat
  sl_waiters_inline :: "gate list"
  sl_waiters_heap :: "gate list"
  sl_n_waiters :: nat
  sl_cap_heap :: nat
  sl_lru_ent :: "nat option"
  sl_active_idx :: nat

record ('k, 'v) prefetch_cache =
  pc_idx :: "nat lru"
  pc_watermark :: nat
  pc_generation_counter :: nat
  pc_active :: "nat option list"
  pc_free_list :: "nat list"
  pc_n_free :: nat
  pc_n_active :: nat
  pc_capacity :: nat
  pc_pending_count :: nat
  pc_errored_count :: nat
  pc_slots :: "nat \<Rightarrow> ('k, 'v) prefetch_slot option"
  pc_gates :: "gate \<Rightarrow> 64 word"
  pc_keys_destroyed :: "'k list"
  pc_values_destroyed :: "'v list"

abbreviation slot_at :: "('k, 'v) prefetch_cache \<Rightarrow> nat \<Rightarrow> ('k, 'v) prefetch_slot" where
  "slot_at c s \<equiv> the (pc_slots c s)"

definition put_slot :: "('k, 'v) prefetch_cache \<Rightarrow> nat \<Rightarrow> ('k, 'v) prefetch_slot \<Rightarrow> ('k, 'v) prefetch_cache" where
  "put_slot c s sl = c \<lparr>pc_slots := (pc_slots c)(s \<mapsto> sl)\<rparr>"

section \<open>Gates\<close>

definition GATE_ERROR_BIT :: "64 word" where "GATE_ERROR_BIT = push_bit 63 1"
definition GATE_PENDING_MASK :: "64 word" where "GATE_PENDING_MASK = NOT GATE_ERROR_BIT"

definition prefetch_gate_init :: "(gate \<Rightarrow> 64 word) \<Rightarrow> gate option \<Rightarrow> gate \<Rightarrow> 64 word" where
  "prefetch_gate_init gs g = (case g of None \<Rightarrow> gs | Some g \<Rightarrow> gs(g := 0))"

definition prefetch_gate_is_ready :: "(gate \<Rightarrow> 64 word) \<Rightarrow> gate option \<Rightarrow> bool" where
  "prefetch_gate_is_ready gs g = (case g of None \<Rightarrow> True | Some g \<Rightarrow> gs g AND GATE_PENDING_MASK = 0)"

definition prefetch_gate_has_error :: "(gate \<Rightarrow> 64 word) \<Rightarrow> gate option \<Rightarrow> bool" where
  "prefetch_gate_has_error gs g = (case g of None \<Rightarrow> False | Some g \<Rightarrow> gs g AND GATE_ERROR_BIT \<noteq> 0)"

definition prefetch_gate_pending :: "(gate \<Rightarrow> 64 word) \<Rightarrow> gate option \<Rightarrow> nat" where
  "prefetch_gate_pending gs g = (case g of None \<Rightarrow> 0 | Some g \<Rightarrow> unat (gs g AND GATE_PENDING_MASK))"

definition gate_inc_pending :: "(gate \<Rightarrow> 64 word) \<Rightarrow> gate option \<Rightarrow> gate \<Rightarrow> 64 word" where
  "gate_inc_pending gs g = (case g of None \<Rightarrow> gs | Some g \<Rightarrow> gs(g := gs g + 1))"

definition prefetch_gate_dec_pending :: "(gate \<Rightarrow> 64 word) \<Rightarrow> gate option \<Rightarrow> gate \<Rightarrow> 64 word" where
  "prefetch_gate_dec_pending gs g = (case g of None \<Rightarrow> gs | Some g \<Rightarrow> gs(g := gs g - 1))"

definition prefetch_gate_set_error :: "(gate \<Rightarrow> 64 word) \<Rightarrow> gate option \<Rightarrow> gate \<Rightarrow> 64 word" where
  "prefetch_gate_set_error gs g = (case g of None \<Rightarrow> gs | Some g \<Rightarrow> gs(g := gs g OR GATE_ERROR_BIT))"

section \<open>Slots\<close>

text \<open>\<open>None\<close> is the result 1. The part of the array that \<open>realloc\<close> adds has no defined contents.\<close>

definition slot_register_waiter :: "bool \<Rightarrow> ('k, 'v) prefetch_slot \<Rightarrow> gate option \<Rightarrow> ('k, 'v) prefetch_slot option" where
  "slot_register_waiter realloc_ok s gate =
     (case gate of
        None \<Rightarrow> Some s
      | Some g \<Rightarrow>
          if sl_n_waiters s < WAITERS_INLINE
          then Some (s \<lparr>sl_waiters_inline := (sl_waiters_inline s)[sl_n_waiters s := g], sl_n_waiters := sl_n_waiters s + 1\<rparr>)
          else
            let heap_used = sl_n_waiters s - WAITERS_INLINE;
                store = (\<lambda>s. s \<lparr>sl_waiters_heap := (sl_waiters_heap s)[heap_used := g], sl_n_waiters := u32_add (sl_n_waiters s) 1\<rparr>)
            in if heap_used = sl_cap_heap s
               then
                 let new_cap = (if sl_cap_heap s \<noteq> 0 then u32_mul (sl_cap_heap s) 2 else 4)
                 in if \<not> realloc_ok then None
                    else Some (store (s \<lparr>sl_waiters_heap := take new_cap (sl_waiters_heap s @ replicate new_cap 0), sl_cap_heap := new_cap\<rparr>))
               else Some (store s))"

definition slot_waiter :: "('k, 'v) prefetch_slot \<Rightarrow> nat \<Rightarrow> gate" where
  "slot_waiter s i = (if i < WAITERS_INLINE then sl_waiters_inline s ! i else sl_waiters_heap s ! (i - WAITERS_INLINE))"

definition release_waiter :: "bool \<Rightarrow> gate \<Rightarrow> (gate \<Rightarrow> 64 word) \<Rightarrow> gate \<Rightarrow> 64 word" where
  "release_waiter errored g gs = prefetch_gate_dec_pending (if errored then prefetch_gate_set_error gs (Some g) else gs) (Some g)"

definition slot_release_waiters :: "('k, 'v) prefetch_cache \<Rightarrow> nat \<Rightarrow> bool \<Rightarrow> ('k, 'v) prefetch_cache" where
  "slot_release_waiters c s errored =
     put_slot
       (c \<lparr>pc_gates := fold (\<lambda>i. release_waiter errored (slot_waiter (slot_at c s) i)) [0 ..< sl_n_waiters (slot_at c s)] (pc_gates c)\<rparr>)
       s ((slot_at c s) \<lparr>sl_n_waiters := 0\<rparr>)"

section \<open>Callbacks of the index\<close>

definition lru_slot_eq :: "('k \<Rightarrow> 'k \<Rightarrow> bool) \<Rightarrow> ('k, 'v) prefetch_cache \<Rightarrow> nat \<Rightarrow> 'k \<Rightarrow> bool" where
  "lru_slot_eq key_eq c s probe_key = key_eq (sl_key (slot_at c s)) probe_key"

definition active_remove :: "('k, 'v) prefetch_cache \<Rightarrow> nat \<Rightarrow> ('k, 'v) prefetch_cache" where
  "active_remove c s =
     (let i = sl_active_idx (slot_at c s)
      in put_slot
           (c \<lparr>pc_active := (pc_active c)[i := None], pc_free_list := (pc_free_list c)[pc_n_free c := i], pc_n_free := u32_add (pc_n_free c) 1,
               pc_n_active := u32_sub (pc_n_active c) 1\<rparr>)
           s ((slot_at c s) \<lparr>sl_active_idx := ACTIVE_IDX_UNLINKED\<rparr>))"

definition lru_slot_destroy :: "nat \<Rightarrow> ('k, 'v) prefetch_cache \<Rightarrow> ('k, 'v) prefetch_cache" where
  "lru_slot_destroy s c =
     (let c = (if sl_active_idx (slot_at c s) \<noteq> ACTIVE_IDX_UNLINKED
               then
                 let c = active_remove c s
                 in (case sl_state (slot_at c s) of
                       PREFETCH_STATE_PENDING \<Rightarrow> c \<lparr>pc_pending_count := u64_sub (pc_pending_count c) 1\<rparr>
                     | PREFETCH_STATE_ERROR \<Rightarrow> c \<lparr>pc_errored_count := u64_sub (pc_errored_count c) 1\<rparr>
                     | PREFETCH_STATE_READY \<Rightarrow> c)
               else c);
          c = (if sl_n_waiters (slot_at c s) \<noteq> 0 then slot_release_waiters c s True else c);
          c = c \<lparr>pc_keys_destroyed := pc_keys_destroyed c @ [sl_key (slot_at c s)]\<rparr>;
          c = (case sl_value (slot_at c s) of None \<Rightarrow> c | Some v \<Rightarrow> c \<lparr>pc_values_destroyed := pc_values_destroyed c @ [v]\<rparr>)
      in c \<lparr>pc_slots := (pc_slots c)(s := None)\<rparr>)"

text \<open>The index calls the destroy callback after its own changes; the callback does not touch the index.\<close>

definition run_destroys :: "nat lru \<Rightarrow> ('k, 'v) prefetch_cache \<Rightarrow> ('k, 'v) prefetch_cache" where
  "run_destroys idx' c = fold lru_slot_destroy (drop (length (lru_destroyed (pc_idx c))) (lru_destroyed idx')) (c \<lparr>pc_idx := idx'\<rparr>)"

section \<open>Completion\<close>

definition resolve_handle :: "('k, 'v) prefetch_cache \<Rightarrow> prefetch_handle \<Rightarrow> nat option" where
  "resolve_handle c h =
     (if ph_slot h = 0 then None
      else let idx = ph_slot h - 1
           in if idx \<ge> pc_capacity c then None
              else (case pc_active c ! idx of
                      None \<Rightarrow> None
                    | Some s \<Rightarrow> if sl_generation (slot_at c s) \<noteq> ph_generation h then None else Some s))"

definition destroy_value :: "('k, 'v) prefetch_cache \<Rightarrow> 'v option \<Rightarrow> ('k, 'v) prefetch_cache" where
  "destroy_value c v = (case v of None \<Rightarrow> c | Some v \<Rightarrow> c \<lparr>pc_values_destroyed := pc_values_destroyed c @ [v]\<rparr>)"

definition slot_complete_locked :: "('k, 'v) prefetch_cache \<Rightarrow> nat \<Rightarrow> 'v option \<Rightarrow> damacy_status \<Rightarrow> ('k, 'v) prefetch_cache" where
  "slot_complete_locked c s v err_code =
     (if err_code = DAMACY_OK
      then slot_release_waiters
             (put_slot (c \<lparr>pc_pending_count := u64_sub (pc_pending_count c) 1\<rparr>) s
                ((slot_at c s) \<lparr>sl_state := PREFETCH_STATE_READY, sl_value := v\<rparr>)) s False
      else slot_release_waiters
             (put_slot ((destroy_value c v) \<lparr>pc_pending_count := u64_sub (pc_pending_count c) 1, pc_errored_count := u64_add (pc_errored_count c) 1\<rparr>) s
                ((slot_at c s) \<lparr>sl_state := PREFETCH_STATE_ERROR, sl_err := err_code\<rparr>)) s True)"

text \<open>A completion token is a handle of its cache.\<close>

definition prefetch_cache_complete ::
    "('k, 'v) prefetch_cache \<Rightarrow> prefetch_handle \<Rightarrow> 'v option \<Rightarrow> damacy_status \<Rightarrow> ('k, 'v) prefetch_cache" where
  "prefetch_cache_complete c completion v err_code =
     (case resolve_handle c completion of
        None \<Rightarrow> destroy_value c v
      | Some s \<Rightarrow>
          if sl_state (slot_at c s) \<noteq> PREFETCH_STATE_PENDING then destroy_value c v else slot_complete_locked c s v err_code)"

section \<open>Requests\<close>

definition make_handle :: "nat \<Rightarrow> nat \<Rightarrow> prefetch_handle" where
  "make_handle active_idx generation = \<lparr>ph_slot = u32_add active_idx 1, ph_generation = generation\<rparr>"

text \<open>What the environment decides about a request: whether \<open>key_clone\<close> succeeds, the slot that \<open>malloc\<close> returns, and whether
  \<open>realloc\<close> succeeds.\<close>

record request_env =
  re_clone_ok :: bool
  re_slot :: "nat option"
  re_realloc_ok :: bool

record prefetch_request_result =
  rr_handle :: prefetch_handle
  rr_status :: damacy_status

definition request_failed :: "damacy_status \<Rightarrow> prefetch_request_result" where
  "request_failed st = \<lparr>rr_handle = PREFETCH_HANDLE_NONE, rr_status = st\<rparr>"

definition handle_result :: "('k, 'v) prefetch_slot \<Rightarrow> prefetch_request_result" where
  "handle_result s = \<lparr>rr_handle = make_handle (sl_active_idx s) (sl_generation s), rr_status = DAMACY_OK\<rparr>"

definition widen_range :: "nat \<Rightarrow> ('k, 'v) prefetch_slot \<Rightarrow> ('k, 'v) prefetch_slot" where
  "widen_range owner_id s =
     s \<lparr>sl_max_owner_id := (if owner_id > sl_max_owner_id s then owner_id else sl_max_owner_id s),
        sl_min_owner_id := (if owner_id < sl_min_owner_id s then owner_id else sl_min_owner_id s)\<rparr>"

definition request_hit ::
    "bool \<Rightarrow> ('k, 'v) prefetch_cache \<Rightarrow> nat \<Rightarrow> nat \<Rightarrow> gate option \<Rightarrow> ('k, 'v) prefetch_cache \<times> prefetch_request_result" where
  "request_hit realloc_ok c hit owner_id gate =
     (let s = the (lru_entry_value (pc_idx c) (Some hit));
          needs_pin = (sl_lru_ent (slot_at c s) = None \<and> owner_id \<ge> pc_watermark c);
          sl = widen_range owner_id (slot_at c s);
          c = (if needs_pin then c \<lparr>pc_idx := lru_entry_acquire_locked (pc_idx c) (Some hit)\<rparr> else c);
          sl = (if needs_pin then sl \<lparr>sl_lru_ent := Some hit\<rparr> else sl);
          c = put_slot c s sl
      in case sl_state sl of
           PREFETCH_STATE_PENDING \<Rightarrow>
             let c = c \<lparr>pc_gates := gate_inc_pending (pc_gates c) gate\<rparr>
             in (case slot_register_waiter realloc_ok sl gate of
                   None \<Rightarrow> (c \<lparr>pc_gates := prefetch_gate_dec_pending (pc_gates c) gate\<rparr>, request_failed DAMACY_OOM)
                 | Some sl \<Rightarrow> (put_slot c s sl, handle_result sl))
         | PREFETCH_STATE_ERROR \<Rightarrow> (c \<lparr>pc_gates := prefetch_gate_set_error (pc_gates c) gate\<rparr>, handle_result sl)
         | PREFETCH_STATE_READY \<Rightarrow> (c, handle_result sl))"

definition new_slot :: "('k, 'v) prefetch_cache \<Rightarrow> nat \<Rightarrow> 'k \<Rightarrow> nat \<Rightarrow> ('k, 'v) prefetch_slot" where
  "new_slot c key_hash key owner_id =
     \<lparr>sl_key_hash = key_hash, sl_key = key, sl_value = None, sl_state = PREFETCH_STATE_PENDING, sl_err = DAMACY_OK,
      sl_min_owner_id = owner_id, sl_max_owner_id = owner_id, sl_generation = u32_add (pc_generation_counter c) 1,
      sl_waiters_inline = replicate WAITERS_INLINE 0, sl_waiters_heap = [], sl_n_waiters = 0, sl_cap_heap = 0, sl_lru_ent = None,
      sl_active_idx = ACTIVE_IDX_UNLINKED\<rparr>"

text \<open>The rest of the critical section once the index has an entry for the new slot.\<close>

definition activate_slot :: "('k, 'v) prefetch_cache \<Rightarrow> nat \<Rightarrow> nat \<Rightarrow> gate option \<Rightarrow> ('k, 'v) prefetch_cache \<times> prefetch_request_result" where
  "activate_slot c s ent gate =
     (let n_free = pc_n_free c - 1;
          i = pc_free_list c ! n_free;
          sl = (slot_at c s) \<lparr>sl_lru_ent := Some ent, sl_active_idx := i\<rparr>;
          sl = (case slot_register_waiter False sl gate of None \<Rightarrow> sl | Some sl \<Rightarrow> sl);
          c = c \<lparr>pc_idx := lru_entry_acquire_locked (pc_idx c) (Some ent), pc_n_free := n_free, pc_active := (pc_active c)[i := Some s],
                 pc_n_active := u32_add (pc_n_active c) 1, pc_pending_count := u64_add (pc_pending_count c) 1,
                 pc_gates := gate_inc_pending (pc_gates c) gate\<rparr>
      in (put_slot c s sl, handle_result sl))"

text \<open>The critical section of a request. The second result is the slot whose fetch is to be launched. The outer option is an
  \<open>lru_put\<close> that does not return.\<close>

definition request_locked ::
    "('k \<Rightarrow> 'k \<Rightarrow> bool) \<Rightarrow> request_env \<Rightarrow> ('k, 'v) prefetch_cache \<Rightarrow> nat \<Rightarrow> 'k \<Rightarrow> nat \<Rightarrow> gate option \<Rightarrow>
     (('k, 'v) prefetch_cache \<times> prefetch_request_result \<times> nat option) option" where
  "request_locked key_eq env c key_hash key owner_id gate =
     (case lru_get (lru_slot_eq key_eq c) (pc_idx c) key_hash key of
        (idx, Some hit) \<Rightarrow>
          (case request_hit (re_realloc_ok env) (c \<lparr>pc_idx := idx\<rparr>) hit owner_id gate of (c, r) \<Rightarrow> Some (c, r, None))
      | (idx, None) \<Rightarrow>
          (let c = c \<lparr>pc_idx := idx\<rparr>
           in if \<not> re_clone_ok env then Some (c, request_failed DAMACY_OOM, None)
              else (case re_slot env of
                      None \<Rightarrow> Some (c \<lparr>pc_keys_destroyed := pc_keys_destroyed c @ [key]\<rparr>, request_failed DAMACY_OOM, None)
                    | Some s \<Rightarrow>
                        let sl = new_slot c key_hash key owner_id;
                            c = put_slot (c \<lparr>pc_generation_counter := u32_add (pc_generation_counter c) 1\<rparr>) s sl
                        in (case lru_put (lru_slot_eq key_eq c) (pc_idx c) key_hash key (Some s) of
                              None \<Rightarrow> None
                            | Some (idx, None) \<Rightarrow> Some (run_destroys idx c, request_failed DAMACY_AGAIN, None)
                            | Some (idx, Some ent) \<Rightarrow>
                                (case activate_slot (run_destroys idx c) s ent gate of (c, r) \<Rightarrow> Some (c, r, Some s))))))"

text \<open>After the lock is released the fetch is launched: \<open>launch_err\<close> is the status of a launch that failed, because the
  asynchronous fetcher or the executor refused or the context could not be allocated.\<close>

definition prefetch_cache_request_result ::
    "('k \<Rightarrow> 'k \<Rightarrow> bool) \<Rightarrow> request_env \<Rightarrow> damacy_status option \<Rightarrow> ('k, 'v) prefetch_cache \<Rightarrow> nat \<Rightarrow> 'k option \<Rightarrow> nat \<Rightarrow> gate option \<Rightarrow>
     (('k, 'v) prefetch_cache \<times> prefetch_request_result) option" where
  "prefetch_cache_request_result key_eq env launch_err c key_hash key owner_id gate =
     (case key of
        None \<Rightarrow> Some (c, request_failed DAMACY_INVAL)
      | Some key \<Rightarrow>
          (case request_locked key_eq env c key_hash key owner_id gate of
             None \<Rightarrow> None
           | Some (c, r, None) \<Rightarrow> Some (c, r)
           | Some (c, r, Some s) \<Rightarrow>
               (case launch_err of
                  None \<Rightarrow> Some (c, r)
                | Some err \<Rightarrow> Some (prefetch_cache_complete c (rr_handle r) None err, r))))"

definition prefetch_cache_request ::
    "('k \<Rightarrow> 'k \<Rightarrow> bool) \<Rightarrow> request_env \<Rightarrow> damacy_status option \<Rightarrow> ('k, 'v) prefetch_cache \<Rightarrow> nat \<Rightarrow> 'k option \<Rightarrow> nat \<Rightarrow> gate option \<Rightarrow>
     (('k, 'v) prefetch_cache \<times> prefetch_handle) option" where
  "prefetch_cache_request key_eq env launch_err c key_hash key owner_id gate =
     map_option (\<lambda>(c, r). (c, if rr_status r = DAMACY_OK then rr_handle r else PREFETCH_HANDLE_NONE))
       (prefetch_cache_request_result key_eq env launch_err c key_hash key owner_id gate)"

text \<open>The worker that the executor runs; \<open>fetched\<close> is what the fetcher returned for the key of the slot.\<close>

definition prefetch_fetch_worker :: "('k \<Rightarrow> bool \<times> 'v option \<times> damacy_status) \<Rightarrow> ('k, 'v) prefetch_cache \<Rightarrow> nat \<Rightarrow> nat \<Rightarrow> ('k, 'v) prefetch_cache" where
  "prefetch_fetch_worker fetch c s generation =
     (case fetch (sl_key (slot_at c s)) of
        (ok, v, err) \<Rightarrow>
          prefetch_cache_complete c \<lparr>ph_slot = u32_add (sl_active_idx (slot_at c s)) 1, ph_generation = generation\<rparr> v (if ok then DAMACY_OK else err))"

section \<open>Reading\<close>

definition prefetch_handle_valid :: "prefetch_handle \<Rightarrow> bool" where
  "prefetch_handle_valid h \<longleftrightarrow> ph_slot h \<noteq> 0 \<or> ph_generation h \<noteq> 0"

definition prefetch_cache_try_get :: "('k, 'v) prefetch_cache \<Rightarrow> prefetch_handle \<Rightarrow> 'v option" where
  "prefetch_cache_try_get c h =
     (case resolve_handle c h of
        None \<Rightarrow> None
      | Some s \<Rightarrow> if sl_state (slot_at c s) = PREFETCH_STATE_READY then sl_value (slot_at c s) else None)"

definition prefetch_cache_peek :: "('k \<Rightarrow> 'k \<Rightarrow> bool) \<Rightarrow> ('k, 'v) prefetch_cache \<Rightarrow> nat \<Rightarrow> 'k option \<Rightarrow> 'v option" where
  "prefetch_cache_peek key_eq c key_hash key =
     (case key of
        None \<Rightarrow> None
      | Some key \<Rightarrow>
          (case lru_peek (lru_slot_eq key_eq c) (pc_idx c) key_hash key of
             None \<Rightarrow> None
           | Some hit \<Rightarrow>
               let s = the (lru_entry_value (pc_idx c) (Some hit))
               in if sl_state (slot_at c s) = PREFETCH_STATE_READY then sl_value (slot_at c s) else None))"

definition prefetch_cache_query :: "('k, 'v) prefetch_cache \<Rightarrow> prefetch_handle \<Rightarrow> prefetch_state \<times> 'v option \<times> damacy_status" where
  "prefetch_cache_query c h =
     (case resolve_handle c h of
        None \<Rightarrow> (PREFETCH_STATE_PENDING, None, DAMACY_OK)
      | Some s \<Rightarrow>
          let st = sl_state (slot_at c s)
          in (st, if st = PREFETCH_STATE_READY then sl_value (slot_at c s) else None, if st = PREFETCH_STATE_ERROR then sl_err (slot_at c s) else DAMACY_OK))"

section \<open>The watermark\<close>

definition unpin_slot :: "nat \<Rightarrow> ('k, 'v) prefetch_cache \<Rightarrow> ('k, 'v) prefetch_cache" where
  "unpin_slot s c =
     put_slot (c \<lparr>pc_idx := lru_entry_release (pc_idx c) (sl_lru_ent (slot_at c s))\<rparr>) s ((slot_at c s) \<lparr>sl_lru_ent := None\<rparr>)"

definition prefetch_cache_advance_watermark :: "('k, 'v) prefetch_cache \<Rightarrow> nat \<Rightarrow> ('k, 'v) prefetch_cache" where
  "prefetch_cache_advance_watermark c new_watermark =
     (if new_watermark \<le> pc_watermark c then c
      else
        fold (\<lambda>i c.
            case pc_active c ! i of
              None \<Rightarrow> c
            | Some s \<Rightarrow>
                if sl_state (slot_at c s) \<noteq> PREFETCH_STATE_PENDING \<and> sl_max_owner_id (slot_at c s) < new_watermark \<and> sl_lru_ent (slot_at c s) \<noteq> None
                then unpin_slot s c else c)
          [0 ..< pc_capacity c] (c \<lparr>pc_watermark := new_watermark\<rparr>))"

section \<open>Creation and destruction\<close>

text \<open>The pointers of the configuration that have to be set: the operations, the two fetchers and the executor.\<close>

record prefetch_cache_config =
  pcc_capacity :: nat
  pcc_max_probe :: nat
  pcc_ops :: bool
  pcc_fetcher :: "bool option"
  pcc_executor :: "bool option"
  pcc_async_fetcher :: "bool option"

text \<open>\<open>alloc_ok\<close> are the outcomes of the allocations of the cache, its lock, its two arrays and its index.\<close>

definition prefetch_cache_create ::
    "bool \<times> bool \<times> bool \<times> bool \<times> bool \<Rightarrow> (gate \<Rightarrow> 64 word) \<Rightarrow> prefetch_cache_config option \<Rightarrow> ('k, 'v) prefetch_cache option" where
  "prefetch_cache_create alloc_ok gates cfg =
     (case (cfg, alloc_ok) of
        (None, _) \<Rightarrow> None
      | (Some cfg, self_ok, lock_ok, active_ok, free_ok, lru_ok) \<Rightarrow>
          if pcc_capacity cfg > 0 \<and> pcc_ops cfg \<and> (pcc_fetcher cfg \<noteq> None \<or> pcc_async_fetcher cfg \<noteq> None) \<and>
             (pcc_fetcher cfg \<noteq> None \<longrightarrow> pcc_fetcher cfg = Some True \<and> pcc_executor cfg = Some True) \<and>
             (pcc_async_fetcher cfg \<noteq> None \<longrightarrow> pcc_async_fetcher cfg = Some True) \<and> self_ok \<and> lock_ok \<and> active_ok \<and> free_ok
          then
            (case lru_create lru_ok (pcc_capacity cfg) (pcc_max_probe cfg) of
               None \<Rightarrow> None
             | Some idx \<Rightarrow>
                 Some \<lparr>pc_idx = idx, pc_watermark = 0, pc_generation_counter = 0, pc_active = replicate (pcc_capacity cfg) None,
                       pc_free_list = map (\<lambda>i. pcc_capacity cfg - 1 - i) [0 ..< pcc_capacity cfg], pc_n_free = pcc_capacity cfg, pc_n_active = 0,
                       pc_capacity = pcc_capacity cfg, pc_pending_count = 0, pc_errored_count = 0, pc_slots = (\<lambda>s. None), pc_gates = gates,
                       pc_keys_destroyed = [], pc_values_destroyed = []\<rparr>)
          else None)"

text \<open>The state after the pins were released and the index was destroyed, whose entries get the destroy callback; the flag tells
  that nothing was leaked.\<close>

definition prefetch_cache_destroy :: "('k, 'v) prefetch_cache \<Rightarrow> (bool \<times> ('k, 'v) prefetch_cache) option" where
  "prefetch_cache_destroy c =
     (let c = fold (\<lambda>i c.
            case pc_active c ! i of
              None \<Rightarrow> c
            | Some s \<Rightarrow> if sl_lru_ent (slot_at c s) \<noteq> None then unpin_slot s c else c)
          [0 ..< pc_capacity c] c
      in case lru_destroy (pc_idx c) of
           None \<Rightarrow> None
         | Some (Inl _) \<Rightarrow> Some (False, c)
         | Some (Inr ds) \<Rightarrow> Some (True, fold lru_slot_destroy (drop (length (lru_destroyed (pc_idx c))) ds) c))"

record prefetch_cache_stats =
  pst_counters :: lru_counters
  pst_size :: nat
  pst_capacity :: nat
  pst_watermark :: nat
  pst_pending :: nat
  pst_errored :: nat

definition prefetch_cache_stats_get :: "('k, 'v) prefetch_cache \<Rightarrow> prefetch_cache_stats option" where
  "prefetch_cache_stats_get c =
     map_option (\<lambda>st. \<lparr>pst_counters = st_counters st, pst_size = st_size st, pst_capacity = pc_capacity c, pst_watermark = pc_watermark c,
                       pst_pending = pc_pending_count c, pst_errored = pc_errored_count c\<rparr>)
       (lru_stats_get (pc_idx c))"

end
