(* ===== verification/Prefetch_Cache_Inv.thy ===== *)
theory Prefetch_Cache_Inv
  imports Prefetch_Cache
begin

text \<open>
  The invariant of the metadata cache of Prefetch\_Cache: the table of handles, the counters, the pins and the index against the
  slots, and how destroying slots and changing one slot keep it.
\<close>

section \<open>Gates\<close>

text \<open>The word of a gate with \<open>p\<close> pending fetches and an error or not.\<close>

definition gate_word :: "nat \<Rightarrow> bool \<Rightarrow> 64 word" where
  "gate_word p e = word_of_nat p OR (if e then GATE_ERROR_BIT else 0)"

lemma bit_GATE_ERROR_BIT: "bit GATE_ERROR_BIT n \<longleftrightarrow> n = 63"
  unfolding GATE_ERROR_BIT_def bit_push_bit_iff by (auto simp: bit_1_iff)

lemma bit_pending:
  assumes "p < 2 ^ 63"
  shows "\<not> bit (p :: nat) 63"
  using assms by (simp add: bit_nat_def)

lemma bit_pending_word: "p < 2 ^ 63 \<Longrightarrow> \<not> bit (word_of_nat p :: 64 word) 63"
  by (simp add: bit_simps bit_pending)

lemma gate_word_add: "p < 2 ^ 63 \<Longrightarrow> gate_word p e = word_of_nat p + (if e then GATE_ERROR_BIT else 0)"
  by (auto simp: gate_word_def bit_GATE_ERROR_BIT bit_pending_word intro!: disjunctive_add [symmetric])

lemma gate_word_inc: "p + 1 < 2 ^ 63 \<Longrightarrow> gate_word p e + 1 = gate_word (p + 1) e"
  by (simp add: gate_word_add)

lemma gate_word_dec: "p + 1 < 2 ^ 63 \<Longrightarrow> gate_word (p + 1) e - 1 = gate_word p e"
  by (simp add: gate_word_add)

lemma gate_word_error: "gate_word p e OR GATE_ERROR_BIT = gate_word p True"
  by (simp add: gate_word_def or.assoc)

lemma gate_word_pending: "p < 2 ^ 63 \<Longrightarrow> gate_word p e AND GATE_PENDING_MASK = word_of_nat p"
  by (rule bit_eqI) (auto simp: gate_word_def GATE_PENDING_MASK_def bit_simps bit_GATE_ERROR_BIT bit_pending)

lemma gate_word_has_error: "p < 2 ^ 63 \<Longrightarrow> gate_word p e AND GATE_ERROR_BIT = (if e then GATE_ERROR_BIT else 0)"
  by (rule bit_eqI) (auto simp: gate_word_def bit_simps bit_GATE_ERROR_BIT bit_pending)

section \<open>Waiters\<close>

definition slot_waiters :: "('k, 'v) prefetch_slot \<Rightarrow> gate list" where
  "slot_waiters s = map (slot_waiter s) [0 ..< sl_n_waiters s]"

definition slot_wf :: "('k, 'v) prefetch_slot \<Rightarrow> bool" where
  "slot_wf s \<longleftrightarrow> length (sl_waiters_inline s) = WAITERS_INLINE \<and> length (sl_waiters_heap s) = sl_cap_heap s \<and>
     sl_n_waiters s \<le> WAITERS_INLINE + sl_cap_heap s"

text \<open>Everything of a slot but its waiters.\<close>

definition same_slot :: "('k, 'v) prefetch_slot \<Rightarrow> ('k, 'v) prefetch_slot \<Rightarrow> bool" where
  "same_slot s t \<longleftrightarrow> sl_key_hash t = sl_key_hash s \<and> sl_key t = sl_key s \<and> sl_value t = sl_value s \<and> sl_state t = sl_state s \<and>
     sl_err t = sl_err s \<and> sl_min_owner_id t = sl_min_owner_id s \<and> sl_max_owner_id t = sl_max_owner_id s \<and>
     sl_generation t = sl_generation s \<and> sl_lru_ent t = sl_lru_ent s \<and> sl_active_idx t = sl_active_idx s"

lemma register_inline:
  assumes "slot_wf s" and "sl_n_waiters s < WAITERS_INLINE"
  shows "\<exists>t. slot_register_waiter ok s (Some g) = Some t \<and> slot_wf t \<and> same_slot s t \<and> slot_waiters t = slot_waiters s @ [g]"
  using assms
  by (auto simp: slot_register_waiter_def slot_wf_def same_slot_def slot_waiters_def slot_waiter_def nth_list_update)

lemma register_heap:
  assumes "slot_wf s" and "WAITERS_INLINE \<le> sl_n_waiters s" and "sl_n_waiters s < 2 ^ 31" and "slot_register_waiter ok s (Some g) = Some t"
  shows "slot_wf t \<and> same_slot s t \<and> slot_waiters t = slot_waiters s @ [g]"
proof -
  let ?u = "sl_n_waiters s - WAITERS_INLINE"
  let ?grow = "?u = sl_cap_heap s" and ?cap = "if sl_cap_heap s \<noteq> 0 then u32_mul (sl_cap_heap s) 2 else 4"
  define heap where "heap = (if ?grow then take ?cap (sl_waiters_heap s @ replicate ?cap 0) else sl_waiters_heap s)"
  define cap where "cap = (if ?grow then ?cap else sl_cap_heap s)"
  have "?grow \<Longrightarrow> u32_mul (sl_cap_heap s) 2 = sl_cap_heap s * 2" using assms(2,3) by (intro u32_mul_exact) (simp add: WAITERS_INLINE_def)
  then have cap: "length heap = cap" "?u < cap" "\<forall>i < ?u. heap ! i = sl_waiters_heap s ! i"
    using assms(1,2) by (auto simp: heap_def cap_def slot_wf_def nth_append)
  have t: "t = s \<lparr>sl_waiters_heap := heap[?u := g], sl_n_waiters := sl_n_waiters s + 1, sl_cap_heap := cap\<rparr>"
    using assms(2-4) by (auto simp: slot_register_waiter_def heap_def cap_def Let_def u32_add_def split: if_splits)
  have "slot_waiters t = slot_waiters s @ [g]"
    using cap assms(2) by (auto simp: t slot_waiters_def slot_waiter_def nth_list_update)
  then show ?thesis using cap assms(1,2) by (auto simp: t slot_wf_def same_slot_def)
qed

lemma register_waiter:
  assumes "slot_wf s" and "sl_n_waiters s < 2 ^ 31" and "slot_register_waiter ok s gate = Some t"
  shows "slot_wf t \<and> same_slot s t \<and> slot_waiters t = slot_waiters s @ (case gate of None \<Rightarrow> [] | Some g \<Rightarrow> [g])"
proof (cases gate)
  case None
  then show ?thesis using assms
    by (auto simp: slot_register_waiter_def same_slot_def)
next
  case (Some g)
  then show ?thesis using register_inline [OF assms(1), of ok g] register_heap [OF assms(1) _ assms(2), of ok g t] assms(3)
    by (cases "sl_n_waiters s < WAITERS_INLINE") auto
qed

section \<open>The invariant\<close>

text \<open>A slot by itself: only a pending one has waiters, and only a ready one a value.\<close>

definition slot_ok :: "nat \<Rightarrow> ('k, 'v) prefetch_slot \<Rightarrow> bool" where
  "slot_ok generations s \<longleftrightarrow> slot_wf s \<and> (sl_n_waiters s \<noteq> 0 \<longrightarrow> sl_state s = PREFETCH_STATE_PENDING) \<and>
     (sl_state s \<noteq> PREFETCH_STATE_READY \<longrightarrow> sl_value s = None) \<and> 0 < sl_generation s \<and> sl_generation s \<le> generations"

text \<open>The slots of \<open>X\<close> are not in the table of handles: they are under construction.\<close>

definition table_ok :: "nat set \<Rightarrow> ('k, 'v) prefetch_cache \<Rightarrow> bool" where
  "table_ok X c \<longleftrightarrow>
     length (pc_active c) = pc_capacity c \<and> length (pc_free_list c) = pc_capacity c \<and> pc_capacity c \<le> 2 ^ 30 \<and>
     pc_n_active c + pc_n_free c = pc_capacity c \<and> distinct (take (pc_n_free c) (pc_free_list c)) \<and>
     set (take (pc_n_free c) (pc_free_list c)) = {i. i < pc_capacity c \<and> pc_active c ! i = None} \<and>
     (\<forall>i s. i < pc_capacity c \<and> pc_active c ! i = Some s \<longleftrightarrow> (\<exists>sl. pc_slots c s = Some sl \<and> s \<notin> X \<and> sl_active_idx sl = i)) \<and>
     (\<forall>s \<in> X. \<forall>sl. pc_slots c s = Some sl \<longrightarrow> sl_active_idx sl = ACTIVE_IDX_UNLINKED \<and> sl_n_waiters sl = 0 \<and> sl_value sl = None)"

definition in_state :: "nat set \<Rightarrow> ('k, 'v) prefetch_cache \<Rightarrow> prefetch_state \<Rightarrow> nat set" where
  "in_state X c st = {s. s \<notin> X \<and> (\<exists>sl. pc_slots c s = Some sl \<and> sl_state sl = st)}"

definition counts_ok :: "nat set \<Rightarrow> ('k, 'v) prefetch_cache \<Rightarrow> bool" where
  "counts_ok X c \<longleftrightarrow> finite (dom (pc_slots c)) \<and> pc_pending_count c = card (in_state X c PREFETCH_STATE_PENDING) \<and>
     pc_errored_count c = card (in_state X c PREFETCH_STATE_ERROR)"

definition slots_ok :: "('k, 'v) prefetch_cache \<Rightarrow> bool" where
  "slots_ok c \<longleftrightarrow> (\<forall>s sl. pc_slots c s = Some sl \<longrightarrow> slot_ok (pc_generation_counter c) sl) \<and>
     (\<forall>s sl t tl. pc_slots c s = Some sl \<and> pc_slots c t = Some tl \<and> sl_generation sl = sl_generation tl \<longrightarrow> s = t)"

text \<open>A pending slot, and one that an owner at or after the watermark asked for, is pinned.\<close>

definition pins_ok :: "nat set \<Rightarrow> ('k, 'v) prefetch_cache \<Rightarrow> bool" where
  "pins_ok X c \<longleftrightarrow> (\<forall>s sl. pc_slots c s = Some sl \<and> s \<notin> X \<and> (sl_state sl = PREFETCH_STATE_PENDING \<or> pc_watermark c \<le> sl_max_owner_id sl) \<longrightarrow>
     sl_lru_ent sl \<noteq> None)"

definition core_ok :: "nat set \<Rightarrow> ('k, 'v) prefetch_cache \<Rightarrow> bool" where
  "core_ok X c \<longleftrightarrow> table_ok X c \<and> counts_ok X c \<and> slots_ok c \<and> pins_ok X c"

text \<open>The index holds exactly the slots, each once, with one reference for the pin of its slot.\<close>

definition index_holds :: "('k, 'v) prefetch_cache \<Rightarrow> bool" where
  "index_holds c \<longleftrightarrow> lru_inv (pc_idx c) \<and> lru_capacity (pc_idx c) = pc_capacity c \<and>
     (\<forall>s. count (lru_owned (pc_idx c)) s \<le> 1) \<and> set_mset (lru_owned (pc_idx c)) = dom (pc_slots c) \<and>
     (\<forall>i h s m. lru_live (pc_idx c) i = Some (h, s, m) \<longrightarrow>
        (\<exists>sl. pc_slots c s = Some sl \<and> sl_key_hash sl = h \<and> (sl_lru_ent sl = None \<and> m = 0 \<or> sl_lru_ent sl = Some i \<and> m = 1)))"

definition cache_ok :: "('k, 'v) prefetch_cache \<Rightarrow> bool" where
  "cache_ok c \<longleftrightarrow> core_ok {} c \<and> index_holds c"

lemmas core_defs = core_ok_def table_ok_def counts_ok_def slots_ok_def pins_ok_def

lemma pins_okD:
  "pins_ok X c \<Longrightarrow> pc_slots c s = Some sl \<Longrightarrow> s \<notin> X \<Longrightarrow> sl_state sl = PREFETCH_STATE_PENDING \<or> pc_watermark c \<le> sl_max_owner_id sl \<Longrightarrow>
     sl_lru_ent sl \<noteq> None"
  unfolding pins_ok_def by blast

lemma finite_in_state: "counts_ok X c \<Longrightarrow> finite (in_state X c st)"
  by (rule finite_subset [of _ "dom (pc_slots c)"]) (auto simp: in_state_def counts_ok_def)

section \<open>Destroying slots\<close>

text \<open>What the callback does to a slot of the table that is not pending.\<close>

lemma free_index:
  assumes t: "table_ok X c" and i: "i < pc_capacity c" "pc_active c ! i = Some s"
  shows "pc_n_free c < pc_capacity c"
proof -
  have "card (set (take (pc_n_free c) (pc_free_list c))) = pc_n_free c"
    using t by (subst distinct_card) (auto simp: table_ok_def)
  moreover have "set (take (pc_n_free c) (pc_free_list c)) \<subseteq> {..< pc_capacity c} - {i}" using t i by (auto simp: table_ok_def)
  then have "card (set (take (pc_n_free c) (pc_free_list c))) \<le> card ({..< pc_capacity c} - {i})" by (intro card_mono) auto
  moreover have "card ({..< pc_capacity c} - {i}) = pc_capacity c - 1" using i(1) by simp
  ultimately show ?thesis using i(1) by linarith
qed

lemma active_iff:
  "table_ok X c \<Longrightarrow> i < pc_capacity c \<and> pc_active c ! i = Some s \<longleftrightarrow> (\<exists>sl. pc_slots c s = Some sl \<and> s \<notin> X \<and> sl_active_idx sl = i)"
  by (simp add: table_ok_def)

lemma linked_index:
  assumes "table_ok X c" and "pc_slots c s = Some sl" and "s \<notin> X"
  shows "sl_active_idx sl < pc_capacity c" and "pc_active c ! sl_active_idx sl = Some s" and "sl_active_idx sl \<noteq> ACTIVE_IDX_UNLINKED"
proof -
  show i: "sl_active_idx sl < pc_capacity c" "pc_active c ! sl_active_idx sl = Some s" using active_iff [OF assms(1), of "sl_active_idx sl" s] assms(2,3) by auto
  have "pc_capacity c \<le> 2 ^ 30" using assms(1) by (simp add: table_ok_def)
  then show "sl_active_idx sl \<noteq> ACTIVE_IDX_UNLINKED" using i(1) by (simp add: ACTIVE_IDX_UNLINKED_def)
qed

definition opt_list :: "'a option \<Rightarrow> 'a list" where
  "opt_list x = (case x of None \<Rightarrow> [] | Some v \<Rightarrow> [v])"

lemma opt_list_simps [simp]: "opt_list None = []" "opt_list (Some v) = [v]"
  by (simp_all add: opt_list_def)

lemma destroy_linked:
  assumes t: "table_ok X c" and s: "pc_slots c s = Some sl" "s \<notin> X" "sl_state sl \<noteq> PREFETCH_STATE_PENDING" "sl_n_waiters sl = 0"
    and e: "pc_errored_count c < 2 ^ 64" "sl_state sl = PREFETCH_STATE_ERROR \<longrightarrow> 0 < pc_errored_count c"
  shows "lru_slot_destroy s c = c \<lparr>pc_active := (pc_active c)[sl_active_idx sl := None],
      pc_free_list := (pc_free_list c)[pc_n_free c := sl_active_idx sl], pc_n_free := pc_n_free c + 1, pc_n_active := pc_n_active c - 1,
      pc_errored_count := (if sl_state sl = PREFETCH_STATE_ERROR then pc_errored_count c - 1 else pc_errored_count c),
      pc_keys_destroyed := pc_keys_destroyed c @ [sl_key sl], pc_values_destroyed := pc_values_destroyed c @ opt_list (sl_value sl),
      pc_slots := (pc_slots c)(s := None)\<rparr>"
proof -
  note i = linked_index [OF t s(1,2)]
  have cap: "pc_capacity c \<le> 2 ^ 30" "pc_n_active c + pc_n_free c = pc_capacity c" using t by (simp_all add: table_ok_def)
  have f: "pc_n_free c < pc_capacity c" by (rule free_index [OF t i(1,2)])
  have "u32_add (pc_n_free c) 1 = pc_n_free c + 1" "u32_sub (pc_n_active c) 1 = pc_n_active c - 1" using cap f by (auto simp: u_exact)
  moreover have "sl_state sl = PREFETCH_STATE_ERROR \<Longrightarrow> u64_sub (pc_errored_count c) 1 = pc_errored_count c - 1" using e by (intro u64_sub_exact) auto
  ultimately show ?thesis using s i(3)
    by (cases c; cases "sl_state sl"; cases "sl_value sl") (auto simp: lru_slot_destroy_def active_remove_def put_slot_def Let_def)
qed

lemma destroy_unlinked:
  assumes "table_ok X c" and "pc_slots c s = Some sl" and "s \<in> X"
  shows "lru_slot_destroy s c = c \<lparr>pc_keys_destroyed := pc_keys_destroyed c @ [sl_key sl], pc_slots := (pc_slots c)(s := None)\<rparr>"
  using assms by (cases c) (auto simp: table_ok_def lru_slot_destroy_def)

lemma take_Suc_update: "n < length xs \<Longrightarrow> take (Suc n) (xs[n := y]) = take n xs @ [y]"
  by (simp add: take_Suc_conv_app_nth)

lemma destroy_linked_table:
  assumes t: "table_ok X c" and s: "pc_slots c s = Some sl" "s \<notin> X"
  shows "table_ok (X - {s}) (c \<lparr>pc_active := (pc_active c)[sl_active_idx sl := None], pc_free_list := (pc_free_list c)[pc_n_free c := sl_active_idx sl],
      pc_n_free := pc_n_free c + 1, pc_n_active := pc_n_active c - 1, pc_errored_count := e, pc_keys_destroyed := ks, pc_values_destroyed := vs,
      pc_slots := (pc_slots c)(s := None)\<rparr>)"
    (is "table_ok _ ?c")
proof -
  note i = linked_index [OF t s]
  have f: "pc_n_free c < pc_capacity c" by (rule free_index [OF t i(1,2)])
  have len: "length (pc_active c) = pc_capacity c" using t by (simp add: table_ok_def)
  have uniq: "u = s" if "pc_slots c u = Some ul" "u \<notin> X" "sl_active_idx ul = sl_active_idx sl" for u ul
    using linked_index(2) [OF t that(1,2)] i(2) that(3) by simp
  have "take (pc_n_free ?c) (pc_free_list ?c) = take (pc_n_free c) (pc_free_list c) @ [sl_active_idx sl]"
    using f t by (simp add: take_Suc_update table_ok_def)
  moreover have "j < pc_capacity ?c \<and> pc_active ?c ! j = Some u \<longleftrightarrow> (\<exists>ul. pc_slots ?c u = Some ul \<and> u \<notin> X - {s} \<and> sl_active_idx ul = j)" for j u
  proof -
    consider (same) "u = s" | (index) "u \<noteq> s" "j = sl_active_idx sl" | (other) "u \<noteq> s" "j \<noteq> sl_active_idx sl" by blast
    then show ?thesis
    proof cases
      case same
      have "j = sl_active_idx sl" if "j < pc_capacity c" "pc_active c ! j = Some s" using active_iff [OF t, of j s] that s(1) by auto
      then show ?thesis using same i(1) len by (auto simp: nth_list_update)
    next
      case index
      then have "\<not> (\<exists>ul. pc_slots ?c u = Some ul \<and> u \<notin> X - {s} \<and> sl_active_idx ul = j)" using uniq [of u] by auto
      then show ?thesis using index i(1) len by simp
    next
      case other
      then show ?thesis using active_iff [OF t, of j u] by simp
    qed
  qed
  ultimately show ?thesis using t i f unfolding table_ok_def by (auto simp: nth_list_update split: if_splits)
qed

lemma in_state_remove: "in_state (X - {s}) (c \<lparr>pc_slots := (pc_slots c)(s := None)\<rparr>) st = in_state X c st - {s}"
  by (auto simp: in_state_def)

lemma in_state_cong: "pc_slots c = pc_slots d \<Longrightarrow> in_state X c st = in_state X d st"
  by (simp add: in_state_def)

lemma errored_bound:
  assumes "core_ok X c"
  shows "pc_errored_count c \<le> pc_capacity c" and "pc_pending_count c \<le> pc_capacity c"
proof -
  have t: "table_ok X c" and n: "counts_ok X c" using assms by (simp_all add: core_ok_def)
  have "card (in_state X c st) \<le> pc_capacity c" for st
  proof -
    have "inj_on (\<lambda>s. sl_active_idx (slot_at c s)) (in_state X c st)"
    proof (rule inj_onI)
      fix s u assume "s \<in> in_state X c st" "u \<in> in_state X c st" and e: "sl_active_idx (slot_at c s) = sl_active_idx (slot_at c u)"
      then obtain sl ul where "pc_slots c s = Some sl" "s \<notin> X" "pc_slots c u = Some ul" "u \<notin> X" by (auto simp: in_state_def)
      then show "s = u" using linked_index(2) [OF t, of s sl] linked_index(2) [OF t, of u ul] e by simp
    qed
    moreover have "(\<lambda>s. sl_active_idx (slot_at c s)) ` in_state X c st \<subseteq> {..< pc_capacity c}"
      using linked_index(1) [OF t] by (auto simp: in_state_def)
    ultimately show ?thesis using card_inj_on_le [of _ "in_state X c st" "{..< pc_capacity c}"] by fastforce
  qed
  then show "pc_errored_count c \<le> pc_capacity c" "pc_pending_count c \<le> pc_capacity c" using n by (simp_all add: counts_ok_def)
qed

text \<open>The parts of the state that destroying slots leaves alone.\<close>

definition same_frame :: "('k, 'v) prefetch_cache \<Rightarrow> ('k, 'v) prefetch_cache \<Rightarrow> bool" where
  "same_frame c d \<longleftrightarrow> pc_idx d = pc_idx c \<and> pc_watermark d = pc_watermark c \<and> pc_generation_counter d = pc_generation_counter c \<and>
     pc_capacity d = pc_capacity c \<and> pc_pending_count d = pc_pending_count c \<and> pc_gates d = pc_gates c"

lemma destroy_slot_ok:
  assumes k: "core_ok X c" and s: "pc_slots c s = Some sl" and free: "s \<in> X \<or> sl_lru_ent sl = None"
  shows "core_ok (X - {s}) (lru_slot_destroy s c)" and "pc_slots (lru_slot_destroy s c) = (pc_slots c)(s := None)"
    and "same_frame c (lru_slot_destroy s c)"
    and "pc_keys_destroyed (lru_slot_destroy s c) = pc_keys_destroyed c @ [sl_key sl]"
    and "pc_values_destroyed (lru_slot_destroy s c) = pc_values_destroyed c @ opt_list (sl_value sl)"
proof -
  have t: "table_ok X c" and n: "counts_ok X c" and so: "slots_ok c" and p: "pins_ok X c" using k by (simp_all add: core_ok_def)
  have slots: "slots_ok d" "pins_ok (X - {s}) d" if "pc_slots d = (pc_slots c)(s := None)" "pc_generation_counter d = pc_generation_counter c"
    "pc_watermark d = pc_watermark c" for d :: "('a, 'b) prefetch_cache"
    using so p by (auto simp: slots_ok_def pins_ok_def that split: if_splits)
  let ?d = "lru_slot_destroy s c"
  have fin: "finite (in_state X c st)" for st by (rule finite_in_state [OF n])
  have all: "core_ok (X - {s}) ?d \<and> pc_slots ?d = (pc_slots c)(s := None) \<and> same_frame c ?d \<and>
    pc_keys_destroyed ?d = pc_keys_destroyed c @ [sl_key sl] \<and> pc_values_destroyed ?d = pc_values_destroyed c @ opt_list (sl_value sl)"
  proof (cases "s \<in> X")
    case True
    have v: "sl_value sl = None" using t s True by (auto simp: table_ok_def)
    have st: "in_state X c st - {s} = in_state X c st" for st using True by (auto simp: in_state_def)
    note d = destroy_unlinked [OF t s True]
    have "table_ok (X - {s}) ?d" using t True unfolding d table_ok_def by auto
    moreover have "counts_ok (X - {s}) ?d" using n in_state_remove [of X s c] st unfolding d counts_ok_def
      by (auto simp: in_state_def)
    ultimately show ?thesis using slots [of ?d] v by (simp add: d core_ok_def same_frame_def)
  next
    case False
    have ns: "sl_state sl \<noteq> PREFETCH_STATE_PENDING" using pins_okD [OF p s False] free False by auto
    then have w: "sl_n_waiters sl = 0" using so s by (auto simp: slots_ok_def slot_ok_def)
    have err: "s \<in> in_state X c PREFETCH_STATE_ERROR \<longleftrightarrow> sl_state sl = PREFETCH_STATE_ERROR" using s False by (auto simp: in_state_def)
    have cap: "pc_errored_count c < 2 ^ 64" using errored_bound(1) [OF k] t by (simp add: table_ok_def)
    have e: "sl_state sl = PREFETCH_STATE_ERROR \<longrightarrow> 0 < pc_errored_count c"
      using n err card_gt_0_iff [of "in_state X c PREFETCH_STATE_ERROR"] fin by (auto simp: counts_ok_def)
    note d = destroy_linked [OF t s False ns w cap e]
    have "in_state X c PREFETCH_STATE_PENDING - {s} = in_state X c PREFETCH_STATE_PENDING" using s ns by (auto simp: in_state_def)
    moreover have "card (in_state X c PREFETCH_STATE_ERROR - {s}) = (if sl_state sl = PREFETCH_STATE_ERROR then pc_errored_count c - 1 else pc_errored_count c)"
      using n err fin by (auto simp: counts_ok_def)
    moreover have "in_state (X - {s}) ?d st = in_state X c st - {s}" for st by (auto simp: in_state_def d split: if_splits)
    ultimately have "counts_ok (X - {s}) ?d" using n by (simp add: counts_ok_def) (simp add: d)
    moreover have "table_ok (X - {s}) ?d" unfolding d by (rule destroy_linked_table [OF t s False])
    ultimately show ?thesis using slots [of ?d] by (simp add: d core_ok_def same_frame_def)
  qed
  from all show "core_ok (X - {s}) ?d" "pc_slots ?d = (pc_slots c)(s := None)" "same_frame c ?d"
    "pc_keys_destroyed ?d = pc_keys_destroyed c @ [sl_key sl]" "pc_values_destroyed ?d = pc_values_destroyed c @ opt_list (sl_value sl)" by simp_all
qed

lemma destroy_slots_ok:
  assumes "core_ok X c" and "distinct ds" and "\<forall>s \<in> set ds. \<exists>sl. pc_slots c s = Some sl \<and> (s \<in> X \<or> sl_lru_ent sl = None)"
  shows "core_ok (X - set ds) (fold lru_slot_destroy ds c) \<and> pc_slots (fold lru_slot_destroy ds c) = (\<lambda>s. if s \<in> set ds then None else pc_slots c s) \<and>
    same_frame c (fold lru_slot_destroy ds c) \<and>
    pc_values_destroyed (fold lru_slot_destroy ds c) = pc_values_destroyed c @ concat (map (\<lambda>s. opt_list (sl_value (slot_at c s))) ds)"
  using assms
proof (induction ds arbitrary: X c)
  case Nil
  then show ?case by (simp add: same_frame_def)
next
  case (Cons s ds)
  then obtain sl where s: "pc_slots c s = Some sl" "s \<in> X \<or> sl_lru_ent sl = None" by auto
  note d = destroy_slot_ok [OF Cons.prems(1) s]
  let ?d = "lru_slot_destroy s c"
  have "\<exists>tl. pc_slots ?d t = Some tl \<and> (t \<in> X - {s} \<or> sl_lru_ent tl = None)" if "t \<in> set ds" for t
    using Cons.prems(2,3) that d(2) by auto
  with Cons.IH [OF d(1)] Cons.prems(2) have IH: "core_ok (X - {s} - set ds) (fold lru_slot_destroy ds ?d) \<and>
      pc_slots (fold lru_slot_destroy ds ?d) = (\<lambda>t. if t \<in> set ds then None else pc_slots ?d t) \<and> same_frame ?d (fold lru_slot_destroy ds ?d) \<and>
      pc_values_destroyed (fold lru_slot_destroy ds ?d) = pc_values_destroyed ?d @ concat (map (\<lambda>s. opt_list (sl_value (slot_at ?d s))) ds)" by simp
  have m: "map (\<lambda>t. opt_list (sl_value (slot_at ?d t))) ds = map (\<lambda>t. opt_list (sl_value (slot_at c t))) ds"
    using Cons.prems(2) d(2) by auto
  have x: "X - {s} - set ds = X - set (s # ds)" by auto
  have f: "(\<lambda>t. if t \<in> set ds then None else ((pc_slots c)(s := None)) t) = (\<lambda>t. if t \<in> set (s # ds) then None else pc_slots c t)" by auto
  have "same_frame c e" if "same_frame ?d e" for e using that d(3) by (simp add: same_frame_def)
  then show ?case using IH [unfolded m x, unfolded d(2,5) f] s(1) by simp
qed

section \<open>Sums over the slots\<close>

definition slot_sum :: "(('k, 'v) prefetch_slot \<Rightarrow> 'm :: comm_monoid_add) \<Rightarrow> (nat \<Rightarrow> ('k, 'v) prefetch_slot option) \<Rightarrow> 'm" where
  "slot_sum f m = (\<Sum>s \<in> dom m. f (the (m s)))"

lemma slot_sum_del:
  assumes "finite (dom m)" and "m s = Some sl"
  shows "slot_sum f m = slot_sum f (m(s := None)) + f sl"
proof -
  have "(\<Sum>t \<in> dom m - {s}. f (the ((m(s := None)) t))) = (\<Sum>t \<in> dom m - {s}. f (the (m t)))" by (intro sum.cong) auto
  then show ?thesis using sum.remove [OF assms(1), of s "\<lambda>t. f (the (m t))"] assms(2) by (auto simp: slot_sum_def add.commute)
qed

lemma slot_sum_new:
  assumes "finite (dom m)" and "m s = None"
  shows "slot_sum f (m(s \<mapsto> sl)) = slot_sum f m + f sl"
proof -
  have "m(s \<mapsto> sl, s := None) = m" using assms(2) by auto
  then show ?thesis using slot_sum_del [of "m(s \<mapsto> sl)" s sl f] assms(1) by simp
qed

lemma slot_sum_upd:
  assumes "finite (dom m)" and "m s = Some sl"
  shows "slot_sum f (m(s \<mapsto> sl')) + f sl = slot_sum f m + f sl'"
proof -
  have "slot_sum f (m(s \<mapsto> sl')) = slot_sum f (m(s := None)) + f sl'"
    using slot_sum_new [of "m(s := None)" s f sl'] assms(1) by simp
  then show ?thesis using slot_sum_del [OF assms, of f] by (simp add: ac_simps)
qed

lemma slot_sum_del_all:
  assumes "finite (dom m)" and "distinct ds" and "set ds \<subseteq> dom m"
  shows "slot_sum f m = slot_sum f (\<lambda>s. if s \<in> set ds then None else m s) + (\<Sum>s \<leftarrow> ds. f (the (m s)))"
  using assms
proof (induction ds arbitrary: m)
  case (Cons s ds)
  then obtain sl where s: "m s = Some sl" by auto
  have "slot_sum f (m(s := None)) = slot_sum f (\<lambda>t. if t \<in> set ds then None else (m(s := None)) t) + (\<Sum>t \<leftarrow> ds. f (the ((m(s := None)) t)))"
    by (rule Cons.IH) (use Cons.prems in \<open>auto intro: finite_subset [of _ "dom m"] split: if_splits\<close>)
  moreover have "(\<lambda>t. if t \<in> set ds then None else (m(s := None)) t) = (\<lambda>t. if t \<in> set (s # ds) then None else m t)" by auto
  moreover have "map (\<lambda>t. f (the ((m(s := None)) t))) ds = map (\<lambda>t. f (the (m t))) ds" using Cons.prems(2) by auto
  ultimately have "slot_sum f (m(s := None)) = slot_sum f (\<lambda>t. if t \<in> set (s # ds) then None else m t) + (\<Sum>t \<leftarrow> ds. f (the (m t)))" by (simp only:)
  then show ?case using slot_sum_del [of m s sl f] Cons.prems(1) s by (simp add: ac_simps)
qed simp

section \<open>Changing one slot\<close>

lemma put_slot_simps [simp]:
  "pc_slots (put_slot c s sl) = (pc_slots c)(s \<mapsto> sl)" "pc_idx (put_slot c s sl) = pc_idx c" "pc_watermark (put_slot c s sl) = pc_watermark c"
  "pc_generation_counter (put_slot c s sl) = pc_generation_counter c" "pc_active (put_slot c s sl) = pc_active c"
  "pc_free_list (put_slot c s sl) = pc_free_list c" "pc_n_free (put_slot c s sl) = pc_n_free c" "pc_n_active (put_slot c s sl) = pc_n_active c"
  "pc_capacity (put_slot c s sl) = pc_capacity c" "pc_pending_count (put_slot c s sl) = pc_pending_count c"
  "pc_errored_count (put_slot c s sl) = pc_errored_count c" "pc_gates (put_slot c s sl) = pc_gates c"
  "pc_values_destroyed (put_slot c s sl) = pc_values_destroyed c" "pc_keys_destroyed (put_slot c s sl) = pc_keys_destroyed c"
  by (simp_all add: put_slot_def)

text \<open>Two states that agree in what the core of the invariant reads.\<close>

definition same_core :: "('k, 'v) prefetch_cache \<Rightarrow> ('k, 'v) prefetch_cache \<Rightarrow> bool" where
  "same_core c d \<longleftrightarrow> pc_active d = pc_active c \<and> pc_free_list d = pc_free_list c \<and> pc_n_free d = pc_n_free c \<and> pc_n_active d = pc_n_active c \<and>
     pc_capacity d = pc_capacity c \<and> pc_watermark d = pc_watermark c \<and> pc_generation_counter d = pc_generation_counter c"

lemma core_ok_cong:
  assumes "same_core c d" and "pc_slots d = pc_slots c" and "pc_pending_count d = pc_pending_count c" and "pc_errored_count d = pc_errored_count c"
  shows "core_ok X d = core_ok X c"
  using assms by (simp add: core_defs in_state_def same_core_def)

lemma table_put_slot:
  assumes "table_ok {} c" and "pc_slots c s = Some sl" and "sl_active_idx sl' = sl_active_idx sl" and "same_core c d" and "pc_slots d = (pc_slots c)(s \<mapsto> sl')"
  shows "table_ok {} d"
proof -
  have "(\<exists>tl. pc_slots d t = Some tl \<and> t \<notin> {} \<and> sl_active_idx tl = i) \<longleftrightarrow> (\<exists>tl. pc_slots c t = Some tl \<and> t \<notin> {} \<and> sl_active_idx tl = i)" for t i
    using assms(2,3,5) by (cases "t = s") auto
  then show ?thesis using assms(1,4) unfolding table_ok_def same_core_def by simp
qed

lemma slots_put_slot:
  assumes "slots_ok c" and "pc_slots c s = Some sl" and "sl_generation sl' = sl_generation sl" and "slot_ok (pc_generation_counter c) sl'"
    and "pc_slots d = (pc_slots c)(s \<mapsto> sl')" and "pc_generation_counter d = pc_generation_counter c"
  shows "slots_ok d"
proof -
  have g: "\<exists>tl'. pc_slots c t = Some tl' \<and> sl_generation tl' = sl_generation tl" if "pc_slots d t = Some tl" for t tl
    using that assms(2,3,5) by (cases "t = s") auto
  have "t = u" if "pc_slots d t = Some tl" "pc_slots d u = Some ul" "sl_generation tl = sl_generation ul" for t tl u ul
    using g [OF that(1)] g [OF that(2)] that(3) assms(1) unfolding slots_ok_def by metis
  moreover have "slot_ok (pc_generation_counter d) tl" if "pc_slots d t = Some tl" for t tl
    using that assms(1,4-6) by (cases "t = s") (auto simp: slots_ok_def)
  ultimately show ?thesis unfolding slots_ok_def by blast
qed

lemma pins_put_slot:
  assumes "pins_ok {} c" and "sl_state sl' = PREFETCH_STATE_PENDING \<or> pc_watermark c \<le> sl_max_owner_id sl' \<longrightarrow> sl_lru_ent sl' \<noteq> None"
    and "pc_slots d = (pc_slots c)(s \<mapsto> sl')" and "pc_watermark d = pc_watermark c"
  shows "pins_ok {} d"
  using assms unfolding pins_ok_def by (auto split: if_splits)

lemma counts_put_slot:
  assumes "counts_ok {} c" and "pc_slots c s = Some sl" and "sl_state sl' = sl_state sl" and "pc_slots d = (pc_slots c)(s \<mapsto> sl')"
    and "pc_pending_count d = pc_pending_count c" and "pc_errored_count d = pc_errored_count c"
  shows "counts_ok {} d"
proof -
  have "in_state {} d st = in_state {} c st" for st using assms(2-4) by (auto simp: in_state_def split: if_splits)
  then show ?thesis using assms by (simp add: counts_ok_def)
qed

lemma core_put_slot:
  assumes "core_ok {} c" and "pc_slots c s = Some sl" and "sl_active_idx sl' = sl_active_idx sl" and "sl_generation sl' = sl_generation sl"
    and "sl_state sl' = sl_state sl" and "slot_ok (pc_generation_counter c) sl'"
    and "sl_state sl' = PREFETCH_STATE_PENDING \<or> pc_watermark c \<le> sl_max_owner_id sl' \<longrightarrow> sl_lru_ent sl' \<noteq> None"
    and "same_core c d" and "pc_slots d = (pc_slots c)(s \<mapsto> sl')" and "pc_pending_count d = pc_pending_count c" and "pc_errored_count d = pc_errored_count c"
  shows "core_ok {} d"
  using assms(1) table_put_slot [OF _ assms(2,3,8,9)] slots_put_slot [OF _ assms(2,4,6,9)] pins_put_slot [OF _ assms(7,9)] counts_put_slot [OF _ assms(2,5,9-11)] assms(8)
  by (simp add: core_ok_def same_core_def)

section \<open>The index and the slots\<close>

lemma index_holdsD:
  assumes "index_holds c" and "lru_live (pc_idx c) i = Some (h, s, m)"
  shows "\<exists>sl. pc_slots c s = Some sl \<and> sl_key_hash sl = h \<and> (sl_lru_ent sl = None \<and> m = 0 \<or> sl_lru_ent sl = Some i \<and> m = 1)"
  using assms unfolding index_holds_def by blast

lemma index_entry:
  assumes "index_holds c" and "pc_slots c s = Some sl"
  obtains i where "lru_live (pc_idx c) i = Some (sl_key_hash sl, s, if sl_lru_ent sl = None then 0 else 1)" and "sl_lru_ent sl = None \<or> sl_lru_ent sl = Some i"
proof -
  have "s \<in># lru_owned (pc_idx c)" "lru_inv (pc_idx c)" using assms by (auto simp: index_holds_def)
  then obtain i h m where i: "lru_live (pc_idx c) i = Some (h, s, m)" using lru_entries.live_owned [of "pc_idx c"] by blast
  from index_holdsD [OF assms(1) i] assms(2) i show thesis by (intro that [of i]) auto
qed

lemma index_put_slot:
  assumes "index_holds c" and "pc_slots c s = Some sl" and "sl_key_hash sl' = sl_key_hash sl" and "sl_lru_ent sl' = sl_lru_ent sl"
    and "pc_idx d = pc_idx c" and "pc_capacity d = pc_capacity c" and "pc_slots d = (pc_slots c)(s \<mapsto> sl')"
  shows "index_holds d"
proof -
  have "\<exists>sl. pc_slots d t = Some sl \<and> sl_key_hash sl = h \<and> (sl_lru_ent sl = None \<and> m = 0 \<or> sl_lru_ent sl = Some i \<and> m = 1)"
    if "lru_live (pc_idx c) i = Some (h, t, m)" for i h t m
    using index_holdsD [OF assms(1) that] assms(2-4,7) by (cases "t = s") auto
  moreover have "dom (pc_slots d) = dom (pc_slots c)" using assms(2,7) by auto
  ultimately show ?thesis using assms(1,5,6) unfolding index_holds_def by simp
qed

text \<open>Setting the number of references of the entry of a slot together with its pin.\<close>

lemma index_set_pin:
  assumes h: "index_holds c" and s: "pc_slots c s = Some sl" and i: "lru_live (pc_idx c) i = Some (h, s, m)"
    and idx: "lru_inv idx" "lru_live idx = (lru_live (pc_idx c))(i \<mapsto> (h, s, m'))" "lru_owned idx = lru_owned (pc_idx c)" "lru_capacity idx = lru_capacity (pc_idx c)"
    and pin: "sl_lru_ent sl' = None \<and> m' = 0 \<or> sl_lru_ent sl' = Some i \<and> m' = 1" and k: "sl_key_hash sl' = sl_key_hash sl"
    and d: "pc_idx d = idx" "pc_capacity d = pc_capacity c" "pc_slots d = (pc_slots c)(s \<mapsto> sl')"
  shows "index_holds d"
proof -
  have inv: "lru_inv (pc_idx c)" and one: "count (lru_owned (pc_idx c)) s \<le> 1" using h by (auto simp: index_holds_def)
  have "\<exists>sl. pc_slots d t = Some sl \<and> sl_key_hash sl = h' \<and> (sl_lru_ent sl = None \<and> n = 0 \<or> sl_lru_ent sl = Some j \<and> n = 1)"
    if l: "lru_live idx j = Some (h', t, n)" for j h' t n
  proof (cases "j = i")
    case True
    then have "h' = h" "t = s" "n = m'" using l idx(2) by auto
    moreover have "sl_key_hash sl = h" using index_holdsD [OF h i] s by auto
    ultimately show ?thesis using pin k d True by auto
  next
    case False
    then have j: "lru_live (pc_idx c) j = Some (h', t, n)" using l idx(2) by simp
    then have "t \<noteq> s" using lru_entries.live_inj [OF inv i _ one] False by blast
    then show ?thesis using index_holdsD [OF h j] d(3) by auto
  qed
  moreover have "dom (pc_slots d) = dom (pc_slots c)" using s d(3) by auto
  ultimately show ?thesis using h idx d unfolding index_holds_def by simp
qed

end
