(* ===== verification/Prefetch_Cache_Correct.thy ===== *)
theory Prefetch_Cache_Correct
  imports Prefetch_Cache_Inv
begin

text \<open>
  Correctness of the metadata cache: the invariant holds after every operation, so handles never lead to another key, an entry
  that an owner at or after the watermark asked for stays, a gate is open exactly when nothing it waits for is pending, and no
  value is lost.
\<close>

section \<open>Steps\<close>

text \<open>How a slot may change while it lives.\<close>

definition evolves :: "('k, 'v) prefetch_slot \<Rightarrow> ('k, 'v) prefetch_slot \<Rightarrow> bool" where
  "evolves s t \<longleftrightarrow> sl_key_hash t = sl_key_hash s \<and> sl_key t = sl_key s \<and> sl_generation t = sl_generation s \<and> sl_active_idx t = sl_active_idx s \<and>
     sl_max_owner_id s \<le> sl_max_owner_id t \<and>
     (sl_state s \<noteq> PREFETCH_STATE_PENDING \<longrightarrow> sl_state t = sl_state s \<and> sl_value t = sl_value s \<and> sl_err t = sl_err s)"

lemma evolves_refl [simp]: "evolves s s"
  by (simp add: evolves_def)

lemma evolves_trans: "evolves s t \<Longrightarrow> evolves t u \<Longrightarrow> evolves s u"
  by (auto simp: evolves_def)

lemma same_slot_evolves: "same_slot s t \<Longrightarrow> evolves s t"
  by (simp add: same_slot_def evolves_def)

definition step_ok :: "('k, 'v) prefetch_cache \<Rightarrow> ('k, 'v) prefetch_cache \<Rightarrow> bool" where
  "step_ok c d \<longleftrightarrow> pc_capacity d = pc_capacity c \<and> pc_watermark c \<le> pc_watermark d \<and> pc_generation_counter c \<le> pc_generation_counter d \<and>
     (\<forall>s tl. pc_slots d s = Some tl \<longrightarrow> pc_generation_counter c < sl_generation tl \<or> (\<exists>sl. pc_slots c s = Some sl \<and> evolves sl tl)) \<and>
     (\<forall>s sl. pc_slots c s = Some sl \<and> pc_watermark d \<le> sl_max_owner_id sl \<longrightarrow> (\<exists>tl. pc_slots d s = Some tl \<and> evolves sl tl))"

lemma step_ok_refl [simp]: "step_ok c c"
  by (auto simp: step_ok_def intro: evolves_refl)

lemma step_ok_trans:
  assumes "step_ok c d" and "step_ok d e"
  shows "step_ok c e"
proof -
  have "pc_generation_counter c < sl_generation tl \<or> (\<exists>sl. pc_slots c s = Some sl \<and> evolves sl tl)" if e: "pc_slots e s = Some tl" for s tl
  proof (cases "pc_generation_counter d < sl_generation tl")
    case True
    then show ?thesis using assms(1) by (auto simp: step_ok_def)
  next
    case False
    then obtain ul where u: "pc_slots d s = Some ul" "evolves ul tl" using assms(2) e unfolding step_ok_def by blast
    then show ?thesis using assms(1) evolves_trans [OF _ u(2)] unfolding step_ok_def evolves_def [of ul tl] by (metis evolves_def)
  qed
  moreover have "\<exists>tl. pc_slots e s = Some tl \<and> evolves sl tl" if s: "pc_slots c s = Some sl" "pc_watermark e \<le> sl_max_owner_id sl" for s sl
  proof -
    have "pc_watermark d \<le> sl_max_owner_id sl" using assms(2) s(2) by (simp add: step_ok_def)
    then obtain ul where u: "pc_slots d s = Some ul" "evolves sl ul" using assms(1) s(1) unfolding step_ok_def by blast
    then have "pc_watermark e \<le> sl_max_owner_id ul" using s(2) by (simp add: evolves_def)
    then obtain tl where "pc_slots e s = Some tl" "evolves ul tl" using assms(2) u(1) unfolding step_ok_def by blast
    then show ?thesis using evolves_trans [OF u(2)] by blast
  qed
  ultimately show ?thesis using assms unfolding step_ok_def by auto
qed

lemma step_put_slot:
  assumes "pc_slots c s = Some sl" and "evolves sl sl'" and "pc_slots d = (pc_slots c)(s \<mapsto> sl')"
    and "pc_capacity d = pc_capacity c" and "pc_watermark d = pc_watermark c" and "pc_generation_counter d = pc_generation_counter c"
  shows "step_ok c d"
  using assms unfolding step_ok_def by auto

text \<open>What happens to the gates: every waiter is counted once, on top of what \<open>base\<close> counts for other caches.\<close>

definition waits :: "('k, 'v) prefetch_cache \<Rightarrow> gate \<Rightarrow> nat" where
  "waits c g = slot_sum (\<lambda>sl. count_list (slot_waiters sl) g) (pc_slots c)"

definition gates_ok :: "(gate \<Rightarrow> nat) \<Rightarrow> ('k, 'v) prefetch_cache \<Rightarrow> bool" where
  "gates_ok base c \<longleftrightarrow> (\<forall>g. \<exists>e. pc_gates c g = gate_word (base g + waits c g) e)"

text \<open>The values that the slots hold.\<close>

definition live_results :: "('k, 'v) prefetch_cache \<Rightarrow> 'v multiset" where
  "live_results c = slot_sum (\<lambda>sl. mset (opt_list (sl_value sl))) (pc_slots c)"

definition all_results_of :: "('k, 'v) prefetch_cache \<Rightarrow> 'v multiset" where
  "all_results_of c = live_results c + mset (pc_values_destroyed c)"

definition total_waiters :: "('k, 'v) prefetch_cache \<Rightarrow> nat" where
  "total_waiters c = slot_sum sl_n_waiters (pc_slots c)"

lemma waiters_le_total:
  assumes "finite (dom (pc_slots c))" and "pc_slots c s = Some sl"
  shows "sl_n_waiters sl \<le> total_waiters c"
  using member_le_sum [of s "dom (pc_slots c)" "\<lambda>s. sl_n_waiters (slot_at c s)"] assms by (auto simp: total_waiters_def slot_sum_def)

lemma waits_le_total: "waits c g \<le> total_waiters c"
proof -
  have "count_list (slot_waiters sl) g \<le> sl_n_waiters sl" for sl :: "('a, 'b) prefetch_slot"
    using count_le_length [of "slot_waiters sl" g] by (simp add: slot_waiters_def)
  then show ?thesis by (auto simp: waits_def total_waiters_def slot_sum_def intro!: sum_mono)
qed

section \<open>Completion\<close>

lemma release_gates:
  assumes "\<forall>g. gs g = gate_word (p g + count_list ws g) (e g)" and "\<forall>g. p g + count_list ws g < 2 ^ 63"
  shows "fold (release_waiter errored) ws gs g = gate_word (p g) (e g \<or> errored \<and> g \<in> set ws)"
  using assms
proof (induction ws arbitrary: gs e)
  case Nil
  then show ?case by simp
next
  case (Cons w ws)
  let ?gs = "release_waiter errored w gs" and ?e = "\<lambda>g. e g \<or> errored \<and> g = w"
  have w: "gs w = gate_word (p w + count_list ws w + 1) (e w)" "p w + count_list ws w + 1 < 2 ^ 63" using Cons.prems(1,2) spec [OF Cons.prems(2), of w] by simp_all
  then have "gate_word (p w + count_list ws w + 1) b - 1 = gate_word (p w + count_list ws w) b" for b by (intro gate_word_dec)
  then have "?gs w = gate_word (p w + count_list ws w) (?e w)"
    using w(1) by (auto simp: release_waiter_def prefetch_gate_dec_pending_def prefetch_gate_set_error_def gate_word_error)
  moreover have "?gs g = gs g" if "g \<noteq> w" for g using that by (simp add: release_waiter_def prefetch_gate_dec_pending_def prefetch_gate_set_error_def)
  ultimately have "?gs g = gate_word (p g + count_list ws g) (?e g)" for g using spec [OF Cons.prems(1), of g] by (cases "g = w") simp_all
  moreover have "p g + count_list ws g < 2 ^ 63" for g using spec [OF Cons.prems(2), of g] by (auto split: if_splits)
  ultimately have "fold (release_waiter errored) ws ?gs g = gate_word (p g) (?e g \<or> errored \<and> g \<in> set ws)" by (intro Cons.IH allI)
  moreover have "(?e g \<or> errored \<and> g \<in> set ws) = (e g \<or> errored \<and> g \<in> set (w # ws))" by auto
  ultimately show ?case by simp
qed

lemma release_fold: "fold (\<lambda>i. release_waiter errored (slot_waiter sl i)) [0 ..< sl_n_waiters sl] gs = fold (release_waiter errored) (slot_waiters sl) gs"
  by (simp add: slot_waiters_def fold_map comp_def)

text \<open>The state after a pending slot was completed.\<close>

definition completed_slot :: "('k, 'v) prefetch_slot \<Rightarrow> 'v option \<Rightarrow> damacy_status \<Rightarrow> ('k, 'v) prefetch_slot" where
  "completed_slot sl v err =
     (if err = DAMACY_OK then sl \<lparr>sl_state := PREFETCH_STATE_READY, sl_value := v, sl_n_waiters := 0\<rparr>
      else sl \<lparr>sl_state := PREFETCH_STATE_ERROR, sl_err := err, sl_n_waiters := 0\<rparr>)"

lemma complete_locked_fields:
  assumes "pc_slots c s = Some sl"
  shows "pc_slots (slot_complete_locked c s v err) = (pc_slots c)(s \<mapsto> completed_slot sl v err)"
    and "same_core c (slot_complete_locked c s v err)" and "pc_idx (slot_complete_locked c s v err) = pc_idx c"
    and "pc_pending_count (slot_complete_locked c s v err) = u64_sub (pc_pending_count c) 1"
    and "pc_errored_count (slot_complete_locked c s v err) = (if err = DAMACY_OK then pc_errored_count c else u64_add (pc_errored_count c) 1)"
    and "pc_values_destroyed (slot_complete_locked c s v err) = pc_values_destroyed c @ (if err = DAMACY_OK then [] else opt_list v)"
    and "pc_gates (slot_complete_locked c s v err) = fold (release_waiter (err \<noteq> DAMACY_OK)) (slot_waiters sl) (pc_gates c)"
proof -
  have w: "slot_waiters (sl \<lparr>sl_state := st, sl_value := v'\<rparr>) = slot_waiters sl" "slot_waiters (sl \<lparr>sl_state := st, sl_err := er\<rparr>) = slot_waiters sl" for st v' er
    by (simp_all add: slot_waiters_def slot_waiter_def [abs_def])
  show "pc_slots (slot_complete_locked c s v err) = (pc_slots c)(s \<mapsto> completed_slot sl v err)"
    "same_core c (slot_complete_locked c s v err)" "pc_idx (slot_complete_locked c s v err) = pc_idx c"
    "pc_pending_count (slot_complete_locked c s v err) = u64_sub (pc_pending_count c) 1"
    "pc_errored_count (slot_complete_locked c s v err) = (if err = DAMACY_OK then pc_errored_count c else u64_add (pc_errored_count c) 1)"
    "pc_values_destroyed (slot_complete_locked c s v err) = pc_values_destroyed c @ (if err = DAMACY_OK then [] else opt_list v)"
    using assms by (auto simp: slot_complete_locked_def slot_release_waiters_def completed_slot_def same_core_def destroy_value_def opt_list_def split: option.splits)
  show "pc_gates (slot_complete_locked c s v err) = fold (release_waiter (err \<noteq> DAMACY_OK)) (slot_waiters sl) (pc_gates c)"
    using assms release_fold [of _ "sl \<lparr>sl_state := PREFETCH_STATE_READY, sl_value := v\<rparr>"] release_fold [of _ "sl \<lparr>sl_state := PREFETCH_STATE_ERROR, sl_err := err\<rparr>"] w
    by (auto simp: slot_complete_locked_def slot_release_waiters_def destroy_value_def split: option.splits)
qed

lemma complete_locked_core:
  assumes k: "core_ok {} c" and s: "pc_slots c s = Some sl" "sl_state sl = PREFETCH_STATE_PENDING"
  shows "core_ok {} (slot_complete_locked c s v err)" (is "core_ok {} ?d")
proof -
  have t: "table_ok {} c" and n: "counts_ok {} c" and so: "slots_ok c" and p: "pins_ok {} c" using k by (simp_all add: core_ok_def)
  note f = complete_locked_fields [OF s(1), of v err]
  let ?sl = "completed_slot sl v err"
  have sl: "slot_ok (pc_generation_counter c) sl" using so s(1) by (simp add: slots_ok_def)
  then have sl': "slot_ok (pc_generation_counter c) ?sl" using s(2) by (simp add: slot_ok_def completed_slot_def slot_wf_def)
  have pin: "sl_lru_ent sl \<noteq> None" using pins_okD [OF p s(1)] s(2) by simp
  have P: "in_state {} ?d PREFETCH_STATE_PENDING = in_state {} c PREFETCH_STATE_PENDING - {s}"
    using f(1) s by (auto simp: in_state_def completed_slot_def split: if_splits)
  have E: "in_state {} ?d PREFETCH_STATE_ERROR = (if err = DAMACY_OK then in_state {} c PREFETCH_STATE_ERROR else insert s (in_state {} c PREFETCH_STATE_ERROR))"
    using f(1) s by (auto simp: in_state_def completed_slot_def split: if_splits)
  have se: "s \<notin> in_state {} c PREFETCH_STATE_ERROR" and sp: "s \<in> in_state {} c PREFETCH_STATE_PENDING" using s by (auto simp: in_state_def)
  note fin = finite_in_state [OF n]
  have cap: "pc_capacity c \<le> 2 ^ 30" using t by (simp add: table_ok_def)
  have pos: "0 < pc_pending_count c" using n sp fin card_gt_0_iff [of "in_state {} c PREFETCH_STATE_PENDING"] by (auto simp: counts_ok_def)
  have "u64_sub (pc_pending_count c) 1 = pc_pending_count c - 1" using errored_bound(2) [OF k] cap pos by (intro u64_sub_exact) auto
  moreover have "u64_add (pc_errored_count c) 1 = pc_errored_count c + 1" using errored_bound(1) [OF k] cap by (intro u64_add_exact) auto
  ultimately have "counts_ok {} ?d" using n P E se sp fin f(1,4,5) by (auto simp: counts_ok_def)
  moreover have "table_ok {} ?d" by (rule table_put_slot [OF t s(1) _ f(2,1)]) (simp add: completed_slot_def)
  moreover have "slots_ok ?d" by (rule slots_put_slot [OF so s(1) _ sl' f(1)]) (use f(2) in \<open>simp_all add: completed_slot_def same_core_def\<close>)
  moreover have "pins_ok {} ?d" by (rule pins_put_slot [OF p _ f(1)]) (use f(2) pin in \<open>simp_all add: completed_slot_def same_core_def\<close>)
  ultimately show ?thesis by (simp add: core_ok_def)
qed

text \<open>What one operation keeps: the invariant, the gates, and the values up to those that came in.\<close>

definition op_ok :: "(gate \<Rightarrow> nat) \<Rightarrow> ('k, 'v) prefetch_cache \<Rightarrow> 'v list \<Rightarrow> nat \<Rightarrow> ('k, 'v) prefetch_cache \<Rightarrow> bool" where
  "op_ok base c vs n d \<longleftrightarrow> cache_ok d \<and> step_ok c d \<and> gates_ok base d \<and> all_results_of d = all_results_of c + mset vs \<and>
     total_waiters d \<le> total_waiters c + n \<and> pc_generation_counter d \<le> pc_generation_counter c + n"

definition op_pre :: "(gate \<Rightarrow> nat) \<Rightarrow> ('k, 'v) prefetch_cache \<Rightarrow> bool" where
  "op_pre base c \<longleftrightarrow> cache_ok c \<and> gates_ok base c \<and> total_waiters c < 2 ^ 31 \<and> pc_generation_counter c < 2 ^ 31 \<and> (\<forall>g. base g < 2 ^ 62)"

lemma cache_okD:
  assumes "cache_ok c"
  shows "core_ok {} c" "index_holds c" "table_ok {} c" "counts_ok {} c" "slots_ok c" "pins_ok {} c" "finite (dom (pc_slots c))"
  using assms by (simp_all add: cache_ok_def core_ok_def counts_ok_def)

lemma complete_locked_ok:
  assumes pre: "op_pre base c" and s: "pc_slots c s = Some sl" "sl_state sl = PREFETCH_STATE_PENDING"
  shows "op_ok base c (opt_list v) 0 (slot_complete_locked c s v err)" (is "op_ok _ _ _ _ ?d")
proof -
  have ok: "cache_ok c" and g: "gates_ok base c" and small: "total_waiters c < 2 ^ 31" "\<And>g. base g < 2 ^ 62" using pre by (auto simp: op_pre_def)
  note k = cache_okD [OF ok]
  note f = complete_locked_fields [OF s(1), of v err]
  let ?sl = "completed_slot sl v err"
  have empty: "slot_waiters ?sl = []" "sl_n_waiters ?sl = 0" by (simp_all add: slot_waiters_def completed_slot_def)
  have none: "sl_value sl = None" using k(5) s by (auto simp: slots_ok_def slot_ok_def)
  have "cache_ok ?d" using complete_locked_core [OF k(1) s] index_put_slot [OF k(2) s(1) _ _ f(3) _ f(1)] f(2)
    by (auto simp: cache_ok_def completed_slot_def same_core_def)
  moreover have "step_ok c ?d" by (rule step_put_slot [OF s(1) _ f(1)]) (use f(2) s(2) in \<open>auto simp: evolves_def completed_slot_def same_core_def\<close>)
  moreover have w: "waits c g = waits ?d g + count_list (slot_waiters sl) g" for g
    using slot_sum_upd [OF k(7) s(1), of "\<lambda>sl. count_list (slot_waiters sl) g" ?sl] f(1) empty by (simp add: waits_def)
  have "\<exists>e. pc_gates ?d h = gate_word (base h + waits ?d h) e" for h
  proof -
    from g obtain e where "\<forall>g. pc_gates c g = gate_word (base g + waits c g) (e g)" unfolding gates_ok_def by metis
    then have "\<forall>g. pc_gates c g = gate_word ((base g + waits ?d g) + count_list (slot_waiters sl) g) (e g)" by (simp add: w add.assoc)
    moreover have "(base g + waits ?d g) + count_list (slot_waiters sl) g < 2 ^ 63" for g
      using w [of g] waits_le_total [of c g] small(1) small(2) [of g] by simp
    ultimately have "fold (release_waiter (err \<noteq> DAMACY_OK)) (slot_waiters sl) (pc_gates c) h = gate_word (base h + waits ?d h) (e h \<or> err \<noteq> DAMACY_OK \<and> h \<in> set (slot_waiters sl))"
      using release_gates [of "pc_gates c" "\<lambda>g. base g + waits ?d g" "slot_waiters sl" e "err \<noteq> DAMACY_OK" h] by blast
    then show ?thesis unfolding f(7) by blast
  qed
  then have "gates_ok base ?d" by (simp add: gates_ok_def)
  moreover have "all_results_of ?d = all_results_of c + mset (opt_list v)"
    using slot_sum_upd [OF k(7) s(1), of "\<lambda>sl. mset (opt_list (sl_value sl))" ?sl] f(1,6) none by (auto simp: all_results_of_def live_results_def completed_slot_def)
  moreover have "total_waiters ?d \<le> total_waiters c" using slot_sum_upd [OF k(7) s(1), of sl_n_waiters ?sl] f(1) empty by (simp add: total_waiters_def)
  ultimately show ?thesis using f(2) by (simp add: op_ok_def same_core_def)
qed

lemma destroy_value_ok:
  assumes "op_pre base c"
  shows "op_ok base c (opt_list v) 0 (destroy_value c v)"
proof -
  have "op_ok base c vs 0 (c \<lparr>pc_values_destroyed := pc_values_destroyed c @ vs\<rparr>)" for vs
    using assms by (auto simp: op_pre_def op_ok_def cache_ok_def core_defs in_state_def index_holds_def step_ok_def gates_ok_def waits_def
        all_results_of_def live_results_def total_waiters_def intro: evolves_refl)
  from this [of "opt_list v"] show ?thesis by (cases v) (simp_all add: destroy_value_def)
qed

lemma complete_ok:
  assumes "op_pre base c"
  shows "op_ok base c (opt_list v) 0 (prefetch_cache_complete c h v err)"
proof (cases "resolve_handle c h")
  case None
  then show ?thesis using destroy_value_ok [OF assms, of v] by (simp add: prefetch_cache_complete_def)
next
  case (Some s)
  then have "pc_active c ! (ph_slot h - 1) = Some s" "ph_slot h - 1 < pc_capacity c" by (auto simp: resolve_handle_def Let_def split: if_splits option.splits)
  then obtain sl where "pc_slots c s = Some sl"
    using active_iff [of "{}" c "ph_slot h - 1" s] cache_okD(3) assms by (auto simp: op_pre_def)
  then show ?thesis using Some destroy_value_ok [OF assms, of v] complete_locked_ok [OF assms, of s sl v err] by (simp add: prefetch_cache_complete_def)
qed

section \<open>The watermark\<close>

lemma unpin_fields:
  assumes "pc_slots c s = Some sl"
  shows "pc_slots (unpin_slot s c) = (pc_slots c)(s \<mapsto> sl \<lparr>sl_lru_ent := None\<rparr>)" "same_core c (unpin_slot s c)"
    "pc_pending_count (unpin_slot s c) = pc_pending_count c" "pc_errored_count (unpin_slot s c) = pc_errored_count c"
    "pc_gates (unpin_slot s c) = pc_gates c" "pc_values_destroyed (unpin_slot s c) = pc_values_destroyed c"
    "pc_idx (unpin_slot s c) = lru_entry_release (pc_idx c) (sl_lru_ent sl)"
  using assms by (simp_all add: unpin_slot_def same_core_def)

lemma unpin_index:
  assumes h: "index_holds c" and s: "pc_slots c s = Some sl" "sl_lru_ent sl \<noteq> None"
  shows "index_holds (unpin_slot s c)"
proof -
  from index_entry [OF h s(1)] s(2) obtain i where i: "lru_live (pc_idx c) i = Some (sl_key_hash sl, s, Suc 0)" "sl_lru_ent sl = Some i" by auto
  have inv: "lru_inv (pc_idx c)" using h by (simp add: index_holds_def)
  note r = lru_entries.release_ok [OF inv i(1)]
  show ?thesis
    by (rule index_set_pin [OF h s(1) i(1), where m' = 0 and sl' = "sl \<lparr>sl_lru_ent := None\<rparr>" and idx = "lru_release (pc_idx c) i"])
      (use r lru_store.release_room unpin_fields [OF s(1)] i(2) in \<open>auto simp: same_core_def\<close>)
qed

definition stale :: "nat \<Rightarrow> ('k, 'v) prefetch_slot \<Rightarrow> bool" where
  "stale w sl \<longleftrightarrow> sl_state sl \<noteq> PREFETCH_STATE_PENDING \<and> sl_max_owner_id sl < w \<and> sl_lru_ent sl \<noteq> None"

lemma unpin_ok:
  assumes ok: "cache_ok c" and s: "pc_slots c s = Some sl" "stale (pc_watermark c) sl"
  shows "cache_ok (unpin_slot s c)"
proof -
  note k = cache_okD [OF ok] and f = unpin_fields [OF s(1)]
  have "slot_ok (pc_generation_counter c) sl" using k(5) s(1) by (simp add: slots_ok_def)
  then have "slot_ok (pc_generation_counter c) (sl \<lparr>sl_lru_ent := None\<rparr>)" by (simp add: slot_ok_def slot_wf_def)
  then have "core_ok {} (unpin_slot s c)" using s(2) by (intro core_put_slot [OF k(1) s(1) _ _ _ _ _ f(2,1,3,4)]) (simp_all add: stale_def)
  then show ?thesis using unpin_index [OF k(2) s(1)] s(2) by (simp add: cache_ok_def stale_def)
qed

text \<open>What a turn of the loop keeps apart from the invariant.\<close>

definition unpinned :: "('k, 'v) prefetch_slot \<Rightarrow> ('k, 'v) prefetch_slot" where
  "unpinned sl = sl \<lparr>sl_lru_ent := None\<rparr>"

definition pin_frame :: "('k, 'v) prefetch_cache \<Rightarrow> ('k, 'v) prefetch_cache \<Rightarrow> bool" where
  "pin_frame c d \<longleftrightarrow> same_core c d \<and> pc_gates d = pc_gates c \<and> pc_values_destroyed d = pc_values_destroyed c \<and>
     (\<forall>s. map_option unpinned (pc_slots d s) = map_option unpinned (pc_slots c s))"

lemma pin_frame_refl [simp]: "pin_frame c c"
  by (simp add: pin_frame_def same_core_def)

lemma pin_frame_trans: "pin_frame c d \<Longrightarrow> pin_frame d e \<Longrightarrow> pin_frame c e"
  by (simp add: pin_frame_def same_core_def)

lemma pin_frame_unpin: "pc_slots c s = Some sl \<Longrightarrow> pin_frame c (unpin_slot s c)"
  using unpin_fields [of c s sl] by (auto simp: pin_frame_def unpinned_def)

lemma unpinned_fields [simp]:
  "sl_key_hash (unpinned sl) = sl_key_hash sl" "sl_key (unpinned sl) = sl_key sl" "sl_value (unpinned sl) = sl_value sl" "sl_state (unpinned sl) = sl_state sl"
  "sl_err (unpinned sl) = sl_err sl" "sl_max_owner_id (unpinned sl) = sl_max_owner_id sl" "sl_generation (unpinned sl) = sl_generation sl"
  "sl_n_waiters (unpinned sl) = sl_n_waiters sl" "sl_active_idx (unpinned sl) = sl_active_idx sl" "slot_waiters (unpinned sl) = slot_waiters sl"
  by (simp_all add: unpinned_def slot_waiters_def slot_waiter_def [abs_def])

lemma pin_frame_slot:
  assumes "pin_frame c d" and "pc_slots d s = Some sl'"
  obtains sl where "pc_slots c s = Some sl" and "unpinned sl' = unpinned sl"
  using assms by (cases "pc_slots c s") (auto simp: pin_frame_def dest!: spec [of _ s])

lemma pin_frame_slot':
  assumes "pin_frame c d" and "pc_slots c s = Some sl"
  obtains sl' where "pc_slots d s = Some sl'" and "unpinned sl' = unpinned sl"
  using assms by (auto simp: pin_frame_def dest!: spec [of _ s])

lemma unpinned_eqD:
  assumes "unpinned sl' = unpinned sl"
  shows "sl_key_hash sl' = sl_key_hash sl" "sl_key sl' = sl_key sl" "sl_value sl' = sl_value sl" "sl_state sl' = sl_state sl" "sl_err sl' = sl_err sl"
    "sl_max_owner_id sl' = sl_max_owner_id sl" "sl_generation sl' = sl_generation sl" "sl_n_waiters sl' = sl_n_waiters sl"
    "sl_active_idx sl' = sl_active_idx sl" "slot_waiters sl' = slot_waiters sl"
  using assms unpinned_fields by metis+

lemma pin_frame_sum:
  assumes "pin_frame c d" and "\<And>sl. f (unpinned sl) = f sl"
  shows "slot_sum f (pc_slots d) = slot_sum f (pc_slots c)"
proof -
  have "dom (pc_slots d) = dom (pc_slots c)" using pin_frame_slot [OF assms(1)] pin_frame_slot' [OF assms(1)] by (auto simp: dom_def) metis+
  moreover have "f (slot_at d s) = f (slot_at c s)" if s: "s \<in> dom (pc_slots c)" for s
  proof -
    obtain sl where sl: "pc_slots c s = Some sl" using s by auto
    obtain sl' where "pc_slots d s = Some sl'" "unpinned sl' = unpinned sl" by (rule pin_frame_slot' [OF assms(1) sl])
    then show ?thesis using sl assms(2) [of sl'] assms(2) [of sl] by simp
  qed
  ultimately show ?thesis by (simp add: slot_sum_def)
qed

lemma pin_frame_step:
  assumes "pin_frame c d"
  shows "step_ok c d"
proof -
  have "evolves sl sl'" if "unpinned sl' = unpinned sl" for sl sl' :: "('a, 'b) prefetch_slot" using unpinned_eqD [OF that] by (simp add: evolves_def)
  then show ?thesis using assms pin_frame_slot [OF assms] pin_frame_slot' [OF assms] unfolding step_ok_def pin_frame_def same_core_def by (auto; metis)
qed

lemma advance_loop:
  assumes "cache_ok c" and "pc_watermark c = w" and "set is \<subseteq> {..< pc_capacity c}"
  shows "cache_ok (fold (\<lambda>i c. case pc_active c ! i of None \<Rightarrow> c | Some s \<Rightarrow> if stale w (slot_at c s) then unpin_slot s c else c) is c) \<and>
    pin_frame c (fold (\<lambda>i c. case pc_active c ! i of None \<Rightarrow> c | Some s \<Rightarrow> if stale w (slot_at c s) then unpin_slot s c else c) is c)"
  using assms
proof (induction "is" arbitrary: c)
  case (Cons i "is")
  let ?d = "case pc_active c ! i of None \<Rightarrow> c | Some s \<Rightarrow> if stale w (slot_at c s) then unpin_slot s c else c"
  have "cache_ok ?d \<and> pin_frame c ?d"
  proof (cases "pc_active c ! i")
    case (Some s)
    then obtain sl where "pc_slots c s = Some sl" using active_iff [OF cache_okD(3) [OF Cons.prems(1)], of i s] Cons.prems(3) by auto
    then show ?thesis using Some unpin_ok [OF Cons.prems(1)] pin_frame_unpin Cons.prems(1,2) by auto
  qed (use Cons.prems(1) in simp)
  moreover from this have "pc_watermark ?d = w" "pc_capacity ?d = pc_capacity c" using Cons.prems(2) by (simp_all add: pin_frame_def same_core_def)
  ultimately show ?case using Cons.IH [of ?d] Cons.prems(3) pin_frame_trans by auto
qed simp

lemma advance_ok:
  assumes pre: "op_pre base c"
  shows "op_ok base c [] 0 (prefetch_cache_advance_watermark c w)" (is "op_ok _ _ _ _ ?d")
proof (cases "w \<le> pc_watermark c")
  case True
  then show ?thesis using pre by (simp add: prefetch_cache_advance_watermark_def op_ok_def op_pre_def)
next
  case False
  let ?c = "c \<lparr>pc_watermark := w\<rparr>"
  have k: "cache_ok c" using pre by (simp add: op_pre_def)
  have "cache_ok ?c" using k False by (auto simp: cache_ok_def core_defs in_state_def index_holds_def)
  moreover have "set [0 ..< pc_capacity c] \<subseteq> {..< pc_capacity ?c}" by auto
  ultimately have d: "cache_ok ?d" "pin_frame ?c ?d"
    using False advance_loop [of ?c w "[0 ..< pc_capacity c]", unfolded stale_def] by (simp_all add: prefetch_cache_advance_watermark_def)
  have "step_ok c ?c" using False by (auto simp: step_ok_def)
  then have "step_ok c ?d" using pin_frame_step [OF d(2)] step_ok_trans by blast
  moreover have "waits ?d g = waits c g" "total_waiters ?d = total_waiters c" "live_results ?d = live_results c" for g
    using pin_frame_sum [OF d(2), of "\<lambda>sl. count_list (slot_waiters sl) g"] pin_frame_sum [OF d(2), of sl_n_waiters]
      pin_frame_sum [OF d(2), of "\<lambda>sl. mset (opt_list (sl_value sl))"] by (simp_all add: waits_def total_waiters_def live_results_def)
  ultimately show ?thesis using pre d
    by (simp add: op_ok_def op_pre_def gates_ok_def all_results_of_def pin_frame_def same_core_def)
qed

section \<open>Requests that hit\<close>

lemma live_entry_value:
  assumes "lru_inv idx" and "lru_live idx i = Some (h, s, m)"
  shows "lru_entry_value idx (Some i) = Some s"
proof -
  have "(i, \<lparr>e_hash = h, e_value = Some s, e_refcount = m\<rparr>) \<in> set (recency idx)" using assms by (simp add: lru_live_iff)
  then have "slot_of idx i = \<lparr>e_hash = h, e_value = Some s, e_refcount = m\<rparr>" by (rule recency_indexed [OF assms(1)])
  then show ?thesis by (simp add: lru_entry_value_def)
qed

lemma widen_fields [simp]:
  "sl_key_hash (widen_range o' sl) = sl_key_hash sl" "sl_key (widen_range o' sl) = sl_key sl" "sl_value (widen_range o' sl) = sl_value sl"
  "sl_state (widen_range o' sl) = sl_state sl" "sl_err (widen_range o' sl) = sl_err sl" "sl_generation (widen_range o' sl) = sl_generation sl"
  "sl_n_waiters (widen_range o' sl) = sl_n_waiters sl" "sl_lru_ent (widen_range o' sl) = sl_lru_ent sl" "sl_active_idx (widen_range o' sl) = sl_active_idx sl"
  "sl_max_owner_id (widen_range o' sl) = max (sl_max_owner_id sl) o'" "slot_waiters (widen_range o' sl) = slot_waiters sl" "slot_wf (widen_range o' sl) = slot_wf sl"
  by (auto simp: widen_range_def slot_waiters_def slot_waiter_def [abs_def] slot_wf_def max_def)

text \<open>The state after the range was widened and the slot pinned where it has to be.\<close>

definition touched :: "('k, 'v) prefetch_cache \<Rightarrow> nat \<Rightarrow> nat \<Rightarrow> ('k, 'v) prefetch_slot \<Rightarrow> ('k, 'v) prefetch_slot" where
  "touched c hit owner_id sl =
     (let sl' = widen_range owner_id sl
      in if sl_lru_ent sl = None \<and> pc_watermark c \<le> owner_id then sl' \<lparr>sl_lru_ent := Some hit\<rparr> else sl')"

definition touch :: "('k, 'v) prefetch_cache \<Rightarrow> nat \<Rightarrow> nat \<Rightarrow> nat \<Rightarrow> ('k, 'v) prefetch_cache" where
  "touch c hit owner_id s =
     put_slot (if sl_lru_ent (slot_at c s) = None \<and> pc_watermark c \<le> owner_id then c \<lparr>pc_idx := lru_entry_acquire_locked (pc_idx c) (Some hit)\<rparr> else c)
       s (touched c hit owner_id (slot_at c s))"

lemma touched_fields [simp]:
  "sl_key_hash (touched c i o' sl) = sl_key_hash sl" "sl_key (touched c i o' sl) = sl_key sl" "sl_value (touched c i o' sl) = sl_value sl"
  "sl_state (touched c i o' sl) = sl_state sl" "sl_err (touched c i o' sl) = sl_err sl" "sl_generation (touched c i o' sl) = sl_generation sl"
  "sl_n_waiters (touched c i o' sl) = sl_n_waiters sl" "sl_active_idx (touched c i o' sl) = sl_active_idx sl"
  "sl_max_owner_id (touched c i o' sl) = max (sl_max_owner_id sl) o'"
  "slot_waiters (touched c i o' sl) = slot_waiters sl" "slot_wf (touched c i o' sl) = slot_wf sl"
  by (simp_all add: touched_def Let_def slot_waiters_def slot_waiter_def [abs_def] slot_wf_def widen_range_def max_def)

lemma touched_evolves: "evolves sl (touched c i o' sl)"
  by (simp add: evolves_def)

lemma touch_ok:
  assumes ok: "cache_ok c" and s: "pc_slots c s = Some sl" and i: "lru_live (pc_idx c) hit = Some (h, s, m)"
  shows "cache_ok (touch c hit owner_id s)"
proof -
  note k = cache_okD [OF ok]
  let ?sl = "touched c hit owner_id sl" and ?d = "touch c hit owner_id s"
  have d: "pc_slots ?d = (pc_slots c)(s \<mapsto> ?sl)" "same_core c ?d" "pc_pending_count ?d = pc_pending_count c" "pc_errored_count ?d = pc_errored_count c"
    using s by (simp_all add: touch_def same_core_def)
  have "slot_ok (pc_generation_counter c) sl" using k(5) s by (simp add: slots_ok_def)
  then have sl: "slot_ok (pc_generation_counter c) ?sl" by (simp add: slot_ok_def)
  have "sl_lru_ent ?sl \<noteq> None" if "sl_state ?sl = PREFETCH_STATE_PENDING \<or> pc_watermark c \<le> sl_max_owner_id ?sl"
    using that pins_okD [OF k(6) s] by (auto simp: touched_def Let_def max_def split: if_splits)
  then have core: "core_ok {} ?d" by (intro core_put_slot [OF k(1) s _ _ _ sl _ d(2,1,3,4)]) auto
  have inv: "lru_inv (pc_idx c)" and one: "count (lru_owned (pc_idx c)) s \<le> 1" using k(2) by (auto simp: index_holds_def)
  have ent: "sl_lru_ent sl = None \<and> m = 0 \<or> sl_lru_ent sl = Some hit \<and> m = 1" using index_holdsD [OF k(2) i] s by auto
  have "index_holds ?d"
  proof (cases "sl_lru_ent sl = None \<and> pc_watermark c \<le> owner_id")
    case True
    then have "m = 0" using ent by auto
    note a = lru_entries.acquire_ok [OF inv i [unfolded this]]
    show ?thesis
      by (rule index_set_pin [OF k(2) s i, where m' = 1 and sl' = ?sl and idx = "lru_acquire (pc_idx c) hit"])
        (use a lru_store.acquire_room d True s in \<open>auto simp: same_core_def touch_def touched_def\<close>)
  next
    case False
    then have "sl_lru_ent ?sl = sl_lru_ent sl" "pc_idx ?d = pc_idx c" using s by (auto simp: touched_def touch_def Let_def)
    then show ?thesis by (intro index_put_slot [OF k(2) s _ _ _ _ d(1)]) (use d(2) in \<open>simp_all add: same_core_def\<close>)
  qed
  with core show ?thesis by (simp add: cache_ok_def)
qed

lemma op_ok_gates_only:
  assumes "op_pre base c" and "gates_ok base (c \<lparr>pc_gates := gs\<rparr>)"
  shows "op_ok base c [] 0 (c \<lparr>pc_gates := gs\<rparr>)"
  using assms by (auto simp: op_pre_def op_ok_def cache_ok_def core_defs in_state_def index_holds_def step_ok_def
      all_results_of_def live_results_def total_waiters_def)

lemma op_ok_pre:
  assumes "op_pre base c" and "op_ok base c vs 0 d"
  shows "op_pre base d"
  using assms by (auto simp: op_pre_def op_ok_def)

lemma op_ok_trans:
  assumes "op_ok base c vs n d" and "op_ok base d us m e"
  shows "op_ok base c (vs @ us) (n + m) e"
  using assms step_ok_trans [of c d e] by (auto simp: op_ok_def ac_simps)

lemma touch_op:
  assumes pre: "op_pre base c" and s: "pc_slots c s = Some sl" and i: "lru_live (pc_idx c) hit = Some (h, s, m)"
  shows "op_ok base c [] 0 (touch c hit owner_id s)" (is "op_ok _ _ _ _ ?d")
proof -
  have ok: "cache_ok c" using pre by (simp add: op_pre_def)
  note k = cache_okD [OF ok]
  have d: "pc_slots ?d = (pc_slots c)(s \<mapsto> touched c hit owner_id sl)" "pc_gates ?d = pc_gates c" "pc_values_destroyed ?d = pc_values_destroyed c"
    "pc_capacity ?d = pc_capacity c" "pc_watermark ?d = pc_watermark c" "pc_generation_counter ?d = pc_generation_counter c" using s by (simp_all add: touch_def)
  have "slot_sum f (pc_slots ?d) + f sl = slot_sum f (pc_slots c) + f (touched c hit owner_id sl)" for f :: "('a, 'b) prefetch_slot \<Rightarrow> 'm :: comm_monoid_add"
    unfolding d(1) by (rule slot_sum_upd [OF k(7) s])
  from this [of "\<lambda>sl. count_list (slot_waiters sl) g" for g] this [of sl_n_waiters] this [of "\<lambda>sl. mset (opt_list (sl_value sl))"]
  have "waits ?d g = waits c g" "total_waiters ?d = total_waiters c" "live_results ?d = live_results c" for g
    by (simp_all add: waits_def total_waiters_def live_results_def)
  moreover have "step_ok c ?d" by (rule step_put_slot [OF s touched_evolves d(1,4-6)])
  ultimately show ?thesis using touch_ok [OF ok s i] pre d by (simp add: op_ok_def op_pre_def gates_ok_def all_results_of_def)
qed

lemma gate_inc_dec: "prefetch_gate_dec_pending (gate_inc_pending gs g) g = gs"
  by (cases g) (auto simp: prefetch_gate_dec_pending_def gate_inc_pending_def)

text \<open>Registering a gate with a pending slot.\<close>

definition enlist :: "('k, 'v) prefetch_cache \<Rightarrow> nat \<Rightarrow> gate option \<Rightarrow> ('k, 'v) prefetch_slot \<Rightarrow> ('k, 'v) prefetch_cache" where
  "enlist c s gate sl = put_slot (c \<lparr>pc_gates := gate_inc_pending (pc_gates c) gate\<rparr>) s sl"

lemma enlist_op:
  assumes pre: "op_pre base c" and s: "pc_slots c s = Some sl" "sl_state sl = PREFETCH_STATE_PENDING" and r: "slot_register_waiter ok sl gate = Some sl'"
  shows "op_ok base c [] 1 (enlist c s gate sl')" (is "op_ok _ _ _ _ ?d")
proof -
  have ok: "cache_ok c" and small: "total_waiters c < 2 ^ 31" "\<And>g. base g < 2 ^ 62" and g: "gates_ok base c" using pre by (auto simp: op_pre_def)
  note k = cache_okD [OF ok]
  have sl: "slot_ok (pc_generation_counter c) sl" using k(5) s(1) by (simp add: slots_ok_def)
  have n: "sl_n_waiters sl < 2 ^ 31" using waiters_le_total [OF k(7) s(1)] small(1) by simp
  note reg = register_waiter [OF _ n r]
  have reg: "slot_wf sl'" "same_slot sl sl'" "slot_waiters sl' = slot_waiters sl @ opt_list gate" using sl reg by (auto simp: slot_ok_def opt_list_def split: option.splits)
  note f = reg(2) [unfolded same_slot_def]
  have "length (slot_waiters sl') = sl_n_waiters sl'" "length (slot_waiters sl) = sl_n_waiters sl" by (simp_all add: slot_waiters_def)
  then have cnt: "sl_n_waiters sl' = sl_n_waiters sl + length (opt_list gate)" using reg(3) by simp
  have d: "pc_slots ?d = (pc_slots c)(s \<mapsto> sl')" "same_core c ?d" "pc_idx ?d = pc_idx c" "pc_pending_count ?d = pc_pending_count c"
    "pc_errored_count ?d = pc_errored_count c" "pc_values_destroyed ?d = pc_values_destroyed c" "pc_gates ?d = gate_inc_pending (pc_gates c) gate"
    by (simp_all add: enlist_def same_core_def)
  have "slot_ok (pc_generation_counter c) sl'" using sl reg(1) f s(2) by (simp add: slot_ok_def)
  then have "core_ok {} ?d" using pins_okD [OF k(6) s(1)] s(2) f by (intro core_put_slot [OF k(1) s(1) _ _ _ _ _ d(2,1,4,5)]) auto
  moreover have "index_holds ?d" by (rule index_put_slot [OF k(2) s(1) _ _ d(3) _ d(1)]) (use f d(2) in \<open>simp_all add: same_core_def\<close>)
  moreover have "step_ok c ?d" by (rule step_put_slot [OF s(1) same_slot_evolves [OF reg(2)] d(1)]) (use d(2) in \<open>simp_all add: same_core_def\<close>)
  moreover have sum: "slot_sum F (pc_slots ?d) + F sl = slot_sum F (pc_slots c) + F sl'" for F :: "('a, 'b) prefetch_slot \<Rightarrow> 'm :: comm_monoid_add"
    unfolding d(1) by (rule slot_sum_upd [OF k(7) s(1)])
  have w: "waits ?d h = waits c h + count_list (opt_list gate) h" for h
    using sum [of "\<lambda>sl. count_list (slot_waiters sl) h"] reg(3) by (simp add: waits_def)
  have "\<exists>e. pc_gates ?d h = gate_word (base h + waits ?d h) e" for h
  proof -
    obtain e where e: "pc_gates c h = gate_word (base h + waits c h) e" using g by (auto simp: gates_ok_def)
    have "base h + waits c h + 1 < 2 ^ 63" using waits_le_total [of c h] small(1) small(2) [of h] by simp
    from gate_word_inc [OF this, of e] e show ?thesis unfolding d(7) w
      by (cases gate) (auto simp: gate_inc_pending_def)
  qed
  moreover have "total_waiters ?d \<le> total_waiters c + 1" using sum [of sl_n_waiters] cnt by (cases gate) (simp_all add: total_waiters_def)
  moreover have "live_results ?d = live_results c" using sum [of "\<lambda>sl. mset (opt_list (sl_value sl))"] f by (simp add: live_results_def)
  ultimately show ?thesis using d by (simp add: op_ok_def cache_ok_def gates_ok_def all_results_of_def same_core_def)
qed

lemma resolve_slot:
  assumes "table_ok {} c" and "resolve_handle c h = Some s"
  obtains sl where "pc_slots c s = Some sl" and "sl_generation sl = ph_generation h" and "sl_active_idx sl = ph_slot h - 1"
proof -
  have "pc_active c ! (ph_slot h - 1) = Some s" "ph_slot h - 1 < pc_capacity c" "sl_generation (slot_at c s) = ph_generation h"
    using assms(2) by (auto simp: resolve_handle_def Let_def split: if_splits option.splits)
  then show thesis using active_iff [OF assms(1), of "ph_slot h - 1" s] that by auto
qed

lemma resolve_made:
  assumes "table_ok {} c" and "pc_slots c s = Some sl"
  shows "resolve_handle c (make_handle (sl_active_idx sl) (sl_generation sl)) = Some s"
proof -
  note i = linked_index [OF assms, simplified]
  have "pc_capacity c \<le> 2 ^ 30" using assms(1) by (simp add: table_ok_def)
  then have "u32_add (sl_active_idx sl) 1 = sl_active_idx sl + 1" using i(1) by (intro u32_add_exact) simp
  then show ?thesis using i assms(2) by (simp add: resolve_handle_def make_handle_def)
qed

text \<open>What a request that succeeds gives: a handle of a slot with the key, in whose range the owner is.\<close>

definition serves_request :: "('k \<Rightarrow> 'k \<Rightarrow> bool) \<Rightarrow> ('k, 'v) prefetch_cache \<Rightarrow> nat \<Rightarrow> 'k \<Rightarrow> nat \<Rightarrow> prefetch_request_result \<Rightarrow> bool" where
  "serves_request key_eq c key_hash key owner_id r \<longleftrightarrow>
     (\<exists>s sl. resolve_handle c (rr_handle r) = Some s \<and> pc_slots c s = Some sl \<and> sl_key_hash sl = key_hash \<and> key_eq (sl_key sl) key \<and>
        owner_id \<le> sl_max_owner_id sl)"

lemma handle_served:
  assumes "cache_ok c" and "pc_slots c s = Some sl" and "sl_active_idx sl = sl_active_idx sl'" and "sl_generation sl = sl_generation sl'"
    and "sl_key_hash sl = key_hash" and "key_eq (sl_key sl) key" and "owner_id \<le> sl_max_owner_id sl"
  shows "serves_request key_eq c key_hash key owner_id (handle_result sl')"
  using resolve_made [OF cache_okD(3) [OF assms(1)] assms(2)] assms by (auto simp: serves_request_def handle_result_def)

lemma set_error_gates:
  assumes "gates_ok base c"
  shows "gates_ok base (c \<lparr>pc_gates := prefetch_gate_set_error (pc_gates c) gate\<rparr>)"
  using assms by (cases gate) (auto simp: gates_ok_def prefetch_gate_set_error_def waits_def, metis gate_word_error)

lemma request_hit_unfold:
  assumes inv: "lru_inv (pc_idx c)" and i: "lru_live (pc_idx c) hit = Some (h, s, m)" and s: "pc_slots c s = Some sl"
  shows "request_hit ok c hit owner_id gate =
    (let d = touch c hit owner_id s; sl = touched c hit owner_id sl
     in case sl_state sl of
          PREFETCH_STATE_PENDING \<Rightarrow>
            (case slot_register_waiter ok sl gate of
               None \<Rightarrow> (d, request_failed DAMACY_OOM)
             | Some sl' \<Rightarrow> (enlist d s gate sl', handle_result sl'))
        | PREFETCH_STATE_ERROR \<Rightarrow> (d \<lparr>pc_gates := prefetch_gate_set_error (pc_gates d) gate\<rparr>, handle_result sl)
        | PREFETCH_STATE_READY \<Rightarrow> (d, handle_result sl))"
proof -
  have "prefetch_gate_dec_pending (gate_inc_pending gs gate) gate = gs" for gs by (rule gate_inc_dec)
  then show ?thesis using live_entry_value [OF inv i] s
    by (auto simp: request_hit_def touch_def touched_def enlist_def Let_def put_slot_def split: option.splits prefetch_state.splits)
qed

lemma request_hit_ok:
  assumes pre: "op_pre base c" and i: "lru_live (pc_idx c) hit = Some (h, s, m)" and s: "pc_slots c s = Some sl"
    and eq: "key_eq (sl_key sl) key" and r: "request_hit ok c hit owner_id gate = (d, r)"
  shows "op_ok base c [] 1 d" and "rr_status r \<in> {DAMACY_OK, DAMACY_OOM}" and "rr_status r = DAMACY_OK \<Longrightarrow> serves_request key_eq d h key owner_id r"
proof -
  have okc: "cache_ok c" using pre by (simp add: op_pre_def)
  note k = cache_okD [OF okc]
  have inv: "lru_inv (pc_idx c)" using k(2) by (simp add: index_holds_def)
  have h: "sl_key_hash sl = h" using index_holdsD [OF k(2) i] s by auto
  let ?t = "touch c hit owner_id s" and ?sl = "touched c hit owner_id sl"
  have t: "op_ok base c [] 0 ?t" by (rule touch_op [OF pre s i])
  note tp = op_ok_pre [OF pre t]
  have ts: "pc_slots ?t s = Some ?sl" using s by (simp add: touch_def)
  have mono: "op_ok base c [] 1 e" if "op_ok base c [] 0 e" for e using that by (auto simp: op_ok_def)
  have served: "serves_request key_eq e h key owner_id (handle_result ?sl)" if "cache_ok e" "pc_slots e s = Some ?sl" for e
    by (rule handle_served [OF that]) (use eq h in simp_all)
  have "op_ok base c [] 1 d \<and> rr_status r \<in> {DAMACY_OK, DAMACY_OOM} \<and> (rr_status r = DAMACY_OK \<longrightarrow> serves_request key_eq d h key owner_id r)"
  proof (cases "sl_state sl")
    case PREFETCH_STATE_PENDING
    show ?thesis
    proof (cases "slot_register_waiter ok ?sl gate")
      case None
      then show ?thesis using r mono [OF t] PREFETCH_STATE_PENDING unfolding request_hit_unfold [OF inv i s] by (auto simp: request_failed_def)
    next
      case (Some sl')
      then have d: "d = enlist ?t s gate sl'" "r = handle_result sl'" using r PREFETCH_STATE_PENDING unfolding request_hit_unfold [OF inv i s] by auto
      have e: "op_ok base ?t [] 1 d" unfolding d by (rule enlist_op [OF tp ts _ Some]) (use PREFETCH_STATE_PENDING in simp)
      have n: "sl_n_waiters ?sl < 2 ^ 31" "slot_wf ?sl" using waiters_le_total [OF k(7) s] pre k(5) s by (auto simp: op_pre_def slots_ok_def slot_ok_def)
      note same = register_waiter [OF n(2,1) Some, unfolded same_slot_def]
      have "serves_request key_eq d h key owner_id r" unfolding d(2)
        by (rule handle_served [of d s sl']) (use e d(1) eq h same in \<open>auto simp: op_ok_def enlist_def\<close>)
      moreover have "rr_status r = DAMACY_OK" by (simp add: d handle_result_def)
      ultimately show ?thesis using op_ok_trans [OF t e] by simp
    qed
  next
    case PREFETCH_STATE_READY
    then have "d = ?t" "r = handle_result ?sl" using r unfolding request_hit_unfold [OF inv i s] by auto
    then show ?thesis using mono [OF t] served [of ?t] t ts by (auto simp: op_ok_def handle_result_def)
  next
    case PREFETCH_STATE_ERROR
    then have d: "d = ?t \<lparr>pc_gates := prefetch_gate_set_error (pc_gates ?t) gate\<rparr>" "r = handle_result ?sl" using r unfolding request_hit_unfold [OF inv i s] by (auto simp: Let_def)
    have "op_ok base ?t [] 0 d" unfolding d using tp by (intro op_ok_gates_only set_error_gates) (simp_all add: op_pre_def)
    from op_ok_trans [OF t this] mono have e: "op_ok base c [] 1 d" by simp
    then show ?thesis using served [of d] ts d by (auto simp: op_ok_def handle_result_def)
  qed
  then show "op_ok base c [] 1 d" "rr_status r \<in> {DAMACY_OK, DAMACY_OOM}" "rr_status r = DAMACY_OK \<Longrightarrow> serves_request key_eq d h key owner_id r" by auto
qed

end
