(* ===== verification/Prefetch_Cache_Request.thy ===== *)
theory Prefetch_Cache_Request
  imports Prefetch_Cache_Correct
begin

text \<open>
  Requests to the cache of metadata that find no slot, and the runs of the cache: a new slot enters the index, the slots that
  the index drops for it are destroyed, and the new slot is linked into the table of handles. The properties of the cache hold
  along every run of requests, completions and advances from \<open>prefetch_cache_create\<close>.
\<close>

section \<open>Requests that miss\<close>

lemma index_cong:
  assumes "index_holds c" and "lru_inv idx" and "lru_live idx = lru_live (pc_idx c)" and "lru_owned idx = lru_owned (pc_idx c)" and "lru_capacity idx = lru_capacity (pc_idx c)"
  shows "index_holds (c \<lparr>pc_idx := idx\<rparr>)"
  using assms by (simp add: index_holds_def)

lemma op_pre_index:
  assumes "op_pre base c" and "lru_inv idx" and "lru_live idx = lru_live (pc_idx c)" and "lru_owned idx = lru_owned (pc_idx c)" and "lru_capacity idx = lru_capacity (pc_idx c)"
  shows "op_ok base c [] 0 (c \<lparr>pc_idx := idx\<rparr>)"
  using assms index_cong [OF _ assms(2-5)] by (auto simp: op_pre_def op_ok_def cache_ok_def core_defs in_state_def step_ok_def gates_ok_def waits_def
      all_results_of_def live_results_def total_waiters_def)

text \<open>Putting a new slot into the index: what is destroyed was not pinned, or is the new slot when there is no room for it.\<close>

lemma index_put:
  assumes h: "index_holds c" and s: "pc_slots c s = None" and p: "lru_put eq (pc_idx c) key_hash key (Some s) = Some (idx, r)"
  obtains ds where "lru_destroyed idx = lru_destroyed (pc_idx c) @ ds" and "distinct ds" and "s \<in> set ds \<longleftrightarrow> r = None"
    and "\<forall>d \<in> set ds. d = s \<or> (\<exists>sl. pc_slots c d = Some sl \<and> sl_lru_ent sl = None)"
    and "set_mset (lru_owned idx) = insert s (dom (pc_slots c)) - set ds" and "\<forall>t. count (lru_owned idx) t \<le> 1" and "lru_inv idx"
    and "lru_capacity idx = pc_capacity c"
    and "\<And>j h' t m. lru_live idx j = Some (h', t, m) \<Longrightarrow> r = Some j \<and> h' = key_hash \<and> t = s \<and> m = 0 \<or> t \<noteq> s \<and> lru_live (pc_idx c) j = Some (h', t, m)"
    and "\<And>j. r = Some j \<Longrightarrow> lru_live idx j = Some (key_hash, s, 0)"
proof -
  let ?i = "pc_idx c"
  have inv: "lru_inv ?i" and cap: "lru_capacity ?i = pc_capacity c" and one: "\<forall>t. count (lru_owned ?i) t \<le> 1" and dom: "set_mset (lru_owned ?i) = dom (pc_slots c)"
    using h by (auto simp: index_holds_def)
  have new: "s \<notin># lru_owned ?i" using s dom by (simp only: dom) auto
  obtain ds where ds: "lru_destroyed idx = lru_destroyed ?i @ ds" "distinct ds" "set ds \<inter> set_mset (lru_owned idx) = {}"
    "set ds \<union> set_mset (lru_owned idx) = insert s (set_mset (lru_owned ?i))" "\<forall>t. count (lru_owned idx) t \<le> 1"
    by (rule lru_entries.put_fresh [OF inv p one new])
  obtain t' r' where "lru_put_value eq ?i key_hash key s = Some (t', r')" and "lru_inv t'"
    "\<forall>j e. lru_live t' j = Some e \<and> r' \<noteq> Some j \<longrightarrow> lru_live ?i j = Some e" "\<forall>j. r' = Some j \<longrightarrow> lru_live t' j = Some (key_hash, s, 0)"
    using lru_entries.put_ok [OF inv, of eq key_hash key s] by blast
  moreover from this(1) p have "t' = idx" "r' = r" by simp_all
  ultimately have t: "lru_inv idx" "\<forall>j e. lru_live idx j = Some e \<and> r \<noteq> Some j \<longrightarrow> lru_live ?i j = Some e"
    "\<forall>j. r = Some j \<longrightarrow> lru_live idx j = Some (key_hash, s, 0)" by blast+
  have owned: "t \<in># lru_owned idx \<longleftrightarrow> (\<exists>j h' m. lru_live idx j = Some (h', t, m))" for t using lru_entries.live_owned [OF t(1)] by blast
  have old: "t \<in># lru_owned ?i" if "lru_live ?i j = Some (h', t, m)" for t j h' m using lru_entries.live_owned [OF inv] that by blast
  have live: "r = Some j \<and> h' = key_hash \<and> t = s \<and> m = 0 \<or> t \<noteq> s \<and> lru_live ?i j = Some (h', t, m)" if l: "lru_live idx j = Some (h', t, m)" for j h' t m
  proof (cases "r = Some j")
    case True
    then show ?thesis using t(3) l by auto
  next
    case False
    then have "lru_live ?i j = Some (h', t, m)" using t(2) l by blast
    then show ?thesis using old new by blast
  qed
  have "s \<in># lru_owned idx \<longleftrightarrow> r \<noteq> None"
  proof
    assume "s \<in># lru_owned idx"
    then show "r \<noteq> None" using owned live by blast
  next
    assume "r \<noteq> None"
    then obtain j where "lru_live idx j = Some (key_hash, s, 0)" using t(3) by auto
    then show "s \<in># lru_owned idx" using owned by blast
  qed
  then have s_iff: "s \<in> set ds \<longleftrightarrow> r = None" using ds(3,4) by blast
  have unpinned: "d = s \<or> (\<exists>sl. pc_slots c d = Some sl \<and> sl_lru_ent sl = None)" if d: "d \<in> set ds" for d
  proof (cases "d = s")
    case False
    then have "d \<in># lru_owned ?i" using ds(4) d by blast
    then obtain sl where sl: "pc_slots c d = Some sl" using dom by blast
    obtain i where i: "lru_live ?i i = Some (sl_key_hash sl, d, if sl_lru_ent sl = None then 0 else 1)" by (rule index_entry [OF h sl])
    have "sl_lru_ent sl = None"
    proof (rule ccontr)
      assume "sl_lru_ent sl \<noteq> None"
      then have "lru_live ?i i = Some (sl_key_hash sl, d, Suc 0)" using i by simp
      from lru_entries.put_keeps_pinned(2) [OF inv p this] show False using ds(3) d by blast
    qed
    with sl show ?thesis by blast
  qed simp
  have "set_mset (lru_owned idx) = insert s (dom (pc_slots c)) - set ds" using ds(3,4) dom by blast
  moreover have "lru_capacity idx = pc_capacity c" using lru_store.put_room [OF inv p] cap by simp
  ultimately show thesis using ds s_iff unpinned t(1,3) live by (intro that) auto
qed

text \<open>The state with the new slot, before the index knows it.\<close>

definition with_new :: "('k, 'v) prefetch_cache \<Rightarrow> nat \<Rightarrow> nat \<Rightarrow> 'k \<Rightarrow> nat \<Rightarrow> ('k, 'v) prefetch_cache" where
  "with_new c s key_hash key owner_id =
     put_slot (c \<lparr>pc_generation_counter := u32_add (pc_generation_counter c) 1\<rparr>) s (new_slot c key_hash key owner_id)"

lemma with_new_fields:
  assumes "pc_generation_counter c < 2 ^ 31"
  shows "pc_slots (with_new c s h k o') = (pc_slots c)(s \<mapsto> new_slot c h k o')" "pc_generation_counter (with_new c s h k o') = pc_generation_counter c + 1"
    "sl_generation (new_slot c h k o') = pc_generation_counter c + 1" "pc_idx (with_new c s h k o') = pc_idx c" "pc_gates (with_new c s h k o') = pc_gates c"
    "pc_watermark (with_new c s h k o') = pc_watermark c" "pc_capacity (with_new c s h k o') = pc_capacity c"
    "pc_values_destroyed (with_new c s h k o') = pc_values_destroyed c"
  using assms by (simp_all add: with_new_def new_slot_def u32_add_def)

lemma with_new_core:
  assumes ok: "core_ok {} c" and s: "pc_slots c s = None" and g: "pc_generation_counter c < 2 ^ 31"
  shows "core_ok {s} (with_new c s h k o')" (is "core_ok _ ?d")
proof -
  note f = with_new_fields [OF g]
  let ?sl = "new_slot c h k o'"
  have sl: "sl_active_idx ?sl = ACTIVE_IDX_UNLINKED" "sl_n_waiters ?sl = 0" "sl_value ?sl = None" "slot_wf ?sl" "sl_state ?sl = PREFETCH_STATE_PENDING"
    by (simp_all add: new_slot_def slot_wf_def)
  have t: "table_ok {} c" and n: "counts_ok {} c" and so: "slots_ok c" and p: "pins_ok {} c" using ok by (simp_all add: core_ok_def)
  have "(\<exists>sl. pc_slots ?d t = Some sl \<and> t \<notin> {s} \<and> sl_active_idx sl = i) \<longleftrightarrow> (\<exists>sl. pc_slots c t = Some sl \<and> t \<notin> {} \<and> sl_active_idx sl = i)" for t i
    using s by (cases "t = s") (auto simp: f(1))
  then have "table_ok {s} ?d" using t sl(1-3) unfolding table_ok_def by (simp add: with_new_def)
  moreover have "in_state {s} ?d st = in_state {} c st" for st using s by (auto simp: in_state_def f(1))
  then have "counts_ok {s} ?d" using n f(1) by (simp add: counts_ok_def) (simp add: with_new_def)
  moreover have "slots_ok ?d"
  proof -
    have old: "slot_ok (pc_generation_counter c) sl'" if "pc_slots c t = Some sl'" for t sl' using so that by (simp add: slots_ok_def)
    have gen: "sl_generation sl' \<le> pc_generation_counter c" if "pc_slots c t = Some sl'" for t sl' using old [OF that] by (simp add: slot_ok_def)
    have uniq: "t = u" if "pc_slots c t = Some sl'" "pc_slots c u = Some ul" "sl_generation sl' = sl_generation ul" for t sl' u ul
      using so that unfolding slots_ok_def by blast
    have "slot_ok (pc_generation_counter ?d) sl'" if "pc_slots ?d t = Some sl'" for t sl'
      using that sl f(1-3) old [of t sl'] by (cases "t = s") (auto simp: slot_ok_def)
    moreover have "t = u" if "pc_slots ?d t = Some sl'" "pc_slots ?d u = Some ul" "sl_generation sl' = sl_generation ul" for t sl' u ul
      using that f(1,3) gen [of t sl'] gen [of u ul] uniq [of t sl' u ul] by (cases "t = s"; cases "u = s") auto
    ultimately show ?thesis unfolding slots_ok_def by blast
  qed
  moreover have "pins_ok {s} ?d" using p f(1,6) by (auto simp: pins_ok_def split: if_splits)
  ultimately show ?thesis by (simp add: core_ok_def)
qed

text \<open>The destroyed slots had no waiters, so sums over the slots only lose what is handed to the destroyer of values.\<close>

lemma sum_unpinned:
  fixes f :: "('k, 'v) prefetch_slot \<Rightarrow> nat"
  assumes "finite (dom m)" and "m s = None" and "distinct ds" and "set ds \<subseteq> insert s (dom m)" and "f sl = 0"
    and "\<And>d dl. d \<in> set ds \<Longrightarrow> m d = Some dl \<Longrightarrow> f dl = 0"
  shows "slot_sum f (\<lambda>t. if t \<in> set ds then None else (m(s \<mapsto> sl)) t) = slot_sum f m"
proof -
  have "(\<Sum>d \<leftarrow> ds. f (the ((m(s \<mapsto> sl)) d))) = 0" using assms(2,4-6) by (auto simp: sum_list_eq_0_iff)
  then show ?thesis using slot_sum_del_all [of "m(s \<mapsto> sl)" ds f] slot_sum_new [OF assms(1,2), of f sl] assms(1,3-5) by auto
qed

lemma sum_values:
  assumes "finite (dom m)" and "m s = None" and "distinct ds" and "set ds \<subseteq> insert s (dom m)" and "sl_value sl = None"
  shows "slot_sum (\<lambda>sl. mset (opt_list (sl_value sl))) m =
    slot_sum (\<lambda>sl. mset (opt_list (sl_value sl))) (\<lambda>t. if t \<in> set ds then None else (m(s \<mapsto> sl)) t) +
    mset (concat (map (\<lambda>d. opt_list (sl_value (the ((m(s \<mapsto> sl)) d)))) ds))"
proof -
  have "mset (concat (map g xs)) = (\<Sum>x \<leftarrow> xs. mset (g x))" for g :: "nat \<Rightarrow> 'b list" and xs by (induction xs) auto
  then show ?thesis using slot_sum_del_all [of "m(s \<mapsto> sl)" ds "\<lambda>sl. mset (opt_list (sl_value sl))"]
      slot_sum_new [OF assms(1,2), of "\<lambda>sl. mset (opt_list (sl_value sl))" sl] assms(1,3-5) by (simp add: opt_list_def)
qed

definition inserted :: "('k, 'v) prefetch_cache \<Rightarrow> nat lru \<Rightarrow> nat \<Rightarrow> nat \<Rightarrow> 'k \<Rightarrow> nat \<Rightarrow> ('k, 'v) prefetch_cache" where
  "inserted c idx s key_hash key owner_id = run_destroys idx (with_new c s key_hash key owner_id)"

lemma step_inserted:
  assumes p: "pins_ok {} c" and s: "pc_slots c s = None" and g: "pc_generation_counter c < 2 ^ 31"
    and d: "pc_slots d = (\<lambda>t. if t \<in> X then None else ((pc_slots c)(s \<mapsto> new_slot c h k o')) t)"
    and X: "\<forall>t \<in> X. t = s \<or> (\<exists>sl. pc_slots c t = Some sl \<and> sl_lru_ent sl = None)"
    and fr: "pc_capacity d = pc_capacity c" "pc_watermark d = pc_watermark c" "pc_generation_counter d = pc_generation_counter c + 1"
  shows "step_ok c d"
proof -
  have "pc_generation_counter c < sl_generation tl' \<or> (\<exists>sl. pc_slots c t = Some sl \<and> evolves sl tl')" if "pc_slots d t = Some tl'" for t tl'
    using that d with_new_fields(3) [OF g] by (cases "t = s") (auto split: if_splits)
  moreover have "\<exists>tl'. pc_slots d t = Some tl' \<and> evolves sl tl'" if t: "pc_slots c t = Some sl" "pc_watermark d \<le> sl_max_owner_id sl" for t sl
  proof -
    have "sl_lru_ent sl \<noteq> None" using pins_okD [OF p t(1)] t(2) fr(2) by simp
    then have "t \<notin> X" using X s t(1) by auto
    then show ?thesis using d t(1) s by auto
  qed
  ultimately show ?thesis using fr by (auto simp: step_ok_def)
qed

lemma inserted_index:
  assumes h: "index_holds c" and s: "pc_slots c s = None" and p: "lru_put eq (pc_idx c) key_hash key (Some s) = Some (idx, r)"
    and d: "pc_slots d = (\<lambda>t. if t \<in> X then None else ((pc_slots c)(s \<mapsto> new_slot c key_hash key o')) t)"
    and X: "set_mset (lru_owned idx) = insert s (dom (pc_slots c)) - X" and fr: "pc_idx d = idx" "pc_capacity d = pc_capacity c"
  shows "index_holds d"
proof -
  have one: "\<forall>t. count (lru_owned idx) t \<le> 1" by (rule index_put [OF h s p]) simp
  have inv: "lru_inv idx" by (rule index_put [OF h s p]) simp
  have cap: "lru_capacity idx = pc_capacity c" by (rule index_put [OF h s p]) simp
  have live: "h' = key_hash \<and> t = s \<and> m = 0 \<or> t \<noteq> s \<and> lru_live (pc_idx c) j = Some (h', t, m)" if "lru_live idx j = Some (h', t, m)" for j h' t m
    by (rule index_put [OF h s p]) (use that in blast)
  have dom: "set_mset (lru_owned idx) = dom (pc_slots d)" using X d by (auto simp: dom_def split: if_splits)
  have "\<exists>sl. pc_slots d t = Some sl \<and> sl_key_hash sl = h' \<and> (sl_lru_ent sl = None \<and> m = 0 \<or> sl_lru_ent sl = Some i \<and> m = 1)"
    if l: "lru_live idx i = Some (h', t, m)" for i h' t m
  proof -
    have "t \<in># lru_owned idx" using lru_entries.live_owned [OF inv] l by blast
    then have t: "pc_slots d t = ((pc_slots c)(s \<mapsto> new_slot c key_hash key o')) t" using X d by auto
    show ?thesis
    proof (cases "t = s")
      case True
      then show ?thesis using t live [OF l] by (simp add: new_slot_def)
    next
      case False
      then have "lru_live (pc_idx c) i = Some (h', t, m)" using live [OF l] by blast
      from index_holdsD [OF h this] show ?thesis using t False by simp
    qed
  qed
  then show ?thesis using one inv cap dom fr by (simp add: index_holds_def)
qed

lemma inserted_ok:
  assumes pre: "op_pre base c" and s: "pc_slots c s = None" and p: "lru_put eq (pc_idx c) key_hash key (Some s) = Some (idx, r)"
    and e: "e = inserted c idx s key_hash key owner_id"
  obtains ds where "set_mset (lru_owned idx) = insert s (dom (pc_slots c)) - set ds" and "s \<in> set ds \<longleftrightarrow> r = None"
    and "pc_slots e = (\<lambda>t. if t \<in> set ds then None else ((pc_slots c)(s \<mapsto> new_slot c key_hash key owner_id)) t)"
    and "core_ok ({s} - set ds) e" and "step_ok c e" and "gates_ok base e" and "all_results_of e = all_results_of c"
    and "total_waiters e = total_waiters c" and "pc_generation_counter e = pc_generation_counter c + 1" and "pc_idx e = idx"
    and "pc_capacity e = pc_capacity c" and "pc_watermark e = pc_watermark c" and "index_holds e"
proof -
  have ok: "cache_ok c" and g: "pc_generation_counter c < 2 ^ 31" and gates: "gates_ok base c" using pre by (simp_all add: op_pre_def)
  note k = cache_okD [OF ok] and f = with_new_fields [OF g]
  let ?sl = "new_slot c key_hash key owner_id" and ?n = "with_new c s key_hash key owner_id"
  have sl: "sl_n_waiters ?sl = 0" "sl_value ?sl = None" "slot_waiters ?sl = []" by (simp_all add: new_slot_def slot_waiters_def)
  obtain ds where ds: "lru_destroyed idx = lru_destroyed (pc_idx c) @ ds" "distinct ds" "s \<in> set ds \<longleftrightarrow> r = None"
    "\<forall>d \<in> set ds. d = s \<or> (\<exists>sl. pc_slots c d = Some sl \<and> sl_lru_ent sl = None)"
    "set_mset (lru_owned idx) = insert s (dom (pc_slots c)) - set ds"
    by (rule index_put [OF k(2) s p])
  let ?m = "?n \<lparr>pc_idx := idx\<rparr>"
  have e': "e = fold lru_slot_destroy ds ?m" using ds(1) f(4) by (simp add: e inserted_def run_destroys_def)
  have m: "core_ok {s} ?m" using with_new_core [OF k(1) s g, of key_hash key owner_id] by (subst core_ok_cong [of ?n]) (auto simp: same_core_def)
  have "\<forall>d \<in> set ds. \<exists>sl. pc_slots ?m d = Some sl \<and> (d \<in> {s} \<or> sl_lru_ent sl = None)" using ds(4) f(1) by auto
  note D = destroy_slots_ok [OF m ds(2) this, folded e']
  have slots: "pc_slots e = (\<lambda>t. if t \<in> set ds then None else ((pc_slots c)(s \<mapsto> ?sl)) t)" using D f(1) by (simp cong: if_cong)
  have fr: "pc_idx e = idx" "pc_capacity e = pc_capacity c" "pc_watermark e = pc_watermark c" "pc_generation_counter e = pc_generation_counter c + 1"
    "pc_gates e = pc_gates c" using D f by (simp_all add: same_frame_def)
  have sub: "set ds \<subseteq> insert s (dom (pc_slots c))" using ds(4) by auto
  have none: "sl_n_waiters dl = 0" if "d \<in> set ds" "pc_slots c d = Some dl" for d dl
  proof -
    have "sl_state dl \<noteq> PREFETCH_STATE_PENDING" using pins_okD [OF k(6) that(2)] ds(4) that s by force
    then show ?thesis using k(5) that(2) by (auto simp: slots_ok_def slot_ok_def)
  qed
  then have none': "slot_waiters dl = []" if "d \<in> set ds" "pc_slots c d = Some dl" for d dl using that by (simp add: slot_waiters_def)
  have total: "total_waiters e = total_waiters c" unfolding total_waiters_def slots
    by (rule sum_unpinned [OF k(7) s ds(2) sub]) (use sl none in auto)
  have "waits e g' = waits c g'" for g' unfolding waits_def slots
    by (rule sum_unpinned [OF k(7) s ds(2) sub]) (use sl none' in auto)
  then have "gates_ok base e" using gates fr(5) by (simp add: gates_ok_def)
  moreover have "all_results_of e = all_results_of c"
    using D f(1,8) sum_values [OF k(7) s ds(2) sub sl(2)] by (simp add: all_results_of_def live_results_def slots)
  moreover have "step_ok c e" by (rule step_inserted [OF k(6) s g slots ds(4)]) (use fr in auto)
  moreover have "index_holds e" by (rule inserted_index [OF k(2) s p slots ds(5) fr(1,2)])
  ultimately show thesis using that [OF ds(5,3) slots] D total fr by blast
qed

text \<open>No room: the new slot itself is destroyed.\<close>

lemma refused_ok:
  assumes pre: "op_pre base c" and s: "pc_slots c s = None" and p: "lru_put eq (pc_idx c) key_hash key (Some s) = Some (idx, None)"
    and miss: "\<forall>i w n. lru_live (pc_idx c) i = Some (key_hash, w, n) \<longrightarrow> \<not> eq w key"
    and e: "e = inserted c idx s key_hash key owner_id"
  shows "op_ok base c [] 1 e" and "\<forall>t tl'. pc_slots e t = Some tl' \<longrightarrow> sl_lru_ent tl' \<noteq> None"
proof -
  have ok: "cache_ok c" using pre by (simp add: op_pre_def)
  note k = cache_okD [OF ok]
  have inv: "lru_inv (pc_idx c)" using k(2) by (simp add: index_holds_def)
  obtain ds where ds: "set_mset (lru_owned idx) = insert s (dom (pc_slots c)) - set ds" "s \<in> set ds"
    "pc_slots e = (\<lambda>t. if t \<in> set ds then None else ((pc_slots c)(s \<mapsto> new_slot c key_hash key owner_id)) t)"
    "core_ok ({s} - set ds) e" "step_ok c e" "gates_ok base e" "all_results_of e = all_results_of c"
    "total_waiters e = total_waiters c" "pc_generation_counter e = pc_generation_counter c + 1" "pc_idx e = idx"
    "pc_capacity e = pc_capacity c" "pc_watermark e = pc_watermark c" and h: "index_holds e"
    by (rule inserted_ok [OF pre s p e]) simp
  have "{s} - set ds = {}" using ds(2) by simp
  then have "cache_ok e" using ds(4) h by (simp add: cache_ok_def)
  then show "op_ok base c [] 1 e" using ds by (simp add: op_ok_def)
  have "sl_lru_ent tl' \<noteq> None" if t: "pc_slots e t = Some tl'" for t tl'
  proof -
    obtain i where "lru_live idx i = Some (sl_key_hash tl', t, if sl_lru_ent tl' = None then 0 else 1)" using index_entry [OF h t] ds(10) by metis
    with lru_entries.put_none [OF inv p miss] have "0 < snd (snd (sl_key_hash tl', t, if sl_lru_ent tl' = None then 0 else 1 :: nat))" by blast
    then show ?thesis by (simp split: if_splits)
  qed
  then show "\<forall>t tl'. pc_slots e t = Some tl' \<longrightarrow> sl_lru_ent tl' \<noteq> None" by blast
qed

text \<open>Room: the new slot is linked at the last free index and pinned.\<close>

definition linked :: "('k, 'v) prefetch_cache \<Rightarrow> nat \<Rightarrow> nat \<Rightarrow> ('k, 'v) prefetch_slot \<Rightarrow> ('k, 'v) prefetch_slot" where
  "linked c s ent sl = sl \<lparr>sl_lru_ent := Some ent, sl_active_idx := pc_free_list c ! (pc_n_free c - 1)\<rparr>"

definition link :: "('k, 'v) prefetch_cache \<Rightarrow> nat \<Rightarrow> nat \<Rightarrow> ('k, 'v) prefetch_cache" where
  "link c s ent = put_slot (c \<lparr>pc_idx := lru_entry_acquire_locked (pc_idx c) (Some ent), pc_n_free := pc_n_free c - 1,
     pc_active := (pc_active c)[pc_free_list c ! (pc_n_free c - 1) := Some s], pc_n_active := u32_add (pc_n_active c) 1,
     pc_pending_count := u64_add (pc_pending_count c) 1\<rparr>) s (linked c s ent (slot_at c s))"

lemma active_slots:
  assumes t: "table_ok X c" and n: "pc_n_free c = 0" and f: "finite (dom (pc_slots c))"
  shows "pc_capacity c \<le> card (dom (pc_slots c) - X)"
proof -
  have "\<forall>i < pc_capacity c. \<exists>s. pc_active c ! i = Some s" using t n by (auto simp: table_ok_def)
  then obtain g where g: "\<forall>i < pc_capacity c. pc_active c ! i = Some (g i)" by metis
  have sl: "\<exists>sl. pc_slots c (g i) = Some sl \<and> g i \<notin> X \<and> sl_active_idx sl = i" if "i < pc_capacity c" for i
    using active_iff [OF t, of i "g i"] g that by simp
  then have "g ` {..< pc_capacity c} \<subseteq> dom (pc_slots c) - X" by fastforce
  moreover have "inj_on g {..< pc_capacity c}" using sl by (intro inj_onI) (metis lessThan_iff option.inject)
  ultimately show ?thesis using card_mono [of "dom (pc_slots c) - X" "g ` {..< pc_capacity c}"] f by (simp add: card_image)
qed

lemma last_free:
  assumes t: "table_ok X c" and n: "0 < pc_n_free c"
  shows "pc_free_list c ! (pc_n_free c - 1) < pc_capacity c" "pc_active c ! (pc_free_list c ! (pc_n_free c - 1)) = None"
    "distinct (take (pc_n_free c - 1) (pc_free_list c))"
    "set (take (pc_n_free c - 1) (pc_free_list c)) = {i. i < pc_capacity c \<and> pc_active c ! i = None} - {pc_free_list c ! (pc_n_free c - 1)}"
proof -
  let ?n = "pc_n_free c - 1" and ?l = "pc_free_list c"
  have len: "?n < length ?l" and d: "distinct (take (pc_n_free c) ?l)"
    and s: "set (take (pc_n_free c) ?l) = {i. i < pc_capacity c \<and> pc_active c ! i = None}" using t n by (auto simp: table_ok_def)
  have "pc_n_free c = Suc ?n" using n by simp
  then have split: "take (pc_n_free c) ?l = take ?n ?l @ [?l ! ?n]" using take_Suc_conv_app_nth [OF len] by metis
  show "?l ! ?n < pc_capacity c" "pc_active c ! (?l ! ?n) = None" using s unfolding split by auto
  show "distinct (take ?n ?l)" using d unfolding split by simp
  show "set (take ?n ?l) = {i. i < pc_capacity c \<and> pc_active c ! i = None} - {?l ! ?n}" using s d unfolding split by auto
qed

lemma link_table:
  assumes t: "table_ok {s} c" and n: "0 < pc_n_free c" and s: "pc_slots c s = Some sl"
  shows "table_ok {} (link c s ent)" (is "table_ok _ ?d")
proof -
  let ?i = "pc_free_list c ! (pc_n_free c - 1)"
  note l = last_free [OF t n]
  have len: "length (pc_active c) = pc_capacity c" "length (pc_free_list c) = pc_capacity c" "pc_capacity c \<le> 2 ^ 30"
    "pc_n_active c + pc_n_free c = pc_capacity c" using t by (simp_all add: table_ok_def)
  have d: "pc_active ?d = (pc_active c)[?i := Some s]" "pc_free_list ?d = pc_free_list c" "pc_n_free ?d = pc_n_free c - 1" "pc_capacity ?d = pc_capacity c"
    "pc_n_active ?d = pc_n_active c + 1" "pc_slots ?d = (pc_slots c)(s \<mapsto> linked c s ent sl)"
    using len s n by (simp_all add: link_def u32_add_def)
  have "i < pc_capacity c \<and> (pc_active c)[?i := Some s] ! i = Some u \<longleftrightarrow>
    (\<exists>ul. ((pc_slots c)(s \<mapsto> linked c s ent sl)) u = Some ul \<and> sl_active_idx ul = i)" for i u
  proof (cases "u = s")
    case True
    have "\<not> (i < pc_capacity c \<and> pc_active c ! i = Some s)" using active_iff [OF t, of i s] by simp
    then show ?thesis using True l(1) len(1) by (auto simp: nth_list_update linked_def)
  next
    case False
    then show ?thesis using active_iff [OF t, of i u] l(1,2) len(1) by (auto simp: nth_list_update)
  qed
  moreover have "{i. i < pc_capacity c \<and> pc_active c ! i = None} - {?i} = {i. i < pc_capacity c \<and> (pc_active c)[?i := Some s] ! i = None}"
    using len(1) l(1) by (auto simp: nth_list_update split: if_splits)
  ultimately show ?thesis using l(3,4) len n unfolding table_ok_def d by simp
qed

lemma link_ok:
  assumes c: "core_ok {s} c" "index_holds c" and s: "pc_slots c s = Some sl" "sl_state sl = PREFETCH_STATE_PENDING"
    and i: "lru_live (pc_idx c) ent = Some (h, s, 0)" and room: "card (dom (pc_slots c) - {s}) < pc_capacity c"
  shows "cache_ok (link c s ent)" (is "cache_ok ?d")
proof -
  have t: "table_ok {s} c" and n: "counts_ok {s} c" and so: "slots_ok c" and p: "pins_ok {s} c" using c(1) by (simp_all add: core_ok_def)
  have fin: "finite (dom (pc_slots c))" using n by (simp add: counts_ok_def)
  have free: "0 < pc_n_free c" using active_slots [OF t _ fin] room by fastforce
  have sl: "sl_n_waiters sl = 0" "sl_value sl = None" using t s(1) by (auto simp: table_ok_def)
  have d: "pc_slots ?d = (pc_slots c)(s \<mapsto> linked c s ent sl)" "pc_generation_counter ?d = pc_generation_counter c" "pc_watermark ?d = pc_watermark c"
    "pc_idx ?d = lru_entry_acquire_locked (pc_idx c) (Some ent)" "pc_capacity ?d = pc_capacity c" "pc_errored_count ?d = pc_errored_count c"
    "pc_pending_count ?d = u64_add (pc_pending_count c) 1" using s by (simp_all add: link_def)
  have l: "sl_state (linked c s ent sl) = PREFETCH_STATE_PENDING" "sl_lru_ent (linked c s ent sl) = Some ent" "sl_key_hash (linked c s ent sl) = sl_key_hash sl"
    "sl_generation (linked c s ent sl) = sl_generation sl" "slot_ok g (linked c s ent sl) = slot_ok g sl" for g
    using s by (simp_all add: linked_def slot_ok_def slot_wf_def)
  have in_st: "in_state {} ?d st = (if st = PREFETCH_STATE_PENDING then insert s (in_state {s} c st) else in_state {s} c st)" for st
    using l(1) by (auto simp: in_state_def d(1))
  have "pc_pending_count c \<le> pc_capacity c" "pc_capacity c \<le> 2 ^ 30" using errored_bound [OF c(1)] t by (auto simp: table_ok_def)
  then have "u64_add (pc_pending_count c) 1 = pc_pending_count c + 1" by (simp add: u64_add_def)
  moreover have "finite (in_state {s} c st)" for st using fin by (rule rev_finite_subset) (auto simp: in_state_def)
  moreover have "s \<notin> in_state {s} c st" for st by (simp add: in_state_def)
  ultimately have "counts_ok {} ?d" using n fin by (simp add: counts_ok_def in_st d)
  moreover have "slots_ok ?d"
  proof -
    have ok: "slot_ok (pc_generation_counter c) sl'" if "pc_slots c t = Some sl'" for t sl' using so that by (simp add: slots_ok_def)
    have uniq: "t = u" if "pc_slots c t = Some sl'" "pc_slots c u = Some ul" "sl_generation sl' = sl_generation ul" for t sl' u ul
      using so that unfolding slots_ok_def by blast
    have old: "\<exists>ol. pc_slots c t = Some ol \<and> sl_generation ol = sl_generation sl'" if "pc_slots ?d t = Some sl'" for t sl'
      using that s(1) l(4) d(1) by (cases "t = s") auto
    have "t = u" if "pc_slots ?d t = Some sl'" "pc_slots ?d u = Some ul" "sl_generation sl' = sl_generation ul" for t sl' u ul
      using old [OF that(1)] old [OF that(2)] that(3) uniq by metis
    moreover have "slot_ok (pc_generation_counter ?d) sl'" if "pc_slots ?d t = Some sl'" for t sl'
      using that ok [of t sl'] ok [OF s(1)] l(5) d(1,2) by (cases "t = s") auto
    ultimately show ?thesis unfolding slots_ok_def by blast
  qed
  moreover have "pins_ok {} ?d" using p l(2) d(1,3) by (auto simp: pins_ok_def)
  ultimately have "core_ok {} ?d" using link_table [OF t free s(1)] by (simp add: core_ok_def)
  moreover have inv: "lru_inv (pc_idx c)" using c(2) by (simp add: index_holds_def)
  have "index_holds ?d"
    by (rule index_set_pin [OF c(2) s(1) i, where m' = 1 and sl' = "linked c s ent sl" and idx = "pc_idx ?d"])
      (use lru_entries.acquire_ok [OF inv i] lru_store.acquire_room l d in simp_all)
  ultimately show ?thesis by (simp add: cache_ok_def)
qed

lemma activate_unfold:
  assumes "pc_slots c s = Some sl" and "sl_n_waiters sl = 0" and "slot_wf sl"
  obtains sl' where "slot_register_waiter False (linked c s ent sl) gate = Some sl'" and "same_slot (linked c s ent sl) sl'"
    and "activate_slot c s ent gate = (enlist (link c s ent) s gate sl', handle_result sl')"
proof -
  have "slot_wf (linked c s ent sl)" "sl_n_waiters (linked c s ent sl) < WAITERS_INLINE" using assms(2,3) by (simp_all add: linked_def slot_wf_def WAITERS_INLINE_def)
  from register_inline [OF this] obtain sl' where r: "slot_register_waiter False (linked c s ent sl) gate = Some sl'" "same_slot (linked c s ent sl) sl'"
    by (cases gate) (auto simp: slot_register_waiter_def same_slot_def)
  show thesis by (rule that [OF r]) (use r(1) assms(1) in \<open>simp add: activate_slot_def enlist_def link_def linked_def Let_def\<close>)
qed

lemma link_op:
  assumes pre: "op_pre base c" and s: "pc_slots c s = None" and p: "lru_put eq (pc_idx c) key_hash key (Some s) = Some (idx, Some ent)"
    and e: "e = inserted c idx s key_hash key owner_id"
  shows "op_ok base c [] 1 (link e s ent)" and "pc_slots e s = Some (new_slot c key_hash key owner_id)"
    and "pc_generation_counter e = pc_generation_counter c + 1" and "total_waiters (link e s ent) = total_waiters c"
proof -
  let ?d = "link e s ent"
  have ok: "cache_ok c" using pre by (simp add: op_pre_def)
  note k = cache_okD [OF ok]
  let ?sl = "new_slot c key_hash key owner_id"
  have inv: "lru_inv (pc_idx c)" and cap: "lru_capacity (pc_idx c) = pc_capacity c" using k(2) by (simp_all add: index_holds_def)
  obtain ds where ds: "set_mset (lru_owned idx) = insert s (dom (pc_slots c)) - set ds" "s \<notin> set ds"
    "pc_slots e = (\<lambda>t. if t \<in> set ds then None else ((pc_slots c)(s \<mapsto> ?sl)) t)"
    "core_ok ({s} - set ds) e" "step_ok c e" "gates_ok base e" "all_results_of e = all_results_of c"
    "total_waiters e = total_waiters c" "pc_generation_counter e = pc_generation_counter c + 1" "pc_idx e = idx"
    "pc_capacity e = pc_capacity c" "pc_watermark e = pc_watermark c" and h: "index_holds e"
    by (rule inserted_ok [OF pre s p e]) simp
  show es: "pc_slots e s = Some ?sl" and gen: "pc_generation_counter e = pc_generation_counter c + 1" using ds(2,3,9) by simp_all
  have live: "lru_live (pc_idx e) ent = Some (key_hash, s, 0)" by (rule index_put [OF k(2) s p]) (simp add: ds(10))
  have dom: "dom (pc_slots e) = set_mset (lru_owned idx)" using h ds(10) by (simp add: index_holds_def)
  have room: "card (dom (pc_slots e) - {s}) < pc_capacity e" using lru_store.put_space [OF inv p] cap dom ds(11) by simp
  have core: "core_ok {s} e" using ds(2,4) by (simp add: Diff_triv)
  have st: "sl_state ?sl = PREFETCH_STATE_PENDING" by (simp add: new_slot_def)
  have okd: "cache_ok ?d" by (rule link_ok [OF core h es st live room])
  have d: "pc_slots ?d = (pc_slots e)(s \<mapsto> linked e s ent ?sl)" "pc_gates ?d = pc_gates e" "pc_values_destroyed ?d = pc_values_destroyed e"
    "pc_generation_counter ?d = pc_generation_counter e" "pc_capacity ?d = pc_capacity e" "pc_watermark ?d = pc_watermark e" using es by (simp_all add: link_def)
  have fin: "finite (dom (pc_slots e))" using core by (simp add: core_ok_def counts_ok_def)
  have same: "slot_sum f (pc_slots ?d) = slot_sum f (pc_slots e)" if "f (linked e s ent ?sl) = f ?sl" for f :: "_ \<Rightarrow> 'x :: cancel_comm_monoid_add"
    using slot_sum_upd [OF fin es, of f "linked e s ent ?sl"] that by (simp add: d(1))
  show total: "total_waiters ?d = total_waiters c" using same [of sl_n_waiters] ds(8) by (simp add: total_waiters_def linked_def)
  have "waits ?d g = waits e g" for g unfolding waits_def by (rule same) (simp add: linked_def slot_waiters_def new_slot_def)
  then have "gates_ok base ?d" using ds(6) d(2) by (simp add: gates_ok_def)
  moreover have "all_results_of ?d = all_results_of c"
    using same [of "\<lambda>sl. mset (opt_list (sl_value sl))"] ds(7) d(3) by (simp add: all_results_of_def live_results_def linked_def)
  moreover have "step_ok c ?d"
  proof -
    have "sl_generation ?sl = pc_generation_counter c + 1" using with_new_fields(3) [of c] pre by (simp add: op_pre_def)
    then show ?thesis using ds(5) d s by (auto simp: step_ok_def linked_def)
  qed
  ultimately show "op_ok base c [] 1 ?d" using okd total d(4) gen by (simp add: op_ok_def)
qed

lemma activated_ok:
  assumes pre: "op_pre base c" and s: "pc_slots c s = None" and p: "lru_put eq (pc_idx c) key_hash key (Some s) = Some (idx, Some ent)"
    and small: "pc_generation_counter c + 1 < 2 ^ 31" and self: "key_eq key key"
    and a: "activate_slot (inserted c idx s key_hash key owner_id) s ent gate = (d, r)"
  shows "op_ok base c [] 2 d" and "serves_request key_eq d key_hash key owner_id r"
    and "\<exists>sl. r = handle_result sl \<and> pc_slots d s = Some sl \<and> sl_state sl = PREFETCH_STATE_PENDING \<and> resolve_handle d (rr_handle r) = Some s"
proof -
  let ?e = "inserted c idx s key_hash key owner_id" and ?sl = "new_slot c key_hash key owner_id"
  note l = link_op [OF pre s p refl [of ?e]]
  have sl: "sl_n_waiters ?sl = 0" "slot_wf ?sl" by (simp_all add: new_slot_def slot_wf_def)
  obtain sl' where sl': "slot_register_waiter False (linked ?e s ent ?sl) gate = Some sl'" "same_slot (linked ?e s ent ?sl) sl'"
    "activate_slot ?e s ent gate = (enlist (link ?e s ent) s gate sl', handle_result sl')"
    by (rule activate_unfold [OF l(2) sl])
  have pre': "op_pre base (link ?e s ent)" using pre l(1,3,4) small by (auto simp: op_pre_def op_ok_def link_def)
  have ls: "pc_slots (link ?e s ent) s = Some (linked ?e s ent ?sl)" using l(2) by (simp add: link_def)
  have st: "sl_state (linked ?e s ent ?sl) = PREFETCH_STATE_PENDING" by (simp add: linked_def new_slot_def)
  have d: "d = enlist (link ?e s ent) s gate sl'" "r = handle_result sl'" using a sl'(3) by simp_all
  have e: "op_ok base (link ?e s ent) [] 1 d" unfolding d by (rule enlist_op [OF pre' ls st sl'(1)])
  show "op_ok base c [] 2 d" using op_ok_trans [OF l(1) e] by (simp add: numeral_2_eq_2)
  have okd: "cache_ok d" using e by (simp add: op_ok_def)
  have ds: "pc_slots d s = Some sl'" by (simp add: d enlist_def)
  have f: "sl_key_hash sl' = key_hash" "sl_key sl' = key" "sl_max_owner_id sl' = owner_id" "sl_state sl' = PREFETCH_STATE_PENDING"
    using sl'(2) by (simp_all add: same_slot_def linked_def new_slot_def)
  show "serves_request key_eq d key_hash key owner_id r" unfolding d(2) by (rule handle_served [OF okd ds]) (use f self in auto)
  have "resolve_handle d (rr_handle r) = Some s" using resolve_made [OF cache_okD(3) [OF okd] ds] by (simp add: d(2) handle_result_def)
  then show "\<exists>sl. r = handle_result sl \<and> pc_slots d s = Some sl \<and> sl_state sl = PREFETCH_STATE_PENDING \<and> resolve_handle d (rr_handle r) = Some s"
    using d(2) ds f(4) by blast
qed

section \<open>Requests\<close>

definition all_pinned :: "('k, 'v) prefetch_cache \<Rightarrow> bool" where
  "all_pinned c \<longleftrightarrow> (\<forall>t sl. pc_slots c t = Some sl \<longrightarrow> sl_lru_ent sl \<noteq> None)"

text \<open>What a request promises: an answer with status OK is a handle of the slot of the key, and the cache is only busy when every
  slot is pinned.\<close>

definition request_post ::
    "(gate \<Rightarrow> nat) \<Rightarrow> ('k \<Rightarrow> 'k \<Rightarrow> bool) \<Rightarrow> ('k, 'v) prefetch_cache \<Rightarrow> nat \<Rightarrow> 'k \<Rightarrow> nat \<Rightarrow> ('k, 'v) prefetch_cache \<Rightarrow> prefetch_request_result \<Rightarrow> bool" where
  "request_post base key_eq c key_hash key owner_id d r \<longleftrightarrow>
     op_ok base c [] 2 d \<and> rr_status r \<in> {DAMACY_OK, DAMACY_OOM, DAMACY_AGAIN} \<and>
     (rr_status r = DAMACY_OK \<longrightarrow> serves_request key_eq d key_hash key owner_id r) \<and> (rr_status r = DAMACY_AGAIN \<longrightarrow> all_pinned d)"

definition fresh_slot :: "request_env \<Rightarrow> ('k, 'v) prefetch_cache \<Rightarrow> bool" where
  "fresh_slot env c \<longleftrightarrow> (case re_slot env of None \<Rightarrow> True | Some s \<Rightarrow> pc_slots c s = None)"

lemma op_ok_mono: "op_ok base c vs n d \<Longrightarrow> n \<le> m \<Longrightarrow> op_ok base c vs m d"
  by (auto simp: op_ok_def)

lemma miss_ok:
  assumes pre: "op_pre base c" and s: "pc_slots c s = None" and small: "pc_generation_counter c + 1 < 2 ^ 31" and self: "key_eq key key"
    and miss: "\<forall>i w n. lru_live (pc_idx c) i = Some (key_hash, w, n) \<longrightarrow> \<not> lru_slot_eq key_eq c w key"
    and eq: "eq = lru_slot_eq key_eq (with_new c s key_hash key owner_id)"
  obtains idx where "lru_put eq (pc_idx c) key_hash key (Some s) = Some (idx, None)"
      and "request_post base key_eq c key_hash key owner_id (inserted c idx s key_hash key owner_id) (request_failed DAMACY_AGAIN)"
  | idx ent d r where "lru_put eq (pc_idx c) key_hash key (Some s) = Some (idx, Some ent)"
      and "activate_slot (inserted c idx s key_hash key owner_id) s ent gate = (d, r)" and "request_post base key_eq c key_hash key owner_id d r"
      and "rr_status r = DAMACY_OK"
proof -
  have ok: "cache_ok c" and g: "pc_generation_counter c < 2 ^ 31" using pre by (simp_all add: op_pre_def)
  note k = cache_okD [OF ok]
  have inv: "lru_inv (pc_idx c)" using k(2) by (simp add: index_holds_def)
  have new: "\<forall>i w n. lru_live (pc_idx c) i = Some (key_hash, w, n) \<longrightarrow> \<not> eq w key"
  proof (intro allI impI)
    fix i w n assume l: "lru_live (pc_idx c) i = Some (key_hash, w, n)"
    then have "w \<noteq> s" using index_holdsD [OF k(2) l] s by auto
    then show "\<not> eq w key" using miss l with_new_fields(1) [OF g] by (auto simp: eq lru_slot_eq_def)
  qed
  obtain idx o' where p: "lru_put eq (pc_idx c) key_hash key (Some s) = Some (idx, o')"
    using lru_entries.put_ok [OF inv, of eq key_hash key s] by blast
  show thesis
  proof (cases o')
    case None
    note f = refused_ok [OF pre s p [unfolded None] new HOL.refl [of "inserted c idx s key_hash key owner_id"]]
    show thesis
      by (rule that(1) [OF p [unfolded None]])
        (use f op_ok_mono [OF f(1), of 2] in \<open>auto simp: request_post_def request_failed_def all_pinned_def\<close>)
  next
    case (Some ent)
    obtain d r where a: "activate_slot (inserted c idx s key_hash key owner_id) s ent gate = (d, r)" by (rule prod.exhaust)
    note f = activated_ok [OF pre s p [unfolded Some] small, of key_eq owner_id gate d r, OF self a]
    have st: "rr_status r = DAMACY_OK" using f(3) by (auto simp: handle_result_def)
    show thesis by (rule that(2) [OF p [unfolded Some] a _ st]) (use f(1,2) st in \<open>simp add: request_post_def\<close>)
  qed
qed

lemma request_locked_ok:
  assumes pre: "op_pre base c" and s: "fresh_slot env c" and small: "pc_generation_counter c + 1 < 2 ^ 31" and self: "key_eq key key"
  obtains d r l where "request_locked key_eq env c key_hash key owner_id gate = Some (d, r, l)" and "request_post base key_eq c key_hash key owner_id d r"
    and "l \<noteq> None \<longrightarrow> rr_status r = DAMACY_OK"
proof -
  have ok: "cache_ok c" using pre by (simp add: op_pre_def)
  note k = cache_okD [OF ok]
  have inv: "lru_inv (pc_idx c)" using k(2) by (simp add: index_holds_def)
  obtain idx o' where get: "lru_get (lru_slot_eq key_eq c) (pc_idx c) key_hash key = (idx, o')" by (rule prod.exhaust)
  note gc = lru_entries.get_ok [OF inv get]
  let ?c = "c \<lparr>pc_idx := idx\<rparr>"
  have room: "lru_capacity idx = lru_capacity (pc_idx c)" using lru_store.get_room [of "lru_slot_eq key_eq c" "pc_idx c" key_hash key] get by simp
  have op0: "op_ok base c [] 0 ?c" using gc room by (intro op_pre_index [OF pre]) auto
  note pre' = op_ok_pre [OF pre op0]
  have lift: "request_post base key_eq c key_hash key owner_id d r" if "request_post base key_eq ?c key_hash key owner_id d r" for d r
    using that op_ok_trans [OF op0, of "[]" 2 d] by (simp add: request_post_def numeral_2_eq_2)
  show thesis
  proof (cases o')
    case (Some hit)
    then obtain w n where l: "lru_live (pc_idx c) hit = Some (key_hash, w, n)" "lru_slot_eq key_eq c w key" using gc by auto
    obtain sl where sl: "pc_slots c w = Some sl" using index_holdsD [OF k(2) l(1)] by blast
    obtain d r where r: "request_hit (re_realloc_ok env) ?c hit owner_id gate = (d, r)" by (rule prod.exhaust)
    have "lru_live (pc_idx ?c) hit = Some (key_hash, w, n)" "pc_slots ?c w = Some sl" "key_eq (sl_key sl) key" using gc l sl by (auto simp: lru_slot_eq_def)
    note f = request_hit_ok [where key_eq = key_eq and key = key, OF pre' this r]
    show thesis by (rule that [of d r None])
      (use f op_ok_mono [OF f(1), of 2] get Some r lift [of d r] in \<open>auto simp: request_locked_def request_post_def\<close>)
  next
    case None
    have failed: "request_post base key_eq c key_hash key owner_id d (request_failed DAMACY_OOM)" if "op_ok base ?c [] 0 d" for d
      by (rule lift) (use op_ok_mono [OF that, of 2] in \<open>simp add: request_post_def request_failed_def\<close>)
    have key_lost: "op_ok base ?c [] 0 (?c \<lparr>pc_keys_destroyed := ks\<rparr>)" for ks
      using pre' by (auto simp: op_pre_def op_ok_def cache_ok_def core_defs in_state_def index_holds_def step_ok_def gates_ok_def waits_def
          all_results_of_def live_results_def total_waiters_def)
    have miss: "\<forall>i w n. lru_live (pc_idx ?c) i = Some (key_hash, w, n) \<longrightarrow> \<not> lru_slot_eq key_eq ?c w key" using gc None by (simp add: lru_slot_eq_def)
    consider "\<not> re_clone_ok env" | "re_clone_ok env" "re_slot env = None" | s where "re_clone_ok env" "re_slot env = Some s" by blast
    then show thesis
    proof cases
      case 1
      then show thesis using failed [of ?c] op0 pre' get None by (intro that [of ?c _ None]) (auto simp: request_locked_def op_ok_def op_pre_def)
    next
      case 2
      then show thesis using failed [OF key_lost] get None by (intro that) (auto simp: request_locked_def Let_def)
    next
      case (3 s')
      then have fr: "pc_slots ?c s' = None" using s by (simp add: fresh_slot_def)
      note unf = request_locked_def Let_def inserted_def with_new_def
      show thesis
      proof (rule miss_ok [OF pre' fr _ self miss HOL.refl, where owner_id = owner_id and gate = gate])
        show "pc_generation_counter ?c + 1 < 2 ^ 31" using small by simp
      qed (use get None 3 lift in \<open>auto simp: unf intro!: that\<close>)
    qed
  qed
qed

end
