(* ===== verification/Prefetch_Cache_Run.thy ===== *)
theory Prefetch_Cache_Run
  imports Prefetch_Cache_Request
begin

text \<open>
  Runs of the cache of metadata: from \<open>prefetch_cache_create\<close>, any sequence of requests, completions and advances of the
  watermark. The properties of the cache are stated over runs: the invariant, what a handle leads to, when a gate opens, when a
  request is refused, and that every value is destroyed once.
\<close>

section \<open>A request with its launch\<close>

lemma resolve_iff:
  assumes "table_ok {} c"
  shows "resolve_handle c h = Some s \<longleftrightarrow>
    (\<exists>sl. pc_slots c s = Some sl \<and> ph_slot h = sl_active_idx sl + 1 \<and> ph_generation h = sl_generation sl)"
proof
  assume r: "resolve_handle c h = Some s"
  obtain sl where "pc_slots c s = Some sl" "sl_generation sl = ph_generation h" "sl_active_idx sl = ph_slot h - 1" by (rule resolve_slot [OF assms r])
  moreover have "ph_slot h \<noteq> 0" using r by (auto simp: resolve_handle_def split: if_splits)
  ultimately show "\<exists>sl. pc_slots c s = Some sl \<and> ph_slot h = sl_active_idx sl + 1 \<and> ph_generation h = sl_generation sl" by auto
next
  assume "\<exists>sl. pc_slots c s = Some sl \<and> ph_slot h = sl_active_idx sl + 1 \<and> ph_generation h = sl_generation sl"
  then obtain sl where sl: "pc_slots c s = Some sl" "ph_slot h = sl_active_idx sl + 1" "ph_generation h = sl_generation sl" by blast
  then show "resolve_handle c h = Some s" using linked_index [OF assms sl(1), simplified] by (simp add: resolve_handle_def)
qed

text \<open>A handle leads to the same slot as long as it leads anywhere, and it does so until the watermark passes the owners of the slot.\<close>

lemma resolve_same:
  assumes c: "cache_ok c" "cache_ok d" and st: "step_ok c d" and h: "resolve_handle c h = Some s" "resolve_handle d h = Some t"
  shows "t = s" and "\<exists>sl tl'. pc_slots c s = Some sl \<and> pc_slots d s = Some tl' \<and> evolves sl tl'"
proof -
  note k = cache_okD [OF c(1)] and k' = cache_okD [OF c(2)]
  obtain sl where sl: "pc_slots c s = Some sl" "ph_generation h = sl_generation sl" using h(1) by (auto simp: resolve_iff [OF k(3)])
  obtain tl' where tl': "pc_slots d t = Some tl'" "ph_generation h = sl_generation tl'" using h(2) by (auto simp: resolve_iff [OF k'(3)])
  have "sl_generation sl \<le> pc_generation_counter c" using k(5) sl(1) by (auto simp: slots_ok_def slot_ok_def)
  then obtain ul where ul: "pc_slots c t = Some ul" "evolves ul tl'" using st tl' sl(2) unfolding step_ok_def by (metis not_less)
  have "sl_generation ul = sl_generation sl" using ul(2) tl'(2) sl(2) by (simp add: evolves_def)
  then show "t = s" using k(5) ul(1) sl(1) unfolding slots_ok_def by blast
  then show "\<exists>sl tl'. pc_slots c s = Some sl \<and> pc_slots d s = Some tl' \<and> evolves sl tl'" using ul tl' by blast
qed

lemma resolve_lives:
  assumes c: "cache_ok c" "cache_ok d" and st: "step_ok c d" and h: "resolve_handle c h = Some s" and w: "pc_watermark d \<le> sl_max_owner_id (slot_at c s)"
  shows "resolve_handle d h = Some s"
proof -
  note k = cache_okD [OF c(1)] and k' = cache_okD [OF c(2)]
  obtain sl where sl: "pc_slots c s = Some sl" "ph_slot h = sl_active_idx sl + 1" "ph_generation h = sl_generation sl" using h by (auto simp: resolve_iff [OF k(3)])
  then obtain tl' where "pc_slots d s = Some tl'" "evolves sl tl'" using st w unfolding step_ok_def by fastforce
  then show ?thesis using sl by (simp add: resolve_iff [OF k'(3)] evolves_def)
qed

lemma serves_step:
  assumes c: "cache_ok c" "cache_ok d" and st: "step_ok c d" and r: "serves_request key_eq c key_hash key owner_id r" and w: "pc_watermark d \<le> owner_id"
  shows "serves_request key_eq d key_hash key owner_id r"
proof -
  obtain s sl where sl: "resolve_handle c (rr_handle r) = Some s" "pc_slots c s = Some sl" "sl_key_hash sl = key_hash" "key_eq (sl_key sl) key"
    "owner_id \<le> sl_max_owner_id sl" using r by (auto simp: serves_request_def)
  have h: "resolve_handle d (rr_handle r) = Some s" using resolve_lives [OF c st sl(1)] sl(2,5) w by simp
  from resolve_same(2) [OF c st sl(1) h] show ?thesis using h sl by (auto simp: serves_request_def evolves_def)
qed

lemma request_ok:
  assumes pre: "op_pre base c" and s: "fresh_slot env c" and small: "total_waiters c + 2 < 2 ^ 31" "pc_generation_counter c + 2 < 2 ^ 31" and self: "key_eq key key"
  obtains d r where "prefetch_cache_request_result key_eq env launch_err c key_hash (Some key) owner_id gate = Some (d, r)"
    and "op_ok base c [] 2 d" and "rr_status r \<in> {DAMACY_OK, DAMACY_OOM, DAMACY_AGAIN}" and "rr_status r = DAMACY_AGAIN \<longrightarrow> all_pinned d"
    and "rr_status r = DAMACY_OK \<and> pc_watermark d \<le> owner_id \<longrightarrow> serves_request key_eq d key_hash key owner_id r"
proof -
  have g: "pc_generation_counter c + 1 < 2 ^ 31" using small(2) by simp
  obtain d r l where l: "request_locked key_eq env c key_hash key owner_id gate = Some (d, r, l)"
    and post: "request_post base key_eq c key_hash key owner_id d r" and ok: "l \<noteq> None \<longrightarrow> rr_status r = DAMACY_OK"
    by (rule request_locked_ok [where key_eq = key_eq and key = key, OF pre s g self])
  have op: "op_ok base c [] 2 d" using post by (simp add: request_post_def)
  show thesis
  proof (cases "l = None \<or> launch_err = None")
    case True
    then show thesis using l post by (intro that [of d r]) (auto simp: prefetch_cache_request_result_def request_post_def split: option.splits)
  next
    case False
    then obtain s' err where f: "l = Some s'" "launch_err = Some err" by auto
    let ?e = "prefetch_cache_complete d (rr_handle r) None err"
    have pre': "op_pre base d" using pre op small by (auto simp: op_pre_def op_ok_def)
    from complete_ok [OF pre', of None] have e: "op_ok base d [] 0 ?e" by simp
    have "cache_ok d" "cache_ok ?e" "step_ok d ?e" using op e by (auto simp: op_ok_def)
    note st = serves_step [OF this]
    show thesis using st [of key_eq key_hash key owner_id r] post ok f l op_ok_trans [OF op e]
      by (intro that [of ?e r]) (auto simp: prefetch_cache_request_result_def request_post_def)
  qed
qed

section \<open>Runs\<close>

text \<open>\<open>pc_run key_eq n vs c d\<close>: \<open>n\<close> requests, and the completions with the values \<open>vs\<close>, lead from \<open>c\<close> to \<open>d\<close>. The slot of a request
  is one that the allocator may return: no slot of the cache.\<close>

inductive pc_run :: "('k \<Rightarrow> 'k \<Rightarrow> bool) \<Rightarrow> nat \<Rightarrow> 'v list \<Rightarrow> ('k, 'v) prefetch_cache \<Rightarrow> ('k, 'v) prefetch_cache \<Rightarrow> bool" for key_eq where
  start: "pc_run key_eq 0 [] c c"
| request: "pc_run key_eq n vs c d \<Longrightarrow> fresh_slot env d \<Longrightarrow>
    prefetch_cache_request_result key_eq env launch_err d key_hash key owner_id gate = Some (e, r) \<Longrightarrow> pc_run key_eq (Suc n) vs c e"
| complete: "pc_run key_eq n vs c d \<Longrightarrow> pc_run key_eq n (vs @ opt_list v) c (prefetch_cache_complete d h v err)"
| advance: "pc_run key_eq n vs c d \<Longrightarrow> pc_run key_eq n vs c (prefetch_cache_advance_watermark d w)"

text \<open>The worker of a fetch is a completion.\<close>

lemma run_worker:
  assumes "pc_run key_eq n vs c d" and "fetch (sl_key (slot_at d s)) = (ok, v, err)"
  shows "pc_run key_eq n (vs @ opt_list v) c (prefetch_fetch_worker fetch d s generation)"
  using complete [OF assms(1)] assms(2) by (simp add: prefetch_fetch_worker_def)

definition refl_keys :: "('k \<Rightarrow> 'k \<Rightarrow> bool) \<Rightarrow> bool" where
  "refl_keys key_eq \<longleftrightarrow> (\<forall>k. key_eq k k)"

lemma run_ok:
  assumes "pc_run key_eq n vs c d" and "op_pre base c" and "total_waiters c + 2 * n < 2 ^ 31" and "pc_generation_counter c + 2 * n < 2 ^ 31" and "refl_keys key_eq"
  shows "op_ok base c vs (2 * n) d \<and> op_pre base d"
  using assms
proof (induction rule: pc_run.induct)
  case (start c)
  then show ?case by (simp add: op_ok_def op_pre_def)
next
  case (request n vs c d env launch_err key_hash key owner_id gate e r)
  then have d: "op_ok base c vs (2 * n) d" "op_pre base d" by simp_all
  have small: "total_waiters d + 2 < 2 ^ 31" "pc_generation_counter d + 2 < 2 ^ 31" using d(1) request.prems by (auto simp: op_ok_def)
  have "op_ok base d [] 2 e"
  proof (cases key)
    case None
    then show ?thesis using request.hyps(3) d by (simp add: prefetch_cache_request_result_def op_ok_def op_pre_def)
  next
    case (Some k)
    have self: "key_eq k k" using request.prems by (simp add: refl_keys_def)
    show ?thesis by (rule request_ok [where key_eq = key_eq and key = k and launch_err = launch_err and key_hash = key_hash and owner_id = owner_id and gate = gate, OF d(2) request.hyps(2) small self]) (use request.hyps(3) Some in simp)
  qed
  then show ?case using op_ok_trans [OF d(1), of "[]" 2 e] small d(2) by (auto simp: op_ok_def op_pre_def)
next
  case (complete n vs c d v h err)
  then have d: "op_ok base c vs (2 * n) d" "op_pre base d" by simp_all
  note e = complete_ok [OF d(2), of v h err]
  from op_ok_trans [OF d(1) e] op_ok_pre [OF d(2) e] show ?case by simp
next
  case (advance n vs c d w)
  then have d: "op_ok base c vs (2 * n) d" "op_pre base d" by simp_all
  note e = advance_ok [OF d(2), of w]
  from op_ok_trans [OF d(1) e] op_ok_pre [OF d(2) e] show ?case by simp
qed

lemma created_ok:
  assumes c: "prefetch_cache_create oks gates cfg = Some c" and cap: "pc_capacity c \<le> 2 ^ 30" and g: "\<forall>g. base g < 2 ^ 62 \<and> gates g = word_of_nat (base g)"
  shows "op_pre base c" and "total_waiters c = 0" and "pc_generation_counter c = 0" and "all_results_of c = {#}" and "pc_watermark c = 0" and "pc_slots c = (\<lambda>s. None)"
proof -
  obtain cf a1 a2 a3 a4 a5 where cf: "cfg = Some cf" "oks = (a1, a2, a3, a4, a5)" using c by (cases cfg; cases oks) (auto simp: prefetch_cache_create_def)
  let ?n = "pcc_capacity cf"
  from c obtain idx where idx: "lru_create a5 ?n (pcc_max_probe cf) = Some idx" and
    d: "pc_idx c = idx" "pc_watermark c = 0" "pc_generation_counter c = 0" "pc_active c = replicate ?n None" "pc_free_list c = map (\<lambda>i. ?n - 1 - i) [0 ..< ?n]"
    "pc_n_free c = ?n" "pc_n_active c = 0" "pc_capacity c = ?n" "pc_pending_count c = 0" "pc_errored_count c = 0" "pc_slots c = (\<lambda>s. None)"
    "pc_gates c = gates" "pc_values_destroyed c = []"
    by (auto simp: prefetch_cache_create_def cf split: if_splits option.splits)
  have a5: "a5" using idx by (auto simp: lru_create_def split: if_splits)
  have r: "lru_rep idx [] (rev [0..<?n]) {}" using lru_create_rep idx a5 cap d(8) by simp
  then have rec: "recency idx = []" using lru_rep_recency by fastforce
  have idx': "lru_inv idx" "lru_capacity idx = ?n" using r idx by (auto simp: lru_inv_def lru_create_def Let_def split: if_splits)
  have sums: "slot_sum f (\<lambda>s. None) = 0" for f :: "('a, 'b) prefetch_slot \<Rightarrow> 'x :: comm_monoid_add" by (simp add: slot_sum_def)
  have "distinct (map (\<lambda>i. ?n - 1 - i) [0 ..< ?n])" by (auto simp: distinct_map inj_on_def)
  moreover have "set (map (\<lambda>i. ?n - 1 - i) [0 ..< ?n]) = {i. i < ?n}"
  proof -
    have "i \<in> (\<lambda>i. ?n - 1 - i) ` {0 ..< ?n}" if "i < ?n" for i using that by (intro image_eqI [of _ _ "?n - 1 - i"]) auto
    then show ?thesis by auto
  qed
  ultimately have "core_ok {} c" using cap by (auto simp: core_defs in_state_def d)
  moreover have "index_holds c" using idx' rec by (simp add: index_holds_def d lru_owned_def live_values_def lru_live_def)
  moreover have "gates_ok base c" using g by (auto simp: gates_ok_def waits_def sums d gate_word_def intro!: exI [of _ False])
  ultimately show "op_pre base c" using g by (simp add: op_pre_def cache_ok_def total_waiters_def sums d)
  show "total_waiters c = 0" "pc_generation_counter c = 0" "all_results_of c = {#}" "pc_watermark c = 0" "pc_slots c = (\<lambda>s. None)"
    by (simp_all add: total_waiters_def all_results_of_def live_results_def sums d)
qed

text \<open>What the cache reaches with \<open>n\<close> requests, fewer than \<open>2 ^ 30\<close> so that no generation repeats. \<open>base\<close> is what the gates count for
  others.\<close>

definition pc_reachable :: "(gate \<Rightarrow> nat) \<Rightarrow> ('k \<Rightarrow> 'k \<Rightarrow> bool) \<Rightarrow> nat \<Rightarrow> 'v list \<Rightarrow> ('k, 'v) prefetch_cache \<Rightarrow> bool" where
  "pc_reachable base key_eq n vs c \<longleftrightarrow> n < 2 ^ 30 \<and> refl_keys key_eq \<and> (\<forall>g. base g < 2 ^ 62) \<and>
     (\<exists>oks cfg c0. prefetch_cache_create oks (\<lambda>g. word_of_nat (base g)) cfg = Some c0 \<and> pc_capacity c0 \<le> 2 ^ 30 \<and> pc_run key_eq n vs c0 c)"

lemma reachable_ok:
  assumes "pc_reachable base key_eq n vs c"
  shows "op_pre base c" and "all_results_of c = mset vs" and "total_waiters c \<le> 2 * n" and "pc_generation_counter c \<le> 2 * n" and "refl_keys key_eq"
proof -
  obtain oks cfg c0 where c0: "prefetch_cache_create oks (\<lambda>g. word_of_nat (base g)) cfg = Some c0" "pc_capacity c0 \<le> 2 ^ 30" "pc_run key_eq n vs c0 c"
    and n: "n < 2 ^ 30" "refl_keys key_eq" "\<forall>g. base g < 2 ^ 62" using assms by (auto simp: pc_reachable_def)
  note z = created_ok [where base = base, OF c0(1,2)]
  have "op_ok base c0 vs (2 * n) c \<and> op_pre base c" using z n by (intro run_ok [OF c0(3)]) auto
  then show "op_pre base c" "all_results_of c = mset vs" "total_waiters c \<le> 2 * n" "pc_generation_counter c \<le> 2 * n" "refl_keys key_eq"
    using z n by (auto simp: op_ok_def)
qed

lemma pc_run_trans: "pc_run key_eq m us d e \<Longrightarrow> pc_run key_eq n vs c d \<Longrightarrow> pc_run key_eq (n + m) (vs @ us) c e"
  by (induction rule: pc_run.induct) (auto intro: pc_run.intros simp flip: append_assoc)

lemma reachable_run: "pc_reachable base key_eq n vs c \<Longrightarrow> pc_run key_eq m us c d \<Longrightarrow> n + m < 2 ^ 30 \<Longrightarrow> pc_reachable base key_eq (n + m) (vs @ us) d"
  unfolding pc_reachable_def using pc_run_trans [of key_eq m us c d] by blast

lemma reachable_step:
  assumes c: "pc_reachable base key_eq n vs c" and run: "pc_run key_eq m us c d" and n: "n + m < 2 ^ 30"
  shows "cache_ok c" and "cache_ok d" and "step_ok c d"
proof -
  note k = reachable_ok [OF c]
  have "op_ok base c us (2 * m) d \<and> op_pre base d" using k n by (intro run_ok [OF run]) auto
  then show "cache_ok c" "cache_ok d" "step_ok c d" using k(1) by (auto simp: op_ok_def op_pre_def)
qed

section \<open>Properties\<close>

text \<open>C19. Whatever sequence of requests, completions and advances of the watermark the cache of metadata goes through, its
  invariant holds: the free list and the table of handles partition the indices, the pending and the errored counters count the
  slots in those states, generations are unique, pending slots and those an owner at or after the watermark asked for are pinned,
  and the index holds exactly the slots, with one reference for each pin.\<close>

theorem prefetch_cache_invariant:
  assumes "pc_reachable base key_eq n vs c"
  shows "cache_ok c"
  using reachable_ok(1) [OF assms] by (simp add: op_pre_def)

text \<open>C10. A handle that a request returned never leads to a slot of another key, whatever the cache goes through afterwards, and
  it leads to a slot as long as the watermark has not passed the owner of the request.\<close>

theorem prefetch_handle_safe:
  assumes c: "pc_reachable base key_eq n vs c" and s: "fresh_slot env c"
    and r: "prefetch_cache_request_result key_eq env launch_err c key_hash (Some key) owner_id gate = Some (d, r)" "rr_status r = DAMACY_OK"
    and w: "pc_watermark d \<le> owner_id" and run: "pc_run key_eq m us d e" and n: "n + m + 1 < 2 ^ 30"
  shows "(pc_watermark e \<le> owner_id \<longrightarrow> resolve_handle e (rr_handle r) \<noteq> None) \<and>
    (\<forall>s. resolve_handle e (rr_handle r) = Some s \<longrightarrow> sl_key_hash (slot_at e s) = key_hash \<and> key_eq (sl_key (slot_at e s)) key)"
proof -
  note k = reachable_ok [OF c]
  have small: "total_waiters c + 2 < 2 ^ 31" "pc_generation_counter c + 2 < 2 ^ 31" and self: "key_eq key key" using k n by (auto simp: refl_keys_def)
  have served: "serves_request key_eq d key_hash key owner_id r"
    by (rule request_ok [where key_eq = key_eq and key = key and launch_err = launch_err and key_hash = key_hash and owner_id = owner_id and gate = gate,
          OF k(1) s small self]) (use r w in simp)
  have "pc_reachable base key_eq (n + 1) (vs @ []) d"
    by (rule reachable_run [OF c]) (use pc_run.request [OF pc_run.start s r(1)] n in auto)
  note st = reachable_step [OF this run]
  have ok: "cache_ok d" "cache_ok e" "step_ok d e" using st n by auto
  obtain t sl where t: "resolve_handle d (rr_handle r) = Some t" "pc_slots d t = Some sl" "sl_key_hash sl = key_hash" "key_eq (sl_key sl) key"
    using served by (auto simp: serves_request_def)
  have "sl_key_hash (slot_at e s') = key_hash \<and> key_eq (sl_key (slot_at e s')) key" if "resolve_handle e (rr_handle r) = Some s'" for s'
    using resolve_same [OF ok t(1) that] t by (auto simp: evolves_def)
  moreover have "resolve_handle e (rr_handle r) \<noteq> None" if "pc_watermark e \<le> owner_id" using serves_step [OF ok served that] by (auto simp: serves_request_def)
  ultimately show ?thesis by blast
qed

text \<open>Once a query of a handle answered with a value or an error, every later query of it gives the same answer while the
  handle leads to a slot.\<close>

theorem prefetch_query_stable:
  assumes c: "pc_reachable base key_eq n vs c" and run: "pc_run key_eq m us c d" and n: "n + m < 2 ^ 30"
    and q: "fst (prefetch_cache_query c h) \<noteq> PREFETCH_STATE_PENDING" and h: "resolve_handle d h \<noteq> None"
  shows "prefetch_cache_query d h = prefetch_cache_query c h"
proof -
  note ok = reachable_step [OF c run n]
  obtain s where s: "resolve_handle c h = Some s" using q by (cases "resolve_handle c h") (auto simp: prefetch_cache_query_def)
  obtain t where t: "resolve_handle d h = Some t" using h by blast
  from resolve_same [OF ok s t] obtain sl tl' where "t = s" "pc_slots c s = Some sl" "pc_slots d s = Some tl'" "evolves sl tl'" by blast
  then show ?thesis using q s t by (simp add: prefetch_cache_query_def evolves_def Let_def)
qed

lemma waits_zero:
  assumes "finite (dom (pc_slots c))"
  shows "waits c g = 0 \<longleftrightarrow> (\<forall>s sl. pc_slots c s = Some sl \<longrightarrow> g \<notin> set (slot_waiters sl))"
  using assms by (force simp: waits_def slot_sum_def count_list_0_iff dom_def)

lemma unat_pending: "p < 2 ^ 63 \<Longrightarrow> unat (word_of_nat p :: 64 word) = p"
  by (simp add: unat_of_nat take_bit_nat_eq_self)

lemma gate_state:
  assumes "pc_reachable base key_eq n vs c"
  shows "prefetch_gate_pending (pc_gates c) (Some g) = base g + waits c g"
    and "prefetch_gate_is_ready (pc_gates c) (Some g) \<longleftrightarrow>
      base g = 0 \<and> (\<forall>s sl. pc_slots c s = Some sl \<and> sl_state sl = PREFETCH_STATE_PENDING \<longrightarrow> g \<notin> set (slot_waiters sl))"
    and "pc_pending_count c = 0 \<Longrightarrow> prefetch_gate_is_ready (pc_gates c) (Some g) \<longleftrightarrow> base g = 0"
proof -
  note r = reachable_ok [OF assms]
  have ok: "cache_ok c" and g: "gates_ok base c" and b: "base g < 2 ^ 62" and t: "total_waiters c < 2 ^ 31" using r(1) by (auto simp: op_pre_def)
  note k = cache_okD [OF ok]
  obtain e where e: "pc_gates c g = gate_word (base g + waits c g) e" using g by (auto simp: gates_ok_def)
  have small: "base g + waits c g < 2 ^ 63" using b t waits_le_total [of c g] by simp
  have unat: "unat (word_of_nat (base g + waits c g) :: 64 word) = base g + waits c g" using small by (rule unat_pending)
  show p: "prefetch_gate_pending (pc_gates c) (Some g) = base g + waits c g"
    using unat by (simp only: prefetch_gate_pending_def e option.case gate_word_pending [OF small])
  have "prefetch_gate_is_ready (pc_gates c) (Some g) \<longleftrightarrow> base g + waits c g = 0"
    using unat by (simp only: prefetch_gate_is_ready_def e option.case gate_word_pending [OF small]) (metis unat_0 unat_eq_zero)
  moreover have pend: "sl_state sl = PREFETCH_STATE_PENDING" if "pc_slots c s = Some sl" "g \<in> set (slot_waiters sl)" for s sl
    using k(5) that by (auto simp: slots_ok_def slot_ok_def slot_waiters_def)
  ultimately show ready: "prefetch_gate_is_ready (pc_gates c) (Some g) \<longleftrightarrow>
      base g = 0 \<and> (\<forall>s sl. pc_slots c s = Some sl \<and> sl_state sl = PREFETCH_STATE_PENDING \<longrightarrow> g \<notin> set (slot_waiters sl))"
    using waits_zero [OF k(7), of g] by auto
  assume "pc_pending_count c = 0"
  then have "in_state {} c PREFETCH_STATE_PENDING = {}" using k(4) finite_in_state [OF k(4)] by (simp add: counts_ok_def)
  then show "prefetch_gate_is_ready (pc_gates c) (Some g) \<longleftrightarrow> base g = 0" using ready by (auto simp: in_state_def)
qed

text \<open>C15. The pending count of a gate is what others added to it and the number of times it waits for a slot; so a gate that
  nothing else holds is open exactly when no pending slot has it among its waiters, and in particular when nothing is pending.\<close>

theorem prefetch_gate_opens:
  assumes "pc_reachable base key_eq n vs c"
  shows "prefetch_gate_pending (pc_gates c) (Some g) = base g + waits c g \<and>
    (prefetch_gate_is_ready (pc_gates c) (Some g) \<longleftrightarrow>
      base g = 0 \<and> (\<forall>s sl. pc_slots c s = Some sl \<and> sl_state sl = PREFETCH_STATE_PENDING \<longrightarrow> g \<notin> set (slot_waiters sl))) \<and>
    (pc_pending_count c = 0 \<longrightarrow> (prefetch_gate_is_ready (pc_gates c) (Some g) \<longleftrightarrow> base g = 0))"
  using gate_state [OF assms] by blast


text \<open>A fetch that fails sets the error of every gate that waits for its slot, and a query of the slot reports the status.\<close>

theorem prefetch_failure_reported:
  assumes c: "pc_reachable base key_eq n vs c" and h: "resolve_handle c h = Some s" and p: "sl_state (slot_at c s) = PREFETCH_STATE_PENDING"
    and err: "err \<noteq> DAMACY_OK" and g: "g \<in> set (slot_waiters (slot_at c s))"
  shows "prefetch_gate_has_error (pc_gates (prefetch_cache_complete c h v err)) (Some g) \<and>
    prefetch_cache_query (prefetch_cache_complete c h v err) h = (PREFETCH_STATE_ERROR, None, err)"
proof -
  have ok: "cache_ok c" and gs: "gates_ok base c" and b: "\<And>g. base g < 2 ^ 62" and t: "total_waiters c < 2 ^ 31"
    using reachable_ok(1) [OF c] by (auto simp: op_pre_def)
  note k = cache_okD [OF ok]
  obtain sl where sl: "pc_slots c s = Some sl" "ph_slot h = sl_active_idx sl + 1" "ph_generation h = sl_generation sl" using h by (auto simp: resolve_iff [OF k(3)])
  let ?d = "slot_complete_locked c s v err" and ?ws = "slot_waiters sl"
  have d: "prefetch_cache_complete c h v err = ?d" using h p by (simp add: prefetch_cache_complete_def)
  note f = complete_locked_fields [OF sl(1), of v err]
  obtain e where e: "\<And>g. pc_gates c g = gate_word (base g + waits c g) (e g)" using gs unfolding gates_ok_def by metis
  have le: "count_list ?ws g \<le> waits c g" for g
    using slot_sum_del [OF k(7) sl(1), of "\<lambda>sl. count_list (slot_waiters sl) g"] by (simp add: waits_def)
  have small: "base g + waits c g < 2 ^ 63" for g using b [of g] t waits_le_total [of c g] by simp
  have "fold (release_waiter True) ?ws (pc_gates c) g = gate_word (base g + waits c g - count_list ?ws g) (e g \<or> True \<and> g \<in> set ?ws)"
    by (rule release_gates [where p = "\<lambda>g. base g + waits c g - count_list ?ws g"]) (use e le small in \<open>auto simp: trans_le_add2\<close>)
  then have "pc_gates ?d g = gate_word (base g + waits c g - count_list ?ws g) True" using f(7) err g sl(1) by simp
  moreover have "base g + waits c g - count_list ?ws g < 2 ^ 63" using small [of g] by simp
  ultimately have "pc_gates ?d g AND GATE_ERROR_BIT = GATE_ERROR_BIT" using gate_word_has_error by simp
  moreover have "GATE_ERROR_BIT \<noteq> 0" using bit_GATE_ERROR_BIT [of 63] by auto
  ultimately have "prefetch_gate_has_error (pc_gates ?d) (Some g)" by (simp add: prefetch_gate_has_error_def)
  moreover have "table_ok {} ?d"
    using complete_ok [OF reachable_ok(1) [OF c], of v h err] by (simp add: d op_ok_def cache_ok_def core_ok_def)
  then have "resolve_handle ?d h = Some s" using sl f(1) by (simp add: resolve_iff completed_slot_def)
  then have "prefetch_cache_query ?d h = (PREFETCH_STATE_ERROR, None, err)" using f(1) err by (simp add: prefetch_cache_query_def completed_slot_def Let_def)
  ultimately show ?thesis by (simp add: d)
qed

section \<open>Destruction\<close>

text \<open>A cache without pending slots, whose owners are all before \<open>w\<close>.\<close>

definition idle :: "nat \<Rightarrow> ('k, 'v) prefetch_cache \<Rightarrow> bool" where
  "idle w c \<longleftrightarrow> cache_ok (c \<lparr>pc_watermark := w\<rparr>) \<and> (\<forall>s sl. pc_slots c s = Some sl \<longrightarrow> sl_state sl \<noteq> PREFETCH_STATE_PENDING \<and> sl_max_owner_id sl < w)"

definition unpinned_slots :: "('k, 'v) prefetch_cache \<Rightarrow> nat set" where
  "unpinned_slots c = {s. \<exists>sl. pc_slots c s = Some sl \<and> sl_lru_ent sl = None}"

definition release_pin :: "nat \<Rightarrow> ('k, 'v) prefetch_cache \<Rightarrow> ('k, 'v) prefetch_cache" where
  "release_pin i c = (case pc_active c ! i of None \<Rightarrow> c | Some s \<Rightarrow> if sl_lru_ent (slot_at c s) \<noteq> None then unpin_slot s c else c)"

lemma idle_later:
  assumes ok: "cache_ok c" and p: "pc_pending_count c = 0"
  obtains w where "idle w c"
proof -
  note k = cache_okD [OF ok]
  have none: "in_state {} c PREFETCH_STATE_PENDING = {}" using p k(4) finite_in_state [OF k(4)] by (simp add: counts_ok_def)
  define w where "w = Suc (pc_watermark c + (\<Sum>s \<in> dom (pc_slots c). sl_max_owner_id (slot_at c s)))"
  have lt: "sl_max_owner_id sl < w" if "pc_slots c s = Some sl" for s sl
    using member_le_sum [of s "dom (pc_slots c)" "\<lambda>s. sl_max_owner_id (slot_at c s)"] k(7) that by (fastforce simp: w_def)
  have pend: "sl_state sl \<noteq> PREFETCH_STATE_PENDING" if "pc_slots c s = Some sl" for s sl using none that by (auto simp: in_state_def)
  have "pins_ok {} (c \<lparr>pc_watermark := w\<rparr>)" unfolding pins_ok_def
  proof (intro allI impI)
    fix s sl assume "pc_slots (c \<lparr>pc_watermark := w\<rparr>) s = Some sl \<and> s \<notin> {} \<and> (sl_state sl = PREFETCH_STATE_PENDING \<or> pc_watermark (c \<lparr>pc_watermark := w\<rparr>) \<le> sl_max_owner_id sl)"
    then show "sl_lru_ent sl \<noteq> None" using lt [of s sl] pend [of s sl] by auto
  qed
  then have "core_ok {} (c \<lparr>pc_watermark := w\<rparr>)" using k(3-5) unfolding core_ok_def table_ok_def counts_ok_def in_state_def slots_ok_def by auto
  moreover have "index_holds (c \<lparr>pc_watermark := w\<rparr>)" using k(2) by (simp add: index_holds_def)
  ultimately show thesis using lt pend by (intro that [of w]) (auto simp: idle_def cache_ok_def)
qed

lemma release_pin_ok:
  assumes "idle w c" and "i < pc_capacity c"
  shows "idle w (release_pin i c) \<and> pin_frame c (release_pin i c) \<and> unpinned_slots c \<subseteq> unpinned_slots (release_pin i c) \<and>
    (\<forall>s. pc_active c ! i = Some s \<longrightarrow> s \<in> unpinned_slots (release_pin i c))"
proof (cases "pc_active c ! i")
  case None
  then show ?thesis using assms(1) by (simp add: release_pin_def)
next
  case (Some s)
  let ?c = "c \<lparr>pc_watermark := w\<rparr>"
  have ok: "cache_ok ?c" and id: "\<And>s sl. pc_slots c s = Some sl \<Longrightarrow> sl_state sl \<noteq> PREFETCH_STATE_PENDING \<and> sl_max_owner_id sl < w"
    using assms(1) by (auto simp: idle_def)
  obtain sl where sl: "pc_slots c s = Some sl" using active_iff [OF cache_okD(3) [OF ok], of i s] Some assms(2) by auto
  show ?thesis
  proof (cases "sl_lru_ent sl = None")
    case True
    then show ?thesis using assms(1) sl Some by (simp add: release_pin_def unpinned_slots_def)
  next
    case False
    have "stale (pc_watermark ?c) sl" using id [OF sl] False by (simp add: stale_def)
    then have "cache_ok (unpin_slot s ?c)" using unpin_ok [OF ok, of s sl] sl by simp
    moreover have "unpin_slot s ?c = (unpin_slot s c) \<lparr>pc_watermark := w\<rparr>" by (simp add: unpin_slot_def)
    ultimately have i: "idle w (unpin_slot s c)" using id sl unpin_fields(1) [OF sl] by (auto simp: idle_def)
    have "pin_frame c (unpin_slot s c)" by (rule pin_frame_unpin [OF sl])
    then show ?thesis using i Some sl False unpin_fields(1) [OF sl] by (auto simp: release_pin_def unpinned_slots_def)
  qed
qed

lemma release_pins_ok:
  assumes "idle w c" and "set is \<subseteq> {..< pc_capacity c}"
  shows "idle w (fold release_pin is c) \<and> pin_frame c (fold release_pin is c) \<and> unpinned_slots c \<subseteq> unpinned_slots (fold release_pin is c) \<and>
    (\<forall>i \<in> set is. \<forall>s. pc_active c ! i = Some s \<longrightarrow> s \<in> unpinned_slots (fold release_pin is c))"
  using assms
proof (induction "is" arbitrary: c)
  case (Cons i "is")
  let ?d = "release_pin i c"
  have d: "idle w ?d" "pin_frame c ?d" "unpinned_slots c \<subseteq> unpinned_slots ?d" "\<forall>s. pc_active c ! i = Some s \<longrightarrow> s \<in> unpinned_slots ?d"
    using release_pin_ok [of w c i] Cons.prems by auto
  have a: "pc_active ?d = pc_active c" "pc_capacity ?d = pc_capacity c" using d(2) by (simp_all add: pin_frame_def same_core_def)
  note IH = Cons.IH [OF d(1)]
  have "set is \<subseteq> {..< pc_capacity ?d}" using Cons.prems(2) a by simp
  note IH = IH [OF this]
  then show ?case using d a pin_frame_trans [OF d(2)] by auto
qed simp

lemma active_remove_watermark: "active_remove (c \<lparr>pc_watermark := w\<rparr>) s = (active_remove c s) \<lparr>pc_watermark := w\<rparr>"
  by (simp add: active_remove_def put_slot_def Let_def)

lemma active_remove_slot: "pc_slots (active_remove c s) s = Some ((slot_at c s) \<lparr>sl_active_idx := ACTIVE_IDX_UNLINKED\<rparr>)"
  by (simp add: active_remove_def put_slot_def Let_def)

lemma release_waiters_watermark: "slot_release_waiters (c \<lparr>pc_watermark := w\<rparr>) s e = (slot_release_waiters c s e) \<lparr>pc_watermark := w\<rparr>"
  by (simp add: slot_release_waiters_def put_slot_def)

lemma destroy_slot_watermark: "lru_slot_destroy s (c \<lparr>pc_watermark := w\<rparr>) = (lru_slot_destroy s c) \<lparr>pc_watermark := w\<rparr>"
proof -
  let ?a = "\<lambda>c. if sl_active_idx (slot_at c s) \<noteq> ACTIVE_IDX_UNLINKED
    then (let c = active_remove c s in case sl_state (slot_at c s) of
        PREFETCH_STATE_PENDING \<Rightarrow> c \<lparr>pc_pending_count := u64_sub (pc_pending_count c) 1\<rparr>
      | PREFETCH_STATE_ERROR \<Rightarrow> c \<lparr>pc_errored_count := u64_sub (pc_errored_count c) 1\<rparr> | PREFETCH_STATE_READY \<Rightarrow> c) else c"
  let ?b = "\<lambda>c. if sl_n_waiters (slot_at c s) \<noteq> 0 then slot_release_waiters c s True else c"
  let ?v = "\<lambda>c. case sl_value (slot_at c s) of None \<Rightarrow> c | Some v \<Rightarrow> c \<lparr>pc_values_destroyed := pc_values_destroyed c @ [v]\<rparr>"
  let ?k = "\<lambda>c. c \<lparr>pc_keys_destroyed := pc_keys_destroyed c @ [sl_key (slot_at c s)]\<rparr>"
  let ?s = "\<lambda>c. c \<lparr>pc_slots := (pc_slots c)(s := None)\<rparr>"
  have u: "lru_slot_destroy s c = ?s (?v (?k (?b (?a c))))" for c :: "('a, 'b) prefetch_cache" unfolding lru_slot_destroy_def Let_def by (rule refl)
  have a: "?a (c \<lparr>pc_watermark := w\<rparr>) = (?a c) \<lparr>pc_watermark := w\<rparr>" for c :: "('a, 'b) prefetch_cache"
    by (cases "sl_state (slot_at c s)") (simp_all add: active_remove_watermark active_remove_slot Let_def)
  have b: "?b (c \<lparr>pc_watermark := w\<rparr>) = (?b c) \<lparr>pc_watermark := w\<rparr>" for c :: "('a, 'b) prefetch_cache" by (simp add: release_waiters_watermark)
  have v: "?v (c \<lparr>pc_watermark := w\<rparr>) = (?v c) \<lparr>pc_watermark := w\<rparr>" for c :: "('a, 'b) prefetch_cache" by (cases "sl_value (slot_at c s)") simp_all
  have k: "?k (c \<lparr>pc_watermark := w\<rparr>) = (?k c) \<lparr>pc_watermark := w\<rparr>" for c :: "('a, 'b) prefetch_cache" by simp
  have s: "?s (c \<lparr>pc_watermark := w\<rparr>) = (?s c) \<lparr>pc_watermark := w\<rparr>" for c :: "('a, 'b) prefetch_cache" by simp
  show ?thesis unfolding u a b k v s by (rule refl)
qed

lemma destroy_watermark: "fold lru_slot_destroy ds (c \<lparr>pc_watermark := w\<rparr>) = (fold lru_slot_destroy ds c) \<lparr>pc_watermark := w\<rparr>"
  by (induction ds arbitrary: c) (simp_all add: destroy_slot_watermark)

lemma distinct_of_count:
  assumes "\<And>a. count (mset xs) a \<le> 1"
  shows "distinct xs"
  using assms
proof (induction xs)
  case (Cons x xs)
  have "count (mset xs) a \<le> 1" for a using Cons.prems [of a] by (simp only: mset.simps count_add_mset split: if_splits)
  moreover have "count (mset xs) x = 0" using Cons.prems [of x] by simp
  ultimately show ?case using Cons.IH by (simp add: count_mset_0_iff)
qed simp

lemma destroy_all:
  assumes "idle w c" and "unpinned_slots c = dom (pc_slots c)"
  shows "\<exists>ds. lru_destroy (pc_idx c) = Some (Inr (lru_destroyed (pc_idx c) @ ds)) \<and> distinct ds \<and> set ds = dom (pc_slots c)"
proof -
  let ?i = "pc_idx c" and ?r = "recency (pc_idx c)"
  have h: "index_holds (c \<lparr>pc_watermark := w\<rparr>)" using assms(1) by (simp add: idle_def cache_ok_def)
  then have inv: "lru_inv ?i" and one: "\<And>s. count (lru_owned ?i) s \<le> 1" and dom: "set_mset (lru_owned ?i) = dom (pc_slots c)" by (auto simp: index_holds_def)
  have "e_refcount e = 0" if ie: "(i, e) \<in> set ?r" for i e
  proof -
    obtain v where "lru_live ?i i = Some (e_hash e, v, e_refcount e)" by (rule recency_entry [OF inv ie])
    with index_holdsD [OF h, of i "e_hash e" v "e_refcount e"] obtain sl where "pc_slots c v = Some sl" "sl_lru_ent sl = None \<and> e_refcount e = 0 \<or> sl_lru_ent sl \<noteq> None" by auto
    moreover from this(1) have "v \<in> unpinned_slots c" using assms(2) by auto
    ultimately show ?thesis by (auto simp: unpinned_slots_def)
  qed
  then have p: "pinned ?r = []" by (auto simp: pinned_def filter_empty_conv)
  let ?ds = "map (\<lambda>ie. the (e_value (snd ie))) ?r"
  have m: "mset ?ds = lru_owned ?i" by (simp add: lru_owned_def live_values_def)
  then have "distinct ?ds" using one by (intro distinct_of_count) (simp only: m)
  moreover have "set ?ds = dom (pc_slots c)" using arg_cong [OF m, of set_mset] dom by simp
  ultimately show ?thesis using lru_destroy_result [OF inv] p by auto
qed

text \<open>C18. Destroying a cache in which no fetch is in flight succeeds: its pins are released, every slot is freed, and over the life
  of the cache every value that a completion delivered was handed to the destroyer of values exactly once.\<close>

theorem prefetch_cache_destroy_complete:
  assumes c: "pc_reachable base key_eq n vs c" and p: "pc_pending_count c = 0"
  shows "\<exists>d. prefetch_cache_destroy c = Some (True, d) \<and> pc_slots d = (\<lambda>s. None) \<and> mset (pc_values_destroyed d) = mset vs"
proof -
  have ok: "cache_ok c" and all: "all_results_of c = mset vs" using reachable_ok [OF c] by (auto simp: op_pre_def)
  obtain w where w: "idle w c" by (rule idle_later [OF ok p])
  let ?d = "fold release_pin [0 ..< pc_capacity c] c"
  have d: "idle w ?d" "pin_frame c ?d" "\<And>i s. i < pc_capacity c \<Longrightarrow> pc_active c ! i = Some s \<Longrightarrow> s \<in> unpinned_slots ?d"
    using release_pins_ok [OF w, of "[0 ..< pc_capacity c]"] by (auto simp: atLeast0LessThan)
  have "unpinned_slots ?d = dom (pc_slots ?d)"
  proof
    show "unpinned_slots ?d \<subseteq> dom (pc_slots ?d)" by (auto simp: unpinned_slots_def)
    show "dom (pc_slots ?d) \<subseteq> unpinned_slots ?d"
    proof
      fix s assume "s \<in> dom (pc_slots ?d)"
      then obtain sl where sl: "pc_slots c s = Some sl" using pin_frame_slot [OF d(2)] by blast
      from linked_index(1,2) [OF cache_okD(3) [OF ok] sl] d(3) show "s \<in> unpinned_slots ?d" by simp
    qed
  qed
  with destroy_all [OF d(1)] obtain ds where ds: "lru_destroy (pc_idx ?d) = Some (Inr (lru_destroyed (pc_idx ?d) @ ds))" "distinct ds" "set ds = dom (pc_slots ?d)"
    and un: "unpinned_slots ?d = dom (pc_slots ?d)" by auto
  let ?e = "fold lru_slot_destroy ds ?d"
  have core: "core_ok {} (?d \<lparr>pc_watermark := w\<rparr>)" using d(1) by (simp add: idle_def cache_ok_def)
  have "\<forall>s \<in> set ds. \<exists>sl. pc_slots (?d \<lparr>pc_watermark := w\<rparr>) s = Some sl \<and> (s \<in> {} \<or> sl_lru_ent sl = None)"
    using un ds(3) by (auto simp: unpinned_slots_def)
  note D = destroy_slots_ok [OF core ds(2) this, unfolded destroy_watermark, simplified]
  have slots: "pc_slots ?e = (\<lambda>s. None)" using D ds(3) by (auto simp: fun_eq_iff)
  have gone: "(\<lambda>s. if s \<in> set ds then None else pc_slots ?d s) = (\<lambda>s. None)" using ds(3) by auto
  have fin: "finite (dom (pc_slots ?d))" using ds(3) by (metis List.finite_set)
  have "slot_sum (\<lambda>sl. mset (opt_list (sl_value sl))) (pc_slots ?d) = (\<Sum>s \<leftarrow> ds. mset (opt_list (sl_value (slot_at ?d s))))"
    using slot_sum_del_all [OF fin ds(2), of "\<lambda>sl. mset (opt_list (sl_value sl))"] ds(3) unfolding gone by (simp add: slot_sum_def)
  moreover have "slot_sum (\<lambda>sl. mset (opt_list (sl_value sl))) (pc_slots ?d) = live_results c" unfolding live_results_def
    by (rule pin_frame_sum [OF d(2)]) simp
  moreover have "pc_values_destroyed ?d = pc_values_destroyed c" using d(2) by (simp add: pin_frame_def)
  ultimately have "mset (pc_values_destroyed ?e) = mset vs" using D all by (simp add: all_results_of_def mset_concat comp_def add.commute)
  moreover have "prefetch_cache_destroy c = Some (True, ?e)"
    using ds(1) by (simp add: prefetch_cache_destroy_def release_pin_def [abs_def] Let_def)
  ultimately show ?thesis using slots by blast
qed

section \<open>Evaluation\<close>

definition pc_demo_env :: "nat \<Rightarrow> request_env" where
  "pc_demo_env s = \<lparr>re_clone_ok = True, re_slot = Some s, re_realloc_ok = True\<rparr>"

definition pc_demo_cfg :: prefetch_cache_config where
  "pc_demo_cfg = \<lparr>pcc_capacity = 1, pcc_max_probe = 1, pcc_ops = True, pcc_fetcher = Some True, pcc_executor = Some True, pcc_async_fetcher = None\<rparr>"

definition pc_demo0 :: "(nat, nat) prefetch_cache" where
  "pc_demo0 = the (prefetch_cache_create (True, True, True, True, True) (\<lambda>g. word_of_nat 0) (Some pc_demo_cfg))"

definition pc_demo_request :: "(nat, nat) prefetch_cache \<Rightarrow> nat \<Rightarrow> nat \<Rightarrow> ((nat, nat) prefetch_cache \<times> prefetch_request_result) option" where
  "pc_demo_request c key s = prefetch_cache_request_result (=) (pc_demo_env s) None c 5 (Some key) 0 (Some 3)"

definition pc_demo1 :: "(nat, nat) prefetch_cache" where "pc_demo1 = fst (the (pc_demo_request pc_demo0 7 100))"

definition pc_demo_result :: prefetch_request_result where "pc_demo_result = \<lparr>rr_handle = \<lparr>ph_slot = 1, ph_generation = 1\<rparr>, rr_status = DAMACY_OK\<rparr>"

definition pc_demo2 :: "(nat, nat) prefetch_cache" where "pc_demo2 = prefetch_cache_complete pc_demo1 (rr_handle pc_demo_result) (Some 42) DAMACY_OK"

text \<open>A second completion of the same fetch.\<close>

definition pc_demo3 :: "(nat, nat) prefetch_cache" where "pc_demo3 = prefetch_cache_complete pc_demo2 (rr_handle pc_demo_result) (Some 9) DAMACY_OK"

definition pc_demo_view :: "(nat, nat) prefetch_cache \<Rightarrow> nat option \<times> (prefetch_state \<times> nat option \<times> damacy_status) \<times> gate list \<times> nat \<times> nat" where
  "pc_demo_view c = (resolve_handle c (rr_handle pc_demo_result), prefetch_cache_query c (rr_handle pc_demo_result), slot_waiters (slot_at c 100),
     pc_watermark c, pc_pending_count c)"

lemma pc_demo0_capacity: "pc_capacity pc_demo0 = 1"
  by code_simp

lemma pc_demo0_created: "prefetch_cache_create (True, True, True, True, True) (\<lambda>g. word_of_nat 0) (Some pc_demo_cfg) = Some pc_demo0"
proof -
  have "prefetch_cache_create (True, True, True, True, True) (\<lambda>g. word_of_nat 0) (Some pc_demo_cfg) \<noteq> (None :: (nat, nat) prefetch_cache option)" by code_simp
  then show ?thesis unfolding pc_demo0_def by (rule option.collapse [symmetric])
qed

lemma pc_demo_evaluated:
  "map_option (\<lambda>(c, r). (r, pc_demo_view c, pc_demo_view (prefetch_cache_complete c (rr_handle pc_demo_result) (Some 42) DAMACY_OK))) (pc_demo_request pc_demo0 7 100) =
     Some (pc_demo_result, (Some 100, (PREFETCH_STATE_PENDING, None, DAMACY_OK), [3], 0, 1), (Some 100, (PREFETCH_STATE_READY, Some 42, DAMACY_OK), [], 0, 0))"
  by code_simp

lemma pc_demo1_requested: "pc_demo_request pc_demo0 7 100 = Some (pc_demo1, pc_demo_result)"
  and pc_demo_views: "pc_demo_view pc_demo1 = (Some 100, (PREFETCH_STATE_PENDING, None, DAMACY_OK), [3], 0, 1)"
    "pc_demo_view pc_demo2 = (Some 100, (PREFETCH_STATE_READY, Some 42, DAMACY_OK), [], 0, 0)"
  using pc_demo_evaluated by (auto simp: pc_demo1_def pc_demo2_def)

lemma pc_demo3_resolves: "resolve_handle pc_demo3 (rr_handle pc_demo_result) = Some 100"
  using pc_demo_views(2) by (auto simp: pc_demo_view_def pc_demo3_def prefetch_cache_complete_def prefetch_cache_query_def destroy_value_def resolve_handle_def
      Let_def split: if_splits option.splits)

lemma pc_demo_fresh: "fresh_slot (pc_demo_env 100) pc_demo0"
  by code_simp

lemma pc_demo_runs: "pc_run (=) 1 [] pc_demo0 pc_demo1" "pc_run (=) 0 [42] pc_demo1 pc_demo2" "pc_run (=) 0 [9] pc_demo2 pc_demo3"
proof -
  show "pc_run (=) 1 [] pc_demo0 pc_demo1"
    using pc_run.request [OF pc_run.start pc_demo_fresh pc_demo1_requested [unfolded pc_demo_request_def]] by simp
  show "pc_run (=) 0 [42] pc_demo1 pc_demo2" using pc_run.complete [OF pc_run.start, where v = "Some 42"] by (simp add: pc_demo2_def)
  show "pc_run (=) 0 [9] pc_demo2 pc_demo3" using pc_run.complete [OF pc_run.start, where v = "Some 9"] by (simp add: pc_demo3_def)
qed

lemma pc_demo_reachable:
  "pc_reachable (\<lambda>g. 0) (=) 0 [] pc_demo0" "pc_reachable (\<lambda>g. 0) (=) 1 [] pc_demo1" "pc_reachable (\<lambda>g. 0) (=) 1 [42] pc_demo2"
proof -
  show z: "pc_reachable (\<lambda>g. 0) (=) 0 [] pc_demo0"
    unfolding pc_reachable_def using pc_demo0_created pc_demo0_capacity pc_run.start [of "(=)" pc_demo0]
    by (intro conjI exI [of _ "(True, True, True, True, True)"] exI [of _ "Some pc_demo_cfg"] exI [of _ pc_demo0]) (auto simp: refl_keys_def)
  show o: "pc_reachable (\<lambda>g. 0) (=) 1 [] pc_demo1" using reachable_run [OF z pc_demo_runs(1)] by simp
  show "pc_reachable (\<lambda>g. 0) (=) 1 [42] pc_demo2" using reachable_run [OF o pc_demo_runs(2)] by simp
qed

section \<open>Witnesses\<close>

theorem prefetch_cache_invariant_witness: "pc_reachable (\<lambda>g. 0) (=) 1 [42] pc_demo2 \<and> cache_ok pc_demo2"
  using prefetch_cache_invariant [OF pc_demo_reachable(3)] pc_demo_reachable(3) by blast

theorem prefetch_handle_safe_witness:
  "pc_demo_request pc_demo0 7 100 = Some (pc_demo1, pc_demo_result) \<and> pc_run (=) 0 [42] pc_demo1 pc_demo2 \<and>
   resolve_handle pc_demo2 (rr_handle pc_demo_result) = Some 100 \<and> sl_key_hash (slot_at pc_demo2 100) = 5 \<and> sl_key (slot_at pc_demo2 100) = 7"
  using prefetch_handle_safe [OF pc_demo_reachable(1) pc_demo_fresh pc_demo1_requested [unfolded pc_demo_request_def] _ _ pc_demo_runs(2)]
    pc_demo1_requested pc_demo_runs(2) pc_demo_views by (simp add: pc_demo_view_def pc_demo_result_def)

theorem prefetch_query_stable_witness:
  "pc_run (=) 0 [9] pc_demo2 pc_demo3 \<and> prefetch_cache_query pc_demo3 (rr_handle pc_demo_result) = prefetch_cache_query pc_demo2 (rr_handle pc_demo_result)"
  using prefetch_query_stable [OF pc_demo_reachable(3) pc_demo_runs(3), of "rr_handle pc_demo_result"] pc_demo_runs(3) pc_demo_views(2)
    pc_demo3_resolves by (simp add: pc_demo_view_def)

theorem prefetch_gate_opens_witness:
  "pc_reachable (\<lambda>g. 0) (=) 1 [42] pc_demo2 \<and> pc_pending_count pc_demo2 = 0 \<and> prefetch_gate_is_ready (pc_gates pc_demo2) (Some 3)"
proof -
  have "pc_pending_count pc_demo2 = 0" using pc_demo_views(2) by (simp add: pc_demo_view_def)
  with prefetch_gate_opens [OF pc_demo_reachable(3), of 3] pc_demo_reachable(3) show ?thesis by blast
qed


theorem prefetch_failure_reported_witness:
  "resolve_handle pc_demo1 (rr_handle pc_demo_result) = Some 100 \<and> 3 \<in> set (slot_waiters (slot_at pc_demo1 100)) \<and>
   prefetch_gate_has_error (pc_gates (prefetch_cache_complete pc_demo1 (rr_handle pc_demo_result) None DAMACY_IO)) (Some 3)"
proof -
  have v: "resolve_handle pc_demo1 (rr_handle pc_demo_result) = Some 100" "slot_waiters (slot_at pc_demo1 100) = [3]" using pc_demo_views(1) by (simp_all add: pc_demo_view_def)
  moreover have "sl_state (slot_at pc_demo1 100) = PREFETCH_STATE_PENDING" using pc_demo_views(1) v(1) by (simp add: pc_demo_view_def prefetch_cache_query_def Let_def)
  ultimately show ?thesis using prefetch_failure_reported [OF pc_demo_reachable(2) v(1), of DAMACY_IO 3 None] by simp
qed

theorem prefetch_cache_destroy_complete_witness:
  "pc_reachable (\<lambda>g. 0) (=) 1 [42] pc_demo2 \<and> pc_pending_count pc_demo2 = 0 \<and>
   (\<exists>d. prefetch_cache_destroy pc_demo2 = Some (True, d) \<and> pc_slots d = (\<lambda>s. None) \<and> mset (pc_values_destroyed d) = mset [42])"
  using prefetch_cache_destroy_complete [OF pc_demo_reachable(3)] pc_demo_reachable(3) pc_demo_views(2) by (simp add: pc_demo_view_def)

end
