(* ===== verification/Spec2Isabelle.thy ===== *)
theory Spec2Isabelle
  imports Lru_Api Selection_Correct Zarr_Index Coalesce_Correct Group_Chunks Lookahead Batch_Pool Lifecycle Plan_Dispatch Zarr_Document Prefetch_Cache_Run
begin

text \<open>
  Verification library of damacy, a loader that turns samples of Zarr arrays into batches (C sources under src/src/).

  \<^bold>\<open>The program.\<close> A client pushes samples (boxes of voxels of an array) with \<open>damacy_push\<close> and pops finished batches with
  \<open>damacy_pop\<close>. Samples wait in a ring (lookahead/). A prefetcher loads the metadata of their arrays, shards and chunks into caches
  (prefetch/ on util/lru), reading with the parsers of zarr/ and util/json. The scheduler takes \<open>samples_per_batch\<close> samples that are
  ready, the planner (planner/) lists the chunks the samples meet and where their bytes are, the dispatch (executor/) turns the
  plan into aligned reads, fuses neighbouring reads and groups the chunks by read, an executor performs the reads and writes
  the voxels into a slot of the batch pool, and the client pops the slots in order.

  \<^bold>\<open>Conventions.\<close> Unsigned C integers are natural numbers with the wrap-around written out (\<open>u32_add\<close>, \<open>u64_sub\<close>, ... of
  Damacy\_Prelude); hashes, checksums, bytes and gates are words. The outcome of an allocation is a boolean parameter, an object
  that \<open>malloc\<close> returned is a number. A critical section of a mutex is one step; a wait is a parameter that says what the other
  threads did. Loops that may not end have fuel and return an option; each has a lemma that the fuel the code's caller gives is
  enough. Pointers that may be NULL are options, errors are \<open>damacy_status\<close> or \<open>None\<close>.

  \<^bold>\<open>Theories and sources.\<close>
  \<^item> Damacy\_Prelude, Damacy\_Types: status codes, machine arithmetic and generic lemmas; the public data of damacy.h and dtype/.
  \<^item> Lru\_List, Lru, Lru\_Index, Lru\_Correct, Lru\_Api: util/lru.c. The intrusive lists, the robin-hood index with displacement and
    backshift deletion, and every public operation. The locale \<open>entry_store\<close> is the contract of such a store and \<open>bounded_entry_store\<close>
    adds its capacity; both are interpreted on the model. A put refines the abstract recency list, pinned entries stay, every
    value is destroyed once.
  \<^item> Odometer, Selection, Selection\_Correct: query/selection.c. The locale \<open>odometer\<close> is the row-major counter that the grid and the
    shard iterator share. The grid enumerates every chunk of a selection once.
  \<^item> Zarr\_Shards, Zarr\_Index: zarr/sample\_shard\_iterator.c, zarr/zarr\_shard\_index.c with util/crc32c.c, zarr/zarr\_chunk\_layout.c. The index
    of a shard is accepted exactly when it was serialised, and a changed byte is detected.
  \<^item> Json, Json\_Text, Json\_Query, Float\_Bits, Zarr\_Metadata, Zarr\_Metadata\_Correct, Zarr\_Document: util/json.c and
    zarr/zarr\_metadata.c. The lexer against the grammar of JSON, queries and iterators against a semantics on values, and the
    parser of array metadata against what a JSON value describes, with the round trip and termination. Floating point numbers
    are bit patterns.
  \<^item> Prefetch\_Cache, Prefetch\_Cache\_Inv, Prefetch\_Cache\_Correct, Prefetch\_Cache\_Request, Prefetch\_Cache\_Run: prefetch/prefetch\_cache.c.
    The record \<open>prefetch_cache\<close> is the C struct; slots are found by their address in \<open>pc_slots\<close>. \<open>cache_ok\<close> is the invariant,
    \<open>op_ok\<close> what one operation keeps, \<open>pc_run\<close> the runs. Handles are safe, gates open when nothing they wait for is pending,
    requests are refused only when everything is pinned, and every value is destroyed once.
  \<^item> Hash, Strbuf, Path\_Intern: util/hash.c, util/strbuf.c, util/path\_intern.c, and the shard paths of zarr/zarr\_shard\_index.c.
  \<^item> Plan\_Builder, Plan\_Builder\_Correct, Plan\_Cover, Plan\_Source: planner/plan\_builder.c. The two passes (sizing and filling); a
    prepared plan covers exactly the chunks that the samples of a batch meet, with their place in the shards, within the
    storage that was measured.
  \<^item> Dispatch\_Types, Read\_Sort, Coalesce, Coalesce\_Correct, Group\_Chunks, Dispatch, Dispatch\_Correct, Plan\_Dispatch: planner/plan.h and
    executor/. Reads are sorted, fused within the caps and interleaved without losing a byte of any chunk; chunks are
    grouped by read; a plan of the builder meets the preconditions of the dispatch.
  \<^item> Lookahead, Batch\_Pool, Config, Components: lookahead/, batch\_pool/, damacy\_config.c, pipeline/components.c. The locale
    \<open>bounded_queue\<close> is the contract of the ring.
  \<^item> Pipeline, Lifecycle: damacy\_plan.c, damacy\_push.c, damacy\_pop.c, damacy\_scheduler.c, damacy\_lifecycle.c. Plans are submitted in the
    order of the batches, a pop always answers, a failed pipeline accepts nothing more, a failed creation undoes its steps.

  \<^bold>\<open>Bounds.\<close> Caches have at most \<open>2 ^ 30\<close> entries, because \<open>lru_create\<close> doubles the capacity in 32 bits. A run of the metadata
  cache has fewer than \<open>2 ^ 30\<close> requests, so that generations do not repeat, and its gates start below \<open>2 ^ 62\<close>, so that the error bit is
  not reached by counting. The fuel of the JSON reader is the length of its input, that of the probe loops the number of cells.

  \<^bold>\<open>Not modelled.\<close> The executors (executor/cpu\_executor.c, executor/cuda\_executor.c, wave/, assemble/, decoder/, render\_job/,
  gpu\_budget/, util/pool.c): kernels, streams, decompressors and floating point conversion outside the sources, and threads that
  write one buffer concurrently. The stores and queues (store/, io\_queue/) and the platform (platform/, threadpool/, numa/): the
  operating system. The typed caches and the prefetcher thread on top of the modelled cache (prefetch/array\_meta.c,
  prefetch/chunk\_layout.c, prefetch/shard\_index.c, prefetch/prefetcher.c) and the threads of the scheduler and the planner
  (scheduler/, planner/planner.c, pipeline/zarr\_planner.c): their effect enters the models as the prepared values and the order of
  calls. The spatial index (query/spatial.c, ngff/): a wrapper of a third-party tree and floating point transformations. Logging,
  statistics, bindings and benchmarks.
\<close>

end
